(* ===== verification/OSF_Prelude.thy ===== *)
theory OSF_Prelude
  imports Complex_Main "HOL-Library.Sublist"
begin

text \<open>
  What every theory of the development shares: results with an error side, association lists
  with the update discipline of a JavaScript \<open>Map\<close>, and the generic list facts the component
  proofs use.  The collections \<open>result_simps\<close> and \<open>assoc_simps\<close> are handed to \<open>simp\<close> as a whole.
\<close>

named_theorems result_simps \<open>how a computation that may stop with an error unfolds\<close>
named_theorems assoc_simps \<open>lookup, insertion and deletion in an insertion-ordered map\<close>

section \<open>Results\<close>

text \<open>
  A computation that may throw is a sum: \<open>Inl\<close> the thrown value, \<open>Inr\<close> the result.
\<close>

fun rbind :: "'e + 'a \<Rightarrow> ('a \<Rightarrow> 'e + 'b) \<Rightarrow> 'e + 'b" where
  "rbind (Inl e) f = Inl e"
| "rbind (Inr a) f = f a"

fun is_ok :: "'e + 'a \<Rightarrow> bool" where
  "is_ok (Inl _) = False"
| "is_ok (Inr _) = True"

lemma rbind_Inr_iff [result_simps]: "rbind r f = Inr b \<longleftrightarrow> (\<exists>a. r = Inr a \<and> f a = Inr b)"
  by (cases r) auto

lemma rbind_Inl_iff [result_simps]:
  "rbind r f = Inl e \<longleftrightarrow> r = Inl e \<or> (\<exists>a. r = Inr a \<and> f a = Inl e)"
  by (cases r) auto

lemma rbind_cong [fundef_cong]:
  "r = r' \<Longrightarrow> (\<And>a. r' = Inr a \<Longrightarrow> f a = g a) \<Longrightarrow> rbind r f = rbind r' g"
  by (cases r') auto

section \<open>Insertion-ordered maps\<close>

text \<open>
  A JavaScript \<open>Map\<close> keeps its entries in the order their keys were first set; \<open>set\<close> on a
  present key changes the value in place, \<open>delete\<close> removes the entry.  The map is the list of
  its entries with distinct keys.
\<close>

fun massoc_set :: "'k \<Rightarrow> 'v \<Rightarrow> ('k \<times> 'v) list \<Rightarrow> ('k \<times> 'v) list" where
  "massoc_set k v [] = [(k, v)]"
| "massoc_set k v ((k', v') # m) = (if k' = k then (k, v) # m else (k', v') # massoc_set k v m)"

fun massoc_delete :: "'k \<Rightarrow> ('k \<times> 'v) list \<Rightarrow> ('k \<times> 'v) list" where
  "massoc_delete k [] = []"
| "massoc_delete k ((k', v') # m) = (if k' = k then m else (k', v') # massoc_delete k m)"

definition massoc_has :: "'k \<Rightarrow> ('k \<times> 'v) list \<Rightarrow> bool" where
  "massoc_has k m = (map_of m k \<noteq> None)"

lemma map_of_massoc_set [assoc_simps]: "map_of (massoc_set k v m) = (map_of m)(k \<mapsto> v)"
  by (induction k v m rule: massoc_set.induct) auto

lemma keys_massoc_set [assoc_simps]:
  "map fst (massoc_set k v m) =
     (if k \<in> fst ` set m then map fst m else map fst m @ [k])"
  by (induction k v m rule: massoc_set.induct) force+

lemma set_keys_massoc_set [assoc_simps]: "fst ` set (massoc_set k v m) = insert k (fst ` set m)"
  by (induction k v m rule: massoc_set.induct) auto

lemma distinct_massoc_set [assoc_simps]:
  "distinct (map fst m) \<Longrightarrow> distinct (map fst (massoc_set k v m))"
  by (simp add: keys_massoc_set)

lemma set_massoc_delete_subset: "set (massoc_delete k m) \<subseteq> set m"
  by (induction k m rule: massoc_delete.induct) auto

lemma keys_massoc_delete [assoc_simps]:
  "distinct (map fst m) \<Longrightarrow> map fst (massoc_delete k m) = filter (\<lambda>x. x \<noteq> k) (map fst m)"
proof (induction k m rule: massoc_delete.induct)
  case (2 k k' v' m)
  show ?case
  proof (cases "k' = k")
    case True
    with "2.prems" have "\<forall>x\<in>set (map fst m). x \<noteq> k" by auto
    with True show ?thesis by (simp add: filter_True)
  next
    case False
    with 2 show ?thesis by simp
  qed
qed simp

lemma distinct_massoc_delete [assoc_simps]:
  "distinct (map fst m) \<Longrightarrow> distinct (map fst (massoc_delete k m))"
  by (simp add: keys_massoc_delete)

lemma map_of_massoc_delete [assoc_simps]:
  "distinct (map fst m) \<Longrightarrow> map_of (massoc_delete k m) = (map_of m)(k := None)"
  by (induction k m rule: massoc_delete.induct)
     (auto simp: fun_eq_iff map_of_eq_None_iff image_iff)

lemma massoc_has_iff [assoc_simps]: "massoc_has k m \<longleftrightarrow> k \<in> fst ` set m"
  by (simp add: massoc_has_def map_of_eq_None_iff)

section \<open>Lists\<close>

text \<open>\<open>Array.prototype.find\<close>.\<close>

fun find_first :: "('a \<Rightarrow> bool) \<Rightarrow> 'a list \<Rightarrow> 'a option" where
  "find_first p [] = None"
| "find_first p (x # xs) = (if p x then Some x else find_first p xs)"

lemma find_first_Some: "find_first p xs = Some x \<Longrightarrow> x \<in> set xs \<and> p x"
  by (induction xs) (auto split: if_splits)

lemma find_first_None: "find_first p xs = None \<longleftrightarrow> (\<forall>x\<in>set xs. \<not> p x)"
  by (induction xs) auto

text \<open>\<open>[...new Set(xs)]\<close>: the first occurrence of every element, in order.\<close>

fun uniq_aux :: "'a list \<Rightarrow> 'a list \<Rightarrow> 'a list" where
  "uniq_aux seen [] = []"
| "uniq_aux seen (x # xs) =
     (if x \<in> set seen then uniq_aux seen xs else x # uniq_aux (x # seen) xs)"

definition uniq :: "'a list \<Rightarrow> 'a list" where
  "uniq xs = uniq_aux [] xs"

lemma set_uniq_aux: "set (uniq_aux seen xs) = set xs - set seen"
  by (induction seen xs rule: uniq_aux.induct) auto

lemma set_uniq [simp]: "set (uniq xs) = set xs"
  by (simp add: uniq_def set_uniq_aux)

lemma distinct_uniq_aux: "distinct (uniq_aux seen xs)"
  by (induction seen xs rule: uniq_aux.induct) (auto simp: set_uniq_aux)

lemma distinct_uniq [simp]: "distinct (uniq xs)"
  by (simp add: uniq_def distinct_uniq_aux)

end
