(* ===== verification/Js_Number.thy ===== *)
theory Js_Number
  imports OSF_Prelude "HOL-Library.Log_Nat"
begin

text \<open>
  JavaScript numbers: IEEE 754 binary64.  A finite number is the rational it denotes
  (\<open>JFin 0\<close> is \<open>+0\<close>; \<open>-0\<close> has a constructor of its own), so every operation is the exact
  operation followed by \<open>round_double\<close>, round-half-even to 53 bits with gradual underflow.
\<close>

datatype jsnum = JNaN | JPosInf | JNegInf | JNegZero | JFin rat

section \<open>Rounding\<close>

definition round_half_even :: "rat \<Rightarrow> int" where
  "round_half_even q =
     (let f = \<lfloor>q\<rfloor>; d = q - of_int f
      in if d < 1 / 2 then f else if d > 1 / 2 then f + 1 else if even f then f else f + 1)"

definition pow2 :: "int \<Rightarrow> rat" where
  "pow2 e = (if 0 \<le> e then 2 ^ nat e else 1 / 2 ^ nat (- e))"

text \<open>The binary exponent of a non-zero rational: the \<open>e\<close> with \<open>2 ^ e \<le> \<bar>q\<bar> < 2 ^ (e + 1)\<close>.\<close>

definition exponent_of :: "rat \<Rightarrow> int" where
  "exponent_of q =
     (let (a, b) = quotient_of \<bar>q\<bar>; e = bitlen a - bitlen b
      in if pow2 e \<le> \<bar>q\<bar> then e else e - 1)"

definition round_double :: "rat \<Rightarrow> jsnum" where
  "round_double q =
     (if q = 0 then JFin 0
      else let u = max (exponent_of q - 52) (- 1074);
               m = round_half_even (q / pow2 u);
               r = of_int m * pow2 u
           in if m = 0 then (if q < 0 then JNegZero else JFin 0)
              else if pow2 1024 \<le> r then JPosInf
              else if r \<le> - pow2 1024 then JNegInf
              else JFin r)"

section \<open>Reading a number\<close>

definition jint :: "int \<Rightarrow> jsnum" where
  "jint i = JFin (of_int i)"

fun js_finite :: "jsnum \<Rightarrow> bool" where
  "js_finite JNegZero = True"
| "js_finite (JFin _) = True"
| "js_finite _ = False"

fun js_is_nan :: "jsnum \<Rightarrow> bool" where
  "js_is_nan JNaN = True"
| "js_is_nan _ = False"

text \<open>The exact value of a finite number (0 on the others, which no use reads).\<close>

fun js_val :: "jsnum \<Rightarrow> rat" where
  "js_val (JFin r) = r"
| "js_val _ = 0"

text \<open>The sign bit.\<close>

fun js_neg_bit :: "jsnum \<Rightarrow> bool" where
  "js_neg_bit JNegInf = True"
| "js_neg_bit JNegZero = True"
| "js_neg_bit (JFin r) = (r < 0)"
| "js_neg_bit _ = False"

fun js_infinite :: "jsnum \<Rightarrow> bool" where
  "js_infinite JPosInf = True"
| "js_infinite JNegInf = True"
| "js_infinite _ = False"

definition js_is_zero :: "jsnum \<Rightarrow> bool" where
  "js_is_zero x = (js_finite x \<and> js_val x = 0)"

definition signed_zero :: "bool \<Rightarrow> jsnum" where
  "signed_zero neg = (if neg then JNegZero else JFin 0)"

definition signed_inf :: "bool \<Rightarrow> jsnum" where
  "signed_inf neg = (if neg then JNegInf else JPosInf)"

section \<open>Arithmetic\<close>

fun js_neg :: "jsnum \<Rightarrow> jsnum" where
  "js_neg JNaN = JNaN"
| "js_neg JPosInf = JNegInf"
| "js_neg JNegInf = JPosInf"
| "js_neg JNegZero = JFin 0"
| "js_neg (JFin r) = (if r = 0 then JNegZero else JFin (- r))"

fun js_add :: "jsnum \<Rightarrow> jsnum \<Rightarrow> jsnum" where
  "js_add JNaN _ = JNaN"
| "js_add _ JNaN = JNaN"
| "js_add JPosInf b = (if b = JNegInf then JNaN else JPosInf)"
| "js_add JNegInf b = (if b = JPosInf then JNaN else JNegInf)"
| "js_add _ JPosInf = JPosInf"
| "js_add _ JNegInf = JNegInf"
| "js_add JNegZero JNegZero = JNegZero"
| "js_add a b = round_double (js_val a + js_val b)"

definition js_sub :: "jsnum \<Rightarrow> jsnum \<Rightarrow> jsnum" where
  "js_sub a b = js_add a (js_neg b)"

definition js_mul :: "jsnum \<Rightarrow> jsnum \<Rightarrow> jsnum" where
  "js_mul a b =
     (if js_is_nan a \<or> js_is_nan b then JNaN
      else if js_infinite a \<or> js_infinite b
      then (if js_is_zero a \<or> js_is_zero b then JNaN
            else signed_inf (js_neg_bit a \<noteq> js_neg_bit b))
      else if js_val a * js_val b = 0 then signed_zero (js_neg_bit a \<noteq> js_neg_bit b)
      else round_double (js_val a * js_val b))"

definition js_div :: "jsnum \<Rightarrow> jsnum \<Rightarrow> jsnum" where
  "js_div a b =
     (if js_is_nan a \<or> js_is_nan b then JNaN
      else if js_infinite a
      then (if js_infinite b then JNaN else signed_inf (js_neg_bit a \<noteq> js_neg_bit b))
      else if js_infinite b then signed_zero (js_neg_bit a \<noteq> js_neg_bit b)
      else if js_is_zero b
      then (if js_is_zero a then JNaN else signed_inf (js_neg_bit a \<noteq> js_neg_bit b))
      else if js_val a = 0 then signed_zero (js_neg_bit a \<noteq> js_neg_bit b)
      else round_double (js_val a / js_val b))"

definition trunc_rat :: "rat \<Rightarrow> int" where
  "trunc_rat q = (if q < 0 then \<lceil>q\<rceil> else \<lfloor>q\<rfloor>)"

text \<open>The \<open>%\<close> operator: the remainder takes the sign of the dividend.\<close>

definition js_rem :: "jsnum \<Rightarrow> jsnum \<Rightarrow> jsnum" where
  "js_rem a b =
     (if js_is_nan a \<or> js_is_nan b \<or> js_infinite a \<or> js_is_zero b then JNaN
      else if js_infinite b then a
      else let r = js_val a - js_val b * of_int (trunc_rat (js_val a / js_val b))
           in if r = 0 then signed_zero (js_neg_bit a) else JFin r)"

section \<open>Comparison\<close>

text \<open>\<open>===\<close> on numbers: NaN equals nothing, the two zeros are equal.\<close>

definition js_eq :: "jsnum \<Rightarrow> jsnum \<Rightarrow> bool" where
  "js_eq a b =
     (if js_is_nan a \<or> js_is_nan b then False
      else if js_finite a \<and> js_finite b then js_val a = js_val b
      else a = b)"

definition js_lt :: "jsnum \<Rightarrow> jsnum \<Rightarrow> bool" where
  "js_lt a b =
     (if js_is_nan a \<or> js_is_nan b then False
      else if a = JPosInf \<or> b = JNegInf then False
      else if a = JNegInf \<or> b = JPosInf then True
      else js_val a < js_val b)"

definition js_le :: "jsnum \<Rightarrow> jsnum \<Rightarrow> bool" where
  "js_le a b = (js_lt a b \<or> js_eq a b)"

section \<open>The functions of \<open>Math\<close>\<close>

text \<open>
  An integer-valued result that is 0 keeps the sign of its argument (\<open>Math.ceil(-0.5)\<close> is \<open>-0\<close>).
\<close>

definition js_integral :: "(rat \<Rightarrow> int) \<Rightarrow> jsnum \<Rightarrow> jsnum" where
  "js_integral f x =
     (case x of
        JFin r \<Rightarrow> (if f r = 0 then signed_zero (r < 0) else JFin (of_int (f r)))
      | _ \<Rightarrow> x)"

definition js_floor :: "jsnum \<Rightarrow> jsnum" where
  "js_floor = js_integral floor"

definition js_ceil :: "jsnum \<Rightarrow> jsnum" where
  "js_ceil = js_integral ceiling"

text \<open>\<open>Math.round\<close>: the nearest integer, a tie goes up.\<close>

definition js_round :: "jsnum \<Rightarrow> jsnum" where
  "js_round = js_integral (\<lambda>r. \<lfloor>r + 1 / 2\<rfloor>)"

definition js_trunc :: "jsnum \<Rightarrow> jsnum" where
  "js_trunc = js_integral trunc_rat"

definition js_abs :: "jsnum \<Rightarrow> jsnum" where
  "js_abs x = (if js_neg_bit x then js_neg x else x)"

text \<open>\<open>Math.min\<close> and \<open>Math.max\<close> of two numbers: NaN wins, \<open>-0\<close> is below \<open>+0\<close>.\<close>

definition js_min2 :: "jsnum \<Rightarrow> jsnum \<Rightarrow> jsnum" where
  "js_min2 a b =
     (if js_is_nan a \<or> js_is_nan b then JNaN
      else if js_lt a b then a
      else if js_lt b a then b
      else if js_neg_bit a then a else b)"

definition js_max2 :: "jsnum \<Rightarrow> jsnum \<Rightarrow> jsnum" where
  "js_max2 a b =
     (if js_is_nan a \<or> js_is_nan b then JNaN
      else if js_lt a b then b
      else if js_lt b a then a
      else if js_neg_bit a then b else a)"

definition js_min :: "jsnum list \<Rightarrow> jsnum" where
  "js_min xs = foldl js_min2 JPosInf xs"

definition js_max :: "jsnum list \<Rightarrow> jsnum" where
  "js_max xs = foldl js_max2 JNegInf xs"

section \<open>Facts\<close>

lemma js_finite_cases: "js_finite x \<longleftrightarrow> x = JNegZero \<or> (\<exists>r. x = JFin r)"
  by (cases x) auto

lemma js_finite_jint [simp]: "js_finite (jint i)"
  by (simp add: jint_def)

lemma js_val_jint [simp]: "js_val (jint i) = of_int i"
  by (simp add: jint_def)

lemma js_is_nan_jint [simp]: "\<not> js_is_nan (jint i)"
  by (simp add: jint_def)

lemma js_eq_refl: "\<not> js_is_nan a \<Longrightarrow> js_eq a a"
  by (cases a) (auto simp: js_eq_def)

lemma js_eq_sym: "js_eq a b = js_eq b a"
  by (auto simp: js_eq_def)

lemma js_eq_nan [simp]: "\<not> js_eq JNaN a" "\<not> js_eq a JNaN"
  by (simp_all add: js_eq_def)

lemma js_eq_jint [simp]: "js_eq (jint i) (jint j) \<longleftrightarrow> i = j"
  by (simp add: js_eq_def)

lemma js_lt_jint [simp]: "js_lt (jint i) (jint j) \<longleftrightarrow> i < j"
  by (simp add: js_lt_def jint_def)

lemma js_lt_irrefl: "\<not> js_lt a a"
  by (simp add: js_lt_def)

lemma js_lt_not_eq: "js_lt a b \<Longrightarrow> \<not> js_eq a b"
  by (cases a; cases b) (auto simp: js_lt_def js_eq_def)

lemma js_trichotomy:
  "\<not> js_is_nan a \<Longrightarrow> \<not> js_is_nan b \<Longrightarrow> js_lt a b \<or> js_eq a b \<or> js_lt b a"
  by (cases a; cases b) (auto simp: js_lt_def js_eq_def)

lemma js_lt_trans: "js_lt a b \<Longrightarrow> js_lt b c \<Longrightarrow> js_lt a c"
  by (cases a; cases b; cases c) (auto simp: js_lt_def split: if_splits)

lemma round_double_not_nan [simp]: "\<not> js_is_nan (round_double q)"
  by (simp add: round_double_def Let_def)

lemma js_neg_neg: "js_neg (js_neg a) = a"
  by (cases a) auto

section \<open>Integers below \<open>2 ^ 53\<close> are exact\<close>

lemma round_half_even_of_int [simp]: "round_half_even (of_int i) = i"
  by (simp add: round_half_even_def)

lemma pow2_nonneg_of_int: "0 \<le> e \<Longrightarrow> pow2 e = of_int (2 ^ nat e)"
  by (simp add: pow2_def)

lemma pow2_pos [simp]: "0 < pow2 e"
  by (simp add: pow2_def)

lemma pow2_neg: "0 \<le> e \<Longrightarrow> x / pow2 (- e) = x * pow2 e"
  by (auto simp: pow2_def)

lemma exponent_of_int:
  assumes "i \<noteq> 0"
  shows "exponent_of (of_int i) = bitlen \<bar>i\<bar> - 1"
proof -
  have q: "quotient_of \<bar>of_int i :: rat\<bar> = (\<bar>i\<bar>, 1)"
    by (simp flip: of_int_abs add: quotient_of_int)
  have pos: "0 < \<bar>i\<bar>" using assms by simp
  have b: "2 ^ nat (bitlen \<bar>i\<bar> - 1) \<le> \<bar>i\<bar>"
    using bitlen_bounds [OF pos] by simp
  have "1 \<le> bitlen \<bar>i\<bar>"
    using pos bitlen_eq_zero_iff [of "\<bar>i\<bar>"] bitlen_nonneg [of "\<bar>i\<bar>"] by linarith
  then have "pow2 (bitlen \<bar>i\<bar> - 1) \<le> of_int \<bar>i\<bar>"
    using b by (simp add: pow2_nonneg_of_int flip: of_int_power)
  moreover have "bitlen 1 = 1" by (subst compute_bitlen) simp
  ultimately show ?thesis by (simp add: exponent_of_def q Let_def)
qed

lemma round_double_of_int [simp]:
  assumes "\<bar>i\<bar> < 2 ^ 53"
  shows "round_double (of_int i) = JFin (of_int i)"
proof (cases "i = 0")
  case False
  define e where "e = bitlen \<bar>i\<bar> - 1"
  have pos: "0 < \<bar>i\<bar>" using False by simp
  have e0: "0 \<le> e" using pos bitlen_eq_zero_iff [of "\<bar>i\<bar>"] bitlen_nonneg [of "\<bar>i\<bar>"]
    unfolding e_def by linarith
  have "bitlen \<bar>i\<bar> \<le> 53" using assms by (simp add: bitlen_le_iff_power)
  then have e52: "e \<le> 52" by (simp add: e_def)
  have ex: "exponent_of (of_int i) = e" by (simp add: exponent_of_int False e_def)
  have u: "max (e - 52) (- 1074) = - (52 - e)" using e0 by simp
  define k where "k = 52 - e"
  have k0: "0 \<le> k" using e52 by (simp add: k_def)
  have m: "(of_int i :: rat) / pow2 (- k) = of_int (i * 2 ^ nat k)"
    using k0 by (simp add: pow2_neg pow2_nonneg_of_int)
  have r: "of_int (i * 2 ^ nat k) * pow2 (- k) = (of_int i :: rat)"
    using k0 by (cases "k = 0") (simp_all add: pow2_def)
  have big: "(of_int \<bar>i\<bar> :: rat) < pow2 1024"
  proof -
    have "\<bar>i\<bar> < 2 ^ 1024" using assms by simp
    then show ?thesis by (simp add: pow2_nonneg_of_int flip: of_int_power)
  qed
  show ?thesis
    using False big
    by (simp add: round_double_def ex u [folded k_def] m r Let_def abs_less_iff del: of_int_mult)
qed (simp add: round_double_def)

lemma round_double_numeral [simp]:
  "(numeral n :: int) < 2 ^ 53 \<Longrightarrow> round_double (numeral n) = JFin (numeral n)"
  using round_double_of_int [of "numeral n"] by simp

lemma round_double_neg_numeral [simp]:
  "(numeral n :: int) < 2 ^ 53 \<Longrightarrow> round_double (- numeral n) = JFin (- numeral n)"
  using round_double_of_int [of "- numeral n"] by simp

lemma round_double_0_1 [simp]: "round_double 0 = JFin 0" "round_double 1 = JFin 1"
  using round_double_of_int [of 0] round_double_of_int [of 1] by simp_all

lemma js_add_jint [simp]:
  "\<bar>i + j\<bar> < 2 ^ 53 \<Longrightarrow> js_add (jint i) (jint j) = jint (i + j)"
  using round_double_of_int [of "i + j"] by (simp add: jint_def)

lemma js_neg_jint [simp]: "js_neg (jint i) = (if i = 0 then JNegZero else jint (- i))"
  by (simp add: jint_def)

lemma js_sub_jint [simp]:
  "\<bar>i - j\<bar> < 2 ^ 53 \<Longrightarrow> js_sub (jint i) (jint j) = jint (i - j)"
  using round_double_of_int [of "i - j"] by (simp add: jint_def js_sub_def)

lemma js_mul_jint [simp]:
  "i * j \<noteq> 0 \<Longrightarrow> \<bar>i * j\<bar> < 2 ^ 53 \<Longrightarrow> js_mul (jint i) (jint j) = jint (i * j)"
  using round_double_of_int [of "i * j"] by (simp add: jint_def js_mul_def)

lemma js_trunc_jint [simp]: "js_trunc (jint i) = jint i"
  by (simp add: js_trunc_def js_integral_def jint_def signed_zero_def trunc_rat_def)

section \<open>Numbers too large\<close>

lemma round_half_even_ge: "of_int n \<le> q \<Longrightarrow> n \<le> round_half_even q"
  using le_floor_iff [of n q] by (auto simp: round_half_even_def Let_def)

lemma pow2_split: "0 \<le> a \<Longrightarrow> 0 \<le> b \<Longrightarrow> pow2 (a + b) = pow2 a * pow2 b"
  by (simp add: pow2_def nat_add_distrib power_add)

lemma round_double_large:
  assumes "2 ^ 1024 \<le> i"
  shows "round_double (of_int i) = JPosInf"
proof -
  have pos: "0 < i" using assms by (rule less_le_trans [rotated]) simp
  define e where "e = bitlen i - 1"
  have ex: "exponent_of (of_int i) = e" using exponent_of_int [of i] pos by (simp add: e_def)
  have "1024 < bitlen i"
    using assms bitlen_le_iff_power [of i 1024] by (auto simp: not_le [symmetric])
  then have e: "1024 \<le> e" by (simp add: e_def)
  define m where "m = round_half_even (of_int i / pow2 (e - 52))"
  have "2 ^ nat e \<le> i" using bitlen_bounds [OF pos] by (simp add: e_def)
  then have "pow2 e \<le> of_int i" using e by (simp add: pow2_nonneg_of_int flip: of_int_power)
  moreover have s: "pow2 e = pow2 52 * pow2 (e - 52)" using pow2_split [of 52 "e - 52"] e by simp
  ultimately have "of_int (2 ^ 52) \<le> (of_int i :: rat) / pow2 (e - 52)"
    by (simp add: pow2_nonneg_of_int [of 52] field_simps)
  then have m: "2 ^ 52 \<le> m" unfolding m_def by (rule round_half_even_ge)
  then have "pow2 52 \<le> of_int m" by (simp add: pow2_nonneg_of_int flip: of_int_power)
  then have le: "pow2 52 * pow2 (e - 52) \<le> of_int m * pow2 (e - 52)"
    by (rule mult_right_mono) (simp add: less_imp_le)
  have "pow2 1024 \<le> pow2 e"
    using pow2_split [of 1024 "e - 1024"] e by (simp add: pow2_nonneg_of_int flip: of_int_power of_int_mult)
  then have "pow2 1024 \<le> of_int m * pow2 (e - 52)" using le unfolding s by (rule order_trans)
  moreover have "m \<noteq> 0" using m by auto
  moreover have "max (e - 52) (- 1074) = e - 52" using e by simp
  ultimately show ?thesis using pos by (simp add: round_double_def ex Let_def flip: m_def)
qed

end
