(* ===== verification/Js_Text.thy ===== *)
theory Js_Text
  imports Js_Number
begin

text \<open>
  JavaScript text and its conversions from and to numbers.  A string is the list of its code
  units, one \<open>char\<close> each, so the code units are those of Latin-1 (U+0000 to U+00FF); the
  character classes below are the Unicode ones on that range.  Two letters (U+00B5 and U+00FF)
  have their capital outside it and stay as they are.
\<close>

section \<open>Character classes\<close>

definition code :: "char \<Rightarrow> nat" where
  "code c = of_char c"

definition is_digit :: "char \<Rightarrow> bool" where
  "is_digit c = (48 \<le> code c \<and> code c \<le> 57)"

text \<open>\<open>\s\<close>, which is also what \<open>trim\<close> removes.\<close>

definition is_space :: "char \<Rightarrow> bool" where
  "is_space c = ((9 \<le> code c \<and> code c \<le> 13) \<or> code c = 32 \<or> code c = 160)"

text \<open>\<open>\p{L}\<close>.\<close>

definition is_letter :: "char \<Rightarrow> bool" where
  "is_letter c =
     (let n = code c
      in (65 \<le> n \<and> n \<le> 90) \<or> (97 \<le> n \<and> n \<le> 122) \<or> n = 170 \<or> n = 181 \<or> n = 186 \<or>
         (192 \<le> n \<and> n \<noteq> 215 \<and> n \<noteq> 247))"

text \<open>\<open>\p{N}\<close>.\<close>

definition is_numeral :: "char \<Rightarrow> bool" where
  "is_numeral c = (is_digit c \<or> code c \<in> {178, 179, 185, 188, 189, 190})"

definition upper_char :: "char \<Rightarrow> string" where
  "upper_char c =
     (let n = code c
      in if (97 \<le> n \<and> n \<le> 122) \<or> (224 \<le> n \<and> n \<le> 254 \<and> n \<noteq> 247) then [char_of (n - 32)]
         else if n = 223 then ''SS'' else [c])"

definition lower_char :: "char \<Rightarrow> char" where
  "lower_char c =
     (let n = code c
      in if (65 \<le> n \<and> n \<le> 90) \<or> (192 \<le> n \<and> n \<le> 222 \<and> n \<noteq> 215) then char_of (n + 32) else c)"

definition to_upper :: "string \<Rightarrow> string" where
  "to_upper s = concat (map upper_char s)"

definition to_lower :: "string \<Rightarrow> string" where
  "to_lower s = map lower_char s"

section \<open>Searching and cutting\<close>

definition js_trim :: "string \<Rightarrow> string" where
  "js_trim s = rev (dropWhile is_space (rev (dropWhile is_space s)))"

text \<open>\<open>s.slice(a, b)\<close> for non-negative bounds.\<close>

definition js_slice :: "nat \<Rightarrow> nat \<Rightarrow> 'a list \<Rightarrow> 'a list" where
  "js_slice a b s = take (b - a) (drop a s)"

definition starts_with :: "string \<Rightarrow> string \<Rightarrow> bool" where
  "starts_with s p = prefix p s"

definition ends_with :: "string \<Rightarrow> string \<Rightarrow> bool" where
  "ends_with s p = suffix p s"

fun text_includes :: "string \<Rightarrow> string \<Rightarrow> bool" where
  "text_includes [] p = (p = [])"
| "text_includes (c # s) p = (prefix p (c # s) \<or> text_includes s p)"

text \<open>\<open>text.indexOf(needle)\<close>; \<open>None\<close> is \<open>-1\<close>.\<close>

fun index_of :: "string \<Rightarrow> string \<Rightarrow> nat option" where
  "index_of [] p = (if p = [] then Some 0 else None)"
| "index_of (c # s) p = (if prefix p (c # s) then Some 0 else map_option Suc (index_of s p))"

definition index_of_from :: "string \<Rightarrow> string \<Rightarrow> nat \<Rightarrow> nat option" where
  "index_of_from s p from = map_option (\<lambda>i. i + from) (index_of (drop from s) p)"

text \<open>
  \<open>text.split(needle)\<close> for a non-empty needle: the stretches between its non-overlapping
  occurrences, found from the left.  The counter skips the characters of an occurrence.
\<close>

fun split_text_aux :: "nat \<Rightarrow> string \<Rightarrow> string \<Rightarrow> string \<Rightarrow> string list" where
  "split_text_aux _ p acc [] = [rev acc]"
| "split_text_aux (Suc k) p acc (c # s) = split_text_aux k p acc s"
| "split_text_aux 0 p acc (c # s) =
     (if prefix p (c # s) then rev acc # split_text_aux (length p - 1) p [] s
      else split_text_aux 0 p (c # acc) s)"

definition split_text :: "string \<Rightarrow> string \<Rightarrow> string list" where
  "split_text p s = split_text_aux 0 p [] s"

fun join :: "string \<Rightarrow> string list \<Rightarrow> string" where
  "join sep [] = []"
| "join sep [s] = s"
| "join sep (s # t # ts) = s @ sep @ join sep (t # ts)"

definition pad_start :: "nat \<Rightarrow> char \<Rightarrow> string \<Rightarrow> string" where
  "pad_start w c s = replicate (w - length s) c @ s"

section \<open>Decimal notation\<close>

definition digit_char :: "nat \<Rightarrow> char" where
  "digit_char d = char_of (48 + d)"

fun nat_digits :: "nat \<Rightarrow> string" where
  "nat_digits n = (if n < 10 then [digit_char n] else nat_digits (n div 10) @ [digit_char (n mod 10)])"

declare nat_digits.simps [simp del]

definition int_text :: "int \<Rightarrow> string" where
  "int_text i = (if i < 0 then CHR ''-'' # nat_digits (nat (- i)) else nat_digits (nat i))"

definition digits_value :: "string \<Rightarrow> nat" where
  "digits_value s = foldl (\<lambda>a c. 10 * a + (code c - 48)) 0 s"

definition pow10 :: "int \<Rightarrow> rat" where
  "pow10 e = (if 0 \<le> e then 10 ^ nat e else 1 / 10 ^ nat (- e))"

subsection \<open>The decimal literal grammar\<close>

text \<open>
  \<open>(?:\d+(?:\.\d*)?|\.\d+)(?:[eE][+-]?\d+)?\<close> at the start of a text: the matched text, the
  integer digits, the fraction digits, the exponent and what follows.
\<close>

definition scan_mantissa :: "string \<Rightarrow> (string \<times> string \<times> string \<times> string) option" where
  "scan_mantissa s =
     (let i = takeWhile is_digit s; r = dropWhile is_digit s
      in if r \<noteq> [] \<and> hd r = CHR ''.''
         then let f = takeWhile is_digit (tl r)
              in if i = [] \<and> f = [] then None
                 else Some (i @ CHR ''.'' # f, i, f, dropWhile is_digit (tl r))
         else if i = [] then None else Some (i, i, [], r))"

definition scan_exponent :: "string \<Rightarrow> (string \<times> int \<times> string)" where
  "scan_exponent s =
     (case s of
        e # r \<Rightarrow>
          (if e = CHR ''e'' \<or> e = CHR ''E''
           then let (sg, r') = (case r of
                                  c # r' \<Rightarrow> if c = CHR ''+'' \<or> c = CHR ''-'' then ([c], r') else ([], r)
                                | [] \<Rightarrow> ([], []));
                    d = takeWhile is_digit r'
                in if d = [] then ([], 0, s)
                   else (e # sg @ d,
                         (if sg = ''-'' then - int (digits_value d) else int (digits_value d)),
                         dropWhile is_digit r')
           else ([], 0, s))
      | [] \<Rightarrow> ([], 0, []))"

definition decimal_value :: "string \<Rightarrow> string \<Rightarrow> int \<Rightarrow> rat" where
  "decimal_value i f e = of_nat (digits_value (i @ f)) * pow10 (e - int (length f))"

text \<open>The match of the grammar at the start of \<open>s\<close>: its text, its exact value, the rest.\<close>

definition scan_number :: "string \<Rightarrow> (string \<times> rat \<times> string) option" where
  "scan_number s =
     (case scan_mantissa s of
        None \<Rightarrow> None
      | Some (m, i, f, r) \<Rightarrow>
          (case scan_exponent r of (x, e, r') \<Rightarrow> Some (m @ x, decimal_value i f e, r')))"

subsection \<open>\<open>Number(text)\<close>\<close>

definition digit_of_radix :: "nat \<Rightarrow> char \<Rightarrow> nat option" where
  "digit_of_radix b c =
     (let n = code (lower_char c);
          d = (if is_digit c then n - 48 else if 97 \<le> n \<and> n \<le> 122 then n - 87 else 99)
      in if d < b then Some d else None)"

definition radix_value :: "nat \<Rightarrow> string \<Rightarrow> jsnum" where
  "radix_value b s =
     (if s = [] \<or> list_ex (\<lambda>c. digit_of_radix b c = None) s then JNaN
      else round_double (of_nat (foldl (\<lambda>a c. b * a + the (digit_of_radix b c)) 0 s)))"

definition unsigned_number :: "string \<Rightarrow> jsnum" where
  "unsigned_number s =
     (if s = ''Infinity'' then JPosInf
      else case scan_number s of
             Some (_, q, []) \<Rightarrow> round_double q
           | _ \<Rightarrow> JNaN)"

definition text_to_number :: "string \<Rightarrow> jsnum" where
  "text_to_number s =
     (let t = js_trim s
      in if t = [] then JFin 0
         else if prefix ''0x'' t \<or> prefix ''0X'' t then radix_value 16 (drop 2 t)
         else if prefix ''0o'' t \<or> prefix ''0O'' t then radix_value 8 (drop 2 t)
         else if prefix ''0b'' t \<or> prefix ''0B'' t then radix_value 2 (drop 2 t)
         else if hd t = CHR ''-'' then js_neg (unsigned_number (tl t))
         else if hd t = CHR ''+'' then unsigned_number (tl t)
         else unsigned_number t)"

subsection \<open>\<open>String(number)\<close>\<close>

text \<open>The \<open>n\<close> with \<open>10 ^ (n - 1) \<le> r < 10 ^ n\<close>, from the binary exponent.\<close>

definition dec_exponent :: "rat \<Rightarrow> int" where
  "dec_exponent r =
     (let m = exponent_of r * 30103 div 100000
      in if pow10 (m + 1) \<le> r then m + 2 else if pow10 m \<le> r then m + 1 else m)"

text \<open>
  The \<open>k\<close>-digit decimal closest to \<open>r\<close>, as its digits (a number) and its exponent.
\<close>

definition dec_candidate :: "rat \<Rightarrow> nat \<Rightarrow> nat \<times> int" where
  "dec_candidate r k =
     (let n = dec_exponent r;
          s = nat (round_half_even (r * pow10 (int k - n)))
      in if s = 10 ^ k then (10 ^ (k - 1), n + 1) else (s, n))"

text \<open>The fewest digits that read back as \<open>r\<close>; 17 always do.\<close>

fun shortest_digits :: "rat \<Rightarrow> nat list \<Rightarrow> nat \<times> nat \<times> int" where
  "shortest_digits r [] = (17, dec_candidate r 17)"
| "shortest_digits r (k # ks) =
     (case dec_candidate r k of (s, n) \<Rightarrow>
        if round_double (of_nat s * pow10 (n - int k)) = JFin r then (k, s, n)
        else shortest_digits r ks)"

definition number_layout :: "nat \<Rightarrow> nat \<Rightarrow> int \<Rightarrow> string" where
  "number_layout k s n =
     (let ds = pad_start k (CHR ''0'') (nat_digits s)
      in if int k \<le> n \<and> n \<le> 21 then ds @ replicate (nat n - k) (CHR ''0'')
         else if 0 < n \<and> n \<le> 21 then take (nat n) ds @ CHR ''.'' # drop (nat n) ds
         else if - 6 < n \<and> n \<le> 0 then ''0.'' @ replicate (nat (- n)) (CHR ''0'') @ ds
         else let e = n - 1;
                  x = CHR ''e'' # (if e < 0 then CHR ''-'' else CHR ''+'') # nat_digits (nat \<bar>e\<bar>)
              in if k = 1 then ds @ x else take 1 ds @ CHR ''.'' # drop 1 ds @ x)"

fun number_text :: "jsnum \<Rightarrow> string" where
  "number_text JNaN = ''NaN''"
| "number_text JPosInf = ''Infinity''"
| "number_text JNegInf = ''-Infinity''"
| "number_text JNegZero = ''0''"
| "number_text (JFin r) =
     (if r = 0 then ''0''
      else let (k, s, n) = shortest_digits \<bar>r\<bar> [1..<17]
           in (if r < 0 then [CHR ''-''] else []) @ number_layout k s n)"

subsection \<open>\<open>toFixed\<close> and \<open>toPrecision\<close>, read back as numbers\<close>

text \<open>\<open>Number(x.toFixed(f))\<close>: the nearest multiple of \<open>10 ^ -f\<close>, a tie to the larger magnitude.\<close>

definition js_to_fixed :: "nat \<Rightarrow> jsnum \<Rightarrow> jsnum" where
  "js_to_fixed f x =
     (case x of
        JFin r \<Rightarrow>
          (if 10 ^ 21 \<le> \<bar>r\<bar> then JFin r
           else let n = \<lfloor>\<bar>r\<bar> * 10 ^ f + 1 / 2\<rfloor>
                in if r < 0 then js_neg (round_double (of_int n / 10 ^ f))
                   else round_double (of_int n / 10 ^ f))
      | JNegZero \<Rightarrow> JFin 0
      | _ \<Rightarrow> x)"

text \<open>\<open>Number(x.toPrecision(p))\<close>: the nearest \<open>p\<close>-digit decimal, a tie to the larger magnitude.\<close>

definition js_to_precision :: "nat \<Rightarrow> jsnum \<Rightarrow> jsnum" where
  "js_to_precision p x =
     (case x of
        JFin r \<Rightarrow>
          (if r = 0 then JFin 0
           else let n = dec_exponent \<bar>r\<bar>;
                    q = of_int \<lfloor>\<bar>r\<bar> * pow10 (int p - n) + 1 / 2\<rfloor> * pow10 (n - int p)
                in if r < 0 then js_neg (round_double q) else round_double q)
      | JNegZero \<Rightarrow> JFin 0
      | _ \<Rightarrow> x)"

section \<open>Facts\<close>

lemma length_js_slice [simp]: "length (js_slice a b s) = min (b - a) (length s - a)"
  by (simp add: js_slice_def)

lemma js_slice_le: "length (js_slice a b s) \<le> length s"
  by simp

lemma length_js_trim: "length (js_trim s) \<le> length s"
  by (metis js_trim_def length_rev length_dropWhile_le order_trans)

lemma is_digit_digit_char: "d < 10 \<Longrightarrow> is_digit (digit_char d)"
  by (simp add: is_digit_def digit_char_def code_def)

lemma nat_digits_nonempty [simp]: "nat_digits n \<noteq> []"
  by (subst nat_digits.simps) simp

lemma nat_digits_digits: "c \<in> set (nat_digits n) \<Longrightarrow> is_digit c"
proof (induction n rule: nat_digits.induct)
  case (1 n)
  show ?case
  proof (cases "n < 10")
    case True
    with "1.prems" show ?thesis
      by (simp add: nat_digits.simps [of n] is_digit_digit_char)
  next
    case False
    with 1 show ?thesis
      by (auto simp: nat_digits.simps [of n] is_digit_digit_char)
  qed
qed

lemma code_digit_char: "d < 10 \<Longrightarrow> code (digit_char d) = 48 + d"
  by (simp add: code_def digit_char_def)

lemma digits_value_append_one: "digits_value (s @ [c]) = 10 * digits_value s + (code c - 48)"
  by (simp add: digits_value_def)

text \<open>Printing a natural number and reading its digits give it back.\<close>

lemma digits_value_nat_digits [simp]: "digits_value (nat_digits n) = n"
proof (induction n rule: nat_digits.induct)
  case (1 n)
  show ?case
  proof (cases "n < 10")
    case True
    then show ?thesis
      by (simp add: nat_digits.simps [of n] digits_value_def code_digit_char)
  next
    case False
    with 1 show ?thesis
      by (simp add: nat_digits.simps [of n] digits_value_append_one code_digit_char)
  qed
qed

lemma starts_with_append [simp]: "starts_with (p @ s) p"
  by (simp add: starts_with_def)

lemma index_of_Some: "index_of s p = Some i \<Longrightarrow> prefix p (drop i s) \<and> i \<le> length s"
  by (induction s p arbitrary: i rule: index_of.induct) (auto split: if_splits)

lemma includes_iff: "text_includes s p \<longleftrightarrow> (\<exists>a b. s = a @ p @ b)"
proof (induction s p rule: text_includes.induct)
  case (2 c s p)
  show ?case
  proof
    assume "text_includes (c # s) p"
    then consider "prefix p (c # s)" | "text_includes s p" by auto
    then show "\<exists>a b. c # s = a @ p @ b"
    proof cases
      case 1
      then show ?thesis by (metis append_Nil prefixE)
    next
      case 2
      with "2.IH" show ?thesis by (metis append_Cons)
    qed
  next
    assume "\<exists>a b. c # s = a @ p @ b"
    then obtain a b where ab: "c # s = a @ p @ b" by blast
    show "text_includes (c # s) p"
    proof (cases a)
      case Nil
      with ab have "prefix p (c # s)" by (simp add: prefixI)
      then show ?thesis by simp
    next
      case (Cons d a')
      with ab have "s = a' @ p @ b" by simp
      with "2.IH" show ?thesis by auto
    qed
  qed
qed auto


text \<open>A run of digits is the number it spells, exactly while that is below \<open>2 ^ 53\<close>.\<close>

definition all_digits :: "string \<Rightarrow> bool" where
  "all_digits s = (s \<noteq> [] \<and> list_all is_digit s)"

lemma digit_not_space: "is_digit c \<Longrightarrow> \<not> is_space c"
  by (auto simp: is_digit_def is_space_def)

lemma js_trim_id:
  assumes "s = [] \<or> (\<not> is_space (hd s) \<and> \<not> is_space (last s))"
  shows "js_trim s = s"
proof -
  have "dropWhile is_space s = s" "dropWhile is_space (rev s) = rev s"
    using assms by (simp_all add: dropWhile_eq_self_iff hd_rev) (auto simp: dropWhile_eq_self_iff)
  then show ?thesis by (simp add: js_trim_def)
qed

lemma js_trim_digits: "all_digits s \<Longrightarrow> js_trim s = s"
  by (rule js_trim_id) (auto simp: all_digits_def list_all_iff digit_not_space)

lemma takeWhile_digits [simp]: "list_all is_digit s \<Longrightarrow> takeWhile is_digit s = s"
  by (simp add: takeWhile_eq_all_conv list_all_iff)

lemma dropWhile_digits [simp]: "list_all is_digit s \<Longrightarrow> dropWhile is_digit s = []"
  by (simp add: dropWhile_eq_Nil_conv list_all_iff)

lemma scan_number_digits:
  "all_digits s \<Longrightarrow> scan_number s = Some (s, of_nat (digits_value s), [])"
  by (simp add: scan_number_def scan_mantissa_def scan_exponent_def decimal_value_def
      all_digits_def pow10_def)

lemma prefix_digits:
  "all_digits s \<Longrightarrow> prefix p s \<Longrightarrow> list_all is_digit p"
  by (auto simp: all_digits_def prefix_def)

lemma text_to_number_digits:
  assumes "all_digits s"
  shows "text_to_number s = round_double (of_nat (digits_value s))"
proof -
  have np: "\<not> prefix ''0x'' s" "\<not> prefix ''0X'' s" "\<not> prefix ''0o'' s" "\<not> prefix ''0O'' s"
       "\<not> prefix ''0b'' s" "\<not> prefix ''0B'' s"
    using prefix_digits [OF assms] by (fastforce simp: is_digit_def code_def)+
  have hd: "is_digit (hd s)" "s \<noteq> []"
    using assms by (cases s; simp add: all_digits_def)+
  then have h: "hd s \<noteq> CHR ''-''" "hd s \<noteq> CHR ''+''" "hd s \<noteq> CHR ''I''"
    by (auto simp: is_digit_def code_def)
  then have "s \<noteq> ''Infinity''" by auto
  with np h hd(2) show ?thesis
    by (simp add: text_to_number_def Let_def js_trim_digits [OF assms] unsigned_number_def
        scan_number_digits [OF assms])
qed

lemma text_to_number_small_digits:
  assumes "all_digits s" "digits_value s < 2 ^ 53"
  shows "text_to_number s = JFin (of_nat (digits_value s))"
  using round_double_of_int [of "int (digits_value s)"] assms by (simp add: text_to_number_digits)

end
