(* ===== verification/Js_Date.thy ===== *)
theory Js_Date
  imports Js_Text
begin

text \<open>
  JavaScript dates in UTC: a time value is the number of milliseconds since 1970 as an \<open>int\<close>, an
  invalid date is \<open>None\<close>.  Days, years and months follow the definitions of ECMAScript
  (\<open>DayFromYear\<close>, \<open>MakeDay\<close>, \<open>TimeClip\<close>); the facts at the end say that the calendar fields
  of a day and the day of calendar fields are inverse.
\<close>

type_synonym time_value = "int option"

definition ms_per_day :: int where
  "ms_per_day = 86400000"

section \<open>Days, years and months\<close>

definition leap_year :: "int \<Rightarrow> bool" where
  "leap_year y = (y mod 4 = 0 \<and> (y mod 100 \<noteq> 0 \<or> y mod 400 = 0))"

definition day_from_year :: "int \<Rightarrow> int" where
  "day_from_year y =
     365 * (y - 1970) + (y - 1969) div 4 - (y - 1901) div 100 + (y - 1601) div 400"

definition year_from_day :: "int \<Rightarrow> int" where
  "year_from_day d =
     (let y = d * 400 div 146097 + 1970
      in if day_from_year (y + 1) \<le> d then y + 1
         else if d < day_from_year y then y - 1 else y)"

definition leap_day :: "int \<Rightarrow> int" where
  "leap_day y = (if leap_year y then 1 else 0)"

text \<open>The day of the year on which a month (0 to 11) starts, and the month of a day.\<close>

definition month_start :: "int \<Rightarrow> int \<Rightarrow> int" where
  "month_start l m =
     (if m \<le> 0 then 0 else if m = 1 then 31 else if m = 2 then 59 + l else if m = 3 then 90 + l
      else if m = 4 then 120 + l else if m = 5 then 151 + l else if m = 6 then 181 + l
      else if m = 7 then 212 + l else if m = 8 then 243 + l else if m = 9 then 273 + l
      else if m = 10 then 304 + l else if m = 11 then 334 + l else 365 + l)"

definition month_of_day :: "int \<Rightarrow> int \<Rightarrow> int" where
  "month_of_day l n =
     (if n < 31 then 0 else if n < 59 + l then 1 else if n < 90 + l then 2
      else if n < 120 + l then 3 else if n < 151 + l then 4 else if n < 181 + l then 5
      else if n < 212 + l then 6 else if n < 243 + l then 7 else if n < 273 + l then 8
      else if n < 304 + l then 9 else if n < 334 + l then 10 else 11)"

text \<open>\<open>MakeDay\<close>: the month may lie outside the year, the date outside the month.\<close>

definition make_day :: "int \<Rightarrow> int \<Rightarrow> int \<Rightarrow> int" where
  "make_day y m d =
     (let ym = y + m div 12
      in day_from_year ym + month_start (leap_day ym) (m mod 12) + d - 1)"

section \<open>Fields of a time value\<close>

definition utc_day :: "int \<Rightarrow> int" where
  "utc_day t = t div ms_per_day"

definition utc_full_year :: "int \<Rightarrow> int" where
  "utc_full_year t = year_from_day (utc_day t)"

definition day_in_year :: "int \<Rightarrow> int" where
  "day_in_year t = utc_day t - day_from_year (utc_full_year t)"

definition utc_month :: "int \<Rightarrow> int" where
  "utc_month t = month_of_day (leap_day (utc_full_year t)) (day_in_year t)"

definition utc_date :: "int \<Rightarrow> int" where
  "utc_date t =
     day_in_year t - month_start (leap_day (utc_full_year t)) (utc_month t) + 1"

definition utc_weekday :: "int \<Rightarrow> int" where
  "utc_weekday t = (utc_day t + 4) mod 7"

definition utc_hours :: "int \<Rightarrow> int" where
  "utc_hours t = t mod ms_per_day div 3600000"

definition utc_minutes :: "int \<Rightarrow> int" where
  "utc_minutes t = t mod ms_per_day div 60000 mod 60"

definition utc_seconds :: "int \<Rightarrow> int" where
  "utc_seconds t = t mod ms_per_day div 1000 mod 60"

definition utc_millis :: "int \<Rightarrow> int" where
  "utc_millis t = t mod 1000"

section \<open>Building dates\<close>

definition max_time :: int where
  "max_time = 8640000000000000"

definition time_clip :: "int \<Rightarrow> time_value" where
  "time_clip t = (if \<bar>t\<bar> \<le> max_time then Some t else None)"

text \<open>\<open>new Date(number)\<close>.\<close>

definition date_of_number :: "jsnum \<Rightarrow> time_value" where
  "date_of_number x = (if js_finite x then time_clip (trunc_rat (js_val x)) else None)"

text \<open>\<open>Date.UTC\<close>: a year from 0 to 99 means 1900 to 1999.\<close>

definition date_utc ::
  "int \<Rightarrow> int \<Rightarrow> int \<Rightarrow> int \<Rightarrow> int \<Rightarrow> int \<Rightarrow> int \<Rightarrow> time_value" where
  "date_utc y m d h mi s ms =
     (let yr = (if 0 \<le> y \<and> y \<le> 99 then 1900 + y else y)
      in time_clip (make_day yr m d * ms_per_day + h * 3600000 + mi * 60000 + s * 1000 + ms))"

definition time_number :: "time_value \<Rightarrow> jsnum" where
  "time_number t = (case t of None \<Rightarrow> JNaN | Some i \<Rightarrow> jint i)"

definition pad_int :: "nat \<Rightarrow> int \<Rightarrow> string" where
  "pad_int w i = pad_start w (CHR ''0'') (int_text i)"

definition iso_year :: "int \<Rightarrow> string" where
  "iso_year y =
     (if 0 \<le> y \<and> y \<le> 9999 then pad_int 4 y
      else (if y < 0 then CHR ''-'' else CHR ''+'') # pad_int 6 \<bar>y\<bar>)"

text \<open>\<open>toISOString\<close> of a valid date, and its first part.\<close>

definition iso_day_text :: "int \<Rightarrow> string" where
  "iso_day_text t =
     iso_year (utc_full_year t) @ ''-'' @ pad_int 2 (utc_month t + 1) @ ''-'' @ pad_int 2 (utc_date t)"

definition iso_string :: "int \<Rightarrow> string" where
  "iso_string t =
     iso_day_text t @ ''T'' @ pad_int 2 (utc_hours t) @ '':'' @ pad_int 2 (utc_minutes t) @ '':'' @
     pad_int 2 (utc_seconds t) @ ''.'' @ pad_int 3 (utc_millis t) @ ''Z''"

section \<open>The calendar is consistent\<close>

lemma leap_day_range: "leap_day y = 0 \<or> leap_day y = 1"
  by (simp add: leap_day_def)

lemma div_step:
  fixes x k :: int
  assumes "0 < k"
  shows "(x + 1) div k - x div k = (if (x + 1) mod k = 0 then 1 else 0)"
proof -
  define q r where "q = x div k" and "r = x mod k"
  have x: "x = k * q + r" "0 \<le> r" "r < k" using assms by (simp_all add: q_def r_def)
  show ?thesis
  proof (cases "r + 1 = k")
    case True
    then have "x + 1 = k * (q + 1)" using x by (simp add: algebra_simps)
    then have "(x + 1) div k = q + 1" "(x + 1) mod k = 0" using assms by simp_all
    then show ?thesis by (simp add: q_def)
  next
    case False
    then have "x + 1 = k * q + (r + 1)" "r + 1 < k" "0 \<le> r + 1" using x by simp_all
    then have "(x + 1) div k = q" "(x + 1) mod k = r + 1"
      using int_div_pos_eq [of "x + 1" k q "r + 1"] int_mod_pos_eq [of "x + 1" k q "r + 1"]
      by simp_all
    moreover have "r + 1 \<noteq> 0" using x by simp
    ultimately show ?thesis by (simp add: q_def)
  qed
qed

lemma div_bounds:
  fixes x k :: int
  assumes "0 < k"
  shows "k * (x div k) \<le> x" "x < k * (x div k) + k"
proof -
  have "x = k * (x div k) + x mod k" by simp
  moreover have "0 \<le> x mod k" "x mod k < k" using assms by simp_all
  ultimately show "k * (x div k) \<le> x" "x < k * (x div k) + k" by linarith+
qed

lemma mod_minus_mult: "(y - k * c) mod k = (y :: int) mod k"
  using mod_mult_self2 [of y k "- c"] by simp

lemma year_length: "day_from_year (y + 1) - day_from_year y = 365 + leap_day y"
proof -
  have 4: "(y - 1968) div 4 - (y - 1969) div 4 = (if y mod 4 = 0 then 1 else 0)"
    using div_step [of 4 "y - 1969"] mod_minus_mult [of y 4 492] by simp
  have 100: "(y - 1900) div 100 - (y - 1901) div 100 = (if y mod 100 = 0 then 1 else 0)"
    using div_step [of 100 "y - 1901"] mod_minus_mult [of y 100 19] by simp
  have 400: "(y - 1600) div 400 - (y - 1601) div 400 = (if y mod 400 = 0 then 1 else 0)"
    using div_step [of 400 "y - 1601"] mod_minus_mult [of y 400 4] by simp
  have imp: "y mod 400 = 0 \<Longrightarrow> y mod 100 = 0" "y mod 100 = 0 \<Longrightarrow> y mod 4 = 0"
    using dvd_trans [of 100 400 y] dvd_trans [of 4 100 y] by (simp_all add: mod_eq_0_iff_dvd)
  have "day_from_year (y + 1) - day_from_year y = 365 + ((y - 1968) div 4 - (y - 1969) div 4) -
      ((y - 1900) div 100 - (y - 1901) div 100) + ((y - 1600) div 400 - (y - 1601) div 400)"
  proof -
    have "y + 1 - 1969 = y - 1968" "y + 1 - 1901 = y - 1900" "y + 1 - 1601 = y - 1600"
      by simp_all
    then show ?thesis unfolding day_from_year_def by simp
  qed
  also have "\<dots> = 365 + (if y mod 4 = 0 then 1 else 0) - (if y mod 100 = 0 then 1 else 0) +
      (if y mod 400 = 0 then 1 else 0)"
    by (simp only: 4 100 400)
  also have "\<dots> = 365 + leap_day y"
    using imp unfolding leap_day_def leap_year_def
    by (cases "y mod 400 = 0"; cases "y mod 100 = 0"; cases "y mod 4 = 0")
       (simp_all only: simp_thms if_True if_False, simp_all)
  finally show ?thesis .
qed

lemma day_from_year_strict: "day_from_year y < day_from_year (y + 1)"
  using year_length [of y] leap_day_range [of y] by linarith

lemma day_from_year_mono: "y \<le> y' \<Longrightarrow> day_from_year y \<le> day_from_year y'"
proof (induction y' rule: int_ge_induct)
  case (step i)
  then show ?case using day_from_year_strict [of i] by linarith
qed simp

lemma day_from_year_estimate:
  "400 * day_from_year y \<le> 146097 * (y - 1970) + 1000"
  "146097 * (y - 1970) - 1000 \<le> 400 * day_from_year y"
proof -
  define a b c where "a = (y - 1969) div 4" and "b = (y - 1901) div 100" and "c = (y - 1601) div 400"
  have a: "4 * a \<le> y - 1969" "y - 1969 < 4 * a + 4" unfolding a_def by (simp_all only: div_bounds zero_less_numeral)
  have b: "100 * b \<le> y - 1901" "y - 1901 < 100 * b + 100" unfolding b_def by (simp_all only: div_bounds zero_less_numeral)
  have c: "400 * c \<le> y - 1601" "y - 1601 < 400 * c + 400" unfolding c_def by (simp_all only: div_bounds zero_less_numeral)
  have d: "day_from_year y = 365 * (y - 1970) + a - b + c"
    by (simp add: day_from_year_def a_def b_def c_def)
  show "400 * day_from_year y \<le> 146097 * (y - 1970) + 1000"
    using a b c unfolding d by (simp add: algebra_simps)
  show "146097 * (y - 1970) - 1000 \<le> 400 * day_from_year y"
    using a b c unfolding d by (simp add: algebra_simps)
qed

lemma year_from_day:
  "day_from_year (year_from_day d) \<le> d \<and> d < day_from_year (year_from_day d + 1)"
proof -
  define y where "y = d * 400 div 146097 + 1970"
  have y: "146097 * (y - 1970) \<le> 400 * d" "400 * d < 146097 * (y - 1970) + 146097"
    using div_bounds [of 146097 "d * 400"] unfolding y_def by (simp_all add: algebra_simps)
  have up: "d < day_from_year (y + 1 + 1)"
    using day_from_year_estimate(2) [of "y + 1 + 1"] y by (simp add: algebra_simps)
  have down: "day_from_year (y - 1) \<le> d"
    using day_from_year_estimate(1) [of "y - 1"] y by (simp add: algebra_simps)
  show ?thesis
    unfolding year_from_day_def Let_def y_def [symmetric]
    using up down by auto
qed

lemma year_from_day_unique:
  assumes "day_from_year y \<le> d" "d < day_from_year (y + 1)"
  shows "year_from_day d = y"
proof (rule ccontr)
  assume "year_from_day d \<noteq> y"
  then consider "year_from_day d + 1 \<le> y" | "y + 1 \<le> year_from_day d" by linarith
  then show False
    using assms year_from_day [of d] day_from_year_mono by cases fastforce+
qed

lemma month_start_0 [simp]: "month_start l 0 = 0"
  by (simp add: month_start_def)

lemma month_of_day_range: "0 \<le> month_of_day l n \<and> month_of_day l n \<le> 11"
  by (simp add: month_of_day_def)

lemma month_cases:
  fixes m :: int
  assumes "0 \<le> m" "m \<le> 11"
  obtains "m = 0" | "m = 1" | "m = 2" | "m = 3" | "m = 4" | "m = 5" | "m = 6" | "m = 7" | "m = 8"
    | "m = 9" | "m = 10" | "m = 11"
proof -
  have "m = 0 \<or> m = 1 \<or> m = 2 \<or> m = 3 \<or> m = 4 \<or> m = 5 \<or> m = 6 \<or> m = 7 \<or> m = 8 \<or>
      m = 9 \<or> m = 10 \<or> m = 11"
    using assms by presburger
  then show thesis using that by blast
qed

lemma month_of_day:
  "0 \<le> n \<Longrightarrow> n < 365 + l \<Longrightarrow> 0 \<le> l \<Longrightarrow> l \<le> 1 \<Longrightarrow>
   month_start l (month_of_day l n) \<le> n \<and> n < month_start l (month_of_day l n + 1)"
  by (simp add: month_start_def month_of_day_def)

lemma month_of_day_unique:
  assumes "0 \<le> m" "m \<le> 11" and l: "0 \<le> l" "l \<le> 1"
    and n: "month_start l m \<le> n" "n < month_start l (m + 1)"
  shows "month_of_day l n = m"
  using assms(1,2) by (rule month_cases) (use l n in \<open>simp_all add: month_start_def month_of_day_def\<close>)

text \<open>The number of days of a month.\<close>

definition month_length :: "int \<Rightarrow> int \<Rightarrow> int" where
  "month_length y m = month_start (leap_day y) (m + 1) - month_start (leap_day y) m"

lemma month_length_range:
  assumes "0 \<le> m" "m \<le> 11"
  shows "28 \<le> month_length y m \<and> month_length y m \<le> 31"
  using assms by (rule month_cases)
    (use leap_day_range [of y] in \<open>auto simp: month_length_def month_start_def\<close>)

text \<open>
  The day of valid calendar fields reads back as those fields, whatever the time of day.
\<close>

lemma calendar_fields:
  assumes m: "0 \<le> m" "m \<le> 11" and d: "1 \<le> d" "d \<le> month_length y m"
    and t: "utc_day t = make_day y m d"
  shows "utc_full_year t = y" "utc_month t = m" "utc_date t = d"
proof -
  let ?l = "leap_day y"
  have md: "m div 12 = 0" "m mod 12 = m" using m by auto
  have day: "utc_day t = day_from_year y + (month_start ?l m + (d - 1))"
    by (simp add: t make_day_def Let_def md)
  have l: "0 \<le> ?l" "?l \<le> 1" using leap_day_range [of y] by auto
  have s0: "0 \<le> month_start ?l m" using m l by (simp add: month_start_def)
  have s1: "month_start ?l (m + 1) \<le> 365 + ?l" using m l by (simp add: month_start_def)
  have dl: "month_start ?l m + (d - 1) < month_start ?l (m + 1)"
    using d(2) by (simp add: month_length_def)
  show y: "utc_full_year t = y"
    unfolding utc_full_year_def
    using day s0 s1 d dl year_length [of y] by (intro year_from_day_unique) linarith+
  have doy: "day_in_year t = month_start ?l m + (d - 1)"
    by (simp add: day_in_year_def y day)
  show mo: "utc_month t = m"
    unfolding utc_month_def y doy using m l d dl by (intro month_of_day_unique) auto
  show "utc_date t = d"
    by (simp add: utc_date_def doy mo y)
qed

text \<open>And the fields of any time value make its day.\<close>

lemma fields_calendar:
  "0 \<le> utc_month t \<and> utc_month t \<le> 11 \<and> 1 \<le> utc_date t \<and>
   utc_date t \<le> month_length (utc_full_year t) (utc_month t) \<and>
   make_day (utc_full_year t) (utc_month t) (utc_date t) = utc_day t"
proof -
  let ?y = "utc_full_year t" and ?l = "leap_day (utc_full_year t)"
  have l: "0 \<le> ?l" "?l \<le> 1" using leap_day_range [of ?y] by auto
  have yr: "day_from_year ?y \<le> utc_day t" "utc_day t < day_from_year (?y + 1)"
    using year_from_day [of "utc_day t"] by (simp_all add: utc_full_year_def)
  have doy: "0 \<le> day_in_year t" "day_in_year t < 365 + ?l"
    using yr year_length [of ?y] by (simp_all add: day_in_year_def)
  have m: "0 \<le> utc_month t" "utc_month t \<le> 11"
    using month_of_day_range by (simp_all add: utc_month_def)
  have ms: "month_start ?l (utc_month t) \<le> day_in_year t"
      "day_in_year t < month_start ?l (utc_month t + 1)"
    using month_of_day [OF doy l] by (simp_all add: utc_month_def)
  have "make_day ?y (utc_month t) (utc_date t) = utc_day t"
    using m by (simp add: make_day_def utc_date_def day_in_year_def)
  then show ?thesis
    using m ms by (simp add: utc_date_def month_length_def)
qed

text \<open>The time of day: hours, minutes, seconds and milliseconds make it.\<close>

lemma time_of_day:
  "t = utc_day t * ms_per_day + utc_hours t * 3600000 + utc_minutes t * 60000 +
       utc_seconds t * 1000 + utc_millis t"
  "0 \<le> utc_hours t \<and> utc_hours t < 24" "0 \<le> utc_minutes t \<and> utc_minutes t < 60"
  "0 \<le> utc_seconds t \<and> utc_seconds t < 60" "0 \<le> utc_millis t \<and> utc_millis t < 1000"
proof -
  define r where "r = t mod ms_per_day"
  have r: "0 \<le> r" "r < 86400000" by (simp_all add: r_def ms_per_day_def)
  have t: "t = utc_day t * ms_per_day + r" by (simp add: utc_day_def r_def)
  have ms: "t mod 1000 = r mod 1000" by (simp add: r_def ms_per_day_def mod_mod_cancel)
  have d1: "r div 60000 div 60 = r div 3600000" "r div 1000 div 60 = r div 60000"
    by (simp_all flip: zdiv_zmult2_eq)
  have d2: "r div 60000 = 60 * (r div 60000 div 60) + r div 60000 mod 60"
      "r div 1000 = 60 * (r div 1000 div 60) + r div 1000 mod 60"
      "r = 1000 * (r div 1000) + r mod 1000"
    by simp_all
  have rr: "r = r div 3600000 * 3600000 + r div 60000 mod 60 * 60000 + r div 1000 mod 60 * 1000 +
            r mod 1000"
    using d2 unfolding d1 by linarith
  show "t = utc_day t * ms_per_day + utc_hours t * 3600000 + utc_minutes t * 60000 +
       utc_seconds t * 1000 + utc_millis t"
    using t rr unfolding utc_hours_def utc_minutes_def utc_seconds_def utc_millis_def ms r_def
    by linarith
  show "0 \<le> utc_hours t \<and> utc_hours t < 24"
    using r div_bounds [of 3600000 r] unfolding utc_hours_def r_def [symmetric] by linarith
qed (simp_all add: utc_minutes_def utc_seconds_def utc_millis_def)

lemma utc_day_of_parts:
  "0 \<le> x \<Longrightarrow> x < ms_per_day \<Longrightarrow> utc_day (d * ms_per_day + x) = d"
  by (simp add: utc_day_def ms_per_day_def)

lemma time_clip_Some: "time_clip t = Some t' \<longleftrightarrow> t' = t \<and> \<bar>t\<bar> \<le> max_time"
  by (auto simp: time_clip_def)

end
