(* ===== verification/Js_Value.thy ===== *)
theory Js_Value
  imports Js_Date
begin

text \<open>
  The values a canonical expression computes with and the expression tree itself
  (\<open>canonical-condition.ts\<close>, \<open>CompilerExpressionInput\<close>).

  A value of the source's type \<open>unknown\<close> is a \<open>jsval\<close>.  Arrays and objects are compared by
  reference, so they carry one: \<open>Some n\<close> for an array or object of the payload or of a literal,
  \<open>None\<close> for one made during the evaluation, which is no other value's reference.  A member
  inherited from a prototype (a method, a constructor) is a \<open>VMember\<close>.
\<close>

datatype jsval =
    VUndef
  | VNull
  | VBool bool
  | VNum jsnum
  | VStr string
  | VDate time_value
  | VArr "nat option" "jsval list"
  | VObj "nat option" "(string \<times> jsval) list"
  | VMember string

text \<open>
  What the language leaves to the implementation or to the moment: the clock, the
  implementation-approximated \<open>Math.pow\<close> and \<open>Math.sqrt\<close>, \<open>Date.parse\<close>, the regular expression
  engine (\<open>None\<close>: the pattern does not compile), \<open>String(v)\<close> of a date, array or object, and the
  members a value inherits.
\<close>

record host =
  h_now :: int
  h_pow :: "jsnum \<Rightarrow> jsnum \<Rightarrow> jsnum"
  h_sqrt :: "jsnum \<Rightarrow> jsnum"
  h_parse_date :: "string \<Rightarrow> time_value"
  h_regex :: "string \<Rightarrow> string \<Rightarrow> bool option"
  h_to_string :: "jsval \<Rightarrow> string"
  h_inherits :: "jsval \<Rightarrow> string \<Rightarrow> bool"

text \<open>A host at the epoch on which nothing is inherited and no text parses, for concrete runs.\<close>

definition bare_host :: host where
  "bare_host =
     \<lparr>h_now = 0, h_pow = (\<lambda>x y. JNaN), h_sqrt = (\<lambda>x. JNaN), h_parse_date = (\<lambda>s. None),
      h_regex = (\<lambda>p s. None), h_to_string = (\<lambda>v. []), h_inherits = (\<lambda>v k. False)\<rparr>"

section \<open>The expression tree\<close>

datatype cond_op =
    Equals | NotEquals | GreaterThan | GreaterThanOrEquals | LessThan | LessThanOrEquals
  | IsEmpty | IsNotEmpty | Contains | NotContains | StartsWith | EndsWith | In | NotIn
  | UnknownOp string

datatype cond_mode = ModeAll | ModeAny | ModeOther string

datatype formula_op =
    FAdd | FSub | FMul | FDiv | FMod | FConcat | FLower | FUpper | FSubstring | FMatches
  | FLeft | FRight | FMid | FLen | FTrim | FSubstitute
  | FNot | FNegate | FIsError | FRound | FRoundUp | FRoundDown | FAbs | FValue | FPower | FSqrt
  | FCeiling | FFloor | FMin | FMax | FSum | FAverage

datatype agg_op = AggCount | AggSum | AggAvg | AggMin | AggMax

datatype date_op = DNow | DDiff | DAdd | DFormat | DYear | DMonth | DDay

datatype date_unit =
    UMilliseconds | USeconds | UMinutes | UHours | UDays | UWeeks | UMonths | UQuarters | UYears

datatype fun_name = FnToday | FnRecordId | FnCreatedTime | FnOther string

text \<open>
  One constructor per kind.  \<open>EGroup\<close> carries its mode and the three spellings of its children
  (\<open>conditions\<close>, \<open>all\<close>, \<open>any\<close>), \<open>EPath\<close> whether it has a filter and its day offset.  \<open>EMissing\<close>
  is a null or absent node, \<open>ENonObject\<close> one that is no object, \<open>EOther\<close> an object of a kind the
  evaluator does not know (the empty kind: an untagged object that is neither group nor rule).
\<close>

datatype expr =
    EGroup "cond_mode option" "expr list option" "expr list option" "expr list option"
  | ERule cond_op expr "expr option"
  | EPath string bool "jsnum option"
  | ELit jsval
  | EFun fun_name "jsnum option"
  | EFormula formula_op "expr list"
  | EIf expr expr "expr option"
  | ECoalesce "expr list"
  | EAggregate agg_op string "expr option" "expr option"
  | EDate date_op "expr option" "expr option" "date_unit option"
  | ESwitch expr "(expr \<times> expr) list" "expr option"
  | EMissing
  | ENonObject
  | EOther string

fun opt_list :: "'a option \<Rightarrow> 'a list" where
  "opt_list None = []"
| "opt_list (Some x) = [x]"

lemma set_opt_list [simp]: "set (opt_list o') = set_option o'"
  by (cases o') auto

section \<open>Properties of a value\<close>

definition inherited :: "host \<Rightarrow> jsval \<Rightarrow> string \<Rightarrow> jsval" where
  "inherited h v k = (if h_inherits h v k then VMember k else VUndef)"

text \<open>An array index is the canonical decimal of an integer below \<open>2 ^ 32 - 1\<close>.\<close>

definition index_key :: "string \<Rightarrow> nat option" where
  "index_key k =
     (if all_digits k \<and> nat_digits (digits_value k) = k \<and> digits_value k < 4294967295
      then Some (digits_value k) else None)"

definition element_at :: "'a list \<Rightarrow> string \<Rightarrow> 'a option" where
  "element_at xs k =
     (case index_key k of
        None \<Rightarrow> None
      | Some i \<Rightarrow> (if i < length xs then Some (xs ! i) else None))"

text \<open>
  \<open>v[k]\<close> an own property, else an inherited member.  A string owns its length and its code
  units, an array its length and its elements.  (Null and absent values, which JavaScript refuses
  to read from, are never read by a caller that has not tested for them.)
\<close>

definition get_prop :: "host \<Rightarrow> jsval \<Rightarrow> string \<Rightarrow> jsval" where
  "get_prop h v k =
     (case v of
        VObj _ fs \<Rightarrow> (case map_of fs k of Some x \<Rightarrow> x | None \<Rightarrow> inherited h v k)
      | VStr s \<Rightarrow>
          (if k = ''length'' then VNum (jint (int (length s)))
           else case element_at s k of Some c \<Rightarrow> VStr [c] | None \<Rightarrow> inherited h v k)
      | VArr _ vs \<Rightarrow>
          (if k = ''length'' then VNum (jint (int (length vs)))
           else case element_at vs k of Some x \<Rightarrow> x | None \<Rightarrow> inherited h v k)
      | VUndef \<Rightarrow> VUndef
      | VNull \<Rightarrow> VUndef
      | _ \<Rightarrow> inherited h v k)"

text \<open>The own properties \<open>Object.hasOwn\<close> sees on an object or an array.\<close>

definition own_element :: "jsval list \<Rightarrow> string \<Rightarrow> jsval option" where
  "own_element vs k =
     (if k = ''length'' then Some (VNum (jint (int (length vs)))) else element_at vs k)"

fun own_prop :: "jsval \<Rightarrow> string \<Rightarrow> jsval option" where
  "own_prop (VObj _ fs) k = map_of fs k"
| "own_prop (VArr _ vs) k = own_element vs k"
| "own_prop _ k = None"

text \<open>\<open>path.split('.')\<close>.\<close>

definition split_path :: "string \<Rightarrow> string list" where
  "split_path p = split_text ''.'' p"

lemma split_text_aux_nonempty [simp]: "split_text_aux k p acc s \<noteq> []"
  by (induction k p acc s rule: split_text_aux.induct) auto

lemma split_path_nonempty [simp]: "split_path p \<noteq> []"
  by (simp add: split_path_def split_text_def)

end
