(* ===== verification/Expr_Eval.thy ===== *)
theory Expr_Eval
  imports Js_Value
begin

text \<open>
  The canonical expression evaluator (\<open>canonical/expression-evaluator.ts\<close>, open-world part):
  conversions, the comparison table, the text, number and calendar helpers, and
  \<open>evaluateExpression\<close> over every kind of node.  Nothing throws; a missing operand is an absent
  value, a division by zero an infinity or NaN, an impossible date an invalid date.
\<close>

section \<open>Conversions\<close>

text \<open>\<open>===\<close>: arrays and objects by reference; a fresh one equals nothing else.\<close>

definition same_ref :: "nat option \<Rightarrow> nat option \<Rightarrow> bool" where
  "same_ref a b = (a \<noteq> None \<and> a = b)"

definition is_equal :: "jsval \<Rightarrow> jsval \<Rightarrow> bool" where
  "is_equal a b =
     (case a of
        VUndef \<Rightarrow> b = VUndef
      | VNull \<Rightarrow> b = VNull
      | VBool x \<Rightarrow> b = VBool x
      | VNum x \<Rightarrow> (case b of VNum y \<Rightarrow> js_eq x y | _ \<Rightarrow> False)
      | VStr x \<Rightarrow> b = VStr x
      | VDate x \<Rightarrow> x \<noteq> None \<and> b = VDate x
      | VArr x _ \<Rightarrow> (case b of VArr y _ \<Rightarrow> same_ref x y | _ \<Rightarrow> False)
      | VObj x _ \<Rightarrow> (case b of VObj y _ \<Rightarrow> same_ref x y | _ \<Rightarrow> False)
      | VMember x \<Rightarrow> b = VMember x)"

fun is_nullish :: "jsval \<Rightarrow> bool" where
  "is_nullish VUndef = True"
| "is_nullish VNull = True"
| "is_nullish _ = False"

fun is_empty_value :: "jsval \<Rightarrow> bool" where
  "is_empty_value VUndef = True"
| "is_empty_value VNull = True"
| "is_empty_value (VStr s) = (s = [])"
| "is_empty_value (VArr _ vs) = (vs = [])"
| "is_empty_value _ = False"

fun contains_value :: "jsval \<Rightarrow> jsval \<Rightarrow> bool" where
  "contains_value (VStr s) (VStr p) = text_includes s p"
| "contains_value (VArr _ vs) x = list_ex (\<lambda>v. is_equal v x) vs"
| "contains_value _ _ = False"

fun to_number :: "jsval \<Rightarrow> jsnum" where
  "to_number (VNum x) = x"
| "to_number (VStr s) =
     (if js_trim s = [] then JFin 0
      else if js_is_nan (text_to_number s) then JFin 0 else text_to_number s)"
| "to_number (VDate t) = time_number t"
| "to_number _ = JFin 0"

definition to_date :: "host \<Rightarrow> jsval \<Rightarrow> time_value option" where
  "to_date h v =
     (case v of
        VDate t \<Rightarrow> Some t
      | VStr s \<Rightarrow> (case h_parse_date h s of None \<Rightarrow> None | Some t \<Rightarrow> Some (Some t))
      | VNum x \<Rightarrow> (case date_of_number x of None \<Rightarrow> None | Some t \<Rightarrow> Some (Some t))
      | _ \<Rightarrow> None)"

text \<open>\<open>String(v)\<close>.\<close>

fun js_string :: "host \<Rightarrow> jsval \<Rightarrow> string" where
  "js_string h VUndef = ''undefined''"
| "js_string h VNull = ''null''"
| "js_string h (VBool b) = (if b then ''true'' else ''false'')"
| "js_string h (VNum x) = number_text x"
| "js_string h (VStr s) = s"
| "js_string h v = h_to_string h v"

definition to_text :: "host \<Rightarrow> jsval \<Rightarrow> string" where
  "to_text h v =
     (case v of
        VUndef \<Rightarrow> []
      | VNull \<Rightarrow> []
      | VDate None \<Rightarrow> []
      | VDate (Some t) \<Rightarrow> iso_string t
      | _ \<Rightarrow> js_string h v)"

fun normalize_absent :: "jsval \<Rightarrow> jsval" where
  "normalize_absent VUndef = VNull"
| "normalize_absent v = v"

definition whole_count :: "jsval \<Rightarrow> nat" where
  "whole_count v =
     (let n = js_trunc (to_number v)
      in if js_finite n \<and> js_lt (JFin 0) n then nat \<lfloor>js_val n\<rfloor> else 0)"

definition precision_of :: "jsval \<Rightarrow> jsnum" where
  "precision_of v =
     (if is_nullish v then JFin 0
      else let n = js_trunc (to_number v) in if js_finite n then n else JFin 0)"

fun is_error_value :: "jsval \<Rightarrow> bool" where
  "is_error_value (VNum x) = (\<not> js_finite x)"
| "is_error_value (VDate t) = (t = None)"
| "is_error_value _ = False"

fun fold_left :: "(jsnum \<Rightarrow> jsnum \<Rightarrow> jsnum) \<Rightarrow> jsval list \<Rightarrow> jsnum" where
  "fold_left f [] = JFin 0"
| "fold_left f (v # vs) = foldl (\<lambda>acc w. f acc (to_number w)) (to_number v) vs"

section \<open>The comparison table\<close>

definition apply_condition_operator :: "cond_op \<Rightarrow> jsval \<Rightarrow> jsval \<Rightarrow> bool" where
  "apply_condition_operator oper l r =
     (case oper of
        Equals \<Rightarrow> is_equal l r
      | NotEquals \<Rightarrow> \<not> is_equal l r
      | GreaterThan \<Rightarrow> js_lt (to_number r) (to_number l)
      | GreaterThanOrEquals \<Rightarrow> js_le (to_number r) (to_number l)
      | LessThan \<Rightarrow> js_lt (to_number l) (to_number r)
      | LessThanOrEquals \<Rightarrow> js_le (to_number l) (to_number r)
      | IsEmpty \<Rightarrow> is_empty_value l
      | IsNotEmpty \<Rightarrow> \<not> is_empty_value l
      | Contains \<Rightarrow> contains_value l r
      | NotContains \<Rightarrow> \<not> contains_value l r
      | StartsWith \<Rightarrow> (case (l, r) of (VStr s, VStr p) \<Rightarrow> starts_with s p | _ \<Rightarrow> False)
      | EndsWith \<Rightarrow> (case (l, r) of (VStr s, VStr p) \<Rightarrow> ends_with s p | _ \<Rightarrow> False)
      | In \<Rightarrow> (case r of VArr _ vs \<Rightarrow> list_ex (is_equal l) vs | _ \<Rightarrow> False)
      | NotIn \<Rightarrow> (case r of VArr _ vs \<Rightarrow> \<not> list_ex (is_equal l) vs | _ \<Rightarrow> True)
      | UnknownOp _ \<Rightarrow> False)"

section \<open>Text helpers\<close>

text \<open>An argument of \<open>slice\<close> that is not negative: NaN is 0, an infinity the end.\<close>

definition slice_index :: "nat \<Rightarrow> jsnum \<Rightarrow> nat" where
  "slice_index n x =
     (case x of
        JPosInf \<Rightarrow> n
      | JFin r \<Rightarrow> (if r < 0 then n - nat \<lfloor>- r\<rfloor> else min n (nat \<lfloor>r\<rfloor>))
      | _ \<Rightarrow> 0)"

definition text_mid :: "string \<Rightarrow> jsval \<Rightarrow> jsval \<Rightarrow> string" where
  "text_mid s a c =
     (let start = js_sub (js_max2 (JFin 1) (js_trunc (to_number a))) (JFin 1);
          stop = js_add start (jint (int (whole_count c)));
          n = length s
      in js_slice (slice_index n start) (slice_index n stop) s)"

definition text_left :: "string \<Rightarrow> jsval \<Rightarrow> string" where
  "text_left s c = take (whole_count c) s"

definition text_right :: "string \<Rightarrow> jsval \<Rightarrow> string" where
  "text_right s c = (let n = whole_count c in if n = 0 then [] else drop (length s - n) s)"

text \<open>\<open>String.prototype.substring\<close>: clamped, and swapped when the end comes first.\<close>

definition clamp_index :: "nat \<Rightarrow> jsnum \<Rightarrow> nat" where
  "clamp_index n x =
     (case x of JPosInf \<Rightarrow> n | JFin r \<Rightarrow> min n (nat \<lfloor>r\<rfloor>) | _ \<Rightarrow> 0)"

definition text_substring :: "string \<Rightarrow> jsval \<Rightarrow> jsval \<Rightarrow> string" where
  "text_substring s a b =
     (let n = length s;
          i = clamp_index n (case a of VNum x \<Rightarrow> x | _ \<Rightarrow> JFin 0);
          j = (case b of VNum x \<Rightarrow> clamp_index n x | _ \<Rightarrow> n)
      in js_slice (min i j) (max i j) s)"

text \<open>
  The position of the \<open>n\<close>-th non-overlapping occurrence at or after \<open>from\<close>, the \<open>for\<close> loop of
  \<open>substitute\<close>.
\<close>

fun nth_occurrence :: "nat \<Rightarrow> string \<Rightarrow> string \<Rightarrow> nat \<Rightarrow> nat option" where
  "nth_occurrence 0 s p from = None"
| "nth_occurrence (Suc n) s p from =
     (case index_of_from s p from of
        None \<Rightarrow> None
      | Some i \<Rightarrow> (if n = 0 then Some i else nth_occurrence n s p (i + length p)))"

definition substitute :: "string \<Rightarrow> string \<Rightarrow> string \<Rightarrow> jsval \<Rightarrow> string" where
  "substitute s p r occ =
     (if p = [] then s
      else if is_nullish occ then join r (split_text p s)
      else let n = js_trunc (to_number occ)
           in if \<not> js_le (JFin 1) n then s
              else case nth_occurrence (if js_finite n then nat \<lfloor>js_val n\<rfloor> else Suc (length s)) s p 0 of
                     None \<Rightarrow> s
                   | Some i \<Rightarrow> take i s @ r @ drop (i + length p) s)"

section \<open>Number helpers\<close>

definition positive_zero :: "jsnum \<Rightarrow> jsnum" where
  "positive_zero x = (if js_is_zero x then JFin 0 else x)"

definition shift_decimal :: "jsnum \<Rightarrow> jsnum \<Rightarrow> jsnum" where
  "shift_decimal x d =
     (let s = number_text x;
          m = takeWhile (\<lambda>c. c \<noteq> CHR ''e'') s;
          r = dropWhile (\<lambda>c. c \<noteq> CHR ''e'') s;
          ex = (if r = [] then ''0'' else tl r)
      in text_to_number (m @ CHR ''e'' # number_text (js_add (text_to_number ex) d)))"

definition round_to :: "jsnum \<Rightarrow> jsnum \<Rightarrow> (jsnum \<Rightarrow> jsnum) \<Rightarrow> jsnum" where
  "round_to x d f =
     (if \<not> js_finite x then x
      else let m = f (shift_decimal (js_abs x) d)
           in positive_zero
                (js_mul (if js_lt x (JFin 0) then jint (- 1) else jint 1)
                        (shift_decimal m (js_neg d))))"

definition to_multiple :: "jsnum \<Rightarrow> jsval \<Rightarrow> (jsnum \<Rightarrow> jsnum) \<Rightarrow> jsnum" where
  "to_multiple x significance f =
     (let step = (if is_nullish significance then JFin 1 else to_number significance)
      in if \<not> js_finite x \<or> \<not> js_finite step then JNaN
         else if js_is_zero step then JFin 0
         else positive_zero
                (js_to_precision 15 (js_mul (f (js_to_precision 15 (js_div x step))) step)))"

definition number_char :: "char \<Rightarrow> bool" where
  "number_char c = (is_digit c \<or> c \<in> {CHR ''.'', CHR ''e'', CHR ''E'', CHR ''+'', CHR ''-''})"

definition parse_number_text :: "host \<Rightarrow> jsval \<Rightarrow> jsval" where
  "parse_number_text h v =
     (case v of
        VUndef \<Rightarrow> VUndef
      | VNull \<Rightarrow> VUndef
      | VNum x \<Rightarrow> VNum x
      | VBool b \<Rightarrow> VNum (if b then JFin 1 else JFin 0)
      | _ \<Rightarrow>
          (let s = js_trim (js_string h v)
           in if s = [] then VUndef
              else let cleaned = filter number_char s
                   in if list_ex is_digit cleaned then VNum (text_to_number cleaned) else VNum JNaN))"

section \<open>Calendar helpers\<close>

fun fixed_unit_ms :: "date_unit \<Rightarrow> int option" where
  "fixed_unit_ms UMilliseconds = Some 1"
| "fixed_unit_ms USeconds = Some 1000"
| "fixed_unit_ms UMinutes = Some 60000"
| "fixed_unit_ms UHours = Some 3600000"
| "fixed_unit_ms UDays = Some 86400000"
| "fixed_unit_ms UWeeks = Some 604800000"
| "fixed_unit_ms _ = None"

fun calendar_unit_months :: "date_unit \<Rightarrow> int option" where
  "calendar_unit_months UMonths = Some 1"
| "calendar_unit_months UQuarters = Some 3"
| "calendar_unit_months UYears = Some 12"
| "calendar_unit_months _ = None"

text \<open>
  \<open>addMonths\<close> for a whole number of months: the date is clamped to the last day of the target
  month, the time of day kept.
\<close>

definition add_months_int :: "int \<Rightarrow> int \<Rightarrow> time_value" where
  "add_months_int t k =
     (let y = utc_full_year t;
          m = utc_month t + k
      in case date_utc y (m + 1) 0 0 0 0 0 of
           None \<Rightarrow> None
         | Some l \<Rightarrow>
             date_utc y m (min (utc_date t) (utc_date l)) (utc_hours t) (utc_minutes t)
               (utc_seconds t) (utc_millis t))"

definition add_months :: "time_value \<Rightarrow> jsnum \<Rightarrow> time_value" where
  "add_months d months =
     (if \<not> js_finite months then None
      else case d of
             None \<Rightarrow> None
           | Some t \<Rightarrow> add_months_int t (trunc_rat (js_val months)))"

definition add_to_date :: "time_value \<Rightarrow> jsnum \<Rightarrow> date_unit \<Rightarrow> time_value" where
  "add_to_date d amount u =
     (case calendar_unit_months u of
        Some k \<Rightarrow> add_months d (js_mul (js_trunc amount) (jint k))
      | None \<Rightarrow>
          (case fixed_unit_ms u of
             None \<Rightarrow> None
           | Some ms \<Rightarrow> date_of_number (js_add (time_number d) (js_mul amount (jint ms)))))"

text \<open>Whole months from \<open>r\<close> to \<open>l\<close>, counted the way \<open>addMonths\<close> steps them.\<close>

definition whole_months :: "int \<Rightarrow> int \<Rightarrow> int" where
  "whole_months l r =
     (let whole = (utc_full_year l - utc_full_year r) * 12 + (utc_month l - utc_month r)
      in case add_months_int r whole of
           None \<Rightarrow> whole
         | Some anchor \<Rightarrow>
             (if 0 < whole \<and> l < anchor then whole - 1
              else if whole < 0 \<and> anchor < l then whole + 1
              else whole))"

definition int_quot :: "int \<Rightarrow> int \<Rightarrow> int" where
  "int_quot a b = (if a < 0 then - (- a div b) else a div b)"

definition date_difference :: "time_value \<Rightarrow> time_value \<Rightarrow> date_unit \<Rightarrow> jsnum" where
  "date_difference l r u =
     (case (l, r) of
        (Some a, Some b) \<Rightarrow>
          (case calendar_unit_months u of
             Some k \<Rightarrow> jint (int_quot (whole_months a b) k)
           | None \<Rightarrow>
               (case fixed_unit_ms u of
                  None \<Rightarrow> JNaN
                | Some ms \<Rightarrow>
                    positive_zero (js_trunc (js_div (js_sub (jint a) (jint b)) (jint ms)))))
      | _ \<Rightarrow> JNaN)"

section \<open>Date formats\<close>

definition month_names :: "string list" where
  "month_names =
     [''January'', ''February'', ''March'', ''April'', ''May'', ''June'', ''July'', ''August'',
      ''September'', ''October'', ''November'', ''December'']"

definition day_names :: "string list" where
  "day_names =
     [''Sunday'', ''Monday'', ''Tuesday'', ''Wednesday'', ''Thursday'', ''Friday'', ''Saturday'']"

definition date_format_tokens :: "string list" where
  "date_format_tokens =
     [''YYYY'', ''YY'', ''Q'', ''MMMM'', ''MMM'', ''MM'', ''M'', ''DD'', ''D'', ''dddd'', ''ddd'',
      ''d'', ''HH'', ''H'', ''hh'', ''h'', ''mm'', ''m'', ''ss'', ''s'', ''SSS'', ''A'', ''a'', ''X'',
      ''x'', ''ZZ'', ''Z'']"

definition twelve_hour :: "int \<Rightarrow> int" where
  "twelve_hour h = (if h mod 12 = 0 then 12 else h mod 12)"

text \<open>JavaScript's \<open>%\<close> on a year: the sign of the year.\<close>

definition year_rem :: "int \<Rightarrow> int" where
  "year_rem y = (if y < 0 then - (- y mod 100) else y mod 100)"

definition date_token_text :: "int \<Rightarrow> string \<Rightarrow> string" where
  "date_token_text t tok =
     (let hours = utc_hours t; mo = utc_month t
      in if tok = ''YYYY'' then pad_int 4 (utc_full_year t)
         else if tok = ''YY'' then pad_int 2 (year_rem (utc_full_year t))
         else if tok = ''Q'' then int_text (mo div 3 + 1)
         else if tok = ''MMMM'' then month_names ! nat mo
         else if tok = ''MMM'' then take 3 (month_names ! nat mo)
         else if tok = ''MM'' then pad_int 2 (mo + 1)
         else if tok = ''M'' then int_text (mo + 1)
         else if tok = ''DD'' then pad_int 2 (utc_date t)
         else if tok = ''D'' then int_text (utc_date t)
         else if tok = ''dddd'' then day_names ! nat (utc_weekday t)
         else if tok = ''ddd'' then take 3 (day_names ! nat (utc_weekday t))
         else if tok = ''d'' then int_text (utc_weekday t)
         else if tok = ''HH'' then pad_int 2 hours
         else if tok = ''H'' then int_text hours
         else if tok = ''hh'' then pad_int 2 (twelve_hour hours)
         else if tok = ''h'' then int_text (twelve_hour hours)
         else if tok = ''mm'' then pad_int 2 (utc_minutes t)
         else if tok = ''m'' then int_text (utc_minutes t)
         else if tok = ''ss'' then pad_int 2 (utc_seconds t)
         else if tok = ''s'' then int_text (utc_seconds t)
         else if tok = ''SSS'' then pad_int 3 (utc_millis t)
         else if tok = ''A'' then (if hours < 12 then ''AM'' else ''PM'')
         else if tok = ''a'' then (if hours < 12 then ''am'' else ''pm'')
         else if tok = ''X'' then int_text (t div 1000)
         else if tok = ''x'' then int_text t
         else if tok = ''ZZ'' then ''+0000''
         else if tok = ''Z'' then ''+00:00''
         else tok)"

text \<open>
  \<open>format.replace(DATE_FORMAT_TOKEN, ...)\<close>: at each position the first alternative that matches,
  \<open>[text]\<close> before the tokens; a character no alternative matches stays.
\<close>

function format_tokens :: "int \<Rightarrow> string \<Rightarrow> string" where
  "format_tokens t [] = []"
| "format_tokens t (c # s) =
     (if c = CHR ''['' \<and> CHR '']'' \<in> set s
      then takeWhile (\<lambda>x. x \<noteq> CHR '']'') s @ format_tokens t (tl (dropWhile (\<lambda>x. x \<noteq> CHR '']'') s))
      else case find_first (\<lambda>tok. prefix tok (c # s)) date_format_tokens of
             Some tok \<Rightarrow> date_token_text t tok @ format_tokens t (drop (length tok - 1) s)
           | None \<Rightarrow> c # format_tokens t s)"
  by pat_completeness auto
termination
proof (relation "measure (length o snd)", goal_cases)
  case (2 t c s)
  have "length (tl (dropWhile (\<lambda>x. x \<noteq> CHR '']'') s)) \<le> length s"
    by (metis diff_le_self length_dropWhile_le length_tl order_trans)
  then show ?case by simp
qed auto

definition format_date :: "time_value \<Rightarrow> string option \<Rightarrow> string" where
  "format_date d f =
     (case d of
        None \<Rightarrow> []
      | Some t \<Rightarrow> (case f of None \<Rightarrow> iso_string t | Some fmt \<Rightarrow> format_tokens t fmt))"

section \<open>Evaluation\<close>

definition present_numbers :: "jsval list \<Rightarrow> jsnum list" where
  "present_numbers vs = map to_number (filter (\<lambda>v. \<not> is_nullish v \<and> v \<noteq> VStr []) vs)"

definition nth_val :: "jsval list \<Rightarrow> nat \<Rightarrow> jsval" where
  "nth_val vs i = (if i < length vs then vs ! i else VUndef)"

definition js_sum :: "jsnum list \<Rightarrow> jsnum" where
  "js_sum xs = foldl js_add (JFin 0) xs"

definition average :: "jsnum list \<Rightarrow> jsnum" where
  "average xs = js_div (js_sum xs) (jint (int (length xs)))"

definition matches_max_pattern_length :: nat where "matches_max_pattern_length = 1000"
definition matches_max_input_length :: nat where "matches_max_input_length = 10000"

definition text_matches :: "host \<Rightarrow> jsval \<Rightarrow> jsval \<Rightarrow> bool" where
  "text_matches h s p =
     (case (s, p) of
        (VStr x, VStr y) \<Rightarrow>
          (if matches_max_pattern_length < length y then False
           else if matches_max_input_length < length x then False
           else h_regex h y x = Some True)
      | _ \<Rightarrow> False)"

text \<open>\<open>evalFormula\<close> over the values of its operands.\<close>

definition eval_formula_op :: "host \<Rightarrow> formula_op \<Rightarrow> jsval list \<Rightarrow> jsval" where
  "eval_formula_op h oper vs =
     (let a = nth_val vs 0; b = nth_val vs 1; c = nth_val vs 2; d = nth_val vs 3
      in case oper of
           FAdd \<Rightarrow> VNum (foldl (\<lambda>acc v. js_add acc (to_number v)) (JFin 0) vs)
         | FSub \<Rightarrow> VNum (fold_left js_sub vs)
         | FMul \<Rightarrow> VNum (foldl (\<lambda>acc v. js_mul acc (to_number v)) (JFin 1) vs)
         | FDiv \<Rightarrow> VNum (fold_left js_div vs)
         | FMod \<Rightarrow> VNum (fold_left js_rem vs)
         | FConcat \<Rightarrow> VStr (concat (map (\<lambda>v. if is_nullish v then [] else js_string h v) vs))
         | FLower \<Rightarrow> VStr (case a of VStr s \<Rightarrow> to_lower s | _ \<Rightarrow> [])
         | FUpper \<Rightarrow> VStr (case a of VStr s \<Rightarrow> to_upper s | _ \<Rightarrow> [])
         | FSubstring \<Rightarrow> VStr (case a of VStr s \<Rightarrow> text_substring s b c | _ \<Rightarrow> [])
         | FMatches \<Rightarrow> VBool (text_matches h a b)
         | FLeft \<Rightarrow> VStr (text_left (to_text h a) b)
         | FRight \<Rightarrow> VStr (text_right (to_text h a) b)
         | FMid \<Rightarrow> VStr (text_mid (to_text h a) b c)
         | FLen \<Rightarrow> VNum (jint (int (length (to_text h a))))
         | FTrim \<Rightarrow> VStr (js_trim (to_text h a))
         | FSubstitute \<Rightarrow> VStr (substitute (to_text h a) (to_text h b) (to_text h c) d)
         | FNot \<Rightarrow> VBool (a \<noteq> VBool True)
         | FNegate \<Rightarrow> VNum (js_neg (to_number a))
         | FIsError \<Rightarrow> VBool (is_error_value a)
         | FRound \<Rightarrow> VNum (round_to (to_number a) (precision_of b) js_round)
         | FRoundUp \<Rightarrow> VNum (round_to (to_number a) (precision_of b) js_ceil)
         | FRoundDown \<Rightarrow> VNum (round_to (to_number a) (precision_of b) js_floor)
         | FAbs \<Rightarrow> VNum (js_abs (to_number a))
         | FValue \<Rightarrow> parse_number_text h a
         | FPower \<Rightarrow> VNum (h_pow h (to_number a) (to_number b))
         | FSqrt \<Rightarrow> VNum (h_sqrt h (to_number a))
         | FCeiling \<Rightarrow> VNum (to_multiple (to_number a) b js_ceil)
         | FFloor \<Rightarrow> VNum (to_multiple (to_number a) b js_floor)
         | FMin \<Rightarrow> (let ns = present_numbers vs in if ns = [] then VUndef else VNum (js_min ns))
         | FMax \<Rightarrow> (let ns = present_numbers vs in if ns = [] then VUndef else VNum (js_max ns))
         | FSum \<Rightarrow> VNum (js_sum (present_numbers vs))
         | FAverage \<Rightarrow>
             (let ns = present_numbers vs in if ns = [] then VUndef else VNum (average ns)))"

text \<open>\<open>evalPath\<close>: an array is indexed by a numeric segment and mapped over by any other.\<close>

definition array_step :: "host \<Rightarrow> jsval list \<Rightarrow> string \<Rightarrow> jsval" where
  "array_step h vs seg =
     (let x = text_to_number seg
      in if js_finite x
         then (if 0 \<le> js_val x \<and> of_int \<lfloor>js_val x\<rfloor> = js_val x
               then nth_val vs (nat \<lfloor>js_val x\<rfloor>) else VUndef)
         else VArr None (map (\<lambda>v. get_prop h v seg) vs))"

fun walk_path :: "host \<Rightarrow> jsval \<Rightarrow> string list \<Rightarrow> jsval" where
  "walk_path h v [] = v"
| "walk_path h v (seg # segs) =
     (if is_nullish v then VUndef
      else case v of
             VArr _ vs \<Rightarrow> walk_path h (array_step h vs seg) segs
           | _ \<Rightarrow> walk_path h (get_prop h v seg) segs)"

definition eval_path :: "host \<Rightarrow> string \<Rightarrow> jsnum option \<Rightarrow> jsval \<Rightarrow> jsval" where
  "eval_path h p off payload =
     (let v = walk_path h payload (split_path p)
      in case (off, v) of
           (Some days, VDate t) \<Rightarrow>
             VDate (date_of_number (js_add (time_number t) (js_mul days (jint ms_per_day))))
         | _ \<Rightarrow> v)"

text \<open>\<open>today\<close>: the clock's date at 00:00 UTC, moved by whole days.\<close>

definition eval_function :: "host \<Rightarrow> fun_name \<Rightarrow> jsnum option \<Rightarrow> jsval \<Rightarrow> jsval" where
  "eval_function h f off payload =
     (case f of
        FnToday \<Rightarrow>
          (let today = utc_day (h_now h) * ms_per_day
           in case off of
                None \<Rightarrow> VDate (time_clip today)
              | Some days \<Rightarrow>
                  VDate (if js_finite days
                         then let date = utc_date today
                              in time_clip (today + (trunc_rat (of_int date + js_val days) - date) * ms_per_day)
                         else None))
      | FnRecordId \<Rightarrow> get_prop h payload ''id''
      | FnCreatedTime \<Rightarrow>
          (case to_date h (get_prop h payload ''createdAt'') of None \<Rightarrow> VUndef | Some t \<Rightarrow> VDate t)
      | FnOther _ \<Rightarrow> VUndef)"

definition eval_aggregate_op :: "agg_op \<Rightarrow> jsval list \<Rightarrow> jsval" where
  "eval_aggregate_op oper projected =
     (let ns = filter js_finite (map to_number projected)
      in if ns = [] then (if oper = AggSum then VNum (JFin 0) else VUndef)
         else case oper of
                AggSum \<Rightarrow> VNum (js_sum ns)
              | AggAvg \<Rightarrow> VNum (average ns)
              | AggMin \<Rightarrow> VNum (js_min ns)
              | AggMax \<Rightarrow> VNum (js_max ns)
              | AggCount \<Rightarrow> VUndef)"

text \<open>\<open>evalDate\<close> over the values of its operands (\<open>VUndef\<close> for an absent one).\<close>

definition eval_date_op :: "host \<Rightarrow> date_op \<Rightarrow> date_unit option \<Rightarrow> jsval \<Rightarrow> jsval \<Rightarrow> jsval" where
  "eval_date_op h oper u l r =
     (case oper of
        DNow \<Rightarrow> VDate (Some (h_now h))
      | DDiff \<Rightarrow>
          (case (to_date h l, to_date h r) of
             (Some a, Some b) \<Rightarrow>
               VNum (case u of
                       Some x \<Rightarrow> date_difference a b x
                     | None \<Rightarrow> js_floor (js_div (js_sub (time_number a) (time_number b))
                                               (jint ms_per_day)))
           | _ \<Rightarrow> VUndef)
      | DAdd \<Rightarrow>
          (case to_date h l of
             None \<Rightarrow> VUndef
           | Some d \<Rightarrow> VDate (add_to_date d (to_number r) (case u of Some x \<Rightarrow> x | None \<Rightarrow> UDays)))
      | DFormat \<Rightarrow>
          (case to_date h l of
             None \<Rightarrow> VUndef
           | Some d \<Rightarrow>
               VStr (format_date d (case r of VStr f \<Rightarrow> if f = [] then None else Some f | _ \<Rightarrow> None)))
      | _ \<Rightarrow>
          (case to_date h l of
             None \<Rightarrow> VUndef
           | Some None \<Rightarrow> VNum JNaN
           | Some (Some t) \<Rightarrow>
               VNum (jint (if oper = DYear then utc_full_year t
                           else if oper = DMonth then utc_month t + 1 else utc_date t))))"

fun array_items :: "jsval \<Rightarrow> jsval list" where
  "array_items (VArr _ vs) = vs"
| "array_items _ = []"

definition group_children :: "'a list option \<Rightarrow> 'a list option \<Rightarrow> 'a list option \<Rightarrow> 'a list" where
  "group_children conds alls anys =
     (case conds of Some cs \<Rightarrow> cs
      | None \<Rightarrow> (case alls of Some cs \<Rightarrow> cs | None \<Rightarrow> (case anys of Some cs \<Rightarrow> cs | None \<Rightarrow> [])))"

definition group_mode :: "cond_mode option \<Rightarrow> 'a list option \<Rightarrow> cond_mode" where
  "group_mode m anys =
     (case m of Some x \<Rightarrow> x | None \<Rightarrow> (if anys = None then ModeAll else ModeAny))"

text \<open>
  \<open>evaluateExpression\<close>, by structural recursion: each kind combines the meanings of its children,
  functions of the payload.  A group holds when every (some) child evaluates to \<open>true\<close>; \<open>if\<close>,
  \<open>switch\<close> and \<open>coalesce\<close> return the value of the branch they choose.
\<close>

definition is_true :: "jsval \<Rightarrow> bool" where
  "is_true v = (v = VBool True)"

definition group_verdict :: "cond_mode \<Rightarrow> jsval list \<Rightarrow> bool" where
  "group_verdict m vs = (if m = ModeAny then list_ex is_true vs else list_all is_true vs)"

fun opt_value :: "('a \<Rightarrow> jsval) option \<Rightarrow> 'a \<Rightarrow> jsval" where
  "opt_value None p = VUndef"
| "opt_value (Some f) p = f p"

fun first_present :: "jsval list \<Rightarrow> jsval" where
  "first_present [] = VUndef"
| "first_present (v # vs) = (if is_nullish v then first_present vs else v)"

fun switch_value :: "jsval \<Rightarrow> (jsval \<times> jsval) list \<Rightarrow> jsval \<Rightarrow> jsval" where
  "switch_value s [] d = d"
| "switch_value s ((w, t) # cs) d =
     (if is_equal s (normalize_absent w) then t else switch_value s cs d)"

primrec eval :: "host \<Rightarrow> expr \<Rightarrow> jsval \<Rightarrow> jsval" where
  "eval h (EGroup m cs al an) =
     (\<lambda>p. VBool (group_verdict (group_mode m an)
            (map (\<lambda>f. f p)
               (group_children (map_option (map (eval h)) cs) (map_option (map (eval h)) al)
                  (map_option (map (eval h)) an)))))"
| "eval h (ERule oper l r) =
     (\<lambda>p. VBool (apply_condition_operator oper (eval h l p)
                   (opt_value (map_option (eval h) r) p)))"
| "eval h (EPath path flt off) = (\<lambda>p. eval_path h path off p)"
| "eval h (ELit v) = (\<lambda>p. v)"
| "eval h (EFun f off) = (\<lambda>p. eval_function h f off p)"
| "eval h (EFormula oper es) =
     (\<lambda>p. eval_formula_op h oper (map (\<lambda>f. f p) (map (eval h) es)))"
| "eval h (EIf c t e) =
     (\<lambda>p. if is_true (eval h c p) then eval h t p else opt_value (map_option (eval h) e) p)"
| "eval h (ECoalesce es) = (\<lambda>p. first_present (map (\<lambda>f. f p) (map (eval h) es)))"
| "eval h (EAggregate oper coll w f) =
     (\<lambda>p. let items = array_items (get_prop h p coll);
              filtered = (case map_option (eval h) w of
                            None \<Rightarrow> items
                          | Some c \<Rightarrow> filter (\<lambda>i. is_true (c i)) items)
          in if oper = AggCount then VNum (jint (int (length filtered)))
             else eval_aggregate_op oper
                    (map (\<lambda>i. case map_option (eval h) f of None \<Rightarrow> i | Some g \<Rightarrow> g i) filtered))"
| "eval h (EDate oper l r u) =
     (\<lambda>p. eval_date_op h oper u (opt_value (map_option (eval h) l) p)
                                (opt_value (map_option (eval h) r) p))"
| "eval h (ESwitch s cs d) =
     (\<lambda>p. switch_value (normalize_absent (eval h s p))
            (map (\<lambda>(w, t). (w p, t p)) (map (map_prod (eval h) (eval h)) cs))
            (opt_value (map_option (eval h) d) p))"
| "eval h EMissing = (\<lambda>p. VUndef)"
| "eval h ENonObject = (\<lambda>p. VUndef)"
| "eval h (EOther k) = (\<lambda>p. VUndef)"

text \<open>\<open>evaluateCanonicalCondition\<close>.\<close>

definition evaluate_condition :: "host \<Rightarrow> expr \<Rightarrow> jsval \<Rightarrow> bool" where
  "evaluate_condition h e p = is_true (eval h e p)"

lemma group_children_map:
  "group_children (map_option (map f) cs) (map_option (map f) al) (map_option (map f) an) =
   map f (group_children cs al an)"
  by (cases cs; cases al; cases an) (simp_all add: group_children_def)

lemma opt_value_map_option [simp]:
  "opt_value (map_option f x) p = (case x of None \<Rightarrow> VUndef | Some e \<Rightarrow> f e p)"
  by (cases x) simp_all

lemma eval_formula [simp]:
  "eval h (EFormula oper es) p = eval_formula_op h oper (map (\<lambda>e. eval h e p) es)"
  by (simp add: comp_def)

lemma eval_group:
  "eval h (EGroup m cs al an) p =
   VBool (if group_mode m an = ModeAny
          then \<exists>c\<in>set (group_children cs al an). evaluate_condition h c p
          else \<forall>c\<in>set (group_children cs al an). evaluate_condition h c p)"
  by (simp add: group_children_map group_verdict_def list_ex_iff list_all_iff
      evaluate_condition_def)

text \<open>
  Induction over conditions: a group from its children, a rule and everything else outright.
\<close>

lemma group_children_cases:
  "c \<in> set (group_children cs al an) \<Longrightarrow>
   \<exists>xs. c \<in> set xs \<and> (cs = Some xs \<or> al = Some xs \<or> an = Some xs)"
  by (auto simp: group_children_def split: option.splits)

fun is_container :: "expr \<Rightarrow> bool" where
  "is_container (EGroup _ _ _ _) = True"
| "is_container (ERule _ _ _) = True"
| "is_container _ = False"

lemma condition_induct [case_names Group Rule Other]:
  assumes "\<And>m cs al an. (\<And>c. c \<in> set (group_children cs al an) \<Longrightarrow> P c) \<Longrightarrow> P (EGroup m cs al an)"
    and "\<And>oper l r. P (ERule oper l r)"
    and "\<And>e. \<not> is_container e \<Longrightarrow> P e"
  shows "P e"
proof (induction e)
  case (EGroup m cs al an)
  show ?case
  proof (rule assms(1))
    fix c assume "c \<in> set (group_children cs al an)"
    from group_children_cases [OF this]
    obtain xs where c: "c \<in> set xs" and "xs \<in> set_option cs \<or> xs \<in> set_option al \<or> xs \<in> set_option an"
      by (metis option.set_intros)
    from this(2) show "P c"
      by (elim disjE) (erule EGroup.IH, rule c)+
  qed
qed (rule assms(2) assms(3); simp)+

text \<open>The children of a group, once every child has been given its argument.\<close>

lemma group_children_comp:
  "map (\<lambda>f. k f) (group_children (map_option (map g) cs) (map_option (map g) al)
      (map_option (map g) an)) = map (\<lambda>c. k (g c)) (group_children cs al an)"
  by (simp add: group_children_map comp_def)

end
