(* ===== verification/Auth_Safe.thy ===== *)
theory Auth_Safe
  imports Expr_Eval
begin

text \<open>
  The authorization-safe subset of the canonical expressions (\<open>canonical/expression-evaluator.ts\<close>,
  last part): the validation that refuses every shape outside the subset, the three-valued
  evaluation (\<open>None\<close> is unknown) and the facts that make it safe to decide access with.  The
  order \<open>completes\<close> relates a payload to one in which missing values have been filled in; a verdict
  is stable under it and agrees with the open-world evaluator on every completion.
\<close>

section \<open>Limits and rejections\<close>

datatype rejection =
  UnsupportedExpression | UnsupportedOperator | UnsupportedOperand | ComplexityExceeded
| UnknownOperand

type_synonym rejected = "rejection \<times> string"

record safe_limits =
  operand_roots :: "string list"
  max_nodes :: nat
  max_depth :: nat
  max_path_segments :: nat

text \<open>The options as a caller passes them: any value, \<open>VUndef\<close> for one left out.\<close>

record safe_options =
  opt_operand_roots :: jsval
  opt_max_nodes :: jsval
  opt_max_depth :: jsval
  opt_max_path_segments :: jsval

definition default_operand_roots :: "string list" where
  "default_operand_roots = [''actorRelation'', ''resource'']"
definition default_max_nodes :: nat where "default_max_nodes = 200"
definition default_max_depth :: nat where "default_max_depth = 16"
definition default_max_path_segments :: nat where "default_max_path_segments = 8"
definition max_offset_days :: int where "max_offset_days = 36500"
definition max_list_items :: nat where "max_list_items = 100"
definition max_string_length :: nat where "max_string_length = 2000"

definition positive_option :: "jsval \<Rightarrow> nat \<Rightarrow> nat" where
  "positive_option v fallback =
     (case v of
        VNum (JFin r) \<Rightarrow> (if of_int \<lfloor>r\<rfloor> = r \<and> 0 < r then nat \<lfloor>r\<rfloor> else fallback)
      | _ \<Rightarrow> fallback)"

fun text_of_value :: "jsval \<Rightarrow> string option" where
  "text_of_value (VStr s) = (if s = [] then None else Some s)"
| "text_of_value _ = None"

definition roots_option :: "jsval \<Rightarrow> string list" where
  "roots_option v =
     (case v of
        VArr _ vs \<Rightarrow>
          (if vs \<noteq> [] \<and> list_all (\<lambda>x. text_of_value x \<noteq> None) vs
           then map (\<lambda>x. the (text_of_value x)) vs else default_operand_roots)
      | _ \<Rightarrow> default_operand_roots)"

definition resolve_limits :: "safe_options \<Rightarrow> safe_limits" where
  "resolve_limits opts =
     \<lparr>operand_roots = roots_option (opt_operand_roots opts),
      max_nodes = positive_option (opt_max_nodes opts) default_max_nodes,
      max_depth = positive_option (opt_max_depth opts) default_max_depth,
      max_path_segments = positive_option (opt_max_path_segments opts) default_max_path_segments\<rparr>"

section \<open>Operand shapes\<close>

datatype shape = Scalar | Ordering | Textual | Membership | Containment

fun operand_shape :: "cond_op \<Rightarrow> shape option" where
  "operand_shape Equals = Some Scalar"
| "operand_shape NotEquals = Some Scalar"
| "operand_shape GreaterThan = Some Ordering"
| "operand_shape GreaterThanOrEquals = Some Ordering"
| "operand_shape LessThan = Some Ordering"
| "operand_shape LessThanOrEquals = Some Ordering"
| "operand_shape StartsWith = Some Textual"
| "operand_shape EndsWith = Some Textual"
| "operand_shape In = Some Membership"
| "operand_shape NotIn = Some Membership"
| "operand_shape Contains = Some Containment"
| "operand_shape NotContains = Some Containment"
| "operand_shape _ = None"

definition operator_name :: "cond_op \<Rightarrow> string" where
  "operator_name oper =
     (case oper of
        Equals \<Rightarrow> ''equals'' | NotEquals \<Rightarrow> ''notEquals'' | GreaterThan \<Rightarrow> ''greaterThan''
      | GreaterThanOrEquals \<Rightarrow> ''greaterThanOrEquals'' | LessThan \<Rightarrow> ''lessThan''
      | LessThanOrEquals \<Rightarrow> ''lessThanOrEquals'' | IsEmpty \<Rightarrow> ''isEmpty''
      | IsNotEmpty \<Rightarrow> ''isNotEmpty'' | Contains \<Rightarrow> ''contains'' | NotContains \<Rightarrow> ''notContains''
      | StartsWith \<Rightarrow> ''startsWith'' | EndsWith \<Rightarrow> ''endsWith'' | In \<Rightarrow> ''in'' | NotIn \<Rightarrow> ''notIn''
      | UnknownOp s \<Rightarrow> s)"

fun expr_kind :: "expr \<Rightarrow> string" where
  "expr_kind (EGroup _ _ _ _) = ''group''"
| "expr_kind (ERule _ _ _) = ''rule''"
| "expr_kind (EPath _ _ _) = ''path''"
| "expr_kind (ELit _) = ''literal''"
| "expr_kind (EFun _ _) = ''function''"
| "expr_kind (EFormula _ _) = ''formula''"
| "expr_kind (EIf _ _ _) = ''if''"
| "expr_kind (ECoalesce _) = ''coalesce''"
| "expr_kind (EAggregate _ _ _ _) = ''aggregate''"
| "expr_kind (EDate _ _ _ _) = ''date''"
| "expr_kind (ESwitch _ _ _) = ''switch''"
| "expr_kind (EOther k) = k"
| "expr_kind EMissing = []"
| "expr_kind ENonObject = []"

definition describe_kind :: "string \<Rightarrow> string" where
  "describe_kind k = (if k = [] then ''an untagged expression'' else ''a `'' @ k @ ''` expression'')"

text \<open>A type, never a value; every scalar type describes differently.\<close>

definition describe_value :: "jsval \<Rightarrow> string" where
  "describe_value v =
     (case v of
        VNull \<Rightarrow> ''null''
      | VUndef \<Rightarrow> ''absent''
      | VDate t \<Rightarrow> (if t = None then ''an invalid date'' else ''a date'')
      | VArr _ _ \<Rightarrow> ''a list''
      | VStr _ \<Rightarrow> ''text''
      | VBool _ \<Rightarrow> ''a boolean''
      | VNum x \<Rightarrow> (if js_finite x then ''a number'' else ''a non-finite number'')
      | VObj _ _ \<Rightarrow> ''an object''
      | VMember _ \<Rightarrow> ''a function'')"

fun is_safe_scalar :: "jsval \<Rightarrow> bool" where
  "is_safe_scalar (VStr s) = (length s \<le> max_string_length)"
| "is_safe_scalar (VBool _) = True"
| "is_safe_scalar (VNum x) = js_finite x"
| "is_safe_scalar (VDate t) = (t \<noteq> None)"
| "is_safe_scalar _ = False"

fun is_ordered_value :: "jsval \<Rightarrow> bool" where
  "is_ordered_value (VNum x) = js_finite x"
| "is_ordered_value (VDate t) = (t \<noteq> None)"
| "is_ordered_value _ = False"

fun is_date :: "jsval \<Rightarrow> bool" where
  "is_date (VDate _) = True"
| "is_date _ = False"

fun is_text :: "jsval \<Rightarrow> bool" where
  "is_text (VStr _) = True"
| "is_text _ = False"

definition list_defect :: "jsval \<Rightarrow> string \<Rightarrow> rejected option" where
  "list_defect v position =
     (case v of
        VArr _ vs \<Rightarrow>
          (if vs = [] then Some (UnsupportedOperand, ''the '' @ position @ '' operand is an empty list'')
           else if max_list_items < length vs
           then Some (ComplexityExceeded, ''the '' @ position @ '' operand list is too large'')
           else case find_first (\<lambda>x. \<not> is_safe_scalar x) vs of
                  Some x \<Rightarrow> Some (UnsupportedOperand,
                              ''the '' @ position @ '' operand list holds '' @ describe_value x)
                | None \<Rightarrow> None)
      | _ \<Rightarrow> Some (UnsupportedOperand,
               ''the '' @ position @ '' operand is '' @ describe_value v @ '', not a list''))"

definition member_defect :: "jsval \<Rightarrow> jsval list \<Rightarrow> string \<Rightarrow> string option" where
  "member_defect m vs position =
     (if \<not> is_safe_scalar m
      then Some (''the '' @ position @ '' operand is '' @ describe_value m @ '', not a single value'')
      else case find_first (\<lambda>x. describe_value x \<noteq> describe_value m) vs of
             Some x \<Rightarrow> Some (describe_value m @ '' cannot be looked up in a list of '' @ describe_value x)
           | None \<Rightarrow> None)"

definition scalar_pair_defect :: "jsval \<Rightarrow> jsval \<Rightarrow> string option" where
  "scalar_pair_defect l r =
     (if \<not> is_safe_scalar l
      then Some (''the left operand is '' @ describe_value l @ '', not a single value'')
      else if \<not> is_safe_scalar r
      then Some (''the right operand is '' @ describe_value r @ '', not a single value'')
      else if describe_value l \<noteq> describe_value r
      then Some (describe_value l @ '' cannot be compared with '' @ describe_value r)
      else None)"

text \<open>The pair must be comparable without coercion; the result says why it is not.\<close>

definition operand_defect :: "shape option \<Rightarrow> jsval \<Rightarrow> jsval \<Rightarrow> string option" where
  "operand_defect shape l r =
     (case shape of
        Some Scalar \<Rightarrow> scalar_pair_defect l r
      | Some Ordering \<Rightarrow>
          (if \<not> is_ordered_value l
           then Some (''the left operand is '' @ describe_value l @ '', not orderable'')
           else if \<not> is_ordered_value r
           then Some (''the right operand is '' @ describe_value r @ '', not orderable'')
           else if is_date l \<noteq> is_date r
           then Some (describe_value l @ '' cannot be ordered against '' @ describe_value r)
           else None)
      | Some Textual \<Rightarrow>
          (if \<not> is_text l
           then Some (''the left operand is '' @ describe_value l @ '', not text'')
           else if \<not> is_text r
           then Some (''the right operand is '' @ describe_value r @ '', not text'')
           else None)
      | Some Membership \<Rightarrow>
          (case list_defect r ''right'' of
             Some d \<Rightarrow> Some (snd d)
           | None \<Rightarrow> member_defect l (array_items r) ''left'')
      | Some Containment \<Rightarrow>
          (case l of
             VStr _ \<Rightarrow>
               (if is_text r then None
                else Some (''the right operand is '' @ describe_value r @ '', not text''))
           | VArr _ vs \<Rightarrow>
               (case list_defect l ''left'' of
                  Some d \<Rightarrow> Some (snd d)
                | None \<Rightarrow> member_defect r vs ''right'')
           | _ \<Rightarrow> Some (''the left operand is '' @ describe_value l @ '', neither text nor a list''))
      | None \<Rightarrow> Some ''the operator is not in the authorization-safe subset'')"

section \<open>Validation\<close>

text \<open>
  Every validator takes the number of nodes counted so far and returns a rejection, if any, with
  the new count.
\<close>

definition validate_offset :: "jsnum option \<Rightarrow> string \<Rightarrow> rejected option" where
  "validate_offset off position =
     (case off of
        None \<Rightarrow> None
      | Some (JFin r) \<Rightarrow>
          (if of_int \<lfloor>r\<rfloor> = r \<and> \<bar>r\<bar> \<le> of_int max_offset_days then None
           else Some (UnsupportedOperand, ''the '' @ position @ '' operand has an unusable day offset''))
      | Some JNegZero \<Rightarrow> None
      | _ \<Rightarrow> Some (UnsupportedOperand, ''the '' @ position @ '' operand has an unusable day offset''))"

definition validate_path ::
  "safe_limits \<Rightarrow> string \<Rightarrow> bool \<Rightarrow> jsnum option \<Rightarrow> string \<Rightarrow> rejected option" where
  "validate_path L p flt off position =
     (let segs = split_path p
      in if p = [] then Some (UnsupportedOperand, ''the '' @ position @ '' operand has no path'')
         else if flt then Some (UnsupportedOperand, ''path `'' @ p @ ''` uses an unsupported filter'')
         else if max_path_segments L < length segs
         then Some (ComplexityExceeded, ''path `'' @ p @ ''` walks more than '' @
                      nat_digits (max_path_segments L) @ '' segments'')
         else if list_ex (\<lambda>s. s = []) segs
         then Some (UnsupportedOperand, ''path `'' @ p @ ''` has an empty segment'')
         else if \<not> List.member (operand_roots L) (hd segs)
         then Some (UnsupportedOperand, ''path `'' @ p @ ''` is not rooted in '' @
                      join '' / '' (operand_roots L))
         else validate_offset off position)"

definition validate_literal :: "jsval \<Rightarrow> string \<Rightarrow> bool \<Rightarrow> rejected option" where
  "validate_literal v position list_ok =
     (case v of
        VArr _ _ \<Rightarrow>
          (if \<not> list_ok then Some (UnsupportedOperand, ''the '' @ position @ '' operand is a list'')
           else list_defect v position)
      | _ \<Rightarrow>
          (if is_safe_scalar v then None
           else Some (UnsupportedOperand,
                  ''the '' @ position @ '' operand literal is '' @ describe_value v)))"

fun fun_name_text :: "fun_name \<Rightarrow> string" where
  "fun_name_text FnToday = ''today''"
| "fun_name_text FnRecordId = ''recordId''"
| "fun_name_text FnCreatedTime = ''createdTime''"
| "fun_name_text (FnOther s) = s"

definition too_many_nodes :: "safe_limits \<Rightarrow> rejected" where
  "too_many_nodes L =
     (ComplexityExceeded, ''the condition holds more than '' @ nat_digits (max_nodes L) @ '' nodes'')"

definition validate_operand ::
  "safe_limits \<Rightarrow> expr \<Rightarrow> string \<Rightarrow> bool \<Rightarrow> nat \<Rightarrow> rejected option \<times> nat" where
  "validate_operand L e position list_ok n =
     (case e of
        EMissing \<Rightarrow> (Some (UnsupportedOperand, ''the '' @ position @ '' operand is missing''), n)
      | ENonObject \<Rightarrow>
          (Some (UnsupportedOperand, ''the '' @ position @ '' operand is not an object''), n)
      | _ \<Rightarrow>
          (if max_nodes L < Suc n then (Some (too_many_nodes L), Suc n)
           else (case e of
                   EPath p flt off \<Rightarrow> validate_path L p flt off position
                 | ELit v \<Rightarrow> validate_literal v position list_ok
                 | EFun f off \<Rightarrow>
                     (case f of
                        FnToday \<Rightarrow> validate_offset off position
                      | _ \<Rightarrow> Some (UnsupportedOperand,
                               ''the '' @ position @ '' operand calls unsupported function `'' @
                               fun_name_text f @ ''`''))
                 | _ \<Rightarrow> Some (UnsupportedOperand,
                          ''the '' @ position @ '' operand is '' @ describe_kind (expr_kind e) @
                          '', not a value''), Suc n)))"

definition validate_rule ::
  "safe_limits \<Rightarrow> cond_op \<Rightarrow> expr \<Rightarrow> expr option \<Rightarrow> nat \<Rightarrow> rejected option \<times> nat" where
  "validate_rule L oper l r n =
     (case operand_shape oper of
        None \<Rightarrow> (Some (UnsupportedOperator, ''operator `'' @ operator_name oper @
                        ''` is not in the authorization-safe subset''), n)
      | Some shape \<Rightarrow>
          (case validate_operand L l ''left'' False n of
             (Some d, n') \<Rightarrow> (Some d, n')
           | (None, n') \<Rightarrow>
               (case r of
                  None \<Rightarrow> (Some (UnsupportedOperand, ''operator `'' @ operator_name oper @
                                  ''` needs a right operand''), n')
                | Some r' \<Rightarrow> validate_operand L r' ''right'' (shape = Membership) n')))"

text \<open>The loop over the children: the first rejection stops it.\<close>

fun validate_all :: "(nat \<Rightarrow> rejected option \<times> nat) list \<Rightarrow> nat \<Rightarrow> rejected option \<times> nat" where
  "validate_all [] n = (None, n)"
| "validate_all (f # fs) n =
     (case f n of (Some d, n') \<Rightarrow> (Some d, n') | (None, n') \<Rightarrow> validate_all fs n')"

definition group_keys :: "'a option \<Rightarrow> 'a option \<Rightarrow> 'a option \<Rightarrow> string list" where
  "group_keys cs al an =
     (if cs = None then [] else [''conditions'']) @ (if al = None then [] else [''all'']) @
     (if an = None then [] else [''any''])"

definition validate_group_shape ::
  "cond_mode option \<Rightarrow> 'a list option \<Rightarrow> 'a list option \<Rightarrow> 'a list option \<Rightarrow> rejected option" where
  "validate_group_shape m cs al an =
     (let keys = group_keys cs al an
      in if length keys \<noteq> 1
         then Some (UnsupportedExpression,
                if keys = [] then ''a group without children''
                else ''a group declaring both '' @ join '' and '' keys)
         else if group_children cs al an = []
         then Some (UnsupportedExpression, ''a group whose `'' @ hd keys @ ''` holds no condition'')
         else case m of
                None \<Rightarrow> None
              | Some (ModeOther _) \<Rightarrow> Some (UnsupportedExpression, ''a group with an unknown mode'')
              | Some ModeAll \<Rightarrow>
                  (if an \<noteq> None
                   then Some (UnsupportedExpression, ''an `any` group contradicted by mode `all`'')
                   else None)
              | Some ModeAny \<Rightarrow>
                  (if al \<noteq> None
                   then Some (UnsupportedExpression, ''an `all` group contradicted by mode `any`'')
                   else None))"

text \<open>The checks every condition node passes first: its depth, then its place in the budget.\<close>

definition safe_node ::
  "safe_limits \<Rightarrow> (nat \<Rightarrow> nat \<Rightarrow> rejected option \<times> nat) \<Rightarrow> nat \<Rightarrow> nat \<Rightarrow> rejected option \<times> nat" where
  "safe_node L body depth n =
     (if max_depth L < depth
      then (Some (ComplexityExceeded,
              ''the condition nests deeper than '' @ nat_digits (max_depth L)), n)
      else if max_nodes L < Suc n then (Some (too_many_nodes L), Suc n)
      else body depth (Suc n))"

definition not_a_condition :: "string \<Rightarrow> nat \<Rightarrow> nat \<Rightarrow> rejected option \<times> nat" where
  "not_a_condition kind depth n =
     (Some (UnsupportedExpression,
        describe_kind kind @ '' is not a condition in the authorization-safe subset''), n)"

primrec validate_boolean ::
  "safe_limits \<Rightarrow> expr \<Rightarrow> nat \<Rightarrow> nat \<Rightarrow> rejected option \<times> nat" where
  "validate_boolean L (EGroup m cs al an) =
     safe_node L (\<lambda>depth n.
       case validate_group_shape m cs al an of
         Some d \<Rightarrow> (Some d, n)
       | None \<Rightarrow>
           validate_all (map (\<lambda>f. f (Suc depth))
             (group_children (map_option (map (validate_boolean L)) cs)
                (map_option (map (validate_boolean L)) al)
                (map_option (map (validate_boolean L)) an))) n)"
| "validate_boolean L (ERule oper l r) = safe_node L (\<lambda>depth n. validate_rule L oper l r n)"
| "validate_boolean L (EPath p flt off) = safe_node L (not_a_condition ''path'')"
| "validate_boolean L (ELit v) = safe_node L (not_a_condition ''literal'')"
| "validate_boolean L (EFun f off) = safe_node L (not_a_condition ''function'')"
| "validate_boolean L (EFormula oper es) = safe_node L (not_a_condition ''formula'')"
| "validate_boolean L (EIf c t e) = safe_node L (not_a_condition ''if'')"
| "validate_boolean L (ECoalesce es) = safe_node L (not_a_condition ''coalesce'')"
| "validate_boolean L (EAggregate oper coll w f) = safe_node L (not_a_condition ''aggregate'')"
| "validate_boolean L (EDate oper l r u) = safe_node L (not_a_condition ''date'')"
| "validate_boolean L (ESwitch s cs d) = safe_node L (not_a_condition ''switch'')"
| "validate_boolean L (EOther k) = safe_node L (not_a_condition k)"
| "validate_boolean L EMissing =
     (\<lambda>depth n. (Some (UnsupportedExpression, ''the condition is missing''), n))"
| "validate_boolean L ENonObject =
     (\<lambda>depth n. (Some (UnsupportedExpression, ''the condition is not an object''), n))"

definition validate_condition :: "expr \<Rightarrow> safe_options \<Rightarrow> rejected option" where
  "validate_condition e opts = fst (validate_boolean (resolve_limits opts) e 1 0)"

section \<open>Evaluation\<close>

definition is_resolved :: "jsval \<Rightarrow> bool" where
  "is_resolved v =
     (case v of
        VNull \<Rightarrow> False
      | VUndef \<Rightarrow> False
      | VNum x \<Rightarrow> js_finite x
      | VDate t \<Rightarrow> t \<noteq> None
      | _ \<Rightarrow> True)"

fun own_path :: "jsval \<Rightarrow> string list \<Rightarrow> bool" where
  "own_path v [] = True"
| "own_path v (seg # segs) =
     (case own_prop v seg of None \<Rightarrow> False | Some w \<Rightarrow> own_path w segs)"

definition operand_present :: "expr option \<Rightarrow> jsval \<Rightarrow> bool" where
  "operand_present e payload =
     (case e of Some (EPath p _ _) \<Rightarrow> own_path payload (split_path p) | _ \<Rightarrow> True)"

text \<open>The verdict of a rule, and why it is unknown.\<close>

definition safe_rule ::
  "host \<Rightarrow> cond_op \<Rightarrow> expr \<Rightarrow> expr option \<Rightarrow> jsval \<Rightarrow> rejected + bool" where
  "safe_rule h oper l r payload =
     (if \<not> operand_present (Some l) payload \<or> \<not> operand_present r payload
      then Inl (UnknownOperand, ''an operand did not resolve from an own property'')
      else let lv = eval h l payload;
               rv = (case r of None \<Rightarrow> VUndef | Some e \<Rightarrow> eval h e payload)
           in if \<not> is_resolved lv
              then Inl (UnknownOperand, ''the left operand of `'' @ operator_name oper @ ''` did not resolve'')
              else if \<not> is_resolved rv
              then Inl (UnknownOperand, ''the right operand of `'' @ operator_name oper @ ''` did not resolve'')
              else case operand_defect (operand_shape oper) lv rv of
                     Some d \<Rightarrow> Inl (UnsupportedOperand, d)
                   | None \<Rightarrow> Inr (apply_condition_operator oper lv rv))"

text \<open>
  \<open>evalSafeBoolean\<close> with the state it carries: the first reason a rule went unknown.  The loop
  over the children of a group stops at the first child that settles it.
\<close>

type_synonym safe_state = "rejected option"

definition mark_unknown :: "safe_state \<Rightarrow> rejected \<Rightarrow> safe_state" where
  "mark_unknown st d = (case st of None \<Rightarrow> Some d | Some _ \<Rightarrow> st)"

fun safe_loop ::
  "bool \<Rightarrow> (safe_state \<Rightarrow> bool option \<times> safe_state) list \<Rightarrow> bool \<Rightarrow> safe_state \<Rightarrow>
   bool option \<times> safe_state" where
  "safe_loop any [] unknown st = (if unknown then None else Some (\<not> any), st)"
| "safe_loop any (f # fs) unknown st =
     (case f st of
        (None, st') \<Rightarrow> safe_loop any fs True st'
      | (Some b, st') \<Rightarrow> (if b = any then (Some any, st') else safe_loop any fs unknown st'))"

primrec eval_safe :: "host \<Rightarrow> expr \<Rightarrow> jsval \<Rightarrow> safe_state \<Rightarrow> bool option \<times> safe_state" where
  "eval_safe h (EGroup m cs al an) =
     (\<lambda>p st. safe_loop (group_mode m an = ModeAny)
        (map (\<lambda>f. f p)
           (group_children (map_option (map (eval_safe h)) cs)
              (map_option (map (eval_safe h)) al) (map_option (map (eval_safe h)) an))) False st)"
| "eval_safe h (ERule oper l r) =
     (\<lambda>p st. case safe_rule h oper l r p of
               Inl d \<Rightarrow> (None, mark_unknown st d)
             | Inr b \<Rightarrow> (Some b, st))"
| "eval_safe h (EPath q flt off) = (\<lambda>p st. (None, st))"
| "eval_safe h (ELit v) = (\<lambda>p st. (None, st))"
| "eval_safe h (EFun f off) = (\<lambda>p st. (None, st))"
| "eval_safe h (EFormula oper es) = (\<lambda>p st. (None, st))"
| "eval_safe h (EIf c t e) = (\<lambda>p st. (None, st))"
| "eval_safe h (ECoalesce es) = (\<lambda>p st. (None, st))"
| "eval_safe h (EAggregate oper coll w f) = (\<lambda>p st. (None, st))"
| "eval_safe h (EDate oper l r u) = (\<lambda>p st. (None, st))"
| "eval_safe h (ESwitch s cs d) = (\<lambda>p st. (None, st))"
| "eval_safe h (EOther k) = (\<lambda>p st. (None, st))"
| "eval_safe h EMissing = (\<lambda>p st. (None, st))"
| "eval_safe h ENonObject = (\<lambda>p st. (None, st))"

datatype safe_outcome = Satisfied | NotSatisfied | Rejected rejected

definition evaluate_safe :: "host \<Rightarrow> expr \<Rightarrow> jsval \<Rightarrow> safe_options \<Rightarrow> safe_outcome" where
  "evaluate_safe h e p opts =
     (case validate_condition e opts of
        Some d \<Rightarrow> Rejected d
      | None \<Rightarrow>
          (case eval_safe h e p None of
             (Some True, _) \<Rightarrow> Satisfied
           | (Some False, _) \<Rightarrow> NotSatisfied
           | (None, st) \<Rightarrow>
               Rejected (case st of
                           Some d \<Rightarrow> d
                         | None \<Rightarrow> (UnknownOperand, ''an operand did not resolve''))))"

definition is_condition_satisfied :: "host \<Rightarrow> expr \<Rightarrow> jsval \<Rightarrow> safe_options \<Rightarrow> bool" where
  "is_condition_satisfied h e p opts = (evaluate_safe h e p opts = Satisfied)"

section \<open>What a validated condition looks like\<close>

text \<open>
  The shape validation leaves: groups of conditions and rules over two operands that are paths,
  literals or \<open>today\<close>.
\<close>

fun safe_operand :: "expr \<Rightarrow> bool" where
  "safe_operand (EPath _ _ _) = True"
| "safe_operand (ELit _) = True"
| "safe_operand (EFun FnToday _) = True"
| "safe_operand _ = False"

primrec safe_shape :: "expr \<Rightarrow> bool" where
  "safe_shape (EGroup m cs al an) =
     (validate_group_shape m cs al an = None \<and>
      list_all (\<lambda>b. b)
        (group_children (map_option (map safe_shape) cs) (map_option (map safe_shape) al)
           (map_option (map safe_shape) an)))"
| "safe_shape (ERule oper l r) =
     (operand_shape oper \<noteq> None \<and> safe_operand l \<and>
      (case r of None \<Rightarrow> False | Some r' \<Rightarrow> safe_operand r'))"
| "safe_shape (EPath p flt off) = False"
| "safe_shape (ELit v) = False"
| "safe_shape (EFun f off) = False"
| "safe_shape (EFormula oper es) = False"
| "safe_shape (EIf c t e) = False"
| "safe_shape (ECoalesce es) = False"
| "safe_shape (EAggregate oper coll w f) = False"
| "safe_shape (EDate oper l r u) = False"
| "safe_shape (ESwitch s cs d) = False"
| "safe_shape (EOther k) = False"
| "safe_shape EMissing = False"
| "safe_shape ENonObject = False"

text \<open>The nodes validation counts and the depth it measures.\<close>

primrec cond_nodes :: "expr \<Rightarrow> nat" where
  "cond_nodes (EGroup m cs al an) =
     Suc (sum_list (group_children (map_option (map cond_nodes) cs)
            (map_option (map cond_nodes) al) (map_option (map cond_nodes) an)))"
| "cond_nodes (ERule oper l r) = 3"
| "cond_nodes (EPath p flt off) = 0"
| "cond_nodes (ELit v) = 0"
| "cond_nodes (EFun f off) = 0"
| "cond_nodes (EFormula oper es) = 0"
| "cond_nodes (EIf c t e) = 0"
| "cond_nodes (ECoalesce es) = 0"
| "cond_nodes (EAggregate oper coll w f) = 0"
| "cond_nodes (EDate oper l r u) = 0"
| "cond_nodes (ESwitch s cs d) = 0"
| "cond_nodes (EOther k) = 0"
| "cond_nodes EMissing = 0"
| "cond_nodes ENonObject = 0"

primrec cond_depth :: "expr \<Rightarrow> nat" where
  "cond_depth (EGroup m cs al an) =
     Suc (foldr max (group_children (map_option (map cond_depth) cs)
            (map_option (map cond_depth) al) (map_option (map cond_depth) an)) 0)"
| "cond_depth (ERule oper l r) = 1"
| "cond_depth (EPath p flt off) = 0"
| "cond_depth (ELit v) = 0"
| "cond_depth (EFun f off) = 0"
| "cond_depth (EFormula oper es) = 0"
| "cond_depth (EIf c t e) = 0"
| "cond_depth (ECoalesce es) = 0"
| "cond_depth (EAggregate oper coll w f) = 0"
| "cond_depth (EDate oper l r u) = 0"
| "cond_depth (ESwitch s cs d) = 0"
| "cond_depth (EOther k) = 0"
| "cond_depth EMissing = 0"
| "cond_depth ENonObject = 0"

lemma safe_shape_group [simp]:
  "safe_shape (EGroup m cs al an) \<longleftrightarrow>
   validate_group_shape m cs al an = None \<and> (\<forall>c\<in>set (group_children cs al an). safe_shape c)"
  by (simp add: group_children_map list_all_iff)

lemma cond_nodes_group [simp]:
  "cond_nodes (EGroup m cs al an) = Suc (sum_list (map cond_nodes (group_children cs al an)))"
  by (simp add: group_children_map)

lemma cond_depth_group [simp]:
  "cond_depth (EGroup m cs al an) = Suc (foldr max (map cond_depth (group_children cs al an)) 0)"
  by (simp add: group_children_map)

lemma validate_boolean_group [simp]:
  "validate_boolean L (EGroup m cs al an) =
     safe_node L (\<lambda>depth n.
       case validate_group_shape m cs al an of
         Some d \<Rightarrow> (Some d, n)
       | None \<Rightarrow>
           validate_all
             (map (\<lambda>c. validate_boolean L c (Suc depth)) (group_children cs al an)) n)"
  by (simp only: validate_boolean.simps group_children_comp)

lemma eval_safe_group [simp]:
  "eval_safe h (EGroup m cs al an) p st =
     safe_loop (group_mode m an = ModeAny)
       (map (\<lambda>c. eval_safe h c p) (group_children cs al an)) False st"
  by (simp only: eval_safe.simps group_children_comp)

lemmas condition_simps [simp del] =
  safe_shape.simps(1) cond_nodes.simps(1) cond_depth.simps(1) validate_boolean.simps(1)
  eval_safe.simps(1)

lemma validate_operand_ok:
  "validate_operand L e pos lst n = (None, n') \<Longrightarrow>
   safe_operand e \<and> n' = Suc n \<and> n' \<le> max_nodes L"
  by (cases e) (auto simp: validate_operand_def split: if_splits fun_name.splits)

lemma validate_rule_ok:
  "validate_rule L oper l r n = (None, n') \<Longrightarrow>
   safe_shape (ERule oper l r) \<and> n' = Suc (Suc n) \<and> n' \<le> max_nodes L"
  by (auto simp: validate_rule_def split: option.splits prod.splits dest!: validate_operand_ok)

lemma validate_all_ok:
  assumes "validate_all (map (\<lambda>c. validate_boolean L c d) cs) n = (None, n')"
    and "\<And>c n n'. c \<in> set cs \<Longrightarrow> validate_boolean L c d n = (None, n') \<Longrightarrow>
           safe_shape c \<and> n' = n + cond_nodes c \<and> n' \<le> max_nodes L \<and>
           d + cond_depth c \<le> Suc (max_depth L)"
    and "n \<le> max_nodes L" "d \<le> Suc (max_depth L)"
  shows "(\<forall>c\<in>set cs. safe_shape c) \<and> n' = n + sum_list (map cond_nodes cs) \<and> n' \<le> max_nodes L \<and>
         d + foldr max (map cond_depth cs) 0 \<le> Suc (max_depth L)"
  using assms
proof (induction cs arbitrary: n)
  case (Cons c cs)
  from Cons.prems(1) obtain k where
    k: "validate_boolean L c d n = (None, k)"
       "validate_all (map (\<lambda>c. validate_boolean L c d) cs) k = (None, n')"
    by (auto split: prod.splits option.splits)
  have c: "safe_shape c" "k = n + cond_nodes c" "k \<le> max_nodes L"
      "d + cond_depth c \<le> Suc (max_depth L)"
    using Cons.prems(2) [OF _ k(1)] by simp_all
  have "(\<forall>c\<in>set cs. safe_shape c) \<and> n' = k + sum_list (map cond_nodes cs) \<and> n' \<le> max_nodes L \<and>
         d + foldr max (map cond_depth cs) 0 \<le> Suc (max_depth L)"
    using Cons.prems(2-4) by (intro Cons.IH k c(3)) auto
  with c show ?case by (simp add: nat_add_max_right)
qed simp

lemma validate_boolean_ok:
  "validate_boolean L e d n = (None, n') \<Longrightarrow>
   safe_shape e \<and> n' = n + cond_nodes e \<and> n' \<le> max_nodes L \<and> d + cond_depth e \<le> Suc (max_depth L)"
proof (induction e arbitrary: d n n' rule: condition_induct)
  case (Group m cs al an)
  from Group.prems have sh: "validate_group_shape m cs al an = None"
    and lim: "d \<le> max_depth L" "Suc n \<le> max_nodes L"
    and all: "validate_all (map (\<lambda>c. validate_boolean L c (Suc d)) (group_children cs al an)) (Suc n)
              = (None, n')"
    by (auto simp: safe_node_def split: if_splits option.splits)
  from validate_all_ok [OF all Group.IH] sh lim show ?case by auto
next
  case (Rule oper l r)
  then have "validate_rule L oper l r (Suc n) = (None, n')" "d \<le> max_depth L"
    by (auto simp: safe_node_def split: if_splits)
  then show ?case by (auto dest!: validate_rule_ok)
next
  case (Other e)
  then show ?case
    by (cases e) (auto simp: safe_node_def not_a_condition_def split: if_splits)
qed


section \<open>Completions\<close>

text \<open>
  \<open>completes p q\<close>: \<open>q\<close> is \<open>p\<close> with missing values filled in, at any depth.  An object may gain
  properties it did not carry; a present value stays what it was.
\<close>

inductive completes :: "jsval \<Rightarrow> jsval \<Rightarrow> bool" where
  comp_refl [simp, intro]: "completes v v"
| comp_undef [intro]: "completes VUndef v"
| comp_null [intro]: "completes VNull v"
| comp_arr: "list_all2 completes vs ws \<Longrightarrow> completes (VArr n vs) (VArr n ws)"
| comp_obj: "(\<And>k v. map_of fs k = Some v \<Longrightarrow> \<exists>w. map_of gs k = Some w \<and> completes v w) \<Longrightarrow>
    completes (VObj n fs) (VObj n gs)"

inductive_cases completes_arrE: "completes (VArr n vs) w"
inductive_cases completes_objE: "completes (VObj n fs) w"
inductive_simps completes_scalar_simps [simp]:
  "completes (VBool b) w" "completes (VNum x) w" "completes (VStr s) w" "completes (VDate t) w"
  "completes (VMember s) w"

text \<open>The values a rule decides on: scalars, and lists of them.\<close>

fun plain_scalar :: "jsval \<Rightarrow> bool" where
  "plain_scalar (VStr _) = True"
| "plain_scalar (VBool _) = True"
| "plain_scalar (VNum _) = True"
| "plain_scalar (VDate _) = True"
| "plain_scalar _ = False"

fun plain_value :: "jsval \<Rightarrow> bool" where
  "plain_value (VArr _ vs) = list_all plain_scalar vs"
| "plain_value v = plain_scalar v"

lemma completes_plain_scalar: "completes v w \<Longrightarrow> plain_scalar v \<Longrightarrow> w = v"
  by (cases v) auto

lemma list_all2_plain:
  "list_all2 completes vs ws \<Longrightarrow> list_all plain_scalar vs \<Longrightarrow> ws = vs"
  by (induction rule: list_all2_induct) (auto dest: completes_plain_scalar)

lemma completes_arr_cases:
  "completes (VArr n vs) w \<Longrightarrow> \<exists>ws. w = VArr n ws \<and> list_all2 completes vs ws"
  by (erule completes_arrE) (auto intro: list_all2_refl)

lemma completes_obj_cases:
  "completes (VObj n fs) w \<Longrightarrow>
   \<exists>gs. w = VObj n gs \<and> (\<forall>k v. map_of fs k = Some v \<longrightarrow> (\<exists>x. map_of gs k = Some x \<and> completes v x))"
  by (erule completes_objE) auto

lemma completes_plain:
  assumes "completes v w" "plain_value v"
  shows "w = v"
proof (cases v)
  case (VArr n vs)
  then show ?thesis
    using assms completes_arr_cases list_all2_plain by (metis plain_value.simps(1))
qed (use assms in \<open>auto\<close>)

lemma own_prop_completes:
  "completes v w \<Longrightarrow> own_prop v k = Some x \<Longrightarrow> \<exists>y. own_prop w k = Some y \<and> completes x y"
proof (cases v)
  case (VArr n vs)
  assume "completes v w" and x: "own_prop v k = Some x"
  with VArr obtain ws where w: "w = VArr n ws" "list_all2 completes vs ws"
    using completes_arr_cases by blast
  with x VArr show ?thesis
    by (auto simp: own_element_def element_at_def list_all2_conv_all_nth split: if_splits option.splits)
next
  case (VObj n fs)
  assume "completes v w" and "own_prop v k = Some x"
  with VObj completes_obj_cases show ?thesis by fastforce
qed simp_all

lemma own_path_completes:
  "completes v w \<Longrightarrow> own_path v segs \<Longrightarrow> own_path w segs"
proof (induction v segs arbitrary: w rule: own_path.induct)
  case (2 v seg segs)
  then show ?case
    using own_prop_completes by (fastforce split: option.splits)
qed simp

text \<open>A scalar read out of a value is read out of every completion of it.\<close>

lemma get_prop_completes:
  assumes "completes v w" "plain_scalar (get_prop h v k)"
  shows "get_prop h w k = get_prop h v k"
proof (cases v)
  case (VArr n vs)
  with assms(1) obtain ws where w: "w = VArr n ws" "list_all2 completes vs ws"
    using completes_arr_cases by blast
  then have l: "length ws = length vs" by (simp add: list_all2_lengthD)
  have nth: "ws ! i = vs ! i" if "i < length vs" "plain_scalar (vs ! i)" for i
    using w(2) that by (auto dest: list_all2_nthD completes_plain_scalar)
  show ?thesis
    using assms(2) nth VArr w(1) l
    by (auto simp: get_prop_def element_at_def inherited_def split: if_splits option.splits)
next
  case (VObj n fs)
  with assms(1) obtain gs where w: "w = VObj n gs"
      "\<And>k x. map_of fs k = Some x \<Longrightarrow> \<exists>y. map_of gs k = Some y \<and> completes x y"
    using completes_obj_cases by blast
  with assms(2) VObj obtain x where "map_of fs k = Some x" "plain_scalar x"
    by (auto simp: get_prop_def inherited_def split: option.splits if_splits)
  with w VObj show ?thesis
    using completes_plain_scalar by (fastforce simp: get_prop_def)
qed (use assms in \<open>auto simp: get_prop_def inherited_def split: if_splits\<close>)


text \<open>
  Walking an own path from a payload and from its completion: where the first walk ends in a plain
  value, the second ends in the same one.
\<close>

lemma index_key_number:
  assumes "index_key k = Some i"
  shows "text_to_number k = JFin (of_nat i)"
  using assms text_to_number_small_digits [of k]
  by (auto simp: index_key_def split: if_splits)

lemma index_key_length [simp]: "index_key ''length'' = None"
  by (simp add: index_key_def all_digits_def is_digit_def code_def)

lemma array_step_completes:
  assumes vw: "list_all2 completes vs ws"
  shows "completes (array_step h vs k) (array_step h ws k) \<or>
         (index_key k = None \<and> (plain_value (array_step h vs k) \<longrightarrow>
           array_step h ws k = array_step h vs k))"
proof (cases "js_finite (text_to_number k)")
  case True
  have "completes (nth_val vs i) (nth_val ws i)" for i
    using vw by (auto simp: nth_val_def list_all2_conv_all_nth)
  with True show ?thesis unfolding array_step_def Let_def by simp metis
next
  case False
  then have k: "index_key k = None"
    using index_key_number by (cases "index_key k") fastforce+
  have "map (\<lambda>v. get_prop h v k) ws = map (\<lambda>v. get_prop h v k) vs"
    if "list_all plain_scalar (map (\<lambda>v. get_prop h v k) vs)"
    using vw that by (induction rule: list_all2_induct) (simp_all add: get_prop_completes)
  with False k show ?thesis by (auto simp: array_step_def Let_def)
qed

lemma walk_path_completes:
  "completes v w \<Longrightarrow> own_path v segs \<Longrightarrow> plain_value (walk_path h v segs) \<Longrightarrow>
   walk_path h w segs = walk_path h v segs"
proof (induction v segs arbitrary: w rule: own_path.induct)
  case (1 v)
  then show ?case using completes_plain by simp
next
  case (2 v seg segs)
  from "2.prems"(2) obtain x where x: "own_prop v seg = Some x" "own_path x segs"
    by (auto split: option.splits)
  then obtain y where y: "own_prop w seg = Some y" "completes x y"
    using own_prop_completes "2.prems"(1) by blast
  show ?case
  proof (cases v)
    case (VObj n fs)
    with "2.prems"(1) obtain gs where "w = VObj n gs" using completes_obj_cases by blast
    with VObj x y "2.IH" [OF x(1) y(2) x(2)] "2.prems"(3) show ?thesis by (simp add: get_prop_def)
  next
    case (VArr n vs)
    with "2.prems"(1) obtain ws where w: "w = VArr n ws" "list_all2 completes vs ws"
      using completes_arr_cases by blast
    show ?thesis
    proof (cases "index_key seg")
      case (Some i)
      with x(1) VArr have i: "i < length vs" "x = vs ! i"
        by (auto simp: own_element_def element_at_def index_key_def all_digits_def is_digit_def
            code_def split: if_splits)
      have "array_step h vs seg = x" "array_step h ws seg = y"
        using i y(1) w x(1) VArr index_key_number [OF Some] Some list_all2_lengthD [OF w(2)]
        by (auto simp: array_step_def nth_val_def own_element_def element_at_def split: if_splits)
      with VArr w(1) "2.IH" [OF x(1) y(2) x(2)] "2.prems"(3) show ?thesis by simp
    next
      case None
      with x VArr have "segs = []"
        by (cases segs) (auto simp: own_element_def element_at_def split: if_splits)
      with array_step_completes [OF w(2), of h seg] completes_plain VArr w(1) "2.prems"(3)
      show ?thesis by fastforce
    qed
  qed (use x in simp_all)
qed


section \<open>Stable verdicts\<close>

lemma eval_path_plain: "plain_value (eval_path h path off p) \<Longrightarrow> plain_value (walk_path h p (split_path path))"
  by (auto simp: eval_path_def Let_def split: option.splits jsval.splits)

lemma eval_path_walk:
  "walk_path h q (split_path path) = walk_path h p (split_path path) \<Longrightarrow>
   eval_path h path off q = eval_path h path off p"
  by (simp add: eval_path_def)

lemma operand_completes:
  assumes "safe_operand e" "operand_present (Some e) p" "completes p q" "plain_value (eval h e p)"
  shows "operand_present (Some e) q \<and> eval h e q = eval h e p"
proof (cases e)
  case (EPath path flt off)
  with assms have own: "own_path p (split_path path)" and "plain_value (eval_path h path off p)"
    by (simp_all add: operand_present_def)
  from eval_path_walk [OF walk_path_completes [OF assms(3) own eval_path_plain [OF this(2)]]]
  show ?thesis
    using EPath own_path_completes [OF assms(3) own] by (simp add: operand_present_def)
next
  case (EFun f off)
  with assms show ?thesis by (cases f) (simp_all add: operand_present_def eval_function_def)
qed (use assms in \<open>simp_all add: operand_present_def\<close>)

lemma safe_scalar_plain: "is_safe_scalar v \<Longrightarrow> plain_scalar v"
  by (cases v) auto

lemma plain_scalar_value: "plain_scalar v \<Longrightarrow> plain_value v"
  by (cases v) auto

lemma ordered_plain: "is_ordered_value v \<Longrightarrow> plain_value v"
  by (cases v) auto

lemma text_plain: "is_text v \<Longrightarrow> plain_value v"
  by (cases v) auto

lemma list_defect_plain: "list_defect v pos = None \<Longrightarrow> plain_value v"
  by (cases v) (auto simp: list_defect_def list_all_iff find_first_None safe_scalar_plain
      split: if_splits option.splits)

lemma member_defect_plain: "member_defect v vs pos = None \<Longrightarrow> plain_value v"
  by (auto simp: member_defect_def safe_scalar_plain plain_scalar_value split: if_splits)

lemmas plain_values = safe_scalar_plain [THEN plain_scalar_value] ordered_plain text_plain
  list_defect_plain member_defect_plain

lemma plain_text [simp]: "plain_value (VStr s)"
  by simp

text \<open>A pair without a defect is a pair of plain values.\<close>

lemma operand_defect_plain:
  assumes "operand_defect s l r = None"
  shows "plain_value l \<and> plain_value r"
proof (cases s)
  case (Some x)
  then show ?thesis
    using assms
    by (cases x) (auto simp del: plain_value.simps
        simp: operand_defect_def scalar_pair_defect_def plain_values plain_text
        split: if_splits option.splits jsval.splits)
qed (use assms in \<open>simp add: operand_defect_def\<close>)

lemma safe_rule_Inr:
  "safe_rule h oper l (Some r) p = Inr b \<longleftrightarrow>
   operand_present (Some l) p \<and> operand_present (Some r) p \<and>
   is_resolved (eval h l p) \<and> is_resolved (eval h r p) \<and>
   operand_defect (operand_shape oper) (eval h l p) (eval h r p) = None \<and>
   b = apply_condition_operator oper (eval h l p) (eval h r p)"
  by (auto simp: safe_rule_def Let_def split: option.splits)

lemma safe_rule_completes:
  assumes "safe_shape (ERule oper l r)" "safe_rule h oper l r p = Inr b" "completes p q"
  shows "safe_rule h oper l r q = Inr b"
proof -
  from assms(1) obtain r' where r: "r = Some r'" "safe_operand l" "safe_operand r'"
    by (cases r) auto
  note decided = assms(2) [unfolded r(1) safe_rule_Inr]
  then have "plain_value (eval h l p)" "plain_value (eval h r' p)"
    using operand_defect_plain by blast+
  with decided r assms(3) operand_completes [of l p q h] operand_completes [of r' p q h]
  show ?thesis by (simp add: safe_rule_Inr)
qed

text \<open>
  The verdict of a condition does not depend on the reason carried along, and a group combines the
  verdicts of its children as Kleene's \<open>or\<close> and \<open>and\<close>.
\<close>

definition verdict :: "host \<Rightarrow> expr \<Rightarrow> jsval \<Rightarrow> bool option" where
  "verdict h e p = fst (eval_safe h e p None)"

definition kleene :: "bool \<Rightarrow> bool option set \<Rightarrow> bool option" where
  "kleene any vs =
     (if Some any \<in> vs then Some any else if None \<in> vs then None else Some (\<not> any))"

lemma kleene_decided:
  "kleene any vs = Some b \<longleftrightarrow>
   (b = any \<and> Some any \<in> vs) \<or> (b = (\<not> any) \<and> (\<forall>v\<in>vs. v = Some (\<not> any)))"
  by (cases any; cases b) (auto simp: kleene_def, (metis (full_types) not_None_eq)+)

lemma safe_loop_kleene:
  assumes "\<And>f st. f \<in> set fs \<Longrightarrow> fst (f st) = v f"
  shows "fst (safe_loop any fs unknown st) =
         kleene any (v ` set fs \<union> (if unknown then {None} else {}))"
  using assms
proof (induction fs arbitrary: unknown st)
  case (Cons f fs)
  then have IH: "fst (safe_loop any fs unknown' st') =
      kleene any (v ` set fs \<union> (if unknown' then {None} else {}))" for unknown' st'
    by simp
  obtain r st' where f: "f st = (r, st')" by fastforce
  with Cons.prems [of f st] have r: "v f = r" by simp
  show ?case
  proof (cases r)
    case None
    with f r IH show ?thesis by (simp add: insert_commute)
  next
    case (Some b)
    with f r IH show ?thesis by (auto simp: kleene_def)
  qed
qed (simp add: kleene_def)

lemma eval_safe_state: "fst (eval_safe h e p st) = verdict h e p"
proof (induction e arbitrary: st rule: condition_induct)
  case (Group m cs al an)
  have "fst (safe_loop (group_mode m an = ModeAny)
          (map (\<lambda>c. eval_safe h c p) (group_children cs al an)) False st') =
        kleene (group_mode m an = ModeAny)
          ((\<lambda>f. fst (f None)) ` set (map (\<lambda>c. eval_safe h c p) (group_children cs al an)) \<union> {})"
    for st'
    by (subst safe_loop_kleene [where v = "\<lambda>f. fst (f None)"])
       (auto simp: Group.IH verdict_def [symmetric])
  then show ?case by (simp add: verdict_def)
next
  case (Rule oper l r)
  then show ?case by (simp add: verdict_def split: sum.splits)
next
  case (Other e)
  then show ?case by (cases e) (simp_all add: verdict_def)
qed

lemma verdict_group:
  "verdict h (EGroup m cs al an) p =
   kleene (group_mode m an = ModeAny) ((\<lambda>c. verdict h c p) ` set (group_children cs al an))"
proof -
  have "verdict h (EGroup m cs al an) p =
     kleene (group_mode m an = ModeAny)
       ((\<lambda>f. fst (f None)) ` set (map (\<lambda>c. eval_safe h c p) (group_children cs al an)) \<union> {})"
    unfolding verdict_def [of h "EGroup m cs al an"] eval_safe_group
    by (subst safe_loop_kleene [where v = "\<lambda>f. fst (f None)"]) (auto simp: eval_safe_state)
  then show ?thesis by (simp add: image_image eval_safe_state)
qed

lemma verdict_group_Some:
  "verdict h (EGroup m cs al an) p = Some b \<longleftrightarrow>
   (b = (group_mode m an = ModeAny) \<and>
    (\<exists>c\<in>set (group_children cs al an). verdict h c p = Some (group_mode m an = ModeAny))) \<or>
   (b = (group_mode m an \<noteq> ModeAny) \<and>
    (\<forall>c\<in>set (group_children cs al an). verdict h c p = Some (group_mode m an \<noteq> ModeAny)))"
  unfolding verdict_group kleene_decided by (simp add: image_iff eq_commute [of "Some _"])

lemma verdict_rule:
  "verdict h (ERule oper l r) p =
   (case safe_rule h oper l r p of Inl _ \<Rightarrow> None | Inr b \<Rightarrow> Some b)"
  by (simp add: verdict_def split: sum.splits)

lemma verdict_other:
  "\<not> is_container e \<Longrightarrow> verdict h e p = None"
  by (cases e) (simp_all add: verdict_def)

lemma verdict_completes:
  assumes "safe_shape e" "verdict h e p = Some b" "completes p q"
  shows "verdict h e q = Some b"
  using assms(1,2)
proof (induction e arbitrary: b rule: condition_induct)
  case (Group m cs al an)
  have child: "verdict h c q = Some b'" if "c \<in> set (group_children cs al an)" "verdict h c p = Some b'"
    for c b'
    using Group.IH Group.prems(1) that by simp
  from Group.prems(2) show ?case
    unfolding verdict_group_Some using child by blast
next
  case (Rule oper l r)
  then show ?case
    using safe_rule_completes [OF _ _ assms(3)] by (auto simp: verdict_rule split: sum.splits)
next
  case (Other e)
  then show ?case by (simp add: verdict_other)
qed

text \<open>A verdict is the answer of the open-world evaluator on the same payload.\<close>

lemma verdict_open_world: "verdict h e p = Some b \<Longrightarrow> evaluate_condition h e p = b"
proof (induction e arbitrary: b rule: condition_induct)
  case (Group m cs al an)
  have "evaluate_condition h (EGroup m cs al an) p =
      (if group_mode m an = ModeAny
       then \<exists>c\<in>set (group_children cs al an). evaluate_condition h c p
       else \<forall>c\<in>set (group_children cs al an). evaluate_condition h c p)"
    unfolding evaluate_condition_def [of h "EGroup m cs al an"] eval_group is_true_def by simp
  with Group.prems Group.IH show ?case
    unfolding verdict_group_Some by (cases "group_mode m an = ModeAny") auto
next
  case (Rule oper l r)
  then show ?case
    by (auto simp: verdict_rule safe_rule_def evaluate_condition_def is_true_def Let_def
        split: if_splits option.splits)
next
  case (Other e)
  then show ?case by (simp add: verdict_other)
qed


section \<open>Properties\<close>

text \<open>Every rejection an accepted condition can still meet names its operands.\<close>

definition operand_reason :: "safe_state \<Rightarrow> bool" where
  "operand_reason st \<longleftrightarrow>
     (case st of None \<Rightarrow> True | Some d \<Rightarrow> fst d = UnknownOperand \<or> fst d = UnsupportedOperand)"

lemma safe_rule_reason: "safe_rule h oper l r p = Inl d \<Longrightarrow> operand_reason (Some d)"
  by (auto simp: safe_rule_def operand_reason_def Let_def split: if_splits option.splits)

lemma mark_unknown_reason:
  "operand_reason st \<Longrightarrow> operand_reason (Some d) \<Longrightarrow> operand_reason (mark_unknown st d)"
  by (cases st) (simp_all add: mark_unknown_def)

lemma safe_loop_reason:
  assumes "\<And>f st. f \<in> set fs \<Longrightarrow> operand_reason st \<Longrightarrow> operand_reason (snd (f st))" "operand_reason st"
  shows "operand_reason (snd (safe_loop any fs unknown st))"
  using assms
proof (induction fs arbitrary: unknown st)
  case (Cons f fs)
  obtain r st' where f: "f st = (r, st')" by fastforce
  with Cons.prems(1) [of f st] Cons.prems(2) have "operand_reason st'" by simp
  with f Cons show ?case by (cases r) auto
qed simp

lemma eval_safe_reason: "operand_reason st \<Longrightarrow> operand_reason (snd (eval_safe h e p st))"
proof (induction e arbitrary: st rule: condition_induct)
  case (Group m cs al an)
  show ?case
    unfolding eval_safe_group by (rule safe_loop_reason) (use Group in auto)
next
  case (Rule oper l r)
  then show ?case by (auto dest: safe_rule_reason intro: mark_unknown_reason split: sum.splits)
next
  case (Other e)
  then show ?case by (cases e) simp_all
qed

lemma evaluate_safe_verdict:
  "evaluate_safe h e p opts = (if b then Satisfied else NotSatisfied) \<longleftrightarrow>
   validate_condition e opts = None \<and> verdict h e p = Some b"
  by (cases "eval_safe h e p None")
     (auto simp: evaluate_safe_def verdict_def split: option.splits bool.splits)

lemma validated_shape: "validate_condition e opts = None \<Longrightarrow> safe_shape e"
  unfolding validate_condition_def
  by (metis prod.collapse validate_boolean_ok)

text \<open>
  C1. An authorization verdict is safe to act on: whatever values the missing operands turn out to
  have, the condition keeps that verdict, and the ordinary evaluator gives the same answer.
\<close>

theorem safe_verdict_holds_in_every_completion:
  assumes "evaluate_safe h e p opts = (if b then Satisfied else NotSatisfied)"
    and "completes p q"
  shows "evaluate_condition h e q = b \<and>
         evaluate_safe h e q opts = (if b then Satisfied else NotSatisfied)"
  using assms verdict_completes [OF validated_shape] verdict_open_world
  unfolding evaluate_safe_verdict by blast

definition example_condition :: expr where
  "example_condition =
     EGroup None None None
       (Some [ERule NotEquals (EPath ''resource.state'' False None) (Some (ELit (VStr ''done''))),
              ERule Equals (EPath ''resource.owner'' False None) (Some (ELit (VStr ''ann'')))])"

definition default_options :: safe_options where
  "default_options = \<lparr>opt_operand_roots = VUndef, opt_max_nodes = VUndef, opt_max_depth = VUndef,
     opt_max_path_segments = VUndef\<rparr>"

definition example_payload :: "jsval \<Rightarrow> jsval" where
  "example_payload state =
     VObj (Some 0) [(''resource'', VObj (Some 1) [(''owner'', VStr ''ann''), (''state'', state)])]"

lemma example_completes: "completes (example_payload VUndef) (example_payload (VStr ''done''))"
  unfolding example_payload_def by (intro comp_obj) (auto intro!: comp_obj split: if_splits)

lemma example_satisfied:
  "evaluate_safe bare_host example_condition (example_payload VUndef) default_options = Satisfied"
  by code_simp

theorem safe_verdict_witness:
  "evaluate_condition bare_host example_condition (example_payload (VStr ''done''))"
  using safe_verdict_holds_in_every_completion [where b = True, OF _ example_completes]
    example_satisfied by simp

text \<open>
  C2. A condition that passes validation has the safe shape and stays within the limits: its
  condition nodes with their operands are at most the node budget, and it nests at most as deep as
  the depth limit.
\<close>

theorem validated_condition_within_limits:
  assumes "validate_condition e opts = None"
  shows "safe_shape e \<and> cond_nodes e \<le> max_nodes (resolve_limits opts) \<and>
         cond_depth e \<le> max_depth (resolve_limits opts)"
proof -
  obtain n where "validate_boolean (resolve_limits opts) e 1 0 = (None, n)"
    using assms by (cases "validate_boolean (resolve_limits opts) e 1 0") (simp add: validate_condition_def)
  from validate_boolean_ok [OF this] show ?thesis by simp
qed

theorem validated_condition_witness:
  "cond_nodes example_condition \<le> 200 \<and> cond_depth example_condition \<le> 16"
proof -
  have "validate_condition example_condition default_options = None" by code_simp
  from validated_condition_within_limits [OF this] show ?thesis
    by (simp add: resolve_limits_def default_options_def positive_option_def
        default_max_nodes_def default_max_depth_def)
qed

text \<open>
  Once a condition has passed validation its evaluation is rejected only for its operands: one
  that did not resolve, or a pair that cannot be compared without coercion.
\<close>

theorem accepted_condition_rejected_for_operands:
  assumes "validate_condition e opts = None" "evaluate_safe h e p opts = Rejected (k, d)"
  shows "k = UnknownOperand \<or> k = UnsupportedOperand"
  using assms eval_safe_reason [of None h e p]
  by (auto simp: evaluate_safe_def operand_reason_def split: option.splits bool.splits prod.splits)

theorem accepted_condition_witness:
  "\<exists>k d. evaluate_safe bare_host (ERule Equals (EPath ''resource.x'' False None) (Some (ELit (VBool True))))
       (example_payload VNull) default_options = Rejected (k, d) \<and> k = UnknownOperand"
proof -
  let ?e = "ERule Equals (EPath ''resource.x'' False None) (Some (ELit (VBool True)))"
  have v: "validate_condition ?e default_options = None" by code_simp
  have r: "evaluate_safe bare_host ?e (example_payload VNull) default_options =
      Rejected (UnknownOperand, ''an operand did not resolve from an own property'')" by code_simp
  from accepted_condition_rejected_for_operands [OF v r] r show ?thesis by simp
qed

definition excluded_middle :: expr where
  "excluded_middle =
     EGroup None None None
       (Some [ERule Equals (EPath ''resource.x'' False None) (Some (ELit (VBool True))),
              ERule NotEquals (EPath ''resource.x'' False None) (Some (ELit (VBool True)))])"

text \<open>
  The three-valued reading is not complete: a condition and its negation under \<open>any\<close> hold in
  every completion of a payload without the operand, and are still rejected as unknown.
\<close>

theorem safe_verdict_not_complete:
  "evaluate_condition h excluded_middle q \<and>
   (\<exists>d. evaluate_safe h excluded_middle (example_payload VNull) default_options = Rejected (UnknownOperand, d))"
proof
  show "evaluate_condition h excluded_middle q"
    unfolding evaluate_condition_def excluded_middle_def eval_group is_true_def
    by (simp add: group_children_def group_mode_def evaluate_condition_def is_true_def
        apply_condition_operator_def)
  show "\<exists>d. evaluate_safe h excluded_middle (example_payload VNull) default_options =
      Rejected (UnknownOperand, d)"
  proof -
    have v: "validate_condition excluded_middle default_options = None" by code_simp
    have "operand_present (Some (EPath ''resource.x'' False None)) (example_payload VNull) = False"
      by code_simp
    then have "snd (eval_safe h excluded_middle (example_payload VNull) None) =
          Some (UnknownOperand, ''an operand did not resolve from an own property'') \<and>
        fst (eval_safe h excluded_middle (example_payload VNull) None) = None"
      by (simp add: excluded_middle_def group_children_def group_mode_def safe_rule_def mark_unknown_def
          del: eval_safe.simps(1))
    with v show ?thesis
      by (cases "eval_safe h excluded_middle (example_payload VNull) None") (simp add: evaluate_safe_def)
  qed
qed

end
