(* ===== verification/Formula_Types.thy ===== *)
theory Formula_Types
  imports Js_Value
begin

text \<open>
  The shared types of the formula package (\<open>types.ts\<close>, \<open>base-types.ts\<close>): the five value types, the
  fields a formula may name, refusals with the stretch of text they are about, and the error codes
  of a value that could not be computed.
\<close>

section \<open>Types and fields\<close>

datatype formula_type = TText | TNumber | TBoolean | TDate | TTimestamp

definition type_name :: "formula_type \<Rightarrow> string" where
  "type_name t =
     (case t of TText \<Rightarrow> ''text'' | TNumber \<Rightarrow> ''number'' | TBoolean \<Rightarrow> ''boolean'' | TDate \<Rightarrow> ''date''
              | TTimestamp \<Rightarrow> ''timestamp'')"

text \<open>\<open>FORMULA_TYPES\<close>, \<open>isFormulaType\<close>: a field's type is any text, one of the five names or not.\<close>

definition formula_types :: "formula_type list" where
  "formula_types = [TText, TNumber, TBoolean, TDate, TTimestamp]"

definition formula_type_of :: "string \<Rightarrow> formula_type option" where
  "formula_type_of s = find_first (\<lambda>t. type_name t = s) formula_types"

datatype field_scope = Self | Relation string

datatype field_kind = Stored | FormulaField | LookupField | RollupField

record field_ref =
  ref_id :: string
  ref_scope :: field_scope

record field =
  f_id :: string
  f_label :: string
  f_key :: string
  f_type :: string
  f_classified :: bool
  f_out_of_scope :: "string option"
  f_kind :: "field_kind option"
  f_scope :: field_scope
  f_depth :: "nat option"
  f_dependencies :: "field_ref list option"

type_synonym environment = "field list"

section \<open>Refusals\<close>

datatype diagnostic_code =
  SyntaxError | TooComplex | UnknownField | AmbiguousField | UnknownFunction | ArgumentCount
| InvalidArgument | TypeMismatch | MixedBranches | UndeterminedType | TimeFunction | OutOfScope
| UnsupportedFieldType | ClassifiedField | Cycle | DepthExceeded

datatype param = PText string | PNum nat

record diagnostic =
  d_code :: diagnostic_code
  d_message :: string
  d_start :: nat
  d_end :: nat
  d_params :: "(string \<times> param) list"

section \<open>Values and errors\<close>

datatype error_code =
  DivideByZero | InvalidNumber | NumberOutOfRange | InvalidDate | TextTooLong | TypeError

datatype formula_value = FNull | FText string | FNumber jsnum | FBool bool

section \<open>Base types\<close>

datatype cardinality = Single | Collection

definition by_base_type :: "(string \<times> formula_type) list" where
  "by_base_type =
     [(''string'', TText), (''integer'', TNumber), (''number'', TNumber), (''money'', TNumber),
      (''boolean'', TBoolean), (''date'', TDate), (''datetime'', TTimestamp)]"

definition formula_type_for_base_type :: "string \<Rightarrow> cardinality \<Rightarrow> formula_type option" where
  "formula_type_for_base_type base c =
     (if c = Collection then None else map_of by_base_type base)"

section \<open>Facts\<close>

lemma type_name_inject [simp]: "type_name s = type_name t \<longleftrightarrow> s = t"
  by (cases s; cases t) (simp_all add: type_name_def)

lemma formula_type_of_name [simp]: "formula_type_of (type_name t) = Some t"
  by (cases t) (simp_all add: formula_type_of_def formula_types_def type_name_def)

lemma formula_type_of_Some: "formula_type_of s = Some t \<longleftrightarrow> s = type_name t"
  using find_first_Some [of "\<lambda>t. type_name t = s" formula_types t]
  by (auto simp: formula_type_of_def [symmetric])

end
