(* ===== verification/Formula_Lexer.thy ===== *)
theory Formula_Lexer
  imports Formula_Types
begin

text \<open>
  The tokens of formula text (\<open>tokenize\<close> of \<open>formula/src/syntax.ts\<close>).  The loop over the index of
  the text is recursion on its rest, with the index carried along; each turn consumes at least one
  character.
\<close>

section \<open>Tokens\<close>

datatype token_type =
  KNumber | KString | KField | KIdentifier | KOperator | KLParen | KRParen | KComma | KDot | KInvalid
| KEof

datatype token_value = NoValue | NumValue jsnum | TextValue string

record token =
  t_type :: token_type
  t_text :: string
  t_value :: token_value
  t_start :: nat
  t_end :: nat
  t_unterminated :: bool

definition value_text :: "token \<Rightarrow> string" where
  "value_text t = (case t_value t of TextValue s \<Rightarrow> s | _ \<Rightarrow> [])"

definition value_number :: "token \<Rightarrow> jsnum" where
  "value_number t = (case t_value t of NumValue x \<Rightarrow> x | _ \<Rightarrow> JNaN)"

section \<open>Characters\<close>

definition identifier_start :: "char \<Rightarrow> bool" where
  "identifier_start c = (is_letter c \<or> c = CHR ''_'')"

definition identifier_part :: "char \<Rightarrow> bool" where
  "identifier_part c = (is_letter c \<or> is_numeral c \<or> c = CHR ''_'')"

definition is_identifier :: "string \<Rightarrow> bool" where
  "is_identifier s = (s \<noteq> [] \<and> identifier_start (hd s) \<and> list_all identifier_part (tl s))"

definition operators :: "string list" where
  "operators = [''<='', ''>='', ''!='', ''<>'', ''+'', ''-'', ''*'', ''/'', ''&'', ''='', ''<'', ''>'']"

definition single_token :: "char \<Rightarrow> token_type" where
  "single_token c =
     (if c = CHR ''('' then KLParen else if c = CHR '')'' then KRParen
      else if c = CHR '','' then KComma else if c = CHR ''.'' then KDot else KInvalid)"

section \<open>Names in braces and text in quotes\<close>

text \<open>
  The two inner loops, after the opening character: the decoded value, how many characters they
  consumed and whether the closing character was found.
\<close>

definition brace_escape :: "char \<Rightarrow> bool" where
  "brace_escape c = (c = CHR ''}'' \<or> c = CHR ''{'' \<or> c = CHR 0x5C)"

fun scan_braced :: "string \<Rightarrow> string \<times> nat \<times> bool" where
  "scan_braced [] = ([], 0, False)"
| "scan_braced [c] = (if c = CHR ''}'' then ([], 1, True) else ([c], 1, False))"
| "scan_braced (c # d # cs) =
     (if c = CHR 0x5C \<and> brace_escape d
      then case scan_braced cs of (v, n, b) \<Rightarrow> (d # v, n + 2, b)
      else if c = CHR ''}'' then ([], 1, True)
      else case scan_braced (d # cs) of (v, n, b) \<Rightarrow> (c # v, n + 1, b))"

definition unescape_char :: "char \<Rightarrow> char" where
  "unescape_char c = (if c = CHR ''n'' then CHR 0x0A else if c = CHR ''t'' then CHR 0x09 else c)"

fun scan_quoted :: "char \<Rightarrow> string \<Rightarrow> string \<times> nat \<times> bool" where
  "scan_quoted q [] = ([], 0, False)"
| "scan_quoted q [c] = (if c = q then ([], 1, True) else ([c], 1, False))"
| "scan_quoted q (c # d # cs) =
     (if c = CHR 0x5C
      then case scan_quoted q cs of (v, n, b) \<Rightarrow> (unescape_char d # v, n + 2, b)
      else if c = q then ([], 1, True)
      else case scan_quoted q (d # cs) of (v, n, b) \<Rightarrow> (c # v, n + 1, b))"

section \<open>The loop\<close>

text \<open>
  One turn at a non-empty rest: the token it pushes, if any, and the characters it consumes.
\<close>

definition make_token ::
  "token_type \<Rightarrow> token_value \<Rightarrow> bool \<Rightarrow> nat \<Rightarrow> nat \<Rightarrow> string \<Rightarrow> token option \<times> nat" where
  "make_token k v u i n s =
     (Some \<lparr>t_type = k, t_text = take n s, t_value = v, t_start = i, t_end = i + n,
            t_unterminated = u\<rparr>, n)"

definition starts_number :: "string \<Rightarrow> bool" where
  "starts_number s =
     (case s of
        [] \<Rightarrow> False
      | c # r \<Rightarrow> is_digit c \<or> (c = CHR ''.'' \<and> r \<noteq> [] \<and> is_digit (hd r)))"

definition next_token :: "nat \<Rightarrow> string \<Rightarrow> token option \<times> nat" where
  "next_token i s =
     (let ch = hd s
      in if is_space ch then (None, 1)
         else if ch = CHR ''{''
         then case scan_braced (tl s) of (v, n, fin) \<Rightarrow>
                make_token KField (TextValue v) (\<not> fin) i (Suc n) s
         else if ch = CHR 0x22 \<or> ch = CHR 0x27
         then case scan_quoted ch (tl s) of (v, n, fin) \<Rightarrow>
                make_token KString (TextValue v) (\<not> fin) i (Suc n) s
         else case (if starts_number s then scan_number s else None) of
                Some (m, _, _) \<Rightarrow> make_token KNumber (NumValue (text_to_number m)) False i (length m) s
              | None \<Rightarrow>
                  (if identifier_start ch
                   then let n = Suc (length (takeWhile identifier_part (tl s)))
                        in make_token KIdentifier (TextValue (take n s)) False i n s
                   else case find_first (\<lambda>oper. prefix oper s) operators of
                          Some oper \<Rightarrow>
                            make_token KOperator (TextValue (if oper = ''<>'' then ''!='' else oper))
                              False i (length oper) s
                        | None \<Rightarrow> make_token (single_token ch) NoValue False i 1 s))"

lemma scan_mantissa_split:
  assumes "scan_mantissa s = Some (m, i, f, r)"
  shows "s = m @ r \<and> m \<noteq> []"
proof -
  have s: "s = takeWhile is_digit s @ dropWhile is_digit s" by simp
  show ?thesis
  proof (cases "dropWhile is_digit s \<noteq> [] \<and> hd (dropWhile is_digit s) = CHR ''.''")
    case True
    then have "dropWhile is_digit s = CHR ''.'' # tl (dropWhile is_digit s)"
      by (metis list.collapse)
    with assms True s show ?thesis
      by (auto simp: scan_mantissa_def Let_def split: if_splits)
  next
    case False
    with assms s show ?thesis by (auto simp: scan_mantissa_def Let_def split: if_splits)
  qed
qed

lemma scan_exponent_split:
  assumes "scan_exponent r = (x, e, r')"
  shows "r = x @ r'"
proof (cases r)
  case (Cons c q)
  have split: "q' = takeWhile is_digit q' @ dropWhile is_digit q'" for q' by simp
  show ?thesis
  proof (cases "c = CHR ''e'' \<or> c = CHR ''E''")
    case True
    with assms Cons show ?thesis
      by (cases q) (auto simp: scan_exponent_def Let_def split: if_splits)
  qed (use assms Cons in \<open>auto simp: scan_exponent_def\<close>)
qed (use assms in \<open>simp add: scan_exponent_def\<close>)

lemma scan_number_split: "scan_number s = Some (m, q, r) \<Longrightarrow> s = m @ r \<and> m \<noteq> []"
  using scan_mantissa_split scan_exponent_split
  by (fastforce simp: scan_number_def split: option.splits prod.splits)

lemma operators_nonempty: "oper \<in> set operators \<Longrightarrow> oper \<noteq> []"
  by (auto simp: operators_def)

lemma next_token_consumes: "0 < snd (next_token i s)"
  by (auto simp: next_token_def make_token_def Let_def split: option.splits prod.splits
      dest!: scan_number_split find_first_Some operators_nonempty)

lemma next_token_pos: "(t, n) = next_token i s \<Longrightarrow> 0 < n"
  using next_token_consumes [of i s] by (metis snd_conv)

function lex_from :: "nat \<Rightarrow> string \<Rightarrow> token list" where
  "lex_from i [] = [\<lparr>t_type = KEof, t_text = [], t_value = NoValue, t_start = i, t_end = i,
                t_unterminated = False\<rparr>]"
| "lex_from i (c # s) =
     (case next_token i (c # s) of (t, n) \<Rightarrow> opt_list t @ lex_from (i + n) (drop n (c # s)))"
  by pat_completeness auto
termination
  by (relation "measure (\<lambda>(i, s). length s)") (auto dest: next_token_pos)

definition tokenize :: "string \<Rightarrow> token list" where
  "tokenize s = lex_from 0 s"


section \<open>Spans\<close>

text \<open>
  What a list of tokens is of a text from an index on: spans in order and inside the text, each
  token's text the stretch it spans, only white space between them, and the end last.
\<close>

fun tokens_of :: "nat \<Rightarrow> string \<Rightarrow> token list \<Rightarrow> bool" where
  "tokens_of i s [] = False"
| "tokens_of i s [t] \<longleftrightarrow>
     t_type t = KEof \<and> t_start t = i + length s \<and> t_end t = i + length s \<and> t_text t = [] \<and>
     list_all is_space s"
| "tokens_of i s (t # ts) \<longleftrightarrow>
     (\<exists>gap rest. s = gap @ t_text t @ rest \<and> list_all is_space gap \<and> t_text t \<noteq> [] \<and>
        t_type t \<noteq> KEof \<and> t_start t = i + length gap \<and> t_end t = t_start t + length (t_text t) \<and>
        tokens_of (t_end t) rest ts)"

lemma tokens_ofI:
  "\<lbrakk>s = gap @ t_text t @ rest; list_all is_space gap; t_text t \<noteq> []; t_type t \<noteq> KEof;
    t_start t = i + length gap; t_end t = t_start t + length (t_text t); tokens_of (t_end t) rest ts\<rbrakk> \<Longrightarrow>
   tokens_of i s (t # ts)"
  by (cases ts) auto

lemma tokens_of_space:
  assumes "is_space c" "tokens_of (Suc i) s ts"
  shows "tokens_of i (c # s) ts"
proof (cases ts)
  case (Cons t ts')
  show ?thesis
  proof (cases ts')
    case (Cons t' ts'')
    with assms \<open>ts = t # ts'\<close> obtain gap rest where "s = gap @ t_text t @ rest" "list_all is_space gap"
      "t_text t \<noteq> []" "t_type t \<noteq> KEof" "t_start t = Suc i + length gap"
      "t_end t = t_start t + length (t_text t)" "tokens_of (t_end t) rest (t' # ts'')" by auto
    with assms Cons \<open>ts = t # ts'\<close> show ?thesis
      unfolding \<open>ts = t # ts'\<close> by (intro tokens_ofI [of _ "c # gap" _ rest]) auto
  qed (use assms \<open>ts = t # ts'\<close> in simp)
qed (use assms in simp)

lemma tokens_of_Cons:
  assumes "tokens_of (i + n) (drop n s) ts" "0 < n" "n \<le> length s" "t_text t = take n s"
    "t_type t \<noteq> KEof" "t_start t = i" "t_end t = i + n"
  shows "tokens_of i s (t # ts)"
proof -
  from assms(1) obtain t' ts' where "ts = t' # ts'" by (cases ts) auto
  with assms show ?thesis by (auto intro!: exI [of _ "[]"] exI [of _ "drop n s"])
qed

lemma scan_braced_le: "scan_braced s = (v, n, b) \<Longrightarrow> n \<le> length s"
  by (induction s arbitrary: v n b rule: scan_braced.induct) (auto split: if_splits prod.splits)

lemma scan_quoted_le: "scan_quoted q s = (v, n, b) \<Longrightarrow> n \<le> length s"
  by (induction q s arbitrary: v n b rule: scan_quoted.induct) (auto split: if_splits prod.splits)

lemma scan_number_length: "scan_number s = Some (m, q, r) \<Longrightarrow> m \<noteq> [] \<and> length m \<le> length s"
  by (auto dest: scan_number_split)

lemma operator_length:
  "find_first (\<lambda>oper. prefix oper s) operators = Some oper \<Longrightarrow> oper \<noteq> [] \<and> length oper \<le> length s"
  using operators_nonempty by (fastforce dest: find_first_Some prefix_length_le)

lemma next_token_cases:
  assumes "s \<noteq> []"
  shows "(is_space (hd s) \<and> next_token i s = (None, 1)) \<or>
    (\<exists>t n. next_token i s = (Some t, n) \<and> 0 < n \<and> n \<le> length s \<and> t_text t = take n s \<and>
       t_type t \<noteq> KEof \<and> t_start t = i \<and> t_end t = i + n)"
proof (cases "is_space (hd s)")
  case False
  obtain c r where s: "s = c # r" using assms by (cases s) auto
  have w: "length (takeWhile identifier_part r) \<le> length r" by (rule length_takeWhile_le)
  have "single_token c \<noteq> KEof" by (simp add: single_token_def)
  with False s w show ?thesis
    by (auto simp: next_token_def make_token_def Let_def split: option.splits prod.splits if_splits
        dest!: scan_number_length operator_length scan_braced_le scan_quoted_le)
qed (simp add: next_token_def)

lemma lex_tokens_of: "tokens_of i s (lex_from i s)"
proof (induction i s rule: lex_from.induct)
  case (2 i c s)
  obtain p n where n: "next_token i (c # s) = (p, n)" by fastforce
  with "2.IH" have IH: "tokens_of (i + n) (drop n (c # s)) (lex_from (i + n) (drop n (c # s)))" by simp
  from next_token_cases [OF list.distinct(2), of c s i] show ?case
  proof (elim disjE exE conjE)
    assume sp: "is_space (hd (c # s))" and "next_token i (c # s) = (None, 1)"
    with n have "p = None" "n = 1" by simp_all
    with n IH sp show ?thesis by (simp add: tokens_of_space)
  next
    fix t m
    assume "next_token i (c # s) = (Some t, m)" and m: "0 < m" "m \<le> length (c # s)"
      "t_text t = take m (c # s)" "t_type t \<noteq> KEof" "t_start t = i" "t_end t = i + m"
    with n have "p = Some t" "n = m" by simp_all
    with n IH tokens_of_Cons [OF _ m] show ?thesis by simp
  qed
qed simp

lemma tokenize_tokens_of: "tokens_of 0 s (tokenize s)"
  by (simp add: tokenize_def lex_tokens_of)

end
