(* ===== verification/Formula_Parser.thy ===== *)
theory Formula_Parser
  imports Formula_Lexer
begin

text \<open>
  The parser of \<open>formula/src/syntax.ts\<close>: the syntax tree, the parser's state (the tokens ahead, the
  nesting depth and the count of values and operators), its levels from comparison down to primary,
  and \<open>parseFormula\<close>.  The recursion through parentheses, calls and unary operators is bounded by
  fuel; every such step enters a nesting level, so one unit more than the limit is enough.
\<close>

section \<open>The syntax tree\<close>

datatype binary_operator =
  BAdd | BSub | BMul | BDiv | BConcat | BEq | BNe | BLt | BGt | BLe | BGe

datatype unary_operator = UMinus | UPlus

datatype node =
    SNumber jsnum nat nat
  | SString string nat nat
  | SBoolean bool nat nat
  | SField string bool "(string \<times> nat \<times> nat) option" nat nat
  | SCall string nat "node list" nat nat
  | SUnary unary_operator node nat nat
  | SBinary binary_operator nat node node nat nat
  | SParen node nat nat

fun node_start :: "node \<Rightarrow> nat" where
  "node_start (SNumber _ a _) = a"
| "node_start (SString _ a _) = a"
| "node_start (SBoolean _ a _) = a"
| "node_start (SField _ _ _ a _) = a"
| "node_start (SCall _ _ _ a _) = a"
| "node_start (SUnary _ _ a _) = a"
| "node_start (SBinary _ _ _ _ a _) = a"
| "node_start (SParen _ a _) = a"

fun node_end :: "node \<Rightarrow> nat" where
  "node_end (SNumber _ _ b) = b"
| "node_end (SString _ _ b) = b"
| "node_end (SBoolean _ _ b) = b"
| "node_end (SField _ _ _ _ b) = b"
| "node_end (SCall _ _ _ _ b) = b"
| "node_end (SUnary _ _ _ b) = b"
| "node_end (SBinary _ _ _ _ _ b) = b"
| "node_end (SParen _ _ b) = b"

definition max_formula_length :: nat where "max_formula_length = 10000"
definition max_nesting :: nat where "max_nesting = 64"
definition max_nodes :: nat where "max_nodes = 500"

section \<open>The parser's state\<close>

record parser =
  p_tokens :: "token list"
  p_depth :: nat
  p_nodes :: nat

datatype parse_failure = Refused diagnostic | OutOfFuel

type_synonym 'a parse = "parse_failure + ('a \<times> parser)"

definition eof_token :: token where
  "eof_token = \<lparr>t_type = KEof, t_text = [], t_value = NoValue, t_start = 0, t_end = 0,
     t_unterminated = False\<rparr>"

definition peek :: "parser \<Rightarrow> token" where
  "peek p = (case p_tokens p of [] \<Rightarrow> eof_token | t # _ \<Rightarrow> t)"

text \<open>\<open>next\<close> stays at the end of the text.\<close>

definition advance :: "parser \<Rightarrow> parser" where
  "advance p = (if t_type (peek p) = KEof then p else p\<lparr>p_tokens := tl (p_tokens p)\<rparr>)"

definition refuse :: "diagnostic_code \<Rightarrow> string \<Rightarrow> nat \<Rightarrow> nat \<Rightarrow> parse_failure" where
  "refuse c message a b =
     Refused \<lparr>d_code = c, d_message = message, d_start = a, d_end = max b a, d_params = []\<rparr>"

definition refuse_at :: "string \<Rightarrow> token \<Rightarrow> parse_failure" where
  "refuse_at message t = refuse SyntaxError message (t_start t) (t_end t)"

definition describe :: "token \<Rightarrow> string" where
  "describe t =
     (if t_type t = KEof then ''the end of the formula''
      else CHR 0x27 # t_text t @ [CHR 0x27])"

definition count_node :: "token \<Rightarrow> parser \<Rightarrow> parse_failure + parser" where
  "count_node t p =
     (if max_nodes < Suc (p_nodes p)
      then Inl (refuse TooComplex
             (''The formula has more than '' @ nat_digits max_nodes @ '' values and operators'')
             (t_start t) (t_end t))
      else Inr (p\<lparr>p_nodes := Suc (p_nodes p)\<rparr>))"

definition enter :: "token \<Rightarrow> parser \<Rightarrow> parse_failure + parser" where
  "enter t p =
     (if max_nesting < Suc (p_depth p)
      then Inl (refuse TooComplex
             (''The formula nests deeper than '' @ nat_digits max_nesting @ '' levels'')
             (t_start t) (t_end t))
      else Inr (p\<lparr>p_depth := Suc (p_depth p)\<rparr>))"

definition leave :: "parser \<Rightarrow> parser" where
  "leave p = p\<lparr>p_depth := p_depth p - 1\<rparr>"

section \<open>Binary levels\<close>

definition binary_operator_of :: "string \<Rightarrow> binary_operator option" where
  "binary_operator_of s =
     map_of [(''+'', BAdd), (''-'', BSub), (''*'', BMul), (''/'', BDiv), (''&'', BConcat),
             (''='', BEq), (''!='', BNe), (''<'', BLt), (''>'', BGt), (''<='', BLe), (''>='', BGe)] s"

definition operator_at :: "binary_operator list \<Rightarrow> token \<Rightarrow> binary_operator option" where
  "operator_at ops t =
     (if t_type t \<noteq> KOperator then None
      else case binary_operator_of (value_text t) of
             None \<Rightarrow> None
           | Some b \<Rightarrow> (if List.member ops b then Some b else None))"

definition comparison_ops :: "binary_operator list" where
  "comparison_ops = [BEq, BNe, BLt, BGt, BLe, BGe]"
definition concatenation_ops :: "binary_operator list" where "concatenation_ops = [BConcat]"
definition additive_ops :: "binary_operator list" where "additive_ops = [BAdd, BSub]"
definition multiplicative_ops :: "binary_operator list" where "multiplicative_ops = [BMul, BDiv]"

text \<open>The endless loop of \<open>binaryLevel\<close>; each turn consumes an operator.\<close>

primrec level_loop ::
  "nat \<Rightarrow> (parser \<Rightarrow> node parse) \<Rightarrow> binary_operator list \<Rightarrow> node \<Rightarrow> parser \<Rightarrow> node parse" where
  "level_loop 0 operand ops left p = Inl OutOfFuel"
| "level_loop (Suc n) operand ops left p =
     (case operator_at ops (peek p) of
        None \<Rightarrow> Inr (left, p)
      | Some b \<Rightarrow>
          rbind (count_node (peek p) (advance p)) (\<lambda>p1.
          rbind (operand p1) (\<lambda>(right, p2).
            level_loop n operand ops
              (SBinary b (t_start (peek p)) left right (node_start left) (node_end right)) p2)))"

definition binary_level ::
  "binary_operator list \<Rightarrow> (parser \<Rightarrow> node parse) \<Rightarrow> parser \<Rightarrow> node parse" where
  "binary_level ops operand p =
     rbind (operand p) (\<lambda>(left, p1). level_loop (Suc (length (p_tokens p1))) operand ops left p1)"

text \<open>\<open>comparison\<close>, over the parser of \<open>unary\<close>.\<close>

definition comparison :: "(parser \<Rightarrow> node parse) \<Rightarrow> parser \<Rightarrow> node parse" where
  "comparison unary =
     binary_level comparison_ops (binary_level concatenation_ops
       (binary_level additive_ops (binary_level multiplicative_ops unary)))"

section \<open>Primaries\<close>

text \<open>The arguments of a call, after the opening parenthesis when it is not closed at once.\<close>

primrec args_loop :: "nat \<Rightarrow> (parser \<Rightarrow> node parse) \<Rightarrow> node list \<Rightarrow> parser \<Rightarrow> node list parse" where
  "args_loop 0 expression acc p = Inl OutOfFuel"
| "args_loop (Suc n) expression acc p =
     (if t_type (peek p) = KComma \<or> t_type (peek p) = KRParen
      then Inl (refuse_at (''Expected an argument, found '' @ describe (peek p)) (peek p))
      else rbind (expression p) (\<lambda>(arg, p1).
             if t_type (peek p1) \<noteq> KComma then Inr (acc @ [arg], p1)
             else args_loop n expression (acc @ [arg]) (advance p1)))"

definition parse_call :: "(parser \<Rightarrow> node parse) \<Rightarrow> token \<Rightarrow> parser \<Rightarrow> node parse" where
  "parse_call expression name p =
     rbind (enter (peek p) (advance p)) (\<lambda>p1.
     rbind (if t_type (peek p1) = KRParen then Inr ([], p1)
            else args_loop (Suc (length (p_tokens p1))) expression [] p1) (\<lambda>(args, p2).
       if t_type (peek p2) \<noteq> KRParen
       then Inl (refuse_at (''Expected ',' or ')' in the call to '' @ t_text name @ '', found '' @
                   describe (peek p2)) (peek p2))
       else Inr (SCall (to_upper (value_text name)) (t_end name) args (t_start name) (t_end (peek p2)),
                 leave (advance p2))))"

definition parse_identifier :: "(parser \<Rightarrow> node parse) \<Rightarrow> token \<Rightarrow> parser \<Rightarrow> node parse" where
  "parse_identifier expression name p =
     (if t_type (peek p) = KLParen then parse_call expression name p
      else if t_type (peek p) = KDot
      then let member = peek (advance p);
               p2 = advance (advance p)
           in if t_type member = KIdentifier \<or> (t_type member = KField \<and> \<not> t_unterminated member)
              then if t_type (peek p2) = KDot
                   then Inl (refuse_at ''Only one level is in reach: a field of this record or of an owned child''
                               (peek p2))
                   else Inr (SField (value_text member) (t_type member = KField)
                               (Some (value_text name, t_start name, t_end name)) (t_start name)
                               (t_end member), p2)
              else Inl (refuse_at (''Expected a field name after '' @ CHR 0x27 # value_text name @ ''.'' @
                          CHR 0x27 # '', found '' @ describe member) member)
      else let upper = to_upper (value_text name)
           in if upper = ''TRUE'' \<or> upper = ''FALSE''
              then Inr (SBoolean (upper = ''TRUE'') (t_start name) (t_end name), p)
              else Inr (SField (value_text name) False None (t_start name) (t_end name), p))"

definition parse_paren :: "(parser \<Rightarrow> node parse) \<Rightarrow> token \<Rightarrow> parser \<Rightarrow> node parse" where
  "parse_paren expression t p =
     rbind (enter t p) (\<lambda>p1.
     rbind (expression p1) (\<lambda>(inner, p2).
       if t_type (peek p2) \<noteq> KRParen
       then Inl (refuse_at (''Expected ')' to close the '(' at position '' @ nat_digits (t_start t + 1) @
                   '', found '' @ describe (peek p2)) (peek p2))
       else Inr (SParen inner (t_start t) (t_end (peek p2)), leave (advance p2))))"

definition primary :: "(parser \<Rightarrow> node parse) \<Rightarrow> parser \<Rightarrow> node parse" where
  "primary expression p =
     (let t = peek p
      in rbind (count_node t (advance p)) (\<lambda>p1.
         case t_type t of
           KNumber \<Rightarrow> Inr (SNumber (value_number t) (t_start t) (t_end t), p1)
         | KString \<Rightarrow>
             (if t_unterminated t then Inl (refuse_at ''This text is missing its closing quote'' t)
              else Inr (SString (value_text t) (t_start t) (t_end t), p1))
         | KField \<Rightarrow>
             (if t_unterminated t
              then Inl (refuse_at (''This field reference is missing its closing '' @
                          [CHR 0x27, CHR ''}'', CHR 0x27]) t)
              else if js_trim (value_text t) = []
              then Inl (refuse_at (''A field reference needs a name between '' @
                          [CHR 0x27, CHR ''{'', CHR 0x27] @ '' and '' @ [CHR 0x27, CHR ''}'', CHR 0x27]) t)
              else Inr (SField (value_text t) True None (t_start t) (t_end t), p1))
         | KLParen \<Rightarrow> parse_paren expression t p1
         | KIdentifier \<Rightarrow> parse_identifier expression t p1
         | KInvalid \<Rightarrow>
             Inl (refuse_at (''Unexpected character '' @ CHR 0x27 # t_text t @ [CHR 0x27]) t)
         | _ \<Rightarrow>
             Inl (refuse_at (''Expected a value, field or function, found '' @ describe t) t)))"

text \<open>\<open>unary\<close>; the fuel is spent where the code enters a nesting level.\<close>

fun unary :: "nat \<Rightarrow> parser \<Rightarrow> node parse" where
  "unary 0 p = Inl OutOfFuel"
| "unary (Suc n) p =
     (let t = peek p
      in if t_type t = KOperator \<and> (value_text t = ''-'' \<or> value_text t = ''+'')
         then rbind (enter t (advance p)) (\<lambda>p1.
              rbind (unary n p1) (\<lambda>(operand, p2).
                Inr (SUnary (if value_text t = ''-'' then UMinus else UPlus) operand (t_start t)
                       (node_end operand), leave p2)))
         else primary (comparison (unary n)) p)"

lemmas unary_numeral = unary.simps(2) [of "pred_numeral k" for k, folded numeral_eq_Suc]

definition expression :: "parser \<Rightarrow> node parse" where
  "expression = comparison (unary (Suc max_nesting))"

definition parse_tokens :: "token list \<Rightarrow> parse_failure + node" where
  "parse_tokens ts =
     (let p = \<lparr>p_tokens = ts, p_depth = 0, p_nodes = 0\<rparr>
      in if t_type (peek p) = KEof then Inl (refuse_at ''The formula is empty'' (peek p))
         else rbind (expression p) (\<lambda>(nd, p1).
                if t_type (peek p1) \<noteq> KEof
                then Inl (refuse_at (''Unexpected '' @ describe (peek p1) @
                            ''; expected an operator or the end of the formula'') (peek p1))
                else Inr nd))"

definition parse_formula :: "string \<Rightarrow> parse_failure + node" where
  "parse_formula text =
     (if max_formula_length < length text
      then Inl (Refused \<lparr>d_code = TooComplex,
             d_message = ''A formula is at most '' @ nat_digits max_formula_length @ '' characters'',
             d_start = max_formula_length, d_end = length text,
             d_params = [(''limit'', PNum max_formula_length)]\<rparr>)
      else parse_tokens (tokenize text))"


section \<open>The grammar\<close>

text \<open>
  The grammar the header of \<open>syntax.ts\<close> states, as derivations of trees from tokens: levels 0
  (comparison, lowest) to 3 (multiplying) are left-associative, 4 is unary, 5 primary.
\<close>

definition level_ops :: "nat \<Rightarrow> binary_operator list" where
  "level_ops k =
     (if k = 0 then comparison_ops else if k = 1 then concatenation_ops
      else if k = 2 then additive_ops else multiplicative_ops)"

inductive derives :: "nat \<Rightarrow> token list \<Rightarrow> node \<Rightarrow> bool"
  and derives_args :: "token list \<Rightarrow> node list \<Rightarrow> bool" where
  d_binary: "\<lbrakk>derives k ts l; operator_at (level_ops k) t = Some b; derives (Suc k) ts' r; k < 4\<rbrakk> \<Longrightarrow>
    derives k (ts @ t # ts') (SBinary b (t_start t) l r (node_start l) (node_end r))"
| d_next: "\<lbrakk>derives (Suc k) ts x; k < 5\<rbrakk> \<Longrightarrow> derives k ts x"
| d_unary: "\<lbrakk>t_type t = KOperator; value_text t = ''-'' \<or> value_text t = ''+''; derives 4 ts x\<rbrakk> \<Longrightarrow>
    derives 4 (t # ts)
      (SUnary (if value_text t = ''-'' then UMinus else UPlus) x (t_start t) (node_end x))"
| d_number: "t_type t = KNumber \<Longrightarrow> derives 5 [t] (SNumber (value_number t) (t_start t) (t_end t))"
| d_string: "\<lbrakk>t_type t = KString; \<not> t_unterminated t\<rbrakk> \<Longrightarrow>
    derives 5 [t] (SString (value_text t) (t_start t) (t_end t))"
| d_braced: "\<lbrakk>t_type t = KField; \<not> t_unterminated t; js_trim (value_text t) \<noteq> []\<rbrakk> \<Longrightarrow>
    derives 5 [t] (SField (value_text t) True None (t_start t) (t_end t))"
| d_boolean: "\<lbrakk>t_type t = KIdentifier; to_upper (value_text t) = (if b then ''TRUE'' else ''FALSE'')\<rbrakk> \<Longrightarrow>
    derives 5 [t] (SBoolean b (t_start t) (t_end t))"
| d_bare: "\<lbrakk>t_type t = KIdentifier; to_upper (value_text t) \<notin> {''TRUE'', ''FALSE''}\<rbrakk> \<Longrightarrow>
    derives 5 [t] (SField (value_text t) False None (t_start t) (t_end t))"
| d_member: "\<lbrakk>t_type t = KIdentifier; t_type dot = KDot;
    t_type m = KIdentifier \<or> (t_type m = KField \<and> \<not> t_unterminated m)\<rbrakk> \<Longrightarrow>
    derives 5 [t, dot, m] (SField (value_text m) (t_type m = KField)
      (Some (value_text t, t_start t, t_end t)) (t_start t) (t_end m))"
| d_paren: "\<lbrakk>t_type a = KLParen; derives 0 ts x; t_type b = KRParen\<rbrakk> \<Longrightarrow>
    derives 5 (a # ts @ [b]) (SParen x (t_start a) (t_end b))"
| d_call0: "\<lbrakk>t_type t = KIdentifier; t_type a = KLParen; t_type b = KRParen\<rbrakk> \<Longrightarrow>
    derives 5 [t, a, b] (SCall (to_upper (value_text t)) (t_end t) [] (t_start t) (t_end b))"
| d_call: "\<lbrakk>t_type t = KIdentifier; t_type a = KLParen; derives_args ts xs; t_type b = KRParen\<rbrakk> \<Longrightarrow>
    derives 5 (t # a # ts @ [b]) (SCall (to_upper (value_text t)) (t_end t) xs (t_start t) (t_end b))"
| d_arg: "derives 0 ts x \<Longrightarrow> derives_args ts [x]"
| d_args: "\<lbrakk>derives_args ts xs; t_type t = KComma; derives 0 ts' x\<rbrakk> \<Longrightarrow> derives_args (ts @ t # ts') (xs @ [x])"

text \<open>What the limits count: values and operators (unary ones aside), and the nesting.\<close>

primrec node_count :: "node \<Rightarrow> nat" where
  "node_count (SNumber _ _ _) = 1"
| "node_count (SString _ _ _) = 1"
| "node_count (SBoolean _ _ _) = 1"
| "node_count (SField _ _ _ _ _) = 1"
| "node_count (SCall _ _ xs _ _) = Suc (sum_list (map node_count xs))"
| "node_count (SUnary _ x _ _) = node_count x"
| "node_count (SBinary _ _ l r _ _) = Suc (node_count l + node_count r)"
| "node_count (SParen x _ _) = Suc (node_count x)"

primrec nesting :: "node \<Rightarrow> nat" where
  "nesting (SNumber _ _ _) = 0"
| "nesting (SString _ _ _) = 0"
| "nesting (SBoolean _ _ _) = 0"
| "nesting (SField _ _ _ _ _) = 0"
| "nesting (SCall _ _ xs _ _) = Suc (foldr max (map nesting xs) 0)"
| "nesting (SUnary _ x _ _) = Suc (nesting x)"
| "nesting (SBinary _ _ l r _ _) = max (nesting l) (nesting r)"
| "nesting (SParen x _ _) = Suc (nesting x)"

section \<open>What the parser does\<close>

text \<open>
  A parser's state is sound when the end token is ahead and the nesting is within its limit.  The
  outcome of parsing from such a state is a refusal that spans a token ahead, or a tree derived from
  the tokens consumed, counted and within the limits; fuel never runs out.
\<close>

definition ready_state :: "parser \<Rightarrow> bool" where
  "ready_state p \<longleftrightarrow> p_tokens p \<noteq> [] \<and> t_type (last (p_tokens p)) = KEof \<and> p_depth p \<le> max_nesting"

definition spans_token :: "token list \<Rightarrow> diagnostic \<Rightarrow> bool" where
  "spans_token ts d \<longleftrightarrow> (\<exists>t\<in>set ts. d_start d = t_start t \<and> d_end d = max (t_end t) (t_start t))"

inductive parsed ::
  "(token list \<Rightarrow> 'a \<Rightarrow> bool) \<Rightarrow> ('a \<Rightarrow> nat) \<Rightarrow> ('a \<Rightarrow> nat) \<Rightarrow> parser \<Rightarrow> 'a parse \<Rightarrow> bool"
  for D C N p where
  parsed_refused: "spans_token (p_tokens p) d \<Longrightarrow> parsed D C N p (Inl (Refused d))"
| parsed_ok: "\<lbrakk>p_tokens p = used @ p_tokens p'; used \<noteq> []; D used x; ready_state p';
    p_depth p' = p_depth p; p_nodes p' = p_nodes p + C x; p_nodes p' \<le> max_nodes;
    p_depth p + N x \<le> max_nesting\<rbrakk> \<Longrightarrow> parsed D C N p (Inr (x, p'))"

abbreviation parsed_level :: "nat \<Rightarrow> parser \<Rightarrow> node parse \<Rightarrow> bool" where
  "parsed_level k \<equiv> parsed (derives k) node_count nesting"

lemma parsed_level_ok:
  "\<lbrakk>derives k used x; p_tokens p = used @ p_tokens p'; used \<noteq> []; ready_state p';
    p_depth p' = p_depth p; p_nodes p' = p_nodes p + node_count x; p_nodes p' \<le> max_nodes;
    p_depth p + nesting x \<le> max_nesting\<rbrakk> \<Longrightarrow> parsed_level k p (Inr (x, p'))"
  by (rule parsed_ok)

lemma peek_in: "ready_state p \<Longrightarrow> peek p \<in> set (p_tokens p)"
  by (cases "p_tokens p") (auto simp: ready_state_def peek_def)

lemma spans_token_mono: "spans_token ts d \<Longrightarrow> set ts \<subseteq> set ts' \<Longrightarrow> spans_token ts' d"
  by (auto simp: spans_token_def)

lemma refuse_at_parsed:
  "t \<in> set (p_tokens p) \<Longrightarrow> parsed D C N p (Inl (refuse_at m t))"
  by (auto simp: refuse_at_def refuse_def spans_token_def intro!: parsed_refused)

lemma advance_tokens:
  assumes "ready_state p" "t_type (peek p) \<noteq> KEof"
  shows "p_tokens p = peek p # p_tokens (advance p)" "ready_state (advance p)"
    "p_depth (advance p) = p_depth p" "p_nodes (advance p) = p_nodes p"
  using assms by (cases "p_tokens p"; auto simp: ready_state_def peek_def advance_def split: if_splits)+

lemma advance_eof: "t_type (peek p) = KEof \<Longrightarrow> advance p = p"
  by (simp add: advance_def)

lemma ready_nodes [simp]: "ready_state (p\<lparr>p_nodes := n\<rparr>) = ready_state p"
  by (simp add: ready_state_def)

lemma ready_depth: "ready_state p \<Longrightarrow> d \<le> max_nesting \<Longrightarrow> ready_state (p\<lparr>p_depth := d\<rparr>)"
  by (simp add: ready_state_def)


lemma operator_at_type: "operator_at ops t = Some b \<Longrightarrow> t_type t = KOperator"
  by (simp add: operator_at_def split: if_splits)

lemma count_node_parsed:
  assumes "count_node t p = Inl f" "t \<in> set (p_tokens q)"
  shows "parsed D C N q (Inl f)"
  using assms by (auto simp: count_node_def refuse_def spans_token_def split: if_splits intro!: parsed_refused)

lemma enter_parsed:
  assumes "enter t p = Inl f" "t \<in> set (p_tokens q)"
  shows "parsed D C N q (Inl f)"
  using assms by (auto simp: enter_def refuse_def spans_token_def split: if_splits intro!: parsed_refused)

text \<open>A refusal met further on is a refusal of the whole.\<close>

lemma parsed_Inl:
  assumes "parsed D C N p1 (Inl f)" "set (p_tokens p1) \<subseteq> set (p_tokens p)"
  shows "parsed D' C' N' p (Inl f)"
  using assms(1) by cases (auto intro!: parsed_refused spans_token_mono [OF _ assms(2)])

lemma level_loop_parsed:
  assumes operand: "\<And>p. ready_state p \<Longrightarrow> p_depth p = d \<Longrightarrow> parsed_level (Suc k) p (operand p)"
    and k: "k < 4"
  shows "\<lbrakk>p_tokens p0 = used @ p_tokens p; used \<noteq> []; derives k used left; ready_state p;
      p_depth p0 = d; p_depth p = d; p_nodes p = p_nodes p0 + node_count left; p_nodes p \<le> max_nodes;
      d + nesting left \<le> max_nesting; length (p_tokens p) < n\<rbrakk> \<Longrightarrow>
    parsed_level k p0 (level_loop n operand (level_ops k) left p)"
proof (induction n arbitrary: used left p)
  case (Suc n)
  show ?case
  proof (cases "operator_at (level_ops k) (peek p)")
    case None
    with Suc.prems show ?thesis by (auto intro!: parsed_ok)
  next
    case (Some b)
    then have "t_type (peek p) \<noteq> KEof" by (auto dest: operator_at_type)
    note adv = advance_tokens [OF Suc.prems(4) this]
    have inp: "peek p \<in> set (p_tokens p0)" using peek_in [OF Suc.prems(4)] Suc.prems(1) by simp
    show ?thesis
    proof (cases "count_node (peek p) (advance p)")
      case (Inl f)
      with Some count_node_parsed [OF Inl inp] show ?thesis by simp
    next
      case (Inr p1)
      then have p1: "p1 = advance p\<lparr>p_nodes := Suc (p_nodes p)\<rparr>" "Suc (p_nodes p) \<le> max_nodes"
        using adv(4) by (auto simp: count_node_def split: if_splits)
      then have r1: "ready_state p1" "p_depth p1 = d" using adv(2,3) Suc.prems(6) by simp_all
      from operand [OF this] show ?thesis
      proof cases
        case (parsed_refused d')
        have "p_tokens p1 = p_tokens (advance p)" using p1(1) by simp
        then have "set (p_tokens p1) \<subseteq> set (p_tokens p0)"
          using Suc.prems(1) adv(1) by (metis Un_upper2 set_append set_subset_Cons subset_trans)
        from parsed.parsed_refused [OF spans_token_mono [OF parsed_refused(2) this]]
        have "parsed_level k p0 (operand p1)" using parsed_refused(1) by simp
        with Some Inr parsed_refused show ?thesis by simp
      next
        case (parsed_ok used2 p2 right)
        let ?left = "SBinary b (t_start (peek p)) left right (node_start left) (node_end right)"
        have toks: "p_tokens p = peek p # used2 @ p_tokens p2"
          using parsed_ok(2) p1(1) adv(1) by simp
        have "parsed_level k p0 (level_loop n operand (level_ops k) ?left p2)"
        proof (rule Suc.IH [of "used @ peek p # used2"])
          show "derives k (used @ peek p # used2) ?left"
            using d_binary [OF Suc.prems(3) Some parsed_ok(4) k] .
        qed (use Suc.prems parsed_ok toks p1 r1 in auto)
        with Some Inr parsed_ok(1) show ?thesis by simp
      qed
    qed
  qed
qed simp

lemma binary_level_parsed:
  assumes operand: "\<And>p. ready_state p \<Longrightarrow> p_depth p = d \<Longrightarrow> parsed_level (Suc k) p (operand p)"
    and k: "k < 4" and p: "ready_state p" "p_depth p = d"
  shows "parsed_level k p (binary_level (level_ops k) operand p)"
  using operand [OF p]
proof cases
  case (parsed_refused d')
  then show ?thesis by (simp add: binary_level_def parsed.parsed_refused)
next
  case (parsed_ok used p' left)
  have "parsed_level k p (level_loop (Suc (length (p_tokens p'))) operand (level_ops k) left p')"
    by (rule level_loop_parsed [where d = d, OF operand k])
       (use parsed_ok p k in \<open>auto intro: d_next\<close>)
  with parsed_ok(1) show ?thesis by (simp add: binary_level_def)
qed

lemma comparison_parsed:
  assumes "\<And>p. ready_state p \<Longrightarrow> p_depth p = d \<Longrightarrow> parsed_level 4 p (u p)" "ready_state p" "p_depth p = d"
  shows "parsed_level 0 p (comparison u p)"
proof -
  have l: "comparison_ops = level_ops 0" "concatenation_ops = level_ops 1" "additive_ops = level_ops 2"
      "multiplicative_ops = level_ops 3"
    by (simp_all add: level_ops_def)
  have 3: "parsed_level 3 p (binary_level (level_ops 3) u p)" if "ready_state p" "p_depth p = d" for p
    using binary_level_parsed [of d 3 u p] assms(1) that by (simp add: numeral_eq_Suc)
  have 2: "parsed_level 2 p (binary_level (level_ops 2) (binary_level (level_ops 3) u) p)"
    if "ready_state p" "p_depth p = d" for p
    using binary_level_parsed [of d 2 _ p, OF _ _ that] 3 by (simp add: numeral_eq_Suc)
  have 1: "parsed_level 1 p (binary_level (level_ops 1) (binary_level (level_ops 2)
      (binary_level (level_ops 3) u)) p)"
    if "ready_state p" "p_depth p = d" for p
    using binary_level_parsed [of d 1 _ p, OF _ _ that] 2 by (simp add: numeral_eq_Suc)
  show ?thesis
    unfolding comparison_def l
    using binary_level_parsed [of d 0 _ p, OF _ _ assms(2,3)] 1 by (simp add: numeral_eq_Suc)
qed


lemma foldr_max_snoc: "foldr max (xs @ [x]) 0 = max (foldr max xs 0) (x :: nat)"
  by (induction xs) (simp_all add: max.assoc)

text \<open>The state after a comma, or at the first argument.\<close>

definition args_so_far :: "token list \<Rightarrow> node list \<Rightarrow> bool" where
  "args_so_far used acc \<longleftrightarrow>
     (acc = [] \<and> used = []) \<or>
     (\<exists>ts c. used = ts @ [c] \<and> t_type c = KComma \<and> derives_args ts acc)"

lemma args_so_far_arg:
  "args_so_far used acc \<Longrightarrow> derives 0 ts x \<Longrightarrow> derives_args (used @ ts) (acc @ [x])"
  by (auto simp: args_so_far_def intro: d_arg d_args)

abbreviation parsed_args :: "parser \<Rightarrow> node list parse \<Rightarrow> bool" where
  "parsed_args \<equiv> parsed derives_args (\<lambda>xs. sum_list (map node_count xs)) (\<lambda>xs. foldr max (map nesting xs) 0)"

lemma args_loop_parsed:
  assumes e: "\<And>p. ready_state p \<Longrightarrow> p_depth p = d \<Longrightarrow> parsed_level 0 p (e p)"
  shows "\<lbrakk>p_tokens p0 = used @ p_tokens p; args_so_far used acc; ready_state p; p_depth p0 = d; p_depth p = d;
      p_nodes p = p_nodes p0 + sum_list (map node_count acc);
      d + foldr max (map nesting acc) 0 \<le> max_nesting; length (p_tokens p) < n\<rbrakk> \<Longrightarrow>
    parsed_args p0 (args_loop n e acc p)"
proof (induction n arbitrary: used acc p)
  case (Suc n)
  have inp: "peek p \<in> set (p_tokens p0)" using peek_in [OF Suc.prems(3)] Suc.prems(1) by simp
  show ?case
  proof (cases "t_type (peek p) = KComma \<or> t_type (peek p) = KRParen")
    case True
    then show ?thesis using inp by (auto intro: refuse_at_parsed)
  next
    case False
    from e [OF Suc.prems(3,5)] show ?thesis
    proof cases
      case (parsed_refused f)
      have "set (p_tokens p) \<subseteq> set (p_tokens p0)" using Suc.prems(1) by simp
      from parsed.parsed_refused [OF spans_token_mono [OF parsed_refused(2) this]]
      show ?thesis using False parsed_refused(1) by simp
    next
      case (parsed_ok u p1 x)
      have args: "derives_args (used @ u) (acc @ [x])" by (rule args_so_far_arg) fact+
      have toks: "p_tokens p0 = (used @ u) @ p_tokens p1" using Suc.prems(1) parsed_ok(2) by simp
      have nest: "d + foldr max (map nesting (acc @ [x])) 0 \<le> max_nesting"
        using Suc.prems(5,7) parsed_ok(9) by (simp only: map_append list.map foldr_max_snoc)
      have nodes: "p_nodes p1 = p_nodes p0 + sum_list (map node_count (acc @ [x]))"
        using Suc.prems(6) parsed_ok(7) by simp
      show ?thesis
      proof (cases "t_type (peek p1) = KComma")
        case comma: True
        then have "t_type (peek p1) \<noteq> KEof" by simp
        note adv = advance_tokens [OF parsed_ok(5) this]
        have "parsed_args p0 (args_loop n e (acc @ [x]) (advance p1))"
        proof (rule Suc.IH [of "used @ u @ [peek p1]"])
          show "args_so_far (used @ u @ [peek p1]) (acc @ [x])"
            using args comma by (auto simp: args_so_far_def)
          show "length (p_tokens (advance p1)) < n"
            using Suc.prems(8) parsed_ok(2,3) arg_cong [OF adv(1), of length] by simp
        qed (use toks adv parsed_ok nest nodes Suc.prems in auto)
        with False comma parsed_ok(1) show ?thesis by simp
      next
        case noncomma: False
        have "parsed_args p0 (Inr (acc @ [x], p1))"
          by (rule parsed.parsed_ok [of _ "used @ u"])
             (use toks args parsed_ok nest nodes Suc.prems in auto)
        with False noncomma parsed_ok(1) show ?thesis by simp
      qed
    qed
  qed
qed simp

lemma parse_call_parsed:
  assumes e: "\<And>p. ready_state p \<Longrightarrow> p_depth p = Suc d \<Longrightarrow> parsed_level 0 p (e p)"
    and p0: "p_tokens p0 = name # p_tokens p" "ready_state p" "p_depth p0 = d" "p_depth p = d"
      "p_nodes p = Suc (p_nodes p0)" "p_nodes p \<le> max_nodes"
    and name: "t_type name = KIdentifier" and lp: "t_type (peek p) = KLParen"
  shows "parsed_level 5 p0 (parse_call e name p)"
proof -
  have "t_type (peek p) \<noteq> KEof" using lp by simp
  note adv = advance_tokens [OF p0(2) this]
  have inp: "peek p \<in> set (p_tokens p0)" using peek_in [OF p0(2)] p0(1) by simp
  show ?thesis
  proof (cases "enter (peek p) (advance p)")
    case (Inl f)
    with enter_parsed [OF Inl inp] show ?thesis by (simp add: parse_call_def)
  next
    case (Inr p1)
    then have p1: "p1 = advance p\<lparr>p_depth := Suc d\<rparr>" "Suc d \<le> max_nesting"
      using adv(3) p0(4) by (auto simp: enter_def split: if_splits)
    then have r1: "ready_state p1" "p_depth p1 = Suc d" "p_tokens p1 = p_tokens (advance p)"
      "p_nodes p1 = Suc (p_nodes p0)"
      using adv ready_depth p0(5) by auto
    have toks: "p_tokens p0 = name # peek p # p_tokens p1" using p0(1) adv(1) r1(3) by simp
    define call where "call args p2 =
        (if t_type (peek p2) \<noteq> KRParen
         then Inl (refuse_at (''Expected ',' or ')' in the call to '' @ t_text name @ '', found '' @
                     describe (peek p2)) (peek p2))
         else Inr (SCall (to_upper (value_text name)) (t_end name) args (t_start name) (t_end (peek p2)),
                   leave (advance p2)))" for args p2
    have call: "parsed_level 5 p0 (call args p2)"
      if "p_tokens p0 = name # peek p # used @ p_tokens p2" "ready_state p2" "p_depth p2 = Suc d"
        "p_nodes p2 = Suc (p_nodes p0) + sum_list (map node_count args)" "p_nodes p2 \<le> max_nodes"
        "Suc d + foldr max (map nesting args) 0 \<le> max_nesting"
        "(used = [] \<and> args = []) \<or> derives_args used args" for args used p2
    proof (cases "t_type (peek p2) = KRParen")
      case True
      then have ne: "t_type (peek p2) \<noteq> KEof" by simp
      note adv2 = advance_tokens [OF that(2) ne]
      let ?nd = "SCall (to_upper (value_text name)) (t_end name) args (t_start name) (t_end (peek p2))"
      have "derives 5 (name # peek p # used @ [peek p2]) ?nd"
        using that(7) name lp True d_call0 [OF name lp True] d_call [OF name lp _ True] by auto
      then have "parsed_level 5 p0 (Inr (?nd, leave (advance p2)))"
        by (rule parsed.parsed_ok [of _ "name # peek p # used @ [peek p2]", rotated 2])
           (use that adv2 p0(3) in \<open>auto simp: leave_def intro: ready_depth\<close>)
      with True show ?thesis by (simp add: call_def)
    next
      case False
      have "peek p2 \<in> set (p_tokens p0)" using peek_in [OF that(2)] that(1) by simp
      with False show ?thesis by (simp add: call_def refuse_at_parsed)
    qed
    show ?thesis
    proof (cases "t_type (peek p1) = KRParen")
      case True
      have "parsed_level 5 p0 (call [] p1)"
        by (rule call [of "[]"]) (use toks r1 p1 p0 in auto)
      with Inr True show ?thesis by (simp add: parse_call_def call_def)
    next
      case False
      have "parsed_args p1 (args_loop (Suc (length (p_tokens p1))) e [] p1)"
        by (rule args_loop_parsed [where d = "Suc d" and used = "[]"])
           (use e r1 p1 in \<open>auto simp: args_so_far_def\<close>)
      then show ?thesis
      proof cases
        case (parsed_refused f)
        have "set (p_tokens p1) \<subseteq> set (p_tokens p0)" using toks by auto
        from parsed.parsed_refused [OF spans_token_mono [OF parsed_refused(2) this]]
        show ?thesis using Inr False parsed_refused(1) by (simp add: parse_call_def)
      next
        case (parsed_ok used p2 args)
        have "parsed_level 5 p0 (call args p2)"
          by (rule call [of used]) (use toks r1 p1 parsed_ok in auto)
        with Inr False parsed_ok(1) show ?thesis by (simp add: parse_call_def call_def)
      qed
    qed
  qed
qed


lemma parse_identifier_parsed:
  assumes e: "\<And>p. ready_state p \<Longrightarrow> p_depth p = Suc d \<Longrightarrow> parsed_level 0 p (e p)"
    and p0: "p_tokens p0 = name # p_tokens p" "ready_state p" "p_depth p0 = d" "p_depth p = d"
      "p_nodes p = Suc (p_nodes p0)" "p_nodes p \<le> max_nodes"
    and name: "t_type name = KIdentifier"
  shows "parsed_level 5 p0 (parse_identifier e name p)"
proof -
  have d: "d \<le> max_nesting" using p0(2,4) by (simp add: ready_state_def)
  consider (call) "t_type (peek p) = KLParen" | (dot) "t_type (peek p) = KDot"
    | (bare) "t_type (peek p) \<noteq> KLParen" "t_type (peek p) \<noteq> KDot" by blast
  then show ?thesis
  proof cases
    case call
    with parse_call_parsed [OF e p0 name call] show ?thesis by (simp add: parse_identifier_def)
  next
    case dot
    then have ne: "t_type (peek p) \<noteq> KEof" by simp
    note adv = advance_tokens [OF p0(2) ne]
    let ?m = "peek (advance p)"
    have inm: "?m \<in> set (p_tokens p0)"
      using peek_in [OF adv(2)] p0(1) adv(1) by (metis list.set_intros(2))
    show ?thesis
    proof (cases "t_type ?m = KIdentifier \<or> (t_type ?m = KField \<and> \<not> t_unterminated ?m)")
      case member: True
      then have ne2: "t_type ?m \<noteq> KEof" by auto
      note adv2 = advance_tokens [OF adv(2) ne2]
      let ?p2 = "advance (advance p)"
      have toks: "p_tokens p0 = name # peek p # ?m # p_tokens ?p2" using p0(1) adv(1) adv2(1) by simp
      have in2: "peek ?p2 \<in> set (p_tokens p0)" using peek_in [OF adv2(2)] toks by simp
      show ?thesis
      proof (cases "t_type (peek ?p2) = KDot")
        case True
        with dot member in2 show ?thesis by (simp add: parse_identifier_def Let_def refuse_at_parsed)
      next
        case False
        have "parsed_level 5 p0 (Inr (SField (value_text ?m) (t_type ?m = KField)
            (Some (value_text name, t_start name, t_end name)) (t_start name) (t_end ?m), ?p2))"
          by (rule parsed_level_ok [OF d_member [OF name dot member]])
             (use toks adv adv2 p0 d in auto)
        with dot member False show ?thesis by (simp add: parse_identifier_def Let_def)
      qed
    next
      case False
      with dot inm show ?thesis by (auto simp: parse_identifier_def Let_def refuse_at_parsed)
    qed
  next
    case bare
    have "parsed_level 5 p0 (Inr (SBoolean b (t_start name) (t_end name), p))"
      if "to_upper (value_text name) = (if b then ''TRUE'' else ''FALSE'')" for b
      by (rule parsed_level_ok [OF d_boolean [OF name that]]) (use p0 d in auto)
    moreover have "parsed_level 5 p0 (Inr (SField (value_text name) False None (t_start name) (t_end name), p))"
      if "to_upper (value_text name) \<notin> {''TRUE'', ''FALSE''}"
      by (rule parsed_level_ok [OF d_bare [OF name that]]) (use p0 d in auto)
    ultimately show ?thesis using bare by (simp add: parse_identifier_def Let_def)
  qed
qed

lemma parse_paren_parsed:
  assumes e: "\<And>p. ready_state p \<Longrightarrow> p_depth p = Suc d \<Longrightarrow> parsed_level 0 p (e p)"
    and p0: "p_tokens p0 = a # p_tokens p" "ready_state p" "p_depth p0 = d" "p_depth p = d"
      "p_nodes p = Suc (p_nodes p0)" "p_nodes p \<le> max_nodes"
    and a: "t_type a = KLParen"
  shows "parsed_level 5 p0 (parse_paren e a p)"
proof (cases "enter a p")
  case (Inl f)
  have "a \<in> set (p_tokens p0)" using p0(1) by simp
  with enter_parsed [OF Inl this] Inl show ?thesis by (simp add: parse_paren_def)
next
  case (Inr p1)
  then have p1: "p1 = p\<lparr>p_depth := Suc d\<rparr>" "Suc d \<le> max_nesting"
    using p0(4) by (auto simp: enter_def split: if_splits)
  then have r1: "ready_state p1" "p_depth p1 = Suc d" using p0(2) ready_depth by auto
  have t1: "p_tokens p1 = p_tokens p" using p1(1) by simp
  from e [OF r1] show ?thesis
  proof cases
    case (parsed_refused f)
    have "set (p_tokens p1) \<subseteq> set (p_tokens p0)" using t1 p0(1) by auto
    from parsed.parsed_refused [OF spans_token_mono [OF parsed_refused(2) this]]
    show ?thesis using Inr parsed_refused(1) by (simp add: parse_paren_def)
  next
    case (parsed_ok used p2 x)
    have toks: "p_tokens p0 = a # used @ p_tokens p2" using p0(1) t1 parsed_ok(2) by simp
    show ?thesis
    proof (cases "t_type (peek p2) = KRParen")
      case True
      then have ne: "t_type (peek p2) \<noteq> KEof" by simp
      note adv = advance_tokens [OF parsed_ok(5) ne]
      have "parsed_level 5 p0 (Inr (SParen x (t_start a) (t_end (peek p2)), leave (advance p2)))"
        by (rule parsed_level_ok [OF d_paren [OF a parsed_ok(4) True]])
           (use toks adv parsed_ok p1 p0 r1 in \<open>auto simp: leave_def intro: ready_depth\<close>)
      with Inr parsed_ok(1) True show ?thesis by (simp add: parse_paren_def)
    next
      case False
      have "peek p2 \<in> set (p_tokens p0)" using peek_in [OF parsed_ok(5)] toks by simp
      with Inr parsed_ok(1) False show ?thesis by (simp add: parse_paren_def refuse_at_parsed)
    qed
  qed
qed

lemma primary_parsed:
  assumes e: "\<And>p. ready_state p \<Longrightarrow> p_depth p = Suc d \<Longrightarrow> parsed_level 0 p (e p)"
    and p: "ready_state p" "p_depth p = d"
  shows "parsed_level 5 p (primary e p)"
proof -
  let ?t = "peek p"
  have d: "d \<le> max_nesting" using p by (simp add: ready_state_def)
  have int: "?t \<in> set (p_tokens p)" using peek_in [OF p(1)] .
  show ?thesis
  proof (cases "count_node ?t (advance p)")
    case (Inl f)
    with count_node_parsed [OF Inl int] show ?thesis by (simp add: primary_def Let_def)
  next
    case (Inr p1)
    show ?thesis
    proof (cases "t_type ?t = KEof")
      case True
      with Inr int show ?thesis by (simp add: primary_def Let_def refuse_at_parsed)
    next
      case False
      note adv = advance_tokens [OF p(1) False]
      have p1: "p1 = advance p\<lparr>p_nodes := Suc (p_nodes p)\<rparr>" "Suc (p_nodes p) \<le> max_nodes"
        using Inr adv(4) by (auto simp: count_node_def split: if_splits)
      have s1: "p_tokens p = ?t # p_tokens p1" "ready_state p1" "p_depth p1 = d"
        "p_nodes p1 = Suc (p_nodes p)" "p_nodes p1 \<le> max_nodes"
        using p1 adv p(2) by auto
      have leaf: "parsed_level 5 p (Inr (x, p1))" if "derives 5 [?t] x" "node_count x = 1" "nesting x = 0" for x
        by (rule parsed.parsed_ok [of _ "[?t]"]) (use that s1 p d in auto)
      show ?thesis
      proof (cases "t_type ?t")
        case KNumber
        with Inr leaf [OF d_number] show ?thesis by (simp add: primary_def Let_def)
      next
        case KString
        with Inr leaf [OF d_string] int show ?thesis by (simp add: primary_def Let_def refuse_at_parsed)
      next
        case KField
        with Inr leaf [OF d_braced] int show ?thesis by (simp add: primary_def Let_def refuse_at_parsed)
      next
        case KIdentifier
        with Inr parse_identifier_parsed [OF e s1(1,2) p(2) s1(3,4,5)] show ?thesis
          by (simp add: primary_def Let_def)
      next
        case KLParen
        with Inr parse_paren_parsed [OF e s1(1,2) p(2) s1(3,4,5)] show ?thesis
          by (simp add: primary_def Let_def)
      qed (use Inr int False in \<open>simp_all add: primary_def Let_def refuse_at_parsed\<close>)
    qed
  qed
qed

lemma unary_parsed:
  "\<lbrakk>ready_state p; max_nesting < p_depth p + n\<rbrakk> \<Longrightarrow> parsed_level 4 p (unary n p)"
proof (induction n arbitrary: p)
  case 0
  then show ?case by (simp add: ready_state_def)
next
  case (Suc n)
  let ?t = "peek p" and ?d = "p_depth p"
  have int: "?t \<in> set (p_tokens p)" using peek_in [OF Suc.prems(1)] .
  show ?case
  proof (cases "t_type ?t = KOperator \<and> (value_text ?t = ''-'' \<or> value_text ?t = ''+'')")
    case True
    then have "t_type ?t \<noteq> KEof" by simp
    note adv = advance_tokens [OF Suc.prems(1) this]
    show ?thesis
    proof (cases "enter ?t (advance p)")
      case (Inl f)
      with enter_parsed [OF Inl int] True show ?thesis by (simp add: Let_def)
    next
      case (Inr p1)
      then have p1: "p1 = advance p\<lparr>p_depth := Suc ?d\<rparr>" "Suc ?d \<le> max_nesting"
        using adv(3) by (auto simp: enter_def split: if_splits)
      then have r1: "ready_state p1" using adv(2) ready_depth by auto
      have "max_nesting < p_depth p1 + n" using p1 Suc.prems(2) by simp
      from Suc.IH [OF r1 this] show ?thesis
      proof cases
        case (parsed_refused f)
        have "p_tokens p1 = p_tokens (advance p)" using p1(1) by simp
        then have "set (p_tokens p1) \<subseteq> set (p_tokens p)" using adv(1) by (metis set_subset_Cons)
        from parsed.parsed_refused [OF spans_token_mono [OF parsed_refused(2) this]]
        show ?thesis using Inr True parsed_refused(1) by (simp add: Let_def)
      next
        case (parsed_ok used p2 x)
        have toks: "p_tokens p = ?t # used @ p_tokens p2" using adv(1) p1(1) parsed_ok(2) by simp
        have D: "derives 4 (?t # used) (SUnary (if value_text ?t = ''-'' then UMinus else UPlus) x
            (t_start ?t) (node_end x))"
          using True by (intro d_unary parsed_ok(4)) auto
        have "parsed_level 4 p (Inr (SUnary (if value_text ?t = ''-'' then UMinus else UPlus) x
            (t_start ?t) (node_end x), leave p2))"
          by (rule parsed_level_ok [OF D])
             (use toks adv p1 parsed_ok in \<open>auto simp: leave_def intro: ready_depth\<close>)
        with Inr True parsed_ok(1) show ?thesis by (simp add: Let_def)
      qed
    qed
  next
    case False
    have "parsed_level 0 q (comparison (unary n) q)" if "ready_state q" "p_depth q = Suc ?d" for q
    proof (rule comparison_parsed [where d = "Suc ?d"])
      show "parsed_level 4 r (unary n r)" if "ready_state r" "p_depth r = Suc ?d" for r
        using Suc.IH [OF that(1)] that(2) Suc.prems(2) by simp
    qed (use that in auto)
    from primary_parsed [OF this Suc.prems(1) refl]
    have "parsed_level 5 p (primary (comparison (unary n)) p)" .
    then have "parsed_level 4 p (primary (comparison (unary n)) p)"
    proof cases
      case (parsed_ok used p' x)
      have "derives 4 used x" using d_next [of 4 used x] parsed_ok(4) by (simp add: numeral_eq_Suc)
      then show ?thesis unfolding parsed_ok(1) by (rule parsed_level_ok) (use parsed_ok in auto)
    qed (auto intro: parsed_refused)
    with False show ?thesis by (auto simp: Let_def)
  qed
qed

lemma expression_parsed:
  assumes "ready_state p" "p_depth p = 0"
  shows "parsed_level 0 p (expression p)"
  unfolding expression_def using assms
  by (intro comparison_parsed [where d = 0] unary_parsed) auto


section \<open>Facts about derivations\<close>

lemma derives_span:
  "derives k ts x \<Longrightarrow> ts \<noteq> [] \<and> node_start x = t_start (hd ts) \<and> node_end x = t_end (last ts)"
  "derives_args ts xs \<Longrightarrow> ts \<noteq> [] \<and> xs \<noteq> []"
  by (induction rule: derives_derives_args.inducts) auto

text \<open>The tokens before the end token.\<close>

lemma tokens_of_last: "tokens_of i s ts \<Longrightarrow> ts \<noteq> [] \<and> t_type (last ts) = KEof"
proof (induction i s ts rule: tokens_of.induct)
  case (3 i s t t' ts)
  then show ?case by auto
qed auto

lemma tokens_of_body: "tokens_of i s ts \<Longrightarrow> t \<in> set (butlast ts) \<Longrightarrow> t_type t \<noteq> KEof"
proof (induction i s ts rule: tokens_of.induct)
  case (3 i s t' t'' ts)
  then show ?case by auto
qed auto

lemma tokens_of_spans:
  "tokens_of i s ts \<Longrightarrow> t \<in> set ts \<Longrightarrow> i \<le> t_start t \<and> t_start t \<le> t_end t \<and> t_end t \<le> i + length s"
proof (induction i s ts rule: tokens_of.induct)
  case (3 i s t' t'' ts)
  from "3.prems"(1) obtain gap rest where g: "s = gap @ t_text t' @ rest" "t_start t' = i + length gap"
    "t_end t' = t_start t' + length (t_text t')" "tokens_of (t_end t') rest (t'' # ts)" by auto
  show ?case
  proof (cases "t = t'")
    case True
    with g show ?thesis by simp
  next
    case False
    with "3.prems"(2) have "t \<in> set (t'' # ts)" by simp
    from "3.IH" [OF g(4) this] g show ?thesis by auto
  qed
qed auto

lemma start_ready:
  "tokens_of i s ts \<Longrightarrow> ready_state \<lparr>p_tokens = ts, p_depth = 0, p_nodes = 0\<rparr>"
  by (simp add: ready_state_def tokens_of_last)

lemma parse_tokens_ok:
  assumes "tokens_of i s ts"
  shows "(\<exists>d. parse_tokens ts = Inl (Refused d) \<and> spans_token ts d) \<or>
    (\<exists>x. parse_tokens ts = Inr x \<and> derives 0 (butlast ts) x \<and> node_count x \<le> max_nodes \<and>
       nesting x \<le> max_nesting)"
proof -
  let ?p = "\<lparr>p_tokens = ts, p_depth = 0, p_nodes = 0\<rparr>"
  note r = start_ready [OF assms]
  have in0: "peek ?p \<in> set ts" using peek_in [OF r] by simp
  show ?thesis
  proof (cases "t_type (peek ?p) = KEof")
    case True
    with in0 show ?thesis
      by (auto simp: parse_tokens_def Let_def refuse_at_def refuse_def spans_token_def)
  next
    case ne: False
    from expression_parsed [OF r] have "parsed_level 0 ?p (expression ?p)" by simp
    then show ?thesis
    proof cases
      case (parsed_refused d)
      with ne show ?thesis by (simp add: parse_tokens_def Let_def)
    next
      case (parsed_ok used p1 x)
      have in1: "peek p1 \<in> set ts" using peek_in [OF parsed_ok(5)] parsed_ok(2) by simp
      show ?thesis
      proof (cases "t_type (peek p1) = KEof")
        case True
        obtain t rest where t: "p_tokens p1 = t # rest" using parsed_ok(5)
          by (cases "p_tokens p1") (auto simp: ready_state_def)
        have "rest = []"
        proof (rule ccontr)
          assume "rest \<noteq> []"
          with t parsed_ok(2) have "t \<in> set (butlast ts)" by (simp add: butlast_append)
          with tokens_of_body [OF assms] True t show False by (auto simp: peek_def)
        qed
        with t parsed_ok(2) have "butlast ts = used" by simp
        with parsed_ok ne True show ?thesis by (simp add: parse_tokens_def Let_def)
      next
        case False
        with parsed_ok(1) ne in1 show ?thesis
          by (auto simp: parse_tokens_def Let_def refuse_at_def refuse_def spans_token_def)
      qed
    qed
  qed
qed

section \<open>Properties\<close>

text \<open>
  Tokenizing loses nothing: the tokens of a text have their spans in order and inside it, each
  token's text is the stretch it spans, only white space lies between them, and the end token is
  last.
\<close>

theorem tokens_cover_the_text: "tokens_of 0 s (tokenize s)"
  by (rule tokenize_tokens_of)

lemma parse_cases:
  "(\<exists>d. parse_formula s = Inl (Refused d) \<and> d_start d \<le> d_end d \<and> d_end d \<le> length s) \<or>
   (\<exists>r. parse_formula s = Inr r)"
proof (cases "max_formula_length < length s")
  case True
  then show ?thesis by (auto simp: parse_formula_def)
next
  case False
  note T = tokenize_tokens_of [of s]
  from parse_tokens_ok [OF T] show ?thesis
  proof (elim disjE exE conjE)
    fix d assume d: "parse_tokens (tokenize s) = Inl (Refused d)" "spans_token (tokenize s) d"
    then obtain t where "t \<in> set (tokenize s)" "d_start d = t_start t" "d_end d = max (t_end t) (t_start t)"
      by (auto simp: spans_token_def)
    with tokens_of_spans [OF T] have "d_start d \<le> d_end d" "d_end d \<le> length s" by fastforce+
    with d(1) False show ?thesis by (auto simp: parse_formula_def)
  qed (use False in \<open>auto simp: parse_formula_def\<close>)
qed

lemma refusal_in_text:
  "parse_formula s = Inl (Refused d) \<Longrightarrow> d_start d \<le> d_end d \<and> d_end d \<le> length s"
  using parse_cases [of s] by auto

text \<open>
  C3. Parsing always ends with an answer: a syntax tree, or a refusal whose span lies in the text.
\<close>

theorem parser_answers:
  "\<exists>r. parse_formula s = Inr r \<or>
     (\<exists>d. parse_formula s = Inl (Refused d) \<and> d_start d \<le> d_end d \<and> d_end d \<le> length s)"
  using parse_cases [of s] by auto

text \<open>The equations that run the tokenizer and the parser on a concrete text.\<close>

lemmas lex_eval = tokenize_def next_token_def make_token_def is_space_def code_def starts_number_def
  is_digit_def identifier_start_def identifier_part_def is_letter_def is_numeral_def operators_def
  single_token_def brace_escape_def Let_def

lemmas parse_eval = parse_formula_def parse_tokens_def expression_def comparison_def binary_level_def
  unary_numeral primary_def parse_identifier_def parse_call_def parse_paren_def count_node_def
  enter_def leave_def advance_def peek_def operator_at_def binary_operator_of_def comparison_ops_def
  concatenation_ops_def additive_ops_def multiplicative_ops_def value_text_def
  max_formula_length_def max_nesting_def max_nodes_def to_upper_def upper_char_def

lemma example_parse:
  "parse_formula ''a&b'' =
     Inr (SBinary BConcat 1 (SField ''a'' False None 0 1) (SField ''b'' False None 2 3) 0 3)"
  by (simp add: lex_eval parse_eval)

text \<open>
  A parsed formula is within the limits: at most 500 values and operators, nested at most 64
  deep, from a text of at most 10000 characters.
\<close>

theorem parsed_within_limits:
  assumes "parse_formula s = Inr x"
  shows "node_count x \<le> 500 \<and> nesting x \<le> 64 \<and> length s \<le> 10000"
proof -
  from assms have "\<not> max_formula_length < length s" "parse_tokens (tokenize s) = Inr x"
    by (auto simp: parse_formula_def split: if_splits)
  with parse_tokens_ok [OF tokenize_tokens_of [of s]] show ?thesis
    by (auto simp: max_formula_length_def max_nodes_def max_nesting_def)
qed

theorem parsed_within_limits_witness:
  "node_count (SBinary BConcat 1 (SField ''a'' False None 0 1) (SField ''b'' False None 2 3) 0 3) \<le> 500"
  using parsed_within_limits [OF example_parse] by blast

text \<open>
  C4. The tree is the one the documented grammar gives the tokens: comparison binds loosest, then
  joining, adding, multiplying and unary operators; binary operators associate to the left; the tree
  spans exactly its tokens.
\<close>

theorem parser_follows_the_grammar:
  assumes "parse_formula s = Inr x"
  shows "derives 0 (butlast (tokenize s)) x \<and>
     node_start x = t_start (hd (tokenize s)) \<and> node_end x = t_end (last (butlast (tokenize s)))"
proof -
  from assms have "parse_tokens (tokenize s) = Inr x"
    by (auto simp: parse_formula_def split: if_splits)
  with parse_tokens_ok [OF tokenize_tokens_of [of s]] have d: "derives 0 (butlast (tokenize s)) x" by auto
  from derives_span(1) [OF d] have "butlast (tokenize s) \<noteq> []" "node_start x = t_start (hd (butlast (tokenize s)))"
    "node_end x = t_end (last (butlast (tokenize s)))" by auto
  moreover from this have "hd (butlast (tokenize s)) = hd (tokenize s)"
    by (metis append_butlast_last_id butlast.simps(1) hd_append2)
  ultimately show ?thesis using d by simp
qed


theorem parser_grammar_witness:
  "derives 0 (butlast (tokenize ''a&b''))
     (SBinary BConcat 1 (SField ''a'' False None 0 1) (SField ''b'' False None 2 3) 0 3)"
  using parser_follows_the_grammar [OF example_parse] by blast

end
