(* ===== verification/Formula_Functions.thy ===== *)
theory Formula_Functions
  imports Formula_Parser
begin

text \<open>
  The function vocabulary (\<open>formula/src/functions.ts\<close>): every function with its name, arity, typing
  rule and lowering onto the canonical expression tree, and what a typing rule may ask of the
  checker (its context).
\<close>

section \<open>Checked expressions and the checker's state\<close>

datatype value_type = Typed formula_type | Blank | Invalid

definition value_type_name :: "value_type \<Rightarrow> string" where
  "value_type_name t = (case t of Typed x \<Rightarrow> type_name x | Blank \<Rightarrow> ''blank'' | Invalid \<Rightarrow> ''invalid'')"

record checked =
  c_type :: value_type
  c_ast :: expr
  c_syntax :: node

record reference =
  rf_field :: field
  rf_start :: nat
  rf_end :: nat

record checker =
  k_errors :: "diagnostic list"
  k_references :: "reference list"

definition report ::
  "diagnostic_code \<Rightarrow> string \<Rightarrow> nat \<Rightarrow> nat \<Rightarrow> (string \<times> param) list \<Rightarrow> checker \<Rightarrow> checker" where
  "report c message a b params k =
     k\<lparr>k_errors := k_errors k @ [\<lparr>d_code = c, d_message = message, d_start = a, d_end = b,
                                  d_params = params\<rparr>]\<rparr>"

definition report_at ::
  "diagnostic_code \<Rightarrow> string \<Rightarrow> node \<Rightarrow> (string \<times> param) list \<Rightarrow> checker \<Rightarrow> checker" where
  "report_at c message nd = report c message (node_start nd) (node_end nd)"

definition quoted :: "string \<Rightarrow> string" where
  "quoted s = CHR 0x27 # s @ [CHR 0x27]"

fun unwrap :: "node \<Rightarrow> node" where
  "unwrap (SParen inner _ _) = unwrap inner"
| "unwrap nd = nd"

definition list_types :: "formula_type list \<Rightarrow> string" where
  "list_types ts =
     (if length ts = 1 then type_name (hd ts)
      else join '', '' (map type_name (butlast ts)) @ '' or '' @ type_name (last ts))"

definition ordinal :: "nat \<Rightarrow> string" where
  "ordinal i =
     (if i = 0 then ''1st'' else if i = 1 then ''2nd'' else if i = 2 then ''3rd''
      else nat_digits (i + 1) @ ''th'')"

section \<open>Calendar units\<close>

definition unit_name :: "date_unit \<Rightarrow> string" where
  "unit_name u =
     (case u of
        UMilliseconds \<Rightarrow> ''milliseconds'' | USeconds \<Rightarrow> ''seconds'' | UMinutes \<Rightarrow> ''minutes''
      | UHours \<Rightarrow> ''hours'' | UDays \<Rightarrow> ''days'' | UWeeks \<Rightarrow> ''weeks'' | UMonths \<Rightarrow> ''months''
      | UQuarters \<Rightarrow> ''quarters'' | UYears \<Rightarrow> ''years'')"

definition unit_aliases :: "(date_unit \<times> string list \<times> string list) list" where
  "unit_aliases =
     [(UMilliseconds, [''millisecond'', ''milliseconds''], [''ms'']),
      (USeconds, [''second'', ''seconds''], [''s'']),
      (UMinutes, [''minute'', ''minutes''], [''m'']),
      (UHours, [''hour'', ''hours''], [''h'']),
      (UDays, [''day'', ''days''], [''d'']),
      (UWeeks, [''week'', ''weeks''], [''w'']),
      (UMonths, [''month'', ''months''], [''M'']),
      (UQuarters, [''quarter'', ''quarters''], [''Q'']),
      (UYears, [''year'', ''years''], [''y''])]"

definition date_units :: "date_unit list" where
  "date_units = map fst unit_aliases"

definition date_unit_of :: "string \<Rightarrow> date_unit option" where
  "date_unit_of spelling =
     (let trimmed = js_trim spelling
      in map_option fst
           (find_first (\<lambda>(u, long, short). to_lower trimmed \<in> set long \<or> trimmed \<in> set short)
              unit_aliases))"

section \<open>The context of a call\<close>

record call_context =
  x_name :: string
  x_start :: nat
  x_end :: nat
  x_args :: "checked list"

text \<open>
  \<open>args[i]\<close>; every typing rule below runs after the argument count has been checked, so it reads no
  argument that is not there, except where it tests for it.
\<close>

definition arg_option :: "call_context \<Rightarrow> nat \<Rightarrow> checked option" where
  "arg_option x i = (if i < length (x_args x) then Some (x_args x ! i) else None)"

definition argument_of :: "call_context \<Rightarrow> nat \<Rightarrow> checked" where
  "argument_of x i =
     (case arg_option x i of
        Some c \<Rightarrow> c
      | None \<Rightarrow> \<lparr>c_type = Invalid, c_ast = EMissing, c_syntax = SBoolean False 0 0\<rparr>)"

definition expect :: "call_context \<Rightarrow> nat \<Rightarrow> formula_type list \<Rightarrow> checker \<Rightarrow> checker" where
  "expect x i allowed k =
     (case arg_option x i of
        None \<Rightarrow> k
      | Some c \<Rightarrow>
          (case c_type c of
             Blank \<Rightarrow> k
           | Invalid \<Rightarrow> k
           | Typed t \<Rightarrow>
               (if t \<in> set allowed then k
                else report_at TypeMismatch
                       (x_name x @ ''() needs '' @ list_types allowed @ '' as its '' @ ordinal i @
                        '' argument, not '' @ type_name t) (c_syntax c)
                       [(''function'', PText (x_name x)), (''argument'', PNum (i + 1)),
                        (''expected'', PText (join ''|'' (map type_name allowed))),
                        (''actual'', PText (type_name t))] k)))"

text \<open>The loop of \<open>forEach\<close> over the arguments with the types each may have.\<close>

fun expect_from ::
  "call_context \<Rightarrow> nat \<Rightarrow> formula_type list list \<Rightarrow> checker \<Rightarrow> checker" where
  "expect_from x i [] k = k"
| "expect_from x i (ts # tss) k = expect_from x (Suc i) tss (expect x i ts k)"

text \<open>\<open>unify\<close>: the first typed branch decides; its type, label and number are carried along.\<close>

fun unify_from ::
  "string \<Rightarrow> nat \<Rightarrow> (formula_type \<times> string \<times> nat) option \<Rightarrow> bool \<Rightarrow> (checked \<times> string) list \<Rightarrow> checker \<Rightarrow>
   value_type \<times> checker" where
  "unify_from name i expected bad [] k =
     (if bad then Invalid else case expected of None \<Rightarrow> Blank | Some (t, _, _) \<Rightarrow> Typed t, k)"
| "unify_from name i expected bad ((c, label) # branches) k =
     (case c_type c of
        Invalid \<Rightarrow> unify_from name (Suc i) expected True branches k
      | Blank \<Rightarrow> unify_from name (Suc i) expected bad branches k
      | Typed t \<Rightarrow>
          (case expected of
             None \<Rightarrow> unify_from name (Suc i) (Some (t, label, i + 1)) bad branches k
           | Some (t0, label0, b0) \<Rightarrow>
               (if t = t0 then unify_from name (Suc i) expected bad branches k
                else unify_from name (Suc i) expected True branches
                  (report_at MixedBranches
                     (name @ ''() branch '' @ nat_digits (i + 1) @ '' ('' @ label @ '') is '' @
                      type_name t @ '', but branch '' @ nat_digits b0 @ '' ('' @ label0 @ '') is '' @
                      type_name t0 @ ''; every branch must give the same type'') (c_syntax c)
                     [(''function'', PText name), (''branch'', PNum (i + 1)),
                      (''type'', PText (type_name t)), (''expectedBranch'', PNum b0),
                      (''expected'', PText (type_name t0))] k))))"

definition unify :: "string \<Rightarrow> (checked \<times> string) list \<Rightarrow> checker \<Rightarrow> value_type \<times> checker" where
  "unify name branches = unify_from name 0 None False branches"

definition unit_at ::
  "call_context \<Rightarrow> nat \<Rightarrow> date_unit option \<Rightarrow> checker \<Rightarrow> date_unit option \<times> checker" where
  "unit_at x i fallback k =
     (case arg_option x i of
        None \<Rightarrow> (fallback, k)
      | Some c \<Rightarrow>
          (case (case unwrap (c_syntax c) of SString s _ _ \<Rightarrow> date_unit_of s | _ \<Rightarrow> None) of
             Some u \<Rightarrow> (Some u, k)
           | None \<Rightarrow>
               (None, report_at InvalidArgument
                  (x_name x @ ''() needs a unit in quotes as its '' @ ordinal i @ '' argument: '' @
                   join '', '' (map (quoted \<circ> unit_name) date_units)) (c_syntax c)
                  [(''function'', PText (x_name x)), (''argument'', PNum (i + 1))] k)))"

section \<open>Functions\<close>

datatype function_category = CatText | CatLogical | CatNumeric | CatDate | CatRecord

text \<open>The largest argument count is \<open>None\<close> for \<open>Infinity\<close>.\<close>

record formula_function =
  fn_name :: string
  fn_category :: function_category
  fn_signature :: string
  fn_description :: string
  fn_min :: nat
  fn_max :: "nat option"
  fn_returns :: "formula_type option"
  fn_lower :: "call_context \<Rightarrow> checker \<Rightarrow> (value_type \<times> expr) \<times> checker"

definition time_functions :: "string list" where
  "time_functions = [''NOW'', ''TODAY'', ''TONOW'', ''FROMNOW'']"

definition temporal :: "formula_type list" where "temporal = [TDate, TTimestamp]"
definition concatenable :: "formula_type list" where "concatenable = [TText, TNumber, TBoolean]"

definition asts :: "call_context \<Rightarrow> expr list" where
  "asts x = map c_ast (x_args x)"

definition simple ::
  "string \<Rightarrow> function_category \<Rightarrow> string \<Rightarrow> string \<Rightarrow> formula_op \<Rightarrow> formula_type list list \<Rightarrow>
   formula_type \<Rightarrow> nat \<Rightarrow> formula_function" where
  "simple name category sig desc oper types ret least =
     \<lparr>fn_name = name, fn_category = category, fn_signature = sig, fn_description = desc,
      fn_min = least, fn_max = Some (length types), fn_returns = Some ret,
      fn_lower = (\<lambda>x k. ((Typed ret, EFormula oper (asts x)),
                          expect_from x 0 (take (length (x_args x)) types) k))\<rparr>"

definition variadic ::
  "string \<Rightarrow> function_category \<Rightarrow> string \<Rightarrow> string \<Rightarrow> formula_op \<Rightarrow> formula_type list \<Rightarrow>
   formula_type \<Rightarrow> formula_function" where
  "variadic name category sig desc oper types ret =
     \<lparr>fn_name = name, fn_category = category, fn_signature = sig, fn_description = desc,
      fn_min = 1, fn_max = None, fn_returns = Some ret,
      fn_lower = (\<lambda>x k. ((Typed ret, EFormula oper (asts x)),
                          expect_from x 0 (map (\<lambda>_. types) (x_args x)) k))\<rparr>"

definition date_part :: "string \<Rightarrow> date_op \<Rightarrow> string \<Rightarrow> formula_function" where
  "date_part name oper desc =
     \<lparr>fn_name = name, fn_category = CatDate, fn_signature = name @ ''(date)'', fn_description = desc,
      fn_min = 1, fn_max = Some 1, fn_returns = Some TNumber,
      fn_lower = (\<lambda>x k. ((Typed TNumber, EDate oper (Some (c_ast (argument_of x 0))) None None),
                          expect x 0 temporal k))\<rparr>"

text \<open>Whether values of these types can be compared for equality.\<close>

definition comparable :: "value_type \<Rightarrow> value_type \<Rightarrow> bool" where
  "comparable l r =
     (case (l, r) of
        (Typed a, Typed b) \<Rightarrow> a = b \<or> (a \<in> set temporal \<and> b \<in> set temporal)
      | _ \<Rightarrow> True)"

subsection \<open>The rules written out\<close>

definition lower_concatenate :: "call_context \<Rightarrow> checker \<Rightarrow> (value_type \<times> expr) \<times> checker" where
  "lower_concatenate x k =
     ((Typed TText, EFormula FConcat (asts x)),
      expect_from x 0 (map (\<lambda>_. concatenable) (x_args x)) k)"

definition lower_if :: "call_context \<Rightarrow> checker \<Rightarrow> (value_type \<times> expr) \<times> checker" where
  "lower_if x k =
     (let condition = argument_of x 0; consequent = argument_of x 1; alt = arg_option x 2;
          branches = (consequent, ''then'') # (case alt of None \<Rightarrow> [] | Some c \<Rightarrow> [(c, ''else'')])
      in case unify (x_name x) branches (expect x 0 [TBoolean] k) of
           (t, k') \<Rightarrow>
             ((t, EIf (c_ast condition) (c_ast consequent)
                   (Some (case alt of Some c \<Rightarrow> c_ast c | None \<Rightarrow> ELit VNull))), k'))"

definition lower_group ::
  "cond_mode \<Rightarrow> call_context \<Rightarrow> checker \<Rightarrow> (value_type \<times> expr) \<times> checker" where
  "lower_group m x k =
     ((Typed TBoolean, EGroup (Some m) (Some (asts x)) None None),
      expect_from x 0 (map (\<lambda>_. [TBoolean]) (x_args x)) k)"

text \<open>The pairs of a \<open>SWITCH\<close> after its subject, and the default left over.\<close>

fun switch_pairs :: "checked list \<Rightarrow> (checked \<times> checked) list \<times> checked option" where
  "switch_pairs [] = ([], None)"
| "switch_pairs [c] = ([], Some c)"
| "switch_pairs (p # r # rest) = (case switch_pairs rest of (ps, d) \<Rightarrow> ((p, r) # ps, d))"

fun check_patterns :: "checked \<Rightarrow> nat \<Rightarrow> (checked \<times> checked) list \<Rightarrow> checker \<Rightarrow> checker" where
  "check_patterns subject i [] k = k"
| "check_patterns subject i ((p, r) # ps) k =
     check_patterns subject (Suc i) ps
       (if comparable (c_type subject) (c_type p) then k
        else report_at TypeMismatch
               (''SWITCH pattern '' @ nat_digits (i + 1) @ '' is '' @ value_type_name (c_type p) @
                '', but the expression is '' @ value_type_name (c_type subject)) (c_syntax p)
               [(''function'', PText ''SWITCH''), (''pattern'', PNum (i + 1)),
                (''expected'', PText (value_type_name (c_type subject))),
                (''actual'', PText (value_type_name (c_type p)))] k)"

fun result_branches :: "nat \<Rightarrow> (checked \<times> checked) list \<Rightarrow> (checked \<times> string) list" where
  "result_branches i [] = []"
| "result_branches i ((p, r) # ps) =
     (r, ''result '' @ nat_digits (i + 1)) # result_branches (Suc i) ps"

definition lower_switch :: "call_context \<Rightarrow> checker \<Rightarrow> (value_type \<times> expr) \<times> checker" where
  "lower_switch x k =
     (let subject = argument_of x 0
      in case switch_pairs (tl (x_args x)) of
           (ps, d) \<Rightarrow>
             (case unify (x_name x)
                     (result_branches 0 ps @ (case d of None \<Rightarrow> [] | Some c \<Rightarrow> [(c, ''default'')]))
                     (check_patterns subject 0 ps k) of
                (t, k') \<Rightarrow>
                  ((t, ESwitch (c_ast subject) (map (\<lambda>(p, r). (c_ast p, c_ast r)) ps)
                        (map_option c_ast d)), k')))"

definition calendar_day_units :: "date_unit list" where
  "calendar_day_units = [UDays, UWeeks, UMonths, UQuarters, UYears]"

definition lower_date_add :: "call_context \<Rightarrow> checker \<Rightarrow> (value_type \<times> expr) \<times> checker" where
  "lower_date_add x k =
     (case unit_at x 2 None (expect x 1 [TNumber] (expect x 0 temporal k)) of
        (u, k') \<Rightarrow>
          (let base = argument_of x 0
           in ((case u of
                  None \<Rightarrow> Invalid
                | Some u' \<Rightarrow>
                    (if c_type base = Invalid then Invalid
                     else if c_type base = Typed TDate \<and> u' \<in> set calendar_day_units then Typed TDate
                     else Typed TTimestamp),
                EDate DAdd (Some (c_ast base)) (Some (c_ast (argument_of x 1)))
                  (Some (case u of Some u' \<Rightarrow> u' | None \<Rightarrow> UDays))), k')))"

definition lower_date_diff :: "call_context \<Rightarrow> checker \<Rightarrow> (value_type \<times> expr) \<times> checker" where
  "lower_date_diff x k =
     (case unit_at x 2 (Some USeconds) (expect x 1 temporal (expect x 0 temporal k)) of
        (u, k') \<Rightarrow>
          ((if u = None then Invalid else Typed TNumber,
            EDate DDiff (Some (c_ast (argument_of x 0))) (Some (c_ast (argument_of x 1)))
              (Some (case u of Some u' \<Rightarrow> u' | None \<Rightarrow> USeconds))), k'))"

definition lower_date_format :: "call_context \<Rightarrow> checker \<Rightarrow> (value_type \<times> expr) \<times> checker" where
  "lower_date_format x k =
     (let k1 = expect x 0 temporal k;
          k2 = (if 1 < length (x_args x) then expect x 1 [TText] k1 else k1)
      in ((Typed TText, EDate DFormat (Some (c_ast (argument_of x 0)))
             (map_option c_ast (arg_option x 1)) None), k2))"

definition make_function ::
  "string \<Rightarrow> function_category \<Rightarrow> string \<Rightarrow> string \<Rightarrow> nat \<Rightarrow> nat option \<Rightarrow> formula_type option \<Rightarrow>
   (call_context \<Rightarrow> checker \<Rightarrow> (value_type \<times> expr) \<times> checker) \<Rightarrow> formula_function" where
  "make_function name category sig desc least most ret lower =
     \<lparr>fn_name = name, fn_category = category, fn_signature = sig, fn_description = desc,
      fn_min = least, fn_max = most, fn_returns = ret, fn_lower = lower\<rparr>"

subsection \<open>The vocabulary\<close>

definition text_functions :: "formula_function list" where
  "text_functions =
   [make_function ''CONCATENATE'' CatText ''CONCATENATE(text, ...)''
      ''Joins the values into one text; the same as joining them with &.''
      1 None (Some TText) lower_concatenate,
    simple ''LEFT'' CatText ''LEFT(text, count)''
      ''The first count characters of the text.''
      FLeft [[TText], [TNumber]] TText 2,
    simple ''RIGHT'' CatText ''RIGHT(text, count)''
      ''The last count characters of the text.''
      FRight [[TText], [TNumber]] TText 2,
    simple ''MID'' CatText ''MID(text, start, count)''
      ''count characters of the text from position start (the first is 1).''
      FMid [[TText], [TNumber], [TNumber]] TText 3,
    simple ''LEN'' CatText ''LEN(text)''
      ''The number of characters in the text.''
      FLen [[TText]] TNumber 1,
    simple ''TRIM'' CatText ''TRIM(text)''
      ''The text without leading and trailing spaces.''
      FTrim [[TText]] TText 1,
    simple ''UPPER'' CatText ''UPPER(text)''
      ''The text in capitals.''
      FUpper [[TText]] TText 1,
    simple ''LOWER'' CatText ''LOWER(text)''
      ''The text in lower case.''
      FLower [[TText]] TText 1,
    simple ''SUBSTITUTE'' CatText ''SUBSTITUTE(text, old, new, [occurrence])''
      ''Replaces old by new in the text: every occurrence, or only the given one.''
      FSubstitute [[TText], [TText], [TText], [TNumber]] TText 3]"

definition logical_functions :: "formula_function list" where
  "logical_functions =
   [make_function ''IF'' CatLogical ''IF(condition, then, [else])''
      ''then when the condition holds, else otherwise (blank when else is left out).''
      2 (Some 3) None lower_if,
    make_function ''AND'' CatLogical ''AND(condition, ...)'' ''True when every condition holds.''
      1 None (Some TBoolean) (lower_group ModeAll),
    make_function ''OR'' CatLogical ''OR(condition, ...)'' ''True when at least one condition holds.''
      1 None (Some TBoolean) (lower_group ModeAny),
    simple ''NOT'' CatLogical ''NOT(condition)''
      ''True when the condition does not hold.''
      FNot [[TBoolean]] TBoolean 1,
    make_function ''SWITCH'' CatLogical ''SWITCH(expression, pattern, result, ..., [default])''
      ''The result of the first pattern equal to the expression, else the default (blank when left out).''
      3 None None lower_switch,
    make_function ''BLANK'' CatLogical ''BLANK()''
      ''An empty value. `{Field} = BLANK()` tests whether a field is empty.''
      0 (Some 0) None (\<lambda>x k. ((Blank, ELit VNull), k)),
    make_function ''ISERROR'' CatLogical ''ISERROR(expression)''
      ''True when the expression has no value because of an error, such as a division by zero.''
      1 (Some 1) (Some TBoolean) (\<lambda>x k. ((Typed TBoolean, EFormula FIsError (asts x)), k)),
    make_function ''TRUE'' CatLogical ''TRUE()'' ''The logical value true.''
      0 (Some 0) (Some TBoolean) (\<lambda>x k. ((Typed TBoolean, ELit (VBool True)), k)),
    make_function ''FALSE'' CatLogical ''FALSE()'' ''The logical value false.''
      0 (Some 0) (Some TBoolean) (\<lambda>x k. ((Typed TBoolean, ELit (VBool False)), k))]"

definition numeric_functions :: "formula_function list" where
  "numeric_functions =
   [simple ''ROUND'' CatNumeric ''ROUND(value, [precision])''
      ''Rounds to precision decimals (default 0), halves away from zero.''
      FRound [[TNumber], [TNumber]] TNumber 1,
    simple ''ROUNDUP'' CatNumeric ''ROUNDUP(value, [precision])''
      ''Rounds away from zero to precision decimals (default 0).''
      FRoundUp [[TNumber], [TNumber]] TNumber 1,
    simple ''ROUNDDOWN'' CatNumeric ''ROUNDDOWN(value, [precision])''
      ''Rounds toward zero to precision decimals (default 0).''
      FRoundDown [[TNumber], [TNumber]] TNumber 1,
    variadic ''MIN'' CatNumeric ''MIN(number, ...)''
      ''The smallest of the numbers; blanks are skipped.''
      FMin [TNumber] TNumber,
    variadic ''MAX'' CatNumeric ''MAX(number, ...)''
      ''The largest of the numbers; blanks are skipped.''
      FMax [TNumber] TNumber,
    variadic ''SUM'' CatNumeric ''SUM(number, ...)''
      ''The numbers added up; blanks count as nothing.''
      FSum [TNumber] TNumber,
    variadic ''AVERAGE'' CatNumeric ''AVERAGE(number, ...)''
      ''The mean of the numbers; blanks are skipped.''
      FAverage [TNumber] TNumber,
    simple ''ABS'' CatNumeric ''ABS(value)''
      ''The value without its sign.''
      FAbs [[TNumber]] TNumber 1,
    simple ''VALUE'' CatNumeric ''VALUE(text)''
      ''The number in the text, ignoring currency symbols and thousands separators.''
      FValue [[TText]] TNumber 1,
    simple ''MOD'' CatNumeric ''MOD(value, divisor)''
      ''The remainder of dividing value by divisor, with the sign of value.''
      FMod [[TNumber], [TNumber]] TNumber 2,
    simple ''POWER'' CatNumeric ''POWER(base, power)''
      ''base raised to power.''
      FPower [[TNumber], [TNumber]] TNumber 2,
    simple ''SQRT'' CatNumeric ''SQRT(value)''
      ''The square root of the value.''
      FSqrt [[TNumber]] TNumber 1,
    simple ''CEILING'' CatNumeric ''CEILING(value, [significance])''
      ''The nearest multiple of significance (default 1) at or above the value.''
      FCeiling [[TNumber], [TNumber]] TNumber 1,
    simple ''FLOOR'' CatNumeric ''FLOOR(value, [significance])''
      ''The nearest multiple of significance (default 1) at or below the value.''
      FFloor [[TNumber], [TNumber]] TNumber 1]"

definition date_functions :: "formula_function list" where
  "date_functions =
   [make_function ''DATEADD'' CatDate ''DATEADD(date, count, 'unit')''
      ''The date moved by count units: 'days', 'weeks', 'months', 'quarters', 'years', 'hours', 'minutes', 'seconds' or 'milliseconds'.''
      3 (Some 3) None lower_date_add,
    make_function ''DATETIME_DIFF'' CatDate ''DATETIME_DIFF(date1, date2, ['unit'])''
      ''date1 minus date2 in whole units (default 'seconds'), truncated toward zero.''
      2 (Some 3) (Some TNumber) lower_date_diff,
    make_function ''DATETIME_FORMAT'' CatDate ''DATETIME_FORMAT(date, ['format'])''
      ''The date as text, in UTC, with format tokens such as 'YYYY-MM-DD' or 'D MMMM YYYY HH:mm'; ISO 8601 without a format.''
      1 (Some 2) (Some TText) lower_date_format,
    date_part ''YEAR'' DYear ''The year of the date (UTC).'',
    date_part ''MONTH'' DMonth ''The month of the date, 1 to 12 (UTC).'',
    date_part ''DAY'' DDay ''The day of the month of the date, 1 to 31 (UTC).'']"

definition record_functions :: "formula_function list" where
  "record_functions =
   [make_function ''RECORD_ID'' CatRecord ''RECORD_ID()'' ''The id of this record.''
      0 (Some 0) (Some TText) (\<lambda>x k. ((Typed TText, EFun FnRecordId None), k)),
    make_function ''CREATED_TIME'' CatRecord ''CREATED_TIME()'' ''When this record was created.''
      0 (Some 0) (Some TTimestamp) (\<lambda>x k. ((Typed TTimestamp, EFun FnCreatedTime None), k))]"

definition formula_functions :: "formula_function list" where
  "formula_functions =
     text_functions @ logical_functions @ numeric_functions @ date_functions @ record_functions"

definition function_named :: "string \<Rightarrow> formula_function option" where
  "function_named name = find_first (\<lambda>f. fn_name f = to_upper name) formula_functions"

end
