(* ===== verification/Formula_Graph.thy ===== *)
theory Formula_Graph
  imports OSF_Prelude
begin

text \<open>
  The dependency graph over computed fields (\<open>formula/src/graph.ts\<close>): the definitions, Tarjan's
  strongly connected components over the defined nodes, the evaluation order, the transitive readers
  of a change and the chain of reads between two nodes.  A node stands for its own key: \<open>JSON.stringify\<close> of
  the pair is injective.
\<close>

section \<open>The graph\<close>

datatype dep_node = DepNode (dn_entity: string) (dn_field: string)

type_synonym dep_definition = "dep_node \<times> dep_node list"

text \<open>
  \<open>defined\<close>: a node defined twice keeps its last definition, at its last place.  \<open>edges\<close>: the nodes a
  definition reads, each once.  \<open>dependents\<close>: the readers of a node, in the order of the definitions.
\<close>

fun define_nodes :: "dep_definition list \<Rightarrow> dep_definition list \<Rightarrow> dep_definition list" where
  "define_nodes m [] = m"
| "define_nodes m ((n, ds) # defs) = define_nodes (massoc_set n ds (massoc_delete n m)) defs"

record dep_graph =
  g_keys :: "dep_node list"
  g_edges :: "(dep_node \<times> dep_node list) list"
  g_dependents :: "(dep_node \<times> dep_node list) list"

fun add_dependents :: "dep_node \<Rightarrow> dep_node list \<Rightarrow> (dep_node \<times> dep_node list) list \<Rightarrow>
    (dep_node \<times> dep_node list) list" where
  "add_dependents key [] m = m"
| "add_dependents key (read # reads) m =
     add_dependents key reads
       (massoc_set read ((case map_of m read of None \<Rightarrow> [] | Some l \<Rightarrow> l) @ [key]) m)"

definition build_graph :: "dep_definition list \<Rightarrow> dep_graph" where
  "build_graph defs =
     (let d = define_nodes [] defs;
          es = map (\<lambda>(k, reads). (k, uniq reads)) d
      in \<lparr>g_keys = map fst d, g_edges = es,
          g_dependents = fold (\<lambda>(k, reads). add_dependents k reads) es []\<rparr>)"

definition edges_of :: "dep_graph \<Rightarrow> dep_node \<Rightarrow> dep_node list" where
  "edges_of g k = (case map_of (g_edges g) k of None \<Rightarrow> [] | Some l \<Rightarrow> l)"

definition dependents_of :: "dep_graph \<Rightarrow> dep_node \<Rightarrow> dep_node list" where
  "dependents_of g k = (case map_of (g_dependents g) k of None \<Rightarrow> [] | Some l \<Rightarrow> l)"

definition is_defined :: "dep_graph \<Rightarrow> dep_node \<Rightarrow> bool" where
  "is_defined g k = (k \<in> set (g_keys g))"


section \<open>The chain of reads between two nodes\<close>

text \<open>
  \<open>walk\<close> with the set of seen nodes it carries and the target.  The recursion of the code is bounded
  by fuel, one unit per nested call; \<open>None\<close> is running out of it.
\<close>

type_synonym walk_result = "(dep_node list option \<times> dep_node list) option"

fun walk_reads ::
  "(dep_node \<Rightarrow> dep_node list \<Rightarrow> dep_node list \<Rightarrow> walk_result) \<Rightarrow> dep_node \<Rightarrow> dep_node list \<Rightarrow>
   dep_node list \<Rightarrow> dep_node list \<Rightarrow> walk_result" where
  "walk_reads f target [] trail seen = Some (None, seen)"
| "walk_reads f target (read # reads) trail seen =
     (if read = target then Some (Some (trail @ [read]), seen)
      else case f read (trail @ [read]) seen of
             None \<Rightarrow> None
           | Some (Some found, seen') \<Rightarrow> Some (Some found, seen')
           | Some (None, seen') \<Rightarrow> walk_reads f target reads trail seen')"

primrec walk ::
  "nat \<Rightarrow> dep_graph \<Rightarrow> dep_node \<Rightarrow> dep_node \<Rightarrow> dep_node list \<Rightarrow> dep_node list \<Rightarrow> walk_result" where
  "walk 0 g target = (\<lambda>key trail seen. None)"
| "walk (Suc n) g target =
     (\<lambda>key trail seen.
        if key \<in> set seen then Some (None, seen)
        else walk_reads (walk n g target) target (edges_of g key) trail (key # seen))"

definition all_nodes :: "dep_graph \<Rightarrow> dep_node list" where
  "all_nodes g = g_keys g @ concat (map snd (g_edges g))"

definition graph_path :: "dep_graph \<Rightarrow> dep_node \<Rightarrow> dep_node \<Rightarrow> dep_node list option" where
  "graph_path g start target =
     (case walk (Suc (Suc (length (all_nodes g)))) g target start [start] [] of
        None \<Rightarrow> None
      | Some (found, _) \<Rightarrow> found)"

section \<open>The readers affected by a change\<close>

text \<open>The breadth-first loop of \<open>affectedBy\<close>: the inner loop over the readers of a node, then the queue.\<close>

fun reach_readers ::
  "dep_node list \<Rightarrow> dep_node list \<Rightarrow> dep_node list \<Rightarrow> dep_node list \<times> dep_node list" where
  "reach_readers [] reached queue = (reached, queue)"
| "reach_readers (r # rs) reached queue =
     (if r \<in> set reached then reach_readers rs reached queue
      else reach_readers rs (reached @ [r]) (queue @ [r]))"

fun reach_loop :: "nat \<Rightarrow> dep_graph \<Rightarrow> dep_node list \<Rightarrow> dep_node list \<Rightarrow> dep_node list option" where
  "reach_loop n g reached [] = Some reached"
| "reach_loop 0 g reached (key # queue) = None"
| "reach_loop (Suc n) g reached (key # queue) =
     (case reach_readers (dependents_of g key) reached queue of
        (reached', queue') \<Rightarrow> reach_loop n g reached' queue')"

section \<open>Strongly connected components\<close>

text \<open>The variables \<open>connect\<close> mutates; the stack has its top first.\<close>

record tarjan =
  t_index :: "(dep_node \<times> nat) list"
  t_low :: "(dep_node \<times> nat) list"
  t_on_stack :: "dep_node list"
  t_stack :: "dep_node list"
  t_components :: "dep_node list list"
  t_counter :: nat

definition low_of :: "tarjan \<Rightarrow> dep_node \<Rightarrow> nat" where
  "low_of s k = (case map_of (t_low s) k of None \<Rightarrow> 0 | Some n \<Rightarrow> n)"

definition index_of_node :: "tarjan \<Rightarrow> dep_node \<Rightarrow> nat" where
  "index_of_node s k = (case map_of (t_index s) k of None \<Rightarrow> 0 | Some n \<Rightarrow> n)"

definition push_node :: "dep_node \<Rightarrow> tarjan \<Rightarrow> tarjan" where
  "push_node k s =
     s\<lparr>t_index := massoc_set k (t_counter s) (t_index s),
       t_low := massoc_set k (t_counter s) (t_low s),
       t_counter := Suc (t_counter s), t_stack := k # t_stack s, t_on_stack := k # t_on_stack s\<rparr>"

definition lower_link :: "dep_node \<Rightarrow> nat \<Rightarrow> tarjan \<Rightarrow> tarjan" where
  "lower_link k n s = s\<lparr>t_low := massoc_set k (min (low_of s k) n) (t_low s)\<rparr>"

text \<open>The \<open>do\<close> loop that pops a component off the stack.\<close>

fun pop_until :: "dep_node \<Rightarrow> dep_node list \<Rightarrow> dep_node list \<times> dep_node list" where
  "pop_until k [] = ([], [])"
| "pop_until k (m # stack) =
     (if m = k then ([m], stack)
      else case pop_until k stack of (scc, rest) \<Rightarrow> (m # scc, rest))"

definition close_component :: "dep_node \<Rightarrow> tarjan \<Rightarrow> tarjan" where
  "close_component k s =
     (if low_of s k = index_of_node s k
      then case pop_until k (t_stack s) of (scc, rest) \<Rightarrow>
             s\<lparr>t_stack := rest, t_on_stack := filter (\<lambda>m. m \<notin> set scc) (t_on_stack s),
               t_components := t_components s @ [scc]\<rparr>
      else s)"

fun connect_reads ::
  "(dep_node \<Rightarrow> tarjan \<Rightarrow> tarjan option) \<Rightarrow> dep_graph \<Rightarrow> dep_node \<Rightarrow> dep_node list \<Rightarrow> tarjan \<Rightarrow>
   tarjan option" where
  "connect_reads f g k [] s = Some s"
| "connect_reads f g k (read # reads) s =
     (if \<not> is_defined g read then connect_reads f g k reads s
      else if map_of (t_index s) read = None
      then (case f read s of
              None \<Rightarrow> None
            | Some s' \<Rightarrow> connect_reads f g k reads (lower_link k (low_of s' read) s'))
      else if read \<in> set (t_on_stack s)
      then connect_reads f g k reads (lower_link k (index_of_node s read) s)
      else connect_reads f g k reads s)"

primrec connect :: "nat \<Rightarrow> dep_graph \<Rightarrow> dep_node \<Rightarrow> tarjan \<Rightarrow> tarjan option" where
  "connect 0 g = (\<lambda>k s. None)"
| "connect (Suc n) g =
     (\<lambda>k s. map_option (close_component k)
        (connect_reads (connect n g) g k (edges_of g k) (push_node k s)))"

fun connect_all :: "nat \<Rightarrow> dep_graph \<Rightarrow> dep_node list \<Rightarrow> tarjan \<Rightarrow> tarjan option" where
  "connect_all n g [] s = Some s"
| "connect_all n g (k # ks) s =
     (if map_of (t_index s) k = None
      then (case connect n g k s of None \<Rightarrow> None | Some s' \<Rightarrow> connect_all n g ks s')
      else connect_all n g ks s)"

definition tarjan_start :: tarjan where
  "tarjan_start = \<lparr>t_index = [], t_low = [], t_on_stack = [], t_stack = [], t_components = [],
     t_counter = 0\<rparr>"

definition components :: "dep_graph \<Rightarrow> dep_node list list" where
  "components g =
     (case connect_all (Suc (length (g_keys g))) g (g_keys g) tarjan_start of
        None \<Rightarrow> [] | Some s \<Rightarrow> t_components s)"

text \<open>Sorting by the place in the input; a component that reads itself is a cycle.\<close>

definition position_in :: "dep_node list \<Rightarrow> dep_node \<Rightarrow> nat" where
  "position_in ks k = length (takeWhile (\<lambda>x. x \<noteq> k) ks)"

definition is_cycle :: "dep_graph \<Rightarrow> dep_node list \<Rightarrow> bool" where
  "is_cycle g scc =
     (2 \<le> length scc \<or> (length scc = 1 \<and> hd scc \<in> set (edges_of g (hd scc))))"

definition graph_cycles :: "dep_graph \<Rightarrow> dep_node list list" where
  "graph_cycles g =
     sort_key (\<lambda>c. position_in (g_keys g) (hd c))
       (map (sort_key (position_in (g_keys g))) (filter (is_cycle g) (components g)))"

definition cyclic_nodes :: "dep_graph \<Rightarrow> dep_node list" where
  "cyclic_nodes g = concat (graph_cycles g)"

section \<open>The evaluation order\<close>

text \<open>\<open>visit\<close>: the visited nodes and the order so far.\<close>

type_synonym visit_state = "dep_node list \<times> dep_node list"

fun visit_reads ::
  "(dep_node \<Rightarrow> visit_state \<Rightarrow> visit_state option) \<Rightarrow> dep_graph \<Rightarrow> dep_node list \<Rightarrow> dep_node list \<Rightarrow>
   visit_state \<Rightarrow> visit_state option" where
  "visit_reads f g cyc [] s = Some s"
| "visit_reads f g cyc (read # reads) s =
     (if is_defined g read \<and> read \<notin> set cyc
      then (case f read s of None \<Rightarrow> None | Some s' \<Rightarrow> visit_reads f g cyc reads s')
      else visit_reads f g cyc reads s)"

primrec visit ::
  "nat \<Rightarrow> dep_graph \<Rightarrow> dep_node list \<Rightarrow> dep_node \<Rightarrow> visit_state \<Rightarrow> visit_state option" where
  "visit 0 g cyc = (\<lambda>k s. None)"
| "visit (Suc n) g cyc =
     (\<lambda>k s.
        if k \<in> set (fst s) then Some s
        else map_option (\<lambda>(visited, ordered). (visited, ordered @ [k]))
               (visit_reads (visit n g cyc) g cyc (edges_of g k) (k # fst s, snd s)))"

definition graph_order :: "dep_graph \<Rightarrow> dep_node list" where
  "graph_order g =
     (case visit_reads (visit (Suc (length (g_keys g))) g (cyclic_nodes g)) g (cyclic_nodes g)
             (g_keys g) ([], []) of
        None \<Rightarrow> []
      | Some (_, ordered) \<Rightarrow> ordered)"

definition affected_by :: "dep_graph \<Rightarrow> dep_node list \<Rightarrow> dep_node list" where
  "affected_by g changed =
     (case reach_loop (length changed + length (g_keys g)) g [] changed of
        None \<Rightarrow> []
      | Some reached \<Rightarrow>
          sort_key (position_in (graph_order g)) (filter (\<lambda>k. k \<in> set (graph_order g)) reached))"


section \<open>What reads what\<close>

definition reads :: "dep_graph \<Rightarrow> dep_node \<Rightarrow> dep_node \<Rightarrow> bool" where
  "reads g a b = (b \<in> set (edges_of g a))"

lemma edges_in_all_nodes: "set (edges_of g k) \<subseteq> set (all_nodes g)"
proof (cases "map_of (g_edges g) k")
  case (Some l)
  then have "(k, l) \<in> set (g_edges g)" by (rule map_of_SomeD)
  then have "set l \<subseteq> set (all_nodes g)" unfolding all_nodes_def by fastforce
  with Some show ?thesis by (simp add: edges_of_def)
qed (simp add: edges_of_def)

lemma reads_in_all_nodes: "reads g a b \<Longrightarrow> b \<in> set (all_nodes g)"
  unfolding reads_def using edges_in_all_nodes [of g a] by blast

lemma distinct_define_nodes:
  "distinct (map fst m) \<Longrightarrow> distinct (map fst (define_nodes m defs))"
  by (induction m defs rule: define_nodes.induct) (simp_all add: assoc_simps)

lemma map_of_define_nodes:
  "distinct (map fst m) \<Longrightarrow>
   map_of (define_nodes m defs) n =
     (case map_of (rev defs) n of None \<Rightarrow> map_of m n | Some ds \<Rightarrow> Some ds)"
proof (induction m defs rule: define_nodes.induct)
  case (2 m k ds defs)
  have "map_of (define_nodes m ((k, ds) # defs)) n =
      (case map_of (rev defs) n of
         None \<Rightarrow> map_of (massoc_set k ds (massoc_delete k m)) n | Some x \<Rightarrow> Some x)"
    using 2 by (simp add: assoc_simps)
  then show ?case
    using "2.prems" by (auto simp: assoc_simps map_add_def split: option.splits)
qed simp

lemma keys_build_graph: "g_keys (build_graph defs) = map fst (define_nodes [] defs)"
  by (simp add: build_graph_def Let_def)

lemma distinct_keys_build_graph [simp]: "distinct (g_keys (build_graph defs))"
  by (simp add: keys_build_graph distinct_define_nodes)

lemma edges_build_graph:
  "edges_of (build_graph defs) n =
     (case map_of (rev defs) n of None \<Rightarrow> [] | Some ds \<Rightarrow> uniq ds)"
proof -
  have "map_of (map (\<lambda>(k, reads). (k, uniq reads)) d) n = map_option uniq (map_of d n)"
    for d :: "dep_definition list"
    by (induction d) auto
  then show ?thesis
    by (cases "map_of (rev defs) n")
       (simp_all add: edges_of_def build_graph_def Let_def map_of_define_nodes)
qed

text \<open>A node is defined by its last definition, and reads what that definition names.\<close>

lemma reads_build_graph:
  "reads (build_graph defs) a b \<longleftrightarrow> (\<exists>ds. map_of (rev defs) a = Some ds \<and> b \<in> set ds)"
  by (cases "map_of (rev defs) a") (simp_all add: reads_def edges_build_graph)

lemma is_defined_build_graph:
  "is_defined (build_graph defs) n \<longleftrightarrow> n \<in> fst ` set defs"
proof -
  have "n \<in> fst ` set (define_nodes [] defs) \<longleftrightarrow> map_of (define_nodes [] defs) n \<noteq> None"
    by (simp add: map_of_eq_None_iff)
  also have "\<dots> \<longleftrightarrow> map_of (rev defs) n \<noteq> None"
    by (simp add: map_of_define_nodes split: option.splits)
  finally show ?thesis
    by (simp add: is_defined_def keys_build_graph map_of_eq_None_iff)
qed

lemma reads_defined: "reads (build_graph defs) a b \<Longrightarrow> is_defined (build_graph defs) a"
  by (force simp: reads_build_graph is_defined_build_graph dest: map_of_SomeD)

section \<open>Chains\<close>

text \<open>
  What \<open>path\<close> offers the cycle check: a chain of reads whenever there is one, and only then.
\<close>

locale chain_finder =
  fixes rel :: "'n \<Rightarrow> 'n \<Rightarrow> bool"
    and find :: "'n \<Rightarrow> 'n \<Rightarrow> 'n list option"
  assumes find_chain: "find a b = Some c \<Longrightarrow>
      \<exists>p. c = a # p \<and> p \<noteq> [] \<and> last p = b \<and> successively rel c"
    and find_complete: "rel\<^sup>+\<^sup>+ a b \<Longrightarrow> find a b \<noteq> None"
begin

lemma chain_reaches: "successively rel (a # p) \<Longrightarrow> p \<noteq> [] \<Longrightarrow> rel\<^sup>+\<^sup>+ a (last p)"
proof (induction p arbitrary: a)
  case (Cons b p)
  then show ?case
    by (cases p) (auto intro: tranclp_into_tranclp2)
qed simp

lemma find_iff: "find a b \<noteq> None \<longleftrightarrow> rel\<^sup>+\<^sup>+ a b"
  using find_chain find_complete chain_reaches by (metis not_None_eq)

text \<open>A node lies on a cycle exactly when one of the nodes it reads finds its way back.\<close>

lemma on_cycle_iff: "rel\<^sup>+\<^sup>+ a a \<longleftrightarrow> (\<exists>b. rel a b \<and> (b = a \<or> find b a \<noteq> None))"
  unfolding find_iff by (metis tranclp.r_into_trancl tranclp_into_tranclp2 converse_tranclpE)

end

text \<open>
  The result of a walk: the seen nodes only grow; a chain found continues the trail; a failed walk
  has seen everything its new nodes read, none of which is the target.
\<close>

definition closed_new :: "dep_graph \<Rightarrow> dep_node \<Rightarrow> dep_node set \<Rightarrow> dep_node set \<Rightarrow> bool" where
  "closed_new g target S S' \<longleftrightarrow> (\<forall>k\<in>S' - S. \<forall>b. reads g k b \<longrightarrow> b \<noteq> target \<and> b \<in> S')"

lemma closed_new_refl [simp]: "closed_new g target S S"
  by (simp add: closed_new_def)

lemma closed_new_trans:
  "\<lbrakk>closed_new g target S S'; closed_new g target S' S''; S' \<subseteq> S''\<rbrakk> \<Longrightarrow> closed_new g target S S''"
  unfolding closed_new_def by blast

lemma closed_new_insert:
  "\<lbrakk>closed_new g target (insert k S) S'; \<And>b. reads g k b \<Longrightarrow> b \<noteq> target \<and> b \<in> S'\<rbrakk> \<Longrightarrow>
   closed_new g target S S'"
  unfolding closed_new_def by blast

inductive walk_ok ::
  "dep_graph \<Rightarrow> dep_node \<Rightarrow> dep_node list \<Rightarrow> dep_node list \<Rightarrow> dep_node set \<Rightarrow>
   (dep_node list \<Rightarrow> bool) \<Rightarrow> walk_result \<Rightarrow> bool"
  for g target trail seen must good where
  walk_failed: "\<lbrakk>set seen \<subseteq> set seen'; must \<subseteq> set seen'; closed_new g target (set seen) (set seen')\<rbrakk> \<Longrightarrow>
    walk_ok g target trail seen must good (Some (None, seen'))"
| walk_found: "\<lbrakk>set seen \<subseteq> set seen'; p \<noteq> []; last p = target; good p\<rbrakk> \<Longrightarrow>
    walk_ok g target trail seen must good (Some (Some (trail @ p), seen'))"

lemma walk_reads_ok:
  assumes f: "\<And>read trail seen. \<lbrakk>read \<in> U; card (U - set seen) < n\<rbrakk> \<Longrightarrow>
      walk_ok g target trail seen {read} (\<lambda>p. successively (reads g) (read # p)) (f read trail seen)"
    and "finite U"
  shows "\<lbrakk>set rs \<subseteq> U; card (U - set seen) < n\<rbrakk> \<Longrightarrow>
    walk_ok g target trail seen (set rs)
      (\<lambda>p. hd p \<in> set rs \<and> successively (reads g) p) (walk_reads f target rs trail seen) \<and>
    (target \<in> set rs \<longrightarrow> (\<forall>s. walk_reads f target rs trail seen \<noteq> Some (None, s)))"
proof (induction rs arbitrary: seen)
  case Nil
  then show ?case by (simp add: walk_failed)
next
  case (Cons r rs)
  show ?case
  proof (cases "r = target")
    case True
    then show ?thesis
      using walk_found [of seen seen "[r]" target _ g trail] by simp
  next
    case False
    have "walk_ok g target (trail @ [r]) seen {r} (\<lambda>p. successively (reads g) (r # p))
        (f r (trail @ [r]) seen)"
      using f Cons.prems by simp
    then show ?thesis
    proof cases
      case (walk_found s1 p)
      then have "walk_ok g target trail seen (set (r # rs))
          (\<lambda>p. hd p \<in> set (r # rs) \<and> successively (reads g) p) (Some (Some (trail @ (r # p)), s1))"
        by (intro walk_ok.walk_found) simp_all
      with walk_found False show ?thesis by simp
    next
      case (walk_failed s1)
      have "U - set s1 \<subseteq> U - set seen" using walk_failed(2) by blast
      then have "card (U - set s1) < n"
        using Cons.prems(2) \<open>finite U\<close> by (meson card_mono finite_Diff le_less_trans)
      with Cons have IH: "walk_ok g target trail s1 (set rs)
             (\<lambda>p. hd p \<in> set rs \<and> successively (reads g) p) (walk_reads f target rs trail s1)"
          "target \<in> set rs \<longrightarrow> (\<forall>s. walk_reads f target rs trail s1 \<noteq> Some (None, s))"
        by simp_all
      from IH(1) have "walk_ok g target trail seen (set (r # rs))
          (\<lambda>p. hd p \<in> set (r # rs) \<and> successively (reads g) p) (walk_reads f target rs trail s1)"
      proof cases
        case (walk_failed s2)
        with \<open>set seen \<subseteq> set s1\<close> \<open>{r} \<subseteq> set s1\<close> \<open>closed_new g target (set seen) (set s1)\<close>
        show ?thesis
          unfolding walk_failed(1)
          by (intro walk_ok.walk_failed) (auto intro: closed_new_trans)
      next
        case (walk_found s2 p)
        with \<open>set seen \<subseteq> set s1\<close> show ?thesis
          unfolding walk_found(1) by (intro walk_ok.walk_found) auto
      qed
      with IH(2) walk_failed False show ?thesis by simp
    qed
  qed
qed

lemma walk_ok:
  assumes "finite U" "set (all_nodes g) \<subseteq> U"
  shows "\<lbrakk>key \<in> U; card (U - set seen) < n\<rbrakk> \<Longrightarrow>
    walk_ok g target trail seen {key} (\<lambda>p. successively (reads g) (key # p))
      (walk n g target key trail seen)"
proof (induction n arbitrary: key trail seen)
  case (Suc n)
  show ?case
  proof (cases "key \<in> set seen")
    case True
    then show ?thesis by (simp add: walk_failed)
  next
    case False
    have sub: "set (edges_of g key) \<subseteq> U" using assms(2) edges_in_all_nodes by blast
    have "card (U - set (key # seen)) < card (U - set seen)"
      using False Suc.prems(1) assms(1) by (intro psubset_card_mono) auto
    with Suc.prems(2) have "card (U - set (key # seen)) < n" by simp
    from walk_reads_ok [OF Suc.IH assms(1) sub this]
    have ok: "walk_ok g target trail (key # seen) (set (edges_of g key))
        (\<lambda>p. hd p \<in> set (edges_of g key) \<and> successively (reads g) p)
        (walk_reads (walk n g target) target (edges_of g key) trail (key # seen))"
      and t: "target \<in> set (edges_of g key) \<longrightarrow>
        (\<forall>s. walk_reads (walk n g target) target (edges_of g key) trail (key # seen) \<noteq> Some (None, s))"
      by auto
    from ok have "walk_ok g target trail seen {key} (\<lambda>p. successively (reads g) (key # p))
        (walk_reads (walk n g target) target (edges_of g key) trail (key # seen))"
    proof cases
      case (walk_failed s1)
      with t have "target \<notin> set (edges_of g key)" by blast
      then have c: "closed_new g target (set seen) (set s1)"
        using walk_failed(3,4)
        by (intro closed_new_insert [of g target key "set seen"]) (auto simp: reads_def)
      show ?thesis
        unfolding walk_failed(1) by (rule walk_ok.walk_failed) (use walk_failed(2) c in auto)
    next
      case (walk_found s1 p)
      then have "successively (reads g) (key # p)" by (cases p) (auto simp: reads_def)
      with walk_found show ?thesis
        unfolding walk_found(1) by (intro walk_ok.walk_found) auto
    qed
    with False show ?thesis by simp
  qed
qed simp

text \<open>The code's fuel is enough: every nested call has seen one node more.\<close>

lemma graph_path_ok:
  "\<exists>found seen. walk (Suc (Suc (length (all_nodes g)))) g b a [a] [] = Some (found, seen) \<and>
     graph_path g a b = found \<and>
     walk_ok g b [a] [] {a} (\<lambda>p. successively (reads g) (a # p)) (Some (found, seen))"
proof -
  let ?U = "insert a (set (all_nodes g))"
  have "card ?U \<le> Suc (length (all_nodes g))"
    using card_length [of "all_nodes g"] by (simp add: card_insert_if)
  then have "card (?U - set []) < Suc (Suc (length (all_nodes g)))" by simp
  then have "walk_ok g b [a] [] {a} (\<lambda>p. successively (reads g) (a # p))
      (walk (Suc (Suc (length (all_nodes g)))) g b a [a] [])"
    by (intro walk_ok [of ?U]) auto
  then obtain found seen where
    w: "walk (Suc (Suc (length (all_nodes g)))) g b a [a] [] = Some (found, seen)"
      "walk_ok g b [a] [] {a} (\<lambda>p. successively (reads g) (a # p)) (Some (found, seen))"
    by (metis walk_ok.cases)
  then have "graph_path g a b = found" unfolding graph_path_def by simp
  with w show ?thesis by blast
qed

lemma graph_path_chain:
  "graph_path g a b = Some c \<Longrightarrow>
   \<exists>p. c = a # p \<and> p \<noteq> [] \<and> last p = b \<and> successively (reads g) c"
  using graph_path_ok [of g b a] by (auto elim: walk_ok.cases)

lemma graph_path_complete:
  assumes "(reads g)\<^sup>+\<^sup>+ a b"
  shows "graph_path g a b \<noteq> None"
proof
  assume "graph_path g a b = None"
  with graph_path_ok [of g b a] obtain seen where seen: "a \<in> set seen"
      "\<And>k x. k \<in> set seen \<Longrightarrow> reads g k x \<Longrightarrow> x \<noteq> b \<and> x \<in> set seen"
    by (auto simp: closed_new_def elim: walk_ok.cases)
  have "x \<noteq> b \<and> x \<in> set seen" if "(reads g)\<^sup>+\<^sup>+ a x" for x
    using that seen by (induction rule: tranclp_induct) blast+
  with assms show False by blast
qed

interpretation reads_path: chain_finder "reads g" "graph_path g" for g
  by unfold_locales (use graph_path_chain graph_path_complete in blast)+


section \<open>The readers of a change\<close>

definition deps_in :: "(dep_node \<times> dep_node list) list \<Rightarrow> dep_node \<Rightarrow> dep_node set" where
  "deps_in m k = (case map_of m k of None \<Rightarrow> {} | Some l \<Rightarrow> set l)"

lemma set_dependents_of: "set (dependents_of g k) = deps_in (g_dependents g) k"
  by (simp add: dependents_of_def deps_in_def split: option.splits)

lemma deps_in_add:
  "deps_in (add_dependents key rs m) k = deps_in m k \<union> (if k \<in> set rs then {key} else {})"
  by (induction key rs m rule: add_dependents.induct)
     (auto simp: deps_in_def assoc_simps split: option.splits)

lemma deps_in_fold:
  "deps_in (fold (\<lambda>(k, rs). add_dependents k rs) es m) k =
   deps_in m k \<union> {r. \<exists>rs. (r, rs) \<in> set es \<and> k \<in> set rs}"
  by (induction es arbitrary: m) (auto simp: deps_in_add split: if_splits)

lemma g_edges_build:
  "g_edges (build_graph defs) = map (\<lambda>(k, rs). (k, uniq rs)) (define_nodes [] defs)"
  by (simp add: build_graph_def Let_def)

lemma keys_of_edges: "map fst (g_edges (build_graph defs)) = g_keys (build_graph defs)"
  by (simp add: g_edges_build keys_build_graph comp_def case_prod_beta)

lemma edge_entry_iff:
  "(r, rs) \<in> set (g_edges (build_graph defs)) \<Longrightarrow> edges_of (build_graph defs) r = rs"
  using distinct_keys_build_graph [of defs]
  by (simp add: edges_of_def keys_of_edges [symmetric] del: distinct_keys_build_graph)

lemma set_dependents_build:
  "set (dependents_of (build_graph defs) k) = {r. reads (build_graph defs) r k}"
proof -
  let ?g = "build_graph defs"
  have "g_dependents ?g = fold (\<lambda>(k, rs). add_dependents k rs) (g_edges ?g) []"
    by (simp add: build_graph_def Let_def)
  then have "set (dependents_of ?g k) = {r. \<exists>rs. (r, rs) \<in> set (g_edges ?g) \<and> k \<in> set rs}"
    unfolding set_dependents_of by (simp add: deps_in_fold) (simp add: deps_in_def)
  also have "\<dots> = {r. reads ?g r k}"
  proof (intro set_eqI iffI CollectI; elim CollectE exE conjE)
    fix r rs assume "(r, rs) \<in> set (g_edges ?g)" "k \<in> set rs"
    then show "reads ?g r k" by (simp add: reads_def edge_entry_iff)
  next
    fix r assume r: "reads ?g r k"
    then obtain l where "map_of (g_edges ?g) r = Some l" "k \<in> set l"
      by (cases "map_of (g_edges ?g) r") (auto simp: reads_def edges_of_def)
    then show "\<exists>rs. (r, rs) \<in> set (g_edges ?g) \<and> k \<in> set rs" by (auto dest: map_of_SomeD)
  qed
  finally show ?thesis .
qed

lemma reach_readers_new:
  "\<exists>new. reach_readers rs reached queue = (reached @ new, queue @ new) \<and> distinct new \<and>
     set new = set rs - set reached"
proof (induction rs reached queue rule: reach_readers.induct)
  case (2 r rs reached queue)
  show ?case
  proof (cases "r \<in> set reached")
    case True
    with 2 show ?thesis by auto
  next
    case False
    with 2(2) obtain new where
      "reach_readers rs (reached @ [r]) (queue @ [r]) = ((reached @ [r]) @ new, (queue @ [r]) @ new)"
      "distinct new" "set new = set rs - set (reached @ [r])" by blast
    with False show ?thesis by (intro exI [of _ "r # new"]) auto
  qed
qed simp

text \<open>
  The loop ends within its fuel with every transitive reader: a node is queued at most once, and a
  node that has left the queue has all its readers reached.
\<close>

lemma reach_loop_ok:
  assumes "finite K" "\<And>k. set (dependents_of g k) \<subseteq> K"
  shows "\<lbrakk>length queue + card (K - set reached) \<le> n; distinct reached;
      \<And>k. k \<in> left \<Longrightarrow> set (dependents_of g k) \<subseteq> set reached;
      set reached \<subseteq> left \<union> set queue\<rbrakk> \<Longrightarrow>
    \<exists>r. reach_loop n g reached queue = Some r \<and> distinct r \<and>
      (\<forall>k\<in>left \<union> set queue \<union> set r. set (dependents_of g k) \<subseteq> set r)"
proof (induction n arbitrary: reached queue left)
  case 0
  then show ?case by (auto intro!: exI [of _ reached])
next
  case (Suc n)
  show ?case
  proof (cases queue)
    case Nil
    with Suc.prems show ?thesis by (auto intro!: exI [of _ reached])
  next
    case (Cons key rest)
    obtain new where new:
        "reach_readers (dependents_of g key) reached rest = (reached @ new, rest @ new)"
        "distinct new" "set new = set (dependents_of g key) - set reached"
      using reach_readers_new by blast
    have "card (K - set reached) = card ((K - set (reached @ new)) \<union> set new)"
      using new(3) assms(2) by (intro arg_cong [of _ _ card]) auto
    also have "\<dots> = card (K - set (reached @ new)) + card (set new)"
      using assms(1) by (intro card_Un_disjoint) auto
    finally have len: "length (rest @ new) + card (K - set (reached @ new)) \<le> n"
      using Suc.prems(1) Cons new(2) by (simp add: distinct_card)
    have "\<exists>r. reach_loop n g (reached @ new) (rest @ new) = Some r \<and> distinct r \<and>
        (\<forall>k\<in>insert key left \<union> set (rest @ new) \<union> set r. set (dependents_of g k) \<subseteq> set r)"
    proof (rule Suc.IH [OF len])
      show "distinct (reached @ new)" using Suc.prems(2) new(2,3) by auto
      show "set (dependents_of g k) \<subseteq> set (reached @ new)" if "k \<in> insert key left" for k
        using that Suc.prems(3) new(3) by auto
      show "set (reached @ new) \<subseteq> insert key left \<union> set (rest @ new)"
        using Suc.prems(4) Cons by auto
    qed
    with Cons new(1) show ?thesis by auto
  qed
qed

lemma reach_loop_sound:
  assumes "\<And>k x. Q k \<Longrightarrow> x \<in> set (dependents_of g k) \<Longrightarrow> P x" "\<And>x. P x \<Longrightarrow> Q x"
  shows "\<lbrakk>reach_loop n g reached queue = Some r; \<forall>k\<in>set queue. Q k; \<forall>x\<in>set reached. P x\<rbrakk> \<Longrightarrow>
    \<forall>x\<in>set r. P x"
proof (induction n arbitrary: reached queue)
  case 0
  then show ?case by (cases queue) auto
next
  case (Suc n)
  show ?case
  proof (cases queue)
    case (Cons key rest)
    obtain new where new:
        "reach_readers (dependents_of g key) reached rest = (reached @ new, rest @ new)"
        "set new = set (dependents_of g key) - set reached"
      using reach_readers_new by blast
    have n: "\<forall>x\<in>set new. P x" using new(2) assms(1) Suc.prems(2) Cons by auto
    show ?thesis
    proof (rule Suc.IH [of "reached @ new" "rest @ new"])
      show "reach_loop n g (reached @ new) (rest @ new) = Some r"
        using Suc.prems(1) Cons new(1) by simp
    qed (use n Suc.prems assms(2) Cons in auto)
  qed (use Suc.prems in auto)
qed

text \<open>The transitive readers of \<open>changed\<close>, each once.\<close>

lemma reached_readers:
  fixes defs
  defines "g \<equiv> build_graph defs"
  shows "\<exists>r. reach_loop (length changed + length (g_keys g)) g [] changed = Some r \<and> distinct r \<and>
     set r = {k. \<exists>c\<in>set changed. (reads g)\<^sup>+\<^sup>+ k c}"
proof -
  have deps: "set (dependents_of g k) = {r. reads g r k}" for k
    by (simp add: g_def set_dependents_build)
  have "set (dependents_of g k) \<subseteq> set (g_keys g)" for k
    unfolding deps using reads_defined [of defs] by (auto simp: g_def is_defined_def)
  moreover have "card (set (g_keys g) - set []) = length (g_keys g)"
    by (simp add: g_def distinct_card)
  ultimately obtain r where r: "reach_loop (length changed + length (g_keys g)) g [] changed = Some r"
      "distinct r" "\<forall>k\<in>{} \<union> set changed \<union> set r. set (dependents_of g k) \<subseteq> set r"
    using reach_loop_ok [of "set (g_keys g)" g changed "[]" "length changed + length (g_keys g)" "{}"]
    by auto
  have "x \<in> set r" if "(reads g)\<^sup>+\<^sup>+ x c" "c \<in> set changed" for x c
    using that by (induction rule: converse_tranclp_induct) (use r(3) deps in blast)+
  moreover have "\<forall>x\<in>set r. \<exists>c\<in>set changed. (reads g)\<^sup>+\<^sup>+ x c"
    by (rule reach_loop_sound [OF _ _ r(1),
          where Q = "\<lambda>k. k \<in> set changed \<or> (\<exists>c\<in>set changed. (reads g)\<^sup>+\<^sup>+ k c)"])
       (auto simp: deps intro: tranclp_into_tranclp2)
  ultimately show ?thesis using r by blast
qed


section \<open>The order puts what a definition reads before it\<close>

text \<open>
  The reads the order follows, and what it promises of a list: each node comes after every node it
  follows, unless that node leads back to it.
\<close>

definition follows :: "dep_graph \<Rightarrow> dep_node list \<Rightarrow> dep_node \<Rightarrow> dep_node \<Rightarrow> bool" where
  "follows g cyc a b \<longleftrightarrow> reads g a b \<and> is_defined g b \<and> b \<notin> set cyc"

fun ready_rev :: "('n \<Rightarrow> 'n \<Rightarrow> bool) \<Rightarrow> 'n list \<Rightarrow> bool" where
  "ready_rev R [] = True"
| "ready_rev R (x # xs) \<longleftrightarrow> ready_rev R xs \<and> (\<forall>y. R x y \<longrightarrow> y \<in> set xs \<or> R\<^sup>*\<^sup>* y x)"

definition ready :: "('n \<Rightarrow> 'n \<Rightarrow> bool) \<Rightarrow> 'n list \<Rightarrow> bool" where
  "ready R xs = ready_rev R (rev xs)"

lemma ready_Nil [simp]: "ready R []"
  by (simp add: ready_def)

lemma ready_snoc [simp]:
  "ready R (xs @ [x]) \<longleftrightarrow> ready R xs \<and> (\<forall>y. R x y \<longrightarrow> y \<in> set xs \<or> R\<^sup>*\<^sup>* y x)"
  by (simp add: ready_def)

lemma ready_before:
  "ready R xs \<Longrightarrow> i < length xs \<Longrightarrow> R (xs ! i) y \<Longrightarrow> \<not> R\<^sup>*\<^sup>* y (xs ! i) \<Longrightarrow> y \<in> set (take i xs)"
proof (induction xs arbitrary: i rule: rev_induct)
  case (snoc x xs)
  then show ?case by (cases "i = length xs") (auto simp: nth_append)
qed simp

text \<open>
  A visit from \<open>k\<close> while every visited node that is not in the order yet leads to \<open>k\<close>: it adds new
  nodes, \<open>k\<close> among them, and keeps the promise.
\<close>

definition visit_inv :: "dep_graph \<Rightarrow> dep_node list \<Rightarrow> visit_state \<Rightarrow> bool" where
  "visit_inv g cyc s \<longleftrightarrow>
     set (snd s) \<subseteq> set (fst s) \<and> distinct (snd s) \<and> ready (follows g cyc) (snd s) \<and>
     set (fst s) \<subseteq> {k. is_defined g k \<and> k \<notin> set cyc}"

definition visit_step :: "visit_state \<Rightarrow> visit_state \<Rightarrow> bool" where
  "visit_step s s' \<longleftrightarrow>
     set (fst s) \<subseteq> set (fst s') \<and> set (snd s) \<subseteq> set (snd s') \<and>
     set (fst s') - set (snd s') = set (fst s) - set (snd s)"

lemma visit_step_refl [simp]: "visit_step s s"
  by (simp add: visit_step_def)

lemma visit_step_trans: "visit_step s s' \<Longrightarrow> visit_step s' s'' \<Longrightarrow> visit_step s s''"
  by (auto simp: visit_step_def)

lemma visit_reads_ok:
  assumes "finite K"
    and f: "\<And>k s. \<lbrakk>k \<in> K; k \<notin> set cyc; card (K - set (fst s)) < n; visit_inv g cyc s;
        \<forall>x\<in>set (fst s) - set (snd s). (follows g cyc)\<^sup>*\<^sup>* x k\<rbrakk> \<Longrightarrow>
      \<exists>s'. f k s = Some s' \<and> visit_inv g cyc s' \<and> visit_step s s' \<and> k \<in> set (fst s')"
  shows "\<lbrakk>\<And>r. is_defined g r \<Longrightarrow> r \<in> K; card (K - set (fst s)) < n; visit_inv g cyc s;
      \<forall>x\<in>set (fst s) - set (snd s). \<forall>r\<in>set rs. is_defined g r \<longrightarrow> r \<notin> set cyc \<longrightarrow>
        (follows g cyc)\<^sup>*\<^sup>* x r\<rbrakk> \<Longrightarrow>
    \<exists>s'. visit_reads f g cyc rs s = Some s' \<and> visit_inv g cyc s' \<and> visit_step s s' \<and>
      (\<forall>r\<in>set rs. is_defined g r \<and> r \<notin> set cyc \<longrightarrow> r \<in> set (fst s'))"
proof (induction rs arbitrary: s)
  case Nil
  then show ?case by simp
next
  case (Cons r rs)
  show ?case
  proof (cases "is_defined g r \<and> r \<notin> set cyc")
    case True
    with f [of r s] Cons.prems obtain s1 where
      s1: "f r s = Some s1" "visit_inv g cyc s1" "visit_step s s1" "r \<in> set (fst s1)"
      by auto
    have "K - set (fst s1) \<subseteq> K - set (fst s)" using s1(3) by (auto simp: visit_step_def)
    then have "card (K - set (fst s1)) < n"
      using Cons.prems(2) assms(1) by (meson card_mono finite_Diff le_less_trans)
    moreover have "\<forall>x\<in>set (fst s1) - set (snd s1). \<forall>r\<in>set rs. is_defined g r \<longrightarrow> r \<notin> set cyc \<longrightarrow>
        (follows g cyc)\<^sup>*\<^sup>* x r"
      using Cons.prems(4) s1(3) by (auto simp: visit_step_def)
    ultimately obtain s2 where s2: "visit_reads f g cyc rs s1 = Some s2" "visit_inv g cyc s2"
        "visit_step s1 s2" "\<forall>r\<in>set rs. is_defined g r \<and> r \<notin> set cyc \<longrightarrow> r \<in> set (fst s2)"
      using Cons.IH [of s1] Cons.prems(1) s1(2) by blast
    have "r \<in> set (fst s2)" using s1(4) s2(3) by (auto simp: visit_step_def)
    with True s1 s2 visit_step_trans show ?thesis by (intro exI [of _ s2]) auto
  next
    case False
    with Cons.IH [of s] Cons.prems show ?thesis by auto
  qed
qed

lemma visit_ok:
  assumes "finite {r. is_defined g r}"
  shows "\<lbrakk>is_defined g k; k \<notin> set cyc; card ({r. is_defined g r} - set (fst s)) < n; visit_inv g cyc s;
      \<forall>x\<in>set (fst s) - set (snd s). (follows g cyc)\<^sup>*\<^sup>* x k\<rbrakk> \<Longrightarrow>
    \<exists>s'. visit n g cyc k s = Some s' \<and> visit_inv g cyc s' \<and> visit_step s s' \<and> k \<in> set (fst s')"
proof (induction n arbitrary: k s)
  case (Suc n)
  let ?K = "{r. is_defined g r}"
  show ?case
  proof (cases "k \<in> set (fst s)")
    case True
    with Suc.prems show ?thesis by auto
  next
    case False
    let ?s0 = "(k # fst s, snd s)"
    have inv0: "visit_inv g cyc ?s0" using Suc.prems by (auto simp: visit_inv_def)
    have "card (?K - set (fst ?s0)) < card (?K - set (fst s))"
      using False Suc.prems(1) assms by (intro psubset_card_mono) auto
    with Suc.prems(3) have c: "card (?K - set (fst ?s0)) < n" by simp
    have gray: "\<forall>x\<in>set (fst ?s0) - set (snd ?s0). (follows g cyc)\<^sup>*\<^sup>* x k"
      using Suc.prems(5) by auto
    have lead: "\<forall>x\<in>set (fst ?s0) - set (snd ?s0). \<forall>r\<in>set (edges_of g k). is_defined g r \<longrightarrow>
        r \<notin> set cyc \<longrightarrow> (follows g cyc)\<^sup>*\<^sup>* x r"
    proof (intro ballI impI)
      fix x r assume "x \<in> set (fst ?s0) - set (snd ?s0)" "r \<in> set (edges_of g k)"
          "is_defined g r" "r \<notin> set cyc"
      with gray have "(follows g cyc)\<^sup>*\<^sup>* x k" "follows g cyc k r"
        by (auto simp: follows_def reads_def)
      then show "(follows g cyc)\<^sup>*\<^sup>* x r" by simp
    qed
    obtain s1 where s1: "visit_reads (visit n g cyc) g cyc (edges_of g k) ?s0 = Some s1"
        "visit_inv g cyc s1" "visit_step ?s0 s1"
        "\<forall>r\<in>set (edges_of g k). is_defined g r \<and> r \<notin> set cyc \<longrightarrow> r \<in> set (fst s1)"
      using visit_reads_ok [of ?K cyc n g "visit n g cyc" ?s0, OF assms _ _ c inv0 lead] Suc.IH
      by auto
    obtain v1 o1 where p: "s1 = (v1, o1)" by fastforce
    have k1: "k \<in> set v1" "k \<notin> set o1"
      using s1(3) False Suc.prems(4) p by (auto simp: visit_step_def visit_inv_def)
    have "\<forall>y. follows g cyc k y \<longrightarrow> y \<in> set o1 \<or> (follows g cyc)\<^sup>*\<^sup>* y k"
    proof (intro allI impI)
      fix y assume "follows g cyc k y"
      then have "y \<in> set v1" using s1(4) p by (auto simp: follows_def reads_def)
      moreover have "y \<in> set (fst ?s0) - set (snd ?s0)" if "y \<notin> set o1"
        using that \<open>y \<in> set v1\<close> s1(3) p by (auto simp: visit_step_def)
      ultimately show "y \<in> set o1 \<or> (follows g cyc)\<^sup>*\<^sup>* y k" using gray by blast
    qed
    then have "visit_inv g cyc (v1, o1 @ [k])"
      using s1(2) k1 p by (auto simp: visit_inv_def)
    moreover have "visit_step s (v1, o1 @ [k])"
    proof -
      have "set v1 - set (o1 @ [k]) = (set v1 - set o1) - {k}" by auto
      also have "set v1 - set o1 = insert k (set (fst s)) - set (snd s)"
        using s1(3) p by (simp add: visit_step_def)
      finally have "set v1 - set (o1 @ [k]) = set (fst s) - set (snd s)" using False by auto
      then show ?thesis using s1(3) p by (auto simp: visit_step_def)
    qed
    ultimately show ?thesis using s1(1) p False k1 by simp
  qed
qed simp

text \<open>
  The order: every definition outside the reported cycles, once, each after what it follows unless
  that leads back to it.
\<close>

lemma graph_order_ok:
  fixes defs
  defines "g \<equiv> build_graph defs"
  shows "distinct (graph_order g) \<and> ready (follows g (cyclic_nodes g)) (graph_order g) \<and>
     set (graph_order g) = {k. is_defined g k \<and> k \<notin> set (cyclic_nodes g)}"
proof -
  let ?cyc = "cyclic_nodes g" and ?K = "{r. is_defined g r}"
  have K: "?K = set (g_keys g)" by (auto simp: is_defined_def)
  then have fin: "finite ?K" by simp
  have c: "card (?K - set (fst ([], []))) < Suc (length (g_keys g))"
    unfolding K by (simp add: le_imp_less_Suc card_length)
  have "\<exists>s'. visit_reads (visit (Suc (length (g_keys g))) g ?cyc) g ?cyc (g_keys g) ([], []) = Some s' \<and>
      visit_inv g ?cyc s' \<and> visit_step ([], []) s' \<and>
      (\<forall>r\<in>set (g_keys g). is_defined g r \<and> r \<notin> set ?cyc \<longrightarrow> r \<in> set (fst s'))"
    by (rule visit_reads_ok [OF fin, where n = "Suc (length (g_keys g))"])
       (use visit_ok [OF fin] c in \<open>auto simp: visit_inv_def [of g ?cyc "([], [])"] simp del: visit.simps\<close>)
  then obtain v ord where s: "visit_reads (visit (Suc (length (g_keys g))) g ?cyc) g ?cyc (g_keys g)
        ([], []) = Some (v, ord)" "visit_inv g ?cyc (v, ord)" "visit_step ([], []) (v, ord)"
      "\<forall>r\<in>set (g_keys g). is_defined g r \<and> r \<notin> set ?cyc \<longrightarrow> r \<in> set v"
    by auto
  then have o: "graph_order g = ord" by (simp add: graph_order_def)
  have "set ord = set v" using s(2,3) by (auto simp: visit_inv_def visit_step_def)
  with s(2,4) o K show ?thesis by (auto simp: visit_inv_def)
qed

end
