(* ===== verification/Formula_Cycles.thy ===== *)
theory Formula_Cycles
  imports Formula_Graph
begin

text \<open>
  The strongly connected components of \<open>graph.ts\<close> are correct: \<open>connect\<close> ends within its fuel, and
  the components it leaves are exactly the classes of definitions that reach each other.  So the
  reported cycles hold exactly the definitions that read themselves, and the evaluation order puts
  every other definition after everything it reads.
\<close>

section \<open>States\<close>

definition edge :: "dep_graph \<Rightarrow> dep_node \<Rightarrow> dep_node \<Rightarrow> bool" where
  "edge g a b \<longleftrightarrow> reads g a b \<and> is_defined g b"

definition seen_nodes :: "tarjan \<Rightarrow> dep_node set" where
  "seen_nodes s = fst ` set (t_index s)"

definition closed_nodes :: "tarjan \<Rightarrow> dep_node set" where
  "closed_nodes s = \<Union> (set ` set (t_components s))"

definition same_component :: "dep_graph \<Rightarrow> dep_node \<Rightarrow> dep_node \<Rightarrow> bool" where
  "same_component g a b \<longleftrightarrow> (edge g)\<^sup>*\<^sup>* a b \<and> (edge g)\<^sup>*\<^sup>* b a"

lemma seen_iff: "map_of (t_index s) k = None \<longleftrightarrow> k \<notin> seen_nodes s"
  by (simp add: seen_nodes_def map_of_eq_None_iff)

lemma push_simps [simp]:
  "t_stack (push_node k s) = k # t_stack s" "t_on_stack (push_node k s) = k # t_on_stack s"
  "t_components (push_node k s) = t_components s" "t_counter (push_node k s) = Suc (t_counter s)"
  "seen_nodes (push_node k s) = insert k (seen_nodes s)"
  "closed_nodes (push_node k s) = closed_nodes s"
  "index_of_node (push_node k s) x = (if x = k then t_counter s else index_of_node s x)"
  "low_of (push_node k s) x = (if x = k then t_counter s else low_of s x)"
  by (simp_all add: push_node_def seen_nodes_def closed_nodes_def index_of_node_def low_of_def
      assoc_simps)

lemma lower_simps [simp]:
  "t_stack (lower_link k n s) = t_stack s" "t_on_stack (lower_link k n s) = t_on_stack s"
  "t_components (lower_link k n s) = t_components s" "t_counter (lower_link k n s) = t_counter s"
  "seen_nodes (lower_link k n s) = seen_nodes s" "closed_nodes (lower_link k n s) = closed_nodes s"
  "index_of_node (lower_link k n s) x = index_of_node s x"
  "low_of (lower_link k n s) x = (if x = k then min (low_of s k) n else low_of s x)"
  by (simp_all add: lower_link_def seen_nodes_def closed_nodes_def index_of_node_def low_of_def
      assoc_simps)

text \<open>
  The invariant of the search, with the set of nodes whose call has not returned: the stack is in
  the order of discovery, each of its nodes reaches those above it and some open call below it; the
  closed components are classes, and nothing leads out of them.
\<close>

definition tarjan_inv :: "dep_graph \<Rightarrow> dep_node set \<Rightarrow> tarjan \<Rightarrow> bool" where
  "tarjan_inv g calls s \<longleftrightarrow>
     (set (t_on_stack s) = set (t_stack s) \<and> distinct (t_stack s) \<and>
      seen_nodes s = set (t_stack s) \<union> closed_nodes s \<and> set (t_stack s) \<inter> closed_nodes s = {}) \<and>
     sorted_wrt (\<lambda>x y. index_of_node s y < index_of_node s x) (t_stack s) \<and>
     (\<forall>x\<in>seen_nodes s. index_of_node s x < t_counter s \<and> is_defined g x) \<and>
     (\<forall>x\<in>closed_nodes s. \<forall>y. edge g x y \<longrightarrow> y \<in> closed_nodes s) \<and>
     (\<forall>c\<in>set (t_components s). distinct c \<and> (\<exists>k\<in>set c. set c = {x. same_component g k x})) \<and>
     (\<forall>x\<in>set (t_stack s). \<forall>y\<in>set (t_stack s). index_of_node s x \<le> index_of_node s y \<longrightarrow>
        (edge g)\<^sup>*\<^sup>* x y) \<and>
     calls \<subseteq> set (t_stack s) \<and>
     (\<forall>x\<in>set (t_stack s). \<exists>o'\<in>calls. index_of_node s o' \<le> index_of_node s x \<and> (edge g)\<^sup>*\<^sup>* x o') \<and>
     (\<forall>x\<in>set (t_stack s). \<forall>y. x \<notin> calls \<longrightarrow> edge g x y \<longrightarrow> y \<in> seen_nodes s)"

lemma tarjan_invD:
  assumes "tarjan_inv g calls s"
  shows "set (t_on_stack s) = set (t_stack s)" "distinct (t_stack s)"
    "seen_nodes s = set (t_stack s) \<union> closed_nodes s" "set (t_stack s) \<inter> closed_nodes s = {}"
    "sorted_wrt (\<lambda>x y. index_of_node s y < index_of_node s x) (t_stack s)"
    "x \<in> seen_nodes s \<Longrightarrow> index_of_node s x < t_counter s"
    "x \<in> seen_nodes s \<Longrightarrow> is_defined g x"
    "x \<in> closed_nodes s \<Longrightarrow> edge g x y \<Longrightarrow> y \<in> closed_nodes s"
    "c \<in> set (t_components s) \<Longrightarrow> distinct c \<and> (\<exists>k\<in>set c. set c = {x. same_component g k x})"
    "\<lbrakk>x \<in> set (t_stack s); y \<in> set (t_stack s); index_of_node s x \<le> index_of_node s y\<rbrakk> \<Longrightarrow>
      (edge g)\<^sup>*\<^sup>* x y"
    "o' \<in> calls \<Longrightarrow> o' \<in> set (t_stack s)"
    "x \<in> set (t_stack s) \<Longrightarrow>
      \<exists>o'\<in>calls. index_of_node s o' \<le> index_of_node s x \<and> (edge g)\<^sup>*\<^sup>* x o'"
    "\<lbrakk>x \<in> set (t_stack s); x \<notin> calls; edge g x y\<rbrakk> \<Longrightarrow> y \<in> seen_nodes s"
  using assms unfolding tarjan_inv_def by (elim conjE; (assumption | blast))+

lemma tarjan_invI:
  assumes "set (t_on_stack s) = set (t_stack s)" "distinct (t_stack s)"
    "seen_nodes s = set (t_stack s) \<union> closed_nodes s" "set (t_stack s) \<inter> closed_nodes s = {}"
    "sorted_wrt (\<lambda>x y. index_of_node s y < index_of_node s x) (t_stack s)"
    "\<And>x. x \<in> seen_nodes s \<Longrightarrow> index_of_node s x < t_counter s"
    "\<And>x. x \<in> seen_nodes s \<Longrightarrow> is_defined g x"
    "\<And>x y. x \<in> closed_nodes s \<Longrightarrow> edge g x y \<Longrightarrow> y \<in> closed_nodes s"
    "\<And>c. c \<in> set (t_components s) \<Longrightarrow> distinct c \<and> (\<exists>k\<in>set c. set c = {x. same_component g k x})"
    "\<And>x y. \<lbrakk>x \<in> set (t_stack s); y \<in> set (t_stack s); index_of_node s x \<le> index_of_node s y\<rbrakk> \<Longrightarrow>
      (edge g)\<^sup>*\<^sup>* x y"
    "\<And>o'. o' \<in> calls \<Longrightarrow> o' \<in> set (t_stack s)"
    "\<And>x. x \<in> set (t_stack s) \<Longrightarrow>
      \<exists>o'\<in>calls. index_of_node s o' \<le> index_of_node s x \<and> (edge g)\<^sup>*\<^sup>* x o'"
    "\<And>x y. \<lbrakk>x \<in> set (t_stack s); x \<notin> calls; edge g x y\<rbrakk> \<Longrightarrow> y \<in> seen_nodes s"
  shows "tarjan_inv g calls s"
  using assms by (simp add: tarjan_inv_def subset_iff)

lemma tarjan_inv_lower [simp]: "tarjan_inv g calls (lower_link k n s) = tarjan_inv g calls s"
  by (simp add: tarjan_inv_def)

text \<open>What a call leaves alone: nodes seen before it keep their numbers and their place.\<close>

definition extends :: "tarjan \<Rightarrow> tarjan \<Rightarrow> dep_node list \<Rightarrow> bool" where
  "extends s s' new \<longleftrightarrow>
     t_stack s' = new @ t_stack s \<and> seen_nodes s \<subseteq> seen_nodes s' \<and>
     closed_nodes s \<subseteq> closed_nodes s' \<and> t_counter s \<le> t_counter s' \<and>
     (\<forall>x\<in>seen_nodes s. index_of_node s' x = index_of_node s x \<and> low_of s' x = low_of s x) \<and>
     (\<forall>x\<in>seen_nodes s' - seen_nodes s. t_counter s \<le> index_of_node s' x)"

lemma extends_refl [simp]: "extends s s []"
  by (simp add: extends_def)

lemma extends_trans:
  "extends s s' new \<Longrightarrow> extends s' s'' new' \<Longrightarrow> extends s s'' (new' @ new)"
  unfolding extends_def by (auto; (metis DiffI le_trans)?)

lemma pop_until_prefix:
  "k \<notin> set new \<Longrightarrow> pop_until k (new @ k # rest) = (new @ [k], rest)"
  by (induction new) auto


lemma tarjan_inv_push:
  assumes inv: "tarjan_inv g calls s" and k: "k \<notin> seen_nodes s" "is_defined g k"
    and to_k: "\<forall>o'\<in>calls. (edge g)\<^sup>*\<^sup>* o' k"
  shows "tarjan_inv g (insert k calls) (push_node k s)"
proof -
  note D = tarjan_invD [OF inv]
  have kn: "k \<notin> set (t_stack s)" "k \<notin> closed_nodes s" using D(3) k by auto
  have idx: "index_of_node s x < t_counter s" if "x \<in> set (t_stack s)" for x
    using D(3) D(6) that by blast
  have reach: "(edge g)\<^sup>*\<^sup>* x k" if "x \<in> set (t_stack s)" for x
    using D(12) [OF that] to_k by (meson rtranclp_trans)
  have ne: "x \<noteq> k" if "x \<in> set (t_stack s)" for x using that kn by auto
  show ?thesis
  proof (rule tarjan_invI; unfold push_simps)
    have "sorted_wrt (\<lambda>x y. (if y = k then t_counter s else index_of_node s y)
          < (if x = k then t_counter s else index_of_node s x)) (t_stack s)"
      by (rule sorted_wrt_mono_rel [OF _ D(5)]) (use ne in auto)
    with idx ne show "sorted_wrt (\<lambda>x y. (if y = k then t_counter s else index_of_node s y)
          < (if x = k then t_counter s else index_of_node s x)) (k # t_stack s)" by simp
    show "(edge g)\<^sup>*\<^sup>* x y"
      if "x \<in> set (k # t_stack s)" "y \<in> set (k # t_stack s)"
        "(if x = k then t_counter s else index_of_node s x) \<le>
         (if y = k then t_counter s else index_of_node s y)" for x y
    proof (cases "y = k")
      case True
      with that(1) reach show ?thesis by auto
    next
      case False
      with that(2) have y: "y \<in> set (t_stack s)" by simp
      with that(3) idx [OF y] False have "x \<noteq> k" by (auto split: if_splits)
      with that y False show ?thesis by (intro D(10)) auto
    qed
    show "\<exists>o'\<in>insert k calls. (if o' = k then t_counter s else index_of_node s o') \<le>
        (if x = k then t_counter s else index_of_node s x) \<and> (edge g)\<^sup>*\<^sup>* x o'"
      if x: "x \<in> set (k # t_stack s)" for x
    proof (cases "x = k")
      case False
      with x have "x \<in> set (t_stack s)" by simp
      from D(12) [OF this] D(11) obtain o' where "o' \<in> calls"
          "index_of_node s o' \<le> index_of_node s x" "(edge g)\<^sup>*\<^sup>* x o'" "o' \<in> set (t_stack s)"
        by blast
      with False ne show ?thesis by (intro bexI [of _ o']) auto
    qed auto
    show "(if x = k then t_counter s else index_of_node s x) < Suc (t_counter s)"
      if "x \<in> insert k (seen_nodes s)" for x
      using that D(6) by (auto intro: less_SucI)
    show "c \<in> set (t_components s) \<Longrightarrow> distinct c \<and> (\<exists>k\<in>set c. set c = {x. same_component g k x})" for c
      by (rule D(9))
    show "y \<in> insert k (seen_nodes s)"
      if "x \<in> set (k # t_stack s)" "x \<notin> insert k calls" "edge g x y" for x y
      using that D(13) by auto
    show "y \<in> closed_nodes s" if "x \<in> closed_nodes s" "edge g x y" for x y
      using that by (rule D(8))
    show "is_defined g x" if "x \<in> insert k (seen_nodes s)" for x
      using that k D(7) by auto
    show "o' \<in> set (k # t_stack s)" if "o' \<in> insert k calls" for o'
      using that D(11) by auto
  qed (use D(1-4) kn in auto)
qed

text \<open>The state in the loop over what \<open>k\<close> reads, relative to the state before the call of \<open>k\<close>.\<close>

definition loop_inv ::
  "dep_graph \<Rightarrow> dep_node set \<Rightarrow> dep_node \<Rightarrow> tarjan \<Rightarrow> tarjan \<Rightarrow> dep_node list \<Rightarrow> dep_node set \<Rightarrow> bool" where
  "loop_inv g calls k old s new read_so_far \<longleftrightarrow>
     tarjan_inv g (insert k calls) s \<and> extends old s (new @ [k]) \<and>
     index_of_node s k = t_counter old \<and> low_of s k \<le> index_of_node s k \<and>
     (\<exists>y\<in>set (t_stack s). index_of_node s y = low_of s k \<and> (edge g)\<^sup>*\<^sup>* k y) \<and>
     (\<forall>x\<in>set new. \<forall>y\<in>set (t_stack old). edge g x y \<longrightarrow> low_of s k \<le> index_of_node s y) \<and>
     (\<forall>r\<in>read_so_far. is_defined g r \<longrightarrow>
        r \<in> seen_nodes s \<and> (r \<in> set (t_stack s) \<longrightarrow> low_of s k \<le> index_of_node s r))"

text \<open>What a finished call of \<open>r\<close> leaves.\<close>

definition call_ok ::
  "dep_graph \<Rightarrow> dep_node set \<Rightarrow> tarjan \<Rightarrow> dep_node \<Rightarrow> tarjan \<Rightarrow> bool" where
  "call_ok g calls s r s' \<longleftrightarrow>
     tarjan_inv g calls s' \<and> r \<in> seen_nodes s' \<and>
     (\<exists>new. extends s s' new \<and>
        (\<forall>x\<in>set new. \<forall>y\<in>set (t_stack s). edge g x y \<longrightarrow> low_of s' r \<le> index_of_node s' y)) \<and>
     low_of s' r \<le> index_of_node s' r \<and>
     (if r \<in> set (t_stack s')
      then \<exists>y\<in>set (t_stack s'). index_of_node s' y = low_of s' r \<and> (edge g)\<^sup>*\<^sup>* r y
      else low_of s' r = index_of_node s' r)"

lemma loop_start:
  assumes "tarjan_inv g calls s" "k \<notin> seen_nodes s" "is_defined g k" "\<forall>o'\<in>calls. (edge g)\<^sup>*\<^sup>* o' k"
  shows "loop_inv g calls k s (push_node k s) [] {}"
  using assms tarjan_inv_push [OF assms]
  by (auto simp: loop_inv_def extends_def)

lemma loop_invD:
  assumes "loop_inv g calls k old s new R"
  shows "tarjan_inv g (insert k calls) s" "extends old s (new @ [k])"
    "index_of_node s k = t_counter old" "low_of s k \<le> index_of_node s k"
    "\<exists>y\<in>set (t_stack s). index_of_node s y = low_of s k \<and> (edge g)\<^sup>*\<^sup>* k y"
    "\<lbrakk>x \<in> set new; y \<in> set (t_stack old); edge g x y\<rbrakk> \<Longrightarrow> low_of s k \<le> index_of_node s y"
    "r \<in> R \<Longrightarrow> is_defined g r \<Longrightarrow> r \<in> seen_nodes s"
    "r \<in> R \<Longrightarrow> is_defined g r \<Longrightarrow> r \<in> set (t_stack s) \<Longrightarrow> low_of s k \<le> index_of_node s r"
  using assms by (simp_all add: loop_inv_def)

lemma loop_invI:
  assumes "tarjan_inv g (insert k calls) s" "extends old s (new @ [k])"
    "index_of_node s k = t_counter old" "low_of s k \<le> index_of_node s k"
    "\<exists>y\<in>set (t_stack s). index_of_node s y = low_of s k \<and> (edge g)\<^sup>*\<^sup>* k y"
    "\<And>x y. \<lbrakk>x \<in> set new; y \<in> set (t_stack old); edge g x y\<rbrakk> \<Longrightarrow> low_of s k \<le> index_of_node s y"
    "\<And>r. r \<in> R \<Longrightarrow> is_defined g r \<Longrightarrow>
      r \<in> seen_nodes s \<and> (r \<in> set (t_stack s) \<longrightarrow> low_of s k \<le> index_of_node s r)"
  shows "loop_inv g calls k old s new R"
  using assms by (simp add: loop_inv_def)

lemma extends_lower:
  "extends old s new \<Longrightarrow> k \<notin> seen_nodes old \<Longrightarrow> extends old (lower_link k n s) new"
  by (auto simp: extends_def)

text \<open>A read of a node that has a number already.\<close>

lemma loop_seen:
  assumes l: "loop_inv g calls k old s new R" and r: "r \<in> seen_nodes s" "edge g k r"
    and k: "k \<notin> seen_nodes old"
  shows "loop_inv g calls k old
      (if r \<in> set (t_on_stack s) then lower_link k (index_of_node s r) s else s) new (insert r R)"
proof (cases "r \<in> set (t_stack s)")
  case True
  let ?s = "lower_link k (index_of_node s r) s"
  have "loop_inv g calls k old ?s new (insert r R)"
  proof (rule loop_invI)
    show "extends old ?s (new @ [k])" using loop_invD(2) [OF l] k by (rule extends_lower)
    show "\<exists>y\<in>set (t_stack ?s). index_of_node ?s y = low_of ?s k \<and> (edge g)\<^sup>*\<^sup>* k y"
    proof (cases "index_of_node s r \<le> low_of s k")
      case le: True
      have "(edge g)\<^sup>*\<^sup>* k r" using r(2) by blast
      with True le show ?thesis by auto
    next
      case False
      then have "min (low_of s k) (index_of_node s r) = low_of s k" by simp
      with loop_invD(5) [OF l] show ?thesis by simp
    qed
    show "low_of ?s k \<le> index_of_node ?s y"
      if "x \<in> set new" "y \<in> set (t_stack old)" "edge g x y" for x y
      using loop_invD(6) [OF l that] by simp
    show "q \<in> seen_nodes ?s \<and> (q \<in> set (t_stack ?s) \<longrightarrow> low_of ?s k \<le> index_of_node ?s q)"
      if "q \<in> insert r R" "is_defined g q" for q
      using that r(1) loop_invD(7,8) [OF l, of q] by (auto intro: min.coboundedI1)
  qed (use loop_invD(1,3,4) [OF l] in auto)
  with True tarjan_invD(1) [OF loop_invD(1) [OF l]] show ?thesis by simp
next
  case False
  then have "r \<notin> set (t_on_stack s)" using tarjan_invD(1) [OF loop_invD(1) [OF l]] by simp
  moreover have "loop_inv g calls k old s new (insert r R)"
    by (rule loop_invI) (use loop_invD [OF l] r False in auto)
  ultimately show ?thesis by simp
qed

text \<open>A read of a new node, after its call.\<close>

lemma loop_called:
  assumes l: "loop_inv g calls k old s new R" and c: "call_ok g (insert k calls) s r s'"
    and r: "r \<notin> seen_nodes s" "edge g k r" and k: "k \<notin> seen_nodes old"
  shows "\<exists>new'. loop_inv g calls k old (lower_link k (low_of s' r) s') new' (insert r R)"
proof -
  let ?s = "lower_link k (low_of s' r) s'"
  from c obtain more where inv: "tarjan_inv g (insert k calls) s'" and r': "r \<in> seen_nodes s'"
    and ext: "extends s s' more"
    and more: "\<And>x y. \<lbrakk>x \<in> set more; y \<in> set (t_stack s); edge g x y\<rbrakk> \<Longrightarrow> low_of s' r \<le> index_of_node s' y"
    and low: "low_of s' r \<le> index_of_node s' r"
    and on: "r \<in> set (t_stack s') \<Longrightarrow>
        \<exists>y\<in>set (t_stack s'). index_of_node s' y = low_of s' r \<and> (edge g)\<^sup>*\<^sup>* r y"
    and off: "r \<notin> set (t_stack s') \<Longrightarrow> low_of s' r = index_of_node s' r"
    by (auto simp: call_ok_def split: if_splits)
  have ks: "k \<in> seen_nodes s" "k \<in> set (t_stack s)"
    using loop_invD(2) [OF l] tarjan_invD(3) [OF loop_invD(1) [OF l]] by (auto simp: extends_def)
  have same: "index_of_node s' x = index_of_node s x" "low_of s' x = low_of s x"
    if "x \<in> seen_nodes s" for x using ext that by (auto simp: extends_def)
  have stack: "t_stack s' = more @ t_stack s" "t_stack s = new @ k # t_stack old"
    using ext loop_invD(2) [OF l] by (auto simp: extends_def)
  have in_seen: "x \<in> seen_nodes s" if "x \<in> set (t_stack s)" for x
    using that tarjan_invD(3) [OF loop_invD(1) [OF l]] by auto
  have newr: "index_of_node s k < index_of_node s' r"
    using ext r(1) r' tarjan_invD(6) [OF loop_invD(1) [OF l] ks(1)] by (force simp: extends_def)
  have lowk: "low_of ?s k = min (low_of s k) (low_of s' r)" using same(2) [OF ks(1)] by simp
  have kr: "(edge g)\<^sup>*\<^sup>* k r" using r(2) by blast
  have "loop_inv g calls k old ?s (more @ new) (insert r R)"
  proof (rule loop_invI)
    show "extends old ?s ((more @ new) @ [k])"
      using extends_lower [OF extends_trans [OF loop_invD(2) [OF l] ext] k] by simp
    show "index_of_node ?s k = t_counter old" using loop_invD(3) [OF l] same ks by simp
    show "low_of ?s k \<le> index_of_node ?s k"
      using loop_invD(4) [OF l] same ks by (simp add: min.coboundedI1)
    show "\<exists>y\<in>set (t_stack ?s). index_of_node ?s y = low_of ?s k \<and> (edge g)\<^sup>*\<^sup>* k y"
    proof (cases "low_of s' r < low_of s k")
      case True
      then have "low_of s' r \<noteq> index_of_node s' r" using newr loop_invD(4) [OF l] by linarith
      then obtain y where "y \<in> set (t_stack s')" "index_of_node s' y = low_of s' r" "(edge g)\<^sup>*\<^sup>* r y"
        using on off by blast
      with True kr lowk show ?thesis by (auto intro: rtranclp_trans)
    next
      case False
      obtain y where "y \<in> set (t_stack s)" "index_of_node s y = low_of s k" "(edge g)\<^sup>*\<^sup>* k y"
        using loop_invD(5) [OF l] by blast
      moreover from this have "index_of_node s' y = index_of_node s y" using same(1) in_seen by blast
      ultimately show ?thesis using False lowk stack(1) by (intro bexI [of _ y]) simp_all
    qed
    show "low_of ?s k \<le> index_of_node ?s y"
      if "x \<in> set (more @ new)" "y \<in> set (t_stack old)" "edge g x y" for x y
    proof -
      have y: "y \<in> set (t_stack s)" using that(2) stack(2) by simp
      from that(1) show ?thesis
      proof (cases "x \<in> set more")
        case True
        with more [OF True y that(3)] lowk show ?thesis by (simp add: min.coboundedI2)
      next
        case False
        with that(1) have "x \<in> set new" by simp
        from loop_invD(6) [OF l this that(2,3)] lowk same(1) in_seen y show ?thesis
          by (simp add: min.coboundedI1)
      qed
    qed
    show "q \<in> seen_nodes ?s \<and> (q \<in> set (t_stack ?s) \<longrightarrow> low_of ?s k \<le> index_of_node ?s q)"
      if q: "q \<in> insert r R" "is_defined g q" for q
    proof (cases "q = r")
      case True
      with r' low lowk show ?thesis by (simp add: min.coboundedI2)
    next
      case False
      with q have qs: "q \<in> seen_nodes s" and
        ql: "q \<in> set (t_stack s) \<Longrightarrow> low_of s k \<le> index_of_node s q"
        using loop_invD(7,8) [OF l, of q] by auto
      have "q \<in> set (t_stack s)" if "q \<in> set (t_stack s')"
      proof (rule ccontr)
        assume "q \<notin> set (t_stack s)"
        with qs have "q \<in> closed_nodes s" using tarjan_invD(3) [OF loop_invD(1) [OF l]] by simp
        then have "q \<in> closed_nodes s'" using ext by (auto simp: extends_def)
        with that tarjan_invD(4) [OF inv] show False by blast
      qed
      with ql qs ext lowk same(1) [OF qs] show ?thesis
        by (auto simp: extends_def min.coboundedI1)
    qed
  qed (use inv in simp)
  then show ?thesis by blast
qed


section \<open>Closing a call\<close>

lemma closure_reach:
  assumes "R\<^sup>*\<^sup>* a b" "\<forall>x\<in>A. \<forall>y. R x y \<longrightarrow> y \<in> A" "a \<in> A"
  shows "b \<in> A"
  using assms(1,3) by (induction rule: rtranclp_induct) (use assms(2) in blast)+

lemma close_kept:
  assumes l: "loop_inv g calls k old s new (set (edges_of g k))" and k: "k \<notin> seen_nodes old"
    and old: "tarjan_inv g calls old" and ne: "low_of s k \<noteq> index_of_node s k"
  shows "call_ok g calls old k s"
proof -
  note L = loop_invD [OF l] and D = tarjan_invD [OF loop_invD(1) [OF l]]
  note O = tarjan_invD [OF old]
  have stack: "t_stack s = new @ k # t_stack old" using L(2) by (simp add: extends_def)
  have lt: "low_of s k < index_of_node s k" using ne L(4) by simp
  have same: "index_of_node s x = index_of_node old x" if "x \<in> seen_nodes old" for x
    using L(2) that by (auto simp: extends_def)
  have reads_seen: "y \<in> seen_nodes s" if "edge g k y" for y
    using that L(7) by (auto simp: edge_def reads_def)
  obtain z where z: "z \<in> set (t_stack s)" "index_of_node s z = low_of s k" "(edge g)\<^sup>*\<^sup>* k z"
    using L(5) by blast
  have zold: "z \<in> set (t_stack old)"
  proof (rule ccontr)
    assume "z \<notin> set (t_stack old)"
    then have "z \<notin> seen_nodes old"
      using z(1) D(4) L(2) O(3) by (auto simp: extends_def)
    with z(1) D(3) L(2) have "t_counter old \<le> index_of_node s z" by (auto simp: extends_def)
    with z(2) lt L(3) show False by simp
  qed
  have lead: "\<exists>o'\<in>calls. index_of_node s o' \<le> index_of_node s x \<and> (edge g)\<^sup>*\<^sup>* x o'"
    if x: "x \<in> set (t_stack s)" for x
  proof -
    from D(12) [OF x] obtain o' where o': "o' \<in> insert k calls"
        "index_of_node s o' \<le> index_of_node s x" "(edge g)\<^sup>*\<^sup>* x o'" by blast
    show ?thesis
    proof (cases "o' = k")
      case True
      from O(12) [OF zold] obtain q where q: "q \<in> calls" "index_of_node old q \<le> index_of_node old z"
          "(edge g)\<^sup>*\<^sup>* z q" by blast
      have "q \<in> seen_nodes old" "z \<in> seen_nodes old" using O(11) [OF q(1)] zold O(3) by auto
      then have "index_of_node s q \<le> index_of_node s x"
        using q(2) z(2) lt o'(2) True same by simp
      with q z(3) o'(3) True show ?thesis by (meson rtranclp_trans)
    qed (use o' in blast)
  qed
  have "tarjan_inv g calls s"
  proof (rule tarjan_invI)
    show "y \<in> seen_nodes s" if "x \<in> set (t_stack s)" "x \<notin> calls" "edge g x y" for x y
      using that D(13) reads_seen by (cases "x = k") auto
    show "distinct c \<and> (\<exists>k\<in>set c. set c = {x. same_component g k x})"
      if "c \<in> set (t_components s)" for c
      using that by (rule D(9))
    show "\<exists>o'\<in>calls. index_of_node s o' \<le> index_of_node s x \<and> (edge g)\<^sup>*\<^sup>* x o'"
      if "x \<in> set (t_stack s)" for x
      using that by (rule lead)
    show "y \<in> closed_nodes s" if "x \<in> closed_nodes s" "edge g x y" for x y
      using that by (rule D(8))
    show "(edge g)\<^sup>*\<^sup>* x y" if "x \<in> set (t_stack s)" "y \<in> set (t_stack s)"
        "index_of_node s x \<le> index_of_node s y" for x y
      using that by (rule D(10))
    show "o' \<in> set (t_stack s)" if "o' \<in> calls" for o' using that D(11) by simp
    show "index_of_node s x < t_counter s" "is_defined g x" if "x \<in> seen_nodes s" for x
      using that D(6,7) by simp_all
  qed (use D(1-5) in simp_all)
  moreover have "low_of s k \<le> index_of_node s y"
    if "x \<in> set (new @ [k])" "y \<in> set (t_stack old)" "edge g x y" for x y
  proof (cases "x = k")
    case True
    have "y \<in> set (t_stack s)" using that(2) stack by simp
    with True that(3) L(8) show ?thesis by (auto simp: edge_def reads_def)
  next
    case False
    with that L(6) show ?thesis by auto
  qed
  moreover have "k \<in> set (t_stack s)" using stack by simp
  ultimately show ?thesis
    using L(2,4,5) D(3) unfolding call_ok_def by auto
qed

lemma close_popped:
  assumes l: "loop_inv g calls k old s new (set (edges_of g k))" and k: "k \<notin> seen_nodes old"
    and old: "tarjan_inv g calls old" and eq: "low_of s k = index_of_node s k"
  shows "call_ok g calls old k (close_component k s)"
proof -
  note L = loop_invD [OF l] and D = tarjan_invD [OF loop_invD(1) [OF l]]
  note O = tarjan_invD [OF old]
  define scc where "scc = new @ [k]"
  define s' where "s' = s\<lparr>t_stack := t_stack old,
      t_on_stack := filter (\<lambda>m. m \<notin> set scc) (t_on_stack s), t_components := t_components s @ [scc]\<rparr>"
  have stack: "t_stack s = new @ k # t_stack old" using L(2) by (simp add: extends_def)
  have "k \<notin> set new" using D(2) stack by simp
  then have close: "close_component k s = s'"
    using eq stack by (simp add: close_component_def s'_def scc_def pop_until_prefix)
  have same: "index_of_node s x = index_of_node old x" "low_of s x = low_of old x"
    if "x \<in> seen_nodes old" for x
    using L(2) that by (auto simp: extends_def)
  have new_old: "x \<in> seen_nodes old" if "x \<in> set (t_stack s)" "x \<notin> set scc" for x
    using that stack O(3) by (auto simp: scc_def)
  have scc_new: "x \<notin> set (t_stack old)" if "x \<in> set scc" for x
    using that D(2) stack by (auto simp: scc_def)
  have no_calls: "x \<notin> calls" if "x \<in> set scc" for x
    using that scc_new O(11) by blast
  have above: "index_of_node s k \<le> index_of_node s x" if "x \<in> set scc" for x
    using that D(5) stack by (auto simp: scc_def sorted_wrt_append intro: less_imp_le)
  have below: "index_of_node s y < index_of_node s k" if "y \<in> set (t_stack old)" for y
    using that D(5) stack by (auto simp: sorted_wrt_append)
  have inside: "y \<in> set scc \<union> closed_nodes s" if x: "x \<in> set scc" and e: "edge g x y" for x y
  proof -
    have ys: "y \<in> seen_nodes s" and low: "y \<in> set (t_stack old) \<Longrightarrow> low_of s k \<le> index_of_node s y"
    proof -
      show "y \<in> seen_nodes s"
        using x e D(13) no_calls [OF x] L(7) stack
        by (cases "x = k") (auto simp: scc_def edge_def reads_def)
      show "low_of s k \<le> index_of_node s y" if "y \<in> set (t_stack old)"
        using x e that L(6,8) stack by (cases "x = k") (auto simp: scc_def edge_def reads_def)
    qed
    then have "y \<notin> set (t_stack old)" using below [of y] eq by auto
    with ys D(3) stack show ?thesis by (auto simp: scc_def)
  qed
  then have closed: "\<forall>x\<in>set scc \<union> closed_nodes s. \<forall>y. edge g x y \<longrightarrow> y \<in> set scc \<union> closed_nodes s"
    using D(8) by blast
  have ks: "k \<in> set scc" "k \<in> set (t_stack s)" by (simp_all add: scc_def stack)
  have from_k: "(edge g)\<^sup>*\<^sup>* k x" if "x \<in> set scc" for x
    using that above [OF that] D(10) [OF ks(2)] stack by (auto simp: scc_def)
  have to_k: "(edge g)\<^sup>*\<^sup>* x k" if x: "x \<in> set scc" for x
  proof -
    have "x \<in> set (t_stack s)" using x stack by (auto simp: scc_def)
    from D(12) [OF this] obtain o' where o': "o' \<in> insert k calls" "(edge g)\<^sup>*\<^sup>* x o'" by blast
    have "o' \<in> set scc \<union> closed_nodes s"
      using closure_reach [OF o'(2) closed] x by blast
    moreover have "o' \<notin> closed_nodes s" using D(4) D(11) [OF o'(1)] by blast
    ultimately have "o' = k" using o'(1) no_calls by blast
    with o'(2) show ?thesis by simp
  qed
  have cls: "set scc = {x. same_component g k x}"
  proof (intro set_eqI iffI CollectI)
    fix x assume "x \<in> set scc"
    with from_k to_k show "same_component g k x" by (simp add: same_component_def)
  next
    fix x assume "x \<in> {x. same_component g k x}"
    then have kx: "(edge g)\<^sup>*\<^sup>* k x" "(edge g)\<^sup>*\<^sup>* x k" by (simp_all add: same_component_def)
    have "x \<in> set scc \<union> closed_nodes s"
      using closure_reach [OF kx(1) closed] ks(1) by blast
    moreover have "x \<notin> closed_nodes s"
    proof
      assume "x \<in> closed_nodes s"
      then have "k \<in> closed_nodes s" using closure_reach [OF kx(2), of "closed_nodes s"] D(8) by blast
      with D(4) ks(2) show False by blast
    qed
    ultimately show "x \<in> set scc" by simp
  qed
  have idx' [simp]: "index_of_node s' x = index_of_node s x" "low_of s' x = low_of s x"
      "seen_nodes s' = seen_nodes s" "t_counter s' = t_counter s" "t_stack s' = t_stack old"
      "t_components s' = t_components s @ [scc]" for x
    by (simp_all add: s'_def index_of_node_def low_of_def seen_nodes_def)
  have closed' [simp]: "closed_nodes s' = closed_nodes s \<union> set scc"
    by (auto simp: closed_nodes_def)
  have "set (t_stack s) = set (t_stack old) \<union> set scc" by (auto simp: stack scc_def)
  then have seen': "seen_nodes s = set (t_stack old) \<union> (closed_nodes s \<union> set scc)" using D(3) by auto
  have old_seen: "x \<in> seen_nodes old" if "x \<in> set (t_stack old)" for x using that O(3) by blast
  have "tarjan_inv g calls s'"
  proof (rule tarjan_invI; unfold idx' closed')
    show "set (t_on_stack s') = set (t_stack old)"
      using D(1) stack scc_new by (auto simp: s'_def scc_def)
    show "distinct (t_stack old)" by (rule O(2))
    show "seen_nodes s = set (t_stack old) \<union> (closed_nodes s \<union> set scc)" by (rule seen')
    show "set (t_stack old) \<inter> (closed_nodes s \<union> set scc) = {}"
      using D(4) stack scc_new by auto
    show "sorted_wrt (\<lambda>x y. index_of_node s y < index_of_node s x) (t_stack old)"
      using D(5) stack by (simp add: sorted_wrt_append)
    show "index_of_node s x < t_counter s" "is_defined g x" if "x \<in> seen_nodes s" for x
      using that D(6,7) by blast+
    show "y \<in> closed_nodes s \<union> set scc" if "x \<in> closed_nodes s \<union> set scc" "edge g x y" for x y
      using closed that by blast
    show "distinct c \<and> (\<exists>k\<in>set c. set c = {x. same_component g k x})"
      if "c \<in> set (t_components s @ [scc])" for c
    proof (cases "c = scc")
      case True
      moreover have "distinct scc" using D(2) stack by (auto simp: scc_def)
      ultimately show ?thesis using cls ks(1) by blast
    next
      case False
      with that D(9) show ?thesis by simp
    qed
    show "(edge g)\<^sup>*\<^sup>* x y" if "x \<in> set (t_stack old)" "y \<in> set (t_stack old)"
        "index_of_node s x \<le> index_of_node s y" for x y
      using that stack by (intro D(10)) auto
    show "o' \<in> set (t_stack old)" if "o' \<in> calls" for o' using that by (rule O(11))
    show "\<exists>o'\<in>calls. index_of_node s o' \<le> index_of_node s x \<and> (edge g)\<^sup>*\<^sup>* x o'"
      if x: "x \<in> set (t_stack old)" for x
      using O(12) [OF x] same(1) old_seen x O(11) by (metis (no_types, lifting))
    show "y \<in> seen_nodes s" if "x \<in> set (t_stack old)" "x \<notin> calls" "edge g x y" for x y
      using O(13) [OF that] L(2) by (auto simp: extends_def)
  qed
  moreover have "extends old s' []" using L(2) by (auto simp: extends_def)
  moreover have "k \<in> seen_nodes s'" using seen' ks(1) by simp
  moreover have "k \<notin> set (t_stack s')" using scc_new ks(1) by auto
  ultimately have "call_ok g calls old k s'" using eq unfolding call_ok_def by auto
  then show ?thesis by (simp add: close)
qed

lemma close_ok:
  assumes "loop_inv g calls k old s new (set (edges_of g k))" "k \<notin> seen_nodes old" "tarjan_inv g calls old"
  shows "call_ok g calls old k (close_component k s)"
proof (cases "low_of s k = index_of_node s k")
  case True
  with close_popped [OF assms] show ?thesis by simp
next
  case False
  then have "close_component k s = s" by (simp add: close_component_def)
  with close_kept [OF assms] False show ?thesis by simp
qed


section \<open>The search\<close>

lemma connect_reads_ok:
  assumes fin: "finite {r. is_defined g r}"
    and f: "\<And>r s. \<lbrakk>is_defined g r; r \<notin> seen_nodes s; card ({r. is_defined g r} - seen_nodes s) < n;
        tarjan_inv g (insert k calls) s; \<forall>o'\<in>insert k calls. (edge g)\<^sup>*\<^sup>* o' r\<rbrakk> \<Longrightarrow>
      \<exists>s'. f r s = Some s' \<and> call_ok g (insert k calls) s r s'"
    and to_k: "\<forall>o'\<in>calls. (edge g)\<^sup>*\<^sup>* o' k" and k: "k \<notin> seen_nodes old"
  shows "\<lbrakk>set rs \<subseteq> set (edges_of g k); loop_inv g calls k old s new R;
      card ({r. is_defined g r} - seen_nodes s) < n\<rbrakk> \<Longrightarrow>
    \<exists>s' new'. connect_reads f g k rs s = Some s' \<and> loop_inv g calls k old s' new' (R \<union> set rs)"
proof (induction rs arbitrary: s new R)
  case Nil
  then show ?case by auto
next
  case (Cons r rs)
  note l = Cons.prems(2)
  have rs: "set rs \<subseteq> set (edges_of g k)" using Cons.prems(1) by simp
  have union: "R \<union> set (r # rs) = insert r R \<union> set rs" by simp
  show ?case
  proof (cases "is_defined g r")
    case False
    then have "loop_inv g calls k old s new (insert r R)"
      by (intro loop_invI) (use loop_invD [OF l] in auto)
    from Cons.IH [OF rs this Cons.prems(3)] False union show ?thesis by simp
  next
    case True
    with Cons.prems(1) have e: "edge g k r" by (simp add: edge_def reads_def)
    show ?thesis
    proof (cases "r \<in> seen_nodes s")
      case seen: True
      let ?s = "if r \<in> set (t_on_stack s) then lower_link k (index_of_node s r) s else s"
      have "card ({r. is_defined g r} - seen_nodes ?s) < n" using Cons.prems(3) by simp
      from Cons.IH [OF rs loop_seen [OF l seen e k] this] True seen union show ?thesis
        by (simp add: seen_iff split: if_splits)
    next
      case unseen: False
      have "\<forall>o'\<in>insert k calls. (edge g)\<^sup>*\<^sup>* o' r"
        using to_k e by (auto intro: rtranclp.rtrancl_into_rtrancl)
      from f [OF True unseen Cons.prems(3) loop_invD(1) [OF l] this]
      obtain s1 where s1: "f r s = Some s1" "call_ok g (insert k calls) s r s1" by blast
      from loop_called [OF l s1(2) unseen e k] obtain new' where
        l1: "loop_inv g calls k old (lower_link k (low_of s1 r) s1) new' (insert r R)" by blast
      have "{r. is_defined g r} - seen_nodes s1 \<subseteq> {r. is_defined g r} - seen_nodes s"
        using s1(2) by (auto simp: call_ok_def extends_def)
      then have "card ({r. is_defined g r} - seen_nodes s1) \<le> card ({r. is_defined g r} - seen_nodes s)"
        using fin by (intro card_mono) auto
      with Cons.prems(3) have "card ({r. is_defined g r} - seen_nodes (lower_link k (low_of s1 r) s1)) < n"
        by simp
      from Cons.IH [OF rs l1 this] True unseen union s1(1) show ?thesis
        by (simp add: seen_iff [THEN iffD2])
    qed
  qed
qed

lemma connect_ok:
  assumes fin: "finite {r. is_defined g r}"
  shows "\<lbrakk>is_defined g k; k \<notin> seen_nodes s; card ({r. is_defined g r} - seen_nodes s) < n;
      tarjan_inv g calls s; \<forall>o'\<in>calls. (edge g)\<^sup>*\<^sup>* o' k\<rbrakk> \<Longrightarrow>
    \<exists>s'. connect n g k s = Some s' \<and> call_ok g calls s k s'"
proof (induction n arbitrary: k s calls)
  case (Suc n)
  have "card ({r. is_defined g r} - seen_nodes (push_node k s)) < card ({r. is_defined g r} - seen_nodes s)"
    using fin Suc.prems(1,2) by (intro psubset_card_mono) auto
  with Suc.prems(3) have c: "card ({r. is_defined g r} - seen_nodes (push_node k s)) < n" by simp
  have "\<exists>s' new'. connect_reads (connect n g) g k (edges_of g k) (push_node k s) = Some s' \<and>
      loop_inv g calls k s s' new' ({} \<union> set (edges_of g k))"
    by (rule connect_reads_ok [OF fin Suc.IH Suc.prems(5,2) _ loop_start [OF Suc.prems(4,2,1,5)] c])
       simp_all
  then obtain s' new' where s': "connect_reads (connect n g) g k (edges_of g k) (push_node k s) = Some s'"
      "loop_inv g calls k s s' new' (set (edges_of g k))" by auto
  from close_ok [OF s'(2) Suc.prems(2,4)] s'(1) show ?case by simp
qed simp

lemma connect_all_ok:
  assumes fin: "finite {r. is_defined g r}" and n: "card {r. is_defined g r} < n"
  shows "\<lbrakk>\<forall>k\<in>set ks. is_defined g k; tarjan_inv g {} s\<rbrakk> \<Longrightarrow>
    \<exists>s'. connect_all n g ks s = Some s' \<and> tarjan_inv g {} s' \<and> seen_nodes s \<union> set ks \<subseteq> seen_nodes s'"
proof (induction ks arbitrary: s)
  case (Cons k ks)
  show ?case
  proof (cases "k \<in> seen_nodes s")
    case True
    then have "map_of (t_index s) k \<noteq> None" by (simp add: seen_iff)
    with True Cons.IH [OF _ Cons.prems(2)] Cons.prems(1) show ?thesis by auto
  next
    case False
    then have none: "map_of (t_index s) k = None" by (simp add: seen_iff)
    have "card ({r. is_defined g r} - seen_nodes s) < n"
      using n fin by (meson card_mono Diff_subset le_less_trans)
    with connect_ok [OF fin _ False this Cons.prems(2)] Cons.prems(1)
    obtain s1 where s1: "connect n g k s = Some s1" "call_ok g {} s k s1" by auto
    then have "tarjan_inv g {} s1" "seen_nodes s \<subseteq> seen_nodes s1" "k \<in> seen_nodes s1"
      by (auto simp: call_ok_def extends_def)
    with Cons.IH [of s1] Cons.prems(1) none s1(1) show ?thesis by auto
  qed
qed simp

text \<open>The components are the classes of the definitions that reach each other.\<close>

lemma components_ok:
  fixes defs
  defines "g \<equiv> build_graph defs"
  shows "(\<forall>c\<in>set (components g). distinct c \<and> (\<exists>k\<in>set c. set c = {x. same_component g k x})) \<and>
    \<Union> (set ` set (components g)) = {k. is_defined g k}"
proof -
  have K: "{r. is_defined g r} = set (g_keys g)" by (auto simp: is_defined_def)
  then have fin: "finite {r. is_defined g r}" by simp
  have n: "card {r. is_defined g r} < Suc (length (g_keys g))"
    unfolding K by (simp add: le_imp_less_Suc card_length)
  have start: "tarjan_inv g {} tarjan_start"
    by (simp add: tarjan_inv_def tarjan_start_def seen_nodes_def closed_nodes_def)
  obtain s where s: "connect_all (Suc (length (g_keys g))) g (g_keys g) tarjan_start = Some s"
      "tarjan_inv g {} s" "set (g_keys g) \<subseteq> seen_nodes s"
    using connect_all_ok [OF fin n _ start, of "g_keys g"] by (auto simp: is_defined_def)
  note D = tarjan_invD [OF s(2)]
  have "set (t_stack s) = {}"
  proof (rule equals0I)
    fix x assume "x \<in> set (t_stack s)"
    from D(12) [OF this] show False by simp
  qed
  then have "closed_nodes s = seen_nodes s" using D(3) by simp
  moreover have "seen_nodes s = {k. is_defined g k}" using D(7) s(3) K by blast
  ultimately show ?thesis
    using s(1) D(9) by (auto simp: components_def closed_nodes_def)
qed


section \<open>Cycles\<close>

lemma edge_trancl: "(edge g)\<^sup>+\<^sup>+ a b \<Longrightarrow> (reads g)\<^sup>+\<^sup>+ a b"
  by (induction rule: tranclp_induct) (auto simp: edge_def intro: tranclp.trancl_into_trancl)

lemma reads_trancl:
  "(reads (build_graph defs))\<^sup>+\<^sup>+ a b \<Longrightarrow> is_defined (build_graph defs) b \<Longrightarrow>
   (edge (build_graph defs))\<^sup>+\<^sup>+ a b"
proof (induction rule: tranclp_induct)
  case (base b)
  then show ?case by (auto simp: edge_def)
next
  case (step b c)
  then have "edge (build_graph defs) b c" by (simp add: edge_def)
  with step.IH reads_defined [OF step.hyps(2)] show ?case by (rule_tac tranclp.trancl_into_trancl) auto
qed

lemma same_component_cycle:
  assumes "(reads (build_graph defs))\<^sup>+\<^sup>+ k k" "is_defined (build_graph defs) k"
  shows "same_component (build_graph defs) k x \<longleftrightarrow>
    (reads (build_graph defs))\<^sup>+\<^sup>+ k x \<and> (reads (build_graph defs))\<^sup>+\<^sup>+ x k"
proof
  assume "same_component (build_graph defs) k x"
  then have "k = x \<or> ((edge (build_graph defs))\<^sup>+\<^sup>+ k x \<and> (edge (build_graph defs))\<^sup>+\<^sup>+ x k)"
    unfolding same_component_def by (metis rtranclpD)
  with assms(1) edge_trancl show "(reads (build_graph defs))\<^sup>+\<^sup>+ k x \<and> (reads (build_graph defs))\<^sup>+\<^sup>+ x k"
    by blast
next
  assume r: "(reads (build_graph defs))\<^sup>+\<^sup>+ k x \<and> (reads (build_graph defs))\<^sup>+\<^sup>+ x k"
  then have "is_defined (build_graph defs) x"
    by (meson reads_defined tranclpD)
  with r reads_trancl assms(2) show "same_component (build_graph defs) k x"
    unfolding same_component_def by (meson tranclp_into_rtranclp)
qed

text \<open>A component is reported as a cycle exactly when its members read themselves.\<close>

lemma is_cycle_iff:
  assumes c: "distinct c" "k \<in> set c" "set c = {x. same_component g k x}" and x: "x \<in> set c"
    and d: "is_defined g x"
  shows "is_cycle g c \<longleftrightarrow> (edge g)\<^sup>+\<^sup>+ x x"
proof
  assume cyc: "is_cycle g c"
  show "(edge g)\<^sup>+\<^sup>+ x x"
  proof (cases "set c = {x}")
    case True
    with c(1) have "c = [x]" by (cases c; cases "tl c") auto
    with cyc have "reads g x x" by (simp add: is_cycle_def reads_def)
    with d show ?thesis by (auto simp: edge_def)
  next
    case False
    with x obtain y where y: "y \<in> set c" "y \<noteq> x" by blast
    with x c(3) have "(edge g)\<^sup>*\<^sup>* x y" "(edge g)\<^sup>*\<^sup>* y x"
      by (auto simp: same_component_def intro: rtranclp_trans)
    with y(2) show ?thesis by (metis rtranclpD tranclp_rtranclp_tranclp)
  qed
next
  assume cyc: "(edge g)\<^sup>+\<^sup>+ x x"
  then obtain y where y: "edge g x y" "(edge g)\<^sup>*\<^sup>* y x" by (auto dest: tranclpD)
  with x c(3) have yc: "y \<in> set c"
    by (auto simp: same_component_def intro: rtranclp_trans converse_rtranclp_into_rtranclp
        rtranclp.rtrancl_into_rtrancl)
  show "is_cycle g c"
  proof (cases "y = x")
    case True
    have "c \<noteq> []" using x by auto
    moreover have "c = [x]" if "length c < 2" using that x \<open>c \<noteq> []\<close> by (cases c; cases "tl c") auto
    ultimately show ?thesis using y(1) True by (auto simp: is_cycle_def edge_def reads_def not_le)
  next
    case False
    then have "card {x, y} = 2" by simp
    moreover have "{x, y} \<subseteq> set c" using x yc by simp
    ultimately have "2 \<le> length c" by (metis List.finite_set c(1) card_mono distinct_card)
    then show ?thesis by (simp add: is_cycle_def)
  qed
qed


lemma cyclic_nodes_components:
  "set (cyclic_nodes g) = \<Union> (set ` set (filter (is_cycle g) (components g)))"
  by (simp add: cyclic_nodes_def graph_cycles_def)

lemma set_cyclic_nodes:
  fixes defs
  defines "g \<equiv> build_graph defs"
  shows "set (cyclic_nodes g) = {k. is_defined g k \<and> (reads g)\<^sup>+\<^sup>+ k k}"
proof (intro set_eqI iffI CollectI)
  note C = components_ok [of defs, folded g_def]
  fix x assume "x \<in> set (cyclic_nodes g)"
  then obtain c where c: "c \<in> set (components g)" "is_cycle g c" "x \<in> set c"
    by (auto simp: cyclic_nodes_components)
  with C have d: "is_defined g x" by blast
  from C c(1) obtain k where "distinct c" "k \<in> set c" "set c = {x. same_component g k x}" by blast
  from is_cycle_iff [OF this c(3) d] c(2) edge_trancl d show "is_defined g x \<and> (reads g)\<^sup>+\<^sup>+ x x" by blast
next
  note C = components_ok [of defs, folded g_def]
  fix x assume "x \<in> {k. is_defined g k \<and> (reads g)\<^sup>+\<^sup>+ k k}"
  then have x: "is_defined g x" "(edge g)\<^sup>+\<^sup>+ x x" using reads_trancl by (auto simp: g_def)
  with C obtain c where c: "c \<in> set (components g)" "x \<in> set c" by blast
  from C c(1) obtain k where "distinct c" "k \<in> set c" "set c = {x. same_component g k x}" by blast
  from is_cycle_iff [OF this c(2) x(1)] x(2) c show "x \<in> set (cyclic_nodes g)"
    by (auto simp: cyclic_nodes_components)
qed

lemma graph_cycles_members:
  fixes defs
  defines "g \<equiv> build_graph defs"
  assumes "c \<in> set (graph_cycles g)" "k \<in> set c"
  shows "distinct c \<and> set c = {x. (reads g)\<^sup>+\<^sup>+ k x \<and> (reads g)\<^sup>+\<^sup>+ x k}"
proof -
  note C = components_ok [of defs, folded g_def]
  from assms(2) obtain d where d: "d \<in> set (components g)" "is_cycle g d" "set c = set d"
      "distinct c = distinct d"
    by (auto simp: graph_cycles_def)
  have "k \<in> set (cyclic_nodes g)"
    using assms(2,3) by (auto simp: cyclic_nodes_def)
  then have k: "is_defined g k" "(reads g)\<^sup>+\<^sup>+ k k" using set_cyclic_nodes [of defs] by (auto simp: g_def)
  from C d(1) obtain m where m: "distinct d" "m \<in> set d" "set d = {x. same_component g m x}" by blast
  have "same_component g m x \<longleftrightarrow> same_component g k x" for x
    using m(3) d(3) assms(3) unfolding same_component_def by (blast intro: rtranclp_trans)
  then have "set c = {x. same_component g k x}" using d(3) m(3) by simp
  with k d(4) m(1) same_component_cycle [of defs k] show ?thesis by (auto simp: g_def)
qed

section \<open>Properties\<close>

text \<open>
  A chain of reads is found between two nodes exactly when the first reads the second, directly
  or through others; the chain starts and ends there and each of its nodes reads the next.
\<close>

theorem path_finds_the_chains:
  "(graph_path (build_graph defs) a b \<noteq> None \<longleftrightarrow> (reads (build_graph defs))\<^sup>+\<^sup>+ a b) \<and>
   (case graph_path (build_graph defs) a b of
      None \<Rightarrow> True
    | Some c \<Rightarrow> hd c = a \<and> last c = b \<and> 2 \<le> length c \<and> successively (reads (build_graph defs)) c)"
proof
  show "graph_path (build_graph defs) a b \<noteq> None \<longleftrightarrow> (reads (build_graph defs))\<^sup>+\<^sup>+ a b"
    by (rule reads_path.find_iff)
  show "case graph_path (build_graph defs) a b of None \<Rightarrow> True
    | Some c \<Rightarrow> hd c = a \<and> last c = b \<and> 2 \<le> length c \<and> successively (reads (build_graph defs)) c"
    using reads_path.find_chain [of "build_graph defs" a b]
    by (cases "graph_path (build_graph defs) a b") (auto simp: Suc_le_eq)
qed

text \<open>
  C5. The reported cycles hold exactly the definitions that read themselves, directly or through
  others.
\<close>

theorem cycles_are_the_self_readers:
  "\<Union> (set ` set (graph_cycles (build_graph defs))) =
     {k. is_defined (build_graph defs) k \<and> (reads (build_graph defs))\<^sup>+\<^sup>+ k k}"
  using set_cyclic_nodes [of defs] by (simp add: cyclic_nodes_def)

text \<open>
  Two definitions are reported in the same cycle exactly when each reads the other; a cycle
  names each of its definitions once.
\<close>

theorem cycle_members_read_each_other:
  assumes "c \<in> set (graph_cycles (build_graph defs))" "k \<in> set c"
  shows "distinct c \<and> set c = {x. (reads (build_graph defs))\<^sup>+\<^sup>+ k x \<and> (reads (build_graph defs))\<^sup>+\<^sup>+ x k}"
  using assms by (rule graph_cycles_members)

definition example_definitions :: "dep_definition list" where
  "example_definitions =
     [(DepNode ''order'' ''total'', [DepNode ''order'' ''net'', DepNode ''order'' ''tax'']),
      (DepNode ''order'' ''tax'', [DepNode ''order'' ''net'']),
      (DepNode ''order'' ''a'', [DepNode ''order'' ''b'', DepNode ''order'' ''tax'']),
      (DepNode ''order'' ''b'', [DepNode ''order'' ''a''])]"

theorem cycle_members_witness:
  "(reads (build_graph example_definitions))\<^sup>+\<^sup>+ (DepNode ''order'' ''a'') (DepNode ''order'' ''b'')"
proof -
  let ?c = "[DepNode ''order'' ''a'', DepNode ''order'' ''b'']"
  have "graph_cycles (build_graph example_definitions) = [?c]" by code_simp
  then have "?c \<in> set (graph_cycles (build_graph example_definitions))" by simp
  from cycle_members_read_each_other [OF this, of "DepNode ''order'' ''a''"] show ?thesis by auto
qed

text \<open>
  C6. The evaluation order names every definition outside a cycle once, and a definition comes after
  every definition of the order that it reads.
\<close>

theorem order_puts_reads_first:
  "distinct (graph_order (build_graph defs)) \<and>
   set (graph_order (build_graph defs)) =
     {k. is_defined (build_graph defs) k \<and> \<not> (reads (build_graph defs))\<^sup>+\<^sup>+ k k} \<and>
   (\<forall>i < length (graph_order (build_graph defs)). \<forall>b \<in> set (graph_order (build_graph defs)).
      reads (build_graph defs) (graph_order (build_graph defs) ! i) b \<longrightarrow>
      b \<in> set (take i (graph_order (build_graph defs))))"
proof (intro conjI allI ballI impI)
  let ?g = "build_graph defs" and ?o = "graph_order (build_graph defs)"
  note O = graph_order_ok [of defs] set_cyclic_nodes [of defs]
  show "distinct ?o" using O(1) by blast
  show so: "set ?o = {k. is_defined ?g k \<and> \<not> (reads ?g)\<^sup>+\<^sup>+ k k}" using O by blast
  fix i b assume i: "i < length ?o" and b: "b \<in> set ?o" "reads ?g (?o ! i) b"
  have a: "?o ! i \<in> set ?o" using i by simp
  have f: "follows ?g (cyclic_nodes ?g) (?o ! i) b" using b O by (auto simp: follows_def)
  have "\<not> (follows ?g (cyclic_nodes ?g))\<^sup>*\<^sup>* b (?o ! i)"
  proof
    assume "(follows ?g (cyclic_nodes ?g))\<^sup>*\<^sup>* b (?o ! i)"
    then have "(reads ?g)\<^sup>*\<^sup>* b (?o ! i)"
      by (rule rtranclp_mono [THEN predicate2D, rotated]) (auto simp: follows_def)
    with b(2) have "(reads ?g)\<^sup>+\<^sup>+ (?o ! i) (?o ! i)" by (meson rtranclp_into_tranclp2)
    with a so show False by simp
  qed
  with ready_before [of "follows ?g (cyclic_nodes ?g)" ?o i b] O(1) i f show "b \<in> set (take i ?o)" by blast
qed

theorem order_witness:
  "DepNode ''order'' ''tax'' \<in> set (take 1 (graph_order (build_graph example_definitions)))"
proof -
  have o: "graph_order (build_graph example_definitions) = [DepNode ''order'' ''tax'', DepNode ''order'' ''total'']"
    by code_simp
  have "reads (build_graph example_definitions) (DepNode ''order'' ''total'') (DepNode ''order'' ''tax'')"
    unfolding reads_def by code_simp
  with order_puts_reads_first [of example_definitions] show ?thesis by (auto simp: o)
qed

text \<open>
  The definitions to recompute after a change are exactly the definitions outside a cycle that
  read a changed node, directly or through others: each once, in evaluation order.
\<close>

theorem affected_are_the_transitive_readers:
  "distinct (affected_by (build_graph defs) changed) \<and>
   set (affected_by (build_graph defs) changed) =
     {k. is_defined (build_graph defs) k \<and> \<not> (reads (build_graph defs))\<^sup>+\<^sup>+ k k \<and>
         (\<exists>c\<in>set changed. (reads (build_graph defs))\<^sup>+\<^sup>+ k c)} \<and>
   sorted (map (position_in (graph_order (build_graph defs))) (affected_by (build_graph defs) changed))"
proof -
  from reached_readers [of changed defs] obtain r where
    r: "reach_loop (length changed + length (g_keys (build_graph defs))) (build_graph defs) [] changed = Some r"
      "distinct r" "set r = {k. \<exists>c\<in>set changed. (reads (build_graph defs))\<^sup>+\<^sup>+ k c}" by blast
  have "set (graph_order (build_graph defs)) =
     {k. is_defined (build_graph defs) k \<and> \<not> (reads (build_graph defs))\<^sup>+\<^sup>+ k k}"
    using graph_order_ok [of defs] set_cyclic_nodes [of defs] by blast
  with r show ?thesis by (auto simp: affected_by_def)
qed

end
