(* ===== verification/Formula_Check.thy ===== *)
theory Formula_Check
  imports Formula_Functions Formula_Cycles
begin

text \<open>
  The checker (\<open>formula/src/check.ts\<close>): a syntax tree is bound to the fields of an environment, typed
  and lowered to the canonical tree, and what may not be saved is refused.  The methods of \<open>Checker\<close>
  take the checker's state (errors and references so far) and return it updated.

  The arrow between the names of a circular reference is outside Latin-1 and is written \<open>->\<close> here.
\<close>

section \<open>Fields\<close>

definition is_computed_field :: "field \<Rightarrow> bool" where
  "is_computed_field f =
     (f_kind f = Some FormulaField \<or> f_kind f = Some LookupField \<or> f_kind f = Some RollupField)"

definition scope_key :: "field_scope \<Rightarrow> string" where
  "scope_key s = (case s of Self \<Rightarrow> [] | Relation r \<Rightarrow> r)"

definition path_of :: "string \<Rightarrow> field_scope \<Rightarrow> string" where
  "path_of i s = (case s of Self \<Rightarrow> i | Relation r \<Rightarrow> r @ ''.'' @ i)"

definition field_path :: "field \<Rightarrow> string" where
  "field_path f = path_of (f_id f) (f_scope f)"

definition is_blank_call :: "node \<Rightarrow> bool" where
  "is_blank_call nd = (case unwrap nd of SCall name _ args _ _ \<Rightarrow> name = ''BLANK'' \<and> args = [] | _ \<Rightarrow> False)"

text \<open>\<open>resolve\<close>: the first tier with a match decides.\<close>

definition by_label :: "string \<Rightarrow> field \<Rightarrow> bool" where "by_label name f = (f_label f = name)"
definition by_key :: "string \<Rightarrow> field \<Rightarrow> bool" where "by_key name f = (f_key f = name)"
definition loosely :: "string \<Rightarrow> field \<Rightarrow> bool" where
  "loosely name f =
     (to_lower (js_trim (f_label f)) = to_lower (js_trim name) \<or>
      to_lower (f_key f) = to_lower (js_trim name))"

fun first_match :: "('a \<Rightarrow> bool) list \<Rightarrow> 'a list \<Rightarrow> 'a list" where
  "first_match [] fs = []"
| "first_match (tier # tiers) fs =
     (if filter tier fs \<noteq> [] then filter tier fs else first_match tiers fs)"

definition resolve :: "field list \<Rightarrow> string \<Rightarrow> bool \<Rightarrow> field list" where
  "resolve fs name braced =
     first_match
       (if braced then [by_label name, by_key name, loosely name]
        else [by_key name, by_label name, loosely name]) fs"

section \<open>The checker's methods\<close>

definition invalid :: "node \<Rightarrow> checked" where
  "invalid nd = \<lparr>c_type = Invalid, c_ast = ELit VNull, c_syntax = nd\<rparr>"

definition in_relation :: "(string \<times> nat \<times> nat) option \<Rightarrow> field \<Rightarrow> bool" where
  "in_relation rel f =
     (case rel of None \<Rightarrow> f_scope f = Self | Some (r, _, _) \<Rightarrow> f_scope f = Relation r)"

text \<open>\<open>if (field.outOfScope)\<close>: an empty reason is falsy.\<close>

definition out_of_reach :: "field \<Rightarrow> string option" where
  "out_of_reach f =
     (case f_out_of_scope f of None \<Rightarrow> None | Some why \<Rightarrow> (if why = [] then None else Some why))"

definition field_read :: "field \<Rightarrow> node \<Rightarrow> reference" where
  "field_read f nd = \<lparr>rf_field = f, rf_start = node_start nd, rf_end = node_end nd\<rparr>"

definition bind_field :: "field \<Rightarrow> node \<Rightarrow> checker \<Rightarrow> checked \<times> checker" where
  "bind_field f nd k =
     (let ast = EPath (field_path f) False None;
          bad = \<lparr>c_type = Invalid, c_ast = ast, c_syntax = nd\<rparr>
      in if f_classified f
         then (bad, report_at ClassifiedField
                 (quoted (f_label f) @ '' is classified; a formula may not read it, because its result would reveal the value'')
                 nd [(''field'', PText (f_label f))] k)
         else case out_of_reach f of
           Some why \<Rightarrow>
             (bad, report_at OutOfScope
                (quoted (f_label f) @ '' is out of a formula's reach: '' @ why) nd
                [(''field'', PText (f_label f))] k)
         | None \<Rightarrow>
             (case formula_type_of (f_type f) of
                None \<Rightarrow> (bad, report_at UnsupportedFieldType
                   (quoted (f_label f) @ '' is a '' @ f_type f @
                    '' field, which a formula cannot read; use a lookup or rollup for related records'')
                   nd [(''field'', PText (f_label f)), (''type'', PText (f_type f))] k)
              | Some t \<Rightarrow>
                  (\<lparr>c_type = Typed t, c_ast = ast, c_syntax = nd\<rparr>,
                   k\<lparr>k_references := k_references k @ [field_read f nd]\<rparr>)))"

definition display_name :: "(string \<times> nat \<times> nat) option \<Rightarrow> string \<Rightarrow> string" where
  "display_name rel name = (case rel of Some (r, _, _) \<Rightarrow> r @ ''.'' @ name | None \<Rightarrow> name)"

definition bind_match :: "string \<Rightarrow> field list \<Rightarrow> node \<Rightarrow> checker \<Rightarrow> checked \<times> checker" where
  "bind_match display found nd k =
     (case found of
        [] \<Rightarrow> (invalid nd, report_at UnknownField (''There is no field '' @ quoted display) nd
                [(''name'', PText display)] k)
      | [f] \<Rightarrow> bind_field f nd k
      | fs \<Rightarrow> (invalid nd, report_at AmbiguousField
                (quoted display @ '' names '' @ nat_digits (length fs) @ '' fields; use the field's key instead'')
                nd [(''name'', PText display), (''count'', PNum (length fs))] k))"

definition check_field ::
  "environment \<Rightarrow> string \<Rightarrow> bool \<Rightarrow> (string \<times> nat \<times> nat) option \<Rightarrow> node \<Rightarrow> checker \<Rightarrow> checked \<times> checker" where
  "check_field env name braced rel nd k =
     (let candidates = filter (in_relation rel) env
      in if rel \<noteq> None \<and> candidates = []
         then (case rel of Some (r, a, b) \<Rightarrow>
                 (invalid nd, report OutOfScope
                    (quoted r @ '' is not an owned single child of this record; reach other records with a lookup or rollup'')
                    a b [(''relation'', PText r)] k)
               | None \<Rightarrow> (invalid nd, k))
         else bind_match (display_name rel name) (resolve candidates name braced) nd k)"

definition expect_operand ::
  "checked \<Rightarrow> formula_type list \<Rightarrow> string \<Rightarrow> string \<Rightarrow> string \<Rightarrow> checker \<Rightarrow> bool \<times> checker" where
  "expect_operand c allowed oper side hint k =
     (case c_type c of
        Blank \<Rightarrow> (True, k)
      | Invalid \<Rightarrow> (True, k)
      | Typed t \<Rightarrow>
          (if t \<in> set allowed then (True, k)
           else (False, report_at TypeMismatch
                  (oper @ '' needs '' @ list_types allowed @ ''; the '' @ side @ '' is '' @ type_name t @ hint)
                  (c_syntax c)
                  [(''operator'', PText oper), (''side'', PText side),
                   (''expected'', PText (join ''|'' (map type_name allowed))),
                   (''actual'', PText (type_name t))] k)))"

definition expect_concatenable :: "checked \<Rightarrow> string \<Rightarrow> checker \<Rightarrow> checker" where
  "expect_concatenable c side k =
     (if c_type c \<noteq> Typed TDate \<and> c_type c \<noteq> Typed TTimestamp then k
      else report_at TypeMismatch
             (quoted ''&'' @ '' joins text, numbers and booleans; the '' @ side @ '' side is a '' @
              value_type_name (c_type c) @ '', so format it with DATETIME_FORMAT() first'')
             (c_syntax c)
             [(''operator'', PText ''&''), (''side'', PText side),
              (''actual'', PText (value_type_name (c_type c)))] k)"

definition type_or :: "value_type \<Rightarrow> formula_type \<Rightarrow> value_type" where
  "type_or t fallback = (if t = Invalid then Invalid else Typed fallback)"

definition unary_symbol :: "unary_operator \<Rightarrow> string" where
  "unary_symbol u = (case u of UMinus \<Rightarrow> ''-'' | UPlus \<Rightarrow> ''+'')"

definition check_unary ::
  "unary_operator \<Rightarrow> node \<Rightarrow> node \<Rightarrow> checked \<times> checker \<Rightarrow> checked \<times> checker" where
  "check_unary u operand nd r =
     (case r of (c, k) \<Rightarrow>
        (let k' = snd (expect_operand c [TNumber] (''unary '' @ quoted (unary_symbol u)) ''operand'' [] k)
         in if u = UPlus
            then (c\<lparr>c_type := type_or (c_type c) TNumber, c_syntax := nd\<rparr>, k')
            else case unwrap operand of
              SNumber v _ _ \<Rightarrow> (\<lparr>c_type = Typed TNumber, c_ast = ELit (VNum (js_neg v)), c_syntax = nd\<rparr>, k')
            | _ \<Rightarrow> (\<lparr>c_type = type_or (c_type c) TNumber, c_ast = EFormula FNegate [c_ast c],
                      c_syntax = nd\<rparr>, k')))"

definition arithmetic :: "binary_operator \<Rightarrow> formula_op option" where
  "arithmetic b =
     (case b of BAdd \<Rightarrow> Some FAdd | BSub \<Rightarrow> Some FSub | BMul \<Rightarrow> Some FMul | BDiv \<Rightarrow> Some FDiv | _ \<Rightarrow> None)"

definition comparison_rule :: "binary_operator \<Rightarrow> cond_op" where
  "comparison_rule b =
     (case b of
        BEq \<Rightarrow> Equals | BNe \<Rightarrow> NotEquals | BLt \<Rightarrow> LessThan | BGt \<Rightarrow> GreaterThan
      | BLe \<Rightarrow> LessThanOrEquals | BGe \<Rightarrow> GreaterThanOrEquals | _ \<Rightarrow> UnknownOp [])"

definition binary_symbol :: "binary_operator \<Rightarrow> string" where
  "binary_symbol b =
     (case b of
        BAdd \<Rightarrow> ''+'' | BSub \<Rightarrow> ''-'' | BMul \<Rightarrow> ''*'' | BDiv \<Rightarrow> ''/'' | BConcat \<Rightarrow> ''&'' | BEq \<Rightarrow> ''=''
      | BNe \<Rightarrow> ''!='' | BLt \<Rightarrow> ''<'' | BGt \<Rightarrow> ''>'' | BLe \<Rightarrow> ''<='' | BGe \<Rightarrow> ''>='')"

definition orderable :: "value_type \<Rightarrow> bool" where
  "orderable t = (t = Typed TNumber \<or> t = Typed TDate \<or> t = Typed TTimestamp \<or> t = Blank \<or> t = Invalid)"

definition expect_orderable :: "binary_operator \<Rightarrow> string \<Rightarrow> checked \<Rightarrow> bool \<times> checker \<Rightarrow> bool \<times> checker" where
  "expect_orderable b side c r =
     (case r of (ok, k) \<Rightarrow>
        (if orderable (c_type c) then (ok, k)
         else (False, report_at TypeMismatch
                (quoted (binary_symbol b) @ '' compares numbers or dates; the '' @ side @ '' is '' @
                 value_type_name (c_type c)) (c_syntax c)
                [(''operator'', PText (binary_symbol b)), (''side'', PText side),
                 (''actual'', PText (value_type_name (c_type c)))] k)))"

definition check_comparison ::
  "binary_operator \<Rightarrow> node \<Rightarrow> checked \<Rightarrow> checked \<Rightarrow> checker \<Rightarrow> checked \<times> checker" where
  "check_comparison b nd l r k =
     (let (ok1, k1) = (if b \<noteq> BEq \<and> b \<noteq> BNe
                       then expect_orderable b ''right side'' r (expect_orderable b ''left side'' l (True, k))
                       else (True, k));
          (ok2, k2) = (if ok1 \<and> \<not> comparable (c_type l) (c_type r)
                       then (False, report_at TypeMismatch
                              (quoted (binary_symbol b) @ '' cannot compare '' @ value_type_name (c_type l) @
                               '' with '' @ value_type_name (c_type r)) nd
                              [(''operator'', PText (binary_symbol b)),
                               (''left'', PText (value_type_name (c_type l))),
                               (''right'', PText (value_type_name (c_type r)))] k1)
                       else (ok1, k1))
      in (\<lparr>c_type = (if c_type l = Invalid \<or> c_type r = Invalid \<or> \<not> ok2 then Invalid else Typed TBoolean),
           c_ast = ERule (comparison_rule b) (c_ast l) (Some (c_ast r)), c_syntax = nd\<rparr>, k2))"

text \<open>The operator applied to its checked operands: joining, arithmetic or a comparison.\<close>

definition check_operator ::
  "binary_operator \<Rightarrow> node \<Rightarrow> checked \<Rightarrow> checked \<Rightarrow> checker \<Rightarrow> checked \<times> checker" where
  "check_operator b nd l r k =
     (if b = BConcat
      then (\<lparr>c_type = (if c_type l = Invalid \<or> c_type r = Invalid then Invalid else Typed TText),
              c_ast = EFormula FConcat [c_ast l, c_ast r], c_syntax = nd\<rparr>,
            expect_concatenable r ''right'' (expect_concatenable l ''left'' k))
      else case arithmetic b of
             Some oper \<Rightarrow>
               (let hint = (if b = BAdd then '' (join text with &)'' else []);
                    (ok1, k1) = expect_operand l [TNumber] (quoted (binary_symbol b)) ''left side'' hint k;
                    (ok2, k2) = expect_operand r [TNumber] (quoted (binary_symbol b)) ''right side'' hint k1
                in (\<lparr>c_type = (if c_type l = Invalid \<or> c_type r = Invalid \<or> \<not> ok1 \<or> \<not> ok2
                               then Invalid else Typed TNumber),
                     c_ast = EFormula oper [c_ast l, c_ast r], c_syntax = nd\<rparr>, k2))
           | None \<Rightarrow> check_comparison b nd l r k)"

definition check_binary ::
  "binary_operator \<Rightarrow> node \<Rightarrow> node \<Rightarrow> node \<Rightarrow> (checker \<Rightarrow> checked \<times> checker) \<Rightarrow>
   (checker \<Rightarrow> checked \<times> checker) \<Rightarrow> checker \<Rightarrow> checked \<times> checker" where
  "check_binary b left right nd check_left check_right k =
     (if (b = BEq \<or> b = BNe) \<and> (is_blank_call left \<or> is_blank_call right)
      then case (if is_blank_call right then check_left k else check_right k) of
             (subject, k1) \<Rightarrow>
               (\<lparr>c_type = (if c_type subject = Invalid then Invalid else Typed TBoolean),
                 c_ast = ERule (if b = BEq then IsEmpty else IsNotEmpty) (c_ast subject) None,
                 c_syntax = nd\<rparr>, k1)
      else case check_left k of (l, k1) \<Rightarrow> (case check_right k1 of (r, k2) \<Rightarrow> check_operator b nd l r k2))"

text \<open>The checks of the arguments one after the other.\<close>

fun run_checks :: "(checker \<Rightarrow> checked \<times> checker) list \<Rightarrow> checker \<Rightarrow> checked list \<times> checker" where
  "run_checks [] k = ([], k)"
| "run_checks (f # fs) k =
     (case f k of (c, k1) \<Rightarrow> (case run_checks fs k1 of (cs, k2) \<Rightarrow> (c # cs, k2)))"

definition expected_arguments :: "formula_function \<Rightarrow> string" where
  "expected_arguments f =
     (case fn_max f of
        None \<Rightarrow> ''at least '' @ nat_digits (fn_min f)
      | Some m \<Rightarrow> (if fn_min f = m then nat_digits m else nat_digits (fn_min f) @ '' to '' @ nat_digits m))"

definition wrong_count :: "formula_function \<Rightarrow> nat \<Rightarrow> bool" where
  "wrong_count f n = (n < fn_min f \<or> (case fn_max f of None \<Rightarrow> False | Some m \<Rightarrow> m < n))"

definition check_call ::
  "string \<Rightarrow> nat \<Rightarrow> node \<Rightarrow> (checker \<Rightarrow> checked \<times> checker) list \<Rightarrow> checker \<Rightarrow> checked \<times> checker" where
  "check_call name name_end nd arg_checks k =
     (if List.member time_functions name
      then (invalid nd, snd (run_checks arg_checks
              (report_at TimeFunction
                 (name @ ''() changes with time, so its value cannot be stored; time-dependent formulas are not supported'')
                 nd [(''function'', PText name)] k)))
      else case function_named name of
        None \<Rightarrow>
          (invalid nd, snd (run_checks arg_checks
             (report UnknownFunction (''There is no function '' @ name @ ''()'') (node_start nd) name_end
                [(''function'', PText name)] k)))
      | Some f \<Rightarrow>
          (case run_checks arg_checks k of (args, k1) \<Rightarrow>
             (if wrong_count f (length args)
              then (invalid nd, report_at ArgumentCount
                      (fn_name f @ ''() takes '' @ expected_arguments f @ '' argument'' @
                       (if expected_arguments f = ''1'' then [] else ''s'') @ '', not '' @
                       nat_digits (length args) @ '': '' @ fn_signature f) nd
                      [(''function'', PText (fn_name f)), (''expected'', PText (expected_arguments f)),
                       (''actual'', PNum (length args))] k1)
              else case fn_lower f \<lparr>x_name = name, x_start = node_start nd, x_end = node_end nd,
                                    x_args = args\<rparr> k1 of
                     ((t, ast), k2) \<Rightarrow>
                       (\<lparr>c_type = (if length (k_errors k1) < length (k_errors k2) \<or>
                                       list_ex (\<lambda>c. c_type c = Invalid) args
                                   then Invalid else t),
                         c_ast = ast, c_syntax = nd\<rparr>, k2))))"

primrec check :: "environment \<Rightarrow> node \<Rightarrow> checker \<Rightarrow> checked \<times> checker" where
  "check env (SNumber v a b) =
     (\<lambda>k. (\<lparr>c_type = Typed TNumber, c_ast = ELit (VNum v), c_syntax = SNumber v a b\<rparr>, k))"
| "check env (SString s a b) =
     (\<lambda>k. (\<lparr>c_type = Typed TText, c_ast = ELit (VStr s), c_syntax = SString s a b\<rparr>, k))"
| "check env (SBoolean v a b) =
     (\<lambda>k. (\<lparr>c_type = Typed TBoolean, c_ast = ELit (VBool v), c_syntax = SBoolean v a b\<rparr>, k))"
| "check env (SParen inner a b) =
     (\<lambda>k. case check env inner k of (c, k1) \<Rightarrow> (c\<lparr>c_syntax := SParen inner a b\<rparr>, k1))"
| "check env (SField name braced rel a b) =
     (\<lambda>k. check_field env name braced rel (SField name braced rel a b) k)"
| "check env (SUnary u operand a b) =
     (\<lambda>k. check_unary u operand (SUnary u operand a b) (check env operand k))"
| "check env (SBinary oper os left right a b) =
     (\<lambda>k. check_binary oper left right (SBinary oper os left right a b) (check env left)
            (check env right) k)"
| "check env (SCall name e args a b) =
     (\<lambda>k. check_call name e (SCall name e args a b) (map (check env) args) k)"

section \<open>Cycles and depth\<close>

definition find_self :: "environment \<Rightarrow> string \<Rightarrow> field option" where
  "find_self env i = find_first (\<lambda>f. f_scope f = Self \<and> f_id f = i) env"

definition label_of :: "environment \<Rightarrow> string \<Rightarrow> string" where
  "label_of env i = (case find_self env i of Some f \<Rightarrow> f_label f | None \<Rightarrow> i)"

definition self_node :: "string \<Rightarrow> dep_node" where
  "self_node i = DepNode [] i"

definition self_reads :: "checker \<Rightarrow> reference list" where
  "self_reads k = filter (\<lambda>r. f_scope (rf_field r) = Self) (k_references k)"

definition has_dependencies :: "field \<Rightarrow> bool" where
  "has_dependencies f = (case f_dependencies f of None \<Rightarrow> False | Some ds \<Rightarrow> ds \<noteq> [])"

definition self_dependencies :: "field \<Rightarrow> dep_node list" where
  "self_dependencies f =
     map (\<lambda>r. self_node (ref_id r))
       (filter (\<lambda>r. ref_scope r = Self) (case f_dependencies f of None \<Rightarrow> [] | Some ds \<Rightarrow> ds))"

definition cycle_definitions :: "environment \<Rightarrow> string \<Rightarrow> checker \<Rightarrow> dep_definition list" where
  "cycle_definitions env field_id k =
     map (\<lambda>f. (self_node (f_id f), self_dependencies f))
       (filter (\<lambda>f. f_scope f = Self \<and> f_id f \<noteq> field_id \<and> has_dependencies f) env)
     @ [(self_node field_id, map (\<lambda>r. self_node (f_id (rf_field r))) (self_reads k))]"

definition cycle_chain :: "dep_graph \<Rightarrow> string \<Rightarrow> reference \<Rightarrow> dep_node list option" where
  "cycle_chain g field_id r =
     (if f_id (rf_field r) = field_id then Some [self_node field_id]
      else graph_path g (self_node (f_id (rf_field r))) (self_node field_id))"

fun report_first_cycle ::
  "environment \<Rightarrow> dep_graph \<Rightarrow> string \<Rightarrow> reference list \<Rightarrow> checker \<Rightarrow> checker" where
  "report_first_cycle env g field_id [] k = k"
| "report_first_cycle env g field_id (r # rs) k =
     (case cycle_chain g field_id r of
        None \<Rightarrow> report_first_cycle env g field_id rs k
      | Some chain \<Rightarrow>
          (let names = join '' -> '' (label_of env field_id # map (\<lambda>n. label_of env (dn_field n)) chain)
           in report Cycle (''Circular reference: '' @ names) (rf_start r) (rf_end r)
                [(''path'', PText names)] k))"

definition report_cycle :: "environment \<Rightarrow> string \<Rightarrow> checker \<Rightarrow> checker" where
  "report_cycle env field_id k =
     report_first_cycle env (build_graph (cycle_definitions env field_id k)) field_id (self_reads k) k"

text \<open>
  \<open>fieldDepth\<close>; every nested call has one more path in \<open>visiting\<close>, so the fuel given is enough.
\<close>

fun max_depths :: "(field \<Rightarrow> nat option) \<Rightarrow> field list \<Rightarrow> nat \<Rightarrow> nat option" where
  "max_depths f [] d = Some d"
| "max_depths f (x # xs) d = (case f x of None \<Rightarrow> None | Some n \<Rightarrow> max_depths f xs (max d n))"

definition dependency_target :: "environment \<Rightarrow> field_ref \<Rightarrow> field option" where
  "dependency_target env r =
     find_first (\<lambda>f. f_id f = ref_id r \<and> scope_key (f_scope f) = scope_key (ref_scope r)) env"

definition targets :: "environment \<Rightarrow> field \<Rightarrow> field list" where
  "targets env f =
     concat (map (\<lambda>r. opt_list (dependency_target env r))
       (case f_dependencies f of None \<Rightarrow> [] | Some ds \<Rightarrow> ds))"

primrec field_depth :: "nat \<Rightarrow> environment \<Rightarrow> string list \<Rightarrow> field \<Rightarrow> nat option" where
  "field_depth 0 env = (\<lambda>visiting f. None)"
| "field_depth (Suc n) env =
     (\<lambda>visiting f.
        if \<not> is_computed_field f then Some 0
        else case f_depth f of
               Some d \<Rightarrow> Some d
             | None \<Rightarrow>
                 (if field_path f \<in> set visiting \<or> \<not> has_dependencies f then Some 1
                  else map_option Suc
                         (max_depths (field_depth n env (field_path f # visiting)) (targets env f) 0)))"

definition depth_of :: "environment \<Rightarrow> field \<Rightarrow> nat" where
  "depth_of env f = (case field_depth (Suc (Suc (length env))) env [] f of None \<Rightarrow> 0 | Some d \<Rightarrow> d)"

fun deepest_reference ::
  "environment \<Rightarrow> reference list \<Rightarrow> nat \<Rightarrow> reference option \<Rightarrow> nat \<times> reference option" where
  "deepest_reference env [] d best = (d, best)"
| "deepest_reference env (r # rs) d best =
     (if d < depth_of env (rf_field r) + 1
      then deepest_reference env rs (depth_of env (rf_field r) + 1) (Some r)
      else deepest_reference env rs d best)"

section \<open>\<open>checkFormula\<close>\<close>

record check_options =
  o_field_id :: "string option"
  o_formula_depth :: "nat option"

definition default_formula_depth :: nat where "default_formula_depth = 5"

record check_result =
  r_ast :: "expr option"
  r_type :: "formula_type option"
  r_errors :: "diagnostic list"
  r_dependencies :: "field_ref list"
  r_depth :: "nat option"

fun dependency_refs :: "string list \<Rightarrow> reference list \<Rightarrow> field_ref list" where
  "dependency_refs seen [] = []"
| "dependency_refs seen (r # rs) =
     (if field_path (rf_field r) \<in> set seen then dependency_refs seen rs
      else \<lparr>ref_id = f_id (rf_field r), ref_scope = f_scope (rf_field r)\<rparr>
             # dependency_refs (field_path (rf_field r) # seen) rs)"

definition sort_diagnostics :: "diagnostic list \<Rightarrow> diagnostic list" where
  "sort_diagnostics ds = sort_key d_start (sort_key d_end ds)"

definition check_depth :: "environment \<Rightarrow> check_options \<Rightarrow> checker \<Rightarrow> nat \<times> checker" where
  "check_depth env opts k =
     (let limit = (case o_formula_depth opts of Some n \<Rightarrow> n | None \<Rightarrow> default_formula_depth)
      in case deepest_reference env (k_references k) 1 None of
           (d, best) \<Rightarrow>
             (d, (case best of
                    Some r \<Rightarrow>
                      (if limit < d
                       then report DepthExceeded
                              (''This formula would be '' @ nat_digits d @ '' formulas deep through '' @
                               quoted (f_label (rf_field r)) @ ''; the limit is '' @ nat_digits limit)
                              (rf_start r) (rf_end r)
                              [(''depth'', PNum d), (''limit'', PNum limit),
                               (''field'', PText (f_label (rf_field r)))] k
                       else k)
                  | None \<Rightarrow> k)))"

definition check_formula :: "node \<Rightarrow> environment \<Rightarrow> check_options \<Rightarrow> check_result" where
  "check_formula syn env opts =
     (case check env syn \<lparr>k_errors = [], k_references = []\<rparr> of
        (res, k1) \<Rightarrow>
          (let deps = dependency_refs [] (k_references k1);
               k2 = (case o_field_id opts of None \<Rightarrow> k1 | Some i \<Rightarrow> report_cycle env i k1)
           in case check_depth env opts k2 of
                (d, k3) \<Rightarrow>
                  (let k4 = (if k_errors k3 = [] \<and> c_type res = Blank
                             then report_at UndeterminedType
                                    ''This formula is always blank, so it has no type'' syn [] k3
                             else k3)
                   in case c_type res of
                        Typed t \<Rightarrow>
                          (if k_errors k4 = []
                           then \<lparr>r_ast = Some (c_ast res), r_type = Some t, r_errors = [],
                                 r_dependencies = deps, r_depth = Some d\<rparr>
                           else \<lparr>r_ast = None, r_type = None, r_errors = sort_diagnostics (k_errors k4),
                                 r_dependencies = deps, r_depth = None\<rparr>)
                      | _ \<Rightarrow> \<lparr>r_ast = None, r_type = None, r_errors = sort_diagnostics (k_errors k4),
                               r_dependencies = deps, r_depth = None\<rparr>)))"

end
