(* ===== verification/Formula_Evaluate.thy ===== *)
theory Formula_Evaluate
  imports Formula_Check Expr_Eval
begin

text \<open>
  The evaluation of a formula for one record (\<open>formula/src/evaluate.ts\<close>): the walk evaluates the
  operands, hands each node with its operands as literals to the canonical evaluator
  (\<open>Expr_Eval.eval\<close>) and inspects the result.  An outcome is a value, a fault with its error code, or
  a JavaScript exception, which \<open>evaluate\<close> catches.
  Groups and rules are the tagged ones (\<open>kind: "group"\<close>, \<open>kind: "rule"\<close>), the only ones a checked
  formula has.
\<close>

section \<open>Limits\<close>

definition max_text_length :: nat where "max_text_length = 10000"
definition max_result_text_length :: nat where "max_result_text_length = 1000"
definition max_result_text_bytes :: nat where "max_result_text_bytes = 2000"
definition rounding_decimals :: nat where "rounding_decimals = 10"

text \<open>\<open>0001-01-01T00:00:00.000Z\<close> and \<open>+010000-01-01T00:00:00.000Z\<close> in milliseconds.\<close>

definition first_instant :: int where "first_instant = - 62135596800000"
definition end_instant :: int where "end_instant = 253402300800000"

section \<open>Outcomes\<close>

datatype outcome = Value jsval | Fault error_code | Thrown

fun obind :: "outcome \<Rightarrow> (jsval \<Rightarrow> outcome) \<Rightarrow> outcome" where
  "obind (Value v) f = f v"
| "obind (Fault e) f = Fault e"
| "obind Thrown f = Thrown"

text \<open>\<open>check\<close>: a NaN, an infinity, an invalid date or a long text becomes the fault that explains it.\<close>

definition check_value :: "jsval \<Rightarrow> outcome" where
  "check_value v =
     (case v of
        VNum x \<Rightarrow>
          (if js_is_nan x then Fault InvalidNumber
           else if \<not> js_finite x then Fault NumberOutOfRange else Value v)
      | VStr s \<Rightarrow> (if max_text_length < length s then Fault TextTooLong else Value v)
      | VDate None \<Rightarrow> Fault InvalidDate
      | VUndef \<Rightarrow> Value VNull
      | _ \<Rightarrow> Value v)"

section \<open>Reading a field\<close>

text \<open>\<open>new Map(env.map(...))\<close>: the last field with a path decides.\<close>

definition field_types :: "environment \<Rightarrow> (string \<times> string) list" where
  "field_types env = rev (map (\<lambda>f. (field_path f, f_type f)) env)"

text \<open>The digits \<open>\d{n}\<close> at the start of a text, and what follows them.\<close>

definition take_digits :: "nat \<Rightarrow> string \<Rightarrow> (string \<times> string) option" where
  "take_digits n s =
     (if n \<le> length s \<and> list_all is_digit (take n s) then Some (take n s, drop n s) else None)"

definition take_char :: "char \<Rightarrow> string \<Rightarrow> string option" where
  "take_char c s = (if s \<noteq> [] \<and> hd s = c then Some (tl s) else None)"

text \<open>\<open>^(\d{4})-(\d{2})-(\d{2})\<close>, the year, month and day and the rest of the text.\<close>

definition scan_day :: "string \<Rightarrow> (nat \<times> nat \<times> nat \<times> string) option" where
  "scan_day s =
     Option.bind (take_digits 4 s) (\<lambda>(y, s1).
     Option.bind (take_char CHR ''-'' s1) (\<lambda>s2.
     Option.bind (take_digits 2 s2) (\<lambda>(m, s3).
     Option.bind (take_char CHR ''-'' s3) (\<lambda>s4.
     Option.bind (take_digits 2 s4) (\<lambda>(d, s5).
     Some (digits_value y, digits_value m, digits_value d, s5))))))"

definition iso_date :: "string \<Rightarrow> (nat \<times> nat \<times> nat) option" where
  "iso_date s = (case scan_day s of Some (y, m, d, []) \<Rightarrow> Some (y, m, d) | _ \<Rightarrow> None)"

text \<open>\<open>(?:Z|[+-]\d{2}:?\d{2})$\<close>.\<close>

definition is_zone :: "string \<Rightarrow> bool" where
  "is_zone s =
     (s = ''Z'' \<or>
      (s \<noteq> [] \<and> (hd s = CHR ''+'' \<or> hd s = CHR ''-'') \<and>
       (case take_digits 2 (tl s) of
          None \<Rightarrow> False
        | Some (_, r) \<Rightarrow>
            (case take_digits 2 (case take_char CHR '':'' r of Some r' \<Rightarrow> r' | None \<Rightarrow> r) of
               Some (_, []) \<Rightarrow> True
             | _ \<Rightarrow> False))))"

text \<open>\<open>(?::\d{2}(?:\.\d+)?)?\<close> before the zone; each optional part is present or not.\<close>

definition is_fraction_zone :: "string \<Rightarrow> bool" where
  "is_fraction_zone s =
     (is_zone s \<or>
      (case take_char CHR ''.'' s of
         None \<Rightarrow> False
       | Some r \<Rightarrow> takeWhile is_digit r \<noteq> [] \<and> is_zone (dropWhile is_digit r)))"

definition is_seconds_zone :: "string \<Rightarrow> bool" where
  "is_seconds_zone s =
     (is_zone s \<or>
      (case take_char CHR '':'' s of
         None \<Rightarrow> False
       | Some r \<Rightarrow> (case take_digits 2 r of None \<Rightarrow> False | Some (_, r') \<Rightarrow> is_fraction_zone r')))"

definition iso_timestamp :: "string \<Rightarrow> bool" where
  "iso_timestamp s =
     (case scan_day s of
        None \<Rightarrow> False
      | Some (_, _, _, r) \<Rightarrow>
          (case Option.bind (take_char CHR ''T'' r) (take_digits 2) of
             None \<Rightarrow> False
           | Some (_, r1) \<Rightarrow>
               (case Option.bind (take_char CHR '':'' r1) (take_digits 2) of
                  None \<Rightarrow> False
                | Some (_, r2) \<Rightarrow> is_seconds_zone r2)))"

definition read_number :: "jsval \<Rightarrow> outcome" where
  "read_number raw =
     (case raw of
        VNum x \<Rightarrow> (if js_finite x then Value raw else Fault TypeError)
      | VStr s \<Rightarrow>
          (if js_trim s \<noteq> [] \<and> js_finite (text_to_number s) then Value (VNum (text_to_number s))
           else Fault TypeError)
      | _ \<Rightarrow> Fault TypeError)"

definition read_date :: "host \<Rightarrow> jsval \<Rightarrow> outcome" where
  "read_date h raw =
     (case raw of
        VDate None \<Rightarrow> Fault InvalidDate
      | VDate (Some t) \<Rightarrow> Value raw
      | VStr s \<Rightarrow>
          (case iso_date s of
             Some (y, m, d) \<Rightarrow>
               (case date_utc (int y) (int m - 1) (int d) 0 0 0 0 of
                  Some t \<Rightarrow> (if utc_date t = int d then Value (VDate (Some t)) else Fault InvalidDate)
                | None \<Rightarrow> Fault InvalidDate)
           | None \<Rightarrow>
               (if \<not> iso_timestamp s then Fault InvalidDate
                else case h_parse_date h s of
                       None \<Rightarrow> Fault InvalidDate
                     | Some t \<Rightarrow> Value (VDate (Some t))))
      | _ \<Rightarrow> Fault TypeError)"

definition read_typed :: "host \<Rightarrow> string option \<Rightarrow> jsval \<Rightarrow> outcome" where
  "read_typed h ty raw =
     (case Option.bind ty formula_type_of of
        None \<Rightarrow> check_value raw
      | Some TNumber \<Rightarrow> read_number raw
      | Some TText \<Rightarrow> (case raw of VStr s \<Rightarrow> check_value raw | _ \<Rightarrow> Fault TypeError)
      | Some TBoolean \<Rightarrow> (case raw of VBool b \<Rightarrow> Value raw | _ \<Rightarrow> Fault TypeError)
      | Some TDate \<Rightarrow> read_date h raw
      | Some TTimestamp \<Rightarrow> read_date h raw)"

definition read_field :: "host \<Rightarrow> (string \<times> string) list \<Rightarrow> string \<Rightarrow> jsval \<Rightarrow> outcome" where
  "read_field h types path r =
     (let raw = eval h (EPath path False None) r
      in if is_nullish raw then Value VNull else read_typed h (map_of types path) raw)"

section \<open>The length of a text before it is built\<close>

definition text_of :: "host \<Rightarrow> jsval \<Rightarrow> string" where
  "text_of h v =
     (case v of
        VUndef \<Rightarrow> []
      | VNull \<Rightarrow> []
      | VDate None \<Rightarrow> []
      | VDate (Some t) \<Rightarrow> iso_string t
      | _ \<Rightarrow> js_string h v)"

text \<open>
  The loop over \<open>indexOf\<close>; it runs only for a needle that is not empty, which makes it end.
\<close>

function count_from :: "string \<Rightarrow> string \<Rightarrow> nat \<Rightarrow> nat" where
  "count_from s p i =
     (case index_of_from s p i of
        None \<Rightarrow> 0
      | Some j \<Rightarrow> (if p = [] \<or> length s \<le> j then 1 else Suc (count_from s p (j + length p))))"
  by pat_completeness auto
termination
proof (relation "measure (\<lambda>(s, p, i). length s - i)")
  fix s p :: string and i j
  assume i: "index_of_from s p i = Some j" "\<not> (p = [] \<or> length s \<le> j)"
  then have "i \<le> j" "j < length s" "0 < length p" by (auto simp: index_of_from_def)
  then show "((s, p, j + length p), (s, p, i)) \<in> measure (\<lambda>(s, p, i). length s - i)"
    using add_less_le_mono [of 0 "length p" i j] by (simp add: diff_less_mono2 add.commute)
qed simp

declare count_from.simps [simp del]

definition occurrences :: "string \<Rightarrow> string \<Rightarrow> jsval \<Rightarrow> nat" where
  "occurrences s p occ = (if is_nullish occ then count_from s p 0 else min 1 (count_from s p 0))"

text \<open>
  \<open>builtLength\<close>; \<open>None\<close> where \<open>replacement.length\<close> is read of a missing operand, which throws.
\<close>

definition substitute_length :: "host \<Rightarrow> jsval list \<Rightarrow> nat option" where
  "substitute_length h vs =
     (if 1 < length vs \<and> text_of h (nth_val vs 1) = [] then Some 0
      else if length vs < 3 then None
      else let text = text_of h (nth_val vs 0);
               needle = text_of h (nth_val vs 1);
               replacement = text_of h (nth_val vs 2)
           in if length replacement \<le> length needle then Some 0
              else Some (length text +
                     occurrences text needle (nth_val vs 3) * (length replacement - length needle)))"

definition built_length :: "host \<Rightarrow> formula_op \<Rightarrow> jsval list \<Rightarrow> nat option" where
  "built_length h oper vs =
     (case oper of
        FConcat \<Rightarrow> Some (sum_list (map (\<lambda>v. length (text_of h v)) vs))
      | FSubstitute \<Rightarrow> substitute_length h vs
      | _ \<Rightarrow> Some 0)"

text \<open>\<open>toDivisor\<close>: whether a divisor counts as 0.\<close>

definition zero_divisor :: "jsval \<Rightarrow> bool" where
  "zero_divisor v =
     (case v of
        VUndef \<Rightarrow> True
      | VNull \<Rightarrow> True
      | VStr s \<Rightarrow> s = []
      | VNum x \<Rightarrow> js_is_zero x
      | _ \<Rightarrow> False)"

section \<open>\<open>run\<close>\<close>

text \<open>The loops of \<open>run\<close> over the runs of a node's children, which are functions of the record.\<close>

fun run_all :: "(jsval \<Rightarrow> outcome) list \<Rightarrow> jsval \<Rightarrow> outcome + jsval list" where
  "run_all [] r = Inr []"
| "run_all (f # fs) r =
     (case f r of
        Value v \<Rightarrow> (case run_all fs r of Inl x \<Rightarrow> Inl x | Inr vs \<Rightarrow> Inr (v # vs))
      | x \<Rightarrow> Inl x)"

fun run_group :: "bool \<Rightarrow> (jsval \<Rightarrow> outcome) list \<Rightarrow> jsval \<Rightarrow> outcome" where
  "run_group any [] r = Value (VBool (\<not> any))"
| "run_group any (f # fs) r =
     obind (f r) (\<lambda>v.
       if any \<and> v = VBool True then Value (VBool True)
       else if \<not> any \<and> v \<noteq> VBool True then Value (VBool False)
       else run_group any fs r)"

fun run_switch ::
  "jsval \<Rightarrow> ((jsval \<Rightarrow> outcome) \<times> (jsval \<Rightarrow> outcome)) list \<Rightarrow> (jsval \<Rightarrow> outcome) option \<Rightarrow>
   jsval \<Rightarrow> outcome" where
  "run_switch subject [] fallback r =
     (case fallback of None \<Rightarrow> Value VNull | Some f \<Rightarrow> f r)"
| "run_switch subject ((w, t) # cases) fallback r =
     obind (w r) (\<lambda>pattern.
       if is_equal subject pattern then t r else run_switch subject cases fallback r)"

definition empty_payload :: jsval where "empty_payload = VObj None []"

definition run_formula :: "host \<Rightarrow> formula_op \<Rightarrow> jsval list \<Rightarrow> outcome" where
  "run_formula h oper vs =
     (if (oper = FDiv \<or> oper = FMod) \<and> list_ex zero_divisor (tl vs) then Fault DivideByZero
      else case built_length h oper vs of
             None \<Rightarrow> Thrown
           | Some n \<Rightarrow>
               (if max_text_length < n then Fault TextTooLong
                else check_value (eval h (EFormula oper (map ELit vs)) empty_payload)))"

definition run_is_error :: "outcome \<Rightarrow> outcome" where
  "run_is_error x =
     (case x of
        Value v \<Rightarrow> Value (VBool (is_error_value v))
      | Fault e \<Rightarrow> Value (VBool True)
      | Thrown \<Rightarrow> Thrown)"

text \<open>An operand that is left out stays left out.\<close>

fun run_option :: "(jsval \<Rightarrow> outcome) option \<Rightarrow> jsval \<Rightarrow> (jsval option \<Rightarrow> outcome) \<Rightarrow> outcome" where
  "run_option None r k = k None"
| "run_option (Some f) r k = obind (f r) (\<lambda>v. k (Some v))"

primrec run :: "host \<Rightarrow> (string \<times> string) list \<Rightarrow> expr \<Rightarrow> jsval \<Rightarrow> outcome" where
  "run h types (ELit v) = (\<lambda>r. check_value v)"
| "run h types (EPath path flt off) = (\<lambda>r. read_field h types path r)"
| "run h types (EIf c t e) =
     (\<lambda>r. obind (run h types c r) (\<lambda>test.
        if test = VBool True then run h types t r
        else case map_option (run h types) e of None \<Rightarrow> Value VNull | Some f \<Rightarrow> f r))"
| "run h types (ESwitch s cs d) =
     (\<lambda>r. obind (run h types s r) (\<lambda>subject.
        run_switch subject (map (map_prod (run h types) (run h types)) cs)
          (map_option (run h types) d) r))"
| "run h types (EGroup m cs al an) =
     (\<lambda>r. run_group (group_mode m an = ModeAny)
            (group_children (map_option (map (run h types)) cs) (map_option (map (run h types)) al)
               (map_option (map (run h types)) an)) r)"
| "run h types (EFormula oper es) =
     (\<lambda>r. if oper = FIsError
          then (case map (run h types) es of [] \<Rightarrow> Thrown | f # fs \<Rightarrow> run_is_error (f r))
          else (case run_all (map (run h types) es) r of
                  Inl x \<Rightarrow> x
                | Inr vs \<Rightarrow> run_formula h oper vs))"
| "run h types (ERule oper left right) =
     (\<lambda>r. obind (run h types left r) (\<lambda>l.
        run_option (map_option (run h types) right) r (\<lambda>rv.
          Value (eval h (ERule oper (ELit l) (map_option ELit rv)) empty_payload))))"
| "run h types (EDate oper left right u) =
     (\<lambda>r. run_option (map_option (run h types) left) r (\<lambda>l.
        run_option (map_option (run h types) right) r (\<lambda>rv.
          check_value (eval h (EDate oper (map_option ELit l) (map_option ELit rv) u) empty_payload))))"
| "run h types (EFun f off) = (\<lambda>r. check_value (eval h (EFun f off) r))"
| "run h types (ECoalesce es) = (\<lambda>r. check_value (eval h (ECoalesce es) r))"
| "run h types (EAggregate oper coll w f) = (\<lambda>r. check_value (eval h (EAggregate oper coll w f) r))"
| "run h types EMissing = (\<lambda>r. Thrown)"
| "run h types ENonObject = (\<lambda>r. check_value (eval h ENonObject r))"
| "run h types (EOther k) = (\<lambda>r. check_value (eval h (EOther k) r))"

section \<open>The result\<close>

definition rounded :: "jsnum \<Rightarrow> jsnum" where
  "rounded x = positive_zero (js_to_fixed rounding_decimals x)"

text \<open>The bytes of a text as UTF-8, one or two for each code unit of Latin-1.\<close>

definition utf8_length :: "string \<Rightarrow> nat" where
  "utf8_length s = sum_list (map (\<lambda>c. if code c < 128 then 1 else 2) s)"

definition in_range_instant :: "int \<Rightarrow> bool" where
  "in_range_instant t = (first_instant \<le> t \<and> t < end_instant)"

type_synonym evaluation = "error_code + formula_value"

text \<open>The value as a value of the formula's static type, if it has one.\<close>

definition finish_typed :: "formula_type option \<Rightarrow> jsval \<Rightarrow> evaluation" where
  "finish_typed ty v =
     (case ty of
        None \<Rightarrow>
          (case v of
             VDate (Some t) \<Rightarrow> Inr (FText (iso_string t))
           | VNum x \<Rightarrow> Inr (FNumber (rounded x))
           | VStr s \<Rightarrow> Inr (FText s)
           | VBool b \<Rightarrow> Inr (FBool b)
           | _ \<Rightarrow> Inl TypeError)
      | Some TNumber \<Rightarrow> (case v of VNum x \<Rightarrow> Inr (FNumber (rounded x)) | _ \<Rightarrow> Inl TypeError)
      | Some TText \<Rightarrow> (case v of VStr s \<Rightarrow> Inr (FText s) | _ \<Rightarrow> Inl TypeError)
      | Some TBoolean \<Rightarrow> (case v of VBool b \<Rightarrow> Inr (FBool b) | _ \<Rightarrow> Inl TypeError)
      | Some TDate \<Rightarrow>
          (case v of VDate (Some t) \<Rightarrow> Inr (FText (take 10 (iso_string t))) | _ \<Rightarrow> Inl TypeError)
      | Some TTimestamp \<Rightarrow>
          (case v of VDate (Some t) \<Rightarrow> Inr (FText (iso_string t)) | _ \<Rightarrow> Inl TypeError))"

definition finish :: "formula_type option \<Rightarrow> jsval \<Rightarrow> evaluation" where
  "finish ty v =
     (if is_nullish v then Inr FNull
      else case v of
        VDate t \<Rightarrow>
          (case t of
             None \<Rightarrow> Inl InvalidDate
           | Some t' \<Rightarrow> (if in_range_instant t' then finish_typed ty v else Inl InvalidDate))
      | VStr s \<Rightarrow>
          (if max_result_text_length < length s \<or> max_result_text_bytes < utf8_length s
           then Inl TextTooLong else finish_typed ty v)
      | _ \<Rightarrow> finish_typed ty v)"

record evaluate_options =
  e_env :: "environment option"
  e_result_type :: "formula_type option"

definition evaluate :: "host \<Rightarrow> expr \<Rightarrow> jsval \<Rightarrow> evaluate_options \<Rightarrow> evaluation" where
  "evaluate h e r opts =
     (case run h (field_types (case e_env opts of None \<Rightarrow> [] | Some env \<Rightarrow> env)) e r of
        Value v \<Rightarrow> finish (e_result_type opts) v
      | Fault x \<Rightarrow> Inl x
      | Thrown \<Rightarrow> Inl TypeError)"

section \<open>Facts\<close>

text \<open>What every value met during an evaluation satisfies.\<close>

fun bounded_value :: "jsval \<Rightarrow> bool" where
  "bounded_value VUndef = False"
| "bounded_value (VNum x) = js_finite x"
| "bounded_value (VStr s) = (length s \<le> 10000)"
| "bounded_value (VDate t) = (t \<noteq> None)"
| "bounded_value _ = True"

lemma obind_Value: "obind x f = Value v \<longleftrightarrow> (\<exists>w. x = Value w \<and> f w = Value v)"
  by (cases x) auto

lemma obind_Fault: "obind x f = Fault e \<longleftrightarrow> x = Fault e \<or> (\<exists>w. x = Value w \<and> f w = Fault e)"
  by (cases x) auto

lemma obind_Thrown: "obind x f = Thrown \<longleftrightarrow> x = Thrown \<or> (\<exists>w. x = Value w \<and> f w = Thrown)"
  by (cases x) auto

lemmas obind_simps = obind_Value obind_Fault obind_Thrown

lemma check_value_bounded: "check_value v = Value w \<Longrightarrow> bounded_value w"
  by (cases v) (auto simp: check_value_def max_text_length_def split: if_splits option.splits)

lemma read_date_bounded: "read_date h raw = Value w \<Longrightarrow> \<exists>t. w = VDate (Some t)"
  by (auto simp: read_date_def split: jsval.splits option.splits if_splits)

lemma read_typed_bounded: "read_typed h ty raw = Value w \<Longrightarrow> bounded_value w"
  by (auto simp: read_typed_def read_number_def check_value_bounded dest: read_date_bounded
      split: option.splits formula_type.splits jsval.splits if_splits)

lemma read_field_bounded: "read_field h types p r = Value w \<Longrightarrow> bounded_value w"
  by (auto simp: read_field_def Let_def read_typed_bounded split: if_splits)

lemma run_group_bool: "run_group any fs r = Value v \<Longrightarrow> \<exists>b. v = VBool b"
  by (induction fs) (auto simp: obind_simps split: if_splits)

lemma run_switch_Value:
  "run_switch s cs d r = Value v \<Longrightarrow>
   v = VNull \<or> (\<exists>t\<in>snd ` set cs. t r = Value v) \<or> (\<exists>f\<in>set_option d. f r = Value v)"
  by (induction cs) (auto simp: obind_simps split: if_splits option.splits)

lemma run_is_error_bool: "run_is_error x = Value v \<Longrightarrow> \<exists>b. v = VBool b"
  by (auto simp: run_is_error_def split: outcome.splits)

lemma run_formula_bounded: "run_formula h oper vs = Value v \<Longrightarrow> bounded_value v"
  by (auto simp: run_formula_def check_value_bounded split: if_splits option.splits)

lemma run_option_Value:
  "run_option f r k = Value v \<Longrightarrow> \<exists>w. k w = Value v"
  by (cases f) (auto simp: obind_simps)

lemma run_all_no_value [simp]: "run_all fs r \<noteq> Inl (Value v)"
  by (induction fs) (auto split: outcome.splits sum.splits)

lemma run_bounded: "run h types e r = Value v \<Longrightarrow> bounded_value v"
proof (induction e arbitrary: v)
  case (ESwitch s cs d)
  then show ?case
    by (auto simp: obind_simps dest!: run_switch_Value)
next
  case (EIf c t e)
  then show ?case by (auto simp: obind_simps split: if_splits option.splits)
qed (auto simp: obind_simps check_value_bounded read_field_bounded
       dest!: run_group_bool run_is_error_bool run_formula_bounded run_option_Value
       split: if_splits list.splits option.splits sum.splits)

end
