(* ===== verification/Formula_Typing.thy ===== *)
theory Formula_Typing
  imports Formula_Evaluate
begin

text \<open>
  A type system for canonical trees, stated without the checker: what each operator takes and gives,
  as the inductive relation \<open>has_type\<close> over the fields a formula reads.  The evaluation of a typed
  tree over a record whose fields can be read gives a value of its type, blank, or a fault that is
  not \<open>typeError\<close>; it never throws.
\<close>

section \<open>A declarative type system\<close>

definition op_result :: "formula_op \<Rightarrow> formula_type" where
  "op_result oper =
     (if oper \<in> {FConcat, FLower, FUpper, FSubstring, FLeft, FRight, FMid, FTrim, FSubstitute} then TText
      else if oper \<in> {FMatches, FNot, FIsError} then TBoolean else TNumber)"

definition op_operand :: "formula_op \<Rightarrow> nat \<Rightarrow> formula_type list" where
  "op_operand oper i =
     (if oper = FConcat then [TText, TNumber, TBoolean]
      else if oper \<in> {FLower, FUpper, FLen, FTrim, FValue} then [TText]
      else if oper \<in> {FLeft, FRight, FMid} then (if i = 0 then [TText] else [TNumber])
      else if oper = FSubstitute then (if i < 3 then [TText] else [TNumber])
      else if oper = FNot then [TBoolean]
      else if oper = FIsError then formula_types
      else if oper \<in> {FSubstring, FMatches} then []
      else [TNumber])"

definition op_least :: "formula_op \<Rightarrow> nat" where
  "op_least oper =
     (if oper \<in> {FMid, FSubstitute} then 3
      else if oper \<in> {FAdd, FSub, FMul, FDiv, FMod, FPower, FLeft, FRight} then 2 else 1)"

fun fits :: "value_type \<Rightarrow> formula_type list \<Rightarrow> bool" where
  "fits Blank ts = True"
| "fits Invalid ts = False"
| "fits (Typed t) ts = (t \<in> set ts)"

definition compare_ops :: "cond_op list" where
  "compare_ops = [Equals, NotEquals, LessThan, GreaterThan, LessThanOrEquals, GreaterThanOrEquals]"

inductive has_type :: "field set \<Rightarrow> expr \<Rightarrow> value_type \<Rightarrow> bool" for F :: "field set" where
  ty_number: "has_type F (ELit (VNum x)) (Typed TNumber)"
| ty_text: "has_type F (ELit (VStr s)) (Typed TText)"
| ty_boolean: "has_type F (ELit (VBool b)) (Typed TBoolean)"
| ty_null: "has_type F (ELit VNull) Blank"
| ty_blank: "has_type F e Blank \<Longrightarrow> has_type F e (Typed t)"
| ty_field: "\<lbrakk>f \<in> F; formula_type_of (f_type f) = Some t\<rbrakk> \<Longrightarrow>
    has_type F (EPath (field_path f) False None) (Typed t)"
| ty_op: "\<lbrakk>op_least oper \<le> length es; length ts = length es;
    \<forall>i < length es. has_type F (es ! i) (ts ! i) \<and> fits (ts ! i) (op_operand oper i)\<rbrakk> \<Longrightarrow>
    has_type F (EFormula oper es) (Typed (op_result oper))"
| ty_if: "\<lbrakk>has_type F c (Typed TBoolean); has_type F a t; has_type F b t\<rbrakk> \<Longrightarrow>
    has_type F (EIf c a (Some b)) t"
| ty_switch: "\<lbrakk>has_type F s st; \<forall>(w, x)\<in>set cs. (\<exists>wt. has_type F w wt \<and> comparable st wt) \<and> has_type F x t;
    \<forall>x\<in>set_option d. has_type F x t; t \<noteq> Invalid\<rbrakk> \<Longrightarrow> has_type F (ESwitch s cs d) t"
| ty_group: "\<forall>e\<in>set es. has_type F e (Typed TBoolean) \<Longrightarrow>
    has_type F (EGroup (Some m) (Some es) None None) (Typed TBoolean)"
| ty_compare: "\<lbrakk>oper \<in> set compare_ops; has_type F l lt; has_type F r rt; comparable lt rt;
    oper \<in> {Equals, NotEquals} \<or> (orderable lt \<and> orderable rt)\<rbrakk> \<Longrightarrow>
    has_type F (ERule oper l (Some r)) (Typed TBoolean)"
| ty_empty: "\<lbrakk>oper \<in> {IsEmpty, IsNotEmpty}; has_type F l lt\<rbrakk> \<Longrightarrow>
    has_type F (ERule oper l None) (Typed TBoolean)"
| ty_date_part: "\<lbrakk>oper \<in> {DYear, DMonth, DDay}; has_type F d dt; fits dt temporal\<rbrakk> \<Longrightarrow>
    has_type F (EDate oper (Some d) None None) (Typed TNumber)"
| ty_date_add: "\<lbrakk>has_type F d dt; fits dt temporal; has_type F n nt; fits nt [TNumber]\<rbrakk> \<Longrightarrow>
    has_type F (EDate DAdd (Some d) (Some n) (Some u))
      (Typed (if dt = Typed TDate \<and> u \<in> set calendar_day_units then TDate else TTimestamp))"
| ty_date_diff: "\<lbrakk>has_type F a ta; fits ta temporal; has_type F b tb; fits tb temporal\<rbrakk> \<Longrightarrow>
    has_type F (EDate DDiff (Some a) (Some b) (Some u)) (Typed TNumber)"
| ty_date_format: "\<lbrakk>has_type F d dt; fits dt temporal;
    \<forall>x\<in>set_option f. \<exists>ft. has_type F x ft \<and> fits ft [TText]\<rbrakk> \<Longrightarrow>
    has_type F (EDate DFormat (Some d) f None) (Typed TText)"
| ty_record_id: "has_type F (EFun FnRecordId None) (Typed TText)"
| ty_created: "has_type F (EFun FnCreatedTime None) (Typed TTimestamp)"

lemma has_type_mono: "has_type F e t \<Longrightarrow> F \<subseteq> G \<Longrightarrow> has_type G e t"
proof (induction rule: has_type.induct)
  case (ty_switch s st cs t d)
  then show ?case by (intro has_type.ty_switch) fast+
next
  case (ty_date_format d dt f)
  then show ?case by (intro has_type.ty_date_format) fast+
qed (blast intro: has_type.intros)+

lemma has_type_valid: "has_type F e t \<Longrightarrow> t \<noteq> Invalid"
  by (induction rule: has_type.induct) auto

section \<open>Evaluation respects types\<close>

fun conforms :: "formula_type \<Rightarrow> jsval \<Rightarrow> bool" where
  "conforms TText v = (\<exists>s. v = VStr s)"
| "conforms TNumber v = (\<exists>x. v = VNum x)"
| "conforms TBoolean v = (\<exists>b. v = VBool b)"
| "conforms TDate v = (\<exists>t. v = VDate t)"
| "conforms TTimestamp v = (\<exists>t. v = VDate t)"

fun value_has :: "value_type \<Rightarrow> jsval \<Rightarrow> bool" where
  "value_has Blank v = (v = VNull)"
| "value_has Invalid v = False"
| "value_has (Typed t) v = (v = VNull \<or> conforms t v)"

fun safe_outcome_of :: "value_type \<Rightarrow> outcome \<Rightarrow> bool" where
  "safe_outcome_of t (Value v) = value_has t v"
| "safe_outcome_of t (Fault e) = (e \<noteq> TypeError)"
| "safe_outcome_of t Thrown = False"

definition id_is_text :: "host \<Rightarrow> jsval \<Rightarrow> bool" where
  "id_is_text h r = (is_nullish (get_prop h r ''id'') \<or> (\<exists>s. get_prop h r ''id'' = VStr s))"

definition readable :: "host \<Rightarrow> (string \<times> string) list \<Rightarrow> field set \<Rightarrow> jsval \<Rightarrow> bool" where
  "readable h types F r =
     (\<forall>f\<in>F. map_of types (field_path f) = Some (f_type f) \<and>
             read_field h types (field_path f) r \<noteq> Fault TypeError)"

lemma check_value_safe: "is_nullish v \<or> conforms t v \<Longrightarrow> safe_outcome_of (Typed t) (check_value v)"
  by (cases v; cases t) (auto simp: check_value_def split: option.splits)

lemma eval_formula_op_conforms:
  "is_nullish (eval_formula_op h oper vs) \<or> conforms (op_result oper) (eval_formula_op h oper vs)"
  by (cases oper) (auto simp: eval_formula_op_def op_result_def Let_def parse_number_text_def
      split: jsval.splits)

lemma read_field_safe:
  assumes "readable h types F r" "f \<in> F" "formula_type_of (f_type f) = Some t"
  shows "safe_outcome_of (Typed t) (read_field h types (field_path f) r)"
proof -
  have m: "map_of types (field_path f) = Some (f_type f)"
    and n: "read_field h types (field_path f) r \<noteq> Fault TypeError"
    using assms by (auto simp: readable_def)
  show ?thesis using n assms(3)
    by (cases t) (auto simp: read_field_def Let_def m read_typed_def read_number_def read_date_def check_value_def
      split: if_splits jsval.splits option.splits)
qed

lemma run_all_safe:
  "list_all2 (\<lambda>f t. safe_outcome_of t (f r)) fs ts \<Longrightarrow>
   (case run_all fs r of Inl x \<Rightarrow> \<exists>e. x = Fault e \<and> e \<noteq> TypeError | Inr vs \<Rightarrow> length vs = length fs)"
  by (induction fs ts rule: list_all2_induct) (auto split: sum.splits outcome.splits)

lemma run_formula_safe:
  assumes "oper = FSubstitute \<longrightarrow> 3 \<le> length vs"
  shows "safe_outcome_of (Typed (op_result oper)) (run_formula h oper vs)"
proof -
  have "built_length h oper vs \<noteq> None"
    using assms by (auto simp: built_length_def substitute_length_def Let_def split: formula_op.splits)
  moreover have "safe_outcome_of (Typed (op_result oper)) (check_value (eval_formula_op h oper vs))"
    by (rule check_value_safe [OF eval_formula_op_conforms])
  ultimately show ?thesis
    by (auto simp: run_formula_def comp_def)
qed

lemma run_group_safe:
  "\<forall>f\<in>set fs. safe_outcome_of (Typed TBoolean) (f r) \<Longrightarrow> safe_outcome_of (Typed TBoolean) (run_group any fs r)"
proof (induction fs)
  case (Cons f fs)
  then show ?case by (cases "f r") auto
qed simp

lemma run_switch_safe:
  assumes "\<forall>(w, x)\<in>set cs. (\<exists>t'. safe_outcome_of t' (w r)) \<and> safe_outcome_of t (x r)"
    "\<forall>f\<in>set_option d. safe_outcome_of t (f r)" "t \<noteq> Invalid"
  shows "safe_outcome_of t (run_switch v cs d r)"
  using assms(1)
proof (induction cs)
  case Nil
  then show ?case using assms(2,3) by (cases t; cases d) auto
next
  case (Cons c cs)
  obtain w x where c: "c = (w, x)" by (cases c)
  from Cons show ?case by (cases "w r") (auto simp: c)
qed

lemma safe_outcome_blank: "safe_outcome_of Blank x \<Longrightarrow> safe_outcome_of (Typed t) x"
  by (cases x) auto

lemma safe_bind:
  "\<lbrakk>safe_outcome_of t x; \<And>v. \<lbrakk>x = Value v; value_has t v\<rbrakk> \<Longrightarrow> safe_outcome_of t' (f v)\<rbrakk> \<Longrightarrow>
   safe_outcome_of t' (obind x f)"
  by (cases x) (auto split: if_splits; cases t'; auto)+

lemma eval_date_op_conforms:
  "is_nullish (eval_date_op h oper u l r) \<or>
   conforms (if oper = DAdd \<or> oper = DNow then TTimestamp else if oper = DFormat then TText else TNumber)
     (eval_date_op h oper u l r)"
  by (cases oper) (auto simp: eval_date_op_def split: option.splits)

lemma conforms_timestamp: "conforms TTimestamp v \<Longrightarrow> t = TDate \<or> t = TTimestamp \<Longrightarrow> conforms t v"
  by auto

lemma run_all_length: "run_all fs r = Inr vs \<Longrightarrow> length vs = length fs"
  by (induction fs arbitrary: vs) (auto split: outcome.splits sum.splits)

lemma run_all_safe':
  "\<forall>f\<in>set fs. \<exists>t. safe_outcome_of t (f r) \<Longrightarrow> run_all fs r = Inl x \<Longrightarrow> safe_outcome_of t' x"
proof (induction fs)
  case (Cons f fs)
  then show ?case by (cases "f r") (auto split: sum.splits)
qed simp

lemma run_option_safe:
  assumes "\<forall>f\<in>set_option o'. \<exists>t. safe_outcome_of t (f r)" "\<And>v. safe_outcome_of t' (k v)"
  shows "safe_outcome_of t' (run_option o' r k)"
  using assms by (cases o') (auto intro!: safe_bind)

theorem has_type_safe:
  assumes "has_type F e t" "readable h types F r" "id_is_text h r"
  shows "safe_outcome_of t (run h types e r)"
  using assms(1)
proof (induction rule: has_type.induct)
  case (ty_number x) show ?case by (auto intro!: check_value_safe)
next
  case (ty_text s) show ?case by (auto intro!: check_value_safe)
next
  case (ty_boolean b) show ?case by (auto intro!: check_value_safe)
next
  case ty_null show ?case by (simp add: check_value_def)
next
  case (ty_blank e t) then show ?case by (auto intro: safe_outcome_blank)
next
  case (ty_field f t) then show ?case by (simp add: read_field_safe [OF assms(2)])
next
  case (ty_op oper es ts)
  then have es: "\<forall>e\<in>set es. \<exists>t. safe_outcome_of t (run h types e r)"
    by (metis in_set_conv_nth)
  show ?case
  proof (cases "oper = FIsError")
    case True
    with ty_op obtain e es' where e: "es = e # es'" by (cases es) (auto simp: op_least_def)
    with es obtain t where "safe_outcome_of t (run h types e r)" by auto
    then show ?thesis
      using True e by (cases "run h types e r") (auto simp: run_is_error_def op_result_def)
  next
    case False
    have sub: "oper = FSubstitute \<longrightarrow> 3 \<le> length es" using ty_op by (auto simp: op_least_def)
    show ?thesis
    proof (cases "run_all (map (run h types) es) r")
      case (Inl x)
      then show ?thesis using es False run_all_safe' [OF _ Inl] by auto
    next
      case (Inr vs)
      then show ?thesis using sub False run_all_length [OF Inr] by (auto intro!: run_formula_safe)
    qed
  qed
next
  case (ty_if c a t b)
  then show ?case by (auto intro!: safe_bind)
next
  case (ty_switch s st cs t d)
  show ?case
    using ty_switch by (auto intro!: safe_bind run_switch_safe simp: option.set_map) fastforce
next
  case (ty_group es m)
  then show ?case by (auto simp: group_children_def intro!: run_group_safe)
next
  case (ty_compare oper l lt rr rt)
  then show ?case by (auto intro!: safe_bind)
next
  case (ty_empty oper l lt)
  then show ?case by (auto intro!: safe_bind)
next
  case (ty_date_part oper d dt)
  then show ?case
    by (auto intro!: safe_bind check_value_safe) (use eval_date_op_conforms in force)+
next
  case (ty_date_add d dt n nt u)
  then show ?case
    by (auto intro!: safe_bind check_value_safe) (use eval_date_op_conforms [of h DAdd] in force)+
next
  case (ty_date_diff a ta b tb u)
  then show ?case
    by (auto intro!: safe_bind check_value_safe) (use eval_date_op_conforms [of h DDiff] in force)+
next
  case (ty_date_format d dt f)
  then show ?case
    by (auto intro!: safe_bind run_option_safe check_value_safe simp: option.set_map)
       (use eval_date_op_conforms [of h DFormat] in force)+
next
  case ty_record_id
  then show ?case using assms(3) by (auto simp: id_is_text_def eval_function_def intro!: check_value_safe)
next
  case ty_created
  then show ?case by (auto simp: eval_function_def intro!: check_value_safe split: option.splits)
qed

end
