(* ===== verification/Formula_Sound.thy ===== *)
theory Formula_Sound
  imports Formula_Typing
begin

text \<open>
  The checker accepts only typed trees: each of its methods adds to the errors and references and,
  when no error is left, gives a tree that has the type it reports.  The functions of the vocabulary
  are proved one by one against the type system.
\<close>

section \<open>The checker only adds\<close>

definition grows :: "checker \<Rightarrow> checker \<Rightarrow> bool" where
  "grows k k' = (prefix (k_errors k) (k_errors k') \<and> prefix (k_references k) (k_references k'))"

named_theorems grows_intros

lemma grows_refl [simp, grows_intros]: "grows k k"
  by (simp add: grows_def)

lemma grows_trans [trans]: "grows a b \<Longrightarrow> grows b c \<Longrightarrow> grows a c"
  unfolding grows_def by (metis prefix_order.trans)

lemma grows_no_errors: "grows k k' \<Longrightarrow> k_errors k' = [] \<Longrightarrow> k_errors k = []"
  by (simp add: grows_def)

lemma grows_report [grows_intros]: "grows k (report c m a b ps k)"
  by (simp add: grows_def report_def)

lemma grows_report_at [grows_intros]: "grows k (report_at c m nd ps k)"
  by (simp add: report_at_def grows_report)

lemma report_errors [simp]: "k_errors (report c m a b ps k) \<noteq> []" "k_errors (report_at c m nd ps k) \<noteq> []"
  by (simp_all add: report_def report_at_def)

lemma report_references [simp]:
  "k_references (report c m a b ps k) = k_references k" "k_references (report_at c m nd ps k) = k_references k"
  by (simp_all add: report_def report_at_def)

text \<open>A step that only may report: no reference added, none of its reports lost.\<close>

definition reports :: "checker \<Rightarrow> checker \<Rightarrow> bool" where
  "reports k k' = (grows k k' \<and> k_references k' = k_references k)"

lemma reports_refl [simp]: "reports k k"
  by (simp add: reports_def)

lemma reports_trans [trans]: "reports a b \<Longrightarrow> reports b c \<Longrightarrow> reports a c"
  using grows_trans by (auto simp: reports_def)

lemma reports_report [simp]: "reports k (report c m a b ps k)" "reports k (report_at c m nd ps k)"
  by (simp_all add: reports_def grows_intros)

lemma reports_grows: "reports k k' \<Longrightarrow> grows k k'"
  by (simp add: reports_def)

section \<open>Expectations\<close>

lemma expect_reports: "reports k (expect x i ts k)"
  by (simp add: expect_def split: option.split value_type.split)

lemma expect_fits:
  "k_errors (expect x i ts k) = [] \<Longrightarrow> i < length (x_args x) \<Longrightarrow> c_type (x_args x ! i) \<noteq> Invalid \<Longrightarrow>
   fits (c_type (x_args x ! i)) ts"
  by (auto simp: expect_def arg_option_def split: value_type.splits if_splits)

lemma expect_from_reports: "reports k (expect_from x i tss k)"
  by (induction x i tss k rule: expect_from.induct) (auto intro: reports_trans expect_reports)

lemma expect_from_fits:
  "\<lbrakk>k_errors (expect_from x i tss k) = []; j < length tss; i + j < length (x_args x);
    c_type (x_args x ! (i + j)) \<noteq> Invalid\<rbrakk> \<Longrightarrow> fits (c_type (x_args x ! (i + j))) (tss ! j)"
proof (induction x i tss k arbitrary: j rule: expect_from.induct)
  case (2 x i ts tss k)
  show ?case
  proof (cases j)
    case 0
    have "k_errors (expect x i ts k) = []"
      using "2.prems"(1) expect_from_reports [of "expect x i ts k" x "Suc i" tss]
      by (auto dest: reports_grows grows_no_errors)
    then show ?thesis using 0 "2.prems" by (simp add: expect_fits)
  next
    case (Suc n)
    then show ?thesis using "2.IH" [of n] "2.prems" by simp
  qed
qed simp

lemma unify_from_reports: "reports k (snd (unify_from name i ex bad bs k))"
proof (induction name i ex bad bs k rule: unify_from.induct)
  case (2 name i expected bad c label branches k)
  then show ?case
    by (auto split: value_type.split option.split prod.split) (meson reports_trans reports_report)+
qed simp

lemma unify_from_bad: "k_errors (snd (unify_from name i ex bad bs k)) = [] \<Longrightarrow>
   (\<forall>(c, l)\<in>set bs. c_type c \<noteq> Invalid) \<Longrightarrow> \<not> bad \<Longrightarrow>
   fst (unify_from name i ex bad bs k) \<noteq> Invalid \<and>
   (\<forall>(c, l)\<in>set bs. c_type c = Blank \<or> c_type c = fst (unify_from name i ex bad bs k)) \<and>
   (case ex of None \<Rightarrow> True | Some (t, _, _) \<Rightarrow> fst (unify_from name i ex bad bs k) = Typed t)"
proof (induction name i ex bad bs k rule: unify_from.induct)
  case (1 name i expected bad k)
  then show ?case by (auto split: option.split)
next
  case (2 name i expected bad c label branches k)
  show ?case
  proof (cases "c_type c")
    case (Typed t)
    show ?thesis
    proof (cases expected)
      case None
      then show ?thesis using 2 Typed by auto
    next
      case (Some e)
      obtain t0 label0 b0 where e: "e = (t0, label0, b0)" by (cases e)
      show ?thesis
      proof (cases "t = t0")
        case True
        then show ?thesis using 2 Typed Some e by auto
      next
        case False
        have "k_errors (snd (unify_from name i expected bad ((c, label) # branches) k)) \<noteq> []"
          using False Typed Some e unify_from_reports
          by (auto dest!: reports_grows grows_no_errors) (metis (no_types) grows_no_errors report_errors(2) reports_def unify_from_reports)
        then show ?thesis using 2 by simp
      qed
    qed
  next
    case Blank
    then show ?thesis using 2 by (auto split: option.splits)
  next
    case Invalid
    then show ?thesis using 2 by auto
  qed
qed

lemma unify_sound:
  assumes "unify name bs k = (t, k')" "k_errors k' = []" "\<forall>(c, l)\<in>set bs. c_type c \<noteq> Invalid"
  shows "t \<noteq> Invalid \<and> (\<forall>(c, l)\<in>set bs. c_type c = Blank \<or> c_type c = t)"
  using unify_from_bad [of name 0 None False bs k] assms by (auto simp: unify_def)

lemma unify_reports: "unify name bs k = (t, k') \<Longrightarrow> reports k k'"
  using unify_from_reports [of k name 0 None False bs] by (simp add: unify_def)

lemma unit_at_reports: "unit_at x i fb k = (u, k') \<Longrightarrow> reports k k'"
  by (auto simp: unit_at_def split: option.splits prod.splits)

lemma unit_at_found: "unit_at x i fb k = (u, k') \<Longrightarrow> k_errors k' = [] \<Longrightarrow> i < length (x_args x) \<or> fb \<noteq> None \<Longrightarrow> u \<noteq> None"
  by (auto simp: unit_at_def arg_option_def split: option.splits prod.splits if_splits) metis

section \<open>Every function lowers to a well-typed tree\<close>

definition typed_arg :: "field set \<Rightarrow> checked \<Rightarrow> bool" where
  "typed_arg F c = (c_type c \<noteq> Invalid \<and> has_type F (c_ast c) (c_type c))"

definition lowers_well :: "nat \<Rightarrow> nat option \<Rightarrow> (call_context \<Rightarrow> checker \<Rightarrow> (value_type \<times> expr) \<times> checker) \<Rightarrow> bool" where
  "lowers_well least most lower =
     (\<forall>F x k t ast k'. lower x k = ((t, ast), k') \<longrightarrow>
        reports k k' \<and>
        (k_errors k' = [] \<and> (\<forall>c\<in>set (x_args x). typed_arg F c) \<and> least \<le> length (x_args x) \<and>
         (case most of None \<Rightarrow> True | Some n \<Rightarrow> length (x_args x) \<le> n) \<longrightarrow>
         has_type F ast t))"

lemma lowers_wellI:
  assumes "\<And>x k. reports k (snd (lower x k))"
    and "\<And>F x k. \<lbrakk>k_errors (snd (lower x k)) = []; \<forall>c\<in>set (x_args x). typed_arg F c; least \<le> length (x_args x);
      case most of None \<Rightarrow> True | Some n \<Rightarrow> length (x_args x) \<le> n\<rbrakk> \<Longrightarrow>
      has_type F (snd (fst (lower x k))) (fst (fst (lower x k)))"
  shows "lowers_well least most lower"
  using assms by (auto simp: lowers_well_def) (metis fst_conv snd_conv)+

lemma typed_arg_nth: "\<forall>c\<in>set cs. typed_arg F c \<Longrightarrow> i < length cs \<Longrightarrow>
    c_type (cs ! i) \<noteq> Invalid \<and> has_type F (c_ast (cs ! i)) (c_type (cs ! i))"
  by (simp add: typed_arg_def)

lemma argument_of_nth [simp]: "i < length (x_args x) \<Longrightarrow> argument_of x i = x_args x ! i"
  by (simp add: argument_of_def arg_option_def)

lemma ty_op_args:
  assumes "op_least oper \<le> length (x_args x)" "\<forall>c\<in>set (x_args x). typed_arg F c"
    "\<forall>i<length (x_args x). fits (c_type (x_args x ! i)) (op_operand oper i)" "t = Typed (op_result oper)"
  shows "has_type F (EFormula oper (asts x)) t"
  unfolding assms(4) asts_def
  by (rule ty_op [where ts = "map c_type (x_args x)"]) (use assms in \<open>auto simp: typed_arg_def\<close>)

lemma simple_well:
  assumes "op_least oper \<le> least" "op_result oper = ret" "\<forall>i<length types. op_operand oper i = types ! i"
  shows "lowers_well least (Some (length types)) (fn_lower (simple name ct sg desc oper types ret n0))"
proof (rule lowers_wellI)
  show "reports k (snd (fn_lower (simple name ct sg desc oper types ret n0) x k))" for x k
    by (simp add: simple_def expect_from_reports)
  fix F x k
  assume a: "k_errors (snd (fn_lower (simple name ct sg desc oper types ret n0) x k)) = []"
    "\<forall>c\<in>set (x_args x). typed_arg F c" "least \<le> length (x_args x)"
    "case Some (length types) of None \<Rightarrow> True | Some n \<Rightarrow> length (x_args x) \<le> n"
  have "fits (c_type (x_args x ! i)) (op_operand oper i)" if "i < length (x_args x)" for i
    using expect_from_fits [of x 0 "take (length (x_args x)) types" k i] a that assms(3)
      typed_arg_nth [OF a(2), of i] by (simp add: simple_def)
  then show "has_type F (snd (fst (fn_lower (simple name ct sg desc oper types ret n0) x k)))
      (fst (fst (fn_lower (simple name ct sg desc oper types ret n0) x k)))"
    using a assms by (auto simp: simple_def intro!: ty_op_args)
qed

lemma variadic_like_well:
  assumes "op_least oper \<le> 1" "op_result oper = ret" "\<forall>i. op_operand oper i = types"
  shows "lowers_well 1 None (\<lambda>x k. ((Typed ret, EFormula oper (asts x)), expect_from x 0 (map (\<lambda>_. types) (x_args x)) k))"
proof (rule lowers_wellI, goal_cases)
  case (1 x k) show ?case by (simp add: expect_from_reports)
next
  case (2 F x k)
  have "fits (c_type (x_args x ! i)) (op_operand oper i)" if "i < length (x_args x)" for i
    using expect_from_fits [of x 0 "map (\<lambda>_. types) (x_args x)" k i] 2 that assms(3)
      typed_arg_nth [OF 2(2), of i] by simp
  then show ?case using 2 assms by (auto intro!: ty_op_args)
qed

lemma variadic_well:
  assumes "op_least oper \<le> 1" "op_result oper = ret" "\<forall>i. op_operand oper i = types"
  shows "lowers_well 1 None (fn_lower (variadic name ct sg desc oper types ret))"
  using variadic_like_well [OF assms] by (simp add: variadic_def)

lemma concatenate_well: "lowers_well 1 None lower_concatenate"
proof -
  have "lower_concatenate = (\<lambda>x k. ((Typed TText, EFormula FConcat (asts x)), expect_from x 0 (map (\<lambda>_. concatenable) (x_args x)) k))"
    by (simp add: lower_concatenate_def fun_eq_iff)
  then show ?thesis
    using variadic_like_well [of FConcat TText concatenable]
    by (simp add: op_least_def op_result_def op_operand_def concatenable_def)
qed

lemma date_part_well:
  assumes "oper \<in> {DYear, DMonth, DDay}"
  shows "lowers_well 1 (Some 1) (fn_lower (date_part name oper desc))"
proof (rule lowers_wellI, goal_cases)
  case (1 x k) show ?case by (simp add: date_part_def expect_reports)
next
  case (2 F x k)
  then have n: "0 < length (x_args x)" by simp
  from n 2 expect_fits [of x 0 temporal k] typed_arg_nth [OF 2(2) n] assms show ?case
    by (auto simp: date_part_def intro!: ty_date_part)
qed

lemma has_type_up: "has_type F e t' \<Longrightarrow> t' = Blank \<or> t' = t \<Longrightarrow> t \<noteq> Invalid \<Longrightarrow> has_type F e t"
  by (cases t) (auto intro: ty_blank)

lemma fits_single: "fits t [u] \<Longrightarrow> t = Blank \<or> t = Typed u"
  by (cases t) auto

lemma if_well: "lowers_well 2 (Some 3) lower_if"
proof (rule lowers_wellI, goal_cases)
  case (1 x k)
  show ?case
    by (auto simp: lower_if_def Let_def split: prod.split dest!: unify_reports intro: reports_trans expect_reports)
next
  case (2 F x k)
  let ?a = "x_args x ! 1"
  let ?bs = "(?a, ''then'') # (case arg_option x 2 of None \<Rightarrow> [] | Some c \<Rightarrow> [(c, ''else'')])"
  obtain t k' where u: "unify (x_name x) ?bs (expect x 0 [TBoolean] k) = (t, k')" by fastforce
  have k': "k_errors k' = []" using 2 u by (simp add: lower_if_def Let_def)
  have args: "0 < length (x_args x)" "1 < length (x_args x)" using 2 by auto
  have valid: "\<forall>(c, l)\<in>set ?bs. c_type c \<noteq> Invalid"
    using 2(2,3) by (auto simp: arg_option_def typed_arg_def split: if_splits)
  from unify_sound [OF u k' valid] have t: "t \<noteq> Invalid" "\<forall>(c, l)\<in>set ?bs. c_type c = Blank \<or> c_type c = t" by auto
  have c: "has_type F (c_ast (x_args x ! 0)) (Typed TBoolean)"
  proof -
    have "k_errors (expect x 0 [TBoolean] k) = []"
      using unify_reports [OF u] k' by (auto dest: reports_grows grows_no_errors)
    then have "fits (c_type (x_args x ! 0)) [TBoolean]"
      using args typed_arg_nth [OF 2(2) args(1)] by (simp add: expect_fits)
    with typed_arg_nth [OF 2(2) args(1)] show ?thesis by (auto dest!: fits_single intro: ty_blank)
  qed
  have a: "has_type F (c_ast ?a) t"
    using t typed_arg_nth [OF 2(2) args(2)] by (auto intro: has_type_up)
  have b: "has_type F (case arg_option x 2 of Some c \<Rightarrow> c_ast c | None \<Rightarrow> ELit VNull) t"
  proof (cases "arg_option x 2")
    case None
    then show ?thesis using t(1) by (auto intro: has_type_up ty_null)
  next
    case (Some c)
    then have "typed_arg F c" using 2(2) by (auto simp: arg_option_def split: if_splits)
    with Some t show ?thesis by (auto simp: typed_arg_def intro: has_type_up)
  qed
  show ?case using u args a b c by (simp add: lower_if_def Let_def ty_if split: option.splits)
qed

lemma group_well: "lowers_well 1 None (lower_group m)"
proof (rule lowers_wellI, goal_cases)
  case (1 x k) show ?case by (simp add: lower_group_def expect_from_reports)
next
  case (2 F x k)
  have "has_type F (c_ast c) (Typed TBoolean)" if c: "c \<in> set (x_args x)" for c
  proof -
    from c obtain i where i: "i < length (x_args x)" "c = x_args x ! i" by (metis in_set_conv_nth)
    then have "fits (c_type c) [TBoolean]"
      using expect_from_fits [of x 0 "map (\<lambda>_. [TBoolean]) (x_args x)" k i] 2(1) typed_arg_nth [OF 2(2) i(1)]
      by (simp add: lower_group_def)
    with typed_arg_nth [OF 2(2) i(1)] i show ?thesis by (auto dest!: fits_single intro: ty_blank)
  qed
  then show ?case by (auto simp: lower_group_def asts_def intro!: ty_group)
qed

lemma switch_pairs_set:
  "switch_pairs cs = (ps, d) \<Longrightarrow> set cs = fst ` set ps \<union> snd ` set ps \<union> set_option d"
  by (induction cs arbitrary: ps d rule: switch_pairs.induct) (auto split: prod.splits)

lemma check_patterns_reports: "reports k (check_patterns s i ps k)"
  by (induction s i ps k rule: check_patterns.induct)
     (auto intro: reports_trans [OF reports_report(2)])

lemma check_patterns_comparable:
  "k_errors (check_patterns s i ps k) = [] \<Longrightarrow> (p, r) \<in> set ps \<Longrightarrow> comparable (c_type s) (c_type p)"
proof (induction s i ps k rule: check_patterns.induct)
  case (2 s i p' r' ps k)
  let ?k = "if comparable (c_type s) (c_type p') then k
       else report_at TypeMismatch
               (''SWITCH pattern '' @ nat_digits (i + 1) @ '' is '' @ value_type_name (c_type p') @
                '', but the expression is '' @ value_type_name (c_type s)) (c_syntax p')
               [(''function'', PText ''SWITCH''), (''pattern'', PNum (i + 1)),
                (''expected'', PText (value_type_name (c_type s))),
                (''actual'', PText (value_type_name (c_type p')))] k"
  have e: "k_errors (check_patterns s (Suc i) ps ?k) = []" using "2.prems"(1) by simp
  then have "k_errors ?k = []" by (rule grows_no_errors [OF reports_grows [OF check_patterns_reports]])
  then have c: "comparable (c_type s) (c_type p')" by (simp split: if_split_asm)
  show ?case
  proof (cases "(p, r) \<in> set ps")
    case True
    then show ?thesis by (rule "2.IH" [OF e])
  next
    case False
    then show ?thesis using "2.prems"(2) c by simp
  qed
qed simp

lemma result_branches_set: "fst ` set (result_branches i ps) = snd ` set ps"
  by (induction i ps rule: result_branches.induct) auto

lemma fst_image_pair: "c \<in> fst ` S \<Longrightarrow> \<exists>l. (c, l) \<in> S"
  by force

lemma switch_well: "lowers_well 3 None lower_switch"
proof (rule lowers_wellI, goal_cases)
  case (1 x k)
  show ?case
    by (auto simp: lower_switch_def Let_def split: prod.split dest!: unify_reports
        intro: reports_trans check_patterns_reports)
next
  case (2 F x k)
  obtain ps d where sp: "switch_pairs (tl (x_args x)) = (ps, d)" by fastforce
  let ?s = "x_args x ! 0"
  let ?bs = "result_branches 0 ps @ (case d of None \<Rightarrow> [] | Some c \<Rightarrow> [(c, ''default'')])"
  obtain t k' where u: "unify (x_name x) ?bs (check_patterns ?s 0 ps k) = (t, k')" by fastforce
  have n: "0 < length (x_args x)" using 2 by auto
  have k': "k_errors k' = []" using 2 u sp n by (simp add: lower_switch_def Let_def)
  have sub: "set (tl (x_args x)) \<subseteq> set (x_args x)" by (cases "x_args x") auto
  have typed: "typed_arg F c" if "c \<in> fst ` set ps \<union> snd ` set ps \<union> set_option d" for c
    using that switch_pairs_set [OF sp] sub 2(2) by auto
  have bs: "fst ` set ?bs = snd ` set ps \<union> set_option d"
    by (auto simp: result_branches_set image_Un split: option.splits)
  have branch: "typed_arg F c" if "(c, l) \<in> set ?bs" for c l
  proof -
    have "c \<in> fst ` set ?bs" using that by (rule image_eqI [rotated]) simp
    then show ?thesis using typed unfolding bs by simp
  qed
  have valid: "\<forall>(c, l)\<in>set ?bs. c_type c \<noteq> Invalid"
    by (clarify dest!: branch) (simp add: typed_arg_def)
  note t = unify_sound [OF u k' valid]
  have res: "has_type F (c_ast c) t" if "c \<in> snd ` set ps \<union> set_option d" for c
  proof -
    from that have "c \<in> fst ` set ?bs" unfolding bs by simp
    from fst_image_pair [OF this] obtain l where l: "(c, l) \<in> set ?bs" by (rule exE)
    have "c_type c = Blank \<or> c_type c = t" using bspec [OF conjunct2 [OF t] l] by simp
    with branch [OF l] t show ?thesis by (auto simp: typed_arg_def intro: has_type_up)
  qed
  have pat: "comparable (c_type ?s) (c_type p) \<and> has_type F (c_ast p) (c_type p)" if "(p, r) \<in> set ps" for p r
  proof -
    have "k_errors (check_patterns ?s 0 ps k) = []"
      using unify_reports [OF u] k' by (auto dest: reports_grows grows_no_errors)
    then have "comparable (c_type ?s) (c_type p)" using that by (rule check_patterns_comparable)
    moreover have "p \<in> fst ` set ps" using that by (rule image_eqI [rotated]) simp
    then have "typed_arg F p" using typed by simp
    ultimately show ?thesis by (simp add: typed_arg_def)
  qed
  have "has_type F (ESwitch (c_ast ?s) (map (\<lambda>(p, r). (c_ast p, c_ast r)) ps) (map_option c_ast d)) t"
  proof (rule ty_switch)
    show "has_type F (c_ast ?s) (c_type ?s)" using typed_arg_nth [OF 2(2) n] by simp
    show "t \<noteq> Invalid" using t by simp
    show "\<forall>x\<in>set_option (map_option c_ast d). has_type F x t" using res by (auto simp: option.set_map)
    show "\<forall>(w, x)\<in>set (map (\<lambda>(p, r). (c_ast p, c_ast r)) ps).
        (\<exists>wt. has_type F w wt \<and> comparable (c_type ?s) wt) \<and> has_type F x t"
      using res pat by (auto simp: image_iff) (metis snd_conv)+
  qed
  then show ?case using u sp n by (simp add: lower_switch_def Let_def)
qed

lemma reports_expect2: "reports (expect x i ts (expect x j us k)) k' \<Longrightarrow> reports k k'"
  by (meson reports_trans expect_reports)

lemma date_add_well: "lowers_well 3 (Some 3) lower_date_add"
proof (rule lowers_wellI, goal_cases)
  case (1 x k)
  show ?case
    by (auto simp: lower_date_add_def Let_def split: prod.split dest!: unit_at_reports
        intro: reports_expect2)
next
  case (2 F x k)
  let ?k1 = "expect x 1 [TNumber] (expect x 0 temporal k)"
  obtain u k' where u: "unit_at x 2 None ?k1 = (u, k')" by fastforce
  have k': "k_errors k' = []" using 2 u by (simp add: lower_date_add_def Let_def)
  have n: "0 < length (x_args x)" "1 < length (x_args x)" "2 < length (x_args x)" using 2 by auto
  obtain u' where u': "u = Some u'" using unit_at_found [OF u k'] n by auto
  have k1: "k_errors ?k1 = []" using unit_at_reports [OF u] k' by (auto dest: reports_grows grows_no_errors)
  have "k_errors (expect x 0 temporal k) = []"
    using k1 expect_reports by (metis grows_no_errors reports_grows)
  then have f0: "fits (c_type (x_args x ! 0)) temporal"
    using n typed_arg_nth [OF 2(2) n(1)] by (simp add: expect_fits)
  have f1: "fits (c_type (x_args x ! 1)) [TNumber]"
    using n k1 typed_arg_nth [OF 2(2) n(2)] by (auto intro: expect_fits)
  show ?case
    using u u' n f0 f1 typed_arg_nth [OF 2(2) n(1)] typed_arg_nth [OF 2(2) n(2)]
      ty_date_add [of F "c_ast (x_args x ! 0)" "c_type (x_args x ! 0)" "c_ast (x_args x ! 1)"
        "c_type (x_args x ! 1)" u']
    by (auto simp: lower_date_add_def Let_def split: if_splits)
qed

lemma date_diff_well: "lowers_well 2 (Some 3) lower_date_diff"
proof (rule lowers_wellI, goal_cases)
  case (1 x k)
  show ?case
    by (auto simp: lower_date_diff_def Let_def split: prod.split dest!: unit_at_reports
        intro: reports_expect2)
next
  case (2 F x k)
  let ?k1 = "expect x 1 temporal (expect x 0 temporal k)"
  obtain u k' where u: "unit_at x 2 (Some USeconds) ?k1 = (u, k')" by fastforce
  have k': "k_errors k' = []" using 2 u by (simp add: lower_date_diff_def Let_def)
  have n: "0 < length (x_args x)" "1 < length (x_args x)" using 2 by auto
  obtain u' where u': "u = Some u'" using unit_at_found [OF u k'] n by auto
  have k1: "k_errors ?k1 = []" using unit_at_reports [OF u] k' by (auto dest: reports_grows grows_no_errors)
  have "k_errors (expect x 0 temporal k) = []"
    using k1 expect_reports by (metis grows_no_errors reports_grows)
  then have f0: "fits (c_type (x_args x ! 0)) temporal"
    using n typed_arg_nth [OF 2(2) n(1)] by (simp add: expect_fits)
  have f1: "fits (c_type (x_args x ! 1)) temporal"
    using n k1 typed_arg_nth [OF 2(2) n(2)] by (auto intro: expect_fits)
  show ?case
    using u u' n f0 f1 typed_arg_nth [OF 2(2) n(1)] typed_arg_nth [OF 2(2) n(2)]
    by (auto simp: lower_date_diff_def Let_def intro: ty_date_diff)
qed

lemma date_format_well: "lowers_well 1 (Some 2) lower_date_format"
proof (rule lowers_wellI, goal_cases)
  case (1 x k)
  show ?case
    by (auto simp: lower_date_format_def Let_def intro: reports_trans expect_reports)
next
  case (2 F x k)
  let ?k0 = "expect x 0 temporal k"
  have n: "0 < length (x_args x)" using 2 by auto
  have k0: "k_errors ?k0 = []"
    using 2(1) expect_reports [of ?k0 x 1 "[TText]"]
    by (auto simp: lower_date_format_def Let_def split: if_splits dest: reports_grows grows_no_errors)
  have f0: "fits (c_type (x_args x ! 0)) temporal"
    using n k0 typed_arg_nth [OF 2(2) n] by (simp add: expect_fits)
  have fmt: "\<exists>ft. has_type F (c_ast c) ft \<and> fits ft [TText]" if c: "arg_option x 1 = Some c" for c
  proof -
    from c have i: "1 < length (x_args x)" "c = x_args x ! 1" by (auto simp: arg_option_def split: if_splits)
    then have "fits (c_type c) [TText]"
      using 2(1) typed_arg_nth [OF 2(2) i(1)] by (auto simp: lower_date_format_def Let_def intro: expect_fits)
    with typed_arg_nth [OF 2(2) i(1)] i show ?thesis by auto
  qed
  show ?case
    using n f0 typed_arg_nth [OF 2(2) n] fmt
    by (auto simp: lower_date_format_def Let_def option.set_map intro!: ty_date_format)
qed

lemma constant_well:
  assumes "\<And>F. has_type F ast t"
  shows "lowers_well n m (\<lambda>x k. ((t, ast), k))"
  by (rule lowers_wellI) (simp_all add: assms)

lemma is_error_well: "lowers_well 1 (Some 1) (\<lambda>x k. ((Typed TBoolean, EFormula FIsError (asts x)), k))"
proof (rule lowers_wellI, goal_cases)
  case (2 F x k)
  have "fits (c_type (x_args x ! i)) (op_operand FIsError i)" if "i < length (x_args x)" for i
    using typed_arg_nth [OF 2(2) that]
    by (cases "c_type (x_args x ! i)"; simp add: op_operand_def formula_types_def) (metis formula_type.exhaust)
  then show ?case using 2 by (auto simp: op_least_def op_result_def intro!: ty_op_args)
qed simp

definition function_well :: "formula_function \<Rightarrow> bool" where
  "function_well f = lowers_well (fn_min f) (fn_max f) (fn_lower f)"

lemma function_well_make [simp]:
  "function_well (make_function n c s d least most ret lower) = lowers_well least most lower"
  by (simp add: function_well_def make_function_def)

lemma function_well_simple:
  "\<lbrakk>op_least oper \<le> least; op_result oper = ret; \<forall>i<length types. op_operand oper i = types ! i\<rbrakk> \<Longrightarrow>
   function_well (simple name ct sg desc oper types ret least)"
  unfolding function_well_def
  by (simp add: simple_def) (rule simple_well [unfolded simple_def, simplified])

lemma function_well_variadic:
  "\<lbrakk>op_least oper \<le> 1; op_result oper = ret; \<forall>i. op_operand oper i = types\<rbrakk> \<Longrightarrow>
   function_well (variadic name ct sg desc oper types ret)"
  unfolding function_well_def
  by (simp add: variadic_def) (rule variadic_well [unfolded variadic_def, simplified])

lemma function_well_date_part:
  "oper \<in> {DYear, DMonth, DDay} \<Longrightarrow> function_well (date_part name oper desc)"
  unfolding function_well_def
  using date_part_well by (simp add: date_part_def)

lemma text_functions_well: "\<forall>f\<in>set text_functions. function_well f"
  by (simp add: text_functions_def concatenate_well [unfolded One_nat_def] function_well_simple op_least_def op_result_def
      op_operand_def nth_Cons split: nat.split)

lemma logical_functions_well: "\<forall>f\<in>set logical_functions. function_well f"
  by (simp add: logical_functions_def if_well group_well [unfolded One_nat_def] switch_well
      is_error_well [unfolded One_nat_def] constant_well
      has_type.intros function_well_simple op_least_def op_result_def op_operand_def)

lemma numeric_functions_well: "\<forall>f\<in>set numeric_functions. function_well f"
  by (simp add: numeric_functions_def function_well_simple function_well_variadic op_least_def
      op_result_def op_operand_def nth_Cons split: nat.split)

lemma date_functions_well: "\<forall>f\<in>set date_functions. function_well f"
  by (simp add: date_functions_def date_add_well date_diff_well date_format_well [unfolded One_nat_def]
      function_well_date_part)

lemma record_functions_well: "\<forall>f\<in>set record_functions. function_well f"
  by (simp add: record_functions_def constant_well has_type.intros)

lemma function_named_well:
  assumes "function_named name = Some f"
  shows "function_well f"
proof -
  from find_first_Some [OF assms [unfolded function_named_def]]
  have "f \<in> set formula_functions" by simp
  then show ?thesis
    using text_functions_well logical_functions_well numeric_functions_well date_functions_well
      record_functions_well unfolding formula_functions_def by auto
qed

section \<open>The checker accepts only well-typed formulas\<close>

definition fields_read :: "checker \<Rightarrow> field set" where
  "fields_read k = rf_field ` set (k_references k)"

lemma fields_read_mono: "grows k k' \<Longrightarrow> fields_read k \<subseteq> fields_read k'"
  by (auto simp: grows_def fields_read_def dest: set_mono_prefix)

text \<open>A method of the checker: it only adds, reads only fields of the environment, and what it accepts is typed.\<close>

definition checks :: "environment \<Rightarrow> (checker \<Rightarrow> checked \<times> checker) \<Rightarrow> bool" where
  "checks env f =
     (\<forall>k c k'. f k = (c, k') \<longrightarrow>
        grows k k' \<and> fields_read k' \<subseteq> fields_read k \<union> set env \<and>
        (k_errors k' = [] \<longrightarrow> typed_arg (fields_read k') c))"

lemma checksI:
  assumes "\<And>k c k'. f k = (c, k') \<Longrightarrow> grows k k' \<and> fields_read k' \<subseteq> fields_read k \<union> set env"
    and "\<And>k c k'. f k = (c, k') \<Longrightarrow> k_errors k' = [] \<Longrightarrow> typed_arg (fields_read k') c"
  shows "checks env f"
  using assms by (simp add: checks_def)

lemma checksD:
  assumes "checks env f" "f k = (c, k')"
  shows "grows k k'" "fields_read k' \<subseteq> fields_read k \<union> set env"
    "k_errors k' = [] \<Longrightarrow> typed_arg (fields_read k') c"
  using assms by (auto simp: checks_def)

lemma typed_arg_mono: "typed_arg F c \<Longrightarrow> F \<subseteq> G \<Longrightarrow> typed_arg G c"
  by (auto simp: typed_arg_def intro: has_type_mono)

lemma fields_read_reports: "reports k k' \<Longrightarrow> fields_read k' = fields_read k"
  by (simp add: reports_def fields_read_def)

lemma report_fields [simp]:
  "fields_read (report c m a b ps k) = fields_read k" "fields_read (report_at c m nd ps k) = fields_read k"
  by (simp_all add: fields_read_def)

lemma run_checks_sound:
  assumes "\<forall>f\<in>set fs. checks env f"
  shows "run_checks fs k = (cs, k') \<Longrightarrow>
    grows k k' \<and> fields_read k' \<subseteq> fields_read k \<union> set env \<and> length cs = length fs \<and>
    (k_errors k' = [] \<longrightarrow> (\<forall>c\<in>set cs. typed_arg (fields_read k') c))"
  using assms
proof (induction fs arbitrary: k cs k')
  case (Cons f fs)
  obtain c k1 where c: "f k = (c, k1)" by fastforce
  obtain cs1 where cs: "run_checks fs k1 = (cs1, k')" "cs = c # cs1"
    using Cons.prems(1) c by (auto split: prod.splits)
  have f: "checks env f" using Cons.prems(2) by simp
  have IH: "grows k1 k'" "fields_read k' \<subseteq> fields_read k1 \<union> set env" "length cs1 = length fs"
    "k_errors k' = [] \<longrightarrow> (\<forall>c\<in>set cs1. typed_arg (fields_read k') c)"
    using Cons.IH [OF cs(1)] Cons.prems(2) by auto
  have "typed_arg (fields_read k') c" if "k_errors k' = []"
    using checksD(3) [OF f c] grows_no_errors [OF IH(1) that] fields_read_mono [OF IH(1)]
    by (blast intro: typed_arg_mono)
  then show ?case
    using IH checksD(1,2) [OF f c] grows_trans [of k k1 k'] by (auto simp: cs)
qed simp

subsection \<open>Fields\<close>

lemma first_match_subset: "set (first_match tiers fs) \<subseteq> set fs"
  by (induction tiers fs rule: first_match.induct) auto

lemma bind_field_checks:
  assumes "f \<in> set env"
  shows "checks env (bind_field f nd)"
proof (rule checksI, goal_cases)
  case (1 k c k')
  then show ?case using assms
    by (auto simp: bind_field_def Let_def grows_intros field_read_def split: if_splits option.splits)
       (auto simp: grows_def fields_read_def)
next
  case (2 k c k')
  then show ?case
    by (auto simp: bind_field_def Let_def typed_arg_def split: if_splits option.splits)
       (auto simp: fields_read_def field_read_def intro!: ty_field)
qed

lemma refusal_checks:
  assumes "\<And>k. reports k (snd (f k)) \<and> k_errors (snd (f k)) \<noteq> []"
  shows "checks env f"
proof (rule checksI, goal_cases)
  case (1 k c k')
  with assms [of k] show ?case using fields_read_reports [of k k'] by (auto simp: reports_grows)
next
  case (2 k c k')
  with assms [of k] show ?case by simp
qed

lemma check_field_checks: "checks env (check_field env name braced rel nd)"
proof -
  let ?found = "resolve (filter (in_relation rel) env) name braced"
  have sub: "set ?found \<subseteq> set env"
    using first_match_subset by (fastforce simp: resolve_def)
  show ?thesis
  proof (cases "\<exists>f. ?found = [f] \<and> \<not> (rel \<noteq> None \<and> filter (in_relation rel) env = [])")
    case True
    then obtain f where f: "?found = [f]" and r: "\<not> (rel \<noteq> None \<and> filter (in_relation rel) env = [])" by blast
    have eq: "check_field env name braced rel nd = bind_field f nd"
      using f r by (auto simp: fun_eq_iff check_field_def Let_def bind_match_def)
    show ?thesis using sub f unfolding eq by (intro bind_field_checks) simp
  next
    case False
    have "reports k (snd (check_field env name braced rel nd k)) \<and>
        k_errors (snd (check_field env name braced rel nd k)) \<noteq> []" for k
      using False by (auto simp: check_field_def Let_def bind_match_def split: option.splits list.splits if_splits)
    then show ?thesis by (rule refusal_checks)
  qed
qed

subsection \<open>Operators\<close>

lemma expect_operand_reports: "expect_operand c ts oper side hint k = (ok, k') \<Longrightarrow> reports k k'"
  by (auto simp: expect_operand_def split: value_type.splits if_splits)

lemma expect_operand_fits:
  "expect_operand c ts oper side hint k = (ok, k') \<Longrightarrow> k_errors k' = [] \<Longrightarrow> c_type c \<noteq> Invalid \<Longrightarrow>
   ok \<and> fits (c_type c) ts"
  by (auto simp: expect_operand_def split: value_type.splits if_splits)

lemma check_unary_checks:
  assumes "checks env f"
  shows "checks env (\<lambda>k. check_unary u operand nd (f k))"
proof (rule checksI, goal_cases)
  case (1 k c k')
  obtain c0 k0 where f: "f k = (c0, k0)" by fastforce
  obtain ok where e: "expect_operand c0 [TNumber] (''unary '' @ quoted (unary_symbol u)) ''operand'' [] k0 = (ok, k')"
    using 1 f by (auto simp: check_unary_def Let_def split: if_splits node.splits) (metis prod.collapse)+
  note r = expect_operand_reports [OF e]
  show ?case using checksD(1,2) [OF assms f] reports_grows [OF r] fields_read_reports [OF r] grows_trans by blast
next
  case (2 k c k')
  obtain c0 k0 where f: "f k = (c0, k0)" by fastforce
  obtain ok where e: "expect_operand c0 [TNumber] (''unary '' @ quoted (unary_symbol u)) ''operand'' [] k0 = (ok, k')"
    using 2 f by (auto simp: check_unary_def Let_def split: if_splits node.splits) (metis prod.collapse)+
  note r = expect_operand_reports [OF e]
  have k0: "k_errors k0 = []" using grows_no_errors [OF reports_grows [OF r]] 2 by simp
  have c0: "typed_arg (fields_read k') c0"
    using checksD(3) [OF assms f k0] fields_read_reports [OF r] by simp
  have "fits (c_type c0) [TNumber]" using expect_operand_fits [OF e] 2 c0 by (auto simp: typed_arg_def)
  then have n: "has_type (fields_read k') (c_ast c0) (Typed TNumber)" "type_or (c_type c0) TNumber = Typed TNumber"
    using c0 by (auto simp: typed_arg_def type_or_def dest!: fits_single intro: ty_blank)
  have neg: "has_type (fields_read k') (EFormula FNegate [c_ast c0]) (Typed TNumber)"
    using ty_op [of FNegate "[c_ast c0]" "[Typed TNumber]"] n
    by (simp add: op_least_def op_operand_def op_result_def)
  show ?case using 2 f n neg
    by (auto simp: check_unary_def Let_def typed_arg_def ty_number split: if_splits node.splits)
qed

lemma expect_orderable_reports: "reports (snd r) (snd (expect_orderable b side c r))"
  by (cases r) (auto simp: expect_orderable_def)

lemma expect_orderable_ok:
  "k_errors (snd (expect_orderable b side c r)) = [] \<Longrightarrow>
   orderable (c_type c) \<and> fst (expect_orderable b side c r) = fst r"
  by (cases r) (auto simp: expect_orderable_def split: if_splits)

lemma check_comparison_reports: "check_comparison b nd l r k = (c, k') \<Longrightarrow> reports k k'"
proof -
  assume a: "check_comparison b nd l r k = (c, k')"
  let ?e = "if b \<noteq> BEq \<and> b \<noteq> BNe
            then expect_orderable b ''right side'' r (expect_orderable b ''left side'' l (True, k))
            else (True, k)"
  obtain ok1 k1 where e: "?e = (ok1, k1)" by fastforce
  have k1: "reports k k1"
  proof (cases "b \<noteq> BEq \<and> b \<noteq> BNe")
    case True
    then have "k1 = snd (expect_orderable b ''right side'' r (expect_orderable b ''left side'' l (True, k)))"
      using e by simp
    then have "reports (snd (expect_orderable b ''left side'' l (True, k))) k1"
      by (simp only: expect_orderable_reports)
    then show ?thesis using expect_orderable_reports [of "(True, k)" b "''left side''" l] reports_trans by simp
  next
    case False
    then show ?thesis using e by auto
  qed
  have "k' = k1 \<or> reports k1 k'"
    using a unfolding check_comparison_def e Let_def by (auto split: if_splits)
  with k1 show "reports k k'" by (auto intro: reports_trans)
qed

lemma check_comparison_typed:
  assumes a: "check_comparison b nd l r k = (c, k')" and n: "k_errors k' = []"
    and b: "b \<noteq> BConcat" "arithmetic b = None"
    and l: "typed_arg F l" and r: "typed_arg F r"
  shows "typed_arg F c"
proof -
  let ?e1 = "expect_orderable b ''left side'' l (True, k)"
  let ?e = "if b \<noteq> BEq \<and> b \<noteq> BNe then expect_orderable b ''right side'' r ?e1 else (True, k)"
  obtain ok1 k1 where e: "?e = (ok1, k1)" by fastforce
  have k1: "k_errors k1 = []"
    using a n unfolding check_comparison_def e Let_def
    by (auto split: if_splits simp: report_at_def report_def)
  have ord: "ok1 \<and> (b \<noteq> BEq \<and> b \<noteq> BNe \<longrightarrow> orderable (c_type l) \<and> orderable (c_type r))"
  proof (cases "b \<noteq> BEq \<and> b \<noteq> BNe")
    case True
    then have e2: "expect_orderable b ''right side'' r ?e1 = (ok1, k1)" using e by simp
    have e1: "k_errors (snd ?e1) = []"
      using expect_orderable_reports [of ?e1 b "''right side''" r] k1 e2
      by (auto dest: reports_grows grows_no_errors)
    show ?thesis
      using expect_orderable_ok [OF e1] expect_orderable_ok [of b "''right side''" r ?e1] e2 k1 True by simp
  next
    case False
    then show ?thesis using e by auto
  qed
  have cmp: "comparable (c_type l) (c_type r)"
    using a n ord unfolding check_comparison_def e Let_def by (auto split: if_splits)
  have ty: "has_type F (ERule (comparison_rule b) (c_ast l) (Some (c_ast r))) (Typed TBoolean)"
    using b l r cmp ord
    by (intro ty_compare [where lt = "c_type l" and rt = "c_type r"])
       (cases b; auto simp: typed_arg_def comparison_rule_def compare_ops_def arithmetic_def)+
  show ?thesis
    using a l r ord cmp ty unfolding check_comparison_def e Let_def by (auto simp: typed_arg_def)
qed

lemma expect_concatenable_reports: "reports k (expect_concatenable c side k)"
  by (simp add: expect_concatenable_def)

lemma expect_concatenable_fits:
  "k_errors (expect_concatenable c side k) = [] \<Longrightarrow> c_type c \<noteq> Invalid \<Longrightarrow> fits (c_type c) concatenable"
  by (cases "c_type c"; cases "case c_type c of Typed t \<Rightarrow> t | _ \<Rightarrow> TText")
     (auto simp: expect_concatenable_def concatenable_def split: if_splits)

lemma ty_op2:
  assumes "op_least oper \<le> 2" "typed_arg F l" "typed_arg F r"
    "fits (c_type l) (op_operand oper 0)" "fits (c_type r) (op_operand oper 1)"
  shows "has_type F (EFormula oper [c_ast l, c_ast r]) (Typed (op_result oper))"
  by (rule ty_op [where ts = "[c_type l, c_type r]"])
     (use assms in \<open>auto simp: typed_arg_def less_Suc_eq numeral_2_eq_2\<close>)

lemma binary_operands_checks:
  assumes "checks env f" "checks env g" "\<And>l r k c k'. h l r k = (c, k') \<Longrightarrow> reports k k'"
    "\<And>l r k c k' F. \<lbrakk>h l r k = (c, k'); k_errors k' = []; typed_arg F l; typed_arg F r\<rbrakk> \<Longrightarrow> typed_arg F c"
  shows "checks env (\<lambda>k. case f k of (l, k1) \<Rightarrow> case g k1 of (r, k2) \<Rightarrow> h l r k2)"
proof (rule checksI, goal_cases)
  case (1 k c k')
  obtain l k1 r k2 where s: "f k = (l, k1)" "g k1 = (r, k2)" "h l r k2 = (c, k')"
    using 1 by (auto split: prod.splits)
  note F = checksD [OF assms(1) s(1)] and G = checksD [OF assms(2) s(2)] and H = assms(3) [OF s(3)]
  show ?case
    using F(1,2) G(1,2) reports_grows [OF H] fields_read_reports [OF H] grows_trans by blast
next
  case (2 k c k')
  obtain l k1 r k2 where s: "f k = (l, k1)" "g k1 = (r, k2)" "h l r k2 = (c, k')"
    using 2 by (auto split: prod.splits)
  note F = checksD [OF assms(1) s(1)] and G = checksD [OF assms(2) s(2)] and H = assms(3) [OF s(3)]
  have k2: "k_errors k2 = []" using grows_no_errors [OF reports_grows [OF H] 2(2)] .
  have k1: "k_errors k1 = []" using grows_no_errors [OF G(1) k2] .
  have "typed_arg (fields_read k') l"
    using F(3) [OF k1] fields_read_mono [OF G(1)] fields_read_reports [OF H] by (auto intro: typed_arg_mono)
  moreover have "typed_arg (fields_read k') r"
    using G(3) [OF k2] fields_read_reports [OF H] by simp
  ultimately show ?case using assms(4) [OF s(3) 2(2)] by blast
qed

lemma expect_concatenable2: "reports k (expect_concatenable r s (expect_concatenable l s' k))"
  by (meson reports_trans expect_concatenable_reports)

lemma check_operator_reports: "check_operator b nd l r k = (c, k') \<Longrightarrow> reports k k'"
proof (cases "arithmetic b")
  case None
  then show "check_operator b nd l r k = (c, k') \<Longrightarrow> reports k k'"
    by (auto simp: check_operator_def check_comparison_reports expect_concatenable2 split: if_splits)
next
  case (Some oper)
  then have "b \<noteq> BConcat" by (auto simp: arithmetic_def)
  with Some show "check_operator b nd l r k = (c, k') \<Longrightarrow> reports k k'"
    by (auto simp: check_operator_def Let_def split: prod.splits dest!: expect_operand_reports intro: reports_trans)
qed

lemma check_operator_typed:
  assumes "check_operator b nd l r k = (c, k')" "k_errors k' = []" "typed_arg F l" "typed_arg F r"
  shows "typed_arg F c"
proof (cases "b = BConcat")
  case True
  let ?k1 = "expect_concatenable l ''left'' k"
  have k': "k' = expect_concatenable r ''right'' ?k1" using assms(1) True by (simp add: check_operator_def)
  have "k_errors ?k1 = []"
    using assms(2) unfolding k' by (rule grows_no_errors [OF reports_grows [OF expect_concatenable_reports]])
  with assms(2-4) k' have "fits (c_type l) concatenable" "fits (c_type r) concatenable"
    by (auto simp: typed_arg_def intro: expect_concatenable_fits)
  then have "has_type F (EFormula FConcat [c_ast l, c_ast r]) (Typed (op_result FConcat))"
    using assms(3,4) by (intro ty_op2) (simp_all add: op_least_def op_operand_def concatenable_def)
  then show ?thesis
    using assms True by (auto simp: check_operator_def typed_arg_def op_result_def)
next
  case False
  show ?thesis
  proof (cases "arithmetic b")
    case None
    with False assms(1) have "check_comparison b nd l r k = (c, k')" by (simp add: check_operator_def)
    then show ?thesis by (rule check_comparison_typed) (use assms False None in auto)
  next
    case (Some oper)
    let ?hint = "if b = BAdd then '' (join text with &)'' else []"
    obtain ok1 k1 where e1: "expect_operand l [TNumber] (quoted (binary_symbol b)) ''left side'' ?hint k = (ok1, k1)" by fastforce
    obtain ok2 k2 where e2: "expect_operand r [TNumber] (quoted (binary_symbol b)) ''right side'' ?hint k1 = (ok2, k2)" by fastforce
    have c: "k' = k2" "c = \<lparr>c_type = (if c_type l = Invalid \<or> c_type r = Invalid \<or> \<not> ok1 \<or> \<not> ok2
                               then Invalid else Typed TNumber),
                     c_ast = EFormula oper [c_ast l, c_ast r], c_syntax = nd\<rparr>"
      using assms(1) False Some e1 e2 by (auto simp: check_operator_def Let_def)
    have k1: "k_errors k1 = []"
      using grows_no_errors [OF reports_grows [OF expect_operand_reports [OF e2]]] assms(2) c by simp
    have f1: "ok1" "fits (c_type l) [TNumber]" and f2: "ok2" "fits (c_type r) [TNumber]"
      using expect_operand_fits [OF e1 k1] expect_operand_fits [OF e2] assms c by (auto simp: typed_arg_def)
    have op: "op_least oper = 2" "op_result oper = TNumber" "op_operand oper i = [TNumber]" for i
      using Some by (auto simp: arithmetic_def op_least_def op_result_def op_operand_def split: binary_operator.splits)
    have "has_type F (EFormula oper [c_ast l, c_ast r]) (Typed (op_result oper))"
      using assms f1 f2 op by (intro ty_op2) auto
    then show ?thesis using c f1 f2 op assms by (auto simp: typed_arg_def)
  qed
qed

lemma check_binary_checks:
  assumes "checks env f" "checks env g"
  shows "checks env (check_binary b left right nd f g)"
proof (cases "(b = BEq \<or> b = BNe) \<and> (is_blank_call left \<or> is_blank_call right)")
  case True
  let ?f = "if is_blank_call right then f else g"
  have f: "checks env ?f" using assms by simp
  show ?thesis
  proof (rule checksI, goal_cases)
    case (1 k c k')
    obtain c0 k0 where s: "?f k = (c0, k0)" by fastforce
    then show ?case using 1 True checksD(1,2) [OF f s]
      by (auto simp: check_binary_def split: prod.splits if_splits)
  next
    case (2 k c k')
    obtain c0 k0 where s: "?f k = (c0, k0)" by fastforce
    with 2 True have k: "k0 = k'" and c: "c = \<lparr>c_type = (if c_type c0 = Invalid then Invalid else Typed TBoolean),
         c_ast = ERule (if b = BEq then IsEmpty else IsNotEmpty) (c_ast c0) None, c_syntax = nd\<rparr>"
      by (auto simp: check_binary_def split: prod.splits if_splits)
    with checksD(3) [OF f s] 2 show ?case by (auto simp: typed_arg_def intro!: ty_empty)
  qed
next
  case False
  then have eq: "check_binary b left right nd f g =
      (\<lambda>k. case f k of (l, k1) \<Rightarrow> case g k1 of (r, k2) \<Rightarrow> check_operator b nd l r k2)"
    by (auto simp: check_binary_def fun_eq_iff split: prod.splits)
  show ?thesis unfolding eq
    by (rule binary_operands_checks [OF assms]) (auto intro: check_operator_reports check_operator_typed)
qed

lemma reported_then_checks:
  assumes "\<forall>f\<in>set fs. checks env f" "\<And>k. reports k (rep k) \<and> k_errors (rep k) \<noteq> []"
  shows "checks env (\<lambda>k. (c0, snd (run_checks fs (rep k))))"
proof (rule checksI, goal_cases)
  case (1 k c k')
  obtain cs where r: "run_checks fs (rep k) = (cs, k')" using 1 by (metis prod.collapse snd_conv)
  note R = run_checks_sound [OF assms(1) r]
  have "grows k (rep k)" "fields_read (rep k) = fields_read k"
    using assms(2) [of k] by (auto simp: reports_grows fields_read_reports)
  then show ?case using R grows_trans [of k "rep k" k'] by auto
next
  case (2 k c k')
  obtain cs where r: "run_checks fs (rep k) = (cs, k')" using 2 by (metis prod.collapse snd_conv)
  have "k_errors (rep k) = []" using run_checks_sound [OF assms(1) r] 2 grows_no_errors by blast
  then show ?case using assms(2) [of k] by simp
qed

lemma check_call_checks:
  assumes "\<forall>f\<in>set fs. checks env f"
  shows "checks env (check_call name e nd fs)"
proof (cases "List.member time_functions name")
  case True
  then have eq: "check_call name e nd fs = (\<lambda>k. (invalid nd, snd (run_checks fs
      (report_at TimeFunction (name @ ''() changes with time, so its value cannot be stored; time-dependent formulas are not supported'')
         nd [(''function'', PText name)] k))))"
    by (simp add: check_call_def fun_eq_iff)
  show ?thesis unfolding eq by (rule reported_then_checks [OF assms]) simp
next
  case time: False
  show ?thesis
  proof (cases "function_named name")
    case None
    then have eq: "check_call name e nd fs = (\<lambda>k. (invalid nd, snd (run_checks fs
        (report UnknownFunction (''There is no function '' @ name @ ''()'') (node_start nd) e
                [(''function'', PText name)] k))))"
      using time by (simp add: check_call_def fun_eq_iff)
    show ?thesis unfolding eq by (rule reported_then_checks [OF assms]) simp
  next
    case (Some f)
    note W = function_named_well [OF Some, unfolded function_well_def lowers_well_def, rule_format]
    show ?thesis
    proof (rule checksI, goal_cases)
      case (1 k c k')
      obtain args k1 where r: "run_checks fs k = (args, k1)" by fastforce
      note R = run_checks_sound [OF assms r]
      have "reports k1 k'"
      proof (cases "wrong_count f (length args)")
        case True
        then show ?thesis using 1 time Some r by (auto simp: check_call_def)
      next
        case False
        let ?x = "\<lparr>x_name = name, x_start = node_start nd, x_end = node_end nd, x_args = args\<rparr>"
        obtain t ast k2 where l: "fn_lower f ?x k1 = ((t, ast), k2)" by (metis prod.collapse)
        then have "k2 = k'" using 1 time Some r False by (simp add: check_call_def)
        with conjunct1 [OF W [OF l]] show ?thesis by simp
      qed
      then show ?case using R grows_trans [of k k1 k'] by (auto simp: reports_grows fields_read_reports)
    next
      case (2 k c k')
      obtain args k1 where r: "run_checks fs k = (args, k1)" by fastforce
      note R = run_checks_sound [OF assms r]
      have count: "\<not> wrong_count f (length args)"
        using 2 time Some r by (auto simp: check_call_def)
      let ?x = "\<lparr>x_name = name, x_start = node_start nd, x_end = node_end nd, x_args = args\<rparr>"
      obtain t ast k2 where l: "fn_lower f ?x k1 = ((t, ast), k2)" by (metis prod.collapse)
      then have k2: "k2 = k'" and c: "c = \<lparr>c_type = (if length (k_errors k1) < length (k_errors k2) \<or>
              list_ex (\<lambda>c. c_type c = Invalid) args then Invalid else t), c_ast = ast, c_syntax = nd\<rparr>"
        using 2 time Some r count by (auto simp: check_call_def)
      have rep: "reports k1 k'" using W [OF l] k2 by simp
      have k1: "k_errors k1 = []" using grows_no_errors [OF reports_grows [OF rep] 2(2)] .
      have args: "\<forall>c\<in>set args. typed_arg (fields_read k') c"
        using R k1 fields_read_reports [OF rep] by simp
      have "has_type (fields_read k') ast t"
        using conjunct2 [OF W [OF l], of "fields_read k'"] 2(2) k2 args count
        by (auto simp: wrong_count_def split: option.splits)
      with c args 2(2) k2 show ?case
        by (auto simp: typed_arg_def list_ex_iff dest: has_type_valid)
    qed
  qed
qed

lemma check_checks: "checks env (check env nd)"
proof (induction nd)
  case (SNumber v a b) show ?case by (rule checksI) (auto simp: typed_arg_def ty_number)
next
  case (SString s a b) show ?case by (rule checksI) (auto simp: typed_arg_def ty_text)
next
  case (SBoolean v a b) show ?case by (rule checksI) (auto simp: typed_arg_def ty_boolean)
next
  case (SParen inner a b)
  show ?case
    by (rule checksI) (auto split: prod.splits simp: typed_arg_def dest: checksD [OF SParen])
next
  case (SField name braced rel a b) show ?case using check_field_checks by simp
next
  case (SUnary u operand a b) then show ?case by (simp add: check_unary_checks)
next
  case (SBinary oper os left right a b)
  then have "checks env (check_binary oper left right (SBinary oper os left right a b) (check env left) (check env right))"
    by (rule check_binary_checks)
  then show ?case by simp
next
  case (SCall name e args a b)
  then have "checks env (check_call name e (SCall name e args a b) (map (check env) args))"
    by (intro check_call_checks) auto
  then show ?case by simp
qed

end
