(* ===== verification/Formula_Checked.thy ===== *)
theory Formula_Checked
  imports Formula_Sound Formula_Cycles
begin

text \<open>
  What \<open>checkFormula\<close> promises: an accepted formula is typed and evaluates to its type, it is not
  too deep and its cycle check finds no chain back to its field, its dependencies are the fields it reads, and a refused one has reasons
  in the order of the text.
\<close>

section \<open>What an accepted formula is\<close>

lemma report_first_cycle_reports: "reports k (report_first_cycle env g i rs k)"
  by (induction env g i rs k rule: report_first_cycle.induct) (auto simp: Let_def split: option.split)

lemma report_cycle_reports: "reports k (report_cycle env i k)"
  by (simp add: report_cycle_def report_first_cycle_reports)

lemma check_depth_reports: "check_depth env opts k = (d, k') \<Longrightarrow> reports k k'"
  by (auto simp: check_depth_def Let_def split: option.splits prod.splits if_splits)

text \<open>\<open>checkFormula\<close> taken apart: what was checked, and that nothing was reported on the way.\<close>

lemma accepted_parts:
  assumes "check_formula syn env opts = res" "r_ast res = Some a"
  obtains c k1 t where
    "check env syn \<lparr>k_errors = [], k_references = []\<rparr> = (c, k1)" "k_errors k1 = []"
    "case o_field_id opts of None \<Rightarrow> True | Some i \<Rightarrow> k_errors (report_cycle env i k1) = []"
    "c_type c = Typed t" "c_ast c = a" "r_type res = Some t" "r_errors res = []"
    "r_dependencies res = dependency_refs [] (k_references k1)"
    "r_depth res = Some (fst (check_depth env opts k1))" "k_errors (snd (check_depth env opts k1)) = []"
proof -
  obtain c k1 where c: "check env syn \<lparr>k_errors = [], k_references = []\<rparr> = (c, k1)" by fastforce
  define k2 where "k2 = (case o_field_id opts of None \<Rightarrow> k1 | Some i \<Rightarrow> report_cycle env i k1)"
  obtain d k3 where d: "check_depth env opts k2 = (d, k3)" by fastforce
  define k4 where "k4 = (if k_errors k3 = [] \<and> c_type c = Blank
     then report_at UndeterminedType ''This formula is always blank, so it has no type'' syn [] k3 else k3)"
  have r2: "reports k1 k2" by (simp add: k2_def report_cycle_reports split: option.split)
  have r3: "reports k2 k3" by (rule check_depth_reports [OF d])
  have res: "res = (case c_type c of
      Typed t \<Rightarrow> (if k_errors k4 = []
         then \<lparr>r_ast = Some (c_ast c), r_type = Some t, r_errors = [],
               r_dependencies = dependency_refs [] (k_references k1), r_depth = Some d\<rparr>
         else \<lparr>r_ast = None, r_type = None, r_errors = sort_diagnostics (k_errors k4),
               r_dependencies = dependency_refs [] (k_references k1), r_depth = None\<rparr>)
    | _ \<Rightarrow> \<lparr>r_ast = None, r_type = None, r_errors = sort_diagnostics (k_errors k4),
            r_dependencies = dependency_refs [] (k_references k1), r_depth = None\<rparr>)"
    using assms(1) d unfolding check_formula_def c prod.case Let_def k2_def [symmetric] d k4_def [symmetric] by simp
  from assms(2) res obtain t where t: "c_type c = Typed t" "k_errors k4 = []"
    by (auto split: value_type.splits if_splits)
  then have k3: "k_errors k3 = []" by (simp add: k4_def)
  have k2: "k_errors k2 = []" using grows_no_errors [OF reports_grows [OF r3] k3] .
  have k1: "k_errors k1 = []" using grows_no_errors [OF reports_grows [OF r2] k2] .
  have k21: "k2 = k1" using r2 k1 k2 by (cases k1; cases k2) (simp add: reports_def)
  have cyc: "case o_field_id opts of None \<Rightarrow> True | Some i \<Rightarrow> k_errors (report_cycle env i k1) = []"
    using k2 by (simp add: k2_def split: option.splits)
  show thesis
    by (rule that [OF c k1 cyc t(1)]) (use assms(2) res t k3 d k21 in auto)
qed

lemma dependency_refs_paths:
  "(\<lambda>d. path_of (ref_id d) (ref_scope d)) ` set (dependency_refs seen rs) =
   (field_path \<circ> rf_field) ` set rs - set seen"
  by (induction seen rs rule: dependency_refs.induct) (auto simp: field_path_def)

lemma dependency_refs_distinct:
  "distinct (map (\<lambda>d. path_of (ref_id d) (ref_scope d)) (dependency_refs seen rs))"
proof (induction seen rs rule: dependency_refs.induct)
  case (2 seen r rs)
  then show ?case
    using dependency_refs_paths [of "field_path (rf_field r) # seen" rs]
    by (auto simp: field_path_def)
qed simp

abbreviation dep_path :: "field_ref \<Rightarrow> string" where
  "dep_path d \<equiv> path_of (ref_id d) (ref_scope d)"

text \<open>
  C7. An accepted formula is typed: its canonical tree has the reported type over fields of the
  environment, and its dependencies are the paths of exactly those fields, each once.
\<close>

theorem accepted_formula_is_typed:
  assumes "r_ast (check_formula syn env opts) = Some a"
  shows "\<exists>F t. F \<subseteq> set env \<and> has_type F a (Typed t) \<and> r_type (check_formula syn env opts) = Some t \<and>
     r_errors (check_formula syn env opts) = [] \<and>
     distinct (map dep_path (r_dependencies (check_formula syn env opts))) \<and>
     dep_path ` set (r_dependencies (check_formula syn env opts)) = field_path ` F"
proof -
  from accepted_parts [OF refl assms] obtain c k1 t where
    c: "check env syn \<lparr>k_errors = [], k_references = []\<rparr> = (c, k1)" "k_errors k1 = []"
      "c_type c = Typed t" "c_ast c = a" and
    r: "r_type (check_formula syn env opts) = Some t" "r_errors (check_formula syn env opts) = []"
      "r_dependencies (check_formula syn env opts) = dependency_refs [] (k_references k1)" by blast
  note C = checksD [OF check_checks c(1)]
  have F: "fields_read k1 \<subseteq> set env" using C(2) by (simp add: fields_read_def)
  moreover have "has_type (fields_read k1) a (Typed t)" using C(3) [OF c(2)] c by (simp add: typed_arg_def)
  moreover have "dep_path ` set (dependency_refs [] (k_references k1)) = field_path ` fields_read k1"
    by (simp add: dependency_refs_paths fields_read_def image_comp)
  ultimately show ?thesis using r dependency_refs_distinct [of "[]"] by auto
qed

lemma map_of_rev_unique:
  assumes "f \<in> set env" "\<And>g. g \<in> set env \<Longrightarrow> field_path g = field_path f \<Longrightarrow> f_type g = f_type f"
  shows "map_of (field_types env) (field_path f) = Some (f_type f)"
proof -
  have "map_of (field_types env) (field_path f) \<noteq> None"
    using assms(1) by (auto simp: field_types_def map_of_eq_None_iff image_iff)
  then obtain ty where ty: "map_of (field_types env) (field_path f) = Some ty" by blast
  from map_of_SomeD [OF this] obtain g where "g \<in> set env" "field_path g = field_path f" "f_type g = ty"
    by (auto simp: field_types_def)
  with ty assms(2) show ?thesis by auto
qed

fun value_of_type :: "formula_type \<Rightarrow> formula_value \<Rightarrow> bool" where
  "value_of_type t FNull = True"
| "value_of_type t (FText s) = (t = TText \<or> t = TDate \<or> t = TTimestamp)"
| "value_of_type t (FNumber x) = (t = TNumber)"
| "value_of_type t (FBool b) = (t = TBoolean)"

definition unique_paths :: "environment \<Rightarrow> bool" where
  "unique_paths env = (\<forall>f\<in>set env. \<forall>g\<in>set env. field_path f = field_path g \<longrightarrow> f_type f = f_type g)"

lemma finish_typed_value:
  assumes "value_has (Typed t) v"
  shows "case finish (Some t) v of Inl e \<Rightarrow> e \<noteq> TypeError | Inr w \<Rightarrow> value_of_type t w"
  using assms by (cases t) (auto simp: finish_def finish_typed_def split: option.split)

text \<open>
  C8. A formula the checker accepted cannot go wrong: for a record whose id is text, evaluation gives
  a value of the formula's static type or blank, or one of the documented errors; it ends in
  \<open>typeError\<close> only if a stored value of one of the formula's dependencies cannot be read as the
  type of its field.
\<close>

theorem accepted_formula_evaluates_to_its_type:
  assumes "r_ast (check_formula syn env opts) = Some a" "r_type (check_formula syn env opts) = Some t"
    and "unique_paths env" "id_is_text h record"
    and "\<forall>d\<in>set (r_dependencies (check_formula syn env opts)).
           read_field h (field_types env) (path_of (ref_id d) (ref_scope d)) record \<noteq> Fault TypeError"
  shows "case evaluate h a record \<lparr>e_env = Some env, e_result_type = Some t\<rparr> of
           Inl e \<Rightarrow> e \<noteq> TypeError
         | Inr v \<Rightarrow> value_of_type t v"
proof -
  from accepted_formula_is_typed [OF assms(1)] assms(2) obtain F where
    F: "F \<subseteq> set env" "has_type F a (Typed t)"
      "dep_path ` set (r_dependencies (check_formula syn env opts)) = field_path ` F" by auto
  have "readable h (field_types env) F record"
    unfolding readable_def
  proof (intro ballI conjI)
    fix f assume f: "f \<in> F"
    show "map_of (field_types env) (field_path f) = Some (f_type f)"
      using f F(1) assms(3) unfolding unique_paths_def by (intro map_of_rev_unique) blast+
    from f F(3) obtain d where "d \<in> set (r_dependencies (check_formula syn env opts))" "dep_path d = field_path f"
      using imageI [OF f, of field_path] by (auto simp flip: F(3))
    from bspec [OF assms(5) this(1)] this(2)
    show "read_field h (field_types env) (field_path f) record \<noteq> Fault TypeError" by simp
  qed
  from has_type_safe [OF F(2) this assms(4)]
  have s: "safe_outcome_of (Typed t) (run h (field_types env) a record)" .
  show ?thesis
  proof (cases "run h (field_types env) a record")
    case (Value v)
    with s finish_typed_value [of t v] show ?thesis by (simp add: evaluate_def)
  qed (use s in \<open>auto simp: evaluate_def\<close>)
qed

definition example_env :: environment where
  "example_env =
     [\<lparr>f_id = ''f1'', f_label = ''Net amount'', f_key = ''net'', f_type = ''number'', f_classified = False,
       f_out_of_scope = None, f_kind = Some Stored, f_scope = Self, f_depth = None, f_dependencies = None\<rparr>,
      \<lparr>f_id = ''f2'', f_label = ''Total'', f_key = ''total'', f_type = ''number'', f_classified = False,
       f_out_of_scope = None, f_kind = Some FormulaField, f_scope = Self, f_depth = None,
       f_dependencies = Some [\<lparr>ref_id = ''f1'', ref_scope = Self\<rparr>]\<rparr>]"

definition example_syntax :: node where
  "example_syntax = SBinary BMul 8 (SField ''Total'' True None 0 7) (SNumber (JFin 2) 10 11) 0 11"

definition example_options :: check_options where
  "example_options = \<lparr>o_field_id = Some ''f3'', o_formula_depth = None\<rparr>"

definition example_ast :: expr where
  "example_ast = EFormula FMul [EPath ''f2'' False None, ELit (VNum (JFin 2))]"

definition example_record :: jsval where
  "example_record = VObj (Some 1) [(''id'', VStr ''r1''), (''f1'', VNum (JFin 3)), (''f2'', VNum (JFin 21))]"

lemma example_accepted:
  "check_formula example_syntax example_env example_options =
     \<lparr>r_ast = Some example_ast, r_type = Some TNumber, r_errors = [],
      r_dependencies = [\<lparr>ref_id = ''f2'', ref_scope = Self\<rparr>], r_depth = Some 2\<rparr>"
  by code_simp

theorem accepted_formula_is_typed_witness:
  "\<exists>F. has_type F example_ast (Typed TNumber) \<and> F \<subseteq> set example_env"
  using accepted_formula_is_typed [of example_syntax example_env example_options example_ast]
  by (auto simp: example_accepted)

theorem accepted_formula_evaluates_witness:
  "case evaluate bare_host example_ast example_record \<lparr>e_env = Some example_env, e_result_type = Some TNumber\<rparr> of
     Inl e \<Rightarrow> e \<noteq> TypeError | Inr v \<Rightarrow> value_of_type TNumber v"
proof (rule accepted_formula_evaluates_to_its_type [of example_syntax example_env example_options])
  show "r_ast (check_formula example_syntax example_env example_options) = Some example_ast"
    "r_type (check_formula example_syntax example_env example_options) = Some TNumber"
    by (simp_all add: example_accepted)
  show "unique_paths example_env" by code_simp
  show "id_is_text bare_host example_record" 
    by (simp add: id_is_text_def example_record_def get_prop_def)
  have "read_field bare_host (field_types example_env) ''f2'' example_record = Value (VNum (JFin 21))"
    by code_simp
  then show "\<forall>d\<in>set (r_dependencies (check_formula example_syntax example_env example_options)).
           read_field bare_host (field_types example_env) (path_of (ref_id d) (ref_scope d)) example_record \<noteq> Fault TypeError"
    by (simp add: example_accepted path_of_def)
qed

lemma report_first_cycle_errors:
  "k_errors (report_first_cycle env g i rs k) = k_errors k \<longleftrightarrow> (\<forall>r\<in>set rs. cycle_chain g i r = None)"
  by (induction env g i rs k rule: report_first_cycle.induct)
     (auto simp: Let_def report_def split: option.split)

lemma cycle_graph_reads:
  "reads (build_graph (cycle_definitions env i k)) (self_node i) n \<longleftrightarrow>
   (\<exists>r\<in>set (self_reads k). n = self_node (f_id (rf_field r)))"
  by (auto simp: reads_build_graph cycle_definitions_def)

text \<open>The check reports a cycle exactly when its graph leads from the field back to it.\<close>

lemma report_cycle_iff:
  "k_errors (report_cycle env i k) \<noteq> k_errors k \<longleftrightarrow>
   (reads (build_graph (cycle_definitions env i k)))\<^sup>+\<^sup>+ (self_node i) (self_node i)"
proof -
  let ?g = "build_graph (cycle_definitions env i k)"
  have chain: "cycle_chain ?g i r \<noteq> None \<longleftrightarrow>
      self_node (f_id (rf_field r)) = self_node i \<or>
      graph_path ?g (self_node (f_id (rf_field r))) (self_node i) \<noteq> None" for r
    by (simp add: cycle_chain_def self_node_def)
  have "k_errors (report_cycle env i k) \<noteq> k_errors k \<longleftrightarrow> (\<exists>r\<in>set (self_reads k). cycle_chain ?g i r \<noteq> None)"
    by (simp add: report_cycle_def report_first_cycle_errors)
  also have "\<dots> \<longleftrightarrow> (\<exists>n. reads ?g (self_node i) n \<and> (n = self_node i \<or> graph_path ?g n (self_node i) \<noteq> None))"
    unfolding cycle_graph_reads chain by blast
  also have "\<dots> \<longleftrightarrow> (reads ?g)\<^sup>+\<^sup>+ (self_node i) (self_node i)"
    by (rule reads_path.on_cycle_iff [symmetric])
  finally show ?thesis .
qed

section \<open>Depth\<close>

lemma max_depths_total:
  "\<forall>x\<in>set xs. f x \<noteq> None \<Longrightarrow> max_depths f xs d \<noteq> None"
  by (induction f xs d rule: max_depths.induct) auto

lemma dependency_target_in: "dependency_target env r = Some f \<Longrightarrow> f \<in> set env"
  unfolding dependency_target_def by (drule find_first_Some) simp

lemma targets_subset: "set (targets env f) \<subseteq> set env"
  by (auto simp: targets_def dependency_target_in split: option.splits)

text \<open>Every nested call adds a path of the environment to \<open>visiting\<close>, so the fuel given is enough.\<close>

lemma field_depth_total:
  "f \<in> set env \<Longrightarrow> set visiting \<subseteq> field_path ` set env \<Longrightarrow>
   card (field_path ` set env - set visiting) < n \<Longrightarrow> field_depth n env visiting f \<noteq> None"
proof (induction n arbitrary: visiting f)
  case (Suc n)
  show ?case
  proof (cases "is_computed_field f \<and> f_depth f = None \<and> field_path f \<notin> set visiting \<and> has_dependencies f")
    case True
    let ?v = "field_path f # visiting"
    have "card (field_path ` set env - set ?v) < card (field_path ` set env - set visiting)"
      using True Suc.prems(1) by (intro psubset_card_mono) auto
    then have c: "card (field_path ` set env - set ?v) < n" using Suc.prems(3) by simp
    have "field_depth n env ?v x \<noteq> None" if "x \<in> set (targets env f)" for x
      using that targets_subset [of env f] Suc.prems(1,2) by (intro Suc.IH [OF _ _ c]) auto
    then have "max_depths (field_depth n env ?v) (targets env f) 0 \<noteq> None" by (intro max_depths_total) blast
    then show ?thesis using True by (auto simp: Suc.IH)
  qed (auto split: option.splits)
qed simp

lemma depth_of_total:
  assumes "f \<in> set env"
  shows "\<exists>d. field_depth (Suc (Suc (length env))) env [] f = Some d"
proof -
  have "card (field_path ` set env - set []) \<le> length env"
    by (simp add: card_length le_trans [OF card_image_le])
  then have "card (field_path ` set env - set []) < Suc (Suc (length env))" by simp
  from field_depth_total [OF assms _ this] show ?thesis by auto
qed

lemma deepest_reference_max:
  "1 \<le> d \<Longrightarrow> deepest_reference env rs d best = (d', best') \<Longrightarrow>
   d' = Max (insert d ((\<lambda>r. Suc (depth_of env (rf_field r))) ` set rs)) \<and>
   (best' = best \<and> d' = d \<or> best' \<noteq> None \<and> d < d')"
proof (induction env rs d best rule: deepest_reference.induct)
  case (2 env r rs d best)
  let ?D = "\<lambda>r. Suc (depth_of env (rf_field r))"
  have ins: "Max (insert d (?D ` set (r # rs))) = Max (insert (max d (?D r)) (?D ` set rs))"
    by (cases "set rs = {}") (simp_all add: max.assoc insert_commute)
  show ?case
  proof (cases "d < ?D r")
    case True
    then have "max d (?D r) = ?D r" by simp
    then show ?thesis using 2 True ins by auto
  next
    case False
    then have "max d (?D r) = d" by simp
    then show ?thesis using 2 False ins by auto
  qed
qed auto

definition depth_limit :: "check_options \<Rightarrow> nat" where
  "depth_limit opts = (case o_formula_depth opts of Some n \<Rightarrow> n | None \<Rightarrow> 5)"

text \<open>
  The depth of a formula is one more than the deepest field it reads, 1 over stored fields only;
  it is refused exactly when that exceeds the limit.  The computation of a field's depth always ends.
\<close>

theorem depth_is_one_more_than_the_deepest_field:
  "fst (check_depth env opts k) = Max (insert 1 ((\<lambda>r. Suc (depth_of env (rf_field r))) ` set (k_references k))) \<and>
   (k_errors (snd (check_depth env opts k)) \<noteq> k_errors k \<longleftrightarrow>
      max 1 (depth_limit opts) < fst (check_depth env opts k)) \<and>
   (\<forall>f\<in>set env. field_depth (Suc (Suc (length env))) env [] f = Some (depth_of env f))"
proof (intro conjI ballI)
  obtain d best where d: "deepest_reference env (k_references k) 1 None = (d, best)" by fastforce
  note D = deepest_reference_max [OF _ d, simplified]
  have c: "check_depth env opts k = (d, case best of None \<Rightarrow> k | Some r \<Rightarrow>
      (if depth_limit opts < d then snd (check_depth env opts k) else k))"
    using d by (simp add: check_depth_def depth_limit_def default_formula_depth_def Let_def split: option.splits)
  show "fst (check_depth env opts k) = Max (insert 1 ((\<lambda>r. Suc (depth_of env (rf_field r))) ` set (k_references k)))"
    using D by (subst c) simp
  show "k_errors (snd (check_depth env opts k)) \<noteq> k_errors k \<longleftrightarrow> max 1 (depth_limit opts) < fst (check_depth env opts k)"
    using D d by (auto simp: check_depth_def depth_limit_def default_formula_depth_def Let_def report_def split: option.splits)
next
  fix f assume "f \<in> set env"
  from depth_of_total [OF this]
  show "field_depth (Suc (Suc (length env))) env [] f = Some (depth_of env f)"
    by (elim exE) (simp add: depth_of_def del: field_depth.simps)
qed

definition example_checker :: checker where
  "example_checker = snd (check example_env example_syntax \<lparr>k_errors = [], k_references = []\<rparr>)"

theorem depth_witness:
  "field_depth (Suc (Suc (length example_env))) example_env [] (hd example_env) = Some (depth_of example_env (hd example_env)) \<and>
   fst (check_depth example_env example_options example_checker) =
     Max (insert 1 ((\<lambda>r. Suc (depth_of example_env (rf_field r))) ` set (k_references example_checker))) \<and>
   map (f_label \<circ> rf_field) (k_references example_checker) = [''Total'']"
proof -
  have "map (f_label \<circ> rf_field) (k_references example_checker) = [''Total'']"
    by code_simp
  moreover have "hd example_env \<in> set example_env" by (simp add: example_env_def)
  ultimately show ?thesis
    using depth_is_one_more_than_the_deepest_field [of example_env example_options example_checker] by blast
qed

section \<open>Refusals\<close>

definition before_in_text :: "diagnostic \<Rightarrow> diagnostic \<Rightarrow> bool" where
  "before_in_text x y = (d_start x < d_start y \<or> (d_start x = d_start y \<and> d_end x \<le> d_end y))"

lemma insort_before:
  "sorted_wrt before_in_text ys \<Longrightarrow> \<forall>y\<in>set ys. d_end z \<le> d_end y \<Longrightarrow>
   sorted_wrt before_in_text (insort_key d_start z ys)"
  by (induction ys) (auto simp: before_in_text_def set_insort_key)

lemma sort_start_before:
  "sorted (map d_end zs) \<Longrightarrow> sorted_wrt before_in_text (sort_key d_start zs)"
  by (induction zs) (auto intro: insort_before)

lemma sorted_diagnostics: "sorted_wrt before_in_text (sort_diagnostics ds)"
  by (simp add: sort_diagnostics_def sort_start_before)

lemma mset_diagnostics: "set (sort_diagnostics ds) = set ds"
  by (simp add: sort_diagnostics_def)

text \<open>
  A formula is refused exactly when a reason is given, and then has neither a tree nor a type;
  the reasons come in the order of the text they are about.
\<close>

theorem refusals_give_reasons_in_order:
  "(r_ast (check_formula syn env opts) = None \<longleftrightarrow> r_errors (check_formula syn env opts) \<noteq> []) \<and>
   (r_type (check_formula syn env opts) = None \<longleftrightarrow> r_errors (check_formula syn env opts) \<noteq> []) \<and>
   sorted_wrt before_in_text (r_errors (check_formula syn env opts))"
proof -
  obtain c k1 where c: "check env syn \<lparr>k_errors = [], k_references = []\<rparr> = (c, k1)" by fastforce
  define k2 where "k2 = (case o_field_id opts of None \<Rightarrow> k1 | Some i \<Rightarrow> report_cycle env i k1)"
  obtain d k3 where d: "check_depth env opts k2 = (d, k3)" by fastforce
  define k4 where "k4 = (if k_errors k3 = [] \<and> c_type c = Blank
     then report_at UndeterminedType ''This formula is always blank, so it has no type'' syn [] k3 else k3)"
  have grow: "grows k1 k2" "grows k2 k3" "grows k3 k4"
    using reports_grows [OF report_cycle_reports] reports_grows [OF check_depth_reports [OF d]]
    by (auto simp: k2_def k4_def grows_intros split: option.split)
  have valid: "k_errors k4 = [] \<Longrightarrow> \<exists>t. c_type c = Typed t"
  proof -
    assume k4: "k_errors k4 = []"
    then have "k_errors k1 = []" using grow grows_no_errors by blast
    then have "c_type c \<noteq> Invalid" using checksD(3) [OF check_checks c] by (simp add: typed_arg_def)
    moreover have "c_type c \<noteq> Blank" using k4 by (auto simp: k4_def split: if_splits)
    ultimately show ?thesis by (cases "c_type c") auto
  qed
  show ?thesis
    unfolding check_formula_def c prod.case Let_def k2_def [symmetric] d k4_def [symmetric]
    using valid sorted_diagnostics [of "k_errors k4"] mset_diagnostics [of "k_errors k4"]
    by (auto split: value_type.split)
qed

end
