(* ===== verification/Formula_Dependencies.thy ===== *)
theory Formula_Dependencies
  imports Formula_Check
begin

text \<open>
  The fields a canonical tree reads (\<open>formula/src/dependencies.ts\<close>), and the graph nodes they stand
  for.
\<close>

section \<open>Sub-expressions\<close>

fun is_object :: "expr \<Rightarrow> bool" where
  "is_object EMissing = False"
| "is_object ENonObject = False"
| "is_object e = True"

definition child_expressions :: "expr \<Rightarrow> expr list" where
  "child_expressions e =
     filter is_object
       (case e of
          ERule oper l r \<Rightarrow> l # opt_list r
        | EIf c t el \<Rightarrow> c # t # opt_list el
        | ESwitch s cs d \<Rightarrow> s # concat (map (\<lambda>(w, t). [w, t]) cs) @ opt_list d
        | EFormula oper es \<Rightarrow> es
        | ECoalesce es \<Rightarrow> es
        | EGroup m cs al an \<Rightarrow> concat (opt_list cs) @ concat (opt_list al) @ concat (opt_list an)
        | EDate oper l r u \<Rightarrow> opt_list l @ opt_list r
        | EAggregate oper coll w f \<Rightarrow> opt_list w @ opt_list f
        | _ \<Rightarrow> [])"

lemma size_child: "c \<in> set (child_expressions e) \<Longrightarrow> size c < size e"
proof (cases e)
  case (EGroup m cs al an)
  then show "c \<in> set (child_expressions e) \<Longrightarrow> ?thesis"
    by (cases cs; cases al; cases an)
       (auto simp: child_expressions_def split: if_splits dest!: size_list_estimation' [where f = size, OF _ order_refl])
next
  case (ESwitch s cs d)
  have *: "size w < Suc (size_list (size_prod size size) cs) \<and> size t < Suc (size_list (size_prod size size) cs)"
    if "(w, t) \<in> set cs" for w t
    using size_list_estimation' [OF that, of "size w" "size_prod size size"]
      size_list_estimation' [OF that, of "size t" "size_prod size size"] by simp
  then show "c \<in> set (child_expressions e) \<Longrightarrow> ?thesis"
    using ESwitch by (cases d) (auto simp: child_expressions_def split: if_splits dest!: *)
next
  case (ERule oper l r)
  then show "c \<in> set (child_expressions e) \<Longrightarrow> ?thesis" by (cases r) (auto simp: child_expressions_def split: if_splits)
next
  case (EIf x t el)
  then show "c \<in> set (child_expressions e) \<Longrightarrow> ?thesis" by (cases el) (auto simp: child_expressions_def split: if_splits)
next
  case (EDate oper l r u)
  then show "c \<in> set (child_expressions e) \<Longrightarrow> ?thesis"
    by (cases l; cases r) (auto simp: child_expressions_def split: if_splits)
next
  case (EAggregate oper coll w f)
  then show "c \<in> set (child_expressions e) \<Longrightarrow> ?thesis"
    by (cases w; cases f) (auto simp: child_expressions_def split: if_splits)
qed (auto simp: child_expressions_def split: if_splits dest!: size_list_estimation' [where f = size, OF _ order_refl])

section \<open>Dependencies\<close>

text \<open>\<open>path.indexOf(".")\<close>: before the first dot the relation, after it the id.\<close>

definition ref_of_path :: "string \<Rightarrow> field_ref" where
  "ref_of_path p =
     (if CHR ''.'' \<in> set p
      then \<lparr>ref_id = tl (dropWhile (\<lambda>c. c \<noteq> CHR ''.'') p),
            ref_scope = Relation (takeWhile (\<lambda>c. c \<noteq> CHR ''.'') p)\<rparr>
      else \<lparr>ref_id = p, ref_scope = Self\<rparr>)"

text \<open>\<open>visit\<close>, with the paths seen and the references found so far.\<close>

type_synonym found = "string list \<times> field_ref list"

definition visit_path :: "string \<Rightarrow> found \<Rightarrow> found" where
  "visit_path p st =
     (case st of (seen, refs) \<Rightarrow>
        if p \<in> set seen then st else (p # seen, refs @ [ref_of_path p]))"

function visit_expr :: "expr \<Rightarrow> found \<Rightarrow> found" where
  "visit_expr e st =
     (case e of
        EPath p _ _ \<Rightarrow> visit_path p st
      | _ \<Rightarrow> fold visit_expr (child_expressions e) st)"
  by pat_completeness auto
termination
  by (relation "measure (size \<circ> fst)") (auto dest: size_child)

declare visit_expr.simps [simp del]

definition dependencies :: "expr \<Rightarrow> field_ref list" where
  "dependencies e = snd (visit_expr e ([], []))"

text \<open>\<open>dependencyNodes\<close>: a relation \<open>relations\<close> does not know is kept under its own name.\<close>

definition dependency_nodes :: "string \<Rightarrow> field_ref list \<Rightarrow> (string \<times> string) list \<Rightarrow> dep_node list" where
  "dependency_nodes entity refs relations =
     map (\<lambda>r. DepNode
            (case ref_scope r of
               Self \<Rightarrow> entity
             | Relation n \<Rightarrow> (case map_of relations n of Some e \<Rightarrow> e | None \<Rightarrow> n))
            (ref_id r)) refs"

end
