(* ===== verification/Formula_Reads.thy ===== *)
theory Formula_Reads
  imports Formula_Dependencies Formula_Checked
begin

text \<open>
  Two parts of the program tell what a formula reads: the checker records the fields it binds, and
  \<open>dependencies.ts\<close> walks the canonical tree.  Every method of the checker records exactly the paths
  of the tree it gives, in order, so the two answers are the same list.
\<close>

section \<open>The paths of a tree, in the order it reads them\<close>

function paths :: "expr \<Rightarrow> string list" where
  "paths e = (case e of EPath p _ _ \<Rightarrow> [p] | _ \<Rightarrow> concat (map paths (child_expressions e)))"
  by pat_completeness auto
termination
  by (relation "measure size") (auto dest: size_child)

declare paths.simps [simp del]

lemma paths_missing [simp]: "paths EMissing = []" "paths ENonObject = []"
  by (simp_all add: paths.simps child_expressions_def)

lemma paths_objects: "concat (map paths (filter is_object es)) = concat (map paths es)"
proof (induction es)
  case (Cons e es)
  then show ?case by (cases e) simp_all
qed simp

lemma paths_pairs:
  "concat (map paths (concat (map (\<lambda>(w, t). [w, t]) ps))) = concat (map (\<lambda>(w, t). paths w @ paths t) ps)"
  by (induction ps) auto

lemma paths_simps [simp]:
  "paths (EPath p flt off) = [p]"
  "paths (ELit v) = []"
  "paths (EFun f off) = []"
  "paths (EFormula oper es) = concat (map paths es)"
  "paths (ERule cop l r) = paths l @ concat (map paths (opt_list r))"
  "paths (EGroup m cs al an) = concat (map paths (concat (opt_list cs) @ concat (opt_list al) @ concat (opt_list an)))"
  "paths (EIf c t el) = paths c @ paths t @ concat (map paths (opt_list el))"
  "paths (ESwitch s ps d) = paths s @ concat (map (\<lambda>(w, t). paths w @ paths t) ps) @ concat (map paths (opt_list d))"
  "paths (EDate dop l' r' u) = concat (map paths (opt_list l' @ opt_list r'))"
  using paths_objects [of "s # concat (map (\<lambda>(w, t). [w, t]) ps) @ opt_list d"] paths_objects [of "l # opt_list r"]
    paths_objects [of "c # t # opt_list el"] paths_pairs [of ps]
  by (simp_all add: paths.simps [of "EPath p flt off"] paths.simps [of "ELit v"] paths.simps [of "EFun f off"]
    paths.simps [of "EFormula oper es"] paths.simps [of "ERule cop l r"] paths.simps [of "EGroup m cs al an"]
    paths.simps [of "EIf c t el"] paths.simps [of "EDate dop l' r' u"] paths.simps [of "ESwitch s ps d"]
    child_expressions_def paths_objects del: filter.simps filter_append)

lemma visit_expr_paths: "visit_expr e st = fold visit_path (paths e) st"
proof (induction e arbitrary: st rule: measure_induct_rule [of size])
  case (less e)
  have "fold visit_expr es st = fold visit_path (concat (map paths es)) st"
    if "set es \<subseteq> set (child_expressions e)" for es st
    using that by (induction es arbitrary: st) (auto simp: less size_child)
  then show ?case
    by (subst visit_expr.simps, subst paths.simps) (auto split: expr.split)
qed

section \<open>A lowering keeps the paths of its arguments\<close>

definition plain_text_arg :: "checked \<Rightarrow> bool" where
  "plain_text_arg c = (\<forall>s a b. unwrap (c_syntax c) = SString s a b \<longrightarrow> paths (c_ast c) = [])"

definition arg_paths :: "checked list \<Rightarrow> string list" where
  "arg_paths cs = concat (map (paths \<circ> c_ast) cs)"

lemma arg_paths_simps [simp]: "arg_paths [] = []" "arg_paths (c # cs) = paths (c_ast c) @ arg_paths cs"
  by (simp_all add: arg_paths_def)

definition keeps_paths :: "nat \<Rightarrow> nat option \<Rightarrow> (call_context \<Rightarrow> checker \<Rightarrow> (value_type \<times> expr) \<times> checker) \<Rightarrow> bool" where
  "keeps_paths least most lower =
     (\<forall>x k t ast k'. lower x k = ((t, ast), k') \<longrightarrow> k_errors k' = [] \<longrightarrow>
        least \<le> length (x_args x) \<longrightarrow> (case most of None \<Rightarrow> True | Some m \<Rightarrow> length (x_args x) \<le> m) \<longrightarrow>
        (\<forall>c\<in>set (x_args x). plain_text_arg c) \<longrightarrow> paths ast = arg_paths (x_args x))"

lemma paths_asts [simp]: "concat (map paths (asts x)) = arg_paths (x_args x)"
  by (simp add: asts_def arg_paths_def)

lemma args_upto_3:
  assumes "length cs \<le> 3"
  obtains "cs = []" | a where "cs = [a]" | a b where "cs = [a, b]" | a b c where "cs = [a, b, c]"
  using assms by (cases cs; cases "tl cs"; cases "tl (tl cs)"; cases "tl (tl (tl cs))") auto

lemma if_paths: "keeps_paths 2 (Some 3) lower_if"
  unfolding keeps_paths_def
proof (intro allI impI)
  fix x k t ast k'
  assume l: "lower_if x k = ((t, ast), k')" and n: "2 \<le> length (x_args x)"
    "case Some 3 of None \<Rightarrow> True | Some m \<Rightarrow> length (x_args x) \<le> m"
  then have "length (x_args x) \<le> 3" by simp
  then show "paths ast = arg_paths (x_args x)"
    by (rule args_upto_3) (use l n in \<open>auto simp: lower_if_def Let_def arg_option_def split: prod.splits\<close>)
qed

lemma switch_pairs_paths:
  "switch_pairs cs = (ps, d) \<Longrightarrow>
   concat (map (\<lambda>(p, r). paths (c_ast p) @ paths (c_ast r)) ps) @ concat (map paths (opt_list (map_option c_ast d))) =
   arg_paths cs"
  by (induction cs arbitrary: ps d rule: switch_pairs.induct) (auto split: prod.splits)

lemma switch_paths: "keeps_paths 3 None lower_switch"
  unfolding keeps_paths_def
proof (intro allI impI)
  fix x k t ast k'
  assume l: "lower_switch x k = ((t, ast), k')" and n: "3 \<le> length (x_args x)"
  obtain s cs where x: "x_args x = s # cs" using n by (cases "x_args x") auto
  obtain ps d where sp: "switch_pairs cs = (ps, d)" by fastforce
  have "ast = ESwitch (c_ast s) (map (\<lambda>(p, r). (c_ast p, c_ast r)) ps) (map_option c_ast d)"
    using l x sp by (auto simp: lower_switch_def Let_def split: prod.splits)
  moreover have "concat (map (\<lambda>(w, t). paths w @ paths t) (map (\<lambda>(p, r). (c_ast p, c_ast r)) ps)) =
      concat (map (\<lambda>(p, r). paths (c_ast p) @ paths (c_ast r)) ps)"
    by (simp add: comp_def split_def)
  ultimately show "paths ast = arg_paths (x_args x)"
    using switch_pairs_paths [OF sp] x by simp
qed

lemma unit_at_text:
  assumes "unit_at x i fb k = (u, k')" "k_errors k' = []" "i < length (x_args x)" "plain_text_arg (x_args x ! i)"
  shows "paths (c_ast (x_args x ! i)) = []"
  using assms by (auto simp: unit_at_def arg_option_def plain_text_arg_def split: node.splits option.splits)

lemma date_add_paths: "keeps_paths 3 (Some 3) lower_date_add"
  unfolding keeps_paths_def
proof (intro allI impI)
  fix x k t ast k'
  assume l: "lower_date_add x k = ((t, ast), k')" and e: "k_errors k' = []" and n: "3 \<le> length (x_args x)"
    "case Some 3 of None \<Rightarrow> True | Some m \<Rightarrow> length (x_args x) \<le> m"
    and p: "\<forall>c\<in>set (x_args x). plain_text_arg c"
  then have "length (x_args x) \<le> 3" by simp
  then show "paths ast = arg_paths (x_args x)"
  proof (rule args_upto_3)
    fix a b c assume x: "x_args x = [a, b, c]"
    obtain u where u: "unit_at x 2 None (expect x 1 [TNumber] (expect x 0 temporal k)) = (u, k')"
      using l by (auto simp: lower_date_add_def Let_def split: prod.splits)
    have "paths (c_ast c) = []" using unit_at_text [OF u e] p x by (simp add: numeral_2_eq_2)
    then show ?thesis using l x by (auto simp: lower_date_add_def Let_def split: prod.splits)
  qed (use n in auto)
qed

lemma date_diff_paths: "keeps_paths 2 (Some 3) lower_date_diff"
  unfolding keeps_paths_def
proof (intro allI impI)
  fix x k t ast k'
  assume l: "lower_date_diff x k = ((t, ast), k')" and e: "k_errors k' = []" and n: "2 \<le> length (x_args x)"
    "case Some 3 of None \<Rightarrow> True | Some m \<Rightarrow> length (x_args x) \<le> m"
    and p: "\<forall>c\<in>set (x_args x). plain_text_arg c"
  then have "length (x_args x) \<le> 3" by simp
  then show "paths ast = arg_paths (x_args x)"
  proof (rule args_upto_3)
    fix a b c assume x: "x_args x = [a, b, c]"
    obtain u where u: "unit_at x 2 (Some USeconds) (expect x 1 temporal (expect x 0 temporal k)) = (u, k')"
      using l by (auto simp: lower_date_diff_def Let_def split: prod.splits)
    have "paths (c_ast c) = []" using unit_at_text [OF u e] p x by (simp add: numeral_2_eq_2)
    then show ?thesis using l x by (auto simp: lower_date_diff_def Let_def split: prod.splits)
  qed (use n l in \<open>auto simp: lower_date_diff_def Let_def split: prod.splits\<close>)
qed

lemma date_format_paths: "keeps_paths 1 (Some 2) lower_date_format"
  unfolding keeps_paths_def
proof (intro allI impI)
  fix x k t ast k'
  assume l: "lower_date_format x k = ((t, ast), k')" and n: "1 \<le> length (x_args x)"
    "case Some 2 of None \<Rightarrow> True | Some m \<Rightarrow> length (x_args x) \<le> m"
  then have "length (x_args x) \<le> 3" by simp
  then show "paths ast = arg_paths (x_args x)"
    by (rule args_upto_3)
       (use n l in \<open>auto simp: lower_date_format_def Let_def arg_option_def split: prod.splits\<close>)
qed

definition function_keeps :: "formula_function \<Rightarrow> bool" where
  "function_keeps f = keeps_paths (fn_min f) (fn_max f) (fn_lower f)"

lemma function_keeps_make [simp]:
  "function_keeps (make_function n c s d least most ret lower) = keeps_paths least most lower"
  by (simp add: function_keeps_def make_function_def)

lemma function_keeps_simple [simp]:
  "function_keeps (simple name ct sg desc oper types ret least)"
  "function_keeps (variadic name ct sg desc oper types' ret)"
  by (auto simp: function_keeps_def simple_def variadic_def keeps_paths_def)

lemma function_keeps_date_part [simp]: "function_keeps (date_part name oper desc)"
  unfolding function_keeps_def keeps_paths_def
proof (intro allI impI)
  fix x k t ast k'
  assume l: "fn_lower (date_part name oper desc) x k = ((t, ast), k')"
    and "fn_min (date_part name oper desc) \<le> length (x_args x)"
    "case fn_max (date_part name oper desc) of None \<Rightarrow> True | Some m \<Rightarrow> length (x_args x) \<le> m"
  then have "length (x_args x) = 1" by (simp add: date_part_def)
  then obtain c where "x_args x = [c]" by (cases "x_args x") auto
  then show "paths ast = arg_paths (x_args x)" using l by (auto simp: date_part_def)
qed

lemma keeps_asts [simp]:
  "keeps_paths least most lower_concatenate" "keeps_paths least most (lower_group m)"
  "keeps_paths least most (\<lambda>x k. ((t, EFormula oper (asts x)), k))"
  by (auto simp: keeps_paths_def lower_concatenate_def lower_group_def)

lemma keeps_constant [simp]:
  "paths e = [] \<Longrightarrow> keeps_paths 0 (Some 0) (\<lambda>x k. ((t, e), k))"
  by (auto simp: keeps_paths_def)

lemma all_functions_keep: "\<forall>f\<in>set formula_functions. function_keeps f"
  by (simp add: formula_functions_def text_functions_def logical_functions_def numeric_functions_def
      date_functions_def record_functions_def if_paths switch_paths date_add_paths date_diff_paths
      date_format_paths [unfolded One_nat_def])


section \<open>The checker records what the tree reads\<close>

definition read_paths :: "reference list \<Rightarrow> string list" where
  "read_paths rs = map (field_path \<circ> rf_field) rs"

definition adds_paths :: "checker \<Rightarrow> checker \<Rightarrow> string list \<Rightarrow> bool" where
  "adds_paths k k' ps = (read_paths (k_references k') = read_paths (k_references k) @ ps)"

lemma adds_paths_trans: "adds_paths k k1 ps \<Longrightarrow> adds_paths k1 k2 qs \<Longrightarrow> adds_paths k k2 (ps @ qs)"
  by (simp add: adds_paths_def)

lemma adds_paths_reports: "reports k k' \<Longrightarrow> adds_paths k k' []"
  by (simp add: adds_paths_def reports_def)

fun literal_node :: "node \<Rightarrow> bool" where
  "literal_node (SString _ _ _) = True"
| "literal_node (SNumber _ _ _) = True"
| "literal_node _ = False"

definition tracks :: "node \<Rightarrow> (checker \<Rightarrow> checked \<times> checker) \<Rightarrow> bool" where
  "tracks nd f =
     (\<forall>k c k'. f k = (c, k') \<longrightarrow>
        c_syntax c = nd \<and> (literal_node (unwrap nd) \<longrightarrow> paths (c_ast c) = []) \<and>
        (k_errors k' = [] \<longrightarrow> adds_paths k k' (paths (c_ast c))))"

lemma tracksI:
  assumes "\<And>k c k'. f k = (c, k') \<Longrightarrow> c_syntax c = nd"
    "\<And>k c k'. f k = (c, k') \<Longrightarrow> literal_node (unwrap nd) \<Longrightarrow> paths (c_ast c) = []"
    "\<And>k c k'. f k = (c, k') \<Longrightarrow> k_errors k' = [] \<Longrightarrow> adds_paths k k' (paths (c_ast c))"
  shows "tracks nd f"
  using assms unfolding tracks_def by blast

lemma tracksD:
  assumes "tracks nd f" "f k = (c, k')"
  shows "c_syntax c = nd" "literal_node (unwrap nd) \<Longrightarrow> paths (c_ast c) = []"
    "k_errors k' = [] \<Longrightarrow> adds_paths k k' (paths (c_ast c))"
  using assms unfolding tracks_def by blast+

lemma tracks_plain_text: "tracks nd f \<Longrightarrow> f k = (c, k') \<Longrightarrow> plain_text_arg c"
  using tracksD [of nd f k c k'] by (auto simp: plain_text_arg_def)

lemma bind_field_tracks: "unwrap nd = nd \<Longrightarrow> \<not> literal_node nd \<Longrightarrow> tracks nd (bind_field f nd)"
  by (rule tracksI)
     (auto simp: bind_field_def Let_def adds_paths_def read_paths_def field_read_def
       split: if_splits option.splits)

lemma refused_tracks:
  assumes "\<And>k. c_syntax (fst (f k)) = nd \<and> k_errors (snd (f k)) \<noteq> []" "\<not> literal_node (unwrap nd)"
  shows "tracks nd f"
  using assms by (intro tracksI) (metis fst_conv, blast, metis snd_conv)

lemma check_field_tracks:
  "tracks (SField name braced rel a b) (check_field env name braced rel (SField name braced rel a b))"
  (is "tracks ?nd _")
proof -
  let ?found = "resolve (filter (in_relation rel) env) name braced"
  show ?thesis
  proof (cases "\<exists>f. ?found = [f] \<and> \<not> (rel \<noteq> None \<and> filter (in_relation rel) env = [])")
    case True
    then obtain f where f: "?found = [f]" and r: "\<not> (rel \<noteq> None \<and> filter (in_relation rel) env = [])" by blast
    have eq: "check_field env name braced rel ?nd = bind_field f ?nd"
      using f r by (auto simp: fun_eq_iff check_field_def Let_def bind_match_def)
    show ?thesis unfolding eq by (rule bind_field_tracks) simp_all
  next
    case False
    have "c_syntax (fst (check_field env name braced rel ?nd k)) = ?nd \<and>
        k_errors (snd (check_field env name braced rel ?nd k)) \<noteq> []" for k
      using False
      by (auto simp: check_field_def Let_def bind_match_def invalid_def split: option.splits list.splits if_splits)
    then show ?thesis by (rule refused_tracks) simp
  qed
qed

lemma check_unary_tracks:
  assumes t: "tracks operand f"
  shows "tracks (SUnary u operand a b) (\<lambda>k. check_unary u operand (SUnary u operand a b) (f k))"
proof (rule tracksI, goal_cases)
  case (1 k c k')
  then show ?case by (auto simp: check_unary_def Let_def split: prod.splits if_splits node.splits)
next
  case (2 k c k')
  then show ?case by simp
next
  case (3 k c k')
  obtain c0 k0 where f: "f k = (c0, k0)" by fastforce
  obtain ok where e: "expect_operand c0 [TNumber] (''unary '' @ quoted (unary_symbol u)) ''operand'' [] k0 = (ok, k')"
    using 3 f by (auto simp: check_unary_def Let_def split: if_splits node.splits) (metis prod.collapse)+
  note r = expect_operand_reports [OF e]
  have "adds_paths k k0 (paths (c_ast c0))"
    using tracksD(3) [OF t f] grows_no_errors [OF reports_grows [OF r] 3(2)] by simp
  then have p: "adds_paths k k' (paths (c_ast c0))"
    using adds_paths_trans adds_paths_reports [OF r] by fastforce
  moreover have "paths (c_ast c) = paths (c_ast c0)"
  proof (cases "\<exists>v i j. u = UMinus \<and> unwrap operand = SNumber v i j")
    case True
    then show ?thesis using tracksD(2) [OF t f] 3(1) f by (auto simp: check_unary_def Let_def)
  next
    case False
    then show ?thesis using 3(1) f
      by (cases u) (auto simp: check_unary_def Let_def split: node.splits)
  qed
  ultimately show ?case by simp
qed

lemma check_comparison_result:
  "check_comparison b nd l r k = (c, k') \<Longrightarrow> c_syntax c = nd \<and> paths (c_ast c) = paths (c_ast l) @ paths (c_ast r)"
  by (auto simp: check_comparison_def Let_def split: prod.splits)

lemma check_operator_result:
  "check_operator b nd l r k = (c, k') \<Longrightarrow> c_syntax c = nd \<and> paths (c_ast c) = paths (c_ast l) @ paths (c_ast r)"
  by (auto simp: check_operator_def Let_def dest: check_comparison_result
      split: if_splits option.splits prod.splits)

lemma check_binary_tracks:
  assumes f: "tracks left f" "checks env f" and g: "tracks right g" "checks env g"
  shows "tracks (SBinary oper os left right a b) (check_binary oper left right (SBinary oper os left right a b) f g)"
    (is "tracks ?nd _")
proof (cases "(oper = BEq \<or> oper = BNe) \<and> (is_blank_call left \<or> is_blank_call right)")
  case True
  let ?f = "if is_blank_call right then f else g"
  have t: "tracks (if is_blank_call right then left else right) ?f" using f g by simp
  show ?thesis
  proof (rule tracksI, goal_cases)
    case (3 k c k')
    obtain c0 where "?f k = (c0, k')" "paths (c_ast c) = paths (c_ast c0)"
      using 3(1) True by (auto simp: check_binary_def split: prod.splits if_splits)
    then show ?case using tracksD(3) [OF t] 3 by simp
  qed (use True in \<open>auto simp: check_binary_def split: prod.splits if_splits\<close>)
next
  case False
  have eq: "check_binary oper left right ?nd f g k =
      (case f k of (l, k1) \<Rightarrow> case g k1 of (r, k2) \<Rightarrow> check_operator oper ?nd l r k2)" for k
    using False by (auto simp: check_binary_def split: prod.splits)
  show ?thesis
  proof (rule tracksI, goal_cases)
    case (3 k c k')
    obtain l k1 r k2 where s: "f k = (l, k1)" "g k1 = (r, k2)" "check_operator oper ?nd l r k2 = (c, k')"
      using 3(1) unfolding eq by (auto split: prod.splits)
    note rep = check_operator_reports [OF s(3)]
    have k2: "k_errors k2 = []" using grows_no_errors [OF reports_grows [OF rep] 3(2)] .
    have k1: "k_errors k1 = []" using grows_no_errors [OF checksD(1) [OF g(2) s(2)] k2] .
    have "adds_paths k k' ((paths (c_ast l) @ paths (c_ast r)) @ [])"
      using tracksD(3) [OF f(1) s(1) k1] tracksD(3) [OF g(1) s(2) k2] adds_paths_reports [OF rep]
      by (blast intro: adds_paths_trans)
    then show ?case using check_operator_result [OF s(3)] by simp
  qed (auto simp: eq dest!: check_operator_result split: prod.splits)
qed

lemma run_checks_paths:
  assumes "list_all2 (\<lambda>nd f. tracks nd f \<and> checks env f) nds fs"
  shows "run_checks fs k = (cs, k') \<Longrightarrow>
    (\<forall>c\<in>set cs. plain_text_arg c) \<and> (k_errors k' = [] \<longrightarrow> adds_paths k k' (arg_paths cs))"
  using assms
proof (induction arbitrary: k cs k' rule: list_all2_induct)
  case Nil
  then show ?case by (simp add: adds_paths_def)
next
  case (Cons nd nds f fs)
  obtain c k1 where c: "f k = (c, k1)" by fastforce
  obtain cs1 where cs: "run_checks fs k1 = (cs1, k')" "cs = c # cs1"
    using Cons.prems c by (auto split: prod.splits)
  have f: "tracks nd f" "checks env f" using Cons.hyps by auto
  have "\<forall>f\<in>set fs. checks env f" using Cons.hyps by (auto simp: list_all2_conv_all_nth in_set_conv_nth)
  then have g: "grows k1 k'" using run_checks_sound [OF _ cs(1)] by blast
  show ?case
    using Cons.IH [OF cs(1)] tracks_plain_text [OF f(1) c] tracksD(3) [OF f(1) c] grows_no_errors [OF g]
    by (auto simp: cs(2) intro: adds_paths_trans)
qed

lemma function_named_in: "function_named name = Some f \<Longrightarrow> f \<in> set formula_functions"
  using find_first_Some by (fastforce simp: function_named_def)

lemma check_call_tracks:
  assumes a: "list_all2 (\<lambda>nd f. tracks nd f \<and> checks env f) nds fs"
  shows "tracks (SCall name e args a b) (check_call name e (SCall name e args a b) fs)" (is "tracks ?nd _")
proof (rule tracksI, goal_cases)
  case (1 k c k')
  then show ?case
    by (auto simp: check_call_def invalid_def split: if_splits option.splits prod.splits)
next
  case (2 k c k')
  then show ?case by simp
next
  case (3 k c k')
  have ck: "\<forall>f\<in>set fs. checks env f" using a by (auto simp: list_all2_conv_all_nth in_set_conv_nth)
  have lost: "k_errors (snd (run_checks fs k1)) \<noteq> []" if "k_errors k1 \<noteq> []" for k1
    using run_checks_sound [OF ck prod.collapse [symmetric], of k1] grows_no_errors that by blast
  have time: "\<not> List.member time_functions name"
    using 3 lost by (auto simp: check_call_def)
  then obtain f where f: "function_named name = Some f"
    using 3 lost by (auto simp: check_call_def split: option.splits)
  obtain cs k1 where r: "run_checks fs k = (cs, k1)" by fastforce
  note W = function_named_well [OF f, unfolded function_well_def lowers_well_def, rule_format]
  note K = all_functions_keep [THEN bspec, OF function_named_in [OF f], unfolded function_keeps_def keeps_paths_def, rule_format]
  have count: "\<not> wrong_count f (length cs)"
    using 3 time f r by (auto simp: check_call_def)
  let ?x = "\<lparr>x_name = name, x_start = node_start ?nd, x_end = node_end ?nd, x_args = cs\<rparr>"
  obtain t ast k2 where l: "fn_lower f ?x k1 = ((t, ast), k2)" by (metis prod.collapse)
  then have k2: "k2 = k'" and c: "c_ast c = ast"
    using 3 time f r count by (auto simp: check_call_def)
  have rep: "reports k1 k'" using W [OF l] k2 by simp
  have k1: "k_errors k1 = []" using grows_no_errors [OF reports_grows [OF rep] 3(2)] .
  note R = run_checks_paths [OF a r]
  have "paths ast = arg_paths cs"
    using K [OF l] 3(2) k2 count R by (auto simp: wrong_count_def split: option.splits)
  moreover have "adds_paths k k' (arg_paths cs @ [])"
    using R k1 adds_paths_reports [OF rep] by (blast intro: adds_paths_trans)
  ultimately show ?case using c by simp
qed

lemma check_tracks: "tracks nd (check env nd)"
proof (induction nd)
  case (SParen inner a b)
  show ?case
    by (rule tracksI) (auto split: prod.splits dest: tracksD [OF SParen])
next
  case (SField name braced rel a b)
  show ?case using check_field_tracks by simp
next
  case (SUnary u operand a b)
  then show ?case by (simp add: check_unary_tracks)
next
  case (SBinary oper os left right a b)
  then show ?case by (simp add: check_binary_tracks [OF _ check_checks [of env left] _ check_checks [of env right]])
next
  case (SCall name e args a b)
  then have "list_all2 (\<lambda>nd f. tracks nd f \<and> checks env f) args (map (check env) args)"
    by (simp add: list_all2_conv_all_nth check_checks)
  from check_call_tracks [OF this] show ?case by simp
qed (rule tracksI; auto simp: adds_paths_def)+


section \<open>The two ways to find the dependencies agree\<close>

text \<open>The first dot of a path parts the relation from the field, so neither a relation nor an own field has one.\<close>

definition dotless :: "field \<Rightarrow> bool" where
  "dotless f = (CHR ''.'' \<notin> set (case f_scope f of Self \<Rightarrow> f_id f | Relation r \<Rightarrow> r))"

lemma ref_of_field_path:
  assumes "dotless f"
  shows "ref_of_path (field_path f) = \<lparr>ref_id = f_id f, ref_scope = f_scope f\<rparr>"
proof (cases "f_scope f")
  case Self
  then show ?thesis using assms by (simp add: ref_of_path_def field_path_def path_of_def dotless_def)
next
  case (Relation r)
  then have r: "\<forall>c\<in>set r. c \<noteq> CHR ''.''" using assms by (auto simp: dotless_def)
  have "takeWhile (\<lambda>c. c \<noteq> CHR ''.'') (r @ ''.'' @ f_id f) = r"
    "dropWhile (\<lambda>c. c \<noteq> CHR ''.'') (r @ ''.'' @ f_id f) = ''.'' @ f_id f"
    using r by (simp_all add: takeWhile_append2 dropWhile_append2)
  then show ?thesis using Relation by (simp add: ref_of_path_def field_path_def path_of_def)
qed

lemma visit_dependency_refs:
  assumes "\<forall>r\<in>set rs. dotless (rf_field r)"
  shows "snd (fold visit_path (read_paths rs) (seen, refs)) = refs @ dependency_refs seen rs"
  using assms
  by (induction rs arbitrary: seen refs)
     (simp_all add: read_paths_def visit_path_def ref_of_field_path)

text \<open>
  C11. The checker and the tree agree on what a formula reads: the dependencies the checker reports
  while it binds the names are the references found by walking the canonical tree, in the same order.
\<close>

theorem dependencies_of_an_accepted_formula:
  assumes "r_ast (check_formula syn env opts) = Some ast" "\<forall>f\<in>set env. dotless f"
  shows "dependencies ast = r_dependencies (check_formula syn env opts)"
proof -
  from accepted_parts [OF refl assms(1)] obtain c k where
    c: "check env syn \<lparr>k_errors = [], k_references = []\<rparr> = (c, k)" "k_errors k = []" "c_ast c = ast" and
    r: "r_dependencies (check_formula syn env opts) = dependency_refs [] (k_references k)" by blast
  have "paths ast = read_paths (k_references k)"
    using tracksD(3) [OF check_tracks c(1,2)] c(3) by (simp add: adds_paths_def read_paths_def)
  moreover have "fields_read k \<subseteq> set env"
    using checksD(2) [OF check_checks c(1)] by (simp add: fields_read_def)
  then have "\<forall>r\<in>set (k_references k). dotless (rf_field r)"
    using assms(2) by (auto simp: fields_read_def)
  ultimately show ?thesis
    using visit_dependency_refs [of "k_references k" "[]" "[]"]
    by (simp add: dependencies_def visit_expr_paths r)
qed

theorem dependencies_witness:
  "dependencies example_ast = [\<lparr>ref_id = ''f2'', ref_scope = Self\<rparr>]"
  using dependencies_of_an_accepted_formula [of example_syntax example_env example_options example_ast]
  by (simp add: example_accepted) (simp add: example_env_def dotless_def)

end
