(* ===== verification/Formula_Circular.thy ===== *)
theory Formula_Circular
  imports Formula_Reads
begin

text \<open>
  Circular references: a formula is refused as circular exactly when the field it defines reads
  itself.  What a field reads is told here from the formula's syntax tree and from the dependencies
  stored with the other fields, apart from the graph the checker builds.
\<close>

section \<open>Only the cycle check reports a cycle\<close>

definition cycle_errors :: "checker \<Rightarrow> diagnostic list" where
  "cycle_errors k = filter (\<lambda>d. d_code d = Cycle) (k_errors k)"

lemma cycle_errors_report [simp]:
  "c \<noteq> Cycle \<Longrightarrow> cycle_errors (report c m a b ps k) = cycle_errors k"
  "c \<noteq> Cycle \<Longrightarrow> cycle_errors (report_at c m nd ps k) = cycle_errors k"
  "cycle_errors (k_references_update f k) = cycle_errors k"
  by (simp_all add: cycle_errors_def report_at_def report_def)

lemma cycle_errors_expect [simp]: "cycle_errors (expect x i ts k) = cycle_errors k"
  by (simp add: expect_def split: option.split value_type.split)

lemma cycle_errors_expect_from [simp]: "cycle_errors (expect_from x i tss k) = cycle_errors k"
  by (induction x i tss k rule: expect_from.induct) simp_all

lemma cycle_errors_unify_from: "cycle_errors (snd (unify_from name i ex bad bs k)) = cycle_errors k"
  by (induction name i ex bad bs k rule: unify_from.induct)
     (simp_all split: value_type.split option.split prod.split)

lemma cycle_errors_unify: "unify name bs k = (t, k') \<Longrightarrow> cycle_errors k' = cycle_errors k"
  using cycle_errors_unify_from [of name 0 None False bs k] by (simp add: unify_def)

lemma cycle_errors_unit_at: "unit_at x i fb k = (u, k') \<Longrightarrow> cycle_errors k' = cycle_errors k"
  by (auto simp: unit_at_def split: if_splits option.splits)

lemma cycle_errors_patterns [simp]: "cycle_errors (check_patterns s i ps k) = cycle_errors k"
  by (induction s i ps k rule: check_patterns.induct) simp_all

definition lowers_quietly :: "(call_context \<Rightarrow> checker \<Rightarrow> (value_type \<times> expr) \<times> checker) \<Rightarrow> bool" where
  "lowers_quietly lower = (\<forall>x k. cycle_errors (snd (lower x k)) = cycle_errors k)"

lemma rules_quiet [simp]:
  "lowers_quietly lower_concatenate" "lowers_quietly (lower_group m)" "lowers_quietly lower_if"
  "lowers_quietly lower_switch" "lowers_quietly lower_date_add" "lowers_quietly lower_date_diff"
  "lowers_quietly lower_date_format" "lowers_quietly (\<lambda>x k. (r x, k))"
  by (auto simp: lowers_quietly_def lower_concatenate_def lower_group_def lower_if_def lower_switch_def
      lower_date_add_def lower_date_diff_def lower_date_format_def Let_def
      split: prod.split dest!: cycle_errors_unify cycle_errors_unit_at)

lemma functions_quiet [simp]:
  "lowers_quietly (fn_lower (make_function nm ct sg desc least most rt lower)) = lowers_quietly lower"
  "lowers_quietly (fn_lower (simple nm ct sg desc oper types ret least))"
  "lowers_quietly (fn_lower (variadic nm ct sg desc oper types' ret))"
  "lowers_quietly (fn_lower (date_part nm dop desc))"
  by (simp_all add: make_function_def simple_def variadic_def date_part_def lowers_quietly_def)

lemma all_functions_quiet: "\<forall>f\<in>set formula_functions. lowers_quietly (fn_lower f)"
  by (simp add: formula_functions_def text_functions_def logical_functions_def numeric_functions_def
      date_functions_def record_functions_def)

section \<open>The fields a syntax tree names\<close>

text \<open>The field a name stands for, when it stands for one that a formula may read.\<close>

definition field_named :: "environment \<Rightarrow> string \<Rightarrow> bool \<Rightarrow> (string \<times> nat \<times> nat) option \<Rightarrow> field list" where
  "field_named env name braced rel =
     (case resolve (filter (in_relation rel) env) name braced of
        [f] \<Rightarrow> (if \<not> f_classified f \<and> out_of_reach f = None \<and> formula_type_of (f_type f) \<noteq> None then [f] else [])
      | _ \<Rightarrow> [])"

primrec fields_named :: "environment \<Rightarrow> node \<Rightarrow> field list" where
  "fields_named env (SNumber v a b) = []"
| "fields_named env (SString s a b) = []"
| "fields_named env (SBoolean v a b) = []"
| "fields_named env (SParen inner a b) = fields_named env inner"
| "fields_named env (SField name braced rel a b) = field_named env name braced rel"
| "fields_named env (SUnary u operand a b) = fields_named env operand"
| "fields_named env (SBinary oper os left right a b) = fields_named env left @ fields_named env right"
| "fields_named env (SCall name e args a b) = concat (map (fields_named env) args)"

text \<open>A check that records the fields \<open>fs\<close> and reports no cycle.\<close>

definition records :: "field list \<Rightarrow> (checker \<Rightarrow> checked \<times> checker) \<Rightarrow> bool" where
  "records fs f =
     (\<forall>k. map rf_field (k_references (snd (f k))) = map rf_field (k_references k) @ fs \<and>
          cycle_errors (snd (f k)) = cycle_errors k)"

lemma recordsI:
  "(\<And>k. map rf_field (k_references (snd (f k))) = map rf_field (k_references k) @ fs) \<Longrightarrow>
   (\<And>k. cycle_errors (snd (f k)) = cycle_errors k) \<Longrightarrow> records fs f"
  by (simp add: records_def)

lemma recordsD:
  "records fs f \<Longrightarrow> f k = (c, k') \<Longrightarrow>
   map rf_field (k_references k') = map rf_field (k_references k) @ fs \<and> cycle_errors k' = cycle_errors k"
  by (metis records_def snd_conv)


lemma records_run_checks:
  "list_all2 (\<lambda>fs f. records fs f) fss fs \<Longrightarrow> records (concat fss) (\<lambda>k. (x, snd (run_checks fs k)))"
proof (induction fss fs rule: list_all2_induct)
  case Nil
  then show ?case by (simp add: records_def)
next
  case (Cons g fss f fs)
  show ?case
  proof (rule recordsI, goal_cases)
    case (1 k)
    obtain c k1 where c: "f k = (c, k1)" by fastforce
    obtain cs k2 where cs: "run_checks fs k1 = (cs, k2)" by fastforce
    show ?case using recordsD [OF Cons(1) c] recordsD [OF Cons(3), of k1] by (simp add: c cs)
  next
    case (2 k)
    obtain c k1 where c: "f k = (c, k1)" by fastforce
    obtain cs k2 where cs: "run_checks fs k1 = (cs, k2)" by fastforce
    show ?case using recordsD [OF Cons(1) c] recordsD [OF Cons(3), of k1] by (simp add: c cs)
  qed
qed

lemma run_checks_records:
  assumes "list_all2 records fss fs" "run_checks fs k = (cs, k')"
  shows "map rf_field (k_references k') = map rf_field (k_references k) @ concat fss \<and> cycle_errors k' = cycle_errors k"
  using recordsD [OF records_run_checks [OF assms(1)], of undefined k "undefined" k'] assms(2) by simp

lemma records_report:
  assumes "c \<noteq> Cycle"
  shows "map rf_field (k_references (report c m a b ps k)) = map rf_field (k_references k)"
    "cycle_errors (report c m a b ps k) = cycle_errors k"
  using assms by simp_all

lemma bind_field_records:
  "records (if \<not> f_classified f \<and> out_of_reach f = None \<and> formula_type_of (f_type f) \<noteq> None then [f] else [])
     (bind_field f nd)"
  by (auto simp: records_def bind_field_def Let_def field_read_def split: option.splits)

lemma check_field_records: "records (field_named env name braced rel) (check_field env name braced rel nd)"
proof -
  let ?fs = "resolve (filter (in_relation rel) env) name braced"
  have bound: "records (field_named env name braced rel) (bind_match d ?fs nd)" for d
  proof -
    consider "?fs = []" | f where "?fs = [f]" | f g gs where "?fs = f # g # gs" by (cases ?fs; cases "tl ?fs") auto
    then show ?thesis
    proof cases
      case (2 f)
      then have "bind_match d ?fs nd = bind_field f nd" by (simp add: bind_match_def fun_eq_iff)
      moreover have "field_named env name braced rel =
          (if \<not> f_classified f \<and> out_of_reach f = None \<and> formula_type_of (f_type f) \<noteq> None then [f] else [])"
        by (simp add: field_named_def 2)
      ultimately show ?thesis using bind_field_records [of f nd] by simp
    qed (simp_all add: records_def bind_match_def field_named_def)
  qed
  have none: "filter (in_relation rel) env = [] \<Longrightarrow> field_named env name braced rel = []"
    by (simp add: field_named_def resolve_def)
  show ?thesis
    using bound [of "display_name rel name"] none
    by (cases rel) (auto simp: records_def check_field_def Let_def)
qed

lemma expect_operand_records:
  "expect_operand c ts oper side hint k = (ok, k') \<Longrightarrow> k_references k' = k_references k \<and> cycle_errors k' = cycle_errors k"
  by (auto simp: expect_operand_def split: value_type.splits if_splits)

lemma expect_operand_quiet [simp]:
  "k_references (snd (expect_operand c ts oper side hint k)) = k_references k"
  "cycle_errors (snd (expect_operand c ts oper side hint k)) = cycle_errors k"
  using expect_operand_records [OF prod.collapse [symmetric]] by auto

lemma expect_quiet [simp]:
  "k_references (expect_concatenable c side k) = k_references k"
  "cycle_errors (expect_concatenable c side k) = cycle_errors k"
  "k_references (snd (expect_orderable b side c r)) = k_references (snd r)"
  "cycle_errors (snd (expect_orderable b side c r)) = cycle_errors (snd r)"
  by (auto simp: expect_concatenable_def expect_orderable_def split: prod.split)

lemma check_unary_records: "records fs f \<Longrightarrow> records fs (\<lambda>k. check_unary u operand nd (f k))"
proof -
  assume f: "records fs f"
  have "snd (check_unary u operand nd (f k)) =
      snd (expect_operand (fst (f k)) [TNumber] (''unary '' @ quoted (unary_symbol u)) ''operand'' [] (snd (f k)))" for k
    by (auto simp: check_unary_def Let_def split: prod.split node.split)
  then show ?thesis using f by (simp add: records_def)
qed

lemma check_comparison_quiet:
  "k_references (snd (check_comparison b nd l r k)) = k_references k \<and>
   cycle_errors (snd (check_comparison b nd l r k)) = cycle_errors k"
proof -
  define q where "q = (if b \<noteq> BEq \<and> b \<noteq> BNe
      then expect_orderable b ''right side'' r (expect_orderable b ''left side'' l (True, k)) else (True, k))"
  have "k_references (snd q) = k_references k" "cycle_errors (snd q) = cycle_errors k" by (simp_all add: q_def)
  then show ?thesis
    unfolding check_comparison_def Let_def q_def [symmetric] by (auto split: prod.split)
qed

lemma check_operator_records:
  "k_references (snd (check_operator b nd l r k)) = k_references k \<and>
   cycle_errors (snd (check_operator b nd l r k)) = cycle_errors k"
proof (cases "b = BConcat")
  case False
  then show ?thesis
    using check_comparison_quiet [of b nd l r k]
    by (auto simp: check_operator_def Let_def dest!: expect_operand_records split: option.split prod.splits)
qed (simp add: check_operator_def)

lemma blank_call_names_nothing: "is_blank_call nd \<Longrightarrow> fields_named env nd = []"
  by (induction nd) (auto simp: is_blank_call_def)

lemma check_binary_records:
  assumes "records ls f" "records rs g" "is_blank_call left \<Longrightarrow> ls = []" "is_blank_call right \<Longrightarrow> rs = []"
  shows "records (ls @ rs) (check_binary b left right nd f g)"
proof -
  have "map rf_field (k_references (snd (check_binary b left right nd f g k))) = map rf_field (k_references k) @ ls @ rs \<and>
    cycle_errors (snd (check_binary b left right nd f g k)) = cycle_errors k" for k
  proof -
    obtain l k1 where l: "f k = (l, k1)" by fastforce
    obtain r k2 where r: "g k1 = (r, k2)" by fastforce
    obtain q k3 where q: "g k = (q, k3)" by fastforce
    show ?thesis
      using recordsD [OF assms(1) l] recordsD [OF assms(2) r] recordsD [OF assms(2) q] assms(3,4)
        check_operator_records [of b nd l r k2]
      by (auto simp: check_binary_def l r q)
  qed
  then show ?thesis by (simp add: records_def)
qed

lemma check_call_records:
  assumes "list_all2 records fss fs"
  shows "records (concat fss) (check_call name e nd fs)"
proof -
  note R = run_checks_records [OF assms prod.collapse [symmetric]]
  have "map rf_field (k_references (snd (check_call name e nd fs k))) = map rf_field (k_references k) @ concat fss \<and>
    cycle_errors (snd (check_call name e nd fs k)) = cycle_errors k" for k
  proof -
    obtain cs k1 where r: "run_checks fs k = (cs, k1)" by fastforce
    have low: "k_references (snd (fn_lower f x k1)) = k_references k1 \<and> cycle_errors (snd (fn_lower f x k1)) = cycle_errors k1"
      if "function_named name = Some f" for f x
    proof
      have "reports k1 (snd (fn_lower f x k1))"
        using function_named_well [OF that, unfolded function_well_def lowers_well_def, rule_format, of x k1]
        by (metis prod.collapse)
      then show "k_references (snd (fn_lower f x k1)) = k_references k1" by (simp add: reports_def)
      show "cycle_errors (snd (fn_lower f x k1)) = cycle_errors k1"
        using all_functions_quiet [THEN bspec, OF function_named_in [OF that]] by (simp add: lowers_quietly_def)
    qed
    show ?thesis
      using R [of k] low r
      by (auto simp: check_call_def R split: option.split prod.split dest!: arg_cong [where f = snd])
  qed
  then show ?thesis by (simp add: records_def)
qed

lemma check_records: "records (fields_named env nd) (check env nd)"
proof (induction nd)
  case (SParen inner a b)
  show ?case
  proof (rule recordsI, goal_cases)
    case (1 k)
    obtain c k1 where c: "check env inner k = (c, k1)" by fastforce
    show ?case using recordsD [OF SParen c] by (simp add: c)
  next
    case (2 k)
    obtain c k1 where c: "check env inner k = (c, k1)" by fastforce
    show ?case using recordsD [OF SParen c] by (simp add: c)
  qed
next
  case (SField name braced rel a b)
  then show ?case using check_field_records [of env name braced rel "SField name braced rel a b"] by simp
next
  case (SUnary u operand a b)
  then show ?case using check_unary_records [of "fields_named env operand" "check env operand"] by simp
next
  case (SBinary oper os left right a b)
  then show ?case
    using check_binary_records [of "fields_named env left" "check env left" "fields_named env right" "check env right"]
    by (simp add: blank_call_names_nothing)
next
  case (SCall name e args a b)
  then have "list_all2 records (map (fields_named env) args) (map (check env) args)"
    by (simp add: list_all2_conv_all_nth)
  from check_call_records [OF this] show ?case by simp
qed (simp_all add: records_def)


section \<open>The reads between the fields of the record\<close>

text \<open>
  What the field \<open>x\<close> reads of the same record: the field that is defined reads the own fields its formula
  names, every other field the ones its stored dependencies name.
\<close>

definition field_reads :: "environment \<Rightarrow> string \<Rightarrow> field list \<Rightarrow> string \<Rightarrow> string \<Rightarrow> bool" where
  "field_reads env i named x y =
     (if x = i then \<exists>f\<in>set named. f_scope f = Self \<and> f_id f = y
      else \<exists>f\<in>set env. f_scope f = Self \<and> f_id f = x \<and>
             (\<exists>ds. f_dependencies f = Some ds \<and> \<lparr>ref_id = y, ref_scope = Self\<rparr> \<in> set ds))"

definition own_ids_distinct :: "environment \<Rightarrow> bool" where
  "own_ids_distinct env = distinct (map f_id (filter (\<lambda>f. f_scope f = Self) env))"

lemma self_node_eq [simp]: "self_node x = self_node y \<longleftrightarrow> x = y"
  by (simp add: self_node_def)

lemma self_dependencies_iff:
  "b \<in> set (self_dependencies f) \<longleftrightarrow>
   (\<exists>y ds. b = self_node y \<and> f_dependencies f = Some ds \<and> \<lparr>ref_id = y, ref_scope = Self\<rparr> \<in> set ds)"
proof -
  have eta: "r = \<lparr>ref_id = ref_id r, ref_scope = Self\<rparr> \<longleftrightarrow> ref_scope r = Self" for r by (cases r) simp
  show ?thesis
    by (cases "f_dependencies f") (auto simp: self_dependencies_def eta [symmetric] image_iff intro!: bexI)
qed

lemma defined_reads:
  assumes "own_ids_distinct env"
  shows "map_of (rev (map (\<lambda>f. (self_node (f_id f), self_dependencies f))
            (filter (\<lambda>f. f_scope f = Self \<and> f_id f \<noteq> i \<and> has_dependencies f) env))) a = Some ds \<longleftrightarrow>
    (\<exists>f\<in>set env. f_scope f = Self \<and> f_id f \<noteq> i \<and> has_dependencies f \<and> a = self_node (f_id f) \<and> ds = self_dependencies f)"
    (is "map_of (rev ?A) a = _ \<longleftrightarrow> _")
proof -
  let ?P = "\<lambda>f. f_scope f = Self \<and> f_id f \<noteq> i \<and> has_dependencies f"
  have "filter ?P env = filter (\<lambda>f. f_id f \<noteq> i \<and> has_dependencies f) (filter (\<lambda>f. f_scope f = Self) env)"
    by (simp add: conj_commute conj_left_commute)
  then have "distinct (map f_id (filter ?P env))"
    using assms distinct_map_filter unfolding own_ids_distinct_def by metis
  then have "inj_on f_id (set (filter ?P env))" "distinct (filter ?P env)" by (simp_all add: distinct_map)
  then have "distinct (map (\<lambda>f. self_node (f_id f)) (filter ?P env))"
    by (simp add: distinct_map inj_on_def)
  then have "distinct (map fst (rev ?A))" by (simp add: rev_map [symmetric] comp_def)
  then show ?thesis by (auto simp: map_of_eq_Some_iff image_iff)
qed

lemma graph_reads:
  assumes "own_ids_distinct env" "map rf_field (k_references k) = named"
  shows "reads (build_graph (cycle_definitions env i k)) (self_node x) b \<longleftrightarrow>
    (\<exists>y. b = self_node y \<and> field_reads env i named x y)"
proof (cases "x = i")
  case True
  have "set named = rf_field ` set (k_references k)" using assms(2) by auto
  then show ?thesis
    using True by (auto simp: reads_build_graph cycle_definitions_def field_reads_def self_reads_def)
next
  case False
  have "reads (build_graph (cycle_definitions env i k)) (self_node x) b \<longleftrightarrow>
      (\<exists>f\<in>set env. f_scope f = Self \<and> f_id f = x \<and> has_dependencies f \<and> b \<in> set (self_dependencies f))"
    using False by (auto simp: reads_build_graph cycle_definitions_def defined_reads [OF assms(1)])
  also have "\<dots> \<longleftrightarrow> (\<exists>y. b = self_node y \<and> field_reads env i named x y)"
    using False by (fastforce simp: field_reads_def self_dependencies_iff has_dependencies_def)
  finally show ?thesis .
qed

lemma graph_chains:
  assumes "own_ids_distinct env" "map rf_field (k_references k) = named"
  shows "(reads (build_graph (cycle_definitions env i k)))\<^sup>+\<^sup>+ (self_node x) (self_node y) \<longleftrightarrow>
    (field_reads env i named)\<^sup>+\<^sup>+ x y"
proof
  note G = graph_reads [OF assms, of i]
  have "(reads (build_graph (cycle_definitions env i k)))\<^sup>+\<^sup>+ a b \<Longrightarrow>
      a = self_node x \<Longrightarrow> \<exists>y. b = self_node y \<and> (field_reads env i named)\<^sup>+\<^sup>+ x y" for a b
    by (induction rule: tranclp.induct) (auto simp: G intro: tranclp.trancl_into_trancl)
  then show "(reads (build_graph (cycle_definitions env i k)))\<^sup>+\<^sup>+ (self_node x) (self_node y) \<Longrightarrow>
      (field_reads env i named)\<^sup>+\<^sup>+ x y" by fastforce
  show "(field_reads env i named)\<^sup>+\<^sup>+ x y \<Longrightarrow>
      (reads (build_graph (cycle_definitions env i k)))\<^sup>+\<^sup>+ (self_node x) (self_node y)"
    by (induction rule: tranclp.induct) (auto simp: G intro: tranclp.r_into_trancl tranclp.trancl_into_trancl)
qed

section \<open>The check for a circular reference\<close>

lemma cycle_errors_report_first:
  "cycle_errors (report_first_cycle env g i rs k) = cycle_errors k \<longleftrightarrow>
   k_errors (report_first_cycle env g i rs k) = k_errors k"
  by (induction env g i rs k rule: report_first_cycle.induct)
     (auto simp: Let_def report_def cycle_errors_def split: option.split)

lemma cycle_errors_depth [simp]: "cycle_errors (snd (check_depth env opts k)) = cycle_errors k"
  by (simp add: check_depth_def Let_def split: prod.split option.split)

lemma cycle_in_result:
  assumes "check env syn \<lparr>k_errors = [], k_references = []\<rparr> = (c, k1)"
  shows "(\<exists>d\<in>set (r_errors (check_formula syn env opts)). d_code d = Cycle) \<longleftrightarrow>
    (\<exists>i. o_field_id opts = Some i \<and> k_errors (report_cycle env i k1) \<noteq> k_errors k1)"
proof -
  have k1: "cycle_errors k1 = []"
    using recordsD [OF check_records assms] by (simp add: cycle_errors_def)
  define k2 where "k2 = (case o_field_id opts of None \<Rightarrow> k1 | Some i \<Rightarrow> report_cycle env i k1)"
  obtain d k3 where d: "check_depth env opts k2 = (d, k3)" by fastforce
  define k4 where "k4 = (if k_errors k3 = [] \<and> c_type c = Blank
     then report_at UndeterminedType ''This formula is always blank, so it has no type'' syn [] k3 else k3)"
  have k4: "cycle_errors k4 = cycle_errors k2"
    using cycle_errors_depth [of env opts k2] d by (simp add: k4_def)
  have "(\<exists>d\<in>set (r_errors (check_formula syn env opts)). d_code d = Cycle) \<longleftrightarrow> cycle_errors k4 \<noteq> []"
    unfolding check_formula_def assms prod.case Let_def k2_def [symmetric] d k4_def [symmetric]
    by (auto simp: cycle_errors_def sort_diagnostics_def filter_empty_conv split: value_type.split)
  also have "\<dots> \<longleftrightarrow> (\<exists>i. o_field_id opts = Some i \<and> k_errors (report_cycle env i k1) \<noteq> k_errors k1)"
    using k1 cycle_errors_report_first [of env _ _ "self_reads k1" k1]
    by (auto simp: k4 k2_def report_cycle_def split: option.split)
  finally show ?thesis .
qed

text \<open>
  C9. A formula is refused as circular exactly when the id of the field it defines is given and that field
  reads itself: the fields of its record that the formula names, the fields these read by their stored
  dependencies, and so on, lead back to it.  No other check gives that reason.
\<close>

theorem circular_reference_refused:
  assumes "own_ids_distinct env"
  shows "(r_ast (check_formula syn env opts) = None \<and>
      (\<exists>d\<in>set (r_errors (check_formula syn env opts)). d_code d = Cycle)) \<longleftrightarrow>
    (\<exists>i. o_field_id opts = Some i \<and> (field_reads env i (fields_named env syn))\<^sup>+\<^sup>+ i i)"
proof -
  obtain c k1 where c: "check env syn \<lparr>k_errors = [], k_references = []\<rparr> = (c, k1)" by fastforce
  have named: "map rf_field (k_references k1) = fields_named env syn"
    using recordsD [OF check_records c] by simp
  have "r_ast (check_formula syn env opts) = None" if "d \<in> set (r_errors (check_formula syn env opts))" for d
    using that refusals_give_reasons_in_order [of syn env opts] by auto
  moreover have "(\<exists>d\<in>set (r_errors (check_formula syn env opts)). d_code d = Cycle) \<longleftrightarrow>
      (\<exists>i. o_field_id opts = Some i \<and> (field_reads env i (fields_named env syn))\<^sup>+\<^sup>+ i i)"
    by (simp add: cycle_in_result [OF c] report_cycle_iff graph_chains [OF assms named])
  ultimately show ?thesis by blast
qed

text \<open>\<open>Net amount\<close> is computed from \<open>Total\<close>, and \<open>Total\<close> is to be twice \<open>Net amount\<close>: a cycle through both.\<close>

definition looping_env :: environment where
  "looping_env =
     [\<lparr>f_id = ''f1'', f_label = ''Net amount'', f_key = ''net'', f_type = ''number'', f_classified = False,
       f_out_of_scope = None, f_kind = Some FormulaField, f_scope = Self, f_depth = None,
       f_dependencies = Some [\<lparr>ref_id = ''f2'', ref_scope = Self\<rparr>]\<rparr>,
      \<lparr>f_id = ''f2'', f_label = ''Total'', f_key = ''total'', f_type = ''number'', f_classified = False,
       f_out_of_scope = None, f_kind = Some Stored, f_scope = Self, f_depth = None, f_dependencies = None\<rparr>]"

definition looping_syntax :: node where
  "looping_syntax = SBinary BMul 8 (SField ''net'' False None 0 3) (SNumber (JFin 2) 6 7) 0 7"

theorem circular_witness:
  "(\<exists>d\<in>set (r_errors (check_formula looping_syntax looping_env \<lparr>o_field_id = Some ''f2'', o_formula_depth = None\<rparr>)).
      d_code d = Cycle) \<and>
   \<not> (r_ast (check_formula looping_syntax looping_env \<lparr>o_field_id = Some ''f3'', o_formula_depth = None\<rparr>) = None \<and>
      (\<exists>d\<in>set (r_errors (check_formula looping_syntax looping_env \<lparr>o_field_id = Some ''f3'', o_formula_depth = None\<rparr>)).
        d_code d = Cycle))"
proof
  have named: "map f_id (fields_named looping_env looping_syntax) = [''f1'']"
    "map f_scope (fields_named looping_env looping_syntax) = [Self]" by code_simp+
  have distinct: "own_ids_distinct looping_env" by code_simp
  let ?R = "\<lambda>i. field_reads looping_env i (fields_named looping_env looping_syntax)"
  from named obtain f where f: "fields_named looping_env looping_syntax = [f]" "f_id f = ''f1''" "f_scope f = Self" by auto
  have "?R ''f2'' ''f2'' ''f1''" using f by (simp add: field_reads_def)
  moreover have "?R ''f2'' ''f1'' ''f2''" by (simp add: field_reads_def looping_env_def)
  ultimately have "(?R ''f2'')\<^sup>+\<^sup>+ ''f2'' ''f2''" by (rule tranclp.trancl_into_trancl [OF tranclp.r_into_trancl])
  then show "\<exists>d\<in>set (r_errors (check_formula looping_syntax looping_env \<lparr>o_field_id = Some ''f2'', o_formula_depth = None\<rparr>)).
      d_code d = Cycle"
    using circular_reference_refused [OF distinct, of looping_syntax "\<lparr>o_field_id = Some ''f2'', o_formula_depth = None\<rparr>"]
    by simp
  have none: "?R ''f3'' x y \<Longrightarrow> y \<noteq> ''f3''" for x y using f by (auto simp: field_reads_def looping_env_def split: if_splits)
  have "(?R ''f3'')\<^sup>+\<^sup>+ x y \<Longrightarrow> y \<noteq> ''f3''" for x y
    by (erule tranclp.cases) (simp_all add: none)
  then have "\<not> (?R ''f3'')\<^sup>+\<^sup>+ ''f3'' ''f3''" by blast
  then show "\<not> (r_ast (check_formula looping_syntax looping_env \<lparr>o_field_id = Some ''f3'', o_formula_depth = None\<rparr>) = None \<and>
      (\<exists>d\<in>set (r_errors (check_formula looping_syntax looping_env \<lparr>o_field_id = Some ''f3'', o_formula_depth = None\<rparr>)).
        d_code d = Cycle))"
    using circular_reference_refused [OF distinct] by simp
qed

end
