(* ===== verification/Formula_Results.thy ===== *)
theory Formula_Results
  imports Formula_Evaluate
begin

text \<open>
  What comes out of an evaluation: bounds on every value and on the result, the decimal rounding of
  numbers, the texts of dates, \<open>ISERROR\<close>, and the length of a text counted before it is built.
\<close>

section \<open>Rounding is bounded\<close>

lemma pow2_add: "pow2 (a + b) = pow2 a * pow2 b"
proof -
  have *: "pow2 e = (2::rat) powi e" for e
    by (cases "0 \<le> e") (simp_all add: pow2_def power_int_def field_simps)
  show ?thesis by (simp add: * power_int_add)
qed

lemma pow2_mono: "a \<le> b \<Longrightarrow> pow2 a \<le> pow2 b"
proof -
  have *: "pow2 e = (2::rat) powi e" for e
    by (cases "0 \<le> e") (simp_all add: pow2_def power_int_def field_simps)
  show "a \<le> b \<Longrightarrow> pow2 a \<le> pow2 b" by (simp add: * power_int_increasing)
qed

lemma exponent_of_lower:
  assumes "q \<noteq> 0"
  shows "pow2 (exponent_of q) \<le> \<bar>q\<bar>"
proof -
  obtain a b where ab: "quotient_of \<bar>q\<bar> = (a, b)" by fastforce
  have b: "0 < b" using quotient_of_denom_pos [OF ab] .
  have q: "\<bar>q\<bar> = of_int a / of_int b" using quotient_of_div [OF ab] .
  have a: "0 < a" using assms b q by (metis abs_ge_zero divide_eq_0_iff less_le of_int_0_eq_iff of_int_0_le_iff of_int_pos zero_le_divide_iff abs_eq_0 not_less order_less_imp_le)
  define e where "e = bitlen a - bitlen b"
  have "pow2 (e - 1) \<le> \<bar>q\<bar>"
  proof -
    have ba: "0 < bitlen a" "0 < bitlen b" using a b bitlen_eq_zero_iff [of a] bitlen_eq_zero_iff [of b] bitlen_nonneg [of a] bitlen_nonneg [of b] by linarith+
    have "2 ^ nat (bitlen a - 1) \<le> a" using bitlen_bounds [OF a] by simp
    then have A: "pow2 (bitlen a - 1) \<le> of_int a"
      using ba by (simp add: pow2_nonneg_of_int flip: of_int_power)
    have "b < 2 ^ nat (bitlen b)" using bitlen_bounds [OF b] by simp
    then have B: "of_int b \<le> pow2 (bitlen b)"
      using ba by (simp add: pow2_nonneg_of_int less_imp_le flip: of_int_power)
    have "pow2 (e - 1) * of_int b \<le> pow2 (e - 1) * pow2 (bitlen b)"
      using B by (intro mult_left_mono) (simp_all add: less_imp_le)
    also have "\<dots> = pow2 (bitlen a - 1)" by (simp add: e_def flip: pow2_add)
    also note A
    finally show ?thesis using b by (simp add: q pos_le_divide_eq)
  qed
  then show ?thesis by (simp add: exponent_of_def ab e_def [symmetric] Let_def)
qed

lemma round_half_even_bound: "\<bar>of_int (round_half_even x)\<bar> \<le> \<bar>x\<bar> + 1"
  unfolding round_half_even_def Let_def by (auto split: if_splits) linarith+

lemma round_double_finite:
  assumes "\<bar>q\<bar> \<le> 10 ^ 300"
  shows "js_finite (round_double q)"
proof (cases "q = 0")
  case False
  define u where "u = max (exponent_of q - 52) (- 1074)"
  define m where "m = round_half_even (q / pow2 u)"
  have u: "pow2 u \<le> \<bar>q\<bar> + 1"
  proof (cases "exponent_of q - 52 \<le> - 1074")
    case True
    then have "pow2 u = pow2 (- 1074)" by (simp add: u_def)
    also have "\<dots> \<le> pow2 0" by (rule pow2_mono) simp
    finally show ?thesis by (simp add: pow2_def)
  next
    case False
    then have "pow2 u \<le> pow2 (exponent_of q)" by (intro pow2_mono) (simp add: u_def)
    with exponent_of_lower [OF \<open>q \<noteq> 0\<close>] show ?thesis by simp
  qed
  have "\<bar>of_int m * pow2 u\<bar> \<le> (\<bar>q / pow2 u\<bar> + 1) * pow2 u"
    using round_half_even_bound [of "q / pow2 u"] by (simp add: m_def abs_mult mult_right_mono less_imp_le)
  also have "\<dots> = \<bar>q\<bar> + pow2 u"
    using less_imp_neq [OF pow2_pos [of u]] by (simp add: distrib_right abs_divide abs_of_pos)
  also have "\<dots> \<le> 2 * \<bar>q\<bar> + 1" using u by simp
  also have "\<dots> < 2 * 10 ^ 301" using assms by simp
  also have "\<dots> \<le> pow2 1024" by (simp add: pow2_def)
  finally have "\<bar>of_int m * pow2 u\<bar> < pow2 1024" .
  then show ?thesis
    using False by (auto simp: round_double_def Let_def u_def [symmetric] m_def [symmetric] abs_less_iff)
qed (simp add: round_double_def)

lemma js_neg_finite [simp]: "js_finite (js_neg x) = js_finite x"
  by (cases x) auto

lemma js_to_fixed_finite: "js_finite x \<Longrightarrow> f \<le> 100 \<Longrightarrow> js_finite (js_to_fixed f x)"
proof (cases x)
  case (JFin r)
  assume f: "f \<le> 100"
  show ?thesis
  proof (cases "10 ^ 21 \<le> \<bar>r\<bar>")
    case False
    let ?n = "\<lfloor>\<bar>r\<bar> * 10 ^ f + 1 / 2\<rfloor>"
    have n0: "0 \<le> ?n" by simp
    have "of_int ?n \<le> \<bar>r\<bar> * 10 ^ f + 1 / 2" by linarith
    also have "\<dots> \<le> 10 ^ 21 * 10 ^ f + 1" using False by (intro add_mono mult_right_mono) simp_all
    also have "\<dots> \<le> (10 ^ 21 + 1) * 10 ^ f" by (simp add: distrib_right)
    finally have "of_int ?n / 10 ^ f \<le> (10 ^ 21 + 1 :: rat)" by (simp add: pos_divide_le_eq)
    then have "\<bar>of_int ?n / 10 ^ f :: rat\<bar> \<le> 10 ^ 300" using n0 by simp
    from round_double_finite [OF this] have fin: "js_finite (round_double (of_int ?n / 10 ^ f))" .
    have "js_to_fixed f x = (if r < 0 then js_neg (round_double (of_int ?n / 10 ^ f))
        else round_double (of_int ?n / 10 ^ f))"
      unfolding JFin js_to_fixed_def jsnum.case Let_def using False by (simp only: if_False)
    with fin show ?thesis by (metis js_neg_finite)
  qed (simp add: JFin js_to_fixed_def)
qed (auto simp: js_to_fixed_def)

lemma rounded_good: "js_finite x \<Longrightarrow> js_finite (rounded x) \<and> rounded x \<noteq> JNegZero"
  using js_to_fixed_finite [of x 10]
  by (auto simp: rounded_def positive_zero_def rounding_decimals_def js_is_zero_def)

section \<open>The texts of dates\<close>

lemma length_nat_digits: "n < 10 ^ k \<Longrightarrow> 0 < k \<Longrightarrow> length (nat_digits n) \<le> k"
proof (induction n arbitrary: k rule: nat_digits.induct)
  case (1 n)
  show ?case
  proof (cases "n < 10")
    case True
    then show ?thesis using 1 by (simp add: nat_digits.simps [of n])
  next
    case False
    then obtain j where j: "k = Suc j" "0 < j" using 1 by (cases k; cases "k - 1") auto
    have "n div 10 < 10 ^ j" using "1.prems" j by (simp add: less_mult_imp_div_less mult.commute)
    from "1.IH" [OF False this j(2)] False j show ?thesis by (simp add: nat_digits.simps [of n])
  qed
qed

lemma length_pad_int: "0 \<le> i \<Longrightarrow> i < 10 ^ k \<Longrightarrow> 0 < k \<Longrightarrow> length (pad_int k i) = k"
  using length_nat_digits [of "nat i" k] by (simp add: pad_int_def pad_start_def int_text_def nat_less_iff)

lemma year_in_range:
  assumes "in_range_instant t"
  shows "1 \<le> utc_full_year t" "utc_full_year t \<le> 9999"
proof -
  have d: "day_from_year 1 \<le> utc_day t" "utc_day t < day_from_year 10000"
    using assms div_bounds [of ms_per_day t]
    by (simp_all add: in_range_instant_def first_instant_def end_instant_def utc_day_def day_from_year_def ms_per_day_def)
  note y = year_from_day [of "utc_day t", folded utc_full_year_def]
  show "1 \<le> utc_full_year t"
  proof (rule ccontr)
    assume "\<not> 1 \<le> utc_full_year t"
    then have "day_from_year (utc_full_year t + 1) \<le> day_from_year 1" by (intro day_from_year_mono) simp
    with y d show False by simp
  qed
  show "utc_full_year t \<le> 9999"
  proof (rule ccontr)
    assume "\<not> utc_full_year t \<le> 9999"
    then have "day_from_year 10000 \<le> day_from_year (utc_full_year t)" by (intro day_from_year_mono) simp
    with y d show False by simp
  qed
qed

lemma iso_lengths:
  assumes "in_range_instant t"
  shows "length (iso_day_text t) = 10" "length (iso_string t) = 24"
proof -
  note y = year_in_range [OF assms] and f = fields_calendar [of t] and m = time_of_day [of t]
  have ml: "month_length (utc_full_year t) (utc_month t) \<le> 31" using f month_length_range by blast
  show d: "length (iso_day_text t) = 10"
    using y f ml by (simp add: iso_day_text_def iso_year_def length_pad_int)
  show "length (iso_string t) = 24"
    using m d by (simp add: iso_string_def length_pad_int)
qed

lemma iso_day_of_string: "in_range_instant t \<Longrightarrow> take 10 (iso_string t) = iso_day_text t"
  using iso_lengths [of t] by (simp add: iso_string_def)

section \<open>Results\<close>

text \<open>
  C10. Every value met during an evaluation is bounded: text of at most 10000 characters, a finite
  number, a valid date, never \<open>undefined\<close>.
\<close>

theorem values_stay_bounded:
  "case run h types e record of Value v \<Rightarrow> bounded_value v | _ \<Rightarrow> True"
  using run_bounded [of h types e "record"] by (auto split: outcome.split)

text \<open>The text of a day or an instant in the years 0001 to 9999.\<close>

definition day_text :: "string \<Rightarrow> bool" where
  "day_text s = (\<exists>t. in_range_instant t \<and> s = iso_day_text t \<and> length s = 10)"

definition instant_text :: "string \<Rightarrow> bool" where
  "instant_text s = (\<exists>t. in_range_instant t \<and> s = iso_string t \<and> length s = 24)"

fun fits_index :: "formula_type option \<Rightarrow> formula_value \<Rightarrow> bool" where
  "fits_index ty FNull = True"
| "fits_index ty (FBool b) = True"
| "fits_index ty (FNumber x) = (js_finite x \<and> x \<noteq> JNegZero)"
| "fits_index ty (FText s) =
     (if ty = Some TDate then day_text s
      else if ty = Some TTimestamp then instant_text s
      else length s \<le> 1000 \<and> (instant_text s \<or> utf8_length s \<le> 2000))"

lemma finish_fits:
  "bounded_value v \<Longrightarrow> case finish ty v of Inl e \<Rightarrow> True | Inr w \<Rightarrow> fits_index ty w"
  by (cases v; cases ty; (case_tac "the ty")?)
     (auto simp: finish_def finish_typed_def rounded_good day_text_def instant_text_def
        iso_day_of_string iso_lengths max_result_text_length_def max_result_text_bytes_def
        split: option.splits formula_type.splits)

text \<open>
  Every result fits the typed index: text of at most 1000 characters and 2000 bytes, a finite
  number that is not \<open>-0\<close>, a date as \<open>YYYY-MM-DD\<close> and a timestamp as ISO text in the years 0001 to
  9999, whatever the tree and the record.
\<close>

theorem results_fit_the_index:
  "case evaluate h e record opts of Inl x \<Rightarrow> True | Inr v \<Rightarrow> fits_index (e_result_type opts) v"
proof (cases "run h (field_types (case e_env opts of None \<Rightarrow> [] | Some env \<Rightarrow> env)) e record")
  case (Value v)
  with finish_fits [OF run_bounded [OF Value]] show ?thesis by (simp add: evaluate_def)
qed (simp_all add: evaluate_def)

section \<open>ISERROR\<close>

lemma bounded_no_error: "bounded_value v \<Longrightarrow> \<not> is_error_value v"
  by (cases v) auto

text \<open>
  \<open>ISERROR\<close> is itself never an error, and is true exactly when its argument has no value.
\<close>

theorem is_error_tells_failure:
  assumes "run h types e r \<noteq> Thrown"
  shows "run h types (EFormula FIsError [e]) r =
     Value (VBool (\<not> (\<exists>v. run h types e r = Value v)))"
  using assms bounded_no_error [OF run_bounded]
  by (cases "run h types e r") (auto simp: run_is_error_def)

theorem is_error_witness:
  "run bare_host [] (EFormula FIsError [EFormula FDiv [ELit (VNum (JFin 1)), ELit (VNum (JFin 0))]]) empty_payload =
     Value (VBool True)"
proof -
  have d: "run bare_host [] (EFormula FDiv [ELit (VNum (JFin 1)), ELit (VNum (JFin 0))]) empty_payload =
      Fault DivideByZero"
    by code_simp
  show ?thesis
    using is_error_tells_failure [of bare_host "[]" "EFormula FDiv [ELit (VNum (JFin 1)), ELit (VNum (JFin 0))]"
        empty_payload] unfolding d by simp
qed

section \<open>The length of a substitution\<close>

lemma split_text_aux_skip: "split_text_aux k p acc s = split_text_aux 0 p acc (drop k s)"
proof (induction k arbitrary: s)
  case (Suc k)
  then show ?case by (cases s) auto
qed simp

lemma split_text_aux_acc: "split_text_aux 0 p acc s =
   (case split_text_aux 0 p [] s of x # xs \<Rightarrow> (rev acc @ x) # xs)"
proof (induction s arbitrary: acc)
  case (Cons c s)
  show ?case
  proof (cases "prefix p (c # s)")
    case False
    obtain x xs where x: "split_text_aux 0 p [] s = x # xs" by (cases "split_text_aux 0 p [] s") auto
    show ?thesis using False Cons [of "c # acc"] Cons [of "[c]"] x by simp
  qed simp
qed simp

lemma split_text_none: "index_of s p = None \<Longrightarrow> split_text p s = [s]"
  unfolding split_text_def
proof (induction s)
  case (Cons c s)
  then have "split_text_aux 0 p [] s = [s]" "\<not> prefix p (c # s)" by (auto split: if_splits)
  then show ?case using split_text_aux_acc [of p "[c]" s] by simp
qed simp

lemma split_text_some:
  "p \<noteq> [] \<Longrightarrow> index_of s p = Some i \<Longrightarrow>
   split_text p s = take i s # split_text p (drop (i + length p) s)"
  unfolding split_text_def
proof (induction s arbitrary: i)
  case (Cons c s)
  show ?case
  proof (cases "prefix p (c # s)")
    case True
    then have "i = 0" using Cons by simp
    moreover have "drop (length p) (c # s) = drop (length p - 1) s"
      using Cons(2) by (cases p) auto
    ultimately show ?thesis using True by (simp add: split_text_aux_skip [of "length p - Suc 0"] del: drop_Suc_Cons)
  next
    case False
    then obtain j where j: "index_of s p = Some j" "i = Suc j" using Cons by auto
    show ?thesis using Cons.IH [OF Cons.prems(1) j(1)] False j split_text_aux_acc [of p "[c]" s] by simp
  qed
qed simp

lemma count_from_split:
  "p \<noteq> [] \<Longrightarrow> length (split_text p (drop i s)) = Suc (count_from s p i)"
proof (induction s p i rule: count_from.induct)
  case (1 s p i)
  show ?case
  proof (cases "index_of (drop i s) p")
    case None
    then show ?thesis by (simp add: split_text_none count_from.simps [of s p i] index_of_from_def)
  next
    case (Some j)
    then have f: "index_of_from s p i = Some (j + i)" by (simp add: index_of_from_def)
    have "prefix p (drop (j + i) s)" using index_of_Some [OF Some] by (simp add: add.commute)
    then have lt: "j + i < length s" using "1.prems" by (metis drop_eq_Nil not_le prefix_bot.extremum_uniqueI prefix_Nil)
    have "drop (j + length p) (drop i s) = drop (j + i + length p) s" by (simp add: ac_simps)
    then show ?thesis
      using split_text_some [OF "1.prems" Some] "1.IH" [OF f _ "1.prems"] "1.prems" lt f
      by (simp add: count_from.simps [of s p i] not_le)
  qed
qed

lemma length_join: "xs \<noteq> [] \<Longrightarrow> length (join r xs) + length r = sum_list (map length xs) + length xs * length r"
  by (induction r xs rule: join.induct) auto

lemma length_split:
  "p \<noteq> [] \<Longrightarrow> length s + length p = sum_list (map length (split_text p s)) + length (split_text p s) * length p"
proof (induction s rule: length_induct)
  case (1 s)
  show ?case
  proof (cases "index_of s p")
    case None
    then show ?thesis by (simp add: split_text_none)
  next
    case (Some i)
    let ?r = "drop (i + length p) s"
    have pre: "prefix p (drop i s)" using index_of_Some [OF Some] by simp
    then have le: "i + length p \<le> length s"
      using prefix_length_le [OF pre] index_of_Some [OF Some] unfolding length_drop by linarith
    then have "length ?r < length s" using "1.prems" by (cases p) auto
    with 1 have "length ?r + length p = sum_list (map length (split_text p ?r)) + length (split_text p ?r) * length p"
      by blast
    then show ?thesis using split_text_some [OF "1.prems" Some] le by simp
  qed
qed

lemma length_replace_all:
  assumes "p \<noteq> []" "length p \<le> length r"
  shows "length (join r (split_text p s)) = length s + count_from s p 0 * (length r - length p)"
proof -
  let ?n = "count_from s p 0" and ?S = "sum_list (map length (split_text p s))"
  have n: "length (split_text p s) = Suc ?n" using count_from_split [OF assms(1), of 0 s] by simp
  have ne: "split_text p s \<noteq> []" using n by auto
  have j: "length (join r (split_text p s)) = ?S + ?n * length r" using length_join [OF ne, of r] n by simp
  have s: "length s = ?S + ?n * length p" using length_split [OF assms(1), of s] n by simp
  show ?thesis using j s assms(2) by (simp add: diff_mult_distrib2)
qed

lemma nth_occurrence_Some:
  "nth_occurrence k s p i = Some j \<Longrightarrow> p \<noteq> [] \<Longrightarrow> j + length p \<le> length s \<and> index_of_from s p i \<noteq> None"
proof (induction k s p i rule: nth_occurrence.induct)
  case (2 n s p i)
  then obtain l where l: "index_of_from s p i = Some l" by (auto split: option.splits)
  then obtain m where m: "index_of (drop i s) p = Some m" "l = m + i" by (auto simp: index_of_from_def)
  have "prefix p (drop l s)" "m \<le> length (drop i s)" using index_of_Some [OF m(1)] m(2) by (auto simp: add.commute)
  then have "l + length p \<le> length s"
    using prefix_length_le [of p "drop l s"] "2.prems"(2) by (cases p) auto
  with 2 l m show ?case by (cases "n = 0") (auto simp: index_of_from_def split: if_splits)
qed simp

lemma text_of_to_text: "text_of h v = to_text h v"
  by (simp add: text_of_def to_text_def split: jsval.split option.split)

lemma substitute_length_bound:
  assumes "p \<noteq> []" "length p < length r"
  shows "length (substitute s p r occ) \<le> length s + occurrences s p occ * (length r - length p) \<and>
     (is_nullish occ \<longrightarrow> length (substitute s p r occ) = length s + occurrences s p occ * (length r - length p))"
proof (cases "is_nullish occ")
  case True
  then show ?thesis using assms length_replace_all [of p r s] by (simp add: substitute_def occurrences_def)
next
  case False
  let ?k = "if js_finite (js_trunc (to_number occ)) then nat \<lfloor>js_val (js_trunc (to_number occ))\<rfloor> else Suc (length s)"
  show ?thesis
  proof (cases "js_le (JFin 1) (js_trunc (to_number occ))")
    case le: True
    show ?thesis
    proof (cases "nth_occurrence ?k s p 0")
      case None
      then show ?thesis using assms False le by (simp add: substitute_def Let_def del: nth_occurrence.simps)
    next
      case (Some i)
      have eq: "substitute s p r occ = take i s @ r @ drop (i + length p) s"
        using assms False le Some by (simp add: substitute_def Let_def)
      have "i + length p \<le> length s" "index_of_from s p 0 \<noteq> None" using nth_occurrence_Some [OF Some assms(1)] by auto
      moreover from this have "occurrences s p occ = 1"
        using False by (auto simp: occurrences_def count_from.simps [of s p 0])
      ultimately show ?thesis using False assms by (simp add: eq)
    qed
  next
    case nle: False
    then show ?thesis using False assms by (simp add: substitute_def Let_def)
  qed
qed

text \<open>
  The length \<open>run\<close> counts before it builds a text is the length of the text the canonical
  evaluator then builds: exactly for joining and for replacing every occurrence, an upper bound for
  replacing one.  (Dates are excepted: a checked formula joins none.)
\<close>

theorem counted_text_is_the_built_text:
  assumes "built_length h oper vs = Some n" "n \<noteq> 0" "\<forall>v\<in>set vs. \<forall>t. v \<noteq> VDate t"
  shows "\<exists>s. eval h (EFormula oper (map ELit vs)) empty_payload = VStr s \<and> length s \<le> n \<and>
     (oper = FConcat \<or> is_nullish (nth_val vs 3) \<longrightarrow> length s = n)"
proof (cases "oper = FConcat")
  case True
  have "length (concat (map (\<lambda>v. if is_nullish v then [] else js_string h v) vs)) = sum_list (map (\<lambda>v. length (text_of h v)) vs)"
    using assms(3)
  proof (induction vs)
    case (Cons v vs)
    then show ?case by (cases v) (auto simp: text_of_def)
  qed simp
  with True assms(1) show ?thesis by (simp add: built_length_def eval_formula_op_def Let_def comp_def)
next
  case False
  then have oper: "oper = FSubstitute" and sl: "substitute_length h vs = Some n"
    using assms(1,2) by (auto simp: built_length_def split: formula_op.splits)
  let ?s = "text_of h (nth_val vs 0)" and ?p = "text_of h (nth_val vs 1)" and ?r = "text_of h (nth_val vs 2)"
  have "\<not> length vs < 3" "?p \<noteq> []" "length ?p < length ?r"
    "n = length ?s + occurrences ?s ?p (nth_val vs 3) * (length ?r - length ?p)"
    using sl assms(2) by (auto simp: substitute_length_def Let_def split: if_splits)
  with substitute_length_bound [of ?p ?r ?s "nth_val vs 3"] oper show ?thesis
    by (simp add: eval_formula_op_def Let_def comp_def text_of_to_text)
qed

theorem counted_text_witness:
  "\<exists>s. eval bare_host (EFormula FSubstitute (map ELit [VStr ''a-b-c'', VStr ''-'', VStr '' - ''])) empty_payload = VStr s \<and>
     length s = 9"
proof -
  have b: "built_length bare_host FSubstitute [VStr ''a-b-c'', VStr ''-'', VStr '' - ''] = Some 9" by code_simp
  from counted_text_is_the_built_text [OF b] show ?thesis by (auto simp: nth_val_def)
qed

text \<open>
  What \<open>readField\<close> makes of two stored dates: \<open>Date.UTC\<close> takes the years 0 to 99 for 1900 to 1999, and
  of the fields of the date only the day of the month is compared.
\<close>

theorem early_years_are_read_as_1900s:
  "read_date h (VStr ''0050-03-04'') = read_date h (VStr ''1950-03-04'') \<and>
   read_date h (VStr ''1950-03-04'') = Value (VDate (Some (- 625795200000)))"
  by (rule conjI; code_simp)

theorem impossible_months_are_read:
  "read_date h (VStr ''2024-13-05'') = Value (VDate (Some 1736035200000)) \<and>
   iso_day_text 1736035200000 = ''2025-01-05''"
  by (rule conjI; code_simp)

end
