(* ===== verification/Formula_Format.thy ===== *)
theory Formula_Format
  imports Formula_Check Expr_Eval
begin

text \<open>
  Printing a canonical tree as formula text (\<open>formula/src/format.ts\<close>): quoting, braced field names,
  precedences and the printer itself, which refuses a tree that has no formula syntax.
\<close>

section \<open>Precedence\<close>

datatype precedence =
  PComparison | PConcatenation | PAdditive | PMultiplicative | PUnary | PPrimary

fun rank :: "precedence \<Rightarrow> nat" where
  "rank PComparison = 1"
| "rank PConcatenation = 2"
| "rank PAdditive = 3"
| "rank PMultiplicative = 4"
| "rank PUnary = 5"
| "rank PPrimary = 6"

lemma rank_inject [simp]: "rank a = rank b \<longleftrightarrow> a = b"
  by (cases a; cases b) simp_all

instantiation precedence :: linorder
begin

definition less_eq_precedence :: "precedence \<Rightarrow> precedence \<Rightarrow> bool" where
  "a \<le> b \<longleftrightarrow> rank a \<le> rank b"

definition less_precedence :: "precedence \<Rightarrow> precedence \<Rightarrow> bool" where
  "a < b \<longleftrightarrow> rank a < rank b"

instance
  by standard (auto simp: less_eq_precedence_def less_precedence_def)

end

section \<open>Names and symbols\<close>

definition infix_formula :: "formula_op \<Rightarrow> (string \<times> precedence) option" where
  "infix_formula oper =
     (case oper of
        FAdd \<Rightarrow> Some (''+'', PAdditive)
      | FSub \<Rightarrow> Some (''-'', PAdditive)
      | FMul \<Rightarrow> Some (''*'', PMultiplicative)
      | FDiv \<Rightarrow> Some (''/'', PMultiplicative)
      | _ \<Rightarrow> None)"

definition comparison_symbol :: "cond_op \<Rightarrow> string option" where
  "comparison_symbol oper =
     (case oper of
        Equals \<Rightarrow> Some ''='' | NotEquals \<Rightarrow> Some ''!='' | LessThan \<Rightarrow> Some ''<''
      | GreaterThan \<Rightarrow> Some ''>'' | LessThanOrEquals \<Rightarrow> Some ''<='' | GreaterThanOrEquals \<Rightarrow> Some ''>=''
      | _ \<Rightarrow> None)"

definition function_name :: "formula_op \<Rightarrow> string option" where
  "function_name oper =
     (case oper of
        FConcat \<Rightarrow> Some ''CONCATENATE'' | FLeft \<Rightarrow> Some ''LEFT'' | FRight \<Rightarrow> Some ''RIGHT''
      | FMid \<Rightarrow> Some ''MID'' | FLen \<Rightarrow> Some ''LEN'' | FTrim \<Rightarrow> Some ''TRIM'' | FUpper \<Rightarrow> Some ''UPPER''
      | FLower \<Rightarrow> Some ''LOWER'' | FSubstitute \<Rightarrow> Some ''SUBSTITUTE'' | FNot \<Rightarrow> Some ''NOT''
      | FIsError \<Rightarrow> Some ''ISERROR'' | FRound \<Rightarrow> Some ''ROUND'' | FRoundUp \<Rightarrow> Some ''ROUNDUP''
      | FRoundDown \<Rightarrow> Some ''ROUNDDOWN'' | FMin \<Rightarrow> Some ''MIN'' | FMax \<Rightarrow> Some ''MAX'' | FSum \<Rightarrow> Some ''SUM''
      | FAverage \<Rightarrow> Some ''AVERAGE'' | FAbs \<Rightarrow> Some ''ABS'' | FValue \<Rightarrow> Some ''VALUE'' | FMod \<Rightarrow> Some ''MOD''
      | FPower \<Rightarrow> Some ''POWER'' | FSqrt \<Rightarrow> Some ''SQRT'' | FCeiling \<Rightarrow> Some ''CEILING''
      | FFloor \<Rightarrow> Some ''FLOOR'' | _ \<Rightarrow> None)"

definition date_function_name :: "date_op \<Rightarrow> string option" where
  "date_function_name oper =
     (case oper of
        DAdd \<Rightarrow> Some ''DATEADD'' | DDiff \<Rightarrow> Some ''DATETIME_DIFF'' | DFormat \<Rightarrow> Some ''DATETIME_FORMAT''
      | DYear \<Rightarrow> Some ''YEAR'' | DMonth \<Rightarrow> Some ''MONTH'' | DDay \<Rightarrow> Some ''DAY'' | DNow \<Rightarrow> None)"

section \<open>Quoting\<close>

text \<open>
  \<open>quoteText\<close>: the four replacements one after the other act on a character at a time, since none
  makes a character a later one replaces, apart from the backslashes the first one doubles.
\<close>

definition escape_char :: "char \<Rightarrow> char \<Rightarrow> string" where
  "escape_char q c =
     (if c = CHR 0x5C then [CHR 0x5C, CHR 0x5C]
      else if c = q then [CHR 0x5C, q]
      else if c = CHR 0x0A then [CHR 0x5C, CHR ''n'']
      else if c = CHR 0x09 then [CHR 0x5C, CHR ''t'']
      else [c])"

definition quote_text :: "char \<Rightarrow> string \<Rightarrow> string" where
  "quote_text q s = q # concat (map (escape_char q) s) @ [q]"

definition brace_char :: "char \<Rightarrow> string" where
  "brace_char c =
     (if c = CHR 0x5C then [CHR 0x5C, CHR 0x5C]
      else if c = CHR 0x7D then [CHR 0x5C, CHR 0x7D] else [c])"

definition brace_field_name :: "string \<Rightarrow> string" where
  "brace_field_name name = CHR 0x7B # concat (map brace_char name) @ [CHR 0x7D]"

section \<open>Printing\<close>

text \<open>
  \<open>FormatError\<close> is the printer's own refusal, \<open>BrokenTree\<close> the exception of reading a property of a
  missing node.
\<close>

datatype format_failure = FormatError string | BrokenTree

record printed =
  pr_text :: string
  pr_precedence :: precedence

type_synonym printing = "format_failure + printed"

definition primary_text :: "string \<Rightarrow> printed" where
  "primary_text s = \<lparr>pr_text = s, pr_precedence = PPrimary\<rparr>"

definition by_path :: "environment \<Rightarrow> string \<Rightarrow> field option" where
  "by_path env p = map_of (rev (map (\<lambda>f. (field_path f, f)) env)) p"

definition member_text :: "field \<Rightarrow> string" where
  "member_text f = (if is_identifier (f_key f) then f_key f else brace_field_name (f_label f))"

definition field_text :: "environment \<Rightarrow> string \<Rightarrow> string" where
  "field_text env p =
     (case by_path env p of
        None \<Rightarrow> brace_field_name p
      | Some f \<Rightarrow>
          (case f_scope f of
             Self \<Rightarrow> brace_field_name (f_label f)
           | Relation r \<Rightarrow> r @ ''.'' @ member_text f))"

text \<open>The texts of the operands, printed from left to right.\<close>

fun print_all :: "printing list \<Rightarrow> format_failure + printed list" where
  "print_all [] = Inr []"
| "print_all (p # ps) = rbind p (\<lambda>x. rbind (print_all ps) (\<lambda>xs. Inr (x # xs)))"

definition print_call :: "string \<Rightarrow> printing list \<Rightarrow> printing" where
  "print_call name args =
     rbind (print_all args) (\<lambda>xs. Inr (primary_text (name @ ''('' @ join '', '' (map pr_text xs) @ '')'')))"

definition parenthesize :: "bool \<Rightarrow> string \<Rightarrow> string" where
  "parenthesize b s = (if b then ''('' @ s @ '')'' else s)"

definition infix_text :: "string \<Rightarrow> precedence \<Rightarrow> printed \<Rightarrow> printed \<Rightarrow> printed" where
  "infix_text symbol prec l r =
     \<lparr>pr_text = parenthesize (pr_precedence l < prec) (pr_text l) @ '' '' @ symbol @ '' '' @
                parenthesize (pr_precedence r \<le> prec) (pr_text r),
      pr_precedence = prec\<rparr>"

definition print_infix :: "string \<Rightarrow> precedence \<Rightarrow> printing \<Rightarrow> printing \<Rightarrow> printing" where
  "print_infix symbol prec l r = rbind l (\<lambda>x. rbind r (\<lambda>y. Inr (infix_text symbol prec x y)))"

definition print_chain :: "string \<Rightarrow> precedence \<Rightarrow> printing list \<Rightarrow> printing" where
  "print_chain symbol prec operands =
     (case operands of
        p # q # ps \<Rightarrow> foldl (print_infix symbol prec) p (q # ps)
      | _ \<Rightarrow> Inl (FormatError (quoted symbol @ '' needs two operands'')))"

definition print_number :: "jsnum \<Rightarrow> printed" where
  "print_number x =
     (if js_lt x (JFin 0) \<or> x = JNegZero
      then \<lparr>pr_text = CHR ''-'' # number_text (js_neg x), pr_precedence = PUnary\<rparr>
      else primary_text (number_text x))"

definition print_literal :: "host \<Rightarrow> jsval \<Rightarrow> printing" where
  "print_literal h v =
     (case v of
        VNull \<Rightarrow> Inr (primary_text ''BLANK()'')
      | VUndef \<Rightarrow> Inr (primary_text ''BLANK()'')
      | VBool b \<Rightarrow> Inr (primary_text (if b then ''TRUE()'' else ''FALSE()''))
      | VStr s \<Rightarrow> Inr (primary_text (quote_text CHR 0x22 s))
      | VNum x \<Rightarrow>
          (if js_finite x then Inr (print_number x)
           else Inl (FormatError (''A formula cannot hold the literal '' @ number_text x)))
      | _ \<Rightarrow> Inl (FormatError (''A formula cannot hold the literal '' @ h_to_string h v)))"

definition print_negate :: "printing list \<Rightarrow> printing" where
  "print_negate operands =
     (case operands of
        [] \<Rightarrow> Inl BrokenTree
      | p # _ \<Rightarrow>
          rbind p (\<lambda>x. Inr \<lparr>pr_text = CHR ''-'' #
              parenthesize (pr_precedence x < PUnary \<or> prefix ''-'' (pr_text x)) (pr_text x),
            pr_precedence = PUnary\<rparr>))"

text \<open>
  Of the operators only \<open>substring\<close> and \<open>matches\<close> have neither an infix form nor a function name.
\<close>

definition print_formula_op :: "formula_op \<Rightarrow> printing list \<Rightarrow> printing" where
  "print_formula_op oper operands =
     (case infix_formula oper of
        Some (symbol, prec) \<Rightarrow> print_chain symbol prec operands
      | None \<Rightarrow>
          (if oper = FConcat \<and> length operands = 2 then print_chain ''&'' PConcatenation operands
           else if oper = FNegate then print_negate operands
           else case function_name oper of
                  None \<Rightarrow> Inl (FormatError (''The formula operator '' @
                            quoted (if oper = FSubstring then ''substring'' else ''matches'') @
                            '' has no formula syntax''))
                | Some name \<Rightarrow> print_call name operands))"

definition cond_op_name :: "cond_op \<Rightarrow> string" where
  "cond_op_name oper =
     (case oper of
        Equals \<Rightarrow> ''equals'' | NotEquals \<Rightarrow> ''notEquals'' | GreaterThan \<Rightarrow> ''greaterThan''
      | GreaterThanOrEquals \<Rightarrow> ''greaterThanOrEquals'' | LessThan \<Rightarrow> ''lessThan''
      | LessThanOrEquals \<Rightarrow> ''lessThanOrEquals'' | IsEmpty \<Rightarrow> ''isEmpty'' | IsNotEmpty \<Rightarrow> ''isNotEmpty''
      | Contains \<Rightarrow> ''contains'' | NotContains \<Rightarrow> ''notContains'' | StartsWith \<Rightarrow> ''startsWith''
      | EndsWith \<Rightarrow> ''endsWith'' | In \<Rightarrow> ''in'' | NotIn \<Rightarrow> ''notIn'' | UnknownOp s \<Rightarrow> s)"

definition print_rule :: "cond_op \<Rightarrow> printing \<Rightarrow> printing option \<Rightarrow> printing" where
  "print_rule oper l r =
     (if oper = IsEmpty \<or> oper = IsNotEmpty
      then print_infix (if oper = IsEmpty then ''='' else ''!='') PComparison l
             (Inr (primary_text ''BLANK()''))
      else case (comparison_symbol oper, r) of
             (Some symbol, Some p) \<Rightarrow> print_infix symbol PComparison l p
           | _ \<Rightarrow> Inl (FormatError (''The condition operator '' @ quoted (cond_op_name oper) @
                        '' has no formula syntax'')))"

definition is_blank_literal :: "expr \<Rightarrow> bool" where
  "is_blank_literal e = (e = ELit VNull \<or> e = ELit VUndef)"

definition print_date :: "date_op \<Rightarrow> printing option \<Rightarrow> printing option \<Rightarrow> date_unit option \<Rightarrow> printing" where
  "print_date oper l r u =
     (case date_function_name oper of
        None \<Rightarrow> Inl (FormatError ''The date operator 'now' has no formula syntax'')
      | Some name \<Rightarrow>
          (if oper = DDiff \<and> u = None
           then Inl (FormatError ''The date operator 'dateDiff' has no formula syntax'')
           else rbind (print_all (opt_list l @ opt_list r)) (\<lambda>xs.
                  Inr (primary_text (name @ ''('' @
                    join '', '' (map pr_text xs @
                                opt_list (map_option (quote_text CHR 0x27 \<circ> unit_name) u)) @ '')'')))))"

definition print_function :: "fun_name \<Rightarrow> printing" where
  "print_function f =
     (case f of
        FnRecordId \<Rightarrow> Inr (primary_text ''RECORD_ID()'')
      | FnCreatedTime \<Rightarrow> Inr (primary_text ''CREATED_TIME()'')
      | FnToday \<Rightarrow> Inl (FormatError ''The function 'today' has no formula syntax'')
      | FnOther s \<Rightarrow> Inl (FormatError (''The function '' @ quoted s @ '' has no formula syntax'')))"

definition without_syntax :: "string \<Rightarrow> printing" where
  "without_syntax kind = Inl (FormatError (''An expression of kind '' @ quoted kind @ '' has no formula syntax''))"

text \<open>The two branches of \<open>IF\<close>, the second left out when it is blank.\<close>

definition print_if :: "printing \<Rightarrow> printing \<Rightarrow> printing option \<Rightarrow> bool \<Rightarrow> printing" where
  "print_if c t e blank = print_call ''IF'' (if blank then [c, t] else [c, t] @ opt_list e)"

primrec print_expr :: "host \<Rightarrow> environment \<Rightarrow> expr \<Rightarrow> printing" where
  "print_expr h env (ELit v) = print_literal h v"
| "print_expr h env (EPath p flt off) = Inr (primary_text (field_text env p))"
| "print_expr h env (EFormula oper es) = print_formula_op oper (map (print_expr h env) es)"
| "print_expr h env (ERule oper l r) = print_rule oper (print_expr h env l) (map_option (print_expr h env) r)"
| "print_expr h env (EGroup m cs al an) =
     print_call (if group_mode m an = ModeAny then ''OR'' else ''AND'')
       (group_children (map_option (map (print_expr h env)) cs) (map_option (map (print_expr h env)) al)
          (map_option (map (print_expr h env)) an))"
| "print_expr h env (EIf c t e) =
     (if e = Some EMissing then Inl BrokenTree
      else print_if (print_expr h env c) (print_expr h env t) (map_option (print_expr h env) e)
             (case e of None \<Rightarrow> True | Some x \<Rightarrow> is_blank_literal x))"
| "print_expr h env (ESwitch s cs d) =
     print_call ''SWITCH''
       (print_expr h env s #
        concat (map (\<lambda>(w, t). [w, t]) (map (map_prod (print_expr h env) (print_expr h env)) cs)) @
        opt_list (map_option (print_expr h env) d))"
| "print_expr h env (EDate oper l r u) =
     print_date oper (map_option (print_expr h env) l) (map_option (print_expr h env) r) u"
| "print_expr h env (EFun f off) = print_function f"
| "print_expr h env (ECoalesce es) = without_syntax ''coalesce''"
| "print_expr h env (EAggregate oper coll w f) = without_syntax ''aggregate''"
| "print_expr h env EMissing = Inl BrokenTree"
| "print_expr h env ENonObject = without_syntax ''untagged''"
| "print_expr h env (EOther k) = without_syntax (if k = [] then ''untagged'' else k)"

definition format_formula :: "host \<Rightarrow> expr \<Rightarrow> environment \<Rightarrow> format_failure + string" where
  "format_formula h e env = rbind (print_expr h env e) (\<lambda>x. Inr (pr_text x))"

end
