(* ===== verification/Formula_Editor.thy ===== *)
theory Formula_Editor
  imports Formula_Format Formula_Evaluate
begin

text \<open>
  What a formula editor asks for while someone types (\<open>formula/src/editor.ts\<close>): the analysis of a
  text, tokens to colour, and completions at the caret.
\<close>

section \<open>Tokens to colour\<close>

datatype colour =
  CoField | CoOperator | CoNumber | CoFunction | CoParenthesis | CoText | CoBoolean | CoSeparator
| CoInvalid

record formula_token =
  ft_value :: string
  ft_type :: colour
  ft_start :: nat
  ft_end :: nat

definition has_kind :: "token_type \<Rightarrow> token option \<Rightarrow> bool" where
  "has_kind k t = (case t of None \<Rightarrow> False | Some x \<Rightarrow> t_type x = k)"

definition token_colour :: "token \<Rightarrow> token option \<Rightarrow> token option \<Rightarrow> colour" where
  "token_colour t before after =
     (case t_type t of
        KField \<Rightarrow> CoField
      | KNumber \<Rightarrow> CoNumber
      | KString \<Rightarrow> CoText
      | KOperator \<Rightarrow> CoOperator
      | KLParen \<Rightarrow> CoParenthesis
      | KRParen \<Rightarrow> CoParenthesis
      | KComma \<Rightarrow> CoSeparator
      | KDot \<Rightarrow> CoSeparator
      | KIdentifier \<Rightarrow>
          (if has_kind KLParen after then CoFunction
           else if \<not> has_kind KDot before \<and> \<not> has_kind KDot after \<and>
                   to_upper (t_text t) \<in> {''TRUE'', ''FALSE''}
           then CoBoolean else CoField)
      | _ \<Rightarrow> CoInvalid)"

definition visible_tokens :: "string \<Rightarrow> token list" where
  "visible_tokens text = filter (\<lambda>t. t_type t \<noteq> KEof) (tokenize text)"

text \<open>The tokens one after the other, each with its neighbours.\<close>

fun colour_from :: "token option \<Rightarrow> token list \<Rightarrow> formula_token list" where
  "colour_from before [] = []"
| "colour_from before (t # ts) =
     \<lparr>ft_value = t_text t,
      ft_type = token_colour t before (case ts of [] \<Rightarrow> None | u # _ \<Rightarrow> Some u),
      ft_start = t_start t, ft_end = t_end t\<rparr> # colour_from (Some t) ts"

definition formula_tokens :: "string \<Rightarrow> formula_token list" where
  "formula_tokens text = colour_from None (visible_tokens text)"

section \<open>Analysis\<close>

record analyze_options =
  a_check :: check_options
  a_sample :: "jsval option"

record analysis =
  n_checked :: check_result
  n_tokens :: "formula_token list"
  n_preview :: "evaluation option"

text \<open>
  The parser answers every text (\<open>parser_answers\<close>), so the branch of a parse out of fuel is never
  taken.
\<close>

definition refused_result :: "diagnostic list \<Rightarrow> check_result" where
  "refused_result ds =
     \<lparr>r_ast = None, r_type = None, r_errors = ds, r_dependencies = [], r_depth = None\<rparr>"

definition analyze_text :: "host \<Rightarrow> string \<Rightarrow> environment \<Rightarrow> analyze_options \<Rightarrow> analysis" where
  "analyze_text h text env opts =
     (let tokens = formula_tokens text
      in case parse_formula text of
           Inl (Refused d) \<Rightarrow> \<lparr>n_checked = refused_result [d], n_tokens = tokens, n_preview = None\<rparr>
         | Inl OutOfFuel \<Rightarrow> \<lparr>n_checked = refused_result [], n_tokens = tokens, n_preview = None\<rparr>
         | Inr syn \<Rightarrow>
             (let res = check_formula syn env (a_check opts)
              in \<lparr>n_checked = res, n_tokens = tokens,
                  n_preview =
                    (case (r_ast res, r_type res, a_sample opts) of
                       (Some e, Some t, Some sample) \<Rightarrow>
                         Some (evaluate h e sample \<lparr>e_env = Some env, e_result_type = Some t\<rparr>)
                     | _ \<Rightarrow> None)\<rparr>))"

section \<open>Completions\<close>

datatype suggestion_kind = SFieldItem | SFunctionItem

record suggestion =
  s_kind :: suggestion_kind
  s_label :: string
  s_value :: string
  s_context :: "string option"
  s_type :: "string option"
  s_description :: "string option"

record suggestions =
  g_from :: int
  g_to :: int
  g_items :: "suggestion list"

record suggest_options =
  so_field_id :: "string option"
  so_limit :: "int option"

datatype completion =
    NoCompletion
  | BraceMode string nat nat
  | IdentifierMode string nat nat
  | MemberMode string string nat nat

definition field_suggestion :: "field \<Rightarrow> bool \<Rightarrow> suggestion" where
  "field_suggestion f member_only =
     \<lparr>s_kind = SFieldItem, s_label = f_label f,
      s_value =
        (case f_scope f of
           Self \<Rightarrow> brace_field_name (f_label f)
         | Relation r \<Rightarrow> (if member_only then member_text f else r @ ''.'' @ member_text f)),
      s_context = (case f_scope f of Self \<Rightarrow> None | Relation r \<Rightarrow> Some r),
      s_type = Some (f_type f), s_description = None\<rparr>"

definition function_suggestion :: "formula_function \<Rightarrow> suggestion" where
  "function_suggestion f =
     \<lparr>s_kind = SFunctionItem, s_label = fn_name f, s_value = fn_name f @ ''('',
      s_context = Some (fn_signature f), s_type = map_option type_name (fn_returns f),
      s_description = Some (fn_description f)\<rparr>"

text \<open>\<open>matchTier\<close>: 0 for a prefix match, 1 for a match inside.\<close>

definition match_tier :: "string \<Rightarrow> string list \<Rightarrow> nat option" where
  "match_tier typed names =
     (let needle = to_lower (js_trim typed); folded = map to_lower names
      in if needle = [] then Some 0
         else if list_ex (\<lambda>n. starts_with n needle) folded then Some 0
         else if list_ex (\<lambda>n. text_includes n needle) folded then Some 1
         else None)"

text \<open>\<open>before[before.length - k]\<close>.\<close>

definition from_last :: "'a list \<Rightarrow> nat \<Rightarrow> 'a option" where
  "from_last xs k = (if k \<le> length xs then Some (xs ! (length xs - k)) else None)"

definition end_of_token_at :: "token list \<Rightarrow> nat \<Rightarrow> nat \<Rightarrow> nat" where
  "end_of_token_at ts start cursor =
     (case find_first (\<lambda>t. t_start t = start) ts of Some t \<Rightarrow> t_end t | None \<Rightarrow> cursor)"

text \<open>The relation of a member that is being typed: \<open>relation.\<close> right before a position.\<close>

definition relation_before :: "token option \<Rightarrow> token option \<Rightarrow> nat \<Rightarrow> string option" where
  "relation_before rel dot start =
     (case (dot, rel) of
        (Some d, Some r) \<Rightarrow>
          (if t_type d = KDot \<and> t_end d = start \<and> t_type r = KIdentifier \<and> t_end r = t_start d
           then Some (t_text r) else None)
      | _ \<Rightarrow> None)"

definition completion_mode :: "string \<Rightarrow> nat \<Rightarrow> completion" where
  "completion_mode text cursor =
     (let before = visible_tokens (take cursor text); all = tokenize text
      in case from_last before 1 of
           None \<Rightarrow> IdentifierMode [] cursor cursor
         | Some l \<Rightarrow>
             (let touching = (t_end l = cursor)
              in if touching \<and> t_type l = KField \<and> t_unterminated l
                 then BraceMode (value_text l) (t_start l) (end_of_token_at all (t_start l) cursor)
                 else if touching \<and> t_type l = KString \<and> t_unterminated l then NoCompletion
                 else if touching \<and> t_type l = KIdentifier
                 then (case relation_before (from_last before 3) (from_last before 2) (t_start l) of
                         Some r \<Rightarrow> MemberMode r (t_text l) (t_start l)
                                     (end_of_token_at all (t_start l) cursor)
                       | None \<Rightarrow> IdentifierMode (t_text l) (t_start l)
                                   (end_of_token_at all (t_start l) cursor))
                 else if touching \<and> t_type l = KDot \<and>
                         (case from_last before 2 of
                            None \<Rightarrow> False
                          | Some p \<Rightarrow> t_type p = KIdentifier \<and> t_end p = t_start l)
                 then MemberMode (case from_last before 2 of Some p \<Rightarrow> t_text p | None \<Rightarrow> []) []
                        cursor cursor
                 else if t_type l = KOperator \<or> t_type l = KLParen \<or> t_type l = KComma
                 then IdentifierMode [] cursor cursor
                 else NoCompletion))"

text \<open>\<open>slice\<close> with bounds that may be negative, counted from the end then.\<close>

definition slice_bound :: "nat \<Rightarrow> int \<Rightarrow> nat" where
  "slice_bound n i = (if i < 0 then nat (int n + i) else min n (nat i))"

definition slice_list :: "int \<Rightarrow> int \<Rightarrow> 'a list \<Rightarrow> 'a list" where
  "slice_list a b xs = js_slice (slice_bound (length xs) a) (slice_bound (length xs) b) xs"

definition usable_field :: "string option \<Rightarrow> field \<Rightarrow> bool" where
  "usable_field self f =
     (formula_type_of (f_type f) \<noteq> None \<and> \<not> f_classified f \<and> out_of_reach f = None \<and>
      \<not> (f_scope f = Self \<and> self = Some (f_id f)))"

definition field_names :: "bool \<Rightarrow> field \<Rightarrow> string list" where
  "field_names bare f =
     (case f_scope f of
        Relation r \<Rightarrow> (if bare then [f_label f, f_key f, r @ ''.'' @ f_key f] else [f_label f, f_key f])
      | Self \<Rightarrow> [f_label f, f_key f])"

type_synonym ranked = "nat \<times> nat \<times> suggestion"

definition ranked_fields :: "bool \<Rightarrow> bool \<Rightarrow> string \<Rightarrow> field list \<Rightarrow> ranked list" where
  "ranked_fields bare member typed fs =
     concat (map (\<lambda>f. case match_tier typed (field_names bare f) of
                        None \<Rightarrow> []
                      | Some tier \<Rightarrow> [(tier, 0, field_suggestion f member)]) fs)"

definition ranked_functions :: "string \<Rightarrow> ranked list" where
  "ranked_functions typed =
     concat (map (\<lambda>f. if List.member time_functions (fn_name f) then []
                      else case match_tier typed [fn_name f] of
                             None \<Rightarrow> []
                           | Some tier \<Rightarrow> [(tier, 1, function_suggestion f)]) formula_functions)"

definition sort_ranked :: "ranked list \<Rightarrow> ranked list" where
  "sort_ranked rs = sort_key fst (sort_key (fst \<circ> snd) rs)"

definition take_items :: "int option \<Rightarrow> ranked list \<Rightarrow> suggestion list" where
  "take_items limit rs =
     map (snd \<circ> snd) (slice_list 0 (case limit of None \<Rightarrow> 50 | Some n \<Rightarrow> n) (sort_ranked rs))"

definition in_child :: "string \<Rightarrow> field \<Rightarrow> bool" where
  "in_child r f = (f_scope f = Relation r)"

definition suggest :: "string \<Rightarrow> int \<Rightarrow> environment \<Rightarrow> suggest_options \<Rightarrow> suggestions" where
  "suggest text cursor env opts =
     (let usable = filter (usable_field (so_field_id opts)) env
      in case completion_mode text (nat (max 0 (min cursor (int (length text))))) of
           NoCompletion \<Rightarrow> \<lparr>g_from = cursor, g_to = cursor, g_items = []\<rparr>
         | BraceMode typed a b \<Rightarrow>
             \<lparr>g_from = int a, g_to = int b,
              g_items = take_items (so_limit opts) (ranked_fields False False typed usable)\<rparr>
         | IdentifierMode typed a b \<Rightarrow>
             \<lparr>g_from = int a, g_to = int b,
              g_items = take_items (so_limit opts)
                (ranked_fields True False typed usable @ ranked_functions typed)\<rparr>
         | MemberMode r typed a b \<Rightarrow>
             \<lparr>g_from = int a, g_to = int b,
              g_items = take_items (so_limit opts)
                (ranked_fields False True typed (filter (in_child r) usable))\<rparr>)"

definition apply_suggestion :: "string \<Rightarrow> suggestions \<Rightarrow> suggestion \<Rightarrow> string \<times> int" where
  "apply_suggestion text sg item =
     (slice_list 0 (g_from sg) text @ s_value item @ slice_list (g_to sg) (int (length text)) text,
      g_from sg + int (length (s_value item)))"

end
