(* ===== verification/Formula_Spans.thy ===== *)
theory Formula_Spans
  imports Formula_Editor Formula_Reads
begin

text \<open>
  Diagnostics point into the text: the spans of a parsed tree lie in the text, the checker reports
  only at spans of the tree it is given, and so does every function of the vocabulary.
\<close>

section \<open>The spans of a parsed tree\<close>

definition span_in :: "nat \<Rightarrow> nat \<Rightarrow> nat \<Rightarrow> bool" where
  "span_in n a b = (a \<le> b \<and> b \<le> n)"

primrec spans_ok :: "nat \<Rightarrow> node \<Rightarrow> bool" where
  "spans_ok n (SNumber v a b) = span_in n a b"
| "spans_ok n (SString s a b) = span_in n a b"
| "spans_ok n (SBoolean v a b) = span_in n a b"
| "spans_ok n (SField name braced rel a b) =
     (span_in n a b \<and> (case rel of None \<Rightarrow> True | Some (r, c, d) \<Rightarrow> span_in n c d))"
| "spans_ok n (SCall name e args a b) = (span_in n a b \<and> span_in n a e \<and> list_all (spans_ok n) args)"
| "spans_ok n (SUnary u x a b) = (span_in n a b \<and> spans_ok n x)"
| "spans_ok n (SBinary oper os l r a b) = (span_in n a b \<and> spans_ok n l \<and> spans_ok n r)"
| "spans_ok n (SParen x a b) = (span_in n a b \<and> spans_ok n x)"

lemma spans_ok_node: "spans_ok n nd \<Longrightarrow> span_in n (node_start nd) (node_end nd)"
  by (cases nd) auto

definition ordered :: "nat \<Rightarrow> token list \<Rightarrow> bool" where
  "ordered n ts =
     (sorted_wrt (\<lambda>a b. t_end a \<le> t_start b) ts \<and> (\<forall>t\<in>set ts. span_in n (t_start t) (t_end t)))"

lemma ordered_simps [simp]:
  "ordered n []"
  "ordered n (t # ts) \<longleftrightarrow> (\<forall>u\<in>set ts. t_end t \<le> t_start u) \<and> span_in n (t_start t) (t_end t) \<and> ordered n ts"
  "ordered n (us @ vs) \<longleftrightarrow> ordered n us \<and> ordered n vs \<and> (\<forall>u\<in>set us. \<forall>v\<in>set vs. t_end u \<le> t_start v)"
  by (auto simp: ordered_def sorted_wrt_append)

lemma ordered_ends:
  assumes "ordered n ts" "ts \<noteq> []"
  shows "span_in n (t_start (hd ts)) (t_end (last ts))"
proof (cases ts)
  case (Cons t us)
  show ?thesis
  proof (cases "us = []")
    case False
    then have l: "last us \<in> set us" by simp
    with assms(1) Cons have "t_end t \<le> t_start (last us)" by simp
    moreover from assms(1) Cons have "t_start t \<le> t_end t" by (simp add: span_in_def)
    moreover from l assms(1) Cons have "t_start (last us) \<le> t_end (last us)" "t_end (last us) \<le> n"
      by (auto simp: ordered_def span_in_def)
    ultimately have "t_start t \<le> t_end (last us)" "t_end (last us) \<le> n" by linarith+
    then show ?thesis using Cons False by (simp add: span_in_def)
  qed (use assms Cons in simp)
qed (use assms in simp)

lemma derives_spans_ok:
  "derives k ts x \<Longrightarrow> ordered n ts \<Longrightarrow> spans_ok n x"
  "derives_args ts xs \<Longrightarrow> ordered n ts \<Longrightarrow> list_all (spans_ok n) xs"
proof (induction rule: derives_derives_args.inducts)
  case (d_binary k ts l t b ts' r)
  have "span_in n (t_start (hd (ts @ t # ts'))) (t_end (last (ts @ t # ts')))"
    using d_binary by (intro ordered_ends) auto
  then show ?case using d_binary derives_span(1) [OF d_binary(1)] derives_span(1) [OF d_binary(3)] by simp
next
  case (d_unary t ts x)
  have "span_in n (t_start (hd (t # ts))) (t_end (last (t # ts)))"
    using d_unary by (intro ordered_ends) auto
  then show ?case using d_unary derives_span(1) [OF d_unary(3)] by simp
next
  case (d_paren a ts x b)
  have "span_in n (t_start (hd (a # ts @ [b]))) (t_end (last (a # ts @ [b])))"
    using d_paren by (intro ordered_ends) auto
  then show ?case using d_paren by simp
next
  case (d_call t a ts xs b)
  have "span_in n (t_start (hd (t # a # ts @ [b]))) (t_end (last (t # a # ts @ [b])))"
    using d_call by (intro ordered_ends) auto
  then show ?case using d_call by simp
qed (auto simp: span_in_def)

lemma tokens_of_ordered: "tokens_of i s ts \<Longrightarrow> ordered (i + length s) ts"
proof (induction i s ts rule: tokens_of.induct)
  case (3 i s t t' ts)
  from "3.prems" obtain gap rest where g: "s = gap @ t_text t @ rest" "t_start t = i + length gap"
    "t_end t = t_start t + length (t_text t)" "tokens_of (t_end t) rest (t' # ts)" by auto
  have len: "i + length s = t_end t + length rest" using g by simp
  from "3.IH" [OF g(4)] have o: "ordered (i + length s) (t' # ts)" unfolding len .
  from tokens_of_spans [OF g(4)] have "\<forall>u\<in>set (t' # ts). t_end t \<le> t_start u" by blast
  moreover have "span_in (i + length s) (t_start t) (t_end t)" using g by (simp add: span_in_def)
  ultimately show ?case using o ordered_simps(2) [of "i + length s" t "t' # ts"] by blast
qed (auto simp: span_in_def)

lemma parsed_spans_ok:
  assumes "parse_formula s = Inr x"
  shows "spans_ok (length s) x"
proof -
  from assms have "parse_tokens (tokenize s) = Inr x"
    by (auto simp: parse_formula_def split: if_splits)
  with parse_tokens_ok [OF tokenize_tokens_of [of s]] have d: "derives 0 (butlast (tokenize s)) x" by auto
  have "ordered (length s) (tokenize s)" using tokens_of_ordered [OF tokenize_tokens_of [of s]] by simp
  then have "ordered (length s) (butlast (tokenize s))"
    by (metis append_butlast_last_id butlast.simps(1) ordered_simps(3))
  with derives_spans_ok(1) [OF d] show ?thesis .
qed

section \<open>The checker reports at the nodes it is given\<close>

definition in_text :: "nat \<Rightarrow> checker \<Rightarrow> bool" where
  "in_text n k =
     ((\<forall>d\<in>set (k_errors k). span_in n (d_start d) (d_end d)) \<and>
      (\<forall>r\<in>set (k_references k). span_in n (rf_start r) (rf_end r)))"

lemma within_report [simp]: "in_text n (report c m a b ps k) \<longleftrightarrow> in_text n k \<and> span_in n a b"
  by (auto simp: in_text_def report_def)

lemma within_report_at [simp]:
  "in_text n (report_at c m nd ps k) \<longleftrightarrow> in_text n k \<and> span_in n (node_start nd) (node_end nd)"
  by (simp add: report_at_def)

definition placed :: "nat \<Rightarrow> checked \<Rightarrow> bool" where
  "placed n c = span_in n (node_start (c_syntax c)) (node_end (c_syntax c))"

definition stays :: "nat \<Rightarrow> (checker \<Rightarrow> checked \<times> checker) \<Rightarrow> bool" where
  "stays n f = (\<forall>k. in_text n k \<longrightarrow> in_text n (snd (f k)) \<and> placed n (fst (f k)))"

lemma staysD: "stays n f \<Longrightarrow> in_text n k \<Longrightarrow> f k = (c, k') \<Longrightarrow> in_text n k' \<and> placed n c"
  by (auto simp: stays_def)

lemma expect_within:
  "in_text n k \<Longrightarrow> \<forall>c\<in>set (x_args x). placed n c \<Longrightarrow> in_text n (expect x i ts k)"
  by (auto simp: expect_def arg_option_def placed_def split: value_type.split)

lemma expect_from_within:
  "in_text n k \<Longrightarrow> \<forall>c\<in>set (x_args x). placed n c \<Longrightarrow> in_text n (expect_from x i tss k)"
  by (induction x i tss k rule: expect_from.induct) (simp_all add: expect_within)

lemma unify_from_within:
  "in_text n k \<Longrightarrow> \<forall>(c, l)\<in>set bs. placed n c \<Longrightarrow> in_text n (snd (unify_from name i ex bad bs k))"
  by (induction name i ex bad bs k rule: unify_from.induct)
     (auto simp: placed_def split: value_type.split option.split prod.split)

lemma unify_within:
  "unify name bs k = (t, k') \<Longrightarrow> in_text n k \<Longrightarrow> \<forall>(c, l)\<in>set bs. placed n c \<Longrightarrow> in_text n k'"
  using unify_from_within [of n k bs name 0 None False] by (simp add: unify_def)

lemma unit_at_within:
  "unit_at x i fb k = (u, k') \<Longrightarrow> in_text n k \<Longrightarrow> \<forall>c\<in>set (x_args x). placed n c \<Longrightarrow> in_text n k'"
  by (auto simp: unit_at_def arg_option_def placed_def split: if_splits option.splits)

lemma check_patterns_within:
  "in_text n k \<Longrightarrow> \<forall>(p, r)\<in>set ps. placed n p \<Longrightarrow> in_text n (check_patterns s i ps k)"
  by (induction s i ps k rule: check_patterns.induct) (auto simp: placed_def)

definition lowers_within :: "nat \<Rightarrow> nat \<Rightarrow> (call_context \<Rightarrow> checker \<Rightarrow> (value_type \<times> expr) \<times> checker) \<Rightarrow> bool" where
  "lowers_within least n lower =
     (\<forall>x k. in_text n k \<longrightarrow> least \<le> length (x_args x) \<longrightarrow> (\<forall>c\<in>set (x_args x). placed n c) \<longrightarrow>
        in_text n (snd (lower x k)))"

lemma lower_asts_within [simp]:
  "lowers_within least n lower_concatenate" "lowers_within least n (lower_group m)"
  by (simp_all add: lowers_within_def lower_concatenate_def lower_group_def expect_from_within)

lemma lower_if_within: "lowers_within 2 n lower_if"
  unfolding lowers_within_def
proof (intro allI impI)
  fix x :: call_context and k assume w: "in_text n k" and a: "2 \<le> length (x_args x)" and p: "\<forall>c\<in>set (x_args x). placed n c"
  let ?bs = "(argument_of x 1, ''then'') # (case arg_option x 2 of None \<Rightarrow> [] | Some c \<Rightarrow> [(c, ''else'')])"
  obtain t k' where u: "unify (x_name x) ?bs (expect x 0 [TBoolean] k) = (t, k')" by fastforce
  have "\<forall>(c, l)\<in>set ?bs. placed n c" using a p by (auto simp: arg_option_def split: if_splits)
  with unify_within [OF u expect_within [OF w p]] have "in_text n k'" by simp
  then show "in_text n (snd (lower_if x k))" using u by (simp add: lower_if_def Let_def)
qed

lemma lower_switch_within: "lowers_within 3 n lower_switch"
  unfolding lowers_within_def
proof (intro allI impI)
  fix x :: call_context and k assume w: "in_text n k" and a: "3 \<le> length (x_args x)" and p: "\<forall>c\<in>set (x_args x). placed n c"
  obtain s cs where x: "x_args x = s # cs" using a by (cases "x_args x") auto
  obtain ps d where sp: "switch_pairs cs = (ps, d)" by fastforce
  have set: "fst ` set ps \<union> snd ` set ps \<union> set (opt_list d) \<subseteq> set cs"
    using sp by (induction cs arbitrary: ps d rule: switch_pairs.induct) (fastforce split: prod.splits)+
  let ?bs = "result_branches 0 ps @ (case d of None \<Rightarrow> [] | Some c \<Rightarrow> [(c, ''default'')])"
  obtain t k' where u: "unify (x_name x) ?bs (check_patterns (argument_of x 0) 0 ps k) = (t, k')" by fastforce
  have "in_text n (check_patterns (argument_of x 0) 0 ps k)"
    using w p x set by (intro check_patterns_within) force+
  moreover have "fst ` set ?bs \<subseteq> set cs"
    using set by (cases d) (auto simp: image_Un result_branches_set)
  then have "\<forall>(c, l)\<in>set ?bs. placed n c" using p x by force
  ultimately have "in_text n k'" using unify_within [OF u] by blast
  then show "in_text n (snd (lower_switch x k))" using u x sp by (simp add: lower_switch_def Let_def)
qed

lemma lower_date_within:
  "lowers_within 3 n lower_date_add" "lowers_within 2 n lower_date_diff" "lowers_within 1 n lower_date_format"
  by (auto simp: lowers_within_def lower_date_add_def lower_date_diff_def lower_date_format_def Let_def
      intro: expect_within unit_at_within [OF _ expect_within [OF expect_within]] split: prod.splits)

lemma lowers_within_constant [simp]: "lowers_within least n (\<lambda>x k. (r x, k))"
  by (simp add: lowers_within_def)

definition function_within :: "nat \<Rightarrow> formula_function \<Rightarrow> bool" where
  "function_within n f = lowers_within (fn_min f) n (fn_lower f)"

lemma function_within_simps [simp]:
  "function_within n (make_function nm ct sg desc least most rt lower) = lowers_within least n lower"
  "function_within n (simple nm ct sg desc oper types ret least)"
  "function_within n (variadic nm ct sg desc oper types' ret)"
  "function_within n (date_part nm dop desc)"
  by (simp_all add: function_within_def make_function_def simple_def variadic_def date_part_def lowers_within_def
      expect_from_within expect_within)

lemma all_functions_within: "\<forall>f\<in>set formula_functions. function_within n f"
  by (simp add: formula_functions_def text_functions_def logical_functions_def numeric_functions_def
      date_functions_def record_functions_def lower_if_within lower_switch_within
      lower_date_within lower_date_within(3) [unfolded One_nat_def])


section \<open>The checker's methods\<close>

lemma staysI:
  assumes "\<And>k. in_text n k \<Longrightarrow> in_text n (snd (f k))" "\<And>k. in_text n k \<Longrightarrow> c_syntax (fst (f k)) = nd"
    "span_in n (node_start nd) (node_end nd)"
  shows "stays n f"
  using assms by (simp add: stays_def placed_def)

lemma run_checks_within:
  "\<forall>f\<in>set fs. stays n f \<Longrightarrow> in_text n k \<Longrightarrow> run_checks fs k = (cs, k') \<Longrightarrow>
   in_text n k' \<and> (\<forall>c\<in>set cs. placed n c)"
proof (induction fs arbitrary: k cs k')
  case (Cons f fs)
  obtain c k1 where c: "f k = (c, k1)" by fastforce
  obtain cs1 where cs: "run_checks fs k1 = (cs1, k')" "cs = c # cs1"
    using Cons.prems c by (auto split: prod.splits)
  have "stays n f" using Cons.prems(1) by simp
  from staysD [OF this Cons.prems(2) c] have "in_text n k1 \<and> placed n c" .
  with Cons.IH [OF _ _ cs(1)] Cons.prems(1) show ?case by (auto simp: cs(2))
qed simp

lemma bind_field_within:
  "span_in n (node_start nd) (node_end nd) \<Longrightarrow> stays n (bind_field f nd)"
  by (rule staysI [where nd = nd])
     (auto simp: bind_field_def Let_def field_read_def in_text_def [of n "k_references_update f k" for f k]
       split: if_splits option.splits, auto simp: in_text_def)

lemma check_field_within:
  assumes "spans_ok n (SField name braced rel a b)"
  shows "stays n (check_field env name braced rel (SField name braced rel a b))" (is "stays n (_ ?nd)")
proof -
  have s: "span_in n (node_start ?nd) (node_end ?nd)" using assms by simp
  have b: "stays n (bind_match d fs ?nd)" for d fs
  proof -
    consider "fs = []" | f where "fs = [f]" | f g gs where "fs = f # g # gs" by (cases fs; cases "tl fs") auto
    then show ?thesis
    proof cases
      case (2 f)
      have "bind_match d fs ?nd = bind_field f ?nd" by (simp add: 2 bind_match_def fun_eq_iff)
      then show ?thesis using bind_field_within [OF s] by simp
    qed (use s in \<open>auto simp: stays_def placed_def bind_match_def invalid_def\<close>)
  qed
  show ?thesis
    using b [of "display_name rel name" "resolve (filter (in_relation rel) env) name braced"] assms
    by (cases rel) (auto simp: stays_def placed_def check_field_def Let_def invalid_def)
qed

lemma expect_operand_within:
  "in_text n k \<Longrightarrow> placed n c \<Longrightarrow> in_text n (snd (expect_operand c ts oper side hint k))"
  by (auto simp: expect_operand_def placed_def split: value_type.split)

lemma expect_operand_within':
  "expect_operand c ts oper side hint k = (ok, k') \<Longrightarrow> in_text n k \<Longrightarrow> placed n c \<Longrightarrow> in_text n k'"
  using expect_operand_within by (metis snd_conv)

lemma check_unary_within:
  assumes "spans_ok n (SUnary u operand a b)" "stays n f"
  shows "stays n (\<lambda>k. check_unary u operand (SUnary u operand a b) (f k))" (is "stays n (\<lambda>k. check_unary u operand ?nd (f k))")
proof (rule staysI [where nd = ?nd])
  fix k assume k: "in_text n k"
  obtain c k1 where f: "f k = (c, k1)" by fastforce
  from assms(2) k f have "in_text n k1 \<and> placed n c" by (auto dest: staysD)
  then have "in_text n (snd (expect_operand c [TNumber] (''unary '' @ quoted (unary_symbol u)) ''operand'' [] k1))"
    by (simp add: expect_operand_within)
  then show "in_text n (snd (check_unary u operand ?nd (f k)))" "c_syntax (fst (check_unary u operand ?nd (f k))) = ?nd"
    by (auto simp: f check_unary_def Let_def split: node.split)
qed (use assms in simp)

lemma expect_orderable_within:
  "in_text n (snd r) \<Longrightarrow> placed n c \<Longrightarrow> in_text n (snd (expect_orderable b side c r))"
  by (cases r) (auto simp: expect_orderable_def placed_def)

lemma check_comparison_within:
  assumes "in_text n k" "placed n l" "placed n r" "span_in n (node_start nd) (node_end nd)"
  shows "in_text n (snd (check_comparison b nd l r k))"
proof -
  have "in_text n (snd (expect_orderable b ''right side'' r (expect_orderable b ''left side'' l (True, k))))"
    using assms by (simp add: expect_orderable_within)
  then show ?thesis using assms by (auto simp: check_comparison_def Let_def split: prod.split)
qed

lemma expect_concatenable_within:
  "in_text n k \<Longrightarrow> placed n c \<Longrightarrow> in_text n (expect_concatenable c side k)"
  by (auto simp: expect_concatenable_def placed_def)

lemma check_operator_within:
  assumes "in_text n k" "placed n l" "placed n r" "span_in n (node_start nd) (node_end nd)"
  shows "in_text n (snd (check_operator b nd l r k))"
proof (cases "b = BConcat")
  case True
  then show ?thesis using assms by (simp add: check_operator_def expect_concatenable_within)
next
  case False
  then show ?thesis
    using assms check_comparison_within [OF assms]
    by (auto simp: check_operator_def Let_def intro: expect_operand_within' split: option.split prod.split)
qed

lemma check_binary_within:
  assumes s: "spans_ok n (SBinary oper os left right a b)" and f: "stays n f" and g: "stays n g"
  shows "stays n (check_binary oper left right (SBinary oper os left right a b) f g)" (is "stays n (check_binary _ _ _ ?nd _ _)")
proof (rule staysI [where nd = ?nd])
  fix k assume k: "in_text n k"
  obtain l k1 where l: "f k = (l, k1)" by fastforce
  obtain r k2 where r: "g k1 = (r, k2)" by fastforce
  obtain q k3 where q: "g k = (q, k3)" by fastforce
  note L = staysD [OF f k l]
  note R = staysD [OF g conjunct1 [OF L] r]
  note Q = staysD [OF g k q]
  have "span_in n (node_start ?nd) (node_end ?nd)" using s by simp
  from check_operator_within [OF conjunct1 [OF R] conjunct2 [OF L] conjunct2 [OF R] this]
  show "in_text n (snd (check_binary oper left right ?nd f g k))"
    using L Q by (auto simp: check_binary_def l r q)
  show "c_syntax (fst (check_binary oper left right ?nd f g k)) = ?nd"
    using check_operator_result [of oper ?nd l r k2, OF prod.collapse [symmetric]] by (auto simp: check_binary_def l r q split: prod.split)
qed (use s in simp)

lemma check_call_within:
  assumes s: "spans_ok n (SCall name e args a b)" and fs: "\<forall>f\<in>set fs. stays n f"
  shows "stays n (check_call name e (SCall name e args a b) fs)" (is "stays n (check_call _ _ ?nd _)")
proof (rule staysI [where nd = ?nd])
  fix k assume k: "in_text n k"
  have lost: "in_text n (snd (run_checks fs k1))" if "in_text n k1" for k1
    using run_checks_within [OF fs that prod.collapse [symmetric]] by blast
  obtain cs k1 where r: "run_checks fs k = (cs, k1)" by fastforce
  note R = run_checks_within [OF fs k r]
  let ?x = "\<lparr>x_name = name, x_start = node_start ?nd, x_end = node_end ?nd, x_args = cs\<rparr>"
  have low: "in_text n (snd (fn_lower f ?x k1))" if "function_named name = Some f" "\<not> wrong_count f (length cs)" for f
    using all_functions_within [of n, THEN bspec, OF function_named_in [OF that(1)]] R that(2)
    by (simp add: function_within_def lowers_within_def wrong_count_def)
  show "in_text n (snd (check_call name e ?nd fs k))"
    using s k lost R low by (auto simp: check_call_def r split: option.split prod.split dest!: arg_cong [where f = snd])
  show "c_syntax (fst (check_call name e ?nd fs k)) = ?nd"
    by (auto simp: check_call_def invalid_def r split: option.split prod.split)
qed (use s in simp)

lemma check_within: "spans_ok n nd \<Longrightarrow> stays n (check env nd)"
proof (induction nd)
  case (SParen inner a b)
  then have "stays n (check env inner)" by simp
  with SParen.prems show ?case by (auto simp: stays_def placed_def split: prod.split)
next
  case (SField name braced rel a b)
  then show ?case using check_field_within by simp
next
  case (SUnary u operand a b)
  then show ?case using check_unary_within [of n u operand a b "check env operand"] by simp
next
  case (SBinary oper os left right a b)
  then show ?case using check_binary_within [of n oper os left right a b "check env left" "check env right"] by simp
next
  case (SCall name e args a b)
  then have "\<forall>f\<in>set (map (check env) args). stays n f" by (auto simp: list_all_iff)
  with check_call_within [OF SCall.prems this] show ?case by simp
qed (simp_all add: stays_def placed_def)

lemma report_first_cycle_within:
  "in_text n k \<Longrightarrow> \<forall>r\<in>set rs. span_in n (rf_start r) (rf_end r) \<Longrightarrow> in_text n (report_first_cycle env g i rs k)"
  by (induction env g i rs k rule: report_first_cycle.induct) (auto simp: Let_def split: option.split)

lemma report_cycle_within: "in_text n k \<Longrightarrow> in_text n (report_cycle env i k)"
  unfolding report_cycle_def
  by (rule report_first_cycle_within) (auto simp: self_reads_def in_text_def)

lemma deepest_reference_in:
  "deepest_reference env rs d best = (d', Some r) \<Longrightarrow> r \<in> set rs \<or> best = Some r"
  by (induction env rs d best rule: deepest_reference.induct) (auto split: if_splits)

lemma check_depth_within:
  assumes "in_text n k"
  shows "in_text n (snd (check_depth env opts k))"
proof -
  obtain d best where b: "deepest_reference env (k_references k) 1 None = (d, best)" by fastforce
  have "span_in n (rf_start r) (rf_end r)" if "best = Some r" for r
    using assms deepest_reference_in [OF b [unfolded that]] by (auto simp: in_text_def)
  then show ?thesis using assms unfolding check_depth_def Let_def b by (auto split: option.split)
qed

lemma check_formula_errors:
  assumes "spans_ok n syn" "d \<in> set (r_errors (check_formula syn env opts))"
  shows "span_in n (d_start d) (d_end d)"
proof -
  obtain c k1 where c: "check env syn \<lparr>k_errors = [], k_references = []\<rparr> = (c, k1)" by fastforce
  have "in_text n \<lparr>k_errors = [], k_references = []\<rparr>" by (simp add: in_text_def)
  from staysD [OF check_within [OF assms(1)] this c] have k1: "in_text n k1" by simp
  let ?k2 = "case o_field_id opts of None \<Rightarrow> k1 | Some i \<Rightarrow> report_cycle env i k1"
  have k2: "in_text n ?k2" using k1 report_cycle_within by (simp split: option.split)
  obtain dp k3 where k3: "check_depth env opts ?k2 = (dp, k3)" by fastforce
  have "in_text n k3" using check_depth_within [OF k2, of env opts] k3 by simp
  then have k4: "in_text n (if k_errors k3 = [] \<and> c_type c = Blank
      then report_at UndeterminedType ''This formula is always blank, so it has no type'' syn [] k3 else k3)"
    using spans_ok_node [OF assms(1)] by simp
  show ?thesis
    using assms(2) k4 unfolding check_formula_def c k3 Let_def prod.case
    by (auto simp: in_text_def sort_diagnostics_def split: value_type.splits if_splits)
qed

text \<open>
  Whatever is typed, each diagnostic of its analysis, from the tokenizer, the parser or the
  checker, points at a stretch of the text.
\<close>

theorem diagnostics_point_into_the_text:
  "\<forall>d \<in> set (r_errors (n_checked (analyze_text h text env opts))).
     d_start d \<le> d_end d \<and> d_end d \<le> length text"
proof (cases "parse_formula text")
  case (Inl f)
  show ?thesis
  proof (cases f)
    case (Refused d)
    have "d_start d \<le> d_end d \<and> d_end d \<le> length text"
      using refusal_in_text [OF Inl [unfolded Refused]] by simp
    then show ?thesis using Inl Refused by (simp add: analyze_text_def refused_result_def Let_def)
  qed (simp add: Inl analyze_text_def refused_result_def Let_def)
next
  case (Inr syn)
  then show ?thesis
    using check_formula_errors [OF parsed_spans_ok [OF Inr]]
    by (simp add: analyze_text_def Let_def span_in_def)
qed

definition cut_short :: "host \<Rightarrow> analysis" where
  "cut_short h = analyze_text h ''a&'' example_env \<lparr>a_check = example_options, a_sample = None\<rparr>"

lemma cut_short_refused:
  "\<exists>d. parse_formula ''a&'' = Inl (Refused d)"
  by (simp add: lex_eval parse_eval refuse_def refuse_at_def)

theorem diagnostics_witness:
  "\<forall>h. \<exists>d. r_errors (n_checked (cut_short h)) = [d] \<and> d_start d \<le> d_end d \<and> d_end d \<le> 2"
proof
  fix h
  obtain d where "parse_formula ''a&'' = Inl (Refused d)" using cut_short_refused ..
  then have "r_errors (n_checked (cut_short h)) = [d]"
    by (simp add: cut_short_def analyze_text_def refused_result_def Let_def)
  with diagnostics_point_into_the_text [of h "''a&''" example_env "\<lparr>a_check = example_options, a_sample = None\<rparr>"]
  show "\<exists>d. r_errors (n_checked (cut_short h)) = [d] \<and> d_start d \<le> d_end d \<and> d_end d \<le> 2"
    by (simp add: cut_short_def)
qed

end
