(* ===== verification/Formula_Roundtrip.thy ===== *)
theory Formula_Roundtrip
  imports Formula_Format
begin

text \<open>
  Printing and tokenizing are inverse on quoted texts and braced names, and two formulas on which the
  printer does not keep what its documentation promises.
\<close>

section \<open>Quoted text reads back\<close>

lemma scan_quoted_plain:
  "c \<noteq> CHR 0x5C \<Longrightarrow> c \<noteq> q \<Longrightarrow>
   scan_quoted q (c # s) = (case scan_quoted q s of (v, n, b) \<Rightarrow> (c # v, n + 1, b))"
  by (cases s) simp_all

lemma scan_quoted_close: "q \<noteq> CHR 0x5C \<Longrightarrow> scan_quoted q (q # s) = ([], 1, True)"
  by (cases s) simp_all

lemma scan_quoted_escaped:
  assumes q: "q = CHR 0x22 \<or> q = CHR 0x27"
  shows "scan_quoted q (concat (map (escape_char q) s) @ q # rest) =
     (s, Suc (length (concat (map (escape_char q) s))), True)"
proof (induction s)
  case Nil
  then show ?case using q scan_quoted_close [of q rest] by auto
next
  case (Cons c s)
  have q': "q \<noteq> CHR 0x5C" "q \<noteq> CHR ''n''" "q \<noteq> CHR ''t''" using q by auto
  show ?case
    using Cons q' scan_quoted_plain [of c q]
    by (auto simp: escape_char_def unescape_char_def)
qed

lemma scan_braced_plain:
  "c \<noteq> CHR 0x5C \<Longrightarrow> c \<noteq> CHR 0x7D \<Longrightarrow>
   scan_braced (c # s) = (case scan_braced s of (v, n, b) \<Rightarrow> (c # v, n + 1, b))"
  by (cases s) simp_all

lemma scan_braced_close: "scan_braced (CHR 0x7D # s) = ([], 1, True)"
  by (cases s) simp_all

lemma scan_braced_escaped:
  "scan_braced (concat (map brace_char s) @ CHR 0x7D # rest) =
     (s, Suc (length (concat (map brace_char s))), True)"
proof (induction s)
  case Nil
  then show ?case by (simp add: scan_braced_close)
next
  case (Cons c s)
  then show ?case
    using scan_braced_plain [of c]
    by (auto simp: brace_char_def brace_escape_def)
qed

definition token_list :: "token_type \<Rightarrow> string \<Rightarrow> string \<Rightarrow> token list" where
  "token_list k v s =
     [\<lparr>t_type = k, t_text = s, t_value = TextValue v, t_start = 0, t_end = length s, t_unterminated = False\<rparr>,
      \<lparr>t_type = KEof, t_text = [], t_value = NoValue, t_start = length s, t_end = length s,
       t_unterminated = False\<rparr>]"

lemma next_token_quoted:
  assumes q: "q = CHR 0x22 \<or> q = CHR 0x27"
  shows "next_token i (quote_text q s @ rest) =
     (Some \<lparr>t_type = KString, t_text = quote_text q s, t_value = TextValue s, t_start = i,
            t_end = i + length (quote_text q s), t_unterminated = False\<rparr>, length (quote_text q s))"
proof -
  have "\<not> is_space q" "q \<noteq> CHR 0x7B" using q by (auto simp: is_space_def code_def)
  then show ?thesis
    using q scan_quoted_escaped [OF q, of s rest]
    by (auto simp: next_token_def quote_text_def make_token_def)
qed

lemma next_token_braced:
  "next_token i (brace_field_name s @ rest) =
     (Some \<lparr>t_type = KField, t_text = brace_field_name s, t_value = TextValue s, t_start = i,
            t_end = i + length (brace_field_name s), t_unterminated = False\<rparr>, length (brace_field_name s))"
proof -
  have "\<not> is_space CHR 0x7B" by (simp add: is_space_def code_def)
  then show ?thesis
    using scan_braced_escaped [of s rest]
    by (auto simp: next_token_def brace_field_name_def make_token_def)
qed

lemma tokenize_one:
  assumes "next_token 0 s = (Some t, length s)" "s \<noteq> []" "t_type t = k" "t_value t = TextValue v"
    "t_text t = s" "t_start t = 0" "t_end t = length s" "\<not> t_unterminated t"
  shows "tokenize s = token_list k v s"
  using assms by (cases s; cases t) (simp_all add: tokenize_def token_list_def)

text \<open>
  C12. Quoting and the tokenizer are inverse: a text in either quotes, whatever it contains, is one
  string token with that text as its value, and a braced name one field token with that name.
\<close>

theorem quoted_texts_read_back:
  "tokenize (quote_text CHR 0x22 s) = token_list KString s (quote_text CHR 0x22 s) \<and>
   tokenize (quote_text CHR 0x27 s) = token_list KString s (quote_text CHR 0x27 s) \<and>
   tokenize (brace_field_name s) = token_list KField s (brace_field_name s)"
  using next_token_quoted [of "CHR 0x22" 0 s "[]"] next_token_quoted [of "CHR 0x27" 0 s "[]"]
    next_token_braced [of 0 s "[]"]
  by (auto intro!: tokenize_one simp: quote_text_def brace_field_name_def)

section \<open>Where printing and parsing part\<close>

lemma scan_1e309: "scan_number ''1e309'' = Some (''1e309'', 10 ^ 309, [])" by code_simp

lemma number_1e309: "text_to_number ''1e309'' = JPosInf"
proof -
  have "(2::int) ^ 1024 \<le> 10 ^ 309" by simp
  from round_double_large [OF this] have "round_double (10 ^ 309) = JPosInf" by simp
  then show ?thesis
    unfolding text_to_number_def unsigned_number_def scan_1e309
    by (simp add: js_trim_def is_space_def code_def scan_1e309)
qed
lemma parse_negated_plus:
  "parse_formula ''-+5'' =
     Inr (SUnary UMinus (SUnary UPlus (SNumber (JFin 5) 2 3) 1 3) 0 3)"
proof -
  have "all_digits ''5''" by code_simp
  then have "text_to_number ''5'' = JFin 5"
    using text_to_number_small_digits [of "''5''"] by (simp add: digits_value_def code_def)
  then show ?thesis
    by (simp add: lex_eval parse_eval scan_number_def scan_mantissa_def scan_exponent_def value_number_def)
qed

lemma parse_negated:
  "parse_formula ''-5'' = Inr (SUnary UMinus (SNumber (JFin 5) 1 2) 0 2)"
proof -
  have "all_digits ''5''" by code_simp
  then have "text_to_number ''5'' = JFin 5"
    using text_to_number_small_digits [of "''5''"] by (simp add: digits_value_def code_def)
  then show ?thesis
    by (simp add: lex_eval parse_eval scan_number_def scan_mantissa_def scan_exponent_def value_number_def)
qed



lemma parse_1e309: "parse_formula ''1e309'' = Inr (SNumber JPosInf 0 5)"
proof -
  have "next_token 0 ''1e309'' = (Some \<lparr>t_type = KNumber, t_text = ''1e309'', t_value = NumValue JPosInf,
          t_start = 0, t_end = 5, t_unterminated = False\<rparr>, 5)"
    unfolding next_token_def by (simp add: lex_eval scan_1e309 number_1e309)
  then have "tokenize ''1e309'' = [\<lparr>t_type = KNumber, t_text = ''1e309'', t_value = NumValue JPosInf,
          t_start = 0, t_end = 5, t_unterminated = False\<rparr>,
       \<lparr>t_type = KEof, t_text = [], t_value = NoValue, t_start = 5, t_end = 5, t_unterminated = False\<rparr>]"
    by (simp add: tokenize_def)
  then show ?thesis by (simp add: lex_eval parse_eval value_number_def)
qed

definition plain_options :: check_options where
  "plain_options = \<lparr>o_field_id = None, o_formula_depth = None\<rparr>"

text \<open>
  \<open>-+5\<close> is accepted as the negation of 5, which prints as \<open>-5\<close>, which reads as the number \<open>-5\<close>:
  the printed text does not parse back to the tree.
\<close>

theorem negated_plus_loses_a_node:
  "\<exists>x y e. parse_formula ''-+5'' = Inr x \<and> r_ast (check_formula x [] plain_options) = Some e \<and>
     format_formula h e [] = Inr ''-5'' \<and> parse_formula ''-5'' = Inr y \<and>
     r_ast (check_formula y [] plain_options) = Some (ELit (VNum (JFin (- 5)))) \<and>
     e = EFormula FNegate [ELit (VNum (JFin 5))]"
proof -
  have n: "number_text (JFin 5) = ''5''" by code_simp
  have "r_ast (check_formula (SUnary UMinus (SUnary UPlus (SNumber (JFin 5) 2 3) 1 3) 0 3) [] plain_options) =
      Some (EFormula FNegate [ELit (VNum (JFin 5))])"
    "r_ast (check_formula (SUnary UMinus (SNumber (JFin 5) 1 2) 0 2) [] plain_options) =
      Some (ELit (VNum (JFin (- 5))))"
    by code_simp+
  moreover have "format_formula h (EFormula FNegate [ELit (VNum (JFin 5))]) [] = Inr ''-5''"
    by (simp add: format_formula_def print_formula_op_def print_negate_def print_literal_def print_number_def
        infix_formula_def js_lt_def n primary_text_def parenthesize_def less_precedence_def del: number_text.simps)
  ultimately show ?thesis using parse_negated_plus parse_negated by blast
qed

text \<open>
  \<open>1e309\<close> is accepted as the number Infinity, which the printer then refuses.
\<close>

theorem accepted_infinity_is_not_printed:
  "parse_formula ''1e309'' = Inr (SNumber JPosInf 0 5) \<and>
   r_ast (check_formula (SNumber JPosInf 0 5) [] plain_options) = Some (ELit (VNum JPosInf)) \<and>
   (\<exists>why. format_formula h (ELit (VNum JPosInf)) [] = Inl (FormatError why))"
proof -
  have "r_ast (check_formula (SNumber JPosInf 0 5) [] plain_options) = Some (ELit (VNum JPosInf))"
    by code_simp
  then show ?thesis
    using parse_1e309 by (simp add: format_formula_def print_literal_def)
qed

end
