(* ===== verification/Formula_Editing.thy ===== *)
theory Formula_Editing
  imports Formula_Editor Formula_Spans Formula_Roundtrip
begin

text \<open>
  What the editor support promises: the stretch a suggestion replaces, what is suggested, and that a
  suggested field means that field.
\<close>

section \<open>The stretch a suggestion replaces\<close>

lemma tokenize_spans: "t \<in> set (tokenize s) \<Longrightarrow> t_start t \<le> t_end t \<and> t_end t \<le> length s"
  using tokens_of_spans [OF tokenize_tokens_of [of s]] by fastforce

lemma visible_spans: "t \<in> set (visible_tokens s) \<Longrightarrow> t_start t \<le> t_end t \<and> t_end t \<le> length s"
  by (auto simp: visible_tokens_def dest: tokenize_spans)

lemma from_last_in: "from_last xs k = Some x \<Longrightarrow> 0 < k \<Longrightarrow> x \<in> set xs"
  by (auto simp: from_last_def split: if_splits)

lemma end_of_token_at_bounds:
  assumes "start \<le> cursor" "cursor \<le> length text"
  shows "start \<le> end_of_token_at (tokenize text) start cursor \<and>
         end_of_token_at (tokenize text) start cursor \<le> length text"
proof (cases "find_first (\<lambda>t. t_start t = start) (tokenize text)")
  case (Some t)
  from find_first_Some [OF this] tokenize_spans [of t "text"] show ?thesis
    by (auto simp: end_of_token_at_def Some)
qed (use assms in \<open>simp add: end_of_token_at_def\<close>)

fun completion_span :: "completion \<Rightarrow> (nat \<times> nat) option" where
  "completion_span NoCompletion = None"
| "completion_span (BraceMode _ a b) = Some (a, b)"
| "completion_span (IdentifierMode _ a b) = Some (a, b)"
| "completion_span (MemberMode _ _ a b) = Some (a, b)"

lemma completion_span_bounds:
  assumes "cursor \<le> length text"
  shows "case completion_span (completion_mode text cursor) of
           None \<Rightarrow> True | Some (a, b) \<Rightarrow> a \<le> cursor \<and> a \<le> b \<and> b \<le> length text"
proof (cases "from_last (visible_tokens (take cursor text)) 1")
  case None
  then show ?thesis using assms by (simp add: completion_mode_def Let_def)
next
  case (Some l)
  from visible_spans [OF from_last_in [OF Some]] have l: "t_start l \<le> t_end l" "t_end l \<le> cursor"
    using assms by auto
  then have e: "t_start l \<le> end_of_token_at (tokenize text) (t_start l) cursor"
    "end_of_token_at (tokenize text) (t_start l) cursor \<le> length text"
    using end_of_token_at_bounds [of "t_start l" cursor "text"] assms by auto
  show ?thesis
    using Some l e assms
    by (auto simp: completion_mode_def Let_def split: option.split)
qed

definition suggest_span :: "int \<Rightarrow> completion \<Rightarrow> int \<times> int" where
  "suggest_span cursor m =
     (case completion_span m of None \<Rightarrow> (cursor, cursor) | Some (a, b) \<Rightarrow> (int a, int b))"

lemma suggest_span:
  "(g_from (suggest text cursor env opts), g_to (suggest text cursor env opts)) =
   suggest_span cursor (completion_mode text (nat (max 0 (min cursor (int (length text))))))"
  by (auto simp: suggest_def suggest_span_def Let_def split: completion.split)

lemma slice_list_nat:
  "0 \<le> a \<Longrightarrow> a \<le> int (length xs) \<Longrightarrow> slice_list 0 a xs = take (nat a) xs"
  "0 \<le> a \<Longrightarrow> a \<le> int (length xs) \<Longrightarrow> slice_list a (int (length xs)) xs = drop (nat a) xs"
  by (auto simp: slice_list_def slice_bound_def js_slice_def min_def)

text \<open>
  Picking a suggestion replaces a stretch of the text that starts at or before the caret, leaves
  what is before and after it untouched, and puts the caret behind the inserted value.
\<close>

theorem suggestion_replaces_a_stretch:
  assumes "0 \<le> cursor" "cursor \<le> int (length text)"
  shows "\<exists>a b. a \<le> nat cursor \<and> a \<le> b \<and> b \<le> length text \<and>
     apply_suggestion text (suggest text cursor env opts) item =
       (take a text @ s_value item @ drop b text, int a + int (length (s_value item)))"
proof -
  let ?c = "nat cursor" and ?m = "completion_mode text (nat cursor)"
  have c: "nat (max 0 (min cursor (int (length text)))) = ?c" using assms by simp
  let ?s = "suggest text cursor env opts"
  have "\<exists>a b. g_from ?s = int a \<and> g_to ?s = int b \<and> a \<le> ?c \<and> a \<le> b \<and> b \<le> length text"
  proof (cases "completion_span ?m")
    case None
    with suggest_span [of "text" cursor env opts] have "g_from ?s = int ?c" "g_to ?s = int ?c"
      using assms by (auto simp: suggest_span_def c)
    then show ?thesis using assms by (intro exI [of _ ?c]) auto
  next
    case (Some ab)
    obtain a b where ab: "ab = (a, b)" by (cases ab)
    have "?c \<le> length text" using assms by simp
    from completion_span_bounds [OF this] Some ab have "a \<le> ?c" "a \<le> b" "b \<le> length text" by auto
    moreover from suggest_span [of "text" cursor env opts] Some ab have "g_from ?s = int a" "g_to ?s = int b"
      by (auto simp: suggest_span_def c)
    ultimately show ?thesis by blast
  qed
  then obtain a b where ab: "g_from ?s = int a" "g_to ?s = int b" "a \<le> ?c" "a \<le> b" "b \<le> length text" by blast
  then have "a \<le> length text" by simp
  with ab have "apply_suggestion text ?s item =
      (take a text @ s_value item @ drop b text, int a + int (length (s_value item)))"
    by (simp add: apply_suggestion_def slice_list_nat)
  with ab(3-5) show ?thesis by blast
qed

section \<open>What is suggested\<close>

definition suggestable :: "environment \<Rightarrow> string option \<Rightarrow> suggestion \<Rightarrow> bool" where
  "suggestable env self item =
     ((\<exists>f m. f \<in> set env \<and> usable_field self f \<and> item = field_suggestion f m) \<or>
      (\<exists>f. f \<in> set formula_functions \<and> \<not> List.member time_functions (fn_name f) \<and> item = function_suggestion f))"

lemma ranked_fields_suggestable:
  "set fs \<subseteq> set (filter (usable_field self) env) \<Longrightarrow> x \<in> set (ranked_fields bare m typed fs) \<Longrightarrow>
   suggestable env self (snd (snd x))"
  by (auto simp: ranked_fields_def suggestable_def split: option.splits) blast

lemma ranked_functions_suggestable:
  "x \<in> set (ranked_functions typed) \<Longrightarrow> suggestable env self (snd (snd x))"
  by (auto simp: ranked_functions_def suggestable_def split: option.splits if_splits)

lemma set_slice_list: "set (slice_list a b xs) \<subseteq> set xs"
  by (auto simp: slice_list_def js_slice_def dest: in_set_takeD in_set_dropD)

lemma take_items_in: "x \<in> set (take_items limit rs) \<Longrightarrow> \<exists>r\<in>set rs. x = snd (snd r)"
  using set_slice_list by (fastforce simp: take_items_def sort_ranked_def)

lemma length_take_items: "length (take_items (Some (int n)) rs) \<le> n" "length (take_items None rs) \<le> 50"
  by (simp_all add: take_items_def slice_list_def slice_bound_def)

lemma suggest_items:
  "g_items (suggest text cursor env opts) = [] \<or>
   (\<exists>rs. g_items (suggest text cursor env opts) = take_items (so_limit opts) rs \<and>
      (\<forall>x\<in>set rs. suggestable env (so_field_id opts) (snd (snd x))))"
proof -
  let ?u = "filter (usable_field (so_field_id opts)) env"
  have "\<forall>x\<in>set (ranked_fields b m ty ?u). suggestable env (so_field_id opts) (snd (snd x))" for b m ty
    using ranked_fields_suggestable by blast
  moreover have "\<forall>x\<in>set (ranked_fields b m ty (filter (in_child r) ?u)). suggestable env (so_field_id opts) (snd (snd x))"
    for b m ty r by (intro ballI ranked_fields_suggestable) auto
  moreover have "\<forall>x\<in>set (ranked_functions ty). suggestable env (so_field_id opts) (snd (snd x))" for ty
    using ranked_functions_suggestable by blast
  ultimately show ?thesis
    by (cases "completion_mode text (nat (max 0 (min cursor (int (length text)))))")
       (simp_all add: suggest_def Let_def, blast, metis (no_types, lifting) Un_iff set_append, blast)
qed

text \<open>
  Only what a formula may read or call is suggested: fields with a formula type, not classified,
  in reach and not the field being defined, and functions that do not depend on the time; at most 50
  of them when no limit is given.
\<close>

theorem suggestions_are_allowed:
  "(\<forall>item \<in> set (g_items (suggest text cursor env opts)). suggestable env (so_field_id opts) item) \<and>
   length (g_items (suggest text cursor env \<lparr>so_field_id = self, so_limit = None\<rparr>)) \<le> 50"
proof -
  have "suggestable env (so_field_id opts) item" if "item \<in> set (g_items (suggest text cursor env opts))" for item
    using suggest_items [of "text" cursor env opts] that by (fastforce dest: take_items_in)
  moreover have "length (g_items (suggest text cursor env \<lparr>so_field_id = self, so_limit = None\<rparr>)) \<le> 50"
    using suggest_items [of "text" cursor env "\<lparr>so_field_id = self, so_limit = None\<rparr>"]
    by (auto simp: length_take_items)
  ultimately show ?thesis by blast
qed

section \<open>A suggested field means that field\<close>

lemma parse_braced_field:
  assumes "js_trim s \<noteq> []" "length (brace_field_name s) \<le> 10000"
  shows "parse_formula (brace_field_name s) = Inr (SField s True None 0 (length (brace_field_name s)))"
proof -
  have "tokenize (brace_field_name s) = token_list KField s (brace_field_name s)"
    by (rule tokenize_one [OF next_token_braced [where rest = "[]" and i = 0, simplified]])
       (simp_all add: brace_field_name_def)
  then show ?thesis
    using assms by (simp add: parse_eval token_list_def Let_def)
qed

lemma resolve_unique_label:
  assumes "f \<in> set fs" "distinct fs" "\<forall>g\<in>set fs. f_label g = f_label f \<longrightarrow> g = f"
  shows "resolve fs (f_label f) True = [f]"
proof -
  have "filter (by_label (f_label f)) fs = [f]"
    using assms by (induction fs) (auto simp: by_label_def filter_empty_conv)
  then show ?thesis by (simp add: resolve_def)
qed

definition only_label :: "environment \<Rightarrow> field \<Rightarrow> bool" where
  "only_label env f =
     (f \<in> set env \<and> f_scope f = Self \<and> distinct env \<and>
      (\<forall>g\<in>set env. f_scope g = Self \<and> f_label g = f_label f \<longrightarrow> g = f))"

text \<open>
  A picked field means that field: the value suggested for an own field with a label of its own
  parses as one field name, which the checker binds to this field and to no other.
\<close>

theorem suggested_field_binds:
  assumes "usable_field self f" "only_label env f" "js_trim (f_label f) \<noteq> []"
    "length (s_value (field_suggestion f m)) \<le> 10000"
  shows "\<exists>syn t. parse_formula (s_value (field_suggestion f m)) = Inr syn \<and>
     formula_type_of (f_type f) = Some t \<and>
     check env syn k = (\<lparr>c_type = Typed t, c_ast = EPath (f_id f) False None, c_syntax = syn\<rparr>,
                        k\<lparr>k_references := k_references k @ [field_read f syn]\<rparr>)"
proof -
  let ?v = "brace_field_name (f_label f)"
  let ?syn = "SField (f_label f) True None 0 (length ?v)"
  have self: "f_scope f = Self" using assms(2) by (simp add: only_label_def)
  obtain t where t: "formula_type_of (f_type f) = Some t" "\<not> f_classified f" "out_of_reach f = None"
    using assms(1) by (auto simp: usable_field_def)
  have v: "s_value (field_suggestion f m) = ?v" by (simp add: field_suggestion_def self)
  have "resolve (filter (in_relation None) env) (f_label f) True = [f]"
    using assms(2) by (intro resolve_unique_label) (auto simp: only_label_def in_relation_def)
  then have "check env ?syn k = bind_field f ?syn k"
    by (simp add: check_field_def Let_def bind_match_def)
  also have "\<dots> = (\<lparr>c_type = Typed t, c_ast = EPath (f_id f) False None, c_syntax = ?syn\<rparr>,
      k\<lparr>k_references := k_references k @ [field_read f ?syn]\<rparr>)"
    using t by (simp add: bind_field_def Let_def field_path_def path_of_def self)
  finally show ?thesis
    using parse_braced_field [OF assms(3)] assms(4) t(1) by (simp add: v)
qed


theorem suggestion_stretch_witness:
  "\<exists>a b. a \<le> 3 \<and> a \<le> b \<and> b \<le> length ''{To'' \<and>
     apply_suggestion ''{To'' (suggest ''{To'' 3 example_env \<lparr>so_field_id = None, so_limit = None\<rparr>)
         (field_suggestion (example_env ! 1) False) =
       (take a ''{To'' @ ''{Total}'' @ drop b ''{To'', int a + 7)"
proof -
  have "s_value (field_suggestion (example_env ! 1) False) = ''{Total}''" by code_simp
  with suggestion_replaces_a_stretch [of 3 "''{To''" example_env "\<lparr>so_field_id = None, so_limit = None\<rparr>"
      "field_suggestion (example_env ! 1) False"]
  show ?thesis by simp
qed
lemma total_suggested:
  "field_suggestion (example_env ! 1) False \<in>
     set (g_items (suggest ''{To'' 3 example_env \<lparr>so_field_id = None, so_limit = None\<rparr>))"
  by code_simp
theorem suggestions_witness:
  "suggestable example_env None (field_suggestion (example_env ! 1) False)"
  using suggestions_are_allowed [of "''{To''" 3 example_env "\<lparr>so_field_id = None, so_limit = None\<rparr>"] total_suggested
  by simp

theorem suggested_field_binds_witness:
  "\<exists>syn. parse_formula ''{Total}'' = Inr syn \<and> c_type (fst (check example_env syn \<lparr>k_errors = [], k_references = []\<rparr>)) = Typed TNumber"
proof -
  let ?f = "example_env ! 1"
  have "usable_field None ?f" "only_label example_env ?f" "js_trim (f_label ?f) \<noteq> []"
    "length (s_value (field_suggestion ?f False)) \<le> 10000" "s_value (field_suggestion ?f False) = ''{Total}''"
    "formula_type_of (f_type ?f) = Some TNumber"
    by code_simp+
  with suggested_field_binds [of None ?f example_env False "\<lparr>k_errors = [], k_references = []\<rparr>"]
  show ?thesis by auto
qed

text \<open>
  Picking inside an open brace: the token the caret is in reaches to the next closing brace, so what
  was typed between is replaced too.
\<close>

theorem picking_in_an_open_brace_drops_text:
  "s_value (hd (g_items (suggest ''{To + {Net amount}'' 3 example_env \<lparr>so_field_id = None, so_limit = None\<rparr>))) =
     ''{Total}'' \<and>
   apply_suggestion ''{To + {Net amount}''
     (suggest ''{To + {Net amount}'' 3 example_env \<lparr>so_field_id = None, so_limit = None\<rparr>)
     (field_suggestion (example_env ! 1) False) = (''{Total}'', 7)"
  by code_simp

end
