(* ===== verification/State_Machines.thy ===== *)
theory State_Machines
  imports OSF_Prelude
begin

text \<open>
  Reachability of a step relation, and the interface every stateful component implements: an
  invariant that holds at the start and that every step keeps.
\<close>

inductive reachable :: "'s \<Rightarrow> ('s \<Rightarrow> 's \<Rightarrow> bool) \<Rightarrow> 's \<Rightarrow> bool" for s0 step where
  reachable_start: "reachable s0 step s0"
| reachable_step: "reachable s0 step s \<Longrightarrow> step s t \<Longrightarrow> reachable s0 step t"

locale kept_invariant =
  fixes s0 :: 's and step :: "'s \<Rightarrow> 's \<Rightarrow> bool" and inv :: "'s \<Rightarrow> bool"
  assumes starts: "inv s0" and keeps: "\<And>s t. inv s \<Longrightarrow> step s t \<Longrightarrow> inv t"
begin

lemma holds: "reachable s0 step s \<Longrightarrow> inv s"
  by (induction rule: reachable.induct) (auto intro: starts keeps)

lemma holds_after: "reachable s0 step s \<Longrightarrow> step s t \<Longrightarrow> inv t"
  by (blast intro: holds keeps)

end

end
