(* ===== verification/Connector_Limiter.thy ===== *)
theory Connector_Limiter
  imports State_Machines
begin

text \<open>
  The per-tenant concurrency limiter of a connector operation (\<open>connectors/reliability.ts\<close>, class
  \<open>ConcurrencyLimiter\<close>) as a state machine.  A call is a number; it names the waiter and the release
  function made for it, and the queue array it had to make.  Queues are kept in a store of their own,
  since a waiter keeps the array it was put in; an abort signal is a number with its listeners in
  order.
\<close>

section \<open>State\<close>

datatype waiter_state = Queued | Granted | Accepted | Cancelled

record waiter =
  w_key :: string
  w_state :: waiter_state
  w_signal :: "nat option"
  w_queue :: nat

record limiter =
  in_flight :: "string \<Rightarrow> nat option"
  waiting :: "string \<Rightarrow> nat option"
  queues :: "nat \<Rightarrow> nat list"
  waiters :: "nat \<Rightarrow> waiter option"
  releases :: "nat \<Rightarrow> (string \<times> bool) option"
  listeners :: "nat \<Rightarrow> nat list"
  aborted :: "nat \<Rightarrow> bool"

definition empty_limiter :: limiter where
  "empty_limiter =
     \<lparr>in_flight = \<lambda>_. None, waiting = \<lambda>_. None, queues = \<lambda>_. [], waiters = \<lambda>_. None,
      releases = \<lambda>_. None, listeners = \<lambda>_. [], aborted = \<lambda>_. False\<rparr>"

definition active :: "string \<Rightarrow> limiter \<Rightarrow> nat" where
  "active key L = (case in_flight L key of None \<Rightarrow> 0 | Some n \<Rightarrow> n)"

definition signal_aborted :: "nat option \<Rightarrow> limiter \<Rightarrow> bool" where
  "signal_aborted sig L = (case sig of None \<Rightarrow> False | Some s \<Rightarrow> aborted L s)"

section \<open>Releasing a slot\<close>

definition release_once :: "nat \<Rightarrow> string \<Rightarrow> limiter \<Rightarrow> limiter" where
  "release_once c key L = L\<lparr>releases := (releases L)(c := Some (key, False))\<rparr>"

definition set_waiter :: "nat \<Rightarrow> waiter \<Rightarrow> limiter \<Rightarrow> limiter" where
  "set_waiter c w L = L\<lparr>waiters := (waiters L)(c := Some w)\<rparr>"

definition unlisten :: "nat \<Rightarrow> waiter \<Rightarrow> limiter \<Rightarrow> limiter" where
  "unlisten c w L =
     (case w_signal w of
        None \<Rightarrow> L
      | Some s \<Rightarrow> L\<lparr>listeners := (listeners L)(s := remove1 c (listeners L s))\<rparr>)"

definition forget_queue :: "string \<Rightarrow> limiter \<Rightarrow> limiter" where
  "forget_queue key L = L\<lparr>waiting := (waiting L)(key := None)\<rparr>"

fun hand_over :: "string \<Rightarrow> nat \<Rightarrow> nat list \<Rightarrow> limiter \<Rightarrow> bool \<times> limiter" where
  "hand_over key q [] L = (False, L)"
| "hand_over key q (c # cs) L =
     (let L1 = L\<lparr>queues := (queues L)(q := cs)\<rparr>
      in case waiters L1 c of
           None \<Rightarrow> hand_over key q cs L1
         | Some w \<Rightarrow>
             (if w_state w = Queued \<and> \<not> signal_aborted (w_signal w) L1
              then (True,
                    (if cs = [] then forget_queue key else id)
                      (release_once c key (set_waiter c (w\<lparr>w_state := Granted\<rparr>) L1)))
              else if w_state w = Queued
              then hand_over key q cs (unlisten c w (set_waiter c (w\<lparr>w_state := Cancelled\<rparr>) L1))
              else hand_over key q cs L1))"

definition give_back :: "string \<Rightarrow> limiter \<Rightarrow> limiter" where
  "give_back key L =
     (let current = (case in_flight L key of None \<Rightarrow> 1 | Some n \<Rightarrow> n)
      in L\<lparr>in_flight := (in_flight L)(key := if current \<le> 1 then None else Some (current - 1))\<rparr>)"

definition release_slot :: "string \<Rightarrow> limiter \<Rightarrow> limiter" where
  "release_slot key L =
     (case waiting L key of
        None \<Rightarrow> give_back key L
      | Some q \<Rightarrow>
          (case hand_over key q (queues L q) L of
             (True, L') \<Rightarrow> L'
           | (False, L') \<Rightarrow> give_back key (forget_queue key L')))"

definition release :: "nat \<Rightarrow> limiter \<Rightarrow> limiter" where
  "release c L =
     (case releases L c of
        None \<Rightarrow> L
      | Some (key, True) \<Rightarrow> L
      | Some (key, False) \<Rightarrow> release_slot key (L\<lparr>releases := (releases L)(c := Some (key, True))\<rparr>))"

section \<open>Aborting\<close>

definition on_abort :: "nat \<Rightarrow> limiter \<Rightarrow> limiter" where
  "on_abort c L =
     (case waiters L c of
        None \<Rightarrow> L
      | Some w \<Rightarrow>
          (case w_state w of
             Queued \<Rightarrow>
               (let q = w_queue w; rest = remove1 c (queues L q);
                    L1 = set_waiter c (w\<lparr>w_state := Cancelled\<rparr>) (L\<lparr>queues := (queues L)(q := rest)\<rparr>)
                in if rest = [] then forget_queue (w_key w) L1 else L1)
           | Granted \<Rightarrow> release c (set_waiter c (w\<lparr>w_state := Cancelled\<rparr>) L)
           | _ \<Rightarrow> L))"

definition fire :: "nat \<Rightarrow> nat \<Rightarrow> limiter \<Rightarrow> limiter" where
  "fire s c L =
     (if c \<in> set (listeners L s)
      then on_abort c (L\<lparr>listeners := (listeners L)(s := remove1 c (listeners L s))\<rparr>)
      else L)"

definition abort :: "nat \<Rightarrow> limiter \<Rightarrow> limiter" where
  "abort s L =
     (if aborted L s then L
      else fold (fire s) (listeners L s) (L\<lparr>aborted := (aborted L)(s := True)\<rparr>))"

section \<open>Acquiring\<close>

datatype acquisition = Refused | Immediate | Pending

definition acquire :: "nat \<Rightarrow> string \<Rightarrow> nat \<Rightarrow> nat option \<Rightarrow> limiter \<Rightarrow> acquisition \<times> limiter" where
  "acquire c key limit sig L =
     (if signal_aborted sig L then (Refused, L)
      else if active key L < limit
      then (Immediate, release_once c key (L\<lparr>in_flight := (in_flight L)(key := Some (active key L + 1))\<rparr>))
      else let q = (case waiting L key of Some q \<Rightarrow> q | None \<Rightarrow> c);
               queue = (case waiting L key of Some q \<Rightarrow> queues L q | None \<Rightarrow> []);
               w = \<lparr>w_key = key, w_state = Queued, w_signal = sig, w_queue = q\<rparr>;
               L1 = set_waiter c w (L\<lparr>queues := (queues L)(q := queue @ [c]),
                                      waiting := (waiting L)(key := Some q)\<rparr>)
           in (Pending, case sig of None \<Rightarrow> L1
                        | Some s \<Rightarrow> L1\<lparr>listeners := (listeners L1)(s := listeners L1 s @ [c])\<rparr>))"

definition settled :: "nat \<Rightarrow> limiter \<Rightarrow> bool" where
  "settled c L =
     (case waiters L c of None \<Rightarrow> False | Some w \<Rightarrow> w_state w = Granted \<or> w_state w = Cancelled)"

definition resume :: "nat \<Rightarrow> limiter \<Rightarrow> bool \<times> limiter" where
  "resume c L =
     (case waiters L c of
        None \<Rightarrow> (False, L)
      | Some w \<Rightarrow>
          (if signal_aborted (w_signal w) L
           then (False, if w_state w = Granted
                        then release c (set_waiter c (w\<lparr>w_state := Cancelled\<rparr>) L) else L)
           else if w_state w = Granted
           then (True, unlisten c w (set_waiter c (w\<lparr>w_state := Accepted\<rparr>) L))
           else (False, L)))"


section \<open>Steps\<close>

text \<open>
  The events of the limiter: a call asks for a slot, a caller that has its slot gives it back, a
  signal is aborted, and the continuation of a settled wait runs.
\<close>

definition callers_slot :: "nat \<Rightarrow> limiter \<Rightarrow> bool" where
  "callers_slot c L = (case waiters L c of None \<Rightarrow> True | Some w \<Rightarrow> w_state w = Accepted)"

inductive limiter_step :: "(string \<Rightarrow> nat) \<Rightarrow> limiter \<Rightarrow> limiter \<Rightarrow> bool" for cap where
  step_acquire: "waiters L c = None \<Longrightarrow> releases L c = None \<Longrightarrow>
    limiter_step cap L (snd (acquire c key (cap key) sig L))"
| step_release: "callers_slot c L \<Longrightarrow> limiter_step cap L (release c L)"
| step_abort: "limiter_step cap L (abort s L)"
| step_resume: "settled c L \<Longrightarrow> limiter_step cap L (snd (resume c L))"

section \<open>Invariant\<close>

definition holders :: "string \<Rightarrow> limiter \<Rightarrow> nat set" where
  "holders key L = {c. releases L c = Some (key, False)}"

text \<open>
  The slots in flight are the release functions not yet called, one more for the key whose slot is
  just being passed on.
\<close>

definition counted :: "string option \<Rightarrow> (string \<Rightarrow> nat) \<Rightarrow> limiter \<Rightarrow> bool" where
  "counted gap cap L =
     (finite {c. releases L c \<noteq> None} \<and>
      (\<forall>key. in_flight L key \<noteq> Some 0 \<and> active key L \<le> cap key \<and>
         active key L = card (holders key L) + (if gap = Some key then 1 else 0)))"

definition line_ok :: "(string \<Rightarrow> nat) \<Rightarrow> limiter \<Rightarrow> string \<Rightarrow> nat \<Rightarrow> bool" where
  "line_ok cap L key q =
     (distinct (queues L q) \<and> active key L = cap key \<and>
      (\<exists>w. waiters L q = Some w \<and> w_key w = key) \<and>
      (\<forall>c\<in>set (queues L q). \<exists>w. waiters L c = Some w \<and> w_key w = key \<and> w_state w = Queued \<and> w_queue w = q))"

definition queued_ok :: "limiter \<Rightarrow> nat \<Rightarrow> waiter \<Rightarrow> bool" where
  "queued_ok L c w =
     ((w_state w = Queued \<longrightarrow>
         waiting L (w_key w) = Some (w_queue w) \<and> c \<in> set (queues L (w_queue w)) \<and> releases L c = None) \<and>
      (w_state w = Granted \<longrightarrow> releases L c = Some (w_key w, False)))"

definition lined_up :: "string option \<Rightarrow> (string \<Rightarrow> nat) \<Rightarrow> limiter \<Rightarrow> bool" where
  "lined_up gap cap L =
     ((\<forall>key q. waiting L key = Some q \<longrightarrow> line_ok cap L key q \<and> (queues L q = [] \<longrightarrow> gap = Some key)) \<and>
      (\<forall>c w. waiters L c = Some w \<longrightarrow> queued_ok L c w))"

definition limiter_ok :: "(string \<Rightarrow> nat) \<Rightarrow> limiter \<Rightarrow> bool" where
  "limiter_ok cap L = (counted None cap L \<and> lined_up None cap L)"

lemma finite_holders: "counted gap cap L \<Longrightarrow> finite (holders key L)"
  unfolding counted_def holders_def by (rule finite_subset [of _ "{c. releases L c \<noteq> None}"]) auto

lemma line_unique:
  "lined_up gap cap L \<Longrightarrow> waiting L key = Some q \<Longrightarrow> waiting L key' = Some q \<Longrightarrow> key' = key"
  unfolding lined_up_def line_ok_def by (metis option.inject)

lemma counted_cong:
  "in_flight L' = in_flight L \<Longrightarrow> releases L' = releases L \<Longrightarrow> counted gap cap L' = counted gap cap L"
  by (simp add: counted_def active_def holders_def)

lemma countedI:
  assumes "finite {c. releases L c \<noteq> None}"
    "\<And>key. in_flight L key \<noteq> Some 0" "\<And>key. active key L \<le> cap key"
    "\<And>key. active key L = card (holders key L) + (if gap = Some key then 1 else 0)"
  shows "counted gap cap L"
  using assms unfolding counted_def by blast

lemma countedD:
  assumes "counted gap cap L"
  shows "finite {c. releases L c \<noteq> None}" "in_flight L key \<noteq> Some 0" "active key L \<le> cap key"
    "active key L = card (holders key L) + (if gap = Some key then 1 else 0)"
  using assms unfolding counted_def by blast+

lemma counted_updates [simp]:
  "counted gap cap (set_waiter c w L) = counted gap cap L"
  "counted gap cap (forget_queue key L) = counted gap cap L"
  "counted gap cap (L\<lparr>queues := qs\<rparr>) = counted gap cap L"
  by (rule counted_cong; simp add: set_waiter_def forget_queue_def)+

lemma lined_up_cong:
  "\<lbrakk>in_flight L' = in_flight L; releases L' = releases L; waiting L' = waiting L; queues L' = queues L;
    waiters L' = waiters L\<rbrakk> \<Longrightarrow> lined_up gap cap L' = lined_up gap cap L"
  by (simp add: lined_up_def line_ok_def queued_ok_def active_def)

lemma unlisten_same [simp]:
  "in_flight (unlisten c w L) = in_flight L" "releases (unlisten c w L) = releases L"
  "waiting (unlisten c w L) = waiting L" "queues (unlisten c w L) = queues L"
  "waiters (unlisten c w L) = waiters L" "aborted (unlisten c w L) = aborted L"
  by (simp_all add: unlisten_def split: option.split)

lemma counted_unlisten [simp]: "counted gap cap (unlisten c w L) = counted gap cap L"
  and lined_up_unlisten [simp]: "lined_up gap cap (unlisten c w L) = lined_up gap cap L"
  by (rule counted_cong lined_up_cong; simp)+

text \<open>A waiter leaves the line: it is taken out of its queue and is no longer queued.\<close>

lemma leave_line:
  assumes "lined_up gap cap L" "waiters L c = Some w" "w_state w = Queued" "s \<noteq> Queued" "s \<noteq> Granted"
    "L' = set_waiter c (w\<lparr>w_state := s\<rparr>) (L\<lparr>queues := (queues L)(w_queue w := remove1 c (queues L (w_queue w)))\<rparr>)"
    "remove1 c (queues L (w_queue w)) = [] \<longrightarrow> gap' = Some (w_key w)"
    "gap \<noteq> None \<longrightarrow> gap' = gap"
  shows "lined_up gap' cap L'"
proof -
  let ?q = "w_queue w" and ?k = "w_key w"
  have q: "waiting L ?k = Some ?q" "c \<in> set (queues L ?q)" "releases L c = None"
    using assms(1-3) by (auto simp: lined_up_def queued_ok_def)
  have l: "line_ok cap L ?k ?q" using assms(1) q by (auto simp: lined_up_def)
  have one: "key = ?k" if "waiting L key = Some ?q" for key
    using line_unique [OF assms(1) q(1) that] .
  have other: "c \<notin> set (queues L q')" if "q' \<noteq> ?q" "waiting L key = Some q'" for key q'
    using assms(1-3) that by (fastforce simp: lined_up_def line_ok_def)
  have "line_ok cap L' key q' \<and> (queues L' q' = [] \<longrightarrow> gap' = Some key)" if "waiting L' key = Some q'" for key q'
  proof -
    from that have w: "waiting L key = Some q'" by (simp add: assms(6) set_waiter_def)
    then have ok: "line_ok cap L key q'" "queues L q' = [] \<longrightarrow> gap = Some key"
      using assms(1) by (auto simp: lined_up_def)
    show ?thesis
    proof (cases "q' = ?q")
      case True
      then show ?thesis using ok(1) one w assms(7)
        by (auto simp: assms(6) set_waiter_def line_ok_def active_def assms(2))
    next
      case False
      then show ?thesis using ok other [OF False w] assms(8)
        by (auto simp: assms(6) set_waiter_def line_ok_def active_def assms(2))
    qed
  qed
  moreover have "queued_ok L' c' w'" if "waiters L' c' = Some w'" for c' w'
  proof (cases "c' = c")
    case True
    then show ?thesis using that assms(4,5) by (auto simp: assms(6) set_waiter_def queued_ok_def)
  next
    case False
    then have "waiters L c' = Some w'" using that by (simp add: assms(6) set_waiter_def)
    then have "queued_ok L c' w'" using assms(1) by (simp add: lined_up_def)
    then show ?thesis using False
      by (auto simp: assms(6) set_waiter_def queued_ok_def)
  qed
  ultimately show ?thesis by (simp add: lined_up_def)
qed


lemma waiter_in_line:
  assumes "lined_up gap cap L" "waiting L key = Some q" "c \<in> set (queues L q)"
  obtains w where "waiters L c = Some w" "w_key w = key" "w_state w = Queued" "w_queue w = q" "releases L c = None"
proof -
  from assms(1,2) have "line_ok cap L key q" by (simp add: lined_up_def)
  with assms(3) obtain w where w: "waiters L c = Some w" "w_key w = key" "w_state w = Queued" "w_queue w = q"
    unfolding line_ok_def by blast
  with assms(1) have "releases L c = None" by (auto simp: lined_up_def queued_ok_def)
  with w that show thesis by blast
qed

lemma grant_counted:
  assumes "counted (Some key) cap L" "releases L c = None"
  shows "counted None cap (release_once c key L)"
proof -
  let ?L = "release_once c key L"
  have h: "holders key' ?L = (if key' = key then insert c (holders key L) else holders key' L)" for key'
    using assms(2) by (auto simp: holders_def release_once_def)
  have "c \<notin> holders key L" using assms(2) by (simp add: holders_def)
  then have "card (insert c (holders key L)) = Suc (card (holders key L))"
    using finite_holders [OF assms(1)] by simp
  moreover have "{c'. releases ?L c' \<noteq> None} = insert c {c'. releases L c' \<noteq> None}"
    by (auto simp: release_once_def)
  moreover have f: "in_flight ?L = in_flight L" "active key' ?L = active key' L" for key'
    by (simp_all add: release_once_def active_def)
  ultimately show ?thesis using countedD [OF assms(1)]
    by (intro countedI) (simp_all only: f h finite_insert simp_thms option.inject, auto)
qed

lemma grant_line:
  assumes k: "counted (Some key) cap L" and l: "lined_up (Some key) cap L" and q: "waiting L key = Some q" "queues L q = c # cs"
    and w: "waiters L c = Some w"
  shows "limiter_ok cap ((if cs = [] then forget_queue key else id)
           (release_once c key (set_waiter c (w\<lparr>w_state := Granted\<rparr>) (L\<lparr>queues := (queues L)(q := cs)\<rparr>))))"
    (is "limiter_ok cap ?M")
proof -
  define L' where "L' = ?M"
  obtain w0 where "waiters L c = Some w0" "w_key w0 = key" "w_state w0 = Queued" "w_queue w0 = q" "releases L c = None"
    using waiter_in_line [OF l q(1), of c] q(2) by auto
  with w have c: "w_key w = key" "w_state w = Queued" "w_queue w = q" "releases L c = None" by auto
  let ?L1 = "set_waiter c (w\<lparr>w_state := Granted\<rparr>) (L\<lparr>queues := (queues L)(q := cs)\<rparr>)"
  have "counted (Some key) cap ?L1" using k by simp
  then have "counted None cap (release_once c key ?L1)"
    using c(4) by (intro grant_counted) (simp_all add: set_waiter_def)
  then have k': "counted None cap L'" unfolding L'_def by (cases "cs = []") simp_all
  have "line_ok cap L key q" using l q(1) by (simp add: lined_up_def)
  then have d: "distinct (c # cs)" using q(2) by (simp add: line_ok_def)
  have W: "waiters L' = (waiters L)(c := Some (w\<lparr>w_state := Granted\<rparr>))"
    "queues L' = (queues L)(q := cs)" "releases L' = (releases L)(c := Some (key, False))"
    "waiting L' = (if cs = [] then (waiting L)(key := None) else waiting L)"
    "active key' L' = active key' L" for key'
    by (simp_all add: L'_def forget_queue_def release_once_def set_waiter_def active_def)
  have "line_ok cap L' key' q' \<and> queues L' q' \<noteq> []" if w': "waiting L' key' = Some q'" for key' q'
  proof -
    have wl: "waiting L key' = Some q'" using w' by (auto simp: W split: if_splits)
    then have ok: "line_ok cap L key' q'" "queues L q' = [] \<longrightarrow> Some key = Some key'" using l by (auto simp: lined_up_def)
    show ?thesis
    proof (cases "key' = key")
      case True
      then have "q' = q" "cs \<noteq> []" using wl q(1) w' unfolding W(4) by (auto split: if_splits)
      then show ?thesis using ok(1) d q(2) True w c(1) by (auto simp: line_ok_def W)
    next
      case False
      then have "q' \<noteq> q" using line_unique [OF l q(1)] wl by blast
      moreover have "c \<notin> set (queues L q')" using waiter_in_line [OF l wl, of c] w c False by auto
      ultimately show ?thesis using ok False w c(1) by (auto simp: line_ok_def W)
    qed
  qed
  moreover have "queued_ok L' c' w'" if w': "waiters L' c' = Some w'" for c' w'
  proof (cases "c' = c")
    case True
    then show ?thesis using w' c by (auto simp: W queued_ok_def)
  next
    case False
    then have "queued_ok L c' w'" using w' l by (simp add: W lined_up_def)
    then show ?thesis using False q by (auto simp: queued_ok_def W)
  qed
  ultimately have "limiter_ok cap L'" using k' by (simp add: limiter_ok_def lined_up_def)
  then show ?thesis unfolding L'_def .
qed

lemma hand_over_ok:
  assumes "counted (Some key) cap L" "lined_up (Some key) cap L" "waiting L key = Some q" "queues L q = cs"
  shows "case hand_over key q cs L of
           (True, L') \<Rightarrow> limiter_ok cap L'
         | (False, L') \<Rightarrow> counted (Some key) cap L' \<and> lined_up (Some key) cap L' \<and>
             waiting L' key = Some q \<and> queues L' q = []"
  using assms
proof (induction key q cs L rule: hand_over.induct)
  case (2 key q c cs L)
  obtain w where w: "waiters L c = Some w" "w_key w = key" "w_state w = Queued" "w_queue w = q" "releases L c = None"
    using waiter_in_line [OF "2.prems"(2,3), of c] "2.prems"(4) by auto
  let ?L1 = "L\<lparr>queues := (queues L)(q := cs)\<rparr>"
  have L1: "waiters ?L1 c = Some w" using w by simp
  show ?case
  proof (cases "signal_aborted (w_signal w) ?L1")
    case False
    then have "hand_over key q (c # cs) L = (True, (if cs = [] then forget_queue key else id)
           (release_once c key (set_waiter c (w\<lparr>w_state := Granted\<rparr>) ?L1)))"
      using w L1 by (simp add: Let_def)
    then show ?thesis using grant_line [OF "2.prems"(1-3) "2.prems"(4) w(1)] by simp
  next
    case True
    let ?L2 = "set_waiter c (w\<lparr>w_state := Cancelled\<rparr>) ?L1" and ?L3 = "unlisten c w (set_waiter c (w\<lparr>w_state := Cancelled\<rparr>) ?L1)"
    have step: "hand_over key q (c # cs) L = hand_over key q cs ?L3"
      using w L1 True by (simp add: Let_def)
    have "counted (Some key) cap ?L3"
      using "2.prems"(1) by simp
    moreover have "lined_up (Some key) cap ?L3"
      using leave_line [OF "2.prems"(2) w(1,3), of Cancelled ?L2 "Some key"] w "2.prems"(4) by simp
    moreover have "waiting ?L3 key = Some q" "queues ?L3 q = cs"
      using "2.prems"(3) by (simp_all add: set_waiter_def)
    ultimately show ?thesis unfolding step using "2.IH"(2) [OF refl L1] w True by simp
  qed
qed simp

lemma give_back_ok:
  assumes "counted (Some key) cap L" "lined_up None cap L" "waiting L key = None"
  shows "limiter_ok cap (give_back key L)"
proof -
  let ?L = "give_back key L"
  have a: "active key L = Suc (card (holders key L))" "active key L \<le> cap key"
    using countedD(3,4) [OF assms(1), of key] by simp_all
  then have f: "in_flight L key = Some (active key L)" by (auto simp: active_def split: option.splits)
  have i: "in_flight ?L = (in_flight L)(key := if active key L \<le> 1 then None else Some (active key L - 1))"
    by (simp add: give_back_def f)
  then have A: "active key' ?L = (if key' = key then active key L - 1 else active key' L)" for key'
    by (auto simp: active_def)
  have same: "releases ?L = releases L" "waiting ?L = waiting L" "queues ?L = queues L" "waiters ?L = waiters L"
    "holders key' ?L = holders key' L" for key'
    by (simp_all add: give_back_def holders_def Let_def)
  have "counted None cap ?L"
  proof (rule countedI)
    fix key'
    note k = countedD(2-4) [OF assms(1), of key']
    show "in_flight ?L key' \<noteq> Some 0" "active key' ?L \<le> cap key'"
      "active key' ?L = card (holders key' ?L) + (if None = Some key' then 1 else 0)"
      using k a(1) by (auto simp: same A i)
  qed (use countedD(1) [OF assms(1)] in \<open>simp add: same\<close>)
  moreover have "lined_up None cap ?L"
    using assms(2,3) by (auto simp: lined_up_def line_ok_def queued_ok_def same A)
  ultimately show ?thesis by (simp add: limiter_ok_def)
qed

lemma forget_queue_ok:
  assumes "lined_up (Some key) cap L" "waiting L key = Some q" "queues L q = []"
  shows "lined_up None cap (forget_queue key L)"
proof -
  have "queued_ok (forget_queue key L) c w" if "waiters L c = Some w" for c w
  proof -
    have "queued_ok L c w" using assms(1) that by (simp add: lined_up_def)
    then show ?thesis using assms(2,3) by (auto simp: queued_ok_def forget_queue_def)
  qed
  then show ?thesis using assms(1)
    by (auto simp: lined_up_def forget_queue_def line_ok_def active_def)
qed

lemma release_slot_ok:
  assumes "counted (Some key) cap L" "lined_up None cap L"
  shows "limiter_ok cap (release_slot key L)"
proof (cases "waiting L key")
  case None
  then show ?thesis using give_back_ok [OF assms] by (simp add: release_slot_def)
next
  case (Some q)
  have l: "lined_up (Some key) cap L" using assms(2) by (auto simp: lined_up_def)
  obtain b L' where h: "hand_over key q (queues L q) L = (b, L')" by fastforce
  note ok = hand_over_ok [OF assms(1) l Some refl, unfolded h prod.case]
  show ?thesis
  proof (cases b)
    case True
    then show ?thesis using ok Some h by (simp add: release_slot_def)
  next
    case False
    then have L': "counted (Some key) cap L'" "lined_up (Some key) cap L'" "waiting L' key = Some q" "queues L' q = []"
      using ok by simp_all
    have "limiter_ok cap (give_back key (forget_queue key L'))"
      using L' by (intro give_back_ok forget_queue_ok) (simp_all, simp add: forget_queue_def)
    then show ?thesis using Some h False by (simp add: release_slot_def)
  qed
qed

lemma release_ok:
  assumes "limiter_ok cap L" "\<And>w. waiters L c = Some w \<Longrightarrow> w_state w \<noteq> Granted"
  shows "limiter_ok cap (release c L)"
proof (cases "\<exists>key. releases L c = Some (key, False)")
  case True
  then obtain key where c: "releases L c = Some (key, False)" by blast
  let ?L = "L\<lparr>releases := (releases L)(c := Some (key, True))\<rparr>"
  have h: "holders key' ?L = holders key' L - {c}" for key' by (auto simp: holders_def)
  have ch: "c \<in> holders key L" using c by (simp add: holders_def)
  have n: "key' \<noteq> key \<Longrightarrow> c \<notin> holders key' L" for key' using c by (simp add: holders_def)
  have k: "counted None cap L" and l: "lined_up None cap L" using assms(1) by (auto simp: limiter_ok_def)
  have cd: "card (holders key L) = Suc (card (holders key L - {c}))"
    using card.remove [OF finite_holders [OF k] ch] .
  have fin: "finite {c'. releases ?L c' \<noteq> None}"
    using k by (auto simp: counted_def intro: finite_subset [of _ "insert c {c'. releases L c' \<noteq> None}"])
  have "counted (Some key) cap ?L"
    unfolding counted_def
  proof (intro conjI allI)
    fix key'
    have k': "in_flight L key' \<noteq> Some 0" "active key' L \<le> cap key'" "active key' L = card (holders key' L)"
      using countedD(2-4) [OF k, of key'] by simp_all
    have A: "active key' ?L = active key' L" by (simp add: active_def)
    show "in_flight ?L key' \<noteq> Some 0" "active key' ?L \<le> cap key'" using k' A by simp_all
    show "active key' ?L = card (holders key' ?L) + (if Some key = Some key' then 1 else 0)"
      using k'(3) cd n [of key'] unfolding A h by (cases "key' = key") auto
  qed (rule fin)
  moreover have "lined_up None cap ?L"
  proof -
    have "queued_ok ?L c' w'" if "waiters L c' = Some w'" for c' w'
    proof -
      have q: "queued_ok L c' w'" using l that by (simp add: lined_up_def)
      show ?thesis
      proof (cases "c' = c")
        case True
        then show ?thesis using q assms(2) that c by (auto simp: queued_ok_def)
      qed (use q in \<open>auto simp: queued_ok_def\<close>)
    qed
    then show ?thesis using l by (auto simp: lined_up_def line_ok_def active_def)
  qed
  ultimately show ?thesis using release_slot_ok c by (simp add: release_def)
next
  case False
  then show ?thesis using assms(1) by (auto simp: release_def split: option.splits bool.splits)
qed


lemma release_listeners_ok [simp]:
  "limiter_ok cap (L\<lparr>listeners := ls\<rparr>) = limiter_ok cap L"
  "limiter_ok cap (L\<lparr>aborted := ab\<rparr>) = limiter_ok cap L"
  "limiter_ok cap (unlisten c w L) = limiter_ok cap L"
  unfolding limiter_ok_def by (intro arg_cong2 [of _ _ _ _ "(\<and>)"] counted_cong lined_up_cong; simp)+

text \<open>A wait that is over changes its state only.\<close>

lemma settle_ok:
  assumes "limiter_ok cap L" "waiters L c = Some w" "w_state w \<noteq> Queued" "s \<noteq> Queued" "s \<noteq> Granted"
  shows "limiter_ok cap (set_waiter c (w\<lparr>w_state := s\<rparr>) L)"
proof -
  let ?L = "set_waiter c (w\<lparr>w_state := s\<rparr>) L"
  have l: "lined_up None cap L" and k: "counted None cap L" using assms(1) by (auto simp: limiter_ok_def)
  have W: "waiters ?L = (waiters L)(c := Some (w\<lparr>w_state := s\<rparr>))" "waiting ?L = waiting L" "queues ?L = queues L"
    "releases ?L = releases L" "active key ?L = active key L" for key
    by (simp_all add: set_waiter_def active_def)
  have "line_ok cap ?L key q \<and> queues ?L q \<noteq> []" if q: "waiting ?L key = Some q" for key q
  proof -
    have q': "waiting L key = Some q" using q by (simp add: W)
    have "c \<notin> set (queues L q)" using waiter_in_line [OF l q', of c] assms(2,3) by auto
    moreover have "line_ok cap L key q" "queues L q \<noteq> []" using l q' by (auto simp: lined_up_def)
    ultimately show ?thesis using assms(2) by (auto simp: line_ok_def W)
  qed
  moreover have "queued_ok ?L c' w'" if "waiters ?L c' = Some w'" for c' w'
  proof (cases "c' = c")
    case True
    then show ?thesis using that assms(4,5) by (auto simp: W queued_ok_def)
  next
    case False
    then have "queued_ok L c' w'" using that l by (simp add: W lined_up_def)
    then show ?thesis by (simp add: W queued_ok_def)
  qed
  ultimately show ?thesis using k by (simp add: limiter_ok_def lined_up_def)
qed

lemma give_up_ok:
  assumes "limiter_ok cap L" "waiters L c = Some w" "w_state w = Granted"
  shows "limiter_ok cap (release c (set_waiter c (w\<lparr>w_state := Cancelled\<rparr>) L))"
  using assms by (intro release_ok settle_ok) (auto simp: set_waiter_def)

lemma on_abort_ok:
  assumes "limiter_ok cap L"
  shows "limiter_ok cap (on_abort c L)"
proof (cases "waiters L c")
  case (Some w)
  note l = assms [unfolded limiter_ok_def]
  show ?thesis
  proof (cases "w_state w")
    case Queued
    let ?q = "w_queue w"
    let ?rest = "remove1 c (queues L ?q)"
    let ?L1 = "set_waiter c (w\<lparr>w_state := Cancelled\<rparr>) (L\<lparr>queues := (queues L)(?q := ?rest)\<rparr>)"
    have k: "counted None cap ?L1" using l by simp
    show ?thesis
    proof (cases "?rest = []")
      case True
      have "lined_up (Some (w_key w)) cap ?L1"
        using leave_line [OF conjunct2 [OF l] Some Queued, of Cancelled ?L1 "Some (w_key w)"] by simp
      moreover have "queued_ok L c w" using l Some by (simp add: lined_up_def)
      then have "waiting ?L1 (w_key w) = Some ?q" "queues ?L1 ?q = []"
        using Queued True by (simp_all add: queued_ok_def set_waiter_def)
      ultimately have "lined_up None cap (forget_queue (w_key w) ?L1)" by (rule forget_queue_ok)
      then show ?thesis using k Some Queued True by (simp add: on_abort_def Let_def limiter_ok_def)
    next
      case False
      have "lined_up None cap ?L1"
        using leave_line [OF conjunct2 [OF l] Some Queued, of Cancelled ?L1 None] False by simp
      then show ?thesis using k Some Queued False by (simp add: on_abort_def Let_def limiter_ok_def)
    qed
  next
    case Granted
    then show ?thesis using give_up_ok [OF assms Some] Some by (simp add: on_abort_def)
  qed (use assms Some in \<open>simp_all add: on_abort_def\<close>)
qed (use assms in \<open>simp add: on_abort_def\<close>)

lemma abort_ok: "limiter_ok cap L \<Longrightarrow> limiter_ok cap (abort s L)"
proof -
  have f: "limiter_ok cap (fold (fire s) cs L)" if "limiter_ok cap L" for cs L
    using that by (induction cs arbitrary: L) (simp_all add: fire_def on_abort_ok)
  show "limiter_ok cap L \<Longrightarrow> limiter_ok cap (abort s L)" by (simp add: abort_def f)
qed

lemma resume_ok: "limiter_ok cap L \<Longrightarrow> limiter_ok cap (snd (resume c L))"
  by (auto simp: resume_def give_up_ok settle_ok split: option.split)

lemma acquire_ok:
  assumes ok: "limiter_ok cap L" and new: "waiters L c = None" "releases L c = None"
  shows "limiter_ok cap (snd (acquire c key (cap key) sig L))"
proof -
  note k = conjunct1 [OF ok [unfolded limiter_ok_def]] and l = conjunct2 [OF ok [unfolded limiter_ok_def]]
  consider (refused) "signal_aborted sig L" | (free) "\<not> signal_aborted sig L" "active key L < cap key"
    | (full) "\<not> signal_aborted sig L" "\<not> active key L < cap key" by blast
  then show ?thesis
  proof cases
    case free
    define L1 where "L1 = L\<lparr>in_flight := (in_flight L)(key := Some (active key L + 1))\<rparr>"
    have same: "releases L1 = releases L" "waiters L1 = waiters L" "waiting L1 = waiting L" "queues L1 = queues L"
      "in_flight L1 = (in_flight L)(key := Some (active key L + 1))" "holders key' L1 = holders key' L" for key'
      by (simp_all add: L1_def holders_def)
    have A: "active key' L1 = (if key' = key then active key L + 1 else active key' L)" for key'
      by (simp add: active_def same)
    have no: "waiting L key = None" using l free(2) by (cases "waiting L key") (auto simp: lined_up_def line_ok_def)
    have "counted (Some key) cap L1"
    proof (rule countedI)
      fix key'
      note kk = countedD(2-4) [OF k, of key']
      show "in_flight L1 key' \<noteq> Some 0" "active key' L1 \<le> cap key'"
        using kk free(2) by (auto simp: A same)
      show "active key' L1 = card (holders key' L1) + (if Some key = Some key' then 1 else 0)"
        using kk by (auto simp: A same)
    qed (use countedD(1) [OF k] in \<open>simp add: same\<close>)
    then have "counted None cap (release_once c key L1)" using new by (intro grant_counted) (simp_all add: same)
    moreover have "lined_up None cap (release_once c key L1)"
    proof -
      have "queued_ok (release_once c key L1) c' w'" if "waiters L c' = Some w'" for c' w'
        using l that new by (auto simp: lined_up_def queued_ok_def release_once_def same)
      moreover have "line_ok cap (release_once c key L1) key' q'" if "waiting L key' = Some q'" for key' q'
        using l that no by (auto simp: lined_up_def line_ok_def release_once_def active_def same)
      ultimately show ?thesis using l by (auto simp: lined_up_def release_once_def same)
    qed
    ultimately show ?thesis using free by (simp add: acquire_def limiter_ok_def L1_def)
  next
    case full
    define qn where "qn = (case waiting L key of Some q \<Rightarrow> q | None \<Rightarrow> c)"
    define queue where "queue = (case waiting L key of Some q \<Rightarrow> queues L q | None \<Rightarrow> [])"
    let ?w = "\<lparr>w_key = key, w_state = Queued, w_signal = sig, w_queue = qn\<rparr>"
    define L' where "L' = set_waiter c ?w (L\<lparr>queues := (queues L)(qn := queue @ [c]), waiting := (waiting L)(key := Some qn)\<rparr>)"
    have at: "active key L = cap key" using countedD(3) [OF k, of key] full by simp
    have fresh: "q \<noteq> c" if "waiting L key' = Some q" for key' q
    proof -
      have "line_ok cap L key' q" using l that by (simp add: lined_up_def)
      then show ?thesis using new by (auto simp: line_ok_def)
    qed
    have c: "c \<notin> set (queues L q)" if "waiting L key' = Some q" for key' q
      using waiter_in_line [OF l that, of c] new by auto
    have W: "waiters L' = (waiters L)(c := Some ?w)" "waiting L' = (waiting L)(key := Some qn)"
      "queues L' = (queues L)(qn := queue @ [c])" "releases L' = releases L" "active key' L' = active key' L" for key'
      by (simp_all add: L'_def set_waiter_def active_def)
    have "line_ok cap L' key' q' \<and> queues L' q' \<noteq> []" if w': "waiting L' key' = Some q'" for key' q'
    proof (cases "key' = key")
      case True
      then have q': "q' = qn" using w' by (simp add: W)
      show ?thesis
      proof (cases "waiting L key")
        case None
        then show ?thesis using q' True at by (auto simp: line_ok_def W qn_def queue_def)
      next
        case (Some q)
        have "line_ok cap L key q" using l Some by (simp add: lined_up_def)
        then show ?thesis using q' True at Some fresh [OF Some] c [OF Some] new by (auto simp: line_ok_def W qn_def queue_def)
      qed
    next
      case False
      then have wl: "waiting L key' = Some q'" using w' by (simp add: W)
      have "q' \<noteq> qn" using fresh [OF wl] line_unique [OF l _ wl] False by (auto simp: qn_def split: option.split)
      moreover have "line_ok cap L key' q'" "queues L q' \<noteq> []" using l wl by (auto simp: lined_up_def)
      ultimately show ?thesis using fresh [OF wl] c [OF wl] new by (auto simp: line_ok_def W)
    qed
    moreover have "queued_ok L' c' w'" if w': "waiters L' c' = Some w'" for c' w'
    proof (cases "c' = c")
      case True
      then show ?thesis using w' new by (auto simp: W queued_ok_def queue_def)
    next
      case False
      then have q: "queued_ok L c' w'" using l w' by (simp add: W lined_up_def)
      show ?thesis
      proof (cases "w_state w' = Queued")
        case True
        with q have "waiting L (w_key w') = Some (w_queue w')" by (simp add: queued_ok_def)
        then show ?thesis using q True False fresh by (auto simp: queued_ok_def W qn_def queue_def split: option.split)
      qed (use q False in \<open>auto simp: queued_ok_def W\<close>)
    qed
    ultimately have "lined_up None cap L'" by (simp add: lined_up_def)
    moreover have "counted None cap L'" using k unfolding L'_def by (subst counted_cong [where L = L]) (simp_all add: set_waiter_def)
    ultimately have "limiter_ok cap L'" by (simp add: limiter_ok_def)
    then show ?thesis using full
      by (cases sig; cases "waiting L key") (simp_all add: acquire_def Let_def L'_def qn_def queue_def)
  qed (use ok in \<open>simp add: acquire_def\<close>)
qed

lemma empty_limiter_ok: "limiter_ok cap empty_limiter"
  by (auto simp: limiter_ok_def lined_up_def empty_limiter_def active_def holders_def intro!: countedI)

interpretation slots: kept_invariant empty_limiter "limiter_step cap" "limiter_ok cap" for cap
proof (unfold_locales, goal_cases)
  case 1
  show ?case by (rule empty_limiter_ok)
next
  case (2 L L')
  from 2(2,1) show ?case
  proof cases
    case (step_release c)
    have "w_state w \<noteq> Granted" if "waiters L c = Some w" for w
      using step_release(2) that by (simp add: callers_slot_def)
    then show ?thesis using 2(1) step_release(1) release_ok by blast
  qed (auto simp: acquire_ok abort_ok resume_ok)
qed


section \<open>The line moves on\<close>

definition queued :: "nat \<Rightarrow> string \<Rightarrow> nat \<Rightarrow> limiter \<Rightarrow> bool" where
  "queued c key q L = (\<exists>w. waiters L c = Some w \<and> w_state w = Queued \<and> w_key w = key \<and> w_queue w = q)"

definition ahead :: "nat \<Rightarrow> nat \<Rightarrow> limiter \<Rightarrow> nat" where
  "ahead c q L = length (takeWhile (\<lambda>d. d \<noteq> c) (queues L q))"

lemma queued_in_line:
  "limiter_ok cap L \<Longrightarrow> queued c key q L \<Longrightarrow> waiting L key = Some q \<and> c \<in> set (queues L q)"
  by (auto simp: limiter_ok_def lined_up_def queued_ok_def queued_def)

lemma takeWhile_suffix:
  "c \<in> set ys \<Longrightarrow> c \<notin> set xs \<Longrightarrow> length (takeWhile (\<lambda>d. d \<noteq> c) (xs @ ys)) = length xs + length (takeWhile (\<lambda>d. d \<noteq> c) ys)"
  by (subst takeWhile_append2) auto

lemma hand_over_queues:
  "hand_over key q cs L = (b, L') \<Longrightarrow> queues L q = cs \<Longrightarrow> cs \<noteq> [] \<Longrightarrow>
   (\<exists>xs. xs \<noteq> [] \<and> cs = xs @ queues L' q) \<and> (\<forall>q'. q' \<noteq> q \<longrightarrow> queues L' q' = queues L q') \<and>
   (\<forall>c key q. queued c key q L' \<longrightarrow> queued c key q L) \<and> aborted L' = aborted L"
proof (induction key q cs L arbitrary: b L' rule: hand_over.induct)
  case (2 key q c cs L)
  let ?L1 = "L\<lparr>queues := (queues L)(q := cs)\<rparr>"
  have more: ?case if h: "hand_over key q cs M = (b, L')" and M: "queues M = (queues L)(q := cs)" "aborted M = aborted L"
      "\<forall>c key q. queued c key q M \<longrightarrow> queued c key q L"
    and IH: "cs \<noteq> [] \<Longrightarrow> (\<exists>xs. xs \<noteq> [] \<and> cs = xs @ queues L' q) \<and> (\<forall>q'. q' \<noteq> q \<longrightarrow> queues L' q' = queues M q') \<and>
      (\<forall>c key q. queued c key q L' \<longrightarrow> queued c key q M) \<and> aborted L' = aborted M" for M
  proof (cases "cs = []")
    case True
    then have "L' = M" using h by simp
    then show ?thesis using M True by (auto intro!: exI [of _ "[c]"])
  next
    case False
    from IH [OF this] M show ?thesis by (auto intro: exI [of _ "c # xs" for xs])
  qed
  show ?case
  proof (cases "waiters ?L1 c")
    case None
    then show ?thesis
      using more [of ?L1] "2.IH"(1) [OF refl None] "2.prems" by (simp add: queued_def)
  next
    case (Some w)
    show ?thesis
    proof (cases "w_state w = Queued")
      case False
      then show ?thesis
        using more [of ?L1] "2.IH"(3) [OF refl Some] "2.prems" Some by (simp add: queued_def)
    next
      case q: True
      show ?thesis
      proof (cases "signal_aborted (w_signal w) ?L1")
        case True
        let ?L3 = "unlisten c w (set_waiter c (w\<lparr>w_state := Cancelled\<rparr>) ?L1)"
        have "\<forall>c key q. queued c key q ?L3 \<longrightarrow> queued c key q L" using Some by (auto simp: queued_def set_waiter_def)
        then show ?thesis
          using more [of ?L3] "2.IH"(2) [OF refl Some] "2.prems" Some True q by (simp add: set_waiter_def)
      next
        case False
        then show ?thesis using "2.prems" Some q
          by (auto simp: Let_def queued_def release_once_def set_waiter_def forget_queue_def intro!: exI [of _ "[c]"]
              split: if_splits)
      qed
    qed
  qed
qed simp

lemma give_back_same [simp]:
  "queues (give_back key L) = queues L" "waiters (give_back key L) = waiters L" "aborted (give_back key L) = aborted L"
  by (simp_all add: give_back_def Let_def)

lemma release_queues:
  "(\<forall>q'. waiting L key \<noteq> Some q' \<longrightarrow> queues (release_slot key L) q' = queues L q') \<and>
   (\<forall>c k q. queued c k q (release_slot key L) \<longrightarrow> queued c k q L)"
proof (cases "waiting L key")
  case (Some q)
  obtain b L' where h: "hand_over key q (queues L q) L = (b, L')" by fastforce
  show ?thesis
  proof (cases "queues L q = []")
    case True
    then show ?thesis using Some by (simp add: release_slot_def queued_def forget_queue_def)
  next
    case False
    then show ?thesis using hand_over_queues [OF h refl False] Some h
      by (cases b) (auto simp: release_slot_def queued_def forget_queue_def)
  qed
qed (simp add: release_slot_def queued_def)

lemma release_moves_line:
  assumes ok: "limiter_ok cap L" "limiter_ok cap (release d L)" and c: "queued c key q L"
    and r: "releases L d = Some (key', False)" and c': "queued c key q (release d L)"
  shows "ahead c q (release d L) \<le> ahead c q L \<and> (key' = key \<longrightarrow> ahead c q (release d L) < ahead c q L)"
proof -
  let ?L = "L\<lparr>releases := (releases L)(d := Some (key', True))\<rparr>"
  have rel: "release d L = release_slot key' ?L" using r by (simp add: release_def)
  note line = queued_in_line [OF ok(1) c]
  show ?thesis
  proof (cases "key' = key")
    case False
    then have "waiting ?L key' \<noteq> Some q" using line line_unique [of None cap L key q key'] ok by (auto simp: limiter_ok_def)
    then have "queues (release d L) q = queues L q" using release_queues [of ?L key'] by (simp add: rel)
    then show ?thesis using False by (simp add: ahead_def)
  next
    case True
    have ne: "queues ?L q \<noteq> []" using line by auto
    obtain b L' where h: "hand_over key q (queues ?L q) ?L = (b, L')" by fastforce
    from hand_over_queues [OF h refl ne] obtain xs where xs: "xs \<noteq> []" "queues L q = xs @ queues L' q" by auto
    have same: "queues (release d L) q = queues L' q"
      using line True h by (cases b) (auto simp: rel release_slot_def forget_queue_def)
    have in': "c \<in> set (queues L' q)" using queued_in_line [OF ok(2) c'] same by simp
    have "distinct (queues L q)" using ok line by (auto simp: limiter_ok_def lined_up_def line_ok_def)
    then have "c \<notin> set xs" using in' xs(2) by auto
    from takeWhile_suffix [OF in' this] have "ahead c q L = length xs + ahead c q (release d L)"
      by (simp add: ahead_def same xs(2))
    then show ?thesis using xs(1) by (cases xs) auto
  qed
qed

lemma release_line:
  assumes "limiter_ok cap L" "\<And>w. waiters L d = Some w \<Longrightarrow> w_state w \<noteq> Granted"
  shows "queued c key q (release d L) \<Longrightarrow> queued c key q L \<and> ahead c q (release d L) \<le> ahead c q L"
proof -
  assume c': "queued c key q (release d L)"
  show ?thesis
  proof (cases "\<exists>key'. releases L d = Some (key', False)")
    case True
    then obtain key' where r: "releases L d = Some (key', False)" by blast
    have "queued c key q L"
      using c' r release_queues [of "L\<lparr>releases := (releases L)(d := Some (key', True))\<rparr>" key']
      by (auto simp: release_def queued_def)
    with release_moves_line [OF assms(1) release_ok [OF assms] _ r c'] show ?thesis by blast
  next
    case False
    then show ?thesis using c' by (auto simp: release_def split: option.splits bool.splits)
  qed
qed

lemma set_waiter_line:
  "waiters L d = Some w \<Longrightarrow> s \<noteq> Queued \<Longrightarrow> queued c key q (set_waiter d (w\<lparr>w_state := s\<rparr>) L) \<Longrightarrow>
   queued c key q L \<and> c \<noteq> d"
  by (auto simp: queued_def set_waiter_def split: if_splits)

lemma give_up_line:
  assumes "limiter_ok cap L" "waiters L d = Some w" "w_state w = Granted"
    "queued c key q (release d (set_waiter d (w\<lparr>w_state := Cancelled\<rparr>) L))"
  shows "queued c key q L \<and> ahead c q (release d (set_waiter d (w\<lparr>w_state := Cancelled\<rparr>) L)) \<le> ahead c q L"
proof -
  let ?L = "set_waiter d (w\<lparr>w_state := Cancelled\<rparr>) L"
  have "limiter_ok cap ?L" using assms by (intro settle_ok) auto
  from release_line [OF this _ assms(4)] have "queued c key q ?L" "ahead c q (release d ?L) \<le> ahead c q ?L"
    by (auto simp: set_waiter_def)
  moreover have "ahead c q ?L = ahead c q L" by (simp add: ahead_def set_waiter_def)
  ultimately show ?thesis using set_waiter_line [OF assms(2)] by auto
qed

lemma takeWhile_remove1:
  "d \<noteq> c \<Longrightarrow> length (takeWhile (\<lambda>x. x \<noteq> c) (remove1 d xs)) \<le> length (takeWhile (\<lambda>x. x \<noteq> c) xs)"
  by (induction xs) (auto simp: le_SucI)

lemma on_abort_line:
  assumes "limiter_ok cap L" "queued c key q (on_abort d L)"
  shows "queued c key q L \<and> ahead c q (on_abort d L) \<le> ahead c q L"
proof (cases "waiters L d")
  case (Some w)
  show ?thesis
  proof (cases "w_state w")
    case Queued
    let ?q = "w_queue w"
    have "queued c key q L \<and> c \<noteq> d" using assms(2) Some Queued
      by (auto simp: on_abort_def Let_def queued_def set_waiter_def forget_queue_def split: if_splits)
    moreover have "queues (on_abort d L) = (queues L)(?q := remove1 d (queues L ?q))"
      using Some Queued by (simp add: on_abort_def Let_def set_waiter_def forget_queue_def)
    ultimately show ?thesis using takeWhile_remove1 [of d c] by (auto simp: ahead_def)
  next
    case Granted
    then show ?thesis using give_up_line [OF assms(1) Some Granted] assms(2) Some by (simp add: on_abort_def)
  qed (use assms Some in \<open>simp_all add: on_abort_def\<close>)
qed (use assms in \<open>simp add: on_abort_def\<close>)

lemma queued_listeners [simp]:
  "queued c key q (L\<lparr>listeners := ls\<rparr>) = queued c key q L" "ahead c q (L\<lparr>listeners := ls\<rparr>) = ahead c q L"
  "queued c key q (L\<lparr>aborted := ab\<rparr>) = queued c key q L" "ahead c q (L\<lparr>aborted := ab\<rparr>) = ahead c q L"
  by (simp_all add: queued_def ahead_def)

lemma abort_line:
  assumes "limiter_ok cap L" "queued c key q (abort s L)"
  shows "queued c key q L \<and> ahead c q (abort s L) \<le> ahead c q L"
proof -
  have "queued c key q M \<and> ahead c q (fold (fire s) ds M) \<le> ahead c q M"
    if "limiter_ok cap M" "queued c key q (fold (fire s) ds M)" for ds M
    using that
  proof (induction ds arbitrary: M)
    case (Cons d ds)
    have ok: "limiter_ok cap (fire s d M)" using Cons.prems(1) by (simp add: fire_def on_abort_ok)
    from Cons.IH [OF this] Cons.prems(2)
    have IH: "queued c key q (fire s d M)" "ahead c q (fold (fire s) (d # ds) M) \<le> ahead c q (fire s d M)" by simp_all
    have "queued c key q M \<and> ahead c q (fire s d M) \<le> ahead c q M"
      using IH(1) Cons.prems(1) on_abort_line [of cap "M\<lparr>listeners := (listeners M)(s := remove1 d (listeners M s))\<rparr>" c key q d]
      by (auto simp: fire_def split: if_splits)
    then show ?case using IH(2) by simp
  qed simp
  from this [of "L\<lparr>aborted := (aborted L)(s := True)\<rparr>" "listeners L s"] show ?thesis
    using assms by (auto simp: abort_def split: if_splits)
qed

lemma step_line:
  assumes "limiter_step cap L L'" "limiter_ok cap L" "queued c key q L" "queued c key q L'"
  shows "ahead c q L' \<le> ahead c q L"
  using assms(1)
proof cases
  case (step_acquire d k sig)
  have "c \<noteq> d" using assms(3) step_acquire by (auto simp: queued_def)
  have line: "c \<in> set (queues L q)" using queued_in_line [OF assms(2,3)] by simp
  then have *: "takeWhile (\<lambda>x. x \<noteq> c) (queues L q @ [d]) = takeWhile (\<lambda>x. x \<noteq> c) (queues L q)"
    by (simp add: takeWhile_append1)
  have "queues L' q = queues L q \<or> queues L' q = queues L q @ [d] \<or> (waiting L k = None \<and> q = d)"
    using step_acquire(1) by (auto simp: acquire_def release_once_def set_waiter_def Let_def split: option.splits if_splits)
  moreover have "q \<noteq> d"
  proof -
    have "line_ok cap L key q" using assms(2) queued_in_line [OF assms(2,3)] by (auto simp: limiter_ok_def lined_up_def)
    then show ?thesis using step_acquire by (auto simp: line_ok_def)
  qed
  ultimately show ?thesis using * by (auto simp: ahead_def)
next
  case (step_release d)
  have "w_state w \<noteq> Granted" if "waiters L d = Some w" for w
    using step_release(2) that by (simp add: callers_slot_def)
  then show ?thesis using step_release(1) release_line [OF assms(2), of d c key q] assms(4) by blast
next
  case (step_abort s)
  then show ?thesis using abort_line [OF assms(2)] assms(4) by blast
next
  case (step_resume d)
  obtain w where w: "waiters L d = Some w" using step_resume(2) by (auto simp: settled_def split: option.splits)
  show ?thesis
  proof (cases "signal_aborted (w_signal w) L \<and> w_state w = Granted")
    case True
    then show ?thesis using step_resume(1) w give_up_line [OF assms(2) w] assms(4) by (simp add: resume_def)
  next
    case False
    then have "queues L' q = queues L q" using step_resume(1) w by (auto simp: resume_def set_waiter_def split: if_splits)
    then show ?thesis by (simp add: ahead_def)
  qed
qed


section \<open>What giving a slot back keeps\<close>

text \<open>
  The steps a slot takes on its way to the next caller, as one rule: what each of them keeps,
  \<open>release\<close> keeps.
\<close>

definition slot_kept :: "(limiter \<Rightarrow> bool) \<Rightarrow> string \<Rightarrow> bool" where
  "slot_kept P key =
     (\<forall>L. P L \<longrightarrow>
        (\<forall>q cs. P (L\<lparr>queues := (queues L)(q := cs)\<rparr>)) \<and> P (forget_queue key L) \<and> P (give_back key L) \<and>
        (\<forall>c w. waiters L c = Some w \<and> w_state w = Queued \<longrightarrow>
           (signal_aborted (w_signal w) L \<longrightarrow> P (unlisten c w (set_waiter c (w\<lparr>w_state := Cancelled\<rparr>) L))) \<and>
           P (release_once c key (set_waiter c (w\<lparr>w_state := Granted\<rparr>) L))))"

lemma hand_over_keeps:
  assumes k: "slot_kept P key"
  shows "P L \<Longrightarrow> P (snd (hand_over key q cs L))"
proof (induction cs arbitrary: L)
  case (Cons c cs)
  let ?L1 = "L\<lparr>queues := (queues L)(q := cs)\<rparr>"
  have L1: "P ?L1" using k Cons.prems by (simp add: slot_kept_def)
  show ?case
  proof (cases "waiters ?L1 c")
    case None
    then show ?thesis using Cons.IH [OF L1] by simp
  next
    case (Some w)
    show ?thesis
    proof (cases "w_state w = Queued")
      case q: True
      let ?g = "release_once c key (set_waiter c (w\<lparr>w_state := Granted\<rparr>) ?L1)"
      have g: "P ?g" "P (forget_queue key ?g)" using k L1 Some q by (simp_all add: slot_kept_def)
      show ?thesis
      proof (cases "signal_aborted (w_signal w) ?L1")
        case True
        have "P (unlisten c w (set_waiter c (w\<lparr>w_state := Cancelled\<rparr>) ?L1))"
          using k [unfolded slot_kept_def, rule_format, OF L1] Some q True by blast
        from Cons.IH [OF this] show ?thesis using Some q True by (simp add: Let_def)
      next
        case False
        then show ?thesis using Some q g by (cases "cs = []") (simp_all add: Let_def)
      qed
    next
      case False
      then show ?thesis using Cons.IH [OF L1] Some by (simp add: Let_def)
    qed
  qed
qed simp

lemma release_slot_keeps:
  assumes k: "slot_kept P key" and L: "P L"
  shows "P (release_slot key L)"
proof (cases "waiting L key")
  case None
  then show ?thesis using k L by (simp add: release_slot_def slot_kept_def)
next
  case (Some q)
  obtain b L' where h: "hand_over key q (queues L q) L = (b, L')" by fastforce
  have "P L'" using hand_over_keeps [OF k L, of q "queues L q"] h by simp
  then show ?thesis using k Some h by (cases b) (simp_all add: release_slot_def slot_kept_def)
qed

lemma release_keeps:
  assumes "\<And>key. slot_kept P key" "P L" "\<And>key. releases L c = Some (key, False) \<Longrightarrow> P (L\<lparr>releases := (releases L)(c := Some (key, True))\<rparr>)"
  shows "P (release c L)"
proof (cases "\<exists>key. releases L c = Some (key, False)")
  case True
  then obtain key where r: "releases L c = Some (key, False)" by blast
  from release_slot_keeps [OF assms(1) assms(3) [OF r]] show ?thesis by (simp add: release_def r)
next
  case False
  then show ?thesis using assms(2) by (auto simp: release_def split: option.split bool.split)
qed

lemma abort_keeps:
  assumes "P L" "\<And>M ls. P M \<Longrightarrow> P (M\<lparr>listeners := ls\<rparr>)" "\<And>M ab. P M \<Longrightarrow> P (M\<lparr>aborted := ab\<rparr>)"
    "\<And>c M. P M \<Longrightarrow> P (on_abort c M)"
  shows "P (abort s L)"
proof -
  have "P (fold (fire s) cs M)" if "P M" for cs M
    using that by (induction cs arbitrary: M) (simp_all add: fire_def assms)
  then show ?thesis using assms(1,3) by (simp add: abort_def)
qed

section \<open>Only an aborted wait is cancelled\<close>

definition cancelled_ok :: "limiter \<Rightarrow> bool" where
  "cancelled_ok L =
     ((\<forall>c w. waiters L c = Some w \<and> w_state w = Cancelled \<longrightarrow> signal_aborted (w_signal w) L) \<and>
      (\<forall>s c. c \<in> set (listeners L s) \<longrightarrow> (\<exists>w. waiters L c = Some w \<and> w_signal w = Some s)))"

lemma signal_aborted_iff: "signal_aborted sig L \<longleftrightarrow> (\<exists>s. sig = Some s \<and> aborted L s)"
  by (simp add: signal_aborted_def split: option.split)

lemma cancelled_update:
  assumes ok: "cancelled_ok L" and ab: "\<And>s. aborted L s \<Longrightarrow> aborted L' s"
    and new: "\<And>c w. waiters L' c = Some w \<Longrightarrow> w_state w = Cancelled \<Longrightarrow>
        waiters L c = Some w \<or> signal_aborted (w_signal w) L'"
    and sig: "\<And>c w. waiters L c = Some w \<Longrightarrow> \<exists>w'. waiters L' c = Some w' \<and> w_signal w' = w_signal w"
    and ls: "\<And>s. set (listeners L' s) \<subseteq> set (listeners L s)"
  shows "cancelled_ok L'"
  unfolding cancelled_ok_def
proof (intro conjI allI impI)
  fix c w assume "waiters L' c = Some w \<and> w_state w = Cancelled"
  with new [of c w] ok ab show "signal_aborted (w_signal w) L'"
    unfolding cancelled_ok_def signal_aborted_iff by blast
next
  fix s c assume "c \<in> set (listeners L' s)"
  with ls ok obtain w where "waiters L c = Some w" "w_signal w = Some s" unfolding cancelled_ok_def by blast
  with sig [of c w] show "\<exists>w. waiters L' c = Some w \<and> w_signal w = Some s" by auto
qed

lemma cancelled_set_waiter:
  "cancelled_ok L \<Longrightarrow> waiters L c = Some w \<Longrightarrow> s = Cancelled \<longrightarrow> signal_aborted (w_signal w) L \<Longrightarrow>
   cancelled_ok (set_waiter c (w\<lparr>w_state := s\<rparr>) L)"
  by (erule cancelled_update) (auto simp: set_waiter_def signal_aborted_iff split: if_splits)

lemma cancelled_unlisten: "cancelled_ok L \<Longrightarrow> cancelled_ok (unlisten c w L)"
  by (erule cancelled_update) (auto simp: unlisten_def split: option.split dest: set_mp [OF set_remove1_subset])

lemma cancelled_same:
  "cancelled_ok L \<Longrightarrow> waiters L' = waiters L \<Longrightarrow> listeners L' = listeners L \<Longrightarrow> aborted L' = aborted L \<Longrightarrow> cancelled_ok L'"
  by (erule cancelled_update) auto

lemma cancelled_slot_kept: "slot_kept cancelled_ok key"
  unfolding slot_kept_def
proof (intro allI impI conjI)
  fix L q cs c w
  assume ok: "cancelled_ok L"
  show "cancelled_ok (L\<lparr>queues := (queues L)(q := cs)\<rparr>)" "cancelled_ok (forget_queue key L)" "cancelled_ok (give_back key L)"
    using ok by (rule cancelled_same; simp add: forget_queue_def give_back_def Let_def)+
  assume w: "waiters L c = Some w \<and> w_state w = Queued"
  show "cancelled_ok (release_once c key (set_waiter c (w\<lparr>w_state := Granted\<rparr>) L))"
    by (rule cancelled_same [OF cancelled_set_waiter [OF ok conjunct1 [OF w], of Granted]])
       (simp_all add: release_once_def)
  assume "signal_aborted (w_signal w) L"
  then show "cancelled_ok (unlisten c w (set_waiter c (w\<lparr>w_state := Cancelled\<rparr>) L))"
    using ok w by (intro cancelled_unlisten cancelled_set_waiter) auto
qed

lemma release_cancelled: "cancelled_ok L \<Longrightarrow> cancelled_ok (release c L)"
  by (rule release_keeps [OF cancelled_slot_kept]) (auto intro: cancelled_same)

lemma on_abort_cancelled:
  assumes "cancelled_ok L" "\<And>w. waiters L c = Some w \<Longrightarrow> signal_aborted (w_signal w) L"
  shows "cancelled_ok (on_abort c L)"
proof (cases "waiters L c")
  case (Some w)
  have u: "cancelled_ok (set_waiter c (w\<lparr>w_state := Cancelled\<rparr>) L)"
    using assms Some by (intro cancelled_set_waiter) auto
  then show ?thesis using Some assms(1)
    by (auto simp: on_abort_def Let_def forget_queue_def set_waiter_def intro: cancelled_same release_cancelled
        split: waiter_state.split)
qed (use assms in \<open>simp add: on_abort_def\<close>)

lemma aborted_release [simp]: "aborted (release c L) = aborted L"
  by (rule release_keeps [where P = "\<lambda>M. aborted M = aborted L"])
     (auto simp: slot_kept_def set_waiter_def release_once_def forget_queue_def give_back_def Let_def)

lemma aborted_on_abort [simp]: "aborted (on_abort c L) = aborted L"
  by (simp add: on_abort_def Let_def set_waiter_def forget_queue_def split: option.split waiter_state.split)

lemma abort_cancelled:
  assumes "cancelled_ok L"
  shows "cancelled_ok (abort s L)"
proof -
  have "cancelled_ok (fold (fire s) cs M)" if "cancelled_ok M" "aborted M s" for cs M
    using that
  proof (induction cs arbitrary: M)
    case (Cons c cs)
    let ?M = "M\<lparr>listeners := (listeners M)(s := remove1 c (listeners M s))\<rparr>"
    have M: "cancelled_ok ?M" using Cons.prems(1)
      by (rule cancelled_update) (auto dest: set_mp [OF set_remove1_subset])
    have "cancelled_ok (fire s c M) \<and> aborted (fire s c M) s"
    proof (cases "c \<in> set (listeners M s)")
      case True
      then have "\<exists>w. waiters M c = Some w \<and> w_signal w = Some s" using Cons.prems(1) by (simp add: cancelled_ok_def)
      then have "signal_aborted (w_signal w) ?M" if "waiters ?M c = Some w" for w
        using that Cons.prems(2) by (auto simp: signal_aborted_iff)
      then show ?thesis using True M Cons.prems(2) on_abort_cancelled [OF M] by (simp add: fire_def)
    qed (use Cons.prems in \<open>simp add: fire_def\<close>)
    then show ?case using Cons.IH by simp
  qed simp
  moreover have "cancelled_ok (L\<lparr>aborted := (aborted L)(s := True)\<rparr>)"
    using assms by (rule cancelled_update) auto
  ultimately show ?thesis using assms by (simp add: abort_def)
qed

lemma resume_cancelled: "cancelled_ok L \<Longrightarrow> cancelled_ok (snd (resume c L))"
  by (auto simp: resume_def intro!: release_cancelled cancelled_set_waiter cancelled_unlisten split: option.split)

lemma acquire_cancelled:
  assumes ok: "cancelled_ok L" and new: "waiters L c = None"
  shows "cancelled_ok (snd (acquire c key limit sig L))"
proof -
  have add: "cancelled_ok (case sig of None \<Rightarrow> M | Some s \<Rightarrow> M\<lparr>listeners := (listeners M)(s := listeners M s @ [c])\<rparr>)"
    if "M = set_waiter c (\<lparr>w_key = key, w_state = Queued, w_signal = sig, w_queue = q\<rparr>) (L\<lparr>queues := qs, waiting := ws\<rparr>)" for M q qs ws
  proof -
    have M: "cancelled_ok M" using ok by (rule cancelled_update) (use new that in \<open>auto simp: set_waiter_def split: if_splits\<close>)
    have "waiters M c = Some (\<lparr>w_key = key, w_state = Queued, w_signal = sig, w_queue = q\<rparr>)" using that by (simp add: set_waiter_def)
    then show ?thesis using M by (auto simp: cancelled_ok_def signal_aborted_iff split: option.split)
  qed
  have "cancelled_ok (release_once c key (L\<lparr>in_flight := f\<rparr>))" for f
    using ok by (rule cancelled_same) (simp_all add: release_once_def)
  then show ?thesis using ok add by (simp add: acquire_def Let_def)
qed

interpretation cancels: kept_invariant empty_limiter "limiter_step cap" cancelled_ok for cap
proof (unfold_locales, goal_cases)
  case 1
  show ?case by (simp add: cancelled_ok_def empty_limiter_def)
next
  case (2 L L')
  from 2(2,1) show ?case
    by cases (auto simp: acquire_cancelled abort_cancelled resume_cancelled release_cancelled)
qed


section \<open>Properties\<close>

text \<open>
  C13. A slot is never lost and never given twice: the slots in flight for a key are exactly its
  release functions that have not been called, they are never more than the limit, and a call waits
  only while every slot is taken.
\<close>

theorem slots_are_conserved:
  assumes "reachable empty_limiter (limiter_step cap) L"
  shows "active key L = card (holders key L) \<and> active key L \<le> cap key \<and>
     (queued c key q L \<longrightarrow> active key L = cap key)"
proof -
  have ok: "limiter_ok cap L" using assms by (rule slots.holds)
  have "active key L = cap key" if "queued c key q L"
    using ok queued_in_line [OF ok that] by (auto simp: limiter_ok_def lined_up_def line_ok_def)
  then show ?thesis using ok countedD(3,4) [of None cap L key] by (auto simp: limiter_ok_def)
qed

text \<open>Runs with the number of slots of a key given back in them.\<close>

inductive limiter_run :: "(string \<Rightarrow> nat) \<Rightarrow> string \<Rightarrow> nat \<Rightarrow> limiter \<Rightarrow> limiter \<Rightarrow> bool" for cap key where
  run_start: "limiter_run cap key 0 L L"
| run_release: "limiter_run cap key n L M \<Longrightarrow> callers_slot d M \<Longrightarrow> d \<in> holders key M \<Longrightarrow>
    limiter_run cap key (Suc n) L (release d M)"
| run_other: "limiter_run cap key n L M \<Longrightarrow> limiter_step cap M N \<Longrightarrow> limiter_run cap key n L N"

lemma limiter_run_reachable:
  "limiter_run cap key n L M \<Longrightarrow> reachable empty_limiter (limiter_step cap) L \<Longrightarrow>
   reachable empty_limiter (limiter_step cap) M"
  by (induction rule: limiter_run.induct) (auto intro: reachable_step limiter_step.intros)

text \<open>A call keeps its key, signal and queue, and does not queue again.\<close>

definition same_call :: "limiter \<Rightarrow> limiter \<Rightarrow> bool" where
  "same_call L L' =
     ((\<forall>c w. waiters L c = Some w \<longrightarrow> (\<exists>w'. waiters L' c = Some w' \<and> w_key w' = w_key w \<and> w_signal w' = w_signal w \<and> w_queue w' = w_queue w \<and>
         (w_state w' = Queued \<longrightarrow> w_state w = Queued))))"

lemma same_call_refl: "waiters L' = waiters L \<Longrightarrow> same_call L L'"
  by (simp add: same_call_def)

lemma same_call_trans: "same_call L M \<Longrightarrow> same_call M N \<Longrightarrow> same_call L N"
  unfolding same_call_def by metis

lemma same_call_set_waiter:
  "waiters L c = Some w \<Longrightarrow> s \<noteq> Queued \<or> w_state w = Queued \<Longrightarrow> same_call L (set_waiter c (w\<lparr>w_state := s\<rparr>) L)"
  by (auto simp: same_call_def set_waiter_def)

lemma same_call_update: "same_call L M \<Longrightarrow> waiters N = waiters M \<Longrightarrow> same_call L N"
  by (simp add: same_call_def)

lemma release_same_call: "same_call L (release c L)"
proof (rule release_keeps [where P = "same_call L"])
  fix key
  show "slot_kept (same_call L) key"
    unfolding slot_kept_def
  proof (intro allI impI conjI)
    fix M q cs c w
    assume M: "same_call L M"
    show "same_call L (M\<lparr>queues := (queues M)(q := cs)\<rparr>)" "same_call L (forget_queue key M)" "same_call L (give_back key M)"
      using M by (rule same_call_update; simp add: forget_queue_def give_back_def Let_def)+
    assume w: "waiters M c = Some w \<and> w_state w = Queued"
    then have "same_call L (set_waiter c (w\<lparr>w_state := s\<rparr>) M)" for s
      using same_call_trans [OF M same_call_set_waiter] by simp
    then show "same_call L (release_once c key (set_waiter c (w\<lparr>w_state := Granted\<rparr>) M))"
      "same_call L (unlisten c w (set_waiter c (w\<lparr>w_state := Cancelled\<rparr>) M))"
      by (rule same_call_update; simp add: release_once_def)+
  qed
qed (simp_all add: same_call_refl)

lemma on_abort_same_call: "same_call L (on_abort c L)"
proof (cases "waiters L c")
  case (Some w)
  have u: "same_call L (set_waiter c (w\<lparr>w_state := Cancelled\<rparr>) L)"
    using Some by (intro same_call_set_waiter) auto
  then show ?thesis using Some
    by (auto simp: on_abort_def Let_def set_waiter_def forget_queue_def intro: same_call_update
        same_call_trans release_same_call same_call_refl split: waiter_state.split)
qed (simp add: on_abort_def same_call_refl)

lemma abort_same_call: "same_call L (abort s L)"
  by (rule abort_keeps [where P = "same_call L"])
     (auto intro: same_call_update same_call_trans on_abort_same_call simp: same_call_refl)

lemma step_same_call: "limiter_step cap L L' \<Longrightarrow> same_call L L'"
proof (induction rule: limiter_step.cases)
  case (step_acquire c L key sig)
  then show ?case
    by (auto simp: same_call_def acquire_def release_once_def set_waiter_def Let_def split: option.split)
next
  case (step_resume c L)
  then show ?case
    by (auto simp: resume_def same_call_refl intro: same_call_set_waiter same_call_update
        same_call_trans [OF same_call_set_waiter release_same_call] split: option.split)
qed (simp_all add: release_same_call abort_same_call)

lemma run_same_call: "limiter_run cap key n L M \<Longrightarrow> same_call L M"
  by (induction rule: limiter_run.induct)
     (auto intro: same_call_refl same_call_trans release_same_call step_same_call)

lemma same_call_queued: "same_call L M \<Longrightarrow> queued c key q M \<Longrightarrow> waiters L c \<noteq> None \<Longrightarrow> queued c key q L"
  unfolding same_call_def queued_def by (metis not_Some_eq option.inject)

lemma run_ahead:
  assumes "limiter_run cap key n L M" "reachable empty_limiter (limiter_step cap) L"
    "queued c key q L" "queued c key q M"
  shows "ahead c q M + n \<le> ahead c q L"
  using assms
proof (induction rule: limiter_run.induct)
  case (run_release n L M d)
  have "waiters M c \<noteq> None" using run_same_call [OF run_release(1)] run_release.prems(2)
    by (auto simp: same_call_def queued_def)
  from same_call_queued [OF release_same_call run_release.prems(3) this] have q: "queued c key q M" .
  have ok: "limiter_ok cap M" by (rule slots.holds) (use limiter_run_reachable run_release in blast)
  have g: "w_state w \<noteq> Granted" if "waiters M d = Some w" for w
    using run_release(2) that by (simp add: callers_slot_def)
  have "releases M d = Some (key, False)" using run_release(3) by (simp add: holders_def)
  from release_moves_line [OF ok release_ok [OF ok g] q this run_release.prems(3)] run_release.IH [OF run_release.prems(1,2) q]
  show ?case by simp
next
  case (run_other n L M N)
  have "waiters M c \<noteq> None" using run_same_call [OF run_other(1)] run_other.prems(2)
    by (auto simp: same_call_def queued_def)
  from same_call_queued [OF step_same_call [OF run_other(2)] run_other.prems(3) this] have q: "queued c key q M" .
  have ok: "limiter_ok cap M" by (rule slots.holds) (use limiter_run_reachable run_other in blast)
  from step_line [OF run_other(2) ok q run_other.prems(3)] run_other.IH [OF run_other.prems(1,2) q] show ?case by simp
qed simp

text \<open>
  C14. Waiting ends: a call that has n calls before it in line has left the line once n + 1 slots of
  its key have been given back, whatever else happens in between, and if its signal has not been
  aborted it has been granted its slot.
\<close>

theorem waiting_ends:
  assumes "reachable empty_limiter (limiter_step cap) L" "queued c key q L"
    "limiter_run cap key n L M" "ahead c q L < n"
  shows "\<exists>w. waiters M c = Some w \<and> w_state w \<noteq> Queued \<and>
     (\<not> signal_aborted (w_signal w) M \<longrightarrow> w_state w = Granted \<or> w_state w = Accepted)"
proof -
  obtain v where v: "waiters L c = Some v" "w_key v = key" "w_queue v = q" using assms(2) by (auto simp: queued_def)
  from run_same_call [OF assms(3)] v obtain w where w: "waiters M c = Some w" "w_key w = key" "w_queue w = q"
    by (auto simp: same_call_def)
  have "\<not> queued c key q M" using run_ahead [OF assms(3,1,2)] assms(4) by auto
  then have nq: "w_state w \<noteq> Queued" using w by (auto simp: queued_def)
  have "cancelled_ok M" by (rule cancels.holds [OF limiter_run_reachable [OF assms(3,1)]])
  then have "w_state w = Cancelled \<longrightarrow> signal_aborted (w_signal w) M" using w by (simp add: cancelled_ok_def)
  then show ?thesis using w nq by (cases "w_state w") auto
qed


text \<open>A limit of one: the second call waits, and gets the slot the first gives back.\<close>

definition one_slot :: "string \<Rightarrow> nat" where "one_slot key = 1"

definition two_calls :: limiter where
  "two_calls = snd (acquire 2 ''k'' 1 None (snd (acquire 1 ''k'' 1 None empty_limiter)))"

lemma two_calls_reachable: "reachable empty_limiter (limiter_step one_slot) two_calls"
proof -
  let ?L = "snd (acquire 1 ''k'' (one_slot ''k'') None empty_limiter)"
  have "reachable empty_limiter (limiter_step one_slot) ?L"
    by (intro reachable_step [OF reachable_start] step_acquire) (simp_all add: empty_limiter_def)
  moreover have "waiters ?L 2 = None" "releases ?L 2 = None"
    by (simp_all add: one_slot_def acquire_def empty_limiter_def signal_aborted_def active_def release_once_def)
  ultimately have r: "reachable empty_limiter (limiter_step one_slot) ?L"
    and s: "limiter_step one_slot ?L (snd (acquire 2 ''k'' (one_slot ''k'') None ?L))" by (auto intro: step_acquire)
  have "reachable empty_limiter (limiter_step one_slot) (snd (acquire 2 ''k'' (one_slot ''k'') None ?L))"
    using r s by (rule reachable_step)
  then show ?thesis by (simp add: two_calls_def one_slot_def)
qed

lemma two_calls_queued: "queued 2 ''k'' 2 two_calls" "ahead 2 2 two_calls = 0" "callers_slot 1 two_calls"
  "1 \<in> holders ''k'' two_calls"
  by (simp_all add: two_calls_def acquire_def empty_limiter_def signal_aborted_def active_def release_once_def
      set_waiter_def queued_def ahead_def callers_slot_def holders_def)

theorem slots_witness: "active ''k'' two_calls = 1"
  using slots_are_conserved [OF two_calls_reachable, of "''k''" 2 2] two_calls_queued(1) by (simp add: one_slot_def)

theorem waiting_ends_witness:
  "\<exists>w. waiters (release 1 two_calls) 2 = Some w \<and> w_state w \<noteq> Queued"
proof -
  have "limiter_run one_slot ''k'' 1 two_calls (release 1 two_calls)"
    using run_release [OF run_start two_calls_queued(3,4)] by simp
  from waiting_ends [OF two_calls_reachable two_calls_queued(1) this] two_calls_queued(2) show ?thesis by auto
qed

end
