(* ===== verification/Connector_Policy.thy ===== *)
theory Connector_Policy
  imports OSF_Prelude
begin

text \<open>
  The declared reliability policy of a connector operation (\<open>connectors/reliability.ts\<close>): what may be
  retried and after which delay, the fixed-window \<open>RateLimiter\<close> and the \<open>CircuitBreaker\<close>.  A clock reading
  is an integer of milliseconds and is an argument, as in the code.  The rate limiter is shown to let
  through at most twice its rate in any minute, the breaker to answer exactly what the newest results of
  its upstream specify.
\<close>

section \<open>Retry policy\<close>

datatype operation_kind = QueryOperation | MutationOperation

record reliability =
  attempt_ms :: int
  total_ms :: int
  retry_eligible :: bool
  max_attempts :: nat
  backoff :: string
  idempotency :: "string option"
  per_tenant :: nat
  per_minute :: "nat option"
  circuit_breaker :: "(nat \<times> int) option"

definition may_retry :: "operation_kind \<Rightarrow> reliability \<Rightarrow> bool" where
  "may_retry kind r =
     (if \<not> retry_eligible r then False
      else if kind = QueryOperation then True
      else idempotency r \<noteq> None)"

definition backoff_delay_ms :: "nat \<Rightarrow> reliability \<Rightarrow> int \<Rightarrow> int" where
  "backoff_delay_ms attempt r base_ms =
     (if backoff r = ''fixed'' then base_ms else base_ms * 2 ^ (attempt - 1))"

section \<open>The rate limiter\<close>

record window =
  w_started :: int
  w_count :: nat

type_synonym windows = "string \<Rightarrow> window option"

definition try_consume :: "string \<Rightarrow> nat \<Rightarrow> int \<Rightarrow> windows \<Rightarrow> bool \<times> windows" where
  "try_consume key per_min now W =
     (case W key of
        None \<Rightarrow> (True, W(key := Some \<lparr>w_started = now, w_count = 1\<rparr>))
      | Some w \<Rightarrow>
          (if now - w_started w \<ge> 60000 then (True, W(key := Some \<lparr>w_started = now, w_count = 1\<rparr>))
           else if w_count w \<ge> per_min then (False, W)
           else (True, W(key := Some (w\<lparr>w_count := w_count w + 1\<rparr>)))))"

text \<open>The accepted ones of a sequence of calls for a key, each with the start of its window.\<close>

primrec accepted_calls :: "string \<Rightarrow> nat \<Rightarrow> int list \<Rightarrow> windows \<Rightarrow> (int \<times> int) list" where
  "accepted_calls key n [] W = []"
| "accepted_calls key n (t # ts) W =
     (case try_consume key n t W of
        (ok, W') \<Rightarrow>
          (if ok then [(case W' key of Some w \<Rightarrow> w_started w | None \<Rightarrow> t, t)] else []) @
          accepted_calls key n ts W')"

lemma accepted_in_window:
  assumes "sorted ts" "case W key of None \<Rightarrow> True | Some w \<Rightarrow> \<forall>t\<in>set ts. w_started w \<le> t"
    "(s, t) \<in> set (accepted_calls key n ts W)"
  shows "s \<le> t \<and> t < s + 60000"
  using assms
proof (induction ts arbitrary: W)
  case (Cons u us)
  obtain ok W' where c: "try_consume key n u W = (ok, W')" by fastforce
  have "case W' key of None \<Rightarrow> True | Some w \<Rightarrow> \<forall>t\<in>set us. w_started w \<le> t"
    using c Cons.prems(1,2) by (auto simp: try_consume_def split: option.splits if_splits)
  moreover have "s \<le> u \<and> u < s + 60000" if "ok" "(s, t) = (case W' key of Some w \<Rightarrow> w_started w | None \<Rightarrow> u, u)"
    using that c Cons.prems(1,2) by (auto simp: try_consume_def split: option.splits if_splits)
  ultimately show ?case using Cons.IH [of W'] Cons.prems c by (auto split: if_splits)
qed simp

text \<open>Later windows start at least a minute after the one there is.\<close>

lemma later_windows:
  assumes "(s, t) \<in> set (accepted_calls key n ts W)" "W key = Some w"
  shows "s = w_started w \<or> w_started w + 60000 \<le> s"
  using assms
proof (induction ts arbitrary: W w)
  case (Cons u us)
  obtain ok W' where c: "try_consume key n u W = (ok, W')" by fastforce
  obtain w' where w': "W' key = Some w'" "w_started w' = w_started w \<or> w_started w + 60000 \<le> w_started w'"
    using c Cons.prems(2) by (auto simp: try_consume_def split: option.splits if_splits)
  from Cons.prems(1) c w' have "s = w_started w' \<or> (s, t) \<in> set (accepted_calls key n us W')"
    by (auto split: if_splits)
  then show ?case using Cons.IH [of W' w'] w' by auto
qed simp

lemma windows_apart:
  assumes "(s, t) \<in> set (accepted_calls key n ts W)" "(s', t') \<in> set (accepted_calls key n ts W)"
  shows "s = s' \<or> s + 60000 \<le> s' \<or> s' + 60000 \<le> s"
  using assms
proof (induction ts arbitrary: W)
  case (Cons u us)
  obtain ok W' where c: "try_consume key n u W = (ok, W')" by fastforce
  show ?case
  proof (cases "W' key")
    case None
    then have False using c by (auto simp: try_consume_def split: option.splits if_splits)
    then show ?thesis ..
  next
    case (Some w')
    have h: "(a, b) \<in> set (accepted_calls key n (u # us) W) \<Longrightarrow> a = w_started w' \<or> (a, b) \<in> set (accepted_calls key n us W')" for a b
      using c Some by (auto split: if_splits)
    from h [OF Cons.prems(1)] h [OF Cons.prems(2)] show ?thesis
      using Cons.IH [of W'] later_windows [of _ _ key n us W' w'] Some by blast
  qed
qed simp

definition in_window :: "int \<Rightarrow> (int \<times> int) list \<Rightarrow> nat" where
  "in_window s cs = length (filter (\<lambda>c. fst c = s) cs)"

lemma in_window_Cons: "in_window s (c # cs) = (if fst c = s then 1 else 0) + in_window s cs"
  by (simp add: in_window_def)

lemma old_window_over:
  assumes "W key = Some w" "s < w_started w"
  shows "in_window s (accepted_calls key n ts W) = 0"
proof -
  have "fst x \<noteq> s" if "x \<in> set (accepted_calls key n ts W)" for x
    using later_windows [of "fst x" "snd x" key n ts W w] that assms by auto
  then show ?thesis by (simp add: in_window_def filter_empty_conv)
qed

definition window_load :: "string \<Rightarrow> int \<Rightarrow> windows \<Rightarrow> nat" where
  "window_load key s W = (case W key of None \<Rightarrow> 0 | Some w \<Rightarrow> if w_started w = s then w_count w else 0)"

lemma window_counts:
  assumes "0 < n" "\<And>w. W key = Some w \<Longrightarrow> w_count w \<le> n"
  shows "in_window s (accepted_calls key n ts W) + window_load key s W \<le> n"
  using assms
proof (induction ts arbitrary: W)
  case Nil
  then show ?case by (cases "W key") (auto simp: in_window_def window_load_def)
next
  case (Cons u us)
  define W1 where "W1 = W(key := Some \<lparr>w_started = u, w_count = 1\<rparr>)"
  have IH1: "in_window s (accepted_calls key n us W1) + window_load key s W1 \<le> n"
    by (rule Cons.IH) (use Cons.prems(1) in \<open>auto simp: W1_def\<close>)
  have L1: "window_load key s W1 = (if u = s then 1 else 0)" by (simp add: window_load_def W1_def)
  show ?case
  proof (cases "W key")
    case None
    then have "accepted_calls key n (u # us) W = (u, u) # accepted_calls key n us W1"
      by (simp add: try_consume_def W1_def)
    then show ?thesis using IH1 L1 None by (simp add: in_window_Cons window_load_def)
  next
    case (Some w)
    consider (new) "w_started w + 60000 \<le> u" | (full) "\<not> w_started w + 60000 \<le> u" "n \<le> w_count w"
      | (more) "\<not> w_started w + 60000 \<le> u" "w_count w < n" by linarith
    then show ?thesis
    proof cases
      case new
      then have A: "accepted_calls key n (u # us) W = (u, u) # accepted_calls key n us W1"
        using Some by (simp add: try_consume_def W1_def)
      show ?thesis
      proof (cases "w_started w = s")
        case True
        then have "in_window s (accepted_calls key n us W1) = 0"
          using new by (intro old_window_over) (auto simp: W1_def)
        then show ?thesis using A True new Cons.prems(2) [OF Some] Some by (simp add: in_window_Cons window_load_def)
      next
        case False
        then show ?thesis using A IH1 L1 Some by (simp add: in_window_Cons window_load_def)
      qed
    next
      case full
      then have A: "accepted_calls key n (u # us) W = accepted_calls key n us W"
        using Some by (simp add: try_consume_def)
      have "in_window s (accepted_calls key n us W) + window_load key s W \<le> n"
        using Cons.prems by (intro Cons.IH) auto
      then show ?thesis by (simp only: A)
    next
      case more
      define W2 where "W2 = W(key := Some (w\<lparr>w_count := w_count w + 1\<rparr>))"
      have A: "accepted_calls key n (u # us) W = (w_started w, u) # accepted_calls key n us W2"
        using Some more by (simp add: try_consume_def W2_def)
      have "in_window s (accepted_calls key n us W2) + window_load key s W2 \<le> n"
        by (rule Cons.IH) (use Cons.prems(1) more in \<open>auto simp: W2_def\<close>)
      moreover have "window_load key s W2 = (if w_started w = s then w_count w + 1 else 0)"
        by (simp add: window_load_def W2_def)
      ultimately show ?thesis unfolding A using Some by (auto simp: in_window_Cons window_load_def split: if_splits)
    qed
  qed
qed

lemma two_starts:
  fixes S :: "int set"
  assumes apart: "\<And>a b. a \<in> S \<Longrightarrow> b \<in> S \<Longrightarrow> a = b \<or> a + 60000 \<le> b \<or> b + 60000 \<le> a"
    and range: "\<And>a. a \<in> S \<Longrightarrow> t - 60000 < a \<and> a < t + 60000"
  shows "\<exists>a b. S \<subseteq> {a, b}"
proof (rule ccontr)
  assume none: "\<nexists>a b. S \<subseteq> {a, b}"
  then obtain a where a: "a \<in> S" by blast
  from none obtain b where b: "b \<in> S" "b \<noteq> a" by blast
  from none obtain c where c: "c \<in> S" "c \<noteq> a" "c \<noteq> b" by blast
  from apart [OF a b(1)] apart [OF a c(1)] apart [OF b(1) c(1)] range [OF a] range [OF b(1)] range [OF c(1)] b c
  show False by auto
qed

lemma length_filter_two:
  "(\<And>x. x \<in> set xs \<Longrightarrow> P x \<Longrightarrow> f x = a \<or> f x = b) \<Longrightarrow>
   length (filter P xs) \<le> length (filter (\<lambda>x. f x = a) xs) + length (filter (\<lambda>x. f x = b) xs)"
proof (induction xs)
  case (Cons x xs)
  have "length (filter P xs) \<le> length (filter (\<lambda>x. f x = a) xs) + length (filter (\<lambda>x. f x = b) xs)"
    by (rule Cons.IH) (use Cons.prems in auto)
  moreover have "P x \<Longrightarrow> f x = a \<or> f x = b" using Cons.prems by simp
  ultimately show ?case by (cases "P x") auto
qed simp

text \<open>
  C17. However the calls of a tenant fall, at most twice the rate are let through in any minute: a
  fixed window lets through the rate, and a minute touches at most two windows.
\<close>

theorem rate_is_at_most_doubled:
  assumes "sorted ts" "0 < n"
  shows "length (filter (\<lambda>(s, u). t \<le> u \<and> u < t + 60000) (accepted_calls key n ts (\<lambda>_. None))) \<le> 2 * n"
proof -
  let ?A = "accepted_calls key n ts (\<lambda>_. None)"
  let ?S = "{s. \<exists>u. (s, u) \<in> set ?A \<and> t \<le> u \<and> u < t + 60000}"
  have "\<exists>a b. ?S \<subseteq> {a, b}"
  proof (rule two_starts [where t = t])
    fix a b assume "a \<in> ?S" "b \<in> ?S"
    then show "a = b \<or> a + 60000 \<le> b \<or> b + 60000 \<le> a" using windows_apart by blast
  next
    fix a assume "a \<in> ?S"
    then show "t - 60000 < a \<and> a < t + 60000"
      using accepted_in_window [OF assms(1), of "\<lambda>_. None" key a _ n] by fastforce
  qed
  then obtain a b where ab: "?S \<subseteq> {a, b}" by blast
  have "length (filter (\<lambda>(s, u). t \<le> u \<and> u < t + 60000) ?A) \<le> in_window a ?A + in_window b ?A"
    unfolding in_window_def by (rule length_filter_two) (use ab in auto)
  moreover have "in_window a ?A \<le> n" "in_window b ?A \<le> n"
    using window_counts [OF assms(2), of "\<lambda>_. None" key _ ts] by (simp_all add: window_load_def)
  ultimately show ?thesis by simp
qed

theorem rate_witness: "length (filter (\<lambda>(s, u). 0 \<le> u \<and> u < 60000) (accepted_calls ''k'' 1 [0, 1, 60000] (\<lambda>_. None))) \<le> 2"
  using rate_is_at_most_doubled [of "[0, 1, 60000]" 1 0 "''k''"] by simp

section \<open>The circuit breaker\<close>

datatype breaker_state = Closed | Open | HalfOpen

record circuit =
  failures :: nat
  opened_at :: "int option"

type_synonym circuits = "string \<Rightarrow> circuit option"

definition breaker_state_of :: "string \<Rightarrow> int \<Rightarrow> int \<Rightarrow> circuits \<Rightarrow> breaker_state" where
  "breaker_state_of key reset_after now C =
     (case C key of
        None \<Rightarrow> Closed
      | Some c \<Rightarrow>
          (case opened_at c of
             None \<Rightarrow> Closed
           | Some t \<Rightarrow> (if now - t \<ge> reset_after then HalfOpen else Open)))"

definition record_success :: "string \<Rightarrow> circuits \<Rightarrow> circuits" where
  "record_success key C = C(key := None)"

definition record_failure :: "string \<Rightarrow> nat \<Rightarrow> int \<Rightarrow> circuits \<Rightarrow> circuits" where
  "record_failure key threshold now C =
     (let c = (case C key of Some c \<Rightarrow> c | None \<Rightarrow> \<lparr>failures = 0, opened_at = None\<rparr>);
          c1 = c\<lparr>failures := failures c + 1\<rparr>
      in C(key := Some (if failures c1 \<ge> threshold then c1\<lparr>opened_at := Some now\<rparr> else c1)))"

text \<open>What happened to an upstream, newest first, and what a breaker is specified to make of it.\<close>

datatype upstream_event = Succeeded | Failed int

fun after_events :: "string \<Rightarrow> nat \<Rightarrow> upstream_event list \<Rightarrow> circuits" where
  "after_events key threshold [] = (\<lambda>_. None)"
| "after_events key threshold (Succeeded # es) = record_success key (after_events key threshold es)"
| "after_events key threshold (Failed t # es) = record_failure key threshold t (after_events key threshold es)"

fun failure_run :: "upstream_event list \<Rightarrow> int list" where
  "failure_run (Failed t # es) = t # failure_run es"
| "failure_run es = []"

definition specified_state :: "nat \<Rightarrow> int \<Rightarrow> int \<Rightarrow> upstream_event list \<Rightarrow> breaker_state" where
  "specified_state threshold reset_after now es =
     (case failure_run es of
        [] \<Rightarrow> Closed
      | t # ts \<Rightarrow>
          (if Suc (length ts) < threshold then Closed
           else if now - t \<ge> reset_after then HalfOpen else Open))"

lemma after_events_circuit:
  "after_events key threshold es key =
     (case failure_run es of
        [] \<Rightarrow> None
      | t # ts \<Rightarrow> Some \<lparr>failures = Suc (length ts), opened_at = (if Suc (length ts) < threshold then None else Some t)\<rparr>)"
proof (induction key threshold es rule: after_events.induct)
  case (3 key threshold t es)
  then show ?case by (auto simp: record_failure_def Let_def split: list.splits)
qed (simp_all add: record_success_def)

text \<open>
  C18. The breaker does what it is specified to do: after any history it is open exactly if the last
  results were failures, at least as many as the threshold, the newest less than the reset time ago.
\<close>

theorem breaker_refines_its_history:
  "breaker_state_of key reset_after now (after_events key threshold es) =
   specified_state threshold reset_after now es"
  by (auto simp: breaker_state_of_def specified_state_def after_events_circuit split: list.split)

end
