(* ===== verification/Connector_Governor.thy ===== *)
theory Connector_Governor
  imports Connector_Limiter Connector_Policy
begin

text \<open>
  \<open>ConnectorGovernor.run\<close> of \<open>connectors/reliability.ts\<close>: rate limit, circuit breaker, slot, attempts and
  back-off of one call, composed of the limiter, the rate limiter and the breaker.  A run is a phase per
  \<open>await\<close> of the code; \<open>governor_step\<close> interleaves the stretches between the awaits of any number of runs
  with aborted signals.  What an attempt yields, the clock and the classification of a provider's error
  (\<open>providerOutcomeOf\<close>) come from outside and are arguments of the steps.  The invariant says which run
  holds which slot in every phase.
\<close>

section \<open>Runs\<close>

record provider_outcome =
  o_retryable :: bool
  o_retry_at :: "int option"

record 'e attempt_error =
  e_cause :: 'e
  e_outcome :: "provider_outcome option"

datatype ('e, 'r) result =
    Returned 'r
  | RateLimited
  | CircuitOpen
  | Interrupted
  | AttemptFailed "'e attempt_error option"

datatype ('e, 'r) phase = Waiting | Attempting nat | Sleeping nat | Finished "('e, 'r) result"

record governor_options =
  go_connector :: string
  go_operation :: string
  go_kind :: operation_kind
  go_tenant :: string
  go_reliability :: reliability
  go_signal :: "nat option"

record ('e, 'r) governed_run =
  r_options :: governor_options
  r_phase :: "('e, 'r) phase"
  r_started :: int
  r_last :: "'e attempt_error option"
  r_attempts :: nat

record ('e, 'r) governor =
  g_limiter :: limiter
  g_rate :: windows
  g_circuits :: circuits
  g_runs :: "nat \<Rightarrow> ('e, 'r) governed_run option"

definition empty_governor :: "('e, 'r) governor" where
  "empty_governor = \<lparr>g_limiter = empty_limiter, g_rate = \<lambda>_. None, g_circuits = \<lambda>_. None, g_runs = \<lambda>_. None\<rparr>"

definition upstream_key :: "governor_options \<Rightarrow> string" where
  "upstream_key opts = go_connector opts @ '':'' @ go_operation opts"

definition tenant_key :: "governor_options \<Rightarrow> string" where
  "tenant_key opts = go_connector opts @ '':'' @ go_operation opts @ '':'' @ go_tenant opts"

definition allowed_attempts :: "governor_options \<Rightarrow> nat" where
  "allowed_attempts opts =
     (if may_retry (go_kind opts) (go_reliability opts) then max_attempts (go_reliability opts) else 1)"

definition set_run :: "nat \<Rightarrow> ('e, 'r) governed_run \<Rightarrow> ('e, 'r) governor \<Rightarrow> ('e, 'r) governor" where
  "set_run c r G = G\<lparr>g_runs := (g_runs G)(c := Some r)\<rparr>"

definition finish_run :: "nat \<Rightarrow> ('e, 'r) governed_run \<Rightarrow> ('e, 'r) result \<Rightarrow> ('e, 'r) governor \<Rightarrow> ('e, 'r) governor" where
  "finish_run c r res G = set_run c (r\<lparr>r_phase := Finished res\<rparr>) G"

text \<open>\<open>finally { release(); }\<close>.\<close>

definition leave_run :: "nat \<Rightarrow> ('e, 'r) governed_run \<Rightarrow> ('e, 'r) result \<Rightarrow> ('e, 'r) governor \<Rightarrow> ('e, 'r) governor" where
  "leave_run c r res G = finish_run c r res (G\<lparr>g_limiter := release c (g_limiter G)\<rparr>)"

definition interrupted :: "('e, 'r) governed_run \<Rightarrow> ('e, 'r) governor \<Rightarrow> bool" where
  "interrupted r G = signal_aborted (go_signal (r_options r)) (g_limiter G)"

section \<open>The stretches of \<open>run\<close> between its awaits\<close>

text \<open>Up to the slot; \<open>t1\<close> and \<open>t2\<close> are the clock where the code reads it.\<close>

definition rate_allows :: "governor_options \<Rightarrow> int \<Rightarrow> windows \<Rightarrow> bool \<times> windows" where
  "rate_allows opts t W =
     (case per_minute (go_reliability opts) of
        None \<Rightarrow> (True, W)
      | Some n \<Rightarrow> try_consume (tenant_key opts) n t W)"

definition circuit_open :: "governor_options \<Rightarrow> int \<Rightarrow> circuits \<Rightarrow> bool" where
  "circuit_open opts t C =
     (case circuit_breaker (go_reliability opts) of
        None \<Rightarrow> False
      | Some (threshold, reset_after) \<Rightarrow> breaker_state_of (upstream_key opts) reset_after t C = Open)"

definition begin_run :: "nat \<Rightarrow> governor_options \<Rightarrow> int \<Rightarrow> int \<Rightarrow> ('e, 'r) governor \<Rightarrow> ('e, 'r) governor" where
  "begin_run c opts t1 t2 G =
     (let r = \<lparr>r_options = opts, r_phase = Waiting, r_started = 0, r_last = None, r_attempts = 0\<rparr>
      in if interrupted r G then finish_run c r Interrupted G
         else case rate_allows opts t1 (g_rate G) of
                (False, W) \<Rightarrow> finish_run c r RateLimited (G\<lparr>g_rate := W\<rparr>)
              | (True, W) \<Rightarrow>
                  (let G1 = G\<lparr>g_rate := W\<rparr>
                   in if circuit_open opts t2 (g_circuits G) then finish_run c r CircuitOpen G1
                      else case acquire c (tenant_key opts) (per_tenant (go_reliability opts)) (go_signal opts)
                                  (g_limiter G) of
                             (Refused, L) \<Rightarrow> finish_run c r Interrupted (G1\<lparr>g_limiter := L\<rparr>)
                           | (_, L) \<Rightarrow> set_run c r (G1\<lparr>g_limiter := L\<rparr>)))"

text \<open>The head of the loop.\<close>

definition next_attempt :: "nat \<Rightarrow> nat \<Rightarrow> ('e, 'r) governed_run \<Rightarrow> ('e, 'r) governor \<Rightarrow> ('e, 'r) governor" where
  "next_attempt c n r G =
     (if allowed_attempts (r_options r) < n then leave_run c r (AttemptFailed (r_last r)) G
      else if interrupted r G then leave_run c r Interrupted G
      else set_run c (r\<lparr>r_phase := Attempting n, r_attempts := r_attempts r + 1\<rparr>) G)"

text \<open>The slot is there, or the wait for it was aborted.\<close>

definition got_slot :: "nat \<Rightarrow> int \<Rightarrow> ('e, 'r) governed_run \<Rightarrow> ('e, 'r) governor \<Rightarrow> ('e, 'r) governor" where
  "got_slot c t r G =
     (if waiters (g_limiter G) c = None then next_attempt c 1 (r\<lparr>r_started := t\<rparr>) G
      else case resume c (g_limiter G) of
             (True, L) \<Rightarrow> next_attempt c 1 (r\<lparr>r_started := t\<rparr>) (G\<lparr>g_limiter := L\<rparr>)
           | (False, L) \<Rightarrow> finish_run c r Interrupted (G\<lparr>g_limiter := L\<rparr>))"

definition note_success :: "governor_options \<Rightarrow> ('e, 'r) governor \<Rightarrow> ('e, 'r) governor" where
  "note_success opts G =
     (case circuit_breaker (go_reliability opts) of
        None \<Rightarrow> G
      | Some _ \<Rightarrow> G\<lparr>g_circuits := record_success (upstream_key opts) (g_circuits G)\<rparr>)"

definition note_failure :: "governor_options \<Rightarrow> int \<Rightarrow> ('e, 'r) governor \<Rightarrow> ('e, 'r) governor" where
  "note_failure opts t G =
     (case circuit_breaker (go_reliability opts) of
        None \<Rightarrow> G
      | Some (threshold, _) \<Rightarrow> G\<lparr>g_circuits := record_failure (upstream_key opts) threshold t (g_circuits G)\<rparr>)"

text \<open>Whether a failed attempt is the last; \<open>t2\<close> and \<open>t3\<close> are the clock.\<close>

definition gives_up :: "nat \<Rightarrow> ('e, 'r) governed_run \<Rightarrow> 'e attempt_error \<Rightarrow> int \<Rightarrow> int \<Rightarrow> bool" where
  "gives_up n r err t2 t3 =
     (let rel = go_reliability (r_options r);
          delay = backoff_delay_ms n rel 100;
          elapsed = t2 - r_started r
      in allowed_attempts (r_options r) \<le> n \<or>
         (case e_outcome err of None \<Rightarrow> False | Some p \<Rightarrow> \<not> o_retryable p) \<or>
         elapsed + delay + attempt_ms rel > total_ms rel \<or>
         (case e_outcome err of
            None \<Rightarrow> False
          | Some p \<Rightarrow> (case o_retry_at p of None \<Rightarrow> False | Some at_ms \<Rightarrow> at_ms - t3 > total_ms rel - elapsed)))"

definition attempt_done ::
  "nat \<Rightarrow> nat \<Rightarrow> ('e attempt_error + 'r) \<Rightarrow> int \<Rightarrow> int \<Rightarrow> int \<Rightarrow> ('e, 'r) governed_run \<Rightarrow> ('e, 'r) governor \<Rightarrow> ('e, 'r) governor" where
  "attempt_done c n outcome t1 t2 t3 r G =
     (if interrupted r G then leave_run c r Interrupted G
      else case outcome of
             Inr v \<Rightarrow> leave_run c r (Returned v) (note_success (r_options r) G)
           | Inl err \<Rightarrow>
               (let r1 = r\<lparr>r_last := Some err\<rparr>; G1 = note_failure (r_options r) t1 G
                in if gives_up n r err t2 t3 then leave_run c r1 (AttemptFailed (Some err)) G1
                   else set_run c (r1\<lparr>r_phase := Sleeping n\<rparr>) G1))"

definition wake :: "nat \<Rightarrow> nat \<Rightarrow> ('e, 'r) governed_run \<Rightarrow> ('e, 'r) governor \<Rightarrow> ('e, 'r) governor" where
  "wake c n r G = (if interrupted r G then leave_run c r Interrupted G else next_attempt c (n + 1) r G)"

section \<open>Interleaved runs\<close>

definition may_resume :: "nat \<Rightarrow> limiter \<Rightarrow> bool" where
  "may_resume c L = (waiters L c = None \<or> settled c L)"

inductive governor_step :: "(string \<Rightarrow> nat) \<Rightarrow> ('e, 'r) governor \<Rightarrow> ('e, 'r) governor \<Rightarrow> bool" for cap where
  gs_begin: "\<lbrakk>g_runs G c = None; per_tenant (go_reliability opts) = cap (tenant_key opts)\<rbrakk> \<Longrightarrow>
     governor_step cap G (begin_run c opts t1 t2 G)"
| gs_slot: "\<lbrakk>g_runs G c = Some r; r_phase r = Waiting; may_resume c (g_limiter G)\<rbrakk> \<Longrightarrow>
     governor_step cap G (got_slot c t r G)"
| gs_attempt: "\<lbrakk>g_runs G c = Some r; r_phase r = Attempting n\<rbrakk> \<Longrightarrow>
     governor_step cap G (attempt_done c n outcome t1 t2 t3 r G)"
| gs_wake: "\<lbrakk>g_runs G c = Some r; r_phase r = Sleeping n\<rbrakk> \<Longrightarrow>
     governor_step cap G (wake c n r G)"
| gs_abort: "governor_step cap G (G\<lparr>g_limiter := abort s (g_limiter G)\<rparr>)"


section \<open>A caller that has its slot is left alone by the others\<close>

definition undisturbed :: "nat \<Rightarrow> limiter \<Rightarrow> limiter \<Rightarrow> bool" where
  "undisturbed c L L' = (waiters L' c = waiters L c \<and> releases L' c = releases L c)"

lemma undisturbed_refl [simp]: "undisturbed c L L"
  by (simp add: undisturbed_def)

lemma undisturbed_trans: "undisturbed c L M \<Longrightarrow> undisturbed c M N \<Longrightarrow> undisturbed c L N"
  by (simp add: undisturbed_def)

definition at_rest :: "nat \<Rightarrow> limiter \<Rightarrow> bool" where
  "at_rest c L =
     (case waiters L c of None \<Rightarrow> True | Some w \<Rightarrow> w_state w = Accepted \<or> w_state w = Cancelled)"

lemma callers_at_rest: "callers_slot c L \<Longrightarrow> at_rest c L"
  by (auto simp: callers_slot_def at_rest_def split: option.splits)

lemma at_rest_cong: "undisturbed c L L' \<Longrightarrow> at_rest c L' = at_rest c L"
  by (simp add: undisturbed_def at_rest_def)

lemma at_rest_not: "at_rest c L \<Longrightarrow> waiters L c = Some w \<Longrightarrow> w_state w = Accepted \<or> w_state w = Cancelled"
  by (simp add: at_rest_def)

lemma set_waiter_undisturbed:
  "at_rest c L \<Longrightarrow> waiters L d = Some w \<Longrightarrow> w_state w = Queued \<or> w_state w = Granted \<Longrightarrow> undisturbed c L (set_waiter d v L)"
  using at_rest_not by (fastforce simp: undisturbed_def set_waiter_def)

lemma others_slot_kept:
  assumes "at_rest c L"
  shows "undisturbed c L (release_slot key L)"
proof (rule release_slot_keeps [where P = "undisturbed c L"])
  show "slot_kept (undisturbed c L) key"
    unfolding slot_kept_def
  proof (intro allI impI conjI)
    fix M q cs e w
    assume M: "undisturbed c L M"
    show "undisturbed c L (M\<lparr>queues := (queues M)(q := cs)\<rparr>)" "undisturbed c L (forget_queue key M)"
      "undisturbed c L (give_back key M)"
      using M by (simp_all add: undisturbed_def forget_queue_def give_back_def Let_def)
    assume w: "waiters M e = Some w \<and> w_state w = Queued"
    have "at_rest c M" using assms at_rest_cong [OF M] by simp
    then have "e \<noteq> c" using w by (auto simp: at_rest_def)
    then show "undisturbed c L (release_once e key (set_waiter e (w\<lparr>w_state := Granted\<rparr>) M))"
      "undisturbed c L (unlisten e w (set_waiter e (w\<lparr>w_state := Cancelled\<rparr>) M))"
      using M by (simp_all add: undisturbed_def release_once_def set_waiter_def)
  qed
qed simp

lemma release_undisturbed:
  assumes "at_rest c L" "d \<noteq> c"
  shows "undisturbed c L (release d L)"
proof (cases "\<exists>key. releases L d = Some (key, False)")
  case True
  then obtain key where r: "releases L d = Some (key, False)" by blast
  let ?M = "L\<lparr>releases := (releases L)(d := Some (key, True))\<rparr>"
  have "at_rest c ?M" using assms(1) by (simp add: at_rest_def)
  from others_slot_kept [OF this, of key] show ?thesis
    using assms(2) r by (simp add: undisturbed_def release_def)
next
  case False
  then have "release d L = L" by (auto simp: release_def split: option.split bool.split)
  then show ?thesis by simp
qed

lemma on_abort_undisturbed:
  assumes "at_rest c L"
  shows "undisturbed c L (on_abort d L)"
proof (cases "waiters L d")
  case (Some w)
  show ?thesis
  proof (cases "w_state w = Queued \<or> w_state w = Granted")
    case True
    then have d: "d \<noteq> c" "w_state w = Queued \<or> w_state w = Granted" using assms Some by (auto simp: at_rest_def)
    have u: "undisturbed c L (set_waiter d v L)" for v using set_waiter_undisturbed [OF assms Some d(2)] .
    have "undisturbed c L (release d (set_waiter d v L))" for v
      using undisturbed_trans [OF u release_undisturbed] at_rest_cong [OF u] assms d(1) by blast
    then show ?thesis using True Some d(1)
      by (auto simp: on_abort_def Let_def undisturbed_def forget_queue_def set_waiter_def)
  next
    case False
    then show ?thesis using Some by (auto simp: on_abort_def split: waiter_state.split)
  qed
qed (simp add: on_abort_def)

lemma abort_undisturbed:
  assumes "at_rest c L"
  shows "undisturbed c L (abort s L)"
proof (rule abort_keeps [where P = "undisturbed c L"])
  fix d M assume M: "undisturbed c L M"
  then have "at_rest c M" using assms at_rest_cong by blast
  then show "undisturbed c L (on_abort d M)" using undisturbed_trans [OF M on_abort_undisturbed] by blast
qed (simp_all add: undisturbed_def)

lemma resume_undisturbed:
  assumes "at_rest c L" "d \<noteq> c"
  shows "undisturbed c L (snd (resume d L))"
proof (cases "waiters L d")
  case (Some w)
  have "undisturbed c L (set_waiter d v L)" for v using assms(2) by (auto simp: undisturbed_def set_waiter_def)
  moreover have "undisturbed c L (release d (set_waiter d v L))" for v
    using undisturbed_trans [OF _ release_undisturbed] at_rest_cong calculation assms by blast
  ultimately show ?thesis using Some by (auto simp: resume_def undisturbed_def)
qed (simp add: resume_def)

lemma acquire_undisturbed: "d \<noteq> c \<Longrightarrow> undisturbed c L (snd (acquire d key n sig L))"
  by (auto simp: undisturbed_def acquire_def release_once_def set_waiter_def Let_def split: option.split)

section \<open>A cancelled wait holds nothing\<close>

definition waiting_idle :: "nat option \<Rightarrow> limiter \<Rightarrow> bool" where
  "waiting_idle but L =
     (\<forall>c w. but \<noteq> Some c \<and> waiters L c = Some w \<and> (w_state w = Queued \<or> w_state w = Cancelled) \<longrightarrow>
        (\<forall>key. releases L c \<noteq> Some (key, False)))"

lemma waiting_idle_same:
  "waiting_idle but L \<Longrightarrow> waiters L' = waiters L \<Longrightarrow> releases L' = releases L \<Longrightarrow> waiting_idle but L'"
  by (simp add: waiting_idle_def)

lemma waiting_idle_slot_kept: "slot_kept (waiting_idle None) key"
  unfolding slot_kept_def
proof (intro allI impI conjI)
  fix L q cs c w
  assume i: "waiting_idle None L"
  show "waiting_idle None (L\<lparr>queues := (queues L)(q := cs)\<rparr>)" "waiting_idle None (forget_queue key L)"
    "waiting_idle None (give_back key L)"
    using i by (rule waiting_idle_same; simp add: forget_queue_def give_back_def Let_def)+
  assume w: "waiters L c = Some w \<and> w_state w = Queued"
  with i show "waiting_idle None (release_once c key (set_waiter c (w\<lparr>w_state := Granted\<rparr>) L))"
    "waiting_idle None (unlisten c w (set_waiter c (w\<lparr>w_state := Cancelled\<rparr>) L))"
    by (auto simp: waiting_idle_def release_once_def set_waiter_def)
qed

lemma release_waiting_idle:
  assumes "waiting_idle (Some c) L"
  shows "waiting_idle None (release c L)"
proof (cases "\<exists>key. releases L c = Some (key, False)")
  case True
  then obtain key where r: "releases L c = Some (key, False)" by blast
  have "waiting_idle None (L\<lparr>releases := (releases L)(c := Some (key, True))\<rparr>)"
    using assms by (auto simp: waiting_idle_def)
  from release_slot_keeps [OF waiting_idle_slot_kept this] show ?thesis by (simp add: release_def r)
next
  case False
  then have "release c L = L" by (auto simp: release_def split: option.split bool.split)
  then show ?thesis using assms False by (auto simp: waiting_idle_def)
qed

lemma waiting_idle_weaken: "waiting_idle None L \<Longrightarrow> waiting_idle but L"
  by (simp add: waiting_idle_def)

lemma give_up_waiting_idle:
  "waiting_idle None L \<Longrightarrow> waiting_idle None (release c (set_waiter c v L))"
  by (rule release_waiting_idle) (auto simp: waiting_idle_def set_waiter_def)

lemma on_abort_waiting_idle: "waiting_idle None L \<Longrightarrow> waiting_idle None (on_abort c L)"
  by (auto simp: on_abort_def Let_def give_up_waiting_idle split: option.split waiter_state.split)
     (auto simp: waiting_idle_def set_waiter_def forget_queue_def)

lemma abort_waiting_idle: "waiting_idle None L \<Longrightarrow> waiting_idle None (abort s L)"
  by (rule abort_keeps [where P = "waiting_idle None"]) (auto intro: waiting_idle_same on_abort_waiting_idle)

lemma resume_waiting_idle: "waiting_idle None L \<Longrightarrow> waiting_idle None (snd (resume c L))"
  by (auto simp: resume_def give_up_waiting_idle split: option.split) (auto simp: waiting_idle_def set_waiter_def)

lemma acquire_waiting_idle:
  "waiting_idle None L \<Longrightarrow> waiters L c = None \<Longrightarrow> releases L c = None \<Longrightarrow>
   waiting_idle None (snd (acquire c key n sig L))"
  by (auto simp: acquire_def Let_def waiting_idle_def set_waiter_def release_once_def split: option.split)

interpretation idles: kept_invariant empty_limiter "limiter_step cap" "waiting_idle None" for cap
proof (unfold_locales, goal_cases)
  case 1
  show ?case by (simp add: waiting_idle_def empty_limiter_def)
next
  case (2 L L')
  from 2(2,1) show ?case
    by cases (simp_all add: acquire_waiting_idle abort_waiting_idle resume_waiting_idle release_waiting_idle
        waiting_idle_weaken)
qed

section \<open>Only its own continuation accepts a slot\<close>

definition unaccepted :: "nat \<Rightarrow> string \<Rightarrow> limiter \<Rightarrow> bool" where
  "unaccepted c key L = (\<exists>w. waiters L c = Some w \<and> w_key w = key \<and> w_state w \<noteq> Accepted)"

lemma unaccepted_same: "unaccepted c key L \<Longrightarrow> waiters L' = waiters L \<Longrightarrow> unaccepted c key L'"
  by (simp add: unaccepted_def)

lemma unaccepted_set_waiter:
  "unaccepted c key L \<Longrightarrow> waiters L d = Some w \<Longrightarrow> s \<noteq> Accepted \<Longrightarrow> unaccepted c key (set_waiter d (w\<lparr>w_state := s\<rparr>) L)"
  by (auto simp: unaccepted_def set_waiter_def)

lemma release_unaccepted: "unaccepted c key L \<Longrightarrow> unaccepted c key (release d L)"
proof (rule release_keeps [where P = "unaccepted c key"])
  fix k
  show "slot_kept (unaccepted c key) k"
    unfolding slot_kept_def
  proof (intro allI impI conjI)
    fix L q cs e w
    assume u: "unaccepted c key L"
    show "unaccepted c key (L\<lparr>queues := (queues L)(q := cs)\<rparr>)" "unaccepted c key (forget_queue k L)"
      "unaccepted c key (give_back k L)"
      using u by (rule unaccepted_same; simp add: forget_queue_def give_back_def Let_def)+
    assume "waiters L e = Some w \<and> w_state w = Queued"
    then have "unaccepted c key (set_waiter e (w\<lparr>w_state := s\<rparr>) L)" if "s \<noteq> Accepted" for s
      using unaccepted_set_waiter [OF u] that by blast
    then show "unaccepted c key (release_once e k (set_waiter e (w\<lparr>w_state := Granted\<rparr>) L))"
      "unaccepted c key (unlisten e w (set_waiter e (w\<lparr>w_state := Cancelled\<rparr>) L))"
      by (rule unaccepted_same; simp add: release_once_def)+
  qed
qed (auto intro: unaccepted_same)

lemma on_abort_unaccepted:
  assumes "unaccepted c key L"
  shows "unaccepted c key (on_abort d L)"
proof (cases "waiters L d")
  case (Some w)
  have "unaccepted c key (set_waiter d (w\<lparr>w_state := Cancelled\<rparr>) L)"
    using unaccepted_set_waiter [OF assms Some] by simp
  then show ?thesis using Some assms release_unaccepted
    by (auto simp: on_abort_def Let_def forget_queue_def set_waiter_def intro: unaccepted_same split: waiter_state.split)
qed (use assms in \<open>simp add: on_abort_def\<close>)

lemma abort_unaccepted: "unaccepted c key L \<Longrightarrow> unaccepted c key (abort s L)"
  by (rule abort_keeps [where P = "unaccepted c key"]) (auto intro: unaccepted_same on_abort_unaccepted)

lemma resume_unaccepted: "unaccepted c key L \<Longrightarrow> d \<noteq> c \<Longrightarrow> unaccepted c key (snd (resume d L))"
  by (auto simp: resume_def unaccepted_set_waiter intro!: release_unaccepted split: option.split)
     (auto simp: unaccepted_def set_waiter_def)

lemma acquire_unaccepted: "unaccepted c key L \<Longrightarrow> d \<noteq> c \<Longrightarrow> unaccepted c key (snd (acquire d k n sig L))"
  by (auto simp: acquire_def Let_def unaccepted_def set_waiter_def release_once_def split: option.split)


section \<open>Invariant of the governor\<close>

definition holds_slot :: "nat \<Rightarrow> string \<Rightarrow> limiter \<Rightarrow> bool" where
  "holds_slot c key L = (callers_slot c L \<and> releases L c = Some (key, False))"

definition gone :: "nat \<Rightarrow> limiter \<Rightarrow> bool" where
  "gone c L = (at_rest c L \<and> (\<forall>key. releases L c \<noteq> Some (key, False)))"

definition run_ok :: "nat \<Rightarrow> ('e, 'r) governed_run \<Rightarrow> limiter \<Rightarrow> bool" where
  "run_ok c r L =
     (let key = tenant_key (r_options r); most = allowed_attempts (r_options r)
      in case r_phase r of
           Waiting \<Rightarrow> ((waiters L c = None \<and> holds_slot c key L) \<or> unaccepted c key L) \<and> r_attempts r = 0
         | Attempting n \<Rightarrow> holds_slot c key L \<and> r_attempts r = n \<and> n \<le> most
         | Sleeping n \<Rightarrow> holds_slot c key L \<and> r_attempts r = n \<and> n < most
         | Finished _ \<Rightarrow> gone c L \<and> r_attempts r \<le> most)"

definition governor_ok :: "(string \<Rightarrow> nat) \<Rightarrow> ('e, 'r) governor \<Rightarrow> bool" where
  "governor_ok cap G =
     (reachable empty_limiter (limiter_step cap) (g_limiter G) \<and>
      (\<forall>c. g_runs G c = None \<longrightarrow> waiters (g_limiter G) c = None \<and> releases (g_limiter G) c = None) \<and>
      (\<forall>c r. g_runs G c = Some r \<longrightarrow> run_ok c r (g_limiter G)))"

lemma holds_at_rest: "holds_slot c key L \<Longrightarrow> at_rest c L"
  by (simp add: holds_slot_def callers_at_rest)

lemma holds_cong: "undisturbed c L L' \<Longrightarrow> holds_slot c key L' = holds_slot c key L"
  by (simp add: undisturbed_def holds_slot_def callers_slot_def)

lemma gone_cong: "undisturbed c L L' \<Longrightarrow> gone c L' = gone c L"
  by (simp add: undisturbed_def gone_def at_rest_def)

text \<open>A step of the limiter that is not of this call keeps what its run needs.\<close>

lemma run_ok_frame:
  assumes "run_ok c r L" "at_rest c L \<Longrightarrow> undisturbed c L L'"
    "\<And>key. unaccepted c key L \<Longrightarrow> unaccepted c key L'"
  shows "run_ok c r L'"
proof -
  have h: "holds_slot c key L' \<and> waiters L' c = waiters L c" if "holds_slot c key L" for key
  proof -
    have u: "undisturbed c L L'" by (rule assms(2)) (rule holds_at_rest [OF that])
    from u have "waiters L' c = waiters L c" by (simp add: undisturbed_def)
    then show ?thesis using that holds_cong [OF u] by simp
  qed
  have g: "gone c L'" if "gone c L"
  proof -
    have "undisturbed c L L'" by (rule assms(2)) (use that in \<open>simp add: gone_def\<close>)
    from gone_cong [OF this] show ?thesis using that by simp
  qed
  show ?thesis
  proof (cases "r_phase r")
    case Waiting
    then show ?thesis using assms(1) assms(3) [of "tenant_key (r_options r)"] h [of "tenant_key (r_options r)"]
      by (auto simp: run_ok_def Let_def)
  qed (use assms(1) h [of "tenant_key (r_options r)"] g in \<open>simp_all add: run_ok_def Let_def\<close>)
qed

text \<open>What a step of call \<open>c\<close> has to show.\<close>

lemma governor_ok_step:
  assumes ok: "governor_ok cap G" and L: "reachable empty_limiter (limiter_step cap) L'"
    and r: "run_ok c r L'"
    and frame: "\<And>d. d \<noteq> c \<Longrightarrow> at_rest d (g_limiter G) \<Longrightarrow> undisturbed d (g_limiter G) L'"
      "\<And>d key. d \<noteq> c \<Longrightarrow> unaccepted d key (g_limiter G) \<Longrightarrow> unaccepted d key L'"
    and G': "g_limiter G' = L'" "g_runs G' = (g_runs G)(c := Some r)"
  shows "governor_ok cap G'"
  unfolding governor_ok_def
proof (intro conjI allI impI)
  show "reachable empty_limiter (limiter_step cap) (g_limiter G')"
    using L by (simp only: G'(1))
next
  fix d assume "g_runs G' d = None"
  then have d: "d \<noteq> c" "g_runs G d = None" using G'(2) by (auto split: if_splits)
  then have n: "waiters (g_limiter G) d = None" "releases (g_limiter G) d = None" using ok by (auto simp: governor_ok_def)
  then have "undisturbed d (g_limiter G) L'" using frame(1) d(1) by (simp add: at_rest_def)
  then show "waiters (g_limiter G') d = None" "releases (g_limiter G') d = None"
    using n G'(1) by (auto simp: undisturbed_def)
next
  fix d s assume s: "g_runs G' d = Some s"
  show "run_ok d s (g_limiter G')"
  proof (cases "d = c")
    case True
    then show ?thesis using s r G' by simp
  next
    case False
    then have "run_ok d s (g_limiter G)" using s ok G'(2) by (simp add: governor_ok_def)
    then show ?thesis unfolding G'(1)
      by (rule run_ok_frame) (rule frame(1) [OF False], assumption, rule frame(2) [OF False])
  qed
qed

lemma release_gone:
  assumes "holds_slot c key L"
  shows "gone c (release c L)"
proof -
  let ?M = "L\<lparr>releases := (releases L)(c := Some (key, True))\<rparr>"
  have r: "at_rest c ?M" using holds_at_rest [OF assms] by (simp add: at_rest_def)
  have "release c L = release_slot key ?M" using assms by (simp add: release_def holds_slot_def)
  then show ?thesis using r others_slot_kept [OF r, of key] by (simp add: gone_def undisturbed_def at_rest_def)
qed

text \<open>Leaving the loop gives the slot back.\<close>

definition others_kept :: "nat \<Rightarrow> limiter \<Rightarrow> limiter \<Rightarrow> bool" where
  "others_kept c L L' =
     (\<forall>d. d \<noteq> c \<longrightarrow> (at_rest d L \<longrightarrow> undisturbed d L L') \<and> (\<forall>key. unaccepted d key L \<longrightarrow> unaccepted d key L'))"

lemma others_kept_refl [simp]: "others_kept c L L"
  by (simp add: others_kept_def)

lemma others_kept_trans: "others_kept c L M \<Longrightarrow> others_kept c M N \<Longrightarrow> others_kept c L N"
  unfolding others_kept_def by (metis at_rest_cong undisturbed_trans)

lemma others_kept_steps [simp]:
  "others_kept c L (release c L)" "others_kept c L (snd (resume c L))" "others_kept c L (snd (acquire c key n sig L))"
  by (simp_all add: others_kept_def release_undisturbed release_unaccepted resume_undisturbed resume_unaccepted
      acquire_undisturbed acquire_unaccepted)

lemma leave_run_ok:
  assumes ok: "governor_ok cap G" and r: "holds_slot c (tenant_key (r_options r)) L" "r_attempts r \<le> allowed_attempts (r_options r)"
    and L: "reachable empty_limiter (limiter_step cap) L" "others_kept c (g_limiter G) L"
    and G1: "g_limiter G1 = L" "g_runs G1 = g_runs G"
  shows "governor_ok cap (leave_run c r res G1)"
proof (rule governor_ok_step [OF ok, where c = c and L' = "release c L" and r = "r\<lparr>r_phase := Finished res\<rparr>"])
  have "callers_slot c L" using r(1) by (simp add: holds_slot_def)
  then have "limiter_step cap L (release c L)" by (rule step_release)
  with L(1) show "reachable empty_limiter (limiter_step cap) (release c L)" by (rule reachable_step)
  show "run_ok c (r\<lparr>r_phase := Finished res\<rparr>) (release c L)"
    using release_gone [OF r(1)] r(2) by (simp add: run_ok_def Let_def)
  show "\<And>d. d \<noteq> c \<Longrightarrow> at_rest d (g_limiter G) \<Longrightarrow> undisturbed d (g_limiter G) (release c L)"
    "\<And>d key. d \<noteq> c \<Longrightarrow> unaccepted d key (g_limiter G) \<Longrightarrow> unaccepted d key (release c L)"
    using others_kept_trans [OF L(2) others_kept_steps(1)] by (auto simp: others_kept_def)
qed (simp_all add: leave_run_def finish_run_def set_run_def G1)

lemma set_run_ok:
  assumes ok: "governor_ok cap G" and r: "run_ok c r L"
    and L: "reachable empty_limiter (limiter_step cap) L" "others_kept c (g_limiter G) L"
    and G1: "g_limiter G1 = L" "g_runs G1 = g_runs G"
  shows "governor_ok cap (set_run c r G1)"
  by (rule governor_ok_step [OF ok L(1) r]) (use L(2) in \<open>auto simp: others_kept_def set_run_def G1\<close>)

lemma next_attempt_ok:
  assumes ok: "governor_ok cap G" and r: "holds_slot c (tenant_key (r_options r)) L" "Suc (r_attempts r) = n"
      "r_attempts r \<le> allowed_attempts (r_options r)"
    and L: "reachable empty_limiter (limiter_step cap) L" "others_kept c (g_limiter G) L"
    and G1: "g_limiter G1 = L" "g_runs G1 = g_runs G"
  shows "governor_ok cap (next_attempt c n r G1)"
proof -
  have "run_ok c (r\<lparr>r_phase := Attempting n, r_attempts := r_attempts r + 1\<rparr>) L" if "\<not> allowed_attempts (r_options r) < n"
    using that r by (simp add: run_ok_def Let_def)
  then show ?thesis
    using leave_run_ok [OF ok r(1,3) L G1] set_run_ok [OF ok _ L G1] by (simp add: next_attempt_def)
qed

lemma governor_okD:
  assumes "governor_ok cap G"
  shows "reachable empty_limiter (limiter_step cap) (g_limiter G)"
    "g_runs G c = None \<Longrightarrow> waiters (g_limiter G) c = None \<and> releases (g_limiter G) c = None"
    "g_runs G c = Some r \<Longrightarrow> run_ok c r (g_limiter G)"
  using assms unfolding governor_ok_def by blast+

lemma begin_run_ok:
  assumes ok: "governor_ok cap G" and new: "g_runs G c = None" and cp: "per_tenant (go_reliability opts) = cap (tenant_key opts)"
  shows "governor_ok cap (begin_run c opts t1 t2 G)"
proof -
  let ?r = "\<lparr>r_options = opts, r_phase = Waiting, r_started = 0, r_last = None, r_attempts = 0\<rparr>"
  note n = governor_okD(2) [OF ok new] and reach = governor_okD(1) [OF ok]
  have gone: "run_ok c (?r\<lparr>r_phase := Finished res\<rparr>) (g_limiter G)" for res
    using n by (simp add: run_ok_def Let_def gone_def at_rest_def)
  have fin: "governor_ok cap (finish_run c ?r res G1)" if "g_limiter G1 = g_limiter G" "g_runs G1 = g_runs G" for res G1
    unfolding finish_run_def using set_run_ok [OF ok gone reach _ that] by simp
  obtain a L where q: "acquire c (tenant_key opts) (cap (tenant_key opts)) (go_signal opts) (g_limiter G) = (a, L)" by fastforce
  have "limiter_step cap (g_limiter G) (snd (acquire c (tenant_key opts) (cap (tenant_key opts)) (go_signal opts) (g_limiter G)))"
    using n by (intro step_acquire) simp_all
  then have "limiter_step cap (g_limiter G) L" by (simp only: q snd_conv)
  with reach have Lr: "reachable empty_limiter (limiter_step cap) L" by (rule reachable_step)
  have Lo: "others_kept c (g_limiter G) L" using others_kept_steps(3) q by (metis snd_conv)
  have ref: "L = g_limiter G" if "a = Refused"
    using q that by (auto simp: acquire_def Let_def split: if_splits)
  have wait: "run_ok c ?r L" if "a \<noteq> Refused"
    using q that n
    by (auto simp: acquire_def Let_def run_ok_def holds_slot_def unaccepted_def callers_slot_def release_once_def set_waiter_def
        split: if_splits option.splits)
  obtain b W where W: "rate_allows opts t1 (g_rate G) = (b, W)" by fastforce
  have go: "governor_ok cap (set_run c ?r (G\<lparr>g_rate := W, g_limiter := L\<rparr>))" if "a \<noteq> Refused"
    using set_run_ok [OF ok wait [OF that] Lr Lo] by simp
  have "governor_ok cap (case (a, L) of (Refused, L) \<Rightarrow> finish_run c ?r Interrupted (G\<lparr>g_rate := W, g_limiter := L\<rparr>)
            | (_, L) \<Rightarrow> set_run c ?r (G\<lparr>g_rate := W, g_limiter := L\<rparr>))"
    using go fin ref by (cases a) simp_all
  then show ?thesis
    using fin W q cp by (simp add: begin_run_def Let_def split: bool.split)
qed

lemma got_slot_ok:
  assumes ok: "governor_ok cap G" and r: "g_runs G c = Some r" "r_phase r = Waiting" and m: "may_resume c (g_limiter G)"
  shows "governor_ok cap (got_slot c t r G)"
proof -
  let ?L = "g_limiter G" and ?key = "tenant_key (r_options r)"
  note reach = governor_okD(1) [OF ok]
  have ro: "(waiters ?L c = None \<and> holds_slot c ?key ?L) \<or> unaccepted c ?key ?L" "r_attempts r = 0"
    using governor_okD(3) [OF ok r(1)] r(2) by (simp_all add: run_ok_def Let_def)
  show ?thesis
  proof (cases "waiters ?L c")
    case None
    then have "holds_slot c ?key ?L" using ro(1) by (auto simp: unaccepted_def)
    then show ?thesis
      using next_attempt_ok [OF ok _ _ _ reach, of c "r\<lparr>r_started := t\<rparr>" 1 G] None ro(2)
      by (simp add: got_slot_def)
  next
    case (Some w)
    then have w: "w_key w = ?key" "settled c ?L" using ro(1) m by (auto simp: unaccepted_def may_resume_def)
    obtain b L where q: "resume c ?L = (b, L)" by fastforce
    have "limiter_step cap ?L L" using step_resume [OF w(2), of cap] by (simp only: q snd_conv)
    with reach have Lr: "reachable empty_limiter (limiter_step cap) L" by (rule reachable_step)
    have Lo: "others_kept c ?L L" using others_kept_steps(2) q by (metis snd_conv)
    have lok: "limiter_ok cap ?L" using reach by (rule slots.holds)
    then have qo: "queued_ok ?L c w" using Some by (simp add: limiter_ok_def lined_up_def)
    have idle: "waiting_idle None L" using Lr by (rule idles.holds)
    show ?thesis
    proof (cases b)
      case True
      then have "w_state w = Granted" "L = unlisten c w (set_waiter c (w\<lparr>w_state := Accepted\<rparr>) ?L)"
        using q Some by (auto simp: resume_def split: if_splits)
      then have "holds_slot c ?key L" using qo w(1) by (simp add: holds_slot_def callers_slot_def set_waiter_def queued_ok_def)
      then show ?thesis
        using next_attempt_ok [OF ok _ _ _ Lr Lo, of "r\<lparr>r_started := t\<rparr>" 1 "G\<lparr>g_limiter := L\<rparr>"] Some q True ro(2)
        by (simp add: got_slot_def)
    next
      case False
      have "\<exists>w'. waiters L c = Some w' \<and> w_state w' = Cancelled"
      proof (cases "signal_aborted (w_signal w) ?L \<and> w_state w = Granted")
        case True
        let ?M = "set_waiter c (w\<lparr>w_state := Cancelled\<rparr>) ?L"
        have L: "L = release c ?M" using q Some True by (simp add: resume_def)
        have h: "releases ?M c = Some (w_key w, False)" using qo True by (simp add: queued_ok_def set_waiter_def)
        let ?N = "?M\<lparr>releases := (releases ?M)(c := Some (w_key w, True))\<rparr>"
        have N: "at_rest c ?N" by (simp add: at_rest_def set_waiter_def)
        have "waiters (release_slot (w_key w) ?N) c = waiters ?N c"
          using others_slot_kept [OF N] by (simp add: undisturbed_def)
        then show ?thesis using L h by (simp add: release_def set_waiter_def)
      next
        case False
        then show ?thesis using q Some \<open>\<not> b\<close> w(2) by (auto simp: resume_def settled_def split: if_splits)
      qed
      then have "gone c L" using idle by (auto simp: gone_def at_rest_def waiting_idle_def)
      then have "run_ok c (r\<lparr>r_phase := Finished Interrupted\<rparr>) L" using ro(2) by (simp add: run_ok_def Let_def)
      from set_run_ok [OF ok this Lr Lo, of "G\<lparr>g_limiter := L\<rparr>"] show ?thesis
        using Some q False by (simp add: got_slot_def finish_run_def)
    qed
  qed
qed

lemma note_frames [simp]:
  "g_limiter (note_success opts G) = g_limiter G" "g_runs (note_success opts G) = g_runs G"
  "g_limiter (note_failure opts t G) = g_limiter G" "g_runs (note_failure opts t G) = g_runs G"
  by (simp_all add: note_success_def note_failure_def split: option.split prod.split)

lemma attempt_done_ok:
  assumes ok: "governor_ok cap G" and r: "g_runs G c = Some r" "r_phase r = Attempting n"
  shows "governor_ok cap (attempt_done c n outcome t1 t2 t3 r G)"
proof -
  have ro: "holds_slot c (tenant_key (r_options r)) (g_limiter G)" "r_attempts r = n" "n \<le> allowed_attempts (r_options r)"
    using governor_okD(3) [OF ok r(1)] r(2) by (simp_all add: run_ok_def Let_def)
  note reach = governor_okD(1) [OF ok]
  have leave: "governor_ok cap (leave_run c s res G1)"
    if "r_options s = r_options r" "r_attempts s = n" "g_limiter G1 = g_limiter G" "g_runs G1 = g_runs G" for s res and G1 :: "('a, 'b) governor"
    by (rule leave_run_ok [OF ok _ _ reach others_kept_refl that(3,4)]) (simp_all add: that ro)
  show ?thesis
  proof (cases outcome)
    case (Inr v)
    then show ?thesis using leave by (simp add: attempt_done_def ro(2))
  next
    case (Inl err)
    let ?r = "r\<lparr>r_last := Some err\<rparr>" and ?G = "note_failure (r_options r) t1 G"
    have "governor_ok cap (set_run c (?r\<lparr>r_phase := Sleeping n\<rparr>) ?G)" if "\<not> gives_up n r err t2 t3"
    proof (rule set_run_ok [OF ok _ reach others_kept_refl])
      have "n < allowed_attempts (r_options r)" using that by (simp add: gives_up_def Let_def)
      then show "run_ok c (?r\<lparr>r_phase := Sleeping n\<rparr>) (g_limiter G)" using ro by (simp add: run_ok_def Let_def)
    qed simp_all
    then show ?thesis using leave Inl by (simp add: attempt_done_def Let_def ro(2))
  qed
qed

lemma wake_ok:
  assumes ok: "governor_ok cap G" and r: "g_runs G c = Some r" "r_phase r = Sleeping n"
  shows "governor_ok cap (wake c n r G)"
proof -
  have ro: "holds_slot c (tenant_key (r_options r)) (g_limiter G)" "r_attempts r = n" "n < allowed_attempts (r_options r)"
    using governor_okD(3) [OF ok r(1)] r(2) by (simp_all add: run_ok_def Let_def)
  have le: "r_attempts r \<le> allowed_attempts (r_options r)" using ro by simp
  note reach = governor_okD(1) [OF ok]
  have "governor_ok cap (leave_run c r Interrupted G)"
    by (rule leave_run_ok [OF ok ro(1) le reach others_kept_refl refl refl])
  moreover have "governor_ok cap (next_attempt c (n + 1) r G)"
    by (rule next_attempt_ok [OF ok ro(1) _ le reach others_kept_refl refl refl]) (simp add: ro(2))
  ultimately show ?thesis by (simp add: wake_def)
qed

lemma abort_governor_ok:
  assumes ok: "governor_ok cap G"
  shows "governor_ok cap (G\<lparr>g_limiter := abort s (g_limiter G)\<rparr>)"
proof -
  let ?L = "g_limiter G"
  have "reachable empty_limiter (limiter_step cap) (abort s ?L)"
    using governor_okD(1) [OF ok] step_abort by (rule reachable_step)
  moreover have "waiters (abort s ?L) c = None \<and> releases (abort s ?L) c = None" if "g_runs G c = None" for c
  proof -
    note n = governor_okD(2) [OF ok that]
    have "undisturbed c ?L (abort s ?L)" by (rule abort_undisturbed) (simp add: at_rest_def n)
    then show ?thesis using n by (simp add: undisturbed_def)
  qed
  moreover have "run_ok c r (abort s ?L)" if "g_runs G c = Some r" for c r
    by (rule run_ok_frame [OF governor_okD(3) [OF ok that]]) (rule abort_undisturbed abort_unaccepted, assumption)+
  ultimately show ?thesis by (simp add: governor_ok_def)
qed

lemma governor_step_ok: "governor_step cap G G' \<Longrightarrow> governor_ok cap G \<Longrightarrow> governor_ok cap G'"
  by (induction rule: governor_step.cases)
     (auto intro: begin_run_ok got_slot_ok attempt_done_ok wake_ok abort_governor_ok)

interpretation governed: kept_invariant empty_governor "governor_step cap" "governor_ok cap" for cap
proof (unfold_locales, goal_cases)
  case 1
  show ?case by (simp add: governor_ok_def empty_governor_def reachable_start) (simp add: empty_limiter_def)
next
  case (2 G G')
  then show ?case by (blast intro: governor_step_ok)
qed

section \<open>Properties\<close>

text \<open>The runs of a key that are past their wait for a slot and not yet through.\<close>

definition running :: "string \<Rightarrow> ('e, 'r) governor \<Rightarrow> nat set" where
  "running key G =
     {c. \<exists>r n. g_runs G c = Some r \<and> tenant_key (r_options r) = key \<and>
        (r_phase r = Attempting n \<or> r_phase r = Sleeping n)}"

definition finished_run :: "('e, 'r) governed_run \<Rightarrow> bool" where
  "finished_run r = (case r_phase r of Finished _ \<Rightarrow> True | _ \<Rightarrow> False)"

lemma running_holds:
  assumes "governor_ok cap G"
  shows "running key G \<subseteq> holders key (g_limiter G)"
proof
  fix c assume "c \<in> running key G"
  then obtain r n where r: "g_runs G c = Some r" "tenant_key (r_options r) = key"
    "r_phase r = Attempting n \<or> r_phase r = Sleeping n" by (auto simp: running_def)
  from governor_okD(3) [OF assms r(1)] r(2,3) have "holds_slot c key (g_limiter G)" by (auto simp: run_ok_def Let_def)
  then show "c \<in> holders key (g_limiter G)" by (simp add: holds_slot_def holders_def)
qed

lemma holder_is_unfinished:
  assumes ok: "governor_ok cap G" and h: "c \<in> holders key (g_limiter G)"
  shows "\<exists>r. g_runs G c = Some r \<and> tenant_key (r_options r) = key \<and> \<not> finished_run r"
proof -
  let ?L = "g_limiter G"
  have rel: "releases ?L c = Some (key, False)" using h by (simp add: holders_def)
  then obtain r where r: "g_runs G c = Some r" using governor_okD(2) [OF ok, of c] by (cases "g_runs G c") auto
  note reach = governor_okD(1) [OF ok]
  have un: "key = k" if "unaccepted c k ?L" for k
  proof -
    from that obtain w where w: "waiters ?L c = Some w" "w_key w = k" "w_state w \<noteq> Accepted"
      by (auto simp: unaccepted_def)
    have "queued_ok ?L c w" using slots.holds [OF reach] w(1) by (simp add: limiter_ok_def lined_up_def)
    moreover have "w_state w \<noteq> Queued" "w_state w \<noteq> Cancelled"
      using idles.holds [OF reach] rel w(1) by (auto simp: waiting_idle_def)
    ultimately show ?thesis using rel w(2,3) by (cases "w_state w") (simp_all add: queued_ok_def)
  qed
  from governor_okD(3) [OF ok r] rel un [of "tenant_key (r_options r)"] show ?thesis
    by (auto simp: r run_ok_def Let_def holds_slot_def gone_def finished_run_def split: phase.splits)
qed

text \<open>
  C15. One tenant cannot exhaust a connector: however runs interleave, fail and are aborted, at most
  the limit of runs of a tenant's operation are attempting or backing off at once, a slot is only held
  by a run that is not yet through, and when the runs of a key are through its count is back to zero.
\<close>

theorem runs_are_bounded:
  assumes "reachable empty_governor (governor_step cap) G"
  shows "card (running key G) \<le> cap key \<and>
     (c \<in> holders key (g_limiter G) \<longrightarrow>
        (\<exists>r. g_runs G c = Some r \<and> tenant_key (r_options r) = key \<and> \<not> finished_run r)) \<and>
     ((\<forall>c r. g_runs G c = Some r \<and> tenant_key (r_options r) = key \<longrightarrow> finished_run r) \<longrightarrow>
        active key (g_limiter G) = 0)"
proof -
  have ok: "governor_ok cap G" using assms by (rule governed.holds)
  have cnt: "counted None cap (g_limiter G)"
    using slots.holds [OF governor_okD(1) [OF ok]] by (simp add: limiter_ok_def)
  have "card (running key G) \<le> card (holders key (g_limiter G))"
    by (rule card_mono [OF finite_holders [OF cnt] running_holds [OF ok]])
  then have "card (running key G) \<le> cap key" using countedD(3,4) [OF cnt, of key] by simp
  moreover have "active key (g_limiter G) = 0" if "holders key (g_limiter G) = {}"
    using that countedD(4) [OF cnt, of key] by simp
  ultimately show ?thesis using holder_is_unfinished [OF ok] by blast
qed

text \<open>
  C16. Retries stay within the contract: only an operation whose contract makes retries eligible, and which
  is a query or declares idempotency, is tried again, and then not more often than the contract's limit of
  attempts; every other run, a mutation that declares no idempotency among them, is tried at most once.
\<close>

theorem mutations_are_tried_once:
  assumes "reachable empty_governor (governor_step cap) G" "g_runs G c = Some r" "go_reliability (r_options r) = rel"
  shows "r_attempts r \<le> (if retry_eligible rel \<and> (go_kind (r_options r) = QueryOperation \<or> idempotency rel \<noteq> None)
       then max_attempts rel else 1) \<and>
     r_attempts r \<le> max 1 (max_attempts rel) \<and>
     (go_kind (r_options r) = MutationOperation \<and> idempotency rel = None \<longrightarrow> r_attempts r \<le> 1) \<and>
     (\<not> retry_eligible rel \<longrightarrow> r_attempts r \<le> 1)"
proof -
  have ok: "governor_ok cap G" using assms(1) by (rule governed.holds)
  have "r_attempts r \<le> allowed_attempts (r_options r)"
    using governor_okD(3) [OF ok assms(2)] by (auto simp: run_ok_def Let_def split: phase.splits)
  then show ?thesis using assms(3) by (auto simp: allowed_attempts_def may_retry_def max_def split: if_splits)
qed

definition charge :: governor_options where
  "charge =
     \<lparr>go_connector = ''pay'', go_operation = ''charge'', go_kind = MutationOperation, go_tenant = ''t'',
      go_reliability = \<lparr>attempt_ms = 10, total_ms = 100, retry_eligible = True, max_attempts = 3, backoff = ''fixed'',
        idempotency = None, per_tenant = 1, per_minute = None, circuit_breaker = None\<rparr>,
      go_signal = None\<rparr>"

definition begun :: "(nat, nat) governor" where "begun = begin_run 0 charge 0 0 empty_governor"

definition charging :: "(nat, nat) governor" where
  "charging = (case g_runs begun 0 of None \<Rightarrow> begun | Some r \<Rightarrow> got_slot 0 0 r begun)"

lemmas charge_defs = begun_def charging_def charge_def begin_run_def got_slot_def next_attempt_def finish_run_def
  set_run_def empty_governor_def empty_limiter_def acquire_def release_once_def active_def signal_aborted_def interrupted_def
  rate_allows_def circuit_open_def allowed_attempts_def may_retry_def

lemma charging_reachable: "reachable empty_governor (governor_step one_slot) charging"
proof -
  have "governor_step one_slot empty_governor begun"
    unfolding begun_def by (rule gs_begin) (simp_all add: empty_governor_def charge_def one_slot_def)
  with reachable_start have b: "reachable empty_governor (governor_step one_slot) begun" by (rule reachable_step)
  obtain r where r: "g_runs begun 0 = Some r" "r_phase r = Waiting" "may_resume 0 (g_limiter begun)"
    by (simp add: charge_defs may_resume_def)
  have "governor_step one_slot begun (got_slot 0 0 r begun)" using r by (rule gs_slot)
  with b have "reachable empty_governor (governor_step one_slot) (got_slot 0 0 r begun)" by (rule reachable_step)
  then show ?thesis using r(1) by (simp add: charging_def)
qed

lemma charging_run: "\<exists>r. g_runs charging 0 = Some r \<and> r_options r = charge \<and> r_phase r = Attempting 1"
  by (simp add: charge_defs)

theorem runs_witness: "card (running (tenant_key charge) charging) \<le> 1 \<and> 0 \<in> running (tenant_key charge) charging"
  using runs_are_bounded [OF charging_reachable, of "tenant_key charge"] charging_run
  by (auto simp: running_def one_slot_def)

theorem mutations_witness: "\<exists>r. g_runs charging 0 = Some r \<and> r_attempts r \<le> 1"
proof -
  obtain r where r: "g_runs charging 0 = Some r" "r_options r = charge" using charging_run by blast
  from mutations_are_tried_once [OF charging_reachable r(1) refl] r show ?thesis by (simp add: charge_def)
qed

end
