(* ===== verification/Job_Session.thy ===== *)
theory Job_Session
  imports Js_Value "HOL-Library.Char_ord" "HOL-Library.List_Lexorder"
begin

text \<open>
  The session a queued job carries (\<open>jobs/actor-session.ts\<close>): \<open>actorSessionOf\<close> normalises the value a
  caller or a row gives, or refuses it.  It is applied when a job is enqueued and again whenever a row
  is read, so it has to keep what it made.
\<close>

definition job_actor_credentials :: "string list" where
  "job_actor_credentials = [''bearer'', ''api-key'', ''trusted-context'']"

definition session_scopes :: "string list" where
  "session_scopes = [''tenant'', ''group'', ''self'']"

definition max_session_list :: nat where "max_session_list = 4096"

definition max_session_text :: nat where "max_session_text = 200"

record actor_session =
  as_credential :: string
  as_roles :: "string list"
  as_groups :: "string list"
  as_relation_groups :: "string list"
  as_relation :: "string option"
  as_scope :: string
  as_oauth_scopes :: "string list"
  as_locale :: "string option"
  as_display_name :: "string option"

datatype session_fault =
    UnknownScope
  | CredentialNotCarried
  | NotStrings string
  | NotShortString string

section \<open>Normalising\<close>

definition session_field :: "jsval \<Rightarrow> string \<Rightarrow> jsval" where
  "session_field v name = (case own_prop v name of Some x \<Rightarrow> x | None \<Rightarrow> VUndef)"

fun string_items :: "jsval list \<Rightarrow> string list option" where
  "string_items [] = Some []"
| "string_items (VStr s # vs) = map_option (Cons s) (string_items vs)"
| "string_items (v # vs) = None"

definition string_list :: "string \<Rightarrow> jsval \<Rightarrow> session_fault + string list" where
  "string_list label v =
     (case v of
        VUndef \<Rightarrow> Inr []
      | VNull \<Rightarrow> Inr []
      | VArr _ vs \<Rightarrow>
          (if max_session_list < length vs then Inl (NotStrings label)
           else case string_items vs of
                  None \<Rightarrow> Inl (NotStrings label)
                | Some ss \<Rightarrow> Inr (sort (remdups ss)))
      | _ \<Rightarrow> Inl (NotStrings label))"

definition short_text :: "string \<Rightarrow> jsval \<Rightarrow> session_fault + string option" where
  "short_text label v =
     (case v of
        VUndef \<Rightarrow> Inr None
      | VNull \<Rightarrow> Inr None
      | VStr s \<Rightarrow> (if max_session_text < length s then Inl (NotShortString label) else Inr (Some s))
      | _ \<Rightarrow> Inl (NotShortString label))"

definition hex_digit :: "char \<Rightarrow> bool" where
  "hex_digit c = (is_digit c \<or> c \<in> set ''abcdefABCDEF'')"

definition is_uuid :: "string \<Rightarrow> bool" where
  "is_uuid s =
     (map length (split_text ''-'' s) = [8, 4, 4, 4, 12] \<and> list_all (list_all hex_digit) (split_text ''-'' s))"

definition scope_of :: "jsval \<Rightarrow> session_fault + string" where
  "scope_of v =
     (case v of
        VUndef \<Rightarrow> Inr ''self''
      | VNull \<Rightarrow> Inr ''self''
      | VStr s \<Rightarrow> (if s \<in> set session_scopes then Inr s else Inl UnknownScope)
      | _ \<Rightarrow> Inl UnknownScope)"

definition credential_of :: "jsval \<Rightarrow> session_fault + string" where
  "credential_of v =
     (case v of
        VStr s \<Rightarrow> (if s \<in> set job_actor_credentials then Inr s else Inl CredentialNotCarried)
      | _ \<Rightarrow> Inl CredentialNotCarried)"

definition session_relation :: "jsval \<Rightarrow> string option" where
  "session_relation v = (case v of VStr s \<Rightarrow> (if is_uuid s then Some s else None) | _ \<Rightarrow> None)"

definition actor_session_of :: "jsval \<Rightarrow> session_fault + actor_session" where
  "actor_session_of input =
     rbind (scope_of (session_field input ''scope'')) (\<lambda>scope.
     rbind (credential_of (session_field input ''credential'')) (\<lambda>credential.
     rbind (short_text ''locale'' (session_field input ''locale'')) (\<lambda>locale.
     rbind (short_text ''userDisplayName'' (session_field input ''userDisplayName'')) (\<lambda>name.
     rbind (string_list ''oauthScopes'' (session_field input ''oauthScopes'')) (\<lambda>oauth.
     rbind (string_list ''roles'' (session_field input ''roles'')) (\<lambda>roles.
     rbind (string_list ''groups'' (session_field input ''groups'')) (\<lambda>groups.
     rbind (string_list ''relationGroupIds'' (session_field input ''relationGroupIds'')) (\<lambda>relation_groups.
       Inr \<lparr>as_credential = credential, as_roles = roles, as_groups = groups, as_relation_groups = relation_groups,
            as_relation = session_relation (session_field input ''relationId''), as_scope = scope,
            as_oauth_scopes = oauth, as_locale = locale, as_display_name = name\<rparr>))))))))"

text \<open>The object a session is stored as; absent members are left out, as the code spreads them.\<close>

definition strings_value :: "string list \<Rightarrow> jsval" where
  "strings_value ss = VArr None (map VStr ss)"

definition optional_member :: "string \<Rightarrow> string option \<Rightarrow> (string \<times> jsval) list" where
  "optional_member name s = (case s of None \<Rightarrow> [] | Some x \<Rightarrow> [(name, VStr x)])"

definition session_value :: "actor_session \<Rightarrow> jsval" where
  "session_value s =
     VObj None
       ([(''credential'', VStr (as_credential s)), (''roles'', strings_value (as_roles s)),
         (''groups'', strings_value (as_groups s)), (''relationGroupIds'', strings_value (as_relation_groups s))] @
        optional_member ''relationId'' (as_relation s) @
        [(''scope'', VStr (as_scope s))] @
        (if as_oauth_scopes s = [] then [] else [(''oauthScopes'', strings_value (as_oauth_scopes s))]) @
        optional_member ''locale'' (as_locale s) @
        optional_member ''userDisplayName'' (as_display_name s))"

section \<open>Sessions are kept\<close>

definition plain_strings :: "string list \<Rightarrow> bool" where
  "plain_strings ss = (sorted ss \<and> distinct ss \<and> length ss \<le> max_session_list)"

definition session_ok :: "actor_session \<Rightarrow> bool" where
  "session_ok s =
     ((as_credential s) \<in> set job_actor_credentials \<and> (as_scope s) \<in> set session_scopes \<and>
      plain_strings (as_roles s) \<and> plain_strings (as_groups s) \<and> plain_strings (as_relation_groups s) \<and>
      plain_strings (as_oauth_scopes s) \<and> (\<forall>r. as_relation s = Some r \<longrightarrow> is_uuid r) \<and>
      (\<forall>t. as_locale s = Some t \<longrightarrow> length t \<le> max_session_text) \<and>
      (\<forall>t. as_display_name s = Some t \<longrightarrow> length t \<le> max_session_text))"

lemma string_items_map [simp]: "string_items (map VStr ss) = Some ss"
  by (induction ss) simp_all

lemma length_string_items: "string_items vs = Some ss \<Longrightarrow> length ss = length vs"
  by (induction vs arbitrary: ss rule: string_items.induct) auto

lemma string_list_plain:
  assumes "string_list label v = Inr ss"
  shows "plain_strings ss"
proof -
  have "length (sort (remdups xs)) \<le> length xs" for xs :: "string list"
    by (simp add: length_remdups_leq)
  then show ?thesis using assms
    by (fastforce simp: string_list_def plain_strings_def split: jsval.splits if_splits option.splits
        dest: length_string_items intro: order_trans)
qed

lemma string_list_value: "plain_strings ss \<Longrightarrow> string_list label (strings_value ss) = Inr ss"
  by (auto simp: string_list_def strings_value_def plain_strings_def distinct_remdups_id sorted_sort_id)

lemma short_text_short: "short_text label v = Inr (Some t) \<Longrightarrow> length t \<le> max_session_text"
  by (auto simp: short_text_def split: jsval.splits if_splits)

lemma known_origin:
  "scope_of v = Inr x \<Longrightarrow> x \<in> set session_scopes"
  "credential_of v = Inr x \<Longrightarrow> x \<in> set job_actor_credentials"
  "session_relation v = Some x \<Longrightarrow> is_uuid x"
  by (auto simp: scope_of_def credential_of_def session_relation_def session_scopes_def split: jsval.splits if_splits)

lemma actor_session_ok:
  assumes "actor_session_of v = Inr s"
  shows "session_ok s"
  using assms unfolding actor_session_of_def rbind_Inr_iff session_ok_def
  by (elim exE conjE) (auto intro: string_list_plain short_text_short known_origin)

lemma session_value_fields:
  "session_field (session_value s) ''credential'' = VStr (as_credential s)"
  "session_field (session_value s) ''roles'' = strings_value (as_roles s)"
  "session_field (session_value s) ''groups'' = strings_value (as_groups s)"
  "session_field (session_value s) ''relationGroupIds'' = strings_value (as_relation_groups s)"
  "session_field (session_value s) ''scope'' = VStr (as_scope s)"
  "session_field (session_value s) ''relationId'' = (case as_relation s of None \<Rightarrow> VUndef | Some r \<Rightarrow> VStr r)"
  "session_field (session_value s) ''oauthScopes'' =
     (if as_oauth_scopes s = [] then VUndef else strings_value (as_oauth_scopes s))"
  "session_field (session_value s) ''locale'' = (case as_locale s of None \<Rightarrow> VUndef | Some t \<Rightarrow> VStr t)"
  "session_field (session_value s) ''userDisplayName'' = (case as_display_name s of None \<Rightarrow> VUndef | Some t \<Rightarrow> VStr t)"
  by (simp_all add: session_field_def session_value_def optional_member_def split: option.split)

lemma actor_session_of_value:
  assumes "session_ok s"
  shows "actor_session_of (session_value s) = Inr s"
proof -
  have "string_list label VUndef = Inr []" for label by (simp add: string_list_def)
  then show ?thesis using assms
    by (auto simp: actor_session_of_def session_value_fields session_ok_def string_list_value scope_of_def
        credential_of_def session_relation_def short_text_def split: option.split)
qed

text \<open>
  A stored session reads back as it was: what the normalisation accepts it gives again for its own
  stored form, so the session a worker replays is the one the enqueue verified, with a credential a
  job may carry.
\<close>

theorem stored_session_reads_back:
  assumes "actor_session_of v = Inr s"
  shows "actor_session_of (session_value s) = Inr s \<and> (as_credential s) \<in> set job_actor_credentials"
  using actor_session_of_value [OF actor_session_ok [OF assms]] actor_session_ok [OF assms]
  by (simp add: session_ok_def)

definition example_session_input :: jsval where
  "example_session_input =
     VObj None [(''credential'', VStr ''bearer''), (''roles'', VArr None [VStr ''b'', VStr ''a'', VStr ''b''])]"

definition example_session :: actor_session where
  "example_session =
     \<lparr>as_credential = ''bearer'', as_roles = [''a'', ''b''], as_groups = [], as_relation_groups = [], as_relation = None,
      as_scope = ''self'', as_oauth_scopes = [], as_locale = None, as_display_name = None\<rparr>"

lemma example_session_of: "actor_session_of example_session_input = Inr example_session"
  by code_simp

theorem stored_session_witness: "actor_session_of (session_value example_session) = Inr example_session"
  using stored_session_reads_back [OF example_session_of] by blast

end
