(* ===== verification/Job_Store.thy ===== *)
theory Job_Store
  imports State_Machines Job_Session
begin

text \<open>
  The durable job store: every statement that touches \<open>platform.jobs\<close> (\<open>jobs/store.ts\<close>,
  \<open>jobs/settle.ts\<close>, \<open>jobs/queries.ts\<close>).  The table is a list of rows in the order the database happens
  to keep them, with the row locks the transactions of running handlers hold; each operation is one
  transaction.  Random identifiers and tokens, the database clock and the hash of a token are
  arguments.
\<close>

section \<open>Rows\<close>

datatype job_status = JQueued | JRunning | JDone | JFailed | JDead | JOutcomeUnknown

record job_error =
  je_message :: string
  je_code :: "string option"
  je_detail :: "jsval option"

record job =
  j_sequence :: nat
  j_tenant :: string
  j_actor :: string
  j_session :: actor_session
  j_kind :: string
  j_payload :: jsval
  j_key :: "string option"
  j_status :: job_status
  j_attempts :: nat
  j_max :: nat
  j_available :: int
  j_lease :: "int option"
  j_token_hash :: "string option"
  j_error :: "job_error option"
  j_result :: "jsval option"
  j_subject :: "(string \<times> string) option"
  j_created :: int
  j_updated :: int
  j_completed :: "int option"

record job_queue =
  q_rows :: "(nat \<times> job) list"
  q_locks :: "nat \<Rightarrow> string option"
  q_next :: nat

datatype store_fault =
    BadKind
  | BadMaxAttempts
  | BadDeliveryKey
  | BadPayload
  | BadSession session_fault
  | BadLimit
  | BadLease
  | BadRetention
  | BadCursor
  | BadStatement
  | NoResult

definition empty_queue :: job_queue where
  "empty_queue = \<lparr>q_rows = [], q_locks = \<lambda>_. None, q_next = 1\<rparr>"

definition row_of :: "job_queue \<Rightarrow> nat \<Rightarrow> job option" where
  "row_of q = map_of (q_rows q)"

definition set_row :: "nat \<Rightarrow> job \<Rightarrow> job_queue \<Rightarrow> job_queue" where
  "set_row jid j q = q\<lparr>q_rows := massoc_set jid j (q_rows q)\<rparr>"

definition update_row :: "nat \<Rightarrow> (job \<Rightarrow> job) \<Rightarrow> job_queue \<Rightarrow> job_queue" where
  "update_row jid f q = (case row_of q jid of None \<Rightarrow> q | Some j \<Rightarrow> set_row jid (f j) q)"

section \<open>Enqueueing\<close>

definition default_max_attempts :: nat where "default_max_attempts = 5"

definition lower_letter :: "char \<Rightarrow> bool" where
  "lower_letter c = (code CHR ''a'' \<le> code c \<and> code c \<le> code CHR ''z'')"

definition kind_segment :: "string \<Rightarrow> bool" where
  "kind_segment s =
     (case s of
        [] \<Rightarrow> False
      | c # cs \<Rightarrow> lower_letter c \<and> list_all (\<lambda>d. lower_letter d \<or> is_digit d \<or> d = CHR ''-'') cs)"

definition job_kind_ok :: "string \<Rightarrow> bool" where
  "job_kind_ok s = (let parts = split_text ''.'' s in 2 \<le> length parts \<and> list_all kind_segment parts)"

record enqueue_input =
  en_tenant :: string
  en_actor :: string
  en_session :: jsval
  en_kind :: string
  en_payload :: jsval
  en_key :: "string option"
  en_available :: "int option"
  en_max :: "jsnum option"
  en_subject :: "(string \<times> string) option"

definition positive_integer :: "jsnum \<Rightarrow> bool" where
  "positive_integer n = (case n of JFin r \<Rightarrow> r = of_int \<lfloor>r\<rfloor> \<and> 1 \<le> r | _ \<Rightarrow> False)"

definition is_record :: "jsval \<Rightarrow> bool" where
  "is_record v = (case v of VObj _ _ \<Rightarrow> True | VDate _ \<Rightarrow> True | _ \<Rightarrow> False)"

definition assert_enqueue_input :: "enqueue_input \<Rightarrow> store_fault option" where
  "assert_enqueue_input inp =
     (if \<not> job_kind_ok (en_kind inp) then Some BadKind
      else if (case en_max inp of None \<Rightarrow> False | Some n \<Rightarrow> \<not> positive_integer n) then Some BadMaxAttempts
      else if (case en_key inp of None \<Rightarrow> False | Some k \<Rightarrow> js_trim k = []) then Some BadDeliveryKey
      else if \<not> is_record (en_payload inp) then Some BadPayload
      else None)"

definition max_attempts_of :: "jsnum option \<Rightarrow> nat" where
  "max_attempts_of n = (case n of None \<Rightarrow> default_max_attempts | Some x \<Rightarrow> nat \<lfloor>js_val x\<rfloor>)"

definition new_job :: "nat \<Rightarrow> int \<Rightarrow> actor_session \<Rightarrow> enqueue_input \<Rightarrow> job" where
  "new_job sequence now session inp =
     \<lparr>j_sequence = sequence, j_tenant = en_tenant inp, j_actor = en_actor inp, j_session = session,
      j_kind = en_kind inp, j_payload = en_payload inp, j_key = en_key inp, j_status = JQueued, j_attempts = 0,
      j_max = max_attempts_of (en_max inp),
      j_available = (case en_available inp of None \<Rightarrow> now | Some t \<Rightarrow> t),
      j_lease = None, j_token_hash = None, j_error = None, j_result = None, j_subject = en_subject inp,
      j_created = now, j_updated = now, j_completed = None\<rparr>"

definition same_delivery :: "string \<Rightarrow> string \<Rightarrow> string option \<Rightarrow> nat \<times> job \<Rightarrow> bool" where
  "same_delivery tenant kind key row =
     (key \<noteq> None \<and> j_tenant (snd row) = tenant \<and> j_kind (snd row) = kind \<and> j_key (snd row) = key)"

text \<open>
  The insert does nothing where the unique index finds the delivery key taken; the select then
  returns that row.  A sequence number is drawn either way.
\<close>

definition enqueue_job ::
  "nat \<Rightarrow> int \<Rightarrow> enqueue_input \<Rightarrow> job_queue \<Rightarrow> (store_fault + nat \<times> bool \<times> job_status) \<times> job_queue" where
  "enqueue_job jid now inp q =
     (case assert_enqueue_input inp of
        Some e \<Rightarrow> (Inl e, q)
      | None \<Rightarrow>
          (case actor_session_of (en_session inp) of
             Inl e \<Rightarrow> (Inl (BadSession e), q)
           | Inr session \<Rightarrow>
               (let q1 = q\<lparr>q_next := q_next q + 1\<rparr>
                in case find_first (same_delivery (en_tenant inp) (en_kind inp) (en_key inp)) (q_rows q) of
                     Some (i, j) \<Rightarrow> (Inr (i, False, j_status j), q1)
                   | None \<Rightarrow>
                       (Inr (jid, True, JQueued),
                        q1\<lparr>q_rows := q_rows q @ [(jid, new_job (q_next q) now session inp)]\<rparr>))))"

section \<open>Claiming\<close>

record claim_input =
  cl_limit :: int
  cl_lease_seconds :: int
  cl_kinds :: "string list option"

definition wanted_kind :: "claim_input \<Rightarrow> job \<Rightarrow> bool" where
  "wanted_kind inp j = (case cl_kinds inp of None \<Rightarrow> True | Some ks \<Rightarrow> j_kind j \<in> set ks)"

text \<open>\<open>order by available_at asc limit n for update skip locked\<close>.\<close>

definition select_ids :: "(job \<Rightarrow> bool) \<Rightarrow> nat \<Rightarrow> job_queue \<Rightarrow> nat list" where
  "select_ids P n q =
     map fst (take n (sort_key (\<lambda>(i, j). j_available j)
       (filter (\<lambda>(i, j). P j \<and> q_locks q i = None) (q_rows q))))"

definition lease_expired :: "int \<Rightarrow> job \<Rightarrow> bool" where
  "lease_expired now j = (j_status j = JRunning \<and> (case j_lease j of None \<Rightarrow> False | Some t \<Rightarrow> t < now))"

definition spent :: "int \<Rightarrow> claim_input \<Rightarrow> job \<Rightarrow> bool" where
  "spent now inp j = (lease_expired now j \<and> j_max j \<le> j_attempts j \<and> wanted_kind inp j)"

definition due :: "int \<Rightarrow> claim_input \<Rightarrow> job \<Rightarrow> bool" where
  "due now inp j =
     ((j_status j = JQueued \<and> j_available j \<le> now \<or> lease_expired now j \<and> j_attempts j < j_max j) \<and>
      wanted_kind inp j)"

definition close_dead :: "int \<Rightarrow> job \<Rightarrow> job" where
  "close_dead now j =
     j\<lparr>j_status := JDead, j_lease := None, j_token_hash := None, j_completed := Some now, j_updated := now,
       j_error := Some \<lparr>je_message = ''The job was claimed '' @ nat_digits (j_attempts j) @
           '' times without a worker reporting back.'', je_code = Some ''LEASE_EXPIRED'', je_detail = None\<rparr>\<rparr>"

definition expired_ids :: "int \<Rightarrow> claim_input \<Rightarrow> job_queue \<Rightarrow> nat list" where
  "expired_ids now inp q = select_ids (spent now inp) (nat (cl_limit inp)) q"

definition close_expired :: "int \<Rightarrow> claim_input \<Rightarrow> job_queue \<Rightarrow> job_queue" where
  "close_expired now inp q = fold (\<lambda>jid. update_row jid (close_dead now)) (expired_ids now inp q) q"

definition claimed_job :: "(string \<Rightarrow> string) \<Rightarrow> string \<Rightarrow> int \<Rightarrow> int \<Rightarrow> job \<Rightarrow> job" where
  "claimed_job h token now lease_seconds j =
     j\<lparr>j_status := JRunning, j_attempts := j_attempts j + 1, j_lease := Some (now + lease_seconds * 1000),
       j_token_hash := Some (h token), j_updated := now\<rparr>"

fun claim_each ::
  "(string \<Rightarrow> string) \<Rightarrow> (nat \<Rightarrow> string) \<Rightarrow> int \<Rightarrow> int \<Rightarrow> nat list \<Rightarrow> job_queue \<Rightarrow>
   store_fault + (nat \<times> job \<times> string) list \<times> job_queue" where
  "claim_each h tok now lease [] q = Inr ([], q)"
| "claim_each h tok now lease (jid # ids) q =
     (case row_of q jid of
        None \<Rightarrow> Inl NoResult
      | Some j \<Rightarrow>
          (let j' = claimed_job h (tok jid) now lease j
           in rbind (claim_each h tok now lease ids (set_row jid j' q))
                (\<lambda>(cs, q'). Inr ((jid, j', tok jid) # cs, q'))))"

definition claim_jobs ::
  "(string \<Rightarrow> string) \<Rightarrow> (nat \<Rightarrow> string) \<Rightarrow> int \<Rightarrow> claim_input \<Rightarrow> job_queue \<Rightarrow>
   store_fault + (nat \<times> job \<times> string) list \<times> job_queue" where
  "claim_jobs h tok now inp q =
     (if cl_limit inp < 1 then Inl BadLimit
      else if \<not> 0 < cl_lease_seconds inp then Inl BadLease
      else if cl_kinds inp = Some [] then Inl BadStatement
      else let q1 = close_expired now inp q
           in claim_each h tok now (cl_lease_seconds inp) (select_ids (due now inp) (nat (cl_limit inp)) q1) q1)"

section \<open>Settling\<close>

datatype settle_outcome =
    SetDone "jsval option"
  | SetRetry job_error "int option"
  | SetFailed job_error
  | SetUnknown job_error
  | SetDead job_error
  | SetNotAdmitted job_error int

definition retry_base_ms :: nat where "retry_base_ms = 30000"

definition retry_cap_ms :: nat where "retry_cap_ms = 60 * 60 * 1000"

definition max_error_message :: nat where "max_error_message = 2000"

definition retry_delay_ms :: "nat \<Rightarrow> jsnum \<Rightarrow> jsnum" where
  "retry_delay_ms attempts random =
     (let exponential = min retry_cap_ms (retry_base_ms * 2 ^ (attempts - 1));
          jitter = js_add (JFin 1) (js_sub (js_mul random (round_double (4 / 10))) (round_double (2 / 10)))
      in js_round (js_mul (jint (int exponential)) jitter))"

definition bounded_error :: "job_error \<Rightarrow> job_error" where
  "bounded_error e =
     \<lparr>je_message = take max_error_message (je_message e),
      je_code = (case je_code e of None \<Rightarrow> None | Some c \<Rightarrow> if c = [] then None else Some c),
      je_detail = je_detail e\<rparr>"

definition holds_claim :: "(string \<Rightarrow> string) \<Rightarrow> nat \<Rightarrow> string \<Rightarrow> job_queue \<Rightarrow> bool" where
  "holds_claim h jid token q =
     (case row_of q jid of
        None \<Rightarrow> False
      | Some j \<Rightarrow> j_status j = JRunning \<and> j_token_hash j = Some (h token))"

definition lock_claimed_job :: "(string \<Rightarrow> string) \<Rightarrow> nat \<Rightarrow> string \<Rightarrow> job_queue \<Rightarrow> bool \<times> job_queue" where
  "lock_claimed_job h jid token q =
     (if holds_claim h jid token q then (True, q\<lparr>q_locks := (q_locks q)(jid := Some token)\<rparr>) else (False, q))"

definition unlock :: "nat \<Rightarrow> job_queue \<Rightarrow> job_queue" where
  "unlock jid q = q\<lparr>q_locks := (q_locks q)(jid := None)\<rparr>"

definition terminal :: "int \<Rightarrow> job_status \<Rightarrow> job_error option \<Rightarrow> jsval option \<Rightarrow> job \<Rightarrow> job" where
  "terminal now status e res j =
     j\<lparr>j_status := status, j_error := map_option bounded_error e, j_result := res, j_completed := Some now\<rparr>"

definition requeued :: "job_error \<Rightarrow> int \<Rightarrow> nat option \<Rightarrow> job \<Rightarrow> job" where
  "requeued e available attempts j =
     j\<lparr>j_status := JQueued, j_error := Some (bounded_error e), j_result := None, j_completed := None,
       j_available := available, j_attempts := (case attempts of None \<Rightarrow> j_attempts j | Some n \<Rightarrow> n)\<rparr>"

definition settlement :: "int \<Rightarrow> jsnum \<Rightarrow> settle_outcome \<Rightarrow> job \<Rightarrow> job" where
  "settlement now random outcome j =
     (case outcome of
        SetDone res \<Rightarrow> terminal now JDone None res j
      | SetFailed e \<Rightarrow> terminal now JFailed (Some e) None j
      | SetUnknown e \<Rightarrow> terminal now JOutcomeUnknown (Some e) None j
      | SetDead e \<Rightarrow> terminal now JDead (Some e) None j
      | SetNotAdmitted e at_ms \<Rightarrow> requeued e at_ms (Some (j_attempts j - 1)) j
      | SetRetry e retry_at \<Rightarrow>
          (if j_max j \<le> j_attempts j then terminal now JDead (Some e) None j
           else requeued e (case retry_at of Some t \<Rightarrow> t
                                           | None \<Rightarrow> now + \<lfloor>js_val (retry_delay_ms (j_attempts j) random)\<rfloor>) None j))"

definition settle_job ::
  "(string \<Rightarrow> string) \<Rightarrow> int \<Rightarrow> jsnum \<Rightarrow> nat \<Rightarrow> string \<Rightarrow> settle_outcome \<Rightarrow> job_queue \<Rightarrow> job_status option \<times> job_queue" where
  "settle_job h now random jid token outcome q =
     (case row_of q jid of
        None \<Rightarrow> (None, q)
      | Some j \<Rightarrow>
          (if j_status j = JRunning \<and> j_token_hash j = Some (h token)
           then let j' = settlement now random outcome j
                in (Some (j_status j'), set_row jid (j'\<lparr>j_lease := None, j_token_hash := None, j_updated := now\<rparr>) q)
           else (None, q)))"

section \<open>The operator's side\<close>

datatype resolution = Requeue | CloseDone

definition resolvable :: "job_status \<Rightarrow> bool" where
  "resolvable s = (s = JFailed \<or> s = JDead \<or> s = JOutcomeUnknown)"

definition resolve_job :: "int \<Rightarrow> nat \<Rightarrow> resolution \<Rightarrow> job_queue \<Rightarrow> job option \<times> job_queue" where
  "resolve_job now jid action q =
     (case row_of q jid of
        None \<Rightarrow> (None, q)
      | Some j \<Rightarrow>
          (if resolvable (j_status j)
           then let j' = (case action of
                            Requeue \<Rightarrow> j\<lparr>j_status := JQueued, j_attempts := 0, j_available := now,
                                         j_completed := None, j_updated := now\<rparr>
                          | CloseDone \<Rightarrow> j\<lparr>j_status := JDone, j_completed := Some now, j_updated := now\<rparr>)
                in (Some j', set_row jid j' q)
           else (None, q)))"

definition get_job :: "nat \<Rightarrow> job_queue \<Rightarrow> job option" where
  "get_job jid q = row_of q jid"

definition swept :: "int \<Rightarrow> int \<Rightarrow> job \<Rightarrow> bool" where
  "swept now days j =
     (j_status j = JDone \<and> (case j_completed j of None \<Rightarrow> False | Some t \<Rightarrow> t < now - days * 86400000))"

definition sweep_done_jobs :: "int \<Rightarrow> int \<Rightarrow> job_queue \<Rightarrow> store_fault + nat \<times> job_queue" where
  "sweep_done_jobs now days q =
     (if days < 1 then Inl BadRetention
      else Inr (length (filter (\<lambda>(i, j). swept now days j) (q_rows q)),
                q\<lparr>q_rows := filter (\<lambda>(i, j). \<not> swept now days j) (q_rows q)\<rparr>))"

end
