(* ===== verification/Job_Runs.thy ===== *)
theory Job_Runs
  imports Job_Store "HOL-Library.Multiset"
begin

text \<open>
  The job store under any number of workers, handlers and operators.  A step is one transaction of
  \<open>jobs/store.ts\<close>, \<open>jobs/settle.ts\<close> or \<open>jobs/queries.ts\<close>; the events of a run are kept beside the
  table, newest first.  The invariant ties every row to the events of its job, and shows that a claim
  can be locked and settled exactly while it is the newest thing that happened to its job.
\<close>

section \<open>Steps\<close>

datatype job_event =
    Enqueued nat
  | Claimed nat string
  | Expired nat
  | Settled nat
  | Refused nat
  | Requeued nat
  | ClosedByHand nat

fun event_job :: "job_event \<Rightarrow> nat" where
  "event_job (Enqueued i) = i"
| "event_job (Claimed i t) = i"
| "event_job (Expired i) = i"
| "event_job (Settled i) = i"
| "event_job (Refused i) = i"
| "event_job (Requeued i) = i"
| "event_job (ClosedByHand i) = i"

definition newest :: "nat \<Rightarrow> job_event list \<Rightarrow> job_event option" where
  "newest i = find_first (\<lambda>e. event_job e = i)"

fun claims_since :: "nat \<Rightarrow> job_event list \<Rightarrow> nat" where
  "claims_since i [] = 0"
| "claims_since i (e # es) =
     (if e = Enqueued i \<or> e = Requeued i then 0
      else case e of Claimed k t \<Rightarrow> if k = i then Suc (claims_since i es) else claims_since i es
           | _ \<Rightarrow> claims_since i es)"

fun refusals_since :: "nat \<Rightarrow> job_event list \<Rightarrow> nat" where
  "refusals_since i [] = 0"
| "refusals_since i (e # es) =
     (if e = Enqueued i \<or> e = Requeued i then 0
      else if e = Refused i then Suc (refusals_since i es) else refusals_since i es)"

text \<open>The tokens handed out so far; a worker only presents one of them.\<close>

definition issued :: "job_event list \<Rightarrow> string set" where
  "issued es = {t. \<exists>i. Claimed i t \<in> set es}"

definition settled_event :: "nat \<Rightarrow> settle_outcome \<Rightarrow> job_event" where
  "settled_event i outcome = (case outcome of SetNotAdmitted _ _ \<Rightarrow> Refused i | _ \<Rightarrow> Settled i)"

type_synonym job_run = "job_event list \<times> job_queue"

text \<open>
  A handler's transaction holds the lock of its row from the moment it has proven its claim until it
  commits its settlement or is rolled back; a statement for a locked row waits, so it is a step only
  once the row is free.  Identifiers are fresh, and a job is never claimed with the same token twice.
  The database may keep the rows in any order.
\<close>

inductive job_step :: "(string \<Rightarrow> string) \<Rightarrow> job_run \<Rightarrow> job_run \<Rightarrow> bool" for h where
  js_enqueue: "i \<notin> event_job ` set es \<Longrightarrow> enqueue_job i now inp q = (res, q') \<Longrightarrow>
    job_step h (es, q) ((case res of Inr (_, True, _) \<Rightarrow> [Enqueued i] | _ \<Rightarrow> []) @ es, q')"
| js_claim: "\<forall>i. Claimed i (tok i) \<notin> set es \<Longrightarrow> claim_jobs h tok now inp q = Inr (cs, q') \<Longrightarrow>
    job_step h (es, q) (rev (map (\<lambda>(i, _, t). Claimed i t) cs) @ rev (map Expired (expired_ids now inp q)) @ es, q')"
| js_lock: "q_locks q i = None \<Longrightarrow> token \<in> issued es \<Longrightarrow> lock_claimed_job h i token q = (b, q') \<Longrightarrow> job_step h (es, q) (es, q')"
| js_settle: "q_locks q i = None \<or> q_locks q i = Some token \<Longrightarrow>
    settle_job h now random i token outcome q = (res, q') \<Longrightarrow>
    job_step h (es, q) ((if res = None then [] else [settled_event i outcome]) @ es, unlock i q')"
| js_rollback: "job_step h (es, q) (es, unlock i q)"
| js_resolve: "q_locks q i = None \<Longrightarrow> resolve_job now i action q = (res, q') \<Longrightarrow>
    job_step h (es, q) ((if res = None then [] else [case action of Requeue \<Rightarrow> Requeued i | CloseDone \<Rightarrow> ClosedByHand i]) @ es, q')"
| js_sweep: "sweep_done_jobs now days q = Inr (n, q') \<Longrightarrow> job_step h (es, q) (es, q')"
| js_reorder: "mset rows = mset (q_rows q) \<Longrightarrow> job_step h (es, q) (es, q\<lparr>q_rows := rows\<rparr>)"

abbreviation job_reachable :: "(string \<Rightarrow> string) \<Rightarrow> job_run \<Rightarrow> bool" where
  "job_reachable h \<equiv> reachable ([], empty_queue) (job_step h)"

section \<open>Invariant\<close>

text \<open>The check constraint \<open>jobs_status_shape\<close> of the table and the bounds on attempts.\<close>

definition status_shape :: "job \<Rightarrow> bool" where
  "status_shape j =
     (case j_status j of
        JRunning \<Rightarrow> j_lease j \<noteq> None \<and> j_token_hash j \<noteq> None \<and> j_completed j = None
      | JQueued \<Rightarrow> j_lease j = None \<and> j_token_hash j = None \<and> j_completed j = None
      | _ \<Rightarrow> j_lease j = None \<and> j_token_hash j = None \<and> j_completed j \<noteq> None)"

definition attempts_ok :: "job \<Rightarrow> bool" where
  "attempts_ok j =
     (1 \<le> j_max j \<and> j_attempts j \<le> j_max j \<and> (j_status j = JQueued \<longrightarrow> j_attempts j < j_max j) \<and>
      (j_status j = JRunning \<longrightarrow> 1 \<le> j_attempts j))"

definition row_ok :: "(string \<Rightarrow> string) \<Rightarrow> job_event list \<Rightarrow> nat \<Rightarrow> job \<Rightarrow> bool" where
  "row_ok h es i j =
     (status_shape j \<and> attempts_ok j \<and> i \<in> event_job ` set es \<and>
      claims_since i es = j_attempts j + refusals_since i es \<and>
      (if j_status j = JRunning
       then \<exists>t. newest i es = Some (Claimed i t) \<and> j_token_hash j = Some (h t)
       else \<forall>t. newest i es \<noteq> Some (Claimed i t)))"

definition delivery :: "job \<Rightarrow> string \<times> string \<times> string option" where
  "delivery j = (j_tenant j, j_kind j, j_key j)"

definition deliveries_unique :: "(nat \<Rightarrow> job option) \<Rightarrow> bool" where
  "deliveries_unique r =
     (\<forall>i k a b. r i = Some a \<longrightarrow> r k = Some b \<longrightarrow> j_key a \<noteq> None \<longrightarrow> delivery a = delivery b \<longrightarrow> i = k)"

definition store_ok :: "(string \<Rightarrow> string) \<Rightarrow> job_run \<Rightarrow> bool" where
  "store_ok h s =
     (case s of (es, q) \<Rightarrow>
        distinct (map fst (q_rows q)) \<and> deliveries_unique (row_of q) \<and>
        (\<forall>i t. row_of q i = None \<longrightarrow> newest i es \<noteq> Some (Claimed i t)) \<and>
        (\<forall>i j. row_of q i = Some j \<longrightarrow> row_ok h es i j) \<and>
        (\<forall>i t. q_locks q i = Some t \<longrightarrow> newest i es = Some (Claimed i t)))"

lemma store_okI:
  assumes "distinct (map fst (q_rows q))" "deliveries_unique (row_of q)"
    "\<And>i t. row_of q i = None \<Longrightarrow> newest i es \<noteq> Some (Claimed i t)"
    "\<And>i j. row_of q i = Some j \<Longrightarrow> row_ok h es i j"
    "\<And>i t. q_locks q i = Some t \<Longrightarrow> newest i es = Some (Claimed i t)"
  shows "store_ok h (es, q)"
  using assms by (simp add: store_ok_def)

lemma store_okD:
  assumes "store_ok h (es, q)"
  shows "distinct (map fst (q_rows q))" "deliveries_unique (row_of q)"
    "row_of q i = None \<Longrightarrow> newest i es \<noteq> Some (Claimed i t)"
    "row_of q i = Some j \<Longrightarrow> row_ok h es i j"
    "q_locks q i = Some t \<Longrightarrow> newest i es = Some (Claimed i t)"
  using assms by (simp_all add: store_ok_def)

lemma newest_Cons: "newest i (e # es) = (if event_job e = i then Some e else newest i es)"
  by (simp add: newest_def)

lemma newest_None: "newest i es = None \<longleftrightarrow> i \<notin> event_job ` set es"
  by (auto simp: newest_def find_first_None)

lemma other_events:
  "event_job e \<noteq> i \<Longrightarrow> claims_since i (e # es) = claims_since i es"
  "event_job e \<noteq> i \<Longrightarrow> refusals_since i (e # es) = refusals_since i es"
  "event_job e \<noteq> i \<Longrightarrow> newest i (e # es) = newest i es"
  by (cases e; auto simp: newest_Cons)+

lemma row_ok_other:
  assumes "event_job e \<noteq> i" "row_ok h es i j"
  shows "row_ok h (e # es) i j"
  using assms(2) unfolding row_ok_def other_events [OF assms(1)] by simp

lemma row_of_set_row: "row_of (set_row i j q) = (row_of q)(i \<mapsto> j)"
  by (simp add: row_of_def set_row_def map_of_massoc_set)

lemma set_row_locks [simp]: "q_locks (set_row i j q) = q_locks q"
  by (simp add: set_row_def)

lemma row_in: "distinct (map fst (q_rows q)) \<Longrightarrow> (i, j) \<in> set (q_rows q) \<longleftrightarrow> row_of q i = Some j"
  by (simp add: row_of_def)

text \<open>One row changes and one event is noted for it.\<close>

lemma store_ok_row:
  assumes ok: "store_ok h (es, q)" and j: "row_of q i = Some j" and d: "delivery j' = delivery j"
    and e: "event_job e = i" and r: "row_ok h (e # es) i j'"
    and q': "q_rows q' = q_rows (set_row i j' q)"
    and locks: "\<And>k. k \<noteq> i \<Longrightarrow> q_locks q' k = q_locks q k"
    and lock: "\<And>t. q_locks q' i = Some t \<Longrightarrow> e = Claimed i t"
  shows "store_ok h (e # es, q')"
proof -
  have rows: "row_of q' = (row_of q)(i \<mapsto> j')" using q' row_of_set_row [of i j' q] by (simp add: row_of_def)
  show ?thesis
  proof (rule store_okI)
    show "distinct (map fst (q_rows q'))"
      using store_okD(1) [OF ok] by (simp add: q' set_row_def distinct_massoc_set)
    have k: "j_key j' = j_key j" using d by (simp add: delivery_def)
    show "deliveries_unique (row_of q')"
      using store_okD(2) [OF ok] j d k unfolding deliveries_unique_def rows by (metis fun_upd_apply option.inject)
    show "newest k (e # es) \<noteq> Some (Claimed k t)" if "row_of q' k = None" for k t
      using that store_okD(3) [OF ok, of k t] e by (auto simp: rows newest_Cons split: if_splits)
    show "row_ok h (e # es) k a" if "row_of q' k = Some a" for k a
      using that store_okD(4) [OF ok, of k a] e r by (auto simp: rows split: if_splits intro: row_ok_other)
    show "newest k (e # es) = Some (Claimed k t)" if "q_locks q' k = Some t" for k t
      using that locks [of k] lock store_okD(5) [OF ok, of k t] e by (cases "k = i") (auto simp: newest_Cons)
  qed
qed

lemma row_ok_Cons:
  assumes "row_ok h es i j" "status_shape j'" "attempts_ok j'" "event_job e = i"
    "claims_since i (e # es) = j_attempts j' + refusals_since i (e # es)"
    "if j_status j' = JRunning then \<exists>t. e = Claimed i t \<and> j_token_hash j' = Some (h t) else \<forall>t. e \<noteq> Claimed i t"
  shows "row_ok h (e # es) i j'"
  using assms unfolding row_ok_def by (auto simp: newest_Cons split: if_splits)

lemma row_okD:
  assumes "row_ok h es i j"
  shows "status_shape j" "attempts_ok j" "i \<in> event_job ` set es"
    "claims_since i es = j_attempts j + refusals_since i es"
    "j_status j = JRunning \<Longrightarrow> \<exists>t. newest i es = Some (Claimed i t) \<and> j_token_hash j = Some (h t)"
    "j_status j \<noteq> JRunning \<Longrightarrow> newest i es \<noteq> Some (Claimed i t)"
  using assms by (auto simp: row_ok_def split: if_splits)

section \<open>Every operation keeps the invariant\<close>

subsection \<open>Claiming\<close>

lemma select_ids:
  assumes "distinct (map fst (q_rows q))"
  shows "distinct (select_ids P n q)"
    "i \<in> set (select_ids P n q) \<Longrightarrow> \<exists>j. row_of q i = Some j \<and> P j \<and> q_locks q i = None"
proof -
  let ?f = "filter (\<lambda>(i, j). P j \<and> q_locks q i = None) (q_rows q)"
  let ?s = "sort_key (\<lambda>(i, j). j_available j) ?f"
  have "distinct (map fst ?f)" using assms by (rule distinct_map_filter)
  then have "distinct (map fst ?s)" by (simp add: distinct_map)
  then show "distinct (select_ids P n q)" by (simp add: select_ids_def flip: take_map)
  assume "i \<in> set (select_ids P n q)"
  then have "i \<in> fst ` set ?f" by (auto simp: select_ids_def dest!: in_set_takeD)
  then show "\<exists>j. row_of q i = Some j \<and> P j \<and> q_locks q i = None" using row_in [OF assms] by auto
qed

lemma close_dead_ok:
  assumes "row_ok h es i j" "spent now inp j"
  shows "row_ok h (Expired i # es) i (close_dead now j)"
proof (rule row_ok_Cons [OF assms(1)])
  show "attempts_ok (close_dead now j)" using row_okD(2) [OF assms(1)] by (simp add: attempts_ok_def close_dead_def)
  show "claims_since i (Expired i # es) = j_attempts (close_dead now j) + refusals_since i (Expired i # es)"
    using row_okD(4) [OF assms(1)] by (simp add: close_dead_def)
qed (simp_all add: close_dead_def status_shape_def)

lemma close_each_ok:
  assumes "store_ok h (es, q)" "distinct ids"
    "\<And>i. i \<in> set ids \<Longrightarrow> \<exists>j. row_of q i = Some j \<and> spent now inp j \<and> q_locks q i = None"
  shows "store_ok h (rev (map Expired ids) @ es, fold (\<lambda>i. update_row i (close_dead now)) ids q) \<and>
     q_locks (fold (\<lambda>i. update_row i (close_dead now)) ids q) = q_locks q"
  using assms
proof (induction ids arbitrary: es q)
  case (Cons i ids)
  obtain j where j: "row_of q i = Some j" "spent now inp j" "q_locks q i = None" using Cons.prems(3) by auto
  let ?q = "set_row i (close_dead now j) q"
  have "store_ok h (Expired i # es, ?q)"
    by (rule store_ok_row [OF Cons.prems(1) j(1) _ _ close_dead_ok [OF store_okD(4) [OF Cons.prems(1) j(1)] j(2)]])
       (use j(3) in \<open>simp_all add: delivery_def close_dead_def\<close>)
  moreover have "\<exists>a. row_of ?q k = Some a \<and> spent now inp a \<and> q_locks ?q k = None" if "k \<in> set ids" for k
    using Cons.prems(2,3) that by (auto simp: row_of_set_row)
  ultimately show ?case using Cons.IH [of "Expired i # es" ?q] Cons.prems(2) j(1) by (simp add: update_row_def)
qed simp

lemma close_expired_ok:
  assumes "store_ok h (es, q)"
  shows "store_ok h (rev (map Expired (expired_ids now inp q)) @ es, close_expired now inp q)"
    "q_locks (close_expired now inp q) = q_locks q"
proof -
  note c = close_each_ok [OF assms select_ids(1) [OF store_okD(1) [OF assms]] select_ids(2) [OF store_okD(1) [OF assms]]]
  show "store_ok h (rev (map Expired (expired_ids now inp q)) @ es, close_expired now inp q)"
    "q_locks (close_expired now inp q) = q_locks q"
    using c by (simp_all add: close_expired_def expired_ids_def)
qed

lemma claimed_ok:
  assumes "row_ok h es i j" "due now inp j"
  shows "row_ok h (Claimed i t # es) i (claimed_job h t now lease j)"
proof (rule row_ok_Cons [OF assms(1)])
  have s: "status_shape j" "attempts_ok j" "claims_since i es = j_attempts j + refusals_since i es"
    using row_okD [OF assms(1)] by auto
  show "status_shape (claimed_job h t now lease j)"
    using s(1) assms(2) by (auto simp: status_shape_def claimed_job_def due_def lease_expired_def)
  show "attempts_ok (claimed_job h t now lease j)"
    using s(2) assms(2) by (auto simp: attempts_ok_def claimed_job_def due_def)
  show "claims_since i (Claimed i t # es) = j_attempts (claimed_job h t now lease j) + refusals_since i (Claimed i t # es)"
    using s(3) by (simp add: claimed_job_def)
qed (auto simp: claimed_job_def)

lemma claim_each_ok:
  assumes "store_ok h (es, q)" "distinct ids"
    "\<And>i. i \<in> set ids \<Longrightarrow> \<exists>j. row_of q i = Some j \<and> due now inp j \<and> q_locks q i = None"
  shows "\<exists>cs q'. claim_each h tok now lease ids q = Inr (cs, q') \<and>
     store_ok h (rev (map (\<lambda>(i, _, t). Claimed i t) cs) @ es, q') \<and>
     map (\<lambda>(i, _, t). (i, t)) cs = map (\<lambda>i. (i, tok i)) ids"
  using assms
proof (induction ids arbitrary: es q)
  case (Cons i ids)
  obtain j where j: "row_of q i = Some j" "due now inp j" "q_locks q i = None" using Cons.prems(3) by auto
  let ?j = "claimed_job h (tok i) now lease j"
  let ?q = "set_row i ?j q"
  have ok: "store_ok h (Claimed i (tok i) # es, ?q)"
    by (rule store_ok_row [OF Cons.prems(1) j(1) _ _ claimed_ok [OF store_okD(4) [OF Cons.prems(1) j(1)] j(2)]])
       (use j(3) in \<open>simp_all add: delivery_def claimed_job_def\<close>)
  have "\<exists>a. row_of ?q k = Some a \<and> due now inp a \<and> q_locks ?q k = None" if "k \<in> set ids" for k
    using Cons.prems(2,3) that by (auto simp: row_of_set_row)
  with Cons.IH [OF ok] Cons.prems(2) obtain cs q' where
    "claim_each h tok now lease ids ?q = Inr (cs, q')"
    "store_ok h (rev (map (\<lambda>(i, _, t). Claimed i t) cs) @ Claimed i (tok i) # es, q')"
    "map (\<lambda>(i, _, t). (i, t)) cs = map (\<lambda>i. (i, tok i)) ids" by auto
  then show ?case using j(1) by (simp add: Let_def)
qed simp

lemma claim_jobs_ok:
  assumes ok: "store_ok h (es, q)" and c: "claim_jobs h tok now inp q = Inr (cs, q')"
  shows "store_ok h (rev (map (\<lambda>(i, _, t). Claimed i t) cs) @ rev (map Expired (expired_ids now inp q)) @ es, q')"
proof -
  let ?q = "close_expired now inp q" and ?es = "rev (map Expired (expired_ids now inp q)) @ es"
  note ok1 = close_expired_ok(1) [OF ok, of now inp]
  let ?ids = "select_ids (due now inp) (nat (cl_limit inp)) ?q"
  note sel = select_ids [OF store_okD(1) [OF ok1], where P = "due now inp" and n = "nat (cl_limit inp)"]
  have "\<exists>cs q'. claim_each h tok now (cl_lease_seconds inp) ?ids ?q = Inr (cs, q') \<and>
     store_ok h (rev (map (\<lambda>(i, _, t). Claimed i t) cs) @ ?es, q') \<and>
     map (\<lambda>(i, _, t). (i, t)) cs = map (\<lambda>i. (i, tok i)) ?ids"
    by (rule claim_each_ok [OF ok1 sel(1)]) (rule sel(2))
  then show ?thesis using c by (auto simp: claim_jobs_def Let_def split: if_splits)
qed

subsection \<open>Enqueueing\<close>

lemma row_of_append:
  "row_of q i = None \<Longrightarrow> row_of (q\<lparr>q_rows := q_rows q @ [(i, j)], q_next := n\<rparr>) = (row_of q)(i \<mapsto> j)"
  by (auto simp: row_of_def map_add_def fun_eq_iff split: option.split)

lemma new_job_ok:
  assumes "assert_enqueue_input inp = None"
  shows "row_ok h (Enqueued i # es) i (new_job n now session inp)"
proof -
  have "1 \<le> max_attempts_of (en_max inp)"
    using assms by (auto simp: assert_enqueue_input_def max_attempts_of_def default_max_attempts_def positive_integer_def
        split: option.splits if_splits jsnum.splits)
  then show ?thesis
    by (simp add: row_ok_def status_shape_def attempts_ok_def new_job_def newest_Cons)
qed

lemma store_ok_frame:
  assumes ok: "store_ok h (es, q)" and r: "q_rows q' = q_rows q"
    and l: "\<And>i t. q_locks q' i = Some t \<Longrightarrow> newest i es = Some (Claimed i t)"
  shows "store_ok h (es, q')"
proof -
  have rows: "row_of q' = row_of q" using r by (simp add: row_of_def)
  show ?thesis using ok l unfolding store_ok_def by (simp add: rows r)
qed

lemma enqueue_job_ok:
  assumes ok: "store_ok h (es, q)" and fresh: "i \<notin> event_job ` set es"
    and e: "enqueue_job i now inp q = (res, q')"
  shows "store_ok h ((case res of Inr (_, True, _) \<Rightarrow> [Enqueued i] | _ \<Rightarrow> []) @ es, q')"
proof -
  have none: "row_of q i = None"
  proof (cases "row_of q i")
    case (Some j)
    from row_okD(3) [OF store_okD(4) [OF ok Some]] fresh show ?thesis by simp
  qed
  let ?P = "same_delivery (en_tenant inp) (en_kind inp) (en_key inp)"
  consider (refused) x where "res = Inl x" "q' = q"
    | (there) k st where "res = Inr (k, False, st)" "q' = q\<lparr>q_next := q_next q + 1\<rparr>"
    | (new) session where "res = Inr (i, True, JQueued)" "assert_enqueue_input inp = None" "find_first ?P (q_rows q) = None"
        "q' = q\<lparr>q_rows := q_rows q @ [(i, new_job (q_next q) now session inp)], q_next := q_next q + 1\<rparr>"
  proof (cases "assert_enqueue_input inp")
    case None
    show ?thesis
    proof (cases "actor_session_of (en_session inp)")
      case (Inl x)
      then show ?thesis using refused [of "BadSession x"] e None by (simp add: enqueue_job_def)
    next
      case (Inr session)
      show ?thesis
      proof (cases "find_first ?P (q_rows q)")
        case (Some kj)
        then show ?thesis using there [of "fst kj" "j_status (snd kj)"] e None Inr
          by (simp add: enqueue_job_def Let_def split: prod.splits)
      next
        case none: None
        have "(res, q') = (Inr (i, True, JQueued), q\<lparr>q_next := q_next q + 1,
            q_rows := q_rows q @ [(i, new_job (q_next q) now session inp)]\<rparr>)"
          using e None Inr none by (simp add: enqueue_job_def Let_def)
        then show ?thesis by (intro new [OF _ None none, of session]) simp_all
      qed
    qed
  next
    case (Some x)
    then show ?thesis using refused [of x] e by (simp add: enqueue_job_def)
  qed
  then show ?thesis
  proof cases
    case refused
    then show ?thesis using ok by simp
  next
    case there
    have "store_ok h (es, q')" by (rule store_ok_frame [OF ok]) (use store_okD(5) [OF ok] in \<open>simp_all add: there\<close>)
    then show ?thesis by (simp add: there)
  next
    case new
    let ?j = "new_job (q_next q) now session inp"
    have rows: "row_of q' = (row_of q)(i \<mapsto> ?j)" using row_of_append [OF none] by (simp add: new(4))
    have other: "delivery a \<noteq> delivery ?j" if "row_of q k = Some a" "j_key ?j \<noteq> None" for k a
    proof -
      have "(k, a) \<in> set (q_rows q)" using that(1) by (simp add: row_of_def map_of_SomeD)
      then have "\<not> ?P (k, a)" using new(3) by (simp add: find_first_None)
      then show ?thesis using that(2) by (auto simp: same_delivery_def delivery_def new_job_def)
    qed
    have "store_ok h (Enqueued i # es, q')"
    proof (rule store_okI)
      have "i \<notin> fst ` set (q_rows q)" using none by (simp add: row_of_def map_of_eq_None_iff)
      then show "distinct (map fst (q_rows q'))" using store_okD(1) [OF ok] by (simp add: new(4))
      show "deliveries_unique (row_of q')"
        unfolding deliveries_unique_def
      proof (intro allI impI)
        fix k l a b
        assume r: "row_of q' k = Some a" "row_of q' l = Some b" "j_key a \<noteq> None" "delivery a = delivery b"
        then have kb: "j_key b \<noteq> None" by (auto simp: delivery_def)
        show "k = l"
        proof (cases "k = i \<or> l = i")
          case True
          then show ?thesis using r kb other [of k a] other [of l b] by (auto simp: rows split: if_splits)
        next
          case False
          then show ?thesis using r store_okD(2) [OF ok] by (auto simp: rows deliveries_unique_def)
        qed
      qed
      show "newest k (Enqueued i # es) \<noteq> Some (Claimed k t)" if "row_of q' k = None" for k t
        using that store_okD(3) [OF ok, of k t] by (auto simp: rows newest_Cons split: if_splits)
      show "row_ok h (Enqueued i # es) k a" if "row_of q' k = Some a" for k a
        using that store_okD(4) [OF ok, of k a] new_job_ok [OF new(2)]
        by (auto simp: rows split: if_splits intro: row_ok_other)
      show "newest k (Enqueued i # es) = Some (Claimed k t)" if "q_locks q' k = Some t" for k t
      proof -
        have n: "newest k es = Some (Claimed k t)" using that store_okD(5) [OF ok, of k t] by (simp add: new(4))
        have "newest i es = None" using fresh by (simp add: newest_None)
        with n have "k \<noteq> i" by auto
        then show ?thesis using n by (simp add: newest_Cons)
      qed
    qed
    then show ?thesis by (simp add: new(1))
  qed
qed

subsection \<open>Locking and settling\<close>

lemma newest_issued: "newest i es = Some (Claimed i t) \<Longrightarrow> t \<in> issued es"
  by (auto simp: newest_def issued_def dest: find_first_Some)

lemma holds_claim_newest:
  assumes ok: "store_ok h (es, q)" and h: "inj_on h (issued es)" "t \<in> issued es"
  shows "holds_claim h i t q \<longleftrightarrow> newest i es = Some (Claimed i t)"
proof (cases "row_of q i")
  case None
  then show ?thesis using store_okD(3) [OF ok None] by (simp add: holds_claim_def)
next
  case (Some j)
  note r = store_okD(4) [OF ok Some]
  show ?thesis
  proof (cases "j_status j = JRunning")
    case True
    from row_okD(5) [OF r True] obtain u where u: "newest i es = Some (Claimed i u)" "j_token_hash j = Some (h u)" by blast
    then show ?thesis using Some True inj_onD [OF h(1), of u t] newest_issued [OF u(1)] h(2)
      by (auto simp: holds_claim_def)
  next
    case False
    then show ?thesis using Some row_okD(6) [OF r] by (simp add: holds_claim_def)
  qed
qed

lemma lock_claimed_ok:
  assumes ok: "store_ok h (es, q)" and h: "inj_on h (issued es)" "t \<in> issued es" and l: "lock_claimed_job h i t q = (b, q')"
  shows "store_ok h (es, q')"
proof (cases "holds_claim h i t q")
  case True
  then have n: "newest i es = Some (Claimed i t)" using holds_claim_newest [OF ok h] by simp
  then show ?thesis
    by (intro store_ok_frame [OF ok])
       (use l n store_okD(5) [OF ok] in \<open>auto simp: lock_claimed_job_def split: if_splits\<close>)
next
  case False
  then show ?thesis using l ok by (simp add: lock_claimed_job_def)
qed

lemma unlock_ok: "store_ok h (es, q) \<Longrightarrow> store_ok h (es, unlock i q)"
  by (rule store_ok_frame) (auto simp: unlock_def dest: store_okD(5) split: if_splits)

lemma settlement_ok:
  assumes r: "row_ok h es i j" and run: "j_status j = JRunning"
  shows "row_ok h (settled_event i outcome # es) i
     (settlement now random outcome j\<lparr>j_lease := None, j_token_hash := None, j_updated := now\<rparr>)"
proof (rule row_ok_Cons [OF r])
  have a: "1 \<le> j_max j" "j_attempts j \<le> j_max j" "1 \<le> j_attempts j" and c: "claims_since i es = j_attempts j + refusals_since i es"
    using row_okD(2,4) [OF r] run by (auto simp: attempts_ok_def)
  have s: "j_completed j = None" using row_okD(1) [OF r] run by (simp add: status_shape_def)
  show "status_shape (settlement now random outcome j\<lparr>j_lease := None, j_token_hash := None, j_updated := now\<rparr>)"
    by (cases outcome) (simp_all add: settlement_def terminal_def requeued_def status_shape_def)
  show "attempts_ok (settlement now random outcome j\<lparr>j_lease := None, j_token_hash := None, j_updated := now\<rparr>)"
    using a by (cases outcome) (auto simp: settlement_def terminal_def requeued_def attempts_ok_def)
  show "claims_since i (settled_event i outcome # es) =
      j_attempts (settlement now random outcome j\<lparr>j_lease := None, j_token_hash := None, j_updated := now\<rparr>) +
      refusals_since i (settled_event i outcome # es)"
    using a c by (cases outcome) (auto simp: settlement_def terminal_def requeued_def settled_event_def)
qed (cases outcome; simp add: settled_event_def settlement_def terminal_def requeued_def)+

lemma settlement_delivery: "delivery (settlement now random outcome j) = delivery j"
  by (cases outcome) (simp_all add: settlement_def terminal_def requeued_def delivery_def)

lemma settle_job_ok:
  assumes ok: "store_ok h (es, q)" and s: "settle_job h now random i t outcome q = (res, q')"
  shows "store_ok h ((if res = None then [] else [settled_event i outcome]) @ es, unlock i q')"
proof (cases res)
  case None
  then have "q' = q" using s by (auto simp: settle_job_def Let_def split: option.splits if_splits)
  then show ?thesis using None unlock_ok [OF ok] by simp
next
  case (Some st)
  then obtain j where j: "row_of q i = Some j" "j_status j = JRunning"
    "q' = set_row i (settlement now random outcome j\<lparr>j_lease := None, j_token_hash := None, j_updated := now\<rparr>) q"
    using s by (auto simp: settle_job_def Let_def split: option.splits if_splits)
  have e: "event_job (settled_event i outcome) = i" by (cases outcome) (simp_all add: settled_event_def)
  have "store_ok h (settled_event i outcome # es, unlock i q')"
    by (rule store_ok_row [OF ok j(1) _ e settlement_ok [OF store_okD(4) [OF ok j(1)] j(2)]])
       (use settlement_delivery [of now random outcome j] in \<open>simp_all add: j(3) unlock_def set_row_def delivery_def\<close>)
  then show ?thesis using Some by simp
qed

subsection \<open>The operator\<close>

lemma resolve_job_ok:
  assumes ok: "store_ok h (es, q)" and l: "q_locks q i = None" and s: "resolve_job now i action q = (res, q')"
  shows "store_ok h ((if res = None then [] else [case action of Requeue \<Rightarrow> Requeued i | CloseDone \<Rightarrow> ClosedByHand i]) @ es, q')"
proof (cases res)
  case None
  then show ?thesis using s ok by (auto simp: resolve_job_def Let_def split: option.splits if_splits)
next
  case (Some j')
  let ?e = "case action of Requeue \<Rightarrow> Requeued i | CloseDone \<Rightarrow> ClosedByHand i"
  let ?f = "\<lambda>j. case action of
      Requeue \<Rightarrow> j\<lparr>j_status := JQueued, j_attempts := 0, j_available := now, j_completed := None, j_updated := now\<rparr>
    | CloseDone \<Rightarrow> j\<lparr>j_status := JDone, j_completed := Some now, j_updated := now\<rparr>"
  obtain j where row: "row_of q i = Some j" using s Some by (cases "row_of q i") (simp_all add: resolve_job_def)
  have able: "resolvable (j_status j)"
    by (rule ccontr) (use s Some row in \<open>simp add: resolve_job_def\<close>)
  have "res = Some (?f j) \<and> q' = set_row i (?f j) q"
    using s row able by (simp add: resolve_job_def Let_def)
  then have j: "row_of q i = Some j" "resolvable (j_status j)" "q' = set_row i j' q" "j' = ?f j"
    using Some row able by auto
  note r = store_okD(4) [OF ok j(1)]
  have a: "1 \<le> j_max j" "j_attempts j \<le> j_max j" using row_okD(2) [OF r] by (auto simp: attempts_ok_def)
  have e: "event_job ?e = i" "?e \<noteq> Claimed i t" for t by (cases action; simp)+
  have d: "delivery j' = delivery j" by (cases action) (simp_all add: j(4) delivery_def)
  have "row_ok h (?e # es) i j'"
  proof (rule row_ok_Cons [OF r _ _ e(1)])
    show "status_shape j'" using row_okD(1) [OF r] j(2)
      by (cases action) (auto simp: j(4) status_shape_def resolvable_def)
    show "attempts_ok j'" using a by (cases action) (simp_all add: j(4) attempts_ok_def)
    show "claims_since i (?e # es) = j_attempts j' + refusals_since i (?e # es)"
      using row_okD(4) [OF r] by (cases action) (simp_all add: j(4))
    show "if j_status j' = JRunning then \<exists>t. ?e = Claimed i t \<and> j_token_hash j' = Some (h t) else \<forall>t. ?e \<noteq> Claimed i t"
      using e(2) by (cases action) (simp_all add: j(4))
  qed
  then have "store_ok h (?e # es, q')"
    by (rule store_ok_row [OF ok j(1) d e(1)]) (use l in \<open>simp_all add: j(3)\<close>)
  then show ?thesis using Some by simp
qed

lemma map_of_filter_rows:
  "distinct (map fst xs) \<Longrightarrow>
   map_of (filter P xs) i = (case map_of xs i of None \<Rightarrow> None | Some j \<Rightarrow> if P (i, j) then Some j else None)"
  by (induction xs) (auto split: option.split simp: map_of_eq_None_iff)

lemma sweep_ok:
  assumes ok: "store_ok h (es, q)" and s: "sweep_done_jobs now days q = Inr (n, q')"
  shows "store_ok h (es, q')"
proof -
  have q': "q' = q\<lparr>q_rows := filter (\<lambda>(i, j). \<not> swept now days j) (q_rows q)\<rparr>"
    using s by (auto simp: sweep_done_jobs_def split: if_splits)
  have rows: "row_of q' i = (case row_of q i of None \<Rightarrow> None | Some j \<Rightarrow> if swept now days j then None else Some j)" for i
    using map_of_filter_rows [OF store_okD(1) [OF ok]] by (auto simp: row_of_def q' split: option.split)
  show ?thesis
  proof (rule store_okI)
    show "distinct (map fst (q_rows q'))" using store_okD(1) [OF ok] by (simp add: q' distinct_map_filter)
    show "deliveries_unique (row_of q')"
      using store_okD(2) [OF ok] unfolding deliveries_unique_def rows by (fastforce split: option.splits if_splits)
    show "newest i es \<noteq> Some (Claimed i t)" if "row_of q' i = None" for i t
    proof (cases "row_of q i")
      case (Some j)
      then have "j_status j \<noteq> JRunning" using that by (auto simp: rows swept_def split: if_splits)
      then show ?thesis using row_okD(6) [OF store_okD(4) [OF ok Some]] by simp
    qed (use store_okD(3) [OF ok] in simp)
    show "row_ok h es i j" if "row_of q' i = Some j" for i j
      using that store_okD(4) [OF ok] by (auto simp: rows split: option.splits if_splits)
    show "newest i es = Some (Claimed i t)" if "q_locks q' i = Some t" for i t
      using that store_okD(5) [OF ok] by (simp add: q')
  qed
qed

lemma reorder_ok:
  assumes ok: "store_ok h (es, q)" and r: "mset rows = mset (q_rows q)"
  shows "store_ok h (es, q\<lparr>q_rows := rows\<rparr>)"
proof -
  have d: "distinct (map fst rows)" using store_okD(1) [OF ok] r by (metis mset_eq_imp_distinct_iff mset_map)
  then have "row_of (q\<lparr>q_rows := rows\<rparr>) = row_of q"
    using store_okD(1) [OF ok] mset_eq_setD [OF r] by (simp add: row_of_def map_of_inject_set)
  then show ?thesis using ok d by (simp add: store_ok_def)
qed

lemma job_step_ok:
  assumes "job_step h s s'" "inj_on h (issued (fst s))" "store_ok h s"
  shows "store_ok h s'"
  using assms
proof (induction rule: job_step.induct)
  case (js_enqueue i es now inp q res q')
  from js_enqueue(4,1,2) show ?case by (rule enqueue_job_ok)
next
  case (js_claim tok es now inp q cs q')
  from js_claim(4,2) show ?case by (rule claim_jobs_ok)
next
  case (js_lock q i token es b q')
  from js_lock(5,4,2,3) show ?case by (simp add: lock_claimed_ok)
next
  case (js_settle q i token now random outcome res q' es)
  from js_settle(4,2) show ?case by (rule settle_job_ok)
next
  case (js_rollback es q i)
  from js_rollback(2) show ?case by (rule unlock_ok)
next
  case (js_resolve q i now action res q' es)
  from js_resolve(4,1,2) show ?case by (rule resolve_job_ok)
next
  case (js_sweep now days q n q' es)
  from js_sweep(3,1) show ?case by (rule sweep_ok)
next
  case (js_reorder rows q es)
  from js_reorder(3,1) show ?case by (rule reorder_ok)
qed

lemma events_grow: "job_step h s s' \<Longrightarrow> issued (fst s) \<subseteq> issued (fst s')"
  by (induction rule: job_step.cases) (auto simp: issued_def)

lemma empty_store_ok: "store_ok h ([], empty_queue)"
  by (simp add: store_ok_def empty_queue_def row_of_def deliveries_unique_def newest_def)

definition tokens_distinct_ok :: "(string \<Rightarrow> string) \<Rightarrow> job_run \<Rightarrow> bool" where
  "tokens_distinct_ok h s = (inj_on h (issued (fst s)) \<longrightarrow> store_ok h s)"

interpretation job_runs: kept_invariant "([], empty_queue)" "job_step h" "tokens_distinct_ok h" for h
proof unfold_locales
  show "tokens_distinct_ok h ([], empty_queue)" by (simp add: tokens_distinct_ok_def empty_store_ok)
  fix s t assume "tokens_distinct_ok h s" "job_step h s t"
  then show "tokens_distinct_ok h t"
    unfolding tokens_distinct_ok_def using events_grow inj_on_subset job_step_ok by metis
qed

lemma reachable_store_ok:
  "job_reachable h (es, q) \<Longrightarrow> inj_on h (issued es) \<Longrightarrow> store_ok h (es, q)"
  using job_runs.holds [of h "(es, q)"] by (simp add: tokens_distinct_ok_def)

section \<open>Properties\<close>

text \<open>
  C19. A run has one outcome: a token locks and settles its job exactly while the claim it was issued
  for is the newest thing that happened to the job, so never after the job was settled, reclaimed by
  another worker, closed or resolved; a refused settlement changes nothing; and while a handler holds
  its row no later claim of the job exists, however long it runs.
\<close>

theorem claims_settle_once:
  assumes "job_reachable h (es, q)" "inj_on h (issued es)" "t \<in> issued es"
  shows "(fst (settle_job h now random i t outcome q) \<noteq> None \<longleftrightarrow> newest i es = Some (Claimed i t)) \<and>
     (fst (settle_job h now random i t outcome q) = None \<longrightarrow> snd (settle_job h now random i t outcome q) = q) \<and>
     (fst (lock_claimed_job h i t q) \<longleftrightarrow> newest i es = Some (Claimed i t)) \<and>
     (q_locks q i = Some t \<longrightarrow> newest i es = Some (Claimed i t))"
proof -
  have ok: "store_ok h (es, q)" using assms(1,2) by (rule reachable_store_ok)
  note n = holds_claim_newest [OF ok assms(2,3), of i]
  have s: "fst (settle_job h now random i t outcome q) \<noteq> None \<longleftrightarrow> holds_claim h i t q"
    by (simp add: settle_job_def holds_claim_def Let_def split: option.split)
  have k: "fst (settle_job h now random i t outcome q) = None \<longrightarrow> snd (settle_job h now random i t outcome q) = q"
    by (simp add: settle_job_def Let_def split: option.split)
  have l: "fst (lock_claimed_job h i t q) \<longleftrightarrow> holds_claim h i t q" by (simp add: lock_claimed_job_def)
  show ?thesis unfolding s l n using k store_okD(5) [OF ok] by blast
qed

text \<open>
  C20. The state machine is never left half-written: identifiers and delivery keys are unique, a job is
  leased exactly while it runs and completed exactly when it is over, and a job still to run has an
  attempt left.
\<close>

theorem jobs_stay_well_formed:
  assumes "job_reachable h (es, q)" "inj_on h (issued es)"
  shows "distinct (map fst (q_rows q)) \<and> deliveries_unique (row_of q) \<and>
     (\<forall>(i, j)\<in>set (q_rows q). status_shape j \<and> attempts_ok j)"
proof -
  have ok: "store_ok h (es, q)" using assms by (rule reachable_store_ok)
  show ?thesis using store_okD(1,2) [OF ok] row_in [OF store_okD(1) [OF ok]] row_okD(1,2) [OF store_okD(4) [OF ok]]
    by fastforce
qed

text \<open>
  C21. Attempts are bounded: since it was enqueued or given a fresh budget, a job has been claimed at
  most as often as it may be attempted, not counting the claims a policy refused before they ran.
\<close>

theorem attempts_are_bounded:
  assumes "job_reachable h (es, q)" "inj_on h (issued es)" "row_of q i = Some j"
  shows "claims_since i es \<le> j_max j + refusals_since i es"
  using row_okD(2,4) [OF store_okD(4) [OF reachable_store_ok [OF assms(1,2)] assms(3)]]
  by (simp add: attempts_ok_def)

text \<open>
  Enqueueing with a delivery key is idempotent: while a job with that key is in the table, whatever
  its state, enqueueing it again answers with that job and adds none.
\<close>

theorem a_delivery_key_names_one_job:
  assumes "job_reachable h (es, q)" "inj_on h (issued es)" "row_of q i = Some j" "j_key j = Some k"
    "en_tenant inp = j_tenant j" "en_kind inp = j_kind j" "en_key inp = Some k"
    "assert_enqueue_input inp = None" "actor_session_of (en_session inp) = Inr session"
  shows "enqueue_job n now inp q = (Inr (i, False, j_status j), q\<lparr>q_next := q_next q + 1\<rparr>)"
proof -
  let ?P = "same_delivery (en_tenant inp) (en_kind inp) (en_key inp)"
  have ok: "store_ok h (es, q)" using assms(1,2) by (rule reachable_store_ok)
  note rows = row_in [OF store_okD(1) [OF ok]]
  have "?P (i, j)" using assms(4-7) by (simp add: same_delivery_def)
  then have "find_first ?P (q_rows q) \<noteq> None" using rows assms(3) by (auto simp: find_first_None)
  then obtain x where x: "find_first ?P (q_rows q) = Some x" by blast
  from find_first_Some [OF x] have f: "row_of q (fst x) = Some (snd x)" "?P x" using rows [of "fst x" "snd x"] by auto
  then have "delivery (snd x) = delivery j" "j_key (snd x) \<noteq> None" using assms(4-7) by (auto simp: same_delivery_def delivery_def)
  then have "fst x = i" using store_okD(2) [OF ok] f(1) assms(3) by (auto simp: deliveries_unique_def)
  then have "x = (i, j)" using f(1) assms(3) by (cases x) simp
  then show ?thesis using x assms(8,9) by (simp add: enqueue_job_def Let_def)
qed

text \<open>One job, enqueued and claimed.\<close>

definition example_enqueue :: enqueue_input where
  "example_enqueue =
     \<lparr>en_tenant = ''t'', en_actor = ''a'', en_session = example_session_input, en_kind = ''mail.deliver'',
      en_payload = VObj None [], en_key = Some ''k'', en_available = None, en_max = None, en_subject = None\<rparr>"

definition example_claim :: claim_input where
  "example_claim = \<lparr>cl_limit = 1, cl_lease_seconds = 120, cl_kinds = None\<rparr>"

definition example_queued :: job_queue where
  "example_queued = snd (enqueue_job 7 0 example_enqueue empty_queue)"

definition example_tokens :: "nat \<Rightarrow> string" where "example_tokens i = ''x''"

definition claimed_queue :: "store_fault + (nat \<times> job \<times> string) list \<times> job_queue \<Rightarrow> job_queue" where
  "claimed_queue r = (case r of Inl _ \<Rightarrow> empty_queue | Inr (cs, q) \<Rightarrow> q)"

definition example_claimed :: job_queue where
  "example_claimed = claimed_queue (claim_jobs (\<lambda>t. t) example_tokens 5 example_claim example_queued)"

lemma example_steps:
  "fst (enqueue_job 7 0 example_enqueue empty_queue) = Inr (7, True, JQueued)"
  "expired_ids 5 example_claim example_queued = []"
  "map_sum id (map (\<lambda>(i, _, t). (i, t)) \<circ> fst) (claim_jobs (\<lambda>t. t) example_tokens 5 example_claim example_queued) =
     Inr [(7, ''x'')]"
  by code_simp+

lemma example_run: "job_reachable (\<lambda>t. t) ([Claimed 7 ''x'', Enqueued 7], example_claimed)"
proof -
  have "job_step (\<lambda>t. t) ([], empty_queue)
      ((case fst (enqueue_job 7 0 example_enqueue empty_queue) of Inr (_, True, _) \<Rightarrow> [Enqueued 7] | _ \<Rightarrow> []) @ [], example_queued)"
    by (rule js_enqueue [where now = 0 and inp = example_enqueue]) (simp_all add: example_queued_def)
  then have "job_step (\<lambda>t. t) ([], empty_queue) ([Enqueued 7], example_queued)" by (simp add: example_steps(1))
  with reachable_start have q: "job_reachable (\<lambda>t. t) ([Enqueued 7], example_queued)" by (rule reachable_step)
  obtain cs where c: "claim_jobs (\<lambda>t. t) example_tokens 5 example_claim example_queued = Inr (cs, example_claimed)"
    "map (\<lambda>(i, _, t). (i, t)) cs = [(7, ''x'')]"
    using example_steps(3) unfolding example_claimed_def claimed_queue_def
    by (cases "claim_jobs (\<lambda>t. t) example_tokens 5 example_claim example_queued") auto
  have "job_step (\<lambda>t. t) ([Enqueued 7], example_queued)
      (rev (map (\<lambda>(i, _, t). Claimed i t) cs) @ rev (map Expired (expired_ids 5 example_claim example_queued)) @ [Enqueued 7],
       example_claimed)"
    by (rule js_claim [OF _ c(1)]) simp
  moreover have "map (\<lambda>(i, _, t). Claimed i t) cs = [Claimed 7 ''x'']" using c(2) by auto
  ultimately have "job_step (\<lambda>t. t) ([Enqueued 7], example_queued) ([Claimed 7 ''x'', Enqueued 7], example_claimed)"
    by (simp add: example_steps(2))
  with q show ?thesis by (rule reachable_step)
qed

lemma example_issued: "issued [Claimed 7 ''x'', Enqueued 7] = {''x''}"
  by (auto simp: issued_def)

lemma example_row: "\<exists>j. row_of example_claimed 7 = Some j \<and> j_key j = Some ''k'' \<and> j_tenant j = ''t'' \<and>
   j_kind j = ''mail.deliver'' \<and> j_max j = 5 \<and> j_status j = JRunning"
proof -
  have "map_option (\<lambda>j. (j_key j, j_tenant j, j_kind j, j_max j, j_status j)) (row_of example_claimed 7) =
      Some (Some ''k'', ''t'', ''mail.deliver'', 5, JRunning)" by code_simp
  then show ?thesis by auto
qed

theorem claims_settle_witness:
  "fst (settle_job (\<lambda>t. t) 9 (JFin 0) 7 ''x'' (SetDone None) example_claimed) \<noteq> None"
proof -
  have "newest 7 [Claimed 7 ''x'', Enqueued 7] = Some (Claimed 7 ''x'')" by (simp add: newest_def)
  with claims_settle_once [OF example_run, of "''x''" 9 "JFin 0" 7 "SetDone None"] show ?thesis
    by (simp add: example_issued)
qed

theorem well_formed_witness: "distinct (map fst (q_rows example_claimed))"
  using jobs_stay_well_formed [OF example_run] by (simp add: example_issued)

theorem attempts_witness: "claims_since 7 [Claimed 7 ''x'', Enqueued 7] \<le> 5"
proof -
  obtain j where "row_of example_claimed 7 = Some j" "j_max j = 5" using example_row by blast
  with attempts_are_bounded [OF example_run, of 7 j] show ?thesis by (simp add: example_issued)
qed

theorem delivery_key_witness:
  "fst (enqueue_job 8 6 example_enqueue example_claimed) = Inr (7, False, JRunning)"
proof -
  obtain j where j: "row_of example_claimed 7 = Some j" "j_key j = Some ''k''" "j_tenant j = ''t''"
    "j_kind j = ''mail.deliver''" "j_status j = JRunning" using example_row by blast
  have "assert_enqueue_input example_enqueue = None" by code_simp
  with a_delivery_key_names_one_job [OF example_run, of 7 j "''k''" example_enqueue example_session 8 6] j example_session_of
  show ?thesis by (simp add: example_issued) (simp add: example_enqueue_def)
qed

text \<open>Once a delivered job has been swept, its key delivers again.\<close>

definition example_swept :: job_queue where
  "example_swept =
     (case sweep_done_jobs (40 * 86400000) 30
             (snd (settle_job (\<lambda>t. t) 9 (JFin 0) 7 ''x'' (SetDone None) example_claimed)) of
        Inl _ \<Rightarrow> example_claimed
      | Inr (n, q) \<Rightarrow> q)"

lemma a_swept_key_delivers_again:
  "fst (enqueue_job 8 (40 * 86400000) example_enqueue example_swept) = Inr (8, True, JQueued)"
  by code_simp

end
