(* ===== verification/Job_Worker.thy ===== *)
theory Job_Worker
  imports Job_Runs
begin

text \<open>
  How a worker runs a claimed job (\<open>jobs/worker.ts\<close>) and which handlers it dispatches to
  (\<open>jobs/handlers.ts\<close>): the settlement a handler's answer or a policy's refusal stands for, and the
  decision \<open>runClaimedJob\<close> takes in each way its transaction can end.  The handler, the admission
  guard and the database are outside; what they answer is the argument \<open>attempt\<close>, which also says
  whether a failed commit had taken effect and whether the separate settlement goes through.
\<close>

section \<open>Handlers\<close>

record job_module =
  jm_name :: string
  jm_handlers :: "(string \<times> bool) list"

datatype registry_fault =
    KindNotNamespaced string string
  | NotAFunction string string
  | KindTaken string string string

type_synonym registry = "string \<Rightarrow> string option"

fun register_handlers :: "string \<Rightarrow> (string \<times> bool) list \<Rightarrow> registry \<Rightarrow> registry_fault + registry" where
  "register_handlers name [] R = Inr R"
| "register_handlers name ((kind, callable) # hs) R =
     (if \<not> job_kind_ok kind then Inl (KindNotNamespaced name kind)
      else if \<not> callable then Inl (NotAFunction name kind)
      else case R kind of
             Some other \<Rightarrow> Inl (KindTaken kind other name)
           | None \<Rightarrow> register_handlers name hs (R(kind \<mapsto> name)))"

fun compose_from :: "job_module list \<Rightarrow> registry \<Rightarrow> registry_fault + registry" where
  "compose_from [] R = Inr R"
| "compose_from (m # ms) R = rbind (register_handlers (jm_name m) (jm_handlers m) R) (compose_from ms)"

definition compose_job_handlers :: "job_module list \<Rightarrow> registry_fault + registry" where
  "compose_job_handlers ms = compose_from ms (\<lambda>_. None)"

section \<open>What an answer stands for\<close>

definition job_field :: "jsval \<Rightarrow> string \<Rightarrow> jsval" where
  "job_field v name = (case own_prop v name of Some x \<Rightarrow> x | None \<Rightarrow> VUndef)"

definition is_job_error :: "jsval \<Rightarrow> bool" where
  "is_job_error v =
     (is_record v \<and> (case job_field v ''message'' of VStr _ \<Rightarrow> True | _ \<Rightarrow> False) \<and>
      (case job_field v ''code'' of VUndef \<Rightarrow> True | VStr _ \<Rightarrow> True | _ \<Rightarrow> False) \<and>
      (job_field v ''detail'' = VUndef \<or> is_record (job_field v ''detail'')))"

definition job_error_of :: "jsval \<Rightarrow> job_error" where
  "job_error_of v =
     \<lparr>je_message = (case job_field v ''message'' of VStr s \<Rightarrow> s | _ \<Rightarrow> []),
      je_code = (case job_field v ''code'' of VStr s \<Rightarrow> Some s | _ \<Rightarrow> None),
      je_detail = (if job_field v ''detail'' = VUndef then None else Some (job_field v ''detail''))\<rparr>"

definition invalid_outcome :: "string \<Rightarrow> string \<Rightarrow> settle_outcome" where
  "invalid_outcome kind reason =
     SetFailed \<lparr>je_message = ''Handler for '' @ [CHR 0x22] @ kind @ [CHR 0x22] @ '' '' @ reason @ ''.'',
       je_code = Some ''INVALID_OUTCOME'', je_detail = None\<rparr>"

definition retry_time :: "jsval \<Rightarrow> int option option" where
  "retry_time v =
     (case v of
        VUndef \<Rightarrow> Some None
      | VDate (Some t) \<Rightarrow> Some (Some t)
      | _ \<Rightarrow> None)"

text \<open>\<open>shown\<close> is \<open>String(v)\<close>.\<close>

definition settlement_of :: "(jsval \<Rightarrow> string) \<Rightarrow> string \<Rightarrow> jsval \<Rightarrow> settle_outcome" where
  "settlement_of shown kind v =
     (if v = VUndef then SetDone None
      else if \<not> is_record v then invalid_outcome kind ''returned something other than an outcome''
      else let res = job_field v ''result''; err = job_field v ''error'' in
      if job_field v ''outcome'' = VStr ''done''
      then if res = VUndef then SetDone None
           else if is_record res then SetDone (Some res)
           else invalid_outcome kind ''returned a result that is not an object''
      else if job_field v ''outcome'' = VStr ''retry''
      then if \<not> is_job_error err then invalid_outcome kind ''asked for a retry without an error''
           else case retry_time (job_field v ''retryAt'') of
                  None \<Rightarrow> invalid_outcome kind ''asked for a retry at an invalid time''
                | Some t \<Rightarrow> SetRetry (job_error_of err) t
      else if job_field v ''outcome'' = VStr ''failed''
      then if is_job_error err then SetFailed (job_error_of err) else invalid_outcome kind ''ended failed without an error''
      else if job_field v ''outcome'' = VStr ''outcome_unknown''
      then if is_job_error err then SetUnknown (job_error_of err)
           else invalid_outcome kind ''ended outcome_unknown without an error''
      else invalid_outcome kind
             (''returned an unrecognised outcome '' @ [CHR 0x22] @ shown (job_field v ''outcome'') @ [CHR 0x22]))"

record operation_error =
  oe_code :: string
  oe_message :: string
  oe_detail :: "string option"
  oe_retryable :: bool
  oe_retry_at :: "string option"

definition refused_job_settlement ::
  "(string \<Rightarrow> int option) \<Rightarrow> nat \<Rightarrow> operation_error \<Rightarrow> int \<Rightarrow> jsnum \<Rightarrow> settle_outcome" where
  "refused_job_settlement parse_date attempts denial now random =
     (let err = \<lparr>je_message = oe_message denial, je_code = Some (oe_code denial),
                 je_detail = (case oe_detail denial of
                                None \<Rightarrow> None
                              | Some d \<Rightarrow> if d = [] then None else Some (VObj None [(''reason'', VStr d)]))\<rparr>
      in case (case oe_retry_at denial of None \<Rightarrow> None | Some s \<Rightarrow> parse_date s) of
           Some named \<Rightarrow> SetNotAdmitted err (max named now)
         | None \<Rightarrow>
             (if oe_retryable denial
              then SetNotAdmitted err (now + \<lfloor>js_val (retry_delay_ms attempts random)\<rfloor>)
              else SetFailed err))"

section \<open>Running a claimed job\<close>

text \<open>
  What happens to a run: proving the claim may throw or find it gone, the admission guard may throw or
  refuse, the handler throws or returns, and settling and committing the transaction may fail.  A commit
  reported as failed may have taken effect all the same (\<open>at_kept\<close>), and the transaction that settles
  apart may fail too, or the process may be gone before it (\<open>at_apart\<close>).
\<close>

record attempt =
  at_lock :: "job_error + bool"
  at_admission :: "job_error + operation_error option"
  at_handler :: "job_error + jsval"
  at_commit :: "job_error option"
  at_kept :: bool
  at_apart :: bool

text \<open>Settled apart: with the settlement of the failed transaction, when it had one, and the one made apart from it.\<close>

datatype run_end = NotRun | SettledInside settle_outcome | SettledApart "settle_outcome option" settle_outcome

definition no_handler :: "string \<Rightarrow> settle_outcome" where
  "no_handler kind =
     SetDead \<lparr>je_message = ''No active runtime module handles job kind '' @ [CHR 0x22] @ kind @ [CHR 0x22] @ ''.'',
       je_code = Some ''NO_HANDLER'', je_detail = None\<rparr>"

definition commit_unknown :: settle_outcome where
  "commit_unknown =
     SetUnknown \<lparr>je_message = ''The handler completed, but its transaction outcome could not be confirmed.'',
       je_code = Some ''JOB_COMMIT_OUTCOME_UNKNOWN'', je_detail = None\<rparr>"

text \<open>The \<open>catch\<close>: what a failed transaction is settled as, apart from it.\<close>

definition after_failure :: "bool \<Rightarrow> settle_outcome option \<Rightarrow> job_error \<Rightarrow> settle_outcome" where
  "after_failure handler_started handler_settlement failure =
     (case handler_settlement of
        Some (SetDone res) \<Rightarrow> commit_unknown
      | Some s \<Rightarrow> s
      | None \<Rightarrow> if handler_started then SetUnknown failure else SetRetry failure None)"

definition run_claimed_job ::
  "(jsval \<Rightarrow> string) \<Rightarrow> (string \<Rightarrow> int option) \<Rightarrow> registry \<Rightarrow> string \<Rightarrow> nat \<Rightarrow> int \<Rightarrow> jsnum \<Rightarrow> attempt \<Rightarrow> run_end" where
  "run_claimed_job shown parse_date handlers kind attempts now random a =
     (if handlers kind = None then SettledApart None (no_handler kind)
      else case at_lock a of
             Inl e \<Rightarrow> SettledApart None (after_failure False None e)
           | Inr False \<Rightarrow> NotRun
           | Inr True \<Rightarrow>
               (case at_admission a of
                  Inl e \<Rightarrow> SettledApart None (after_failure False None e)
                | Inr (Some denial) \<Rightarrow>
                    (let s = refused_job_settlement parse_date attempts denial now random
                     in case at_commit a of
                          None \<Rightarrow> SettledInside s
                        | Some e \<Rightarrow> SettledApart (Some s) (after_failure False None e))
                | Inr None \<Rightarrow>
                    (case at_handler a of
                       Inl e \<Rightarrow> SettledApart None (after_failure True None e)
                     | Inr v \<Rightarrow>
                         (let s = settlement_of shown kind v
                          in case at_commit a of
                               None \<Rightarrow> SettledInside s
                             | Some e \<Rightarrow> SettledApart (Some s) (after_failure True (Some s) e)))))"

text \<open>A settlement on the store and the end of its transaction, with the event it leaves, if any.\<close>

definition settle_noted ::
  "(string \<Rightarrow> string) \<Rightarrow> int \<Rightarrow> jsnum \<Rightarrow> nat \<Rightarrow> string \<Rightarrow> settle_outcome \<Rightarrow> job_queue \<Rightarrow> job_event list \<times> job_queue" where
  "settle_noted h now random i token s q =
     (case settle_job h now random i token s q of
        (res, q') \<Rightarrow> (if res = None then [] else [settled_event i s], unlock i q'))"

text \<open>
  The two transactions of a run on the store: the handler's own, with its settlement inside, and the
  settlement apart from it after it failed.
\<close>

definition settle_run ::
  "(string \<Rightarrow> string) \<Rightarrow> int \<Rightarrow> jsnum \<Rightarrow> nat \<Rightarrow> string \<Rightarrow> attempt \<Rightarrow> run_end \<Rightarrow> job_queue \<Rightarrow> job_event list \<times> job_queue" where
  "settle_run h now random i token a e q =
     (case e of
        NotRun \<Rightarrow> ([], unlock i q)
      | SettledInside s \<Rightarrow> settle_noted h now random i token s q
      | SettledApart inside s \<Rightarrow>
          (case (case inside of
                   Some s0 \<Rightarrow> if at_kept a then settle_noted h now random i token s0 q else ([], unlock i q)
                 | None \<Rightarrow> ([], unlock i q)) of
             (evs, q1) \<Rightarrow>
               (if at_apart a
                then case settle_noted h now random i token s q1 of (evs', q2) \<Rightarrow> (evs' @ evs, q2)
                else (evs, q1))))"

definition replayed_session :: "job \<Rightarrow> (string \<times> string) \<times> actor_session" where
  "replayed_session j = ((j_tenant j, j_actor j), j_session j)"

section \<open>Properties\<close>

definition handler_started :: "registry \<Rightarrow> string \<Rightarrow> attempt \<Rightarrow> bool" where
  "handler_started handlers kind a =
     (handlers kind \<noteq> None \<and> at_lock a = Inr True \<and> at_admission a = Inr None)"

definition asked_to_retry :: "attempt \<Rightarrow> bool" where
  "asked_to_retry a =
     (case at_handler a of Inl _ \<Rightarrow> False | Inr v \<Rightarrow> job_field v ''outcome'' = VStr ''retry'')"

lemma settlement_of_retry:
  assumes "settlement_of shown kind v = SetRetry e t"
  shows "job_field v ''outcome'' = VStr ''retry''"
  using assms by (auto simp: settlement_of_def invalid_outcome_def Let_def split: if_splits option.splits)

lemma settlement_of_admitted: "settlement_of shown kind v \<noteq> SetNotAdmitted e t"
  by (auto simp: settlement_of_def invalid_outcome_def Let_def split: if_splits option.splits)

text \<open>A job that is over: it is gone, or its row is neither queued nor running.\<close>

definition over :: "nat \<Rightarrow> job_queue \<Rightarrow> bool" where
  "over i q = (\<forall>j. row_of q i = Some j \<longrightarrow> j_status j \<noteq> JQueued \<and> j_status j \<noteq> JRunning)"

lemma unlock_row [simp]: "row_of (unlock i q) = row_of q"
  by (simp add: unlock_def row_of_def)

subsection \<open>A job that is over stays over until it is requeued\<close>

lemma close_each_others: "k \<notin> set ids \<Longrightarrow> row_of (fold (\<lambda>i. update_row i f) ids q) k = row_of q k"
  by (induction ids arbitrary: q) (auto simp: update_row_def row_of_set_row split: option.split)

lemma claim_each_others:
  "claim_each h tok now lease ids q = Inr (cs, q') \<Longrightarrow> k \<notin> set ids \<Longrightarrow>
   row_of q' k = row_of q k \<and> (\<forall>t. Claimed k t \<notin> (\<lambda>(i, _, t). Claimed i t) ` set cs)"
proof (induction ids arbitrary: q cs)
  case (Cons i ids)
  from Cons.prems(1) obtain j cs' where r: "row_of q i = Some j" "cs = (i, claimed_job h (tok i) now lease j, tok i) # cs'"
    "claim_each h tok now lease ids (set_row i (claimed_job h (tok i) now lease j) q) = Inr (cs', q')"
    by (auto simp: Let_def rbind_Inr_iff split: option.splits)
  from Cons.IH [OF r(3)] Cons.prems(2) show ?case by (auto simp: r(2) row_of_set_row)
qed simp

lemma claim_jobs_over:
  assumes ok: "store_ok h (es, q)" and o: "over i q" and c: "claim_jobs h tok now inp q = Inr (cs, q')"
  shows "over i q' \<and> (\<forall>t. Claimed i t \<notin> (\<lambda>(i, _, t). Claimed i t) ` set cs)"
proof -
  let ?q = "close_expired now inp q"
  have e: "i \<notin> set (expired_ids now inp q)"
    using select_ids(2) [OF store_okD(1) [OF ok], of i "spent now inp" "nat (cl_limit inp)"] o
    by (auto simp: expired_ids_def spent_def lease_expired_def over_def)
  then have r: "row_of ?q i = row_of q i" by (simp add: close_expired_def close_each_others)
  have ok1: "distinct (map fst (q_rows ?q))" using store_okD(1) [OF close_expired_ok(1) [OF ok]] .
  have d: "i \<notin> set (select_ids (due now inp) (nat (cl_limit inp)) ?q)"
    using select_ids(2) [OF ok1, of i "due now inp" "nat (cl_limit inp)"] o r
    by (auto simp: due_def lease_expired_def over_def)
  from c have "claim_each h tok now (cl_lease_seconds inp) (select_ids (due now inp) (nat (cl_limit inp)) ?q) ?q = Inr (cs, q')"
    by (auto simp: claim_jobs_def Let_def split: if_splits)
  from claim_each_others [OF this d] o r show ?thesis by (simp add: over_def)
qed

lemma enqueue_over:
  assumes "enqueue_job k now inp q = (res, q')" "k \<noteq> i" "over i q"
  shows "over i q'"
proof -
  have "q_rows (snd (enqueue_job k now inp q)) = q_rows q \<or>
      (\<exists>j. q_rows (snd (enqueue_job k now inp q)) = q_rows q @ [(k, j)])"
    by (simp add: enqueue_job_def Let_def split: option.split sum.split)
  then have "q_rows q' = q_rows q \<or> (\<exists>j. q_rows q' = q_rows q @ [(k, j)])" using assms(1) by simp
  then have "row_of q' i = row_of q i"
    using assms(2) by (elim disjE exE) (simp_all add: row_of_def map_add_def split: option.split)
  then show ?thesis using assms(3) by (simp add: over_def)
qed

lemma settle_over:
  assumes "settle_job h now random k token s q = (res, q')" "over i q"
  shows "over i q'"
  using assms
  by (cases "k = i") (auto simp: settle_job_def over_def row_of_set_row Let_def split: option.splits if_splits)

lemma resolve_over:
  assumes "resolve_job now k action q = (res, q')" "over i q" "res = None \<or> k \<noteq> i \<or> action \<noteq> Requeue"
  shows "over i q'"
  using assms
  by (cases "k = i"; cases action) (auto simp: resolve_job_def over_def row_of_set_row Let_def split: option.splits if_splits)

lemma sweep_over:
  assumes ok: "store_ok h (es, q)" and "sweep_done_jobs now days q = Inr (n, q')" "over i q"
  shows "over i q'"
  using assms(2,3) map_of_filter_rows [OF store_okD(1) [OF ok], of "\<lambda>(i, j). \<not> swept now days j" i]
  by (auto simp: sweep_done_jobs_def over_def row_of_def split: if_splits option.splits)

lemma reorder_over:
  assumes ok: "store_ok h (es, q)" and r: "mset rows = mset (q_rows q)"
  shows "row_of (q\<lparr>q_rows := rows\<rparr>) = row_of q"
proof -
  have d: "distinct (map fst rows)" using store_okD(1) [OF ok] r by (metis mset_eq_imp_distinct_iff mset_map)
  then show ?thesis
    using store_okD(1) [OF ok] mset_eq_setD [OF r] by (simp add: row_of_def map_of_inject_set)
qed

lemma job_step_over:
  assumes "job_step h (es, q) (es', q')" "store_ok h (es, q)" "over i q" "i \<in> event_job ` set es"
  shows "\<exists>new. es' = new @ es \<and> (Requeued i \<in> set new \<or> over i q' \<and> (\<forall>t. Claimed i t \<notin> set new))"
  using assms(1)
proof (cases rule: job_step.cases)
  case (js_enqueue k now inp res)
  then have "k \<noteq> i" using assms(4) by auto
  with enqueue_over [OF js_enqueue(3) _ assms(3)] show ?thesis
    unfolding js_enqueue(1) by (intro exI conjI refl disjI2) (auto split: sum.splits bool.splits)
next
  case (js_claim tok now inp cs)
  from claim_jobs_over [OF assms(2,3) js_claim(3)] show ?thesis
    unfolding js_claim(1) by (intro exI [where x = "rev (map (\<lambda>(i, _, t). Claimed i t) cs) @ rev (map Expired (expired_ids now inp q))"]) auto
next
  case (js_lock k token b)
  have "q_rows q' = q_rows q" using js_lock(4) by (auto simp: lock_claimed_job_def split: if_splits)
  then have "over i q'" using assms(3) by (simp add: over_def row_of_def)
  then show ?thesis unfolding js_lock(1) by simp
next
  case (js_settle k token now random outcome res q2)
  from settle_over [OF js_settle(4) assms(3)] have "over i q'" by (simp add: js_settle(2) over_def)
  moreover have "Claimed i t \<noteq> settled_event k outcome" for t by (cases outcome) (simp_all add: settled_event_def)
  ultimately show ?thesis
    unfolding js_settle(1) by (intro exI [where x = "if res = None then [] else [settled_event k outcome]"]) auto
next
  case (js_rollback k)
  then show ?thesis using assms(3) by (simp add: over_def)
next
  case (js_resolve k now action res)
  let ?e = "case action of Requeue \<Rightarrow> Requeued k | CloseDone \<Rightarrow> ClosedByHand k"
  show ?thesis
  proof (cases "res = None \<or> k \<noteq> i \<or> action \<noteq> Requeue")
    case True
    from resolve_over [OF js_resolve(3) assms(3) True]
    show ?thesis unfolding js_resolve(1)
      by (intro exI [where x = "if res = None then [] else [?e]"]) (cases action; simp)
  qed (use js_resolve(1) in auto)
next
  case (js_sweep now days n)
  then show ?thesis using sweep_over [OF assms(2) _ assms(3)] by auto
next
  case (js_reorder rows)
  then show ?thesis using assms(3) reorder_over [OF assms(2)] by (simp add: over_def)
qed

text \<open>Along any history from a state where the job is over.\<close>

lemma history_over:
  assumes steps: "(job_step h)\<^sup>*\<^sup>* (es, q) s" and r: "job_reachable h (es, q)" and o: "over i q" "i \<in> event_job ` set es"
    and inj: "inj_on h (issued (fst s))"
  shows "\<exists>new. fst s = new @ es \<and> (Requeued i \<in> set new \<or> over i (snd s) \<and> (\<forall>t. Claimed i t \<notin> set new))"
proof -
  have "job_reachable h s \<and> (inj_on h (issued (fst s)) \<longrightarrow>
      (\<exists>new. fst s = new @ es \<and> (Requeued i \<in> set new \<or> over i (snd s) \<and> (\<forall>t. Claimed i t \<notin> set new))))"
    using steps
  proof (induction rule: rtranclp_induct)
    case base
    then show ?case using r o by simp
  next
    case (step s1 s2)
    then have r2: "job_reachable h s2" by (blast intro: reachable_step)
    show ?case
    proof (intro conjI impI)
      assume inj2: "inj_on h (issued (fst s2))"
      then have inj1: "inj_on h (issued (fst s1))" using events_grow [OF step(2)] by (rule inj_on_subset)
      obtain es1 q1 es2 q2 where s: "s1 = (es1, q1)" "s2 = (es2, q2)" by (cases s1; cases s2) blast
      from step.IH inj1 obtain new where n: "es1 = new @ es"
        "Requeued i \<in> set new \<or> over i q1 \<and> (\<forall>t. Claimed i t \<notin> set new)" by (auto simp: s)
      have ok: "store_ok h (es1, q1)" using step.IH inj1 reachable_store_ok by (simp add: s)
      have grow: "\<exists>new'. es2 = new' @ es1" using step(2) unfolding s
        by (cases rule: job_step.cases) (simp; blast)+
      show "\<exists>new. fst s2 = new @ es \<and> (Requeued i \<in> set new \<or> over i (snd s2) \<and> (\<forall>t. Claimed i t \<notin> set new))"
      proof (cases "Requeued i \<in> set new")
        case True
        then show ?thesis using grow n(1) by (auto simp: s)
      next
        case False
        then have "over i q1" "\<forall>t. Claimed i t \<notin> set new" using n(2) by auto
        with job_step_over [OF step(2) [unfolded s] ok] o(2) n(1)
        obtain new' where "es2 = new' @ es1" "Requeued i \<in> set new' \<or> over i q2 \<and> (\<forall>t. Claimed i t \<notin> set new')"
          by auto
        then show ?thesis using n(1) \<open>\<forall>t. Claimed i t \<notin> set new\<close>
          by (intro exI [where x = "new' @ new"]) (auto simp: s)
      qed
    qed (rule r2)
  qed
  then show ?thesis using inj by blast
qed

subsection \<open>The run of a started handler\<close>

text \<open>The handler's own transaction was committed, whatever the commit reported.\<close>

definition run_committed :: "attempt \<Rightarrow> bool" where
  "run_committed a = ((\<exists>v. at_handler a = Inr v) \<and> (at_commit a = None \<or> at_kept a))"

lemma settle_noted_steps:
  assumes "settle_noted h now random i token s q = (evs, q')" "q_locks q i = None \<or> q_locks q i = Some token"
  shows "job_step h (es, q) (evs @ es, q')" "q_locks q' i = None"
proof -
  obtain res q1 where r: "settle_job h now random i token s q = (res, q1)" by fastforce
  with assms(1) have e: "evs = (if res = None then [] else [settled_event i s])" "q' = unlock i q1"
    by (auto simp: settle_noted_def)
  show "job_step h (es, q) (evs @ es, q')" unfolding e by (rule js_settle [OF assms(2) r])
  show "q_locks q' i = None" by (simp add: e(2) unlock_def)
qed

lemma settle_run_steps:
  assumes "settle_run h now random i token a e q = (evs, q')" "q_locks q i = Some token"
  shows "(job_step h)\<^sup>*\<^sup>* (es, q) (evs @ es, q')"
proof (cases e)
  case NotRun
  then have "evs = [] \<and> q' = unlock i q" using assms(1) by (simp add: settle_run_def)
  then show ?thesis using js_rollback [of h es q i] by auto
next
  case (SettledInside s)
  then show ?thesis using settle_noted_steps(1) [of h now random i token s q evs q'] assms by (auto simp: settle_run_def)
next
  case (SettledApart inside s)
  obtain evs1 q1 where i: "(case inside of
      Some s0 \<Rightarrow> if at_kept a then settle_noted h now random i token s0 q else ([], unlock i q)
    | None \<Rightarrow> ([], unlock i q)) = (evs1, q1)" by fastforce
  have one: "job_step h (es, q) (evs1 @ es, q1) \<and> q_locks q1 i = None"
  proof (cases "\<exists>s0. inside = Some s0 \<and> at_kept a")
    case True
    then obtain s0 where "settle_noted h now random i token s0 q = (evs1, q1)" using i by auto
    from settle_noted_steps [OF this] assms(2) show ?thesis by blast
  next
    case False
    then have "evs1 = [] \<and> q1 = unlock i q" using i by (auto split: option.splits if_splits)
    then show ?thesis using js_rollback [of h es q i] by (simp add: unlock_def)
  qed
  show ?thesis
  proof (cases "at_apart a")
    case True
    then obtain evs2 where "settle_noted h now random i token s q1 = (evs2, q')" "evs = evs2 @ evs1"
      using assms(1) i by (auto simp: settle_run_def SettledApart split: prod.splits)
    with settle_noted_steps(1) [of h now random i token s q1 evs2 q' "evs1 @ es"] one
    show ?thesis by (auto intro: rtranclp.rtrancl_into_rtrancl)
  next
    case False
    then have "evs = evs1 \<and> q' = q1" using assms(1) i by (simp add: settle_run_def SettledApart)
    then show ?thesis using one by blast
  qed
qed

lemma settle_noted_claimed:
  assumes "row_of q i = Some j" "j_status j = JRunning" "j_token_hash j = Some (h token)"
  shows "\<exists>j'. row_of (snd (settle_noted h now random i token s q)) i = Some j' \<and>
     j_status j' = j_status (settlement now random s j) \<and> fst (settle_noted h now random i token s q) = [settled_event i s]"
  using assms by (simp add: settle_noted_def settle_job_def row_of_set_row Let_def)

lemma settle_noted_later:
  "row_of q i = Some j \<Longrightarrow> j_status j \<noteq> JRunning \<Longrightarrow>
   settle_noted h now random i token s q = ([], unlock i q)"
  by (simp add: settle_noted_def settle_job_def)

text \<open>What the settlement of a handler's answer makes of its job.\<close>

lemma answer_status:
  assumes "s = settlement_of shown kind v"
  shows "j_status (settlement now random s j) \<noteq> JRunning"
    "j_status (settlement now random s j) = JQueued \<Longrightarrow> job_field v ''outcome'' = VStr ''retry''"
    "j_status (settlement now random s j) = JDone \<Longrightarrow> \<exists>res. s = SetDone res"
proof -
  note r = settlement_of_retry [of shown kind v, folded assms] and n = settlement_of_admitted [of shown kind v, folded assms]
  show "j_status (settlement now random s j) \<noteq> JRunning"
    "j_status (settlement now random s j) = JQueued \<Longrightarrow> job_field v ''outcome'' = VStr ''retry''"
    "j_status (settlement now random s j) = JDone \<Longrightarrow> \<exists>res. s = SetDone res"
    using n by (cases s; simp add: settlement_def terminal_def requeued_def r split: if_splits)+
qed

lemma after_started:
  assumes "s' = after_failure True (Some s) x"
  shows "s' = s \<and> (\<forall>res. s \<noteq> SetDone res) \<or> s' = commit_unknown"
  unfolding assms by (cases s) (simp_all add: after_failure_def)

lemma started_run_end:
  assumes "run_claimed_job shown parse_date handlers kind attempts now random a = e" "handler_started handlers kind a"
  shows "e = (case at_handler a of
      Inl x \<Rightarrow> SettledApart None (SetUnknown x)
    | Inr v \<Rightarrow> (case at_commit a of
                  None \<Rightarrow> SettledInside (settlement_of shown kind v)
                | Some x \<Rightarrow> SettledApart (Some (settlement_of shown kind v))
                              (after_failure True (Some (settlement_of shown kind v)) x)))"
  using assms by (auto simp: run_claimed_job_def handler_started_def after_failure_def Let_def split: sum.splits)

text \<open>The row after the run of a started handler: over, queued because the handler asked for it, or left as it was.\<close>

lemma started_run_row:
  assumes r: "row_of q i = Some j" "j_status j = JRunning" "j_token_hash j = Some (h token)"
    and st: "handler_started handlers kind a"
    and e: "run_claimed_job shown parse_date handlers kind attempts now random a = e"
    and q1: "settle_run h now random i token a e q = (evs, q1)"
  shows "\<exists>j'. row_of q1 i = Some j' \<and>
     (j_status j' = JQueued \<longrightarrow> asked_to_retry a) \<and> (j_status j' = JDone \<longrightarrow> run_committed a) \<and>
     (j_status j' = JRunning \<longrightarrow> j' = j \<and> evs = [] \<and> \<not> at_apart a \<and> \<not> run_committed a)"
proof -
  note e' = started_run_end [OF e st]
  note claimed = settle_noted_claimed [where h = h and token = token and now = now and random = random, OF r]
  have r': "row_of (unlock i q) i = Some j" using r(1) by simp
  note claimed' = settle_noted_claimed [where h = h and token = token and now = now and random = random, OF r' r(2,3)]
  have unknown: "j_status (settlement now random (SetUnknown x) j) = JOutcomeUnknown"
    "j_status (settlement now random commit_unknown j) = JOutcomeUnknown" for x
    by (simp_all add: settlement_def terminal_def commit_unknown_def)
  show ?thesis
  proof (cases "at_handler a")
    case (Inl x)
    have s: "settle_run h now random i token a e q =
        (if at_apart a then settle_noted h now random i token (SetUnknown x) (unlock i q) else ([], unlock i q))"
      by (simp add: e' Inl settle_run_def split: prod.split)
    show ?thesis
    proof (cases "at_apart a")
      case True
      with s q1 have m: "settle_noted h now random i token (SetUnknown x) (unlock i q) = (evs, q1)" by simp
      show ?thesis using claimed' [of "SetUnknown x"] unknown by (auto simp: m)
    next
      case False
      then show ?thesis using s q1 r r' by (auto simp: run_committed_def Inl)
    qed
  next
    case (Inr v)
    let ?s = "settlement_of shown kind v"
    have ans: "j_status (settlement now random ?s j) \<noteq> JRunning"
      "j_status (settlement now random ?s j) = JQueued \<Longrightarrow> asked_to_retry a"
      using answer_status [OF refl, where j = j] by (auto simp: asked_to_retry_def Inr)
    show ?thesis
    proof (cases "at_commit a")
      case None
      then have s: "settle_run h now random i token a e q = settle_noted h now random i token ?s q"
        by (simp add: e' Inr settle_run_def)
      with q1 have m: "settle_noted h now random i token ?s q = (evs, q1)" by simp
      show ?thesis using claimed [of ?s] ans by (auto simp: m run_committed_def Inr None)
    next
      case (Some x)
      let ?s2 = "after_failure True (Some ?s) x"
      have s2: "j_status (settlement now random ?s2 j) \<noteq> JRunning"
        "j_status (settlement now random ?s2 j) = JQueued \<Longrightarrow> asked_to_retry a"
        "j_status (settlement now random ?s2 j) \<noteq> JDone"
        using after_started [OF refl, of ?s x] ans answer_status(3) [OF refl, of now random shown kind v j] unknown(2) by auto
      show ?thesis
      proof (cases "at_kept a")
        case kept: True
        obtain ev1 qm where m: "settle_noted h now random i token ?s q = (ev1, qm)" by fastforce
        obtain jm where jm: "row_of qm i = Some jm" "j_status jm = j_status (settlement now random ?s j)" "ev1 \<noteq> []"
          using claimed [of ?s] m by auto
        have run: "j_status jm \<noteq> JRunning" using jm(2) ans(1) by simp
        have "settle_run h now random i token a e q = (if at_apart a then (ev1, unlock i qm) else (ev1, qm))"
          using m settle_noted_later [OF jm(1) run] by (simp add: e' Inr Some settle_run_def kept)
        then have "row_of q1 i = Some jm" using q1 jm(1) by (auto split: if_splits)
        moreover have "run_committed a" by (simp add: run_committed_def Inr kept)
        ultimately show ?thesis using run ans(2) jm(2) by auto
      next
        case False
        then have s: "settle_run h now random i token a e q =
            (if at_apart a then settle_noted h now random i token ?s2 (unlock i q) else ([], unlock i q))"
          by (simp add: e' Inr Some settle_run_def split: prod.split)
        show ?thesis
        proof (cases "at_apart a")
          case True
          with s q1 have m: "settle_noted h now random i token ?s2 (unlock i q) = (evs, q1)" by simp
          show ?thesis using claimed' [of ?s2] s2 by (auto simp: m)
        next
          case no: False
          then show ?thesis using s q1 r r' False by (auto simp: run_committed_def Inr Some)
        qed
      qed
    qed
  qed
qed


text \<open>The process died, or the database failed, before anything of the run was committed.\<close>

definition left_running :: "attempt \<Rightarrow> bool" where
  "left_running a = (\<not> at_apart a \<and> \<not> run_committed a)"

lemma settle_run_left:
  assumes "run_claimed_job shown parse_date handlers kind attempts now random a = e" "handler_started handlers kind a"
    "settle_run h now random i token a e q = (evs, q1)" "left_running a"
  shows "evs = [] \<and> row_of q1 i = row_of q i"
  using assms(3,4) unfolding started_run_end [OF assms(1,2)]
  by (auto simp: settle_run_def left_running_def run_committed_def split: sum.splits option.splits)

lemma settle_run_reachable:
  assumes "job_reachable h (es, q)" "settle_run h now random i token a e q = (evs, q1)" "q_locks q i = Some token"
  shows "job_reachable h (evs @ es, q1)"
  using settle_run_steps [OF assms(2,3), of es] assms(1)
  by (induction rule: rtranclp_induct) (auto intro: reachable_step)

text \<open>
  C22. Work a handler has started is not started again behind its back: whatever happens afterwards,
  including claims by other workers, sweeps and clients that enqueue, the job is claimed anew only if
  the handler itself asked to be retried, if an operator requeues it, or if nothing of the run was
  committed at all, neither the handler's transaction nor a settlement apart from it; then the row is
  left as it was, and its lease runs out.  And the job is done only if the handler's own transaction was
  committed.
\<close>

theorem started_work_is_not_repeated:
  assumes "job_reachable h (es, q)" "q_locks q i = Some token" "handler_started handlers kind a"
    "run_claimed_job shown parse_date handlers kind attempts now random a = e"
    "settle_run h now random i token a e q = (evs, q1)"
    "(job_step h)\<^sup>*\<^sup>* (evs @ es, q1) (new @ evs @ es, q2)" "inj_on h (issued (new @ evs @ es))"
  shows "(Claimed i t \<in> set new \<longrightarrow> asked_to_retry a \<or> Requeued i \<in> set new \<or> left_running a) \<and>
     (left_running a \<longrightarrow> evs = [] \<and> row_of q1 i = row_of q i) \<and>
     (\<forall>j. row_of q1 i = Some j \<and> j_status j = JDone \<longrightarrow> run_committed a)"
proof -
  have sub: "issued es \<subseteq> issued (new @ evs @ es)" "issued (evs @ es) \<subseteq> issued (new @ evs @ es)"
    by (auto simp: issued_def)
  have ok: "store_ok h (es, q)"
    using reachable_store_ok [OF assms(1)] inj_on_subset [OF assms(7) sub(1)] by blast
  have n: "newest i es = Some (Claimed i token)" using store_okD(5) [OF ok assms(2)] .
  have "holds_claim h i token q"
    using holds_claim_newest [OF ok inj_on_subset [OF assms(7) sub(1)] newest_issued [OF n]] n by blast
  then obtain j where j: "row_of q i = Some j" "j_status j = JRunning" "j_token_hash j = Some (h token)"
    by (auto simp: holds_claim_def split: option.splits)
  from started_run_row [where h = h and token = token, OF j assms(3-5)] obtain j' where j': "row_of q1 i = Some j'"
    "j_status j' = JQueued \<longrightarrow> asked_to_retry a" "j_status j' = JDone \<longrightarrow> run_committed a"
    "j_status j' = JRunning \<longrightarrow> j' = j \<and> evs = [] \<and> left_running a" by (auto simp: left_running_def)
  have "asked_to_retry a \<or> Requeued i \<in> set new \<or> left_running a" if c: "Claimed i t \<in> set new"
  proof (cases "over i q1")
    case True
    have "i \<in> event_job ` set (evs @ es)" using row_okD(3) [OF store_okD(4) [OF ok j(1)]] by auto
    from history_over [OF assms(6) settle_run_reachable [OF assms(1,5,2)] True this] assms(7) c
    show ?thesis by auto
  next
    case False
    then show ?thesis using j' by (auto simp: over_def)
  qed
  moreover have "evs = [] \<and> row_of q1 i = row_of q i" if "left_running a"
    using that settle_run_left [OF assms(4,3,5)] by blast
  ultimately show ?thesis using j' by auto
qed

lemma register_kinds:
  assumes "register_handlers name hs R = Inr R'"
  shows "dom R' = dom R \<union> fst ` set hs \<and> distinct (map fst hs) \<and> dom R \<inter> fst ` set hs = {}"
  using assms
proof (induction name hs R rule: register_handlers.induct)
  case (2 name kind callable hs R)
  then have n: "job_kind_ok kind" "callable" "R kind = None" "register_handlers name hs (R(kind \<mapsto> name)) = Inr R'"
    by (auto split: if_splits option.splits)
  have d: "dom (R(kind \<mapsto> name)) = insert kind (dom R)" by simp
  have k: "kind \<notin> dom R" using n(3) by (simp add: domIff)
  from "2.IH" [OF _ _ n(3) n(4)] n(1,2) k show ?case unfolding d by (simp; blast)
qed simp

lemma compose_kinds:
  assumes "compose_from ms R = Inr R'"
  shows "dom R' = dom R \<union> (\<Union>m\<in>set ms. fst ` set (jm_handlers m)) \<and>
     distinct (concat (map (map fst \<circ> jm_handlers) ms)) \<and>
     dom R \<inter> (\<Union>m\<in>set ms. fst ` set (jm_handlers m)) = {}"
  using assms
proof (induction ms R rule: compose_from.induct)
  case (2 m ms R)
  then obtain R1 where r: "register_handlers (jm_name m) (jm_handlers m) R = Inr R1" "compose_from ms R1 = Inr R'"
    by (auto simp: rbind_Inr_iff)
  from register_kinds [OF r(1)] "2.IH" [OF r] show ?case by (simp; blast)
qed simp

text \<open>
  No kind is ever dispatched to a second handler: a registry is composed only when no kind is
  registered twice, by one module or two, and then has exactly the registered kinds.
\<close>

theorem a_kind_has_one_handler:
  assumes "compose_job_handlers ms = Inr R"
  shows "distinct (concat (map (map fst \<circ> jm_handlers) ms)) \<and>
     dom R = set (concat (map (map fst \<circ> jm_handlers) ms))"
  using compose_kinds [OF assms [unfolded compose_job_handlers_def]] by simp

text \<open>A handler that returns nothing, for the job of the example run.\<close>

definition plain_attempt :: attempt where
  "plain_attempt = \<lparr>at_lock = Inr True, at_admission = Inr None, at_handler = Inr VUndef, at_commit = None,
    at_kept = False, at_apart = True\<rparr>"

definition mail_module :: job_module where
  "mail_module = \<lparr>jm_name = ''osf-jobs'', jm_handlers = [(''mail.deliver'', True)]\<rparr>"

definition mail_registry :: registry where
  "mail_registry = [''mail.deliver'' \<mapsto> ''osf-jobs'']"

lemma mail_registry: "compose_job_handlers [mail_module] = Inr mail_registry"
proof -
  have "job_kind_ok ''mail.deliver''" by code_simp
  then show ?thesis by (simp add: compose_job_handlers_def mail_module_def mail_registry_def)
qed

theorem one_handler_witness: "dom mail_registry = {''mail.deliver''}"
  using a_kind_has_one_handler [OF mail_registry] by (simp add: mail_module_def)

text \<open>The same job under a worker that dies in its handler; once the lease has run out another worker claims it.\<close>

definition dying_attempt :: attempt where
  "dying_attempt = plain_attempt\<lparr>at_handler := Inl \<lparr>je_message = ''killed'', je_code = None, je_detail = None\<rparr>, at_apart := False\<rparr>"

definition held :: job_queue where
  "held = snd (lock_claimed_job (\<lambda>t. t) 7 ''x'' example_claimed)"

definition dropped :: job_queue where
  "dropped = unlock 7 held"

lemma held_reachable: "job_reachable (\<lambda>t. t) ([Claimed 7 ''x'', Enqueued 7], held)"
proof -
  obtain b where "lock_claimed_job (\<lambda>t. t) 7 ''x'' example_claimed = (b, held)"
    unfolding held_def by (metis prod.collapse)
  moreover have "q_locks example_claimed 7 = None" by code_simp
  ultimately have "job_step (\<lambda>t. t) ([Claimed 7 ''x'', Enqueued 7], example_claimed) ([Claimed 7 ''x'', Enqueued 7], held)"
    by (intro js_lock) (simp_all add: example_issued)
  with example_run show ?thesis by (rule reachable_step)
qed

lemma reclaimed_steps:
  "q_locks held 7 = Some ''x''"
  "expired_ids 1000000 example_claim dropped = []"
  "map_sum id (map (\<lambda>(i, _, t). (i, t)) \<circ> fst) (claim_jobs (\<lambda>t. t) (\<lambda>_. ''y'') 1000000 example_claim dropped) =
     Inr [(7, ''y'')]"
  by code_simp+

theorem started_work_witness:
  "\<exists>q2. (job_step (\<lambda>t. t))\<^sup>*\<^sup>* ([Claimed 7 ''x'', Enqueued 7], dropped) ([Claimed 7 ''y'', Claimed 7 ''x'', Enqueued 7], q2) \<and>
     left_running dying_attempt \<and> row_of dropped 7 = row_of held 7"
proof -
  obtain cs q2 where c: "claim_jobs (\<lambda>t. t) (\<lambda>_. ''y'') 1000000 example_claim dropped = Inr (cs, q2)"
    "map (\<lambda>(i, _, t). (i, t)) cs = [(7, ''y'')]"
    using reclaimed_steps(3)
    by (cases "claim_jobs (\<lambda>t. t) (\<lambda>_. ''y'') 1000000 example_claim dropped") auto
  have "job_step (\<lambda>t. t) ([Claimed 7 ''x'', Enqueued 7], dropped)
      (rev (map (\<lambda>(i, _, t). Claimed i t) cs) @ rev (map Expired (expired_ids 1000000 example_claim dropped)) @
       [Claimed 7 ''x'', Enqueued 7], q2)"
    by (rule js_claim [OF _ c(1)]) simp
  moreover have "map (\<lambda>(i, _, t). Claimed i t) cs = [Claimed 7 ''y'']" using c(2) by auto
  ultimately have "job_step (\<lambda>t. t) ([Claimed 7 ''x'', Enqueued 7], dropped)
      ([Claimed 7 ''y'', Claimed 7 ''x'', Enqueued 7], q2)" by (simp add: reclaimed_steps(2))
  then have steps: "(job_step (\<lambda>t. t))\<^sup>*\<^sup>* ([] @ [Claimed 7 ''x'', Enqueued 7], dropped)
      ([Claimed 7 ''y''] @ [] @ [Claimed 7 ''x'', Enqueued 7], q2)" by auto
  have st: "handler_started mail_registry ''mail.deliver'' dying_attempt" "\<not> asked_to_retry dying_attempt"
    by (simp_all add: handler_started_def mail_registry_def plain_attempt_def dying_attempt_def asked_to_retry_def)
  have left: "left_running dying_attempt" by (simp add: left_running_def run_committed_def dying_attempt_def)
  let ?e = "run_claimed_job (\<lambda>_. []) (\<lambda>_. None) mail_registry ''mail.deliver'' 1 9 (JFin 0) dying_attempt"
  have run: "settle_run (\<lambda>t. t) 9 (JFin 0) 7 ''x'' dying_attempt ?e held = ([], dropped)"
    using started_run_end [OF refl st(1)] by (simp add: settle_run_def dropped_def) (simp add: dying_attempt_def)
  have "inj_on (\<lambda>t. t) A" for A :: "string set" by simp
  from started_work_is_not_repeated [OF held_reachable reclaimed_steps(1) st(1) refl run steps this, of "''y''"] st(2) left steps
  show ?thesis by auto
qed

end
