(* ===== verification/Timestamps.thy ===== *)
theory Timestamps
  imports Js_Date
begin

text \<open>
  Record versions are timestamps as text (\<open>db/timestamps.ts\<close>).  \<open>normalizeTimestampToken\<close> accepts a
  real timestamp with a zone and gives it the one spelling versions are compared in.  \<open>parse_date\<close> is
  \<open>Date.parse\<close>.
\<close>

section \<open>Scanning\<close>

datatype zone = ZUtc | ZOffset char string "string option"

record stamp =
  st_year :: string
  st_month :: string
  st_day :: string
  st_separator :: char
  st_hour :: string
  st_minute :: string
  st_second :: string
  st_fraction :: "string option"
  st_zone :: zone

definition take_digits_n :: "nat \<Rightarrow> string \<Rightarrow> (string \<times> string) option" where
  "take_digits_n n s =
     (if n \<le> length s \<and> list_all is_digit (take n s) then Some (take n s, drop n s) else None)"

definition take_mark :: "char list \<Rightarrow> string \<Rightarrow> (char \<times> string) option" where
  "take_mark cs s = (case s of [] \<Rightarrow> None | c # r \<Rightarrow> if c \<in> set cs then Some (c, r) else None)"

text \<open>\<open>(\.\d+)?\<close>\<close>

definition take_fraction :: "string \<Rightarrow> string option \<times> string" where
  "take_fraction s =
     (case s of
        [] \<Rightarrow> (None, s)
      | c # r \<Rightarrow>
          (if c = CHR ''.'' \<and> takeWhile is_digit r \<noteq> []
           then (Some (CHR ''.'' # takeWhile is_digit r), dropWhile is_digit r)
           else (None, s)))"

text \<open>\<open>(?:Z|[+-](\d{2})(?::?(\d{2}))?)$\<close>\<close>

definition scan_zone :: "string \<Rightarrow> zone option" where
  "scan_zone s =
     (if s = ''Z'' then Some ZUtc
      else Option.bind (take_mark ''+-'' s) (\<lambda>(sign, r1).
           Option.bind (take_digits_n 2 r1) (\<lambda>(hh, r2).
             if r2 = [] then Some (ZOffset sign hh None)
             else Option.bind (take_digits_n 2 (if hd r2 = CHR '':'' then tl r2 else r2)) (\<lambda>(mm, r3).
               if r3 = [] then Some (ZOffset sign hh (Some mm)) else None))))"

definition scan_stamp :: "string \<Rightarrow> stamp option" where
  "scan_stamp s =
     Option.bind (take_digits_n 4 s) (\<lambda>(year, r1).
     Option.bind (take_mark ''-'' r1) (\<lambda>(_, r2).
     Option.bind (take_digits_n 2 r2) (\<lambda>(month, r3).
     Option.bind (take_mark ''-'' r3) (\<lambda>(_, r4).
     Option.bind (take_digits_n 2 r4) (\<lambda>(day, r5).
     Option.bind (take_mark '' T'' r5) (\<lambda>(sep, r6).
     Option.bind (take_digits_n 2 r6) (\<lambda>(hour, r7).
     Option.bind (take_mark '':'' r7) (\<lambda>(_, r8).
     Option.bind (take_digits_n 2 r8) (\<lambda>(minute, r9).
     Option.bind (take_mark '':'' r9) (\<lambda>(_, r10).
     Option.bind (take_digits_n 2 r10) (\<lambda>(second, r11).
       case take_fraction r11 of (fraction, r12) \<Rightarrow>
         map_option (\<lambda>z. \<lparr>st_year = year, st_month = month, st_day = day, st_separator = sep, st_hour = hour,
             st_minute = minute, st_second = second, st_fraction = fraction, st_zone = z\<rparr>)
           (scan_zone r12))))))))))))"

section \<open>Real timestamps\<close>

definition month_lengths :: "nat list" where
  "month_lengths = [31, 28, 31, 30, 31, 30, 31, 31, 30, 31, 30, 31]"

definition is_leap_year :: "nat \<Rightarrow> bool" where
  "is_leap_year y = (y mod 4 = 0 \<and> (y mod 100 \<noteq> 0 \<or> y mod 400 = 0))"

definition days_in_month :: "nat \<Rightarrow> nat \<Rightarrow> nat option" where
  "days_in_month y m =
     (if y < 1 \<or> m < 1 \<or> 12 < m then None
      else if m = 2 then Some (if is_leap_year y then 29 else 28)
      else Some (month_lengths ! (m - 1)))"

definition is_real_timestamp :: "string \<Rightarrow> bool" where
  "is_real_timestamp s =
     (case scan_stamp s of
        None \<Rightarrow> False
      | Some st \<Rightarrow>
          (case days_in_month (digits_value (st_year st)) (digits_value (st_month st)) of
             None \<Rightarrow> False
           | Some days \<Rightarrow>
               1 \<le> digits_value (st_day st) \<and> digits_value (st_day st) \<le> days \<and>
               digits_value (st_hour st) \<le> 23 \<and> digits_value (st_minute st) \<le> 59 \<and> digits_value (st_second st) \<le> 59 \<and>
               (case st_zone st of
                  ZUtc \<Rightarrow> True
                | ZOffset _ hh mm \<Rightarrow>
                    digits_value hh \<le> 15 \<and> (case mm of None \<Rightarrow> True | Some m \<Rightarrow> digits_value m \<le> 59))))"

section \<open>One spelling\<close>

definition strip_zeros :: "string \<Rightarrow> string" where
  "strip_zeros s = rev (dropWhile (\<lambda>c. c = CHR ''0'') (rev s))"

definition normalize_fraction :: "string option \<Rightarrow> string" where
  "normalize_fraction fraction =
     (case fraction of
        None \<Rightarrow> ''.000''
      | Some f \<Rightarrow> (let trimmed = strip_zeros f in if trimmed = ''.'' then ''.000'' else trimmed))"

text \<open>
  The last dot of the text starts the fraction the regular expression replaces, if digits and a zone
  are all that follows.
\<close>

definition full_zone :: "string \<Rightarrow> bool" where
  "full_zone s = (case scan_zone s of None \<Rightarrow> False | Some ZUtc \<Rightarrow> True | Some (ZOffset _ _ mm) \<Rightarrow> mm \<noteq> None)"

definition normalize_iso_fraction :: "string \<Rightarrow> string" where
  "normalize_iso_fraction s =
     (let after = rev (takeWhile (\<lambda>c. c \<noteq> CHR ''.'') (rev s));
          before = take (length s - length after - 1) s;
          ds = takeWhile is_digit after; rest = dropWhile is_digit after
      in if CHR ''.'' \<in> set s \<and> ds \<noteq> [] \<and> full_zone rest
         then before @ normalize_fraction (Some (CHR ''.'' # ds)) @ rest else s)"

definition zone_suffix :: "char \<Rightarrow> string \<Rightarrow> string option \<Rightarrow> string" where
  "zone_suffix sign hh mm =
     (let minute = (case mm of None \<Rightarrow> ''00'' | Some m \<Rightarrow> m)
      in if sign # hh = ''+00'' \<and> minute = ''00'' then ''Z'' else sign # hh @ '':'' @ minute)"

definition timestamp_to_iso :: "(string \<Rightarrow> time_value) \<Rightarrow> string \<Rightarrow> string option" where
  "timestamp_to_iso parse_date value =
     (let s = js_trim value in
      case scan_stamp s of
        Some st \<Rightarrow>
          (case st_zone st of
             ZOffset sign hh mm \<Rightarrow>
               Some (st_year st @ ''-'' @ st_month st @ ''-'' @ st_day st @ ''T'' @ st_hour st @ '':'' @ st_minute st @
                 '':'' @ st_second st @ normalize_fraction (st_fraction st) @ zone_suffix sign hh mm)
           | ZUtc \<Rightarrow>
               (if ends_with s ''Z'' \<and> text_includes s ''T''
                then map_option (\<lambda>t. if CHR ''.'' \<in> set s then normalize_iso_fraction s else iso_string t) (parse_date s)
                else map_option (\<lambda>t. normalize_iso_fraction (iso_string t)) (parse_date value)))
      | None \<Rightarrow>
          (if ends_with s ''Z'' \<and> text_includes s ''T''
           then map_option (\<lambda>t. if CHR ''.'' \<in> set s then normalize_iso_fraction s else iso_string t) (parse_date s)
           else map_option (\<lambda>t. normalize_iso_fraction (iso_string t)) (parse_date value)))"

definition normalize_timestamp_token :: "(string \<Rightarrow> time_value) \<Rightarrow> string \<Rightarrow> string option" where
  "normalize_timestamp_token parse_date value =
     (let source = js_trim value
      in if \<not> is_real_timestamp source then None
         else case timestamp_to_iso parse_date source of
                None \<Rightarrow> None
              | Some normalized \<Rightarrow> if is_real_timestamp normalized then Some normalized else None)"

end
