(* ===== verification/Edit_Leases.thy ===== *)
theory Edit_Leases
  imports State_Machines Timestamps
begin

text \<open>
  The central edit-lease service (\<open>operations/entity/edit-leases.ts\<close>): who may change a record while
  someone is editing it.  The table \<open>platform.entity_edit_leases\<close> is the list of its rows, keyed by
  tenant, entity and target as its unique index has it; each operation is one transaction.  The
  version column of the target row as the tenant sees it, the hash of a token, \<open>Date.parse\<close>, the
  database clock and the random token and identifier are arguments.
\<close>

section \<open>State\<close>

type_synonym lease_key = "string \<times> string \<times> string"

record lease =
  le_id :: nat
  le_operation :: string
  le_owner :: string
  le_owner_name :: "string option"
  le_token_hash :: string
  le_version :: string
  le_timeout :: nat
  le_acquired :: int
  le_activity :: int
  le_expires :: int

record entity_event =
  ev_type :: string
  ev_entity :: string
  ev_target :: string
  ev_operation :: string
  ev_owner :: string
  ev_expires :: "int option"

record lease_table =
  lt_rows :: "(lease_key \<times> lease) list"
  lt_events :: "entity_event list"

record protected_operation =
  po_id :: string
  po_entity :: string
  po_version :: "string option"
  po_lease :: "string option"

record lease_session =
  ls_tenant :: string
  ls_user :: string
  ls_name :: "string option"

datatype lease_fault =
    InternalError
  | NotFound
  | VersionConflict
  | LeaseNotSupported
  | LeaseAcquireFailed
  | LeaseExpired
  | LeaseInvalid
  | Locked "string option" int
  | BadDuration
  | BadTimestamp
  | DuplicateToken

record granted_lease =
  gl_token :: string
  gl_operation :: string
  gl_entity :: string
  gl_target :: string
  gl_version :: string
  gl_expires :: int

definition empty_leases :: lease_table where
  "empty_leases = \<lparr>lt_rows = [], lt_events = []\<rparr>"

definition lease_at :: "lease_table \<Rightarrow> lease_key \<Rightarrow> lease option" where
  "lease_at T = map_of (lt_rows T)"

section \<open>Contracts\<close>

definition opt_part :: "char \<Rightarrow> string \<Rightarrow> nat \<times> string" where
  "opt_part c s =
     (case dropWhile is_digit s of
        [] \<Rightarrow> (0, s)
      | x # xs \<Rightarrow> (if takeWhile is_digit s \<noteq> [] \<and> x = c then (digits_value (takeWhile is_digit s), xs) else (0, s)))"

definition duration_seconds :: "string \<Rightarrow> nat option" where
  "duration_seconds s =
     (case s of
        [] \<Rightarrow> None
      | p # r \<Rightarrow>
          (if p \<noteq> CHR ''P'' then None
           else case opt_part CHR ''D'' r of
                  (days, []) \<Rightarrow> Some (days * 86400)
                | (days, t # r1) \<Rightarrow>
                    (if t \<noteq> CHR ''T'' then None
                     else case opt_part CHR ''H'' r1 of (hours, r2) \<Rightarrow>
                          case opt_part CHR ''M'' r2 of (minutes, r3) \<Rightarrow>
                          case opt_part CHR ''S'' r3 of (seconds, r4) \<Rightarrow>
                            (if r4 = [] then Some (days * 86400 + hours * 3600 + minutes * 60 + seconds) else None))))"

definition fixed_duration_seconds :: "string \<Rightarrow> lease_fault + nat" where
  "fixed_duration_seconds s =
     (case duration_seconds s of
        None \<Rightarrow> Inl BadDuration
      | Some n \<Rightarrow> if n < 30 \<or> 86400 < n then Inl BadDuration else Inr n)"

definition require_lease_contract :: "protected_operation \<Rightarrow> lease_fault + string \<times> string" where
  "require_lease_contract op =
     (case (po_version op, po_lease op) of
        (Some v, Some l) \<Rightarrow> Inr (v, l)
      | _ \<Rightarrow> Inl LeaseNotSupported)"

text \<open>A table is given by its columns: the field each stands for and its type.\<close>

type_synonym crud_columns = "(string \<times> string) list"

definition version_column :: "crud_columns \<Rightarrow> string \<Rightarrow> lease_fault + string" where
  "version_column columns field =
     (case find_first (\<lambda>c. fst c = field) columns of
        None \<Rightarrow> Inl InternalError
      | Some (name, ty) \<Rightarrow> if ty = ''timestamptz'' then Inr name else Inl InternalError)"

definition token_of :: "(string \<Rightarrow> time_value) \<Rightarrow> string \<Rightarrow> lease_fault + string" where
  "token_of parse_date s =
     (case normalize_timestamp_token parse_date s of None \<Rightarrow> Inl BadTimestamp | Some t \<Rightarrow> Inr t)"

text \<open>\<open>version\<close> is the version text of the row, \<open>None\<close> when the tenant has no such row.\<close>

definition current_version ::
  "(string \<Rightarrow> time_value) \<Rightarrow> crud_columns \<Rightarrow> string \<Rightarrow> string option \<Rightarrow> lease_fault + string option" where
  "current_version parse_date columns field version =
     rbind (version_column columns field) (\<lambda>_.
       case version of
         None \<Rightarrow> Inr None
       | Some v \<Rightarrow> rbind (token_of parse_date v) (\<lambda>t. Inr (Some t)))"

definition validate_entity_version ::
  "(string \<Rightarrow> time_value) \<Rightarrow> protected_operation \<Rightarrow> crud_columns \<Rightarrow> string option \<Rightarrow> string \<Rightarrow> lease_fault + unit" where
  "validate_entity_version parse_date op columns version expected =
     (case po_version op of
        None \<Rightarrow> Inl InternalError
      | Some field \<Rightarrow>
          rbind (version_column columns field) (\<lambda>_.
            case version of
              None \<Rightarrow> Inl NotFound
            | Some v \<Rightarrow>
                rbind (token_of parse_date v) (\<lambda>current.
                rbind (token_of parse_date expected) (\<lambda>wanted.
                  if current \<noteq> wanted then Inl VersionConflict else Inr ()))))"

definition trimmed_name :: "string option \<Rightarrow> string option" where
  "trimmed_name name = (case name of None \<Rightarrow> None | Some s \<Rightarrow> if js_trim s = [] then None else Some (js_trim s))"

definition locked_error :: "lease \<Rightarrow> lease_fault" where
  "locked_error l = Locked (trimmed_name (le_owner_name l)) (le_expires l)"

definition edit_lease_errors ::
  "int \<Rightarrow> lease_session \<Rightarrow> string \<Rightarrow> string list \<Rightarrow> lease_table \<Rightarrow> (string \<times> lease_fault) list" where
  "edit_lease_errors now ses entity targets T =
     map (\<lambda>((_, _, target), l). (target, locked_error l))
       (filter (\<lambda>((tenant, e, target), l). tenant = ls_tenant ses \<and> e = entity \<and> target \<noteq> [] \<and> target \<in> set targets \<and>
           le_owner l \<noteq> ls_user ses \<and> now < le_expires l) (lt_rows T))"

section \<open>Acquiring\<close>

definition lease_event :: "string \<Rightarrow> lease_key \<Rightarrow> string \<Rightarrow> string \<Rightarrow> int option \<Rightarrow> entity_event" where
  "lease_event type k operation owner expires =
     \<lparr>ev_type = type, ev_entity = fst (snd k), ev_target = snd (snd k), ev_operation = operation, ev_owner = owner,
      ev_expires = expires\<rparr>"

definition new_lease ::
  "(string \<Rightarrow> string) \<Rightarrow> int \<Rightarrow> nat \<Rightarrow> string \<Rightarrow> lease_session \<Rightarrow> protected_operation \<Rightarrow> string \<Rightarrow> nat \<Rightarrow> lease" where
  "new_lease h now rid token ses op version seconds =
     \<lparr>le_id = rid, le_operation = po_id op, le_owner = ls_user ses, le_owner_name = trimmed_name (ls_name ses),
      le_token_hash = h token, le_version = version, le_timeout = seconds, le_acquired = now, le_activity = now,
      le_expires = now + int seconds * 1000\<rparr>"

definition granted :: "string \<Rightarrow> lease_key \<Rightarrow> lease \<Rightarrow> string \<Rightarrow> granted_lease" where
  "granted token k l version =
     \<lparr>gl_token = token, gl_operation = le_operation l, gl_entity = fst (snd k), gl_target = snd (snd k),
      gl_version = version, gl_expires = le_expires l\<rparr>"

definition token_taken :: "string \<Rightarrow> lease_key \<Rightarrow> lease_table \<Rightarrow> bool" where
  "token_taken hash k T = list_ex (\<lambda>(k', l). k' \<noteq> k \<and> le_token_hash l = hash) (lt_rows T)"

text \<open>
  \<open>insert ... on conflict do update ... where expires_at <= now() or owner_user_id = excluded\<close>: the row
  keeps its identifier; a row the condition does not admit is left alone and returned by no one.
\<close>

definition acquirable ::
  "(string \<Rightarrow> time_value) \<Rightarrow> protected_operation \<Rightarrow> crud_columns \<Rightarrow> string option \<Rightarrow> lease_fault + nat \<times> string" where
  "acquirable parse_date op columns version =
     rbind (require_lease_contract op) (\<lambda>(field, duration).
     rbind (fixed_duration_seconds duration) (\<lambda>seconds.
     rbind (current_version parse_date columns field version) (\<lambda>v.
       case v of
         None \<Rightarrow> Inl NotFound
       | Some t \<Rightarrow> if t = [] then Inl NotFound else Inr (seconds, t))))"

definition write_lease ::
  "(string \<Rightarrow> string) \<Rightarrow> (string \<Rightarrow> time_value) \<Rightarrow> string \<Rightarrow> lease_key \<Rightarrow> lease \<Rightarrow> lease_table \<Rightarrow>
   (lease_fault + granted_lease) \<times> lease_table" where
  "write_lease h parse_date token k l T =
     (if token_taken (h token) k T then (Inl DuplicateToken, T)
      else case token_of parse_date (le_version l) of
             Inl e \<Rightarrow> (Inl e, T)
           | Inr version \<Rightarrow>
               (Inr (granted token k l version),
                \<lparr>lt_rows = massoc_set k l (lt_rows T),
                 lt_events = lt_events T @
                   [lease_event ''edit_lease_acquired'' k (le_operation l) (le_owner l) (Some (le_expires l))]\<rparr>))"

definition acquire_lease ::
  "(string \<Rightarrow> string) \<Rightarrow> (string \<Rightarrow> time_value) \<Rightarrow> int \<Rightarrow> nat \<Rightarrow> string \<Rightarrow> lease_session \<Rightarrow> protected_operation \<Rightarrow>
   crud_columns \<Rightarrow> string \<Rightarrow> string option \<Rightarrow> lease_table \<Rightarrow> (lease_fault + granted_lease) \<times> lease_table" where
  "acquire_lease h parse_date now rid token ses op columns target version T =
     (case acquirable parse_date op columns version of
        Inl e \<Rightarrow> (Inl e, T)
      | Inr (seconds, t) \<Rightarrow>
          (let k = (ls_tenant ses, po_entity op, target)
           in case lease_at T k of
                None \<Rightarrow> write_lease h parse_date token k (new_lease h now rid token ses op t seconds) T
              | Some l \<Rightarrow>
                  (if le_expires l \<le> now \<or> le_owner l = ls_user ses
                   then write_lease h parse_date token k (new_lease h now (le_id l) token ses op t seconds) T
                   else if now < le_expires l then (Inl (locked_error l), T)
                   else (Inl LeaseAcquireFailed, T))))"

section \<open>Renewing and releasing\<close>

definition held_by :: "string \<Rightarrow> lease_session \<Rightarrow> lease_key \<times> lease \<Rightarrow> bool" where
  "held_by hash ses row = (fst (fst row) = ls_tenant ses \<and> le_owner (snd row) = ls_user ses \<and> le_token_hash (snd row) = hash)"

definition renewable :: "string \<Rightarrow> int \<Rightarrow> lease_session \<Rightarrow> string list \<Rightarrow> lease_key \<times> lease \<Rightarrow> bool" where
  "renewable hash now ses allowed row =
     (held_by hash ses row \<and> le_operation (snd row) \<in> set allowed \<and> now < le_expires (snd row))"

definition renewed_lease :: "int \<Rightarrow> lease \<Rightarrow> lease" where
  "renewed_lease now l = l\<lparr>le_activity := now, le_expires := now + int (le_timeout l) * 1000\<rparr>"

definition renew_lease ::
  "(string \<Rightarrow> string) \<Rightarrow> (string \<Rightarrow> time_value) \<Rightarrow> int \<Rightarrow> lease_session \<Rightarrow> string \<Rightarrow> string list \<Rightarrow> lease_table \<Rightarrow>
   (lease_fault + granted_lease) \<times> lease_table" where
  "renew_lease h parse_date now ses token allowed T =
     (if allowed = [] then (Inl LeaseExpired, T)
      else case find_first (renewable (h token) now ses allowed) (lt_rows T) of
             None \<Rightarrow> (Inl LeaseExpired, T)
           | Some (k, l) \<Rightarrow>
               (case token_of parse_date (le_version l) of
                  Inl e \<Rightarrow> (Inl e, T)
                | Inr version \<Rightarrow>
                    (let l' = renewed_lease now l
                     in (Inr (granted [] k l' version),
                         \<lparr>lt_rows = map (\<lambda>row. if renewable (h token) now ses allowed row
                                           then (fst row, renewed_lease now (snd row)) else row) (lt_rows T),
                          lt_events = lt_events T @
                            [lease_event ''edit_lease_renewed'' k (le_operation l') (ls_user ses) (Some (le_expires l'))]\<rparr>))))"

definition release_lease :: "(string \<Rightarrow> string) \<Rightarrow> lease_session \<Rightarrow> string \<Rightarrow> lease_table \<Rightarrow> bool \<times> lease_table" where
  "release_lease h ses token T =
     (case find_first (held_by (h token) ses) (lt_rows T) of
        None \<Rightarrow> (False, T)
      | Some (k, l) \<Rightarrow>
          (True,
           \<lparr>lt_rows = filter (\<lambda>row. \<not> held_by (h token) ses row) (lt_rows T),
            lt_events = lt_events T @ [lease_event ''edit_lease_released'' k (le_operation l) (ls_user ses) None]\<rparr>))"

section \<open>Using a lease\<close>

definition require_lease ::
  "(string \<Rightarrow> string) \<Rightarrow> (string \<Rightarrow> time_value) \<Rightarrow> int \<Rightarrow> lease_session \<Rightarrow> protected_operation \<Rightarrow> string \<Rightarrow> string \<Rightarrow> string \<Rightarrow>
   lease_table \<Rightarrow> lease_fault + lease" where
  "require_lease h parse_date now ses op target expected token T =
     rbind (require_lease_contract op) (\<lambda>_.
       case lease_at T (ls_tenant ses, po_entity op, target) of
         None \<Rightarrow> Inl LeaseInvalid
       | Some l \<Rightarrow>
           (if le_expires l \<le> now then Inl LeaseInvalid
            else if le_owner l \<noteq> ls_user ses then Inl (locked_error l)
            else rbind (token_of parse_date (le_version l)) (\<lambda>have.
                 rbind (token_of parse_date expected) (\<lambda>wanted.
                   if have \<noteq> wanted then Inl VersionConflict
                   else if le_operation l \<noteq> po_id op \<or> le_token_hash l \<noteq> h token then Inl LeaseInvalid
                   else Inr l))))"

definition validate_lease ::
  "(string \<Rightarrow> string) \<Rightarrow> (string \<Rightarrow> time_value) \<Rightarrow> int \<Rightarrow> lease_session \<Rightarrow> protected_operation \<Rightarrow> string \<Rightarrow> string \<Rightarrow> string \<Rightarrow>
   lease_table \<Rightarrow> lease_fault + unit" where
  "validate_lease h parse_date now ses op target expected token T =
     rbind (require_lease h parse_date now ses op target expected token T) (\<lambda>_. Inr ())"

definition consume_lease ::
  "(string \<Rightarrow> string) \<Rightarrow> (string \<Rightarrow> time_value) \<Rightarrow> int \<Rightarrow> lease_session \<Rightarrow> protected_operation \<Rightarrow> string \<Rightarrow> string \<Rightarrow> string \<Rightarrow>
   lease_table \<Rightarrow> (lease_fault + unit) \<times> lease_table" where
  "consume_lease h parse_date now ses op target expected token T =
     (case require_lease h parse_date now ses op target expected token T of
        Inl e \<Rightarrow> (Inl e, T)
      | Inr l \<Rightarrow>
          (Inr (), T\<lparr>lt_rows := filter (\<lambda>row. \<not> (fst (fst row) = ls_tenant ses \<and> le_id (snd row) = le_id l)) (lt_rows T)\<rparr>))"

section \<open>Runs\<close>

datatype lease_event_kind =
    Taken lease_key string string string string
  | Written lease_key string
  | Ended lease_key

fun event_key :: "lease_event_kind \<Rightarrow> lease_key" where
  "event_key (Taken k tok user operation version) = k"
| "event_key (Written k tok) = k"
| "event_key (Ended k) = k"

definition newest_of :: "lease_key \<Rightarrow> lease_event_kind list \<Rightarrow> lease_event_kind option" where
  "newest_of k = find_first (\<lambda>e. event_key e = k)"

definition taken_tokens :: "lease_event_kind list \<Rightarrow> string set" where
  "taken_tokens es = set (concat (map (\<lambda>e. case e of Taken k t u op v \<Rightarrow> [t] | _ \<Rightarrow> []) es))"

definition written_tokens :: "lease_event_kind list \<Rightarrow> string list" where
  "written_tokens es = concat (map (\<lambda>e. case e of Written k t \<Rightarrow> [t] | _ \<Rightarrow> []) es)"

definition lease_key_of :: "lease_session \<Rightarrow> protected_operation \<Rightarrow> string \<Rightarrow> lease_key" where
  "lease_key_of ses op target = (ls_tenant ses, po_entity op, target)"

text \<open>
  The transactions of any number of users, whatever the clock shows, newest event first: a lease taken
  with its token, a protected write under it with the token presented, a lease given back.  Identifiers
  and tokens are fresh when they are made; any token may be presented.
\<close>

inductive lease_step ::
  "(string \<Rightarrow> string) \<Rightarrow> (string \<Rightarrow> time_value) \<Rightarrow> lease_event_kind list \<times> lease_table \<Rightarrow>
   lease_event_kind list \<times> lease_table \<Rightarrow> bool" for h parse_date where
  ls_acquire: "rid \<notin> set (map (le_id \<circ> snd) (lt_rows T)) \<Longrightarrow> token \<notin> taken_tokens es \<Longrightarrow>
    acquire_lease h parse_date now rid token ses op columns target version T = (res, T') \<Longrightarrow>
    lease_step h parse_date (es, T)
      ((case res of Inl _ \<Rightarrow> []
        | Inr g \<Rightarrow> [Taken (lease_key_of ses op target) token (ls_user ses) (po_id op) (gl_version g)]) @ es, T')"
| ls_renew: "renew_lease h parse_date now ses token allowed T = (res, T') \<Longrightarrow> lease_step h parse_date (es, T) (es, T')"
| ls_release: "release_lease h ses token T = (res, T') \<Longrightarrow>
    lease_step h parse_date (es, T) (rev (map (Ended \<circ> fst) (filter (held_by (h token) ses) (lt_rows T))) @ es, T')"
| ls_consume: "consume_lease h parse_date now ses op target expected token T = (res, T') \<Longrightarrow>
    lease_step h parse_date (es, T)
      ((case res of Inl _ \<Rightarrow> [] | Inr _ \<Rightarrow> [Written (lease_key_of ses op target) token]) @ es, T')"

section \<open>Invariant\<close>

definition lease_ids_ok :: "lease_table \<Rightarrow> bool" where
  "lease_ids_ok T = (distinct (map fst (lt_rows T)) \<and> distinct (map (le_id \<circ> snd) (lt_rows T)))"

definition taken_as ::
  "(string \<Rightarrow> string) \<Rightarrow> (string \<Rightarrow> time_value) \<Rightarrow> lease_event_kind list \<Rightarrow> lease_key \<Rightarrow> lease \<Rightarrow> bool" where
  "taken_as h parse_date es k l =
     (\<exists>t v. newest_of k es = Some (Taken k t (le_owner l) (le_operation l) v) \<and> le_token_hash l = h t \<and>
        token_of parse_date (le_version l) = Inr v)"

definition leases_ok :: "(string \<Rightarrow> string) \<Rightarrow> (string \<Rightarrow> time_value) \<Rightarrow> lease_event_kind list \<times> lease_table \<Rightarrow> bool" where
  "leases_ok h parse_date s =
     (lease_ids_ok (snd s) \<and> (\<forall>k l. lease_at (snd s) k = Some l \<longrightarrow> taken_as h parse_date (fst s) k l))"

lemma leases_okD: "leases_ok h pd (es, T) \<Longrightarrow> lease_ids_ok T"
  "leases_ok h pd (es, T) \<Longrightarrow> lease_at T k = Some l \<Longrightarrow> taken_as h pd es k l"
  unfolding leases_ok_def fst_conv snd_conv by blast+

lemma leases_okI:
  "lease_ids_ok T \<Longrightarrow> (\<And>k l. lease_at T k = Some l \<Longrightarrow> taken_as h pd es k l) \<Longrightarrow> leases_ok h pd (es, T)"
  unfolding leases_ok_def fst_conv snd_conv by blast

lemma newest_of_Cons: "newest_of k (e # es) = (if event_key e = k then Some e else newest_of k es)"
  by (simp add: newest_of_def)

lemma newest_of_append_other:
  "(\<And>e. e \<in> set xs \<Longrightarrow> event_key e \<noteq> k) \<Longrightarrow> newest_of k (xs @ es) = newest_of k es"
  by (induction xs) (simp_all add: newest_of_Cons)

lemma newest_of_in: "newest_of k es = Some e \<Longrightarrow> e \<in> set es \<and> event_key e = k"
  by (induction es) (auto simp: newest_of_Cons newest_of_def split: if_splits)

lemma lease_row_in: "lease_ids_ok T \<Longrightarrow> (k, l) \<in> set (lt_rows T) \<longleftrightarrow> lease_at T k = Some l"
  unfolding lease_ids_ok_def lease_at_def by (metis map_of_eq_Some_iff)

lemma ids_massoc_set:
  "distinct (map fst xs) \<Longrightarrow> distinct (map (le_id \<circ> snd) xs) \<Longrightarrow>
   (case map_of xs k of None \<Rightarrow> le_id l \<notin> set (map (le_id \<circ> snd) xs) | Some l' \<Rightarrow> le_id l = le_id l') \<Longrightarrow>
   distinct (map (le_id \<circ> snd) (massoc_set k l xs)) \<and>
     set (map (le_id \<circ> snd) (massoc_set k l xs)) = insert (le_id l) (set (map (le_id \<circ> snd) xs))"
proof (induction k l xs rule: massoc_set.induct)
  case (2 k v k' v' m)
  show ?case
  proof (cases "k' = k")
    case True
    then show ?thesis using 2 by auto
  next
    case False
    have "le_id l \<noteq> le_id v'" if "map_of m k = Some l" for l
      using map_of_SomeD [OF that] 2(3) by force
    then have "le_id v \<noteq> le_id v'" using 2(4) False by (auto split: option.splits)
    moreover have "case map_of m k of None \<Rightarrow> le_id v \<notin> set (map (le_id \<circ> snd) m) | Some l' \<Rightarrow> le_id v = le_id l'"
      using 2(4) False by (auto split: option.splits)
    ultimately show ?thesis using 2(1) [OF False] 2(2,3) False by auto
  qed
qed simp

lemma write_lease_ok:
  assumes ok: "leases_ok h pd (es, T)"
    and l: "case lease_at T k of None \<Rightarrow> le_id l \<notin> set (map (le_id \<circ> snd) (lt_rows T)) | Some l' \<Rightarrow> le_id l = le_id l'"
    and w: "write_lease h pd token k l T = (res, T')" and hash: "le_token_hash l = h token"
  shows "leases_ok h pd ((case res of Inl _ \<Rightarrow> []
        | Inr g \<Rightarrow> [Taken k token (le_owner l) (le_operation l) (gl_version g)]) @ es, T')"
proof (cases res)
  case (Inl e)
  then have "T' = T" using w by (auto simp: write_lease_def split: if_splits sum.splits)
  then show ?thesis using Inl ok by simp
next
  case (Inr g)
  then obtain v where v: "token_of pd (le_version l) = Inr v" "gl_version g = v" "lt_rows T' = massoc_set k l (lt_rows T)"
    using w by (auto simp: write_lease_def granted_def split: if_splits sum.splits)
  have at_k: "lease_at T' k' = (if k' = k then Some l else lease_at T k')" for k'
    by (simp add: lease_at_def v(3) map_of_massoc_set)
  have "lease_ids_ok T'"
    using leases_okD(1) [OF ok] ids_massoc_set [where xs = "lt_rows T" and k = k and l = l] l unfolding lease_at_def
    by (simp add: lease_ids_ok_def v(3) distinct_massoc_set)
  moreover have "taken_as h pd (Taken k token (le_owner l) (le_operation l) v # es) k' l'"
    if "lease_at T' k' = Some l'" for k' l'
  proof (cases "k' = k")
    case True
    then show ?thesis using that hash v(1) by (simp add: at_k taken_as_def newest_of_Cons)
  next
    case False
    then have "taken_as h pd es k' l'" using that leases_okD(2) [OF ok] at_k by metis
    then show ?thesis using False unfolding taken_as_def by (simp add: newest_of_Cons)
  qed
  ultimately show ?thesis using leases_okI Inr v(2) by simp
qed

lemma acquire_lease_ok:
  assumes ok: "leases_ok h pd (es, T)" and rid: "rid \<notin> set (map (le_id \<circ> snd) (lt_rows T))"
    and a: "acquire_lease h pd now rid token ses op columns target version T = (res, T')"
  shows "leases_ok h pd ((case res of Inl _ \<Rightarrow> []
        | Inr g \<Rightarrow> [Taken (lease_key_of ses op target) token (ls_user ses) (po_id op) (gl_version g)]) @ es, T')"
proof (cases "acquirable pd op columns version")
  case (Inl e)
  then show ?thesis using a ok by (auto simp: acquire_lease_def)
next
  case (Inr st)
  obtain seconds t where st: "st = (seconds, t)" by (cases st)
  let ?k = "lease_key_of ses op target"
  let ?l = "\<lambda>i. new_lease h now i token ses op t seconds"
  have l: "le_owner (?l i) = ls_user ses" "le_operation (?l i) = po_id op" "le_token_hash (?l i) = h token" "le_id (?l i) = i" for i
    by (simp_all add: new_lease_def)
  have w: "leases_ok h pd ((case res of Inl _ \<Rightarrow> [] | Inr g \<Rightarrow> [Taken ?k token (ls_user ses) (po_id op) (gl_version g)]) @ es, T')"
    if "write_lease h pd token ?k (?l i) T = (res, T')"
      "case lease_at T ?k of None \<Rightarrow> i = rid | Some l' \<Rightarrow> i = le_id l'" for i
    using write_lease_ok [OF ok _ that(1)] that(2) rid unfolding l by (simp split: option.splits)
  show ?thesis
  proof (cases "lease_at T ?k")
    case None
    then show ?thesis using a Inr st w [of rid] by (simp add: acquire_lease_def lease_key_of_def)
  next
    case (Some l)
    then consider "write_lease h pd token ?k (?l (le_id l)) T = (res, T')" | e where "res = Inl e" "T' = T"
      using a Inr st by (auto simp: acquire_lease_def lease_key_of_def Let_def split: if_splits)
    then show ?thesis using w [of "le_id l"] Some ok by cases simp_all
  qed
qed

text \<open>Rows taken out, each with its event, or changed in what the invariant does not speak of.\<close>

lemma filter_leases_ok:
  assumes ok: "leases_ok h pd (es, T)" and T': "lt_rows T' = filter P (lt_rows T)"
    and es: "\<And>k l. lease_at T k = Some l \<Longrightarrow> P (k, l) \<Longrightarrow> newest_of k es' = newest_of k es"
  shows "leases_ok h pd (es', T')"
proof (rule leases_okI)
  note ids = leases_okD(1) [OF ok]
  from ids show d: "lease_ids_ok T'" by (simp add: lease_ids_ok_def T' distinct_map_filter)
  fix k l assume "lease_at T' k = Some l"
  then have "(k, l) \<in> set (lt_rows T')" using lease_row_in [OF d] by blast
  then have kl: "lease_at T k = Some l" "P (k, l)" using lease_row_in [OF ids, of k l] by (simp_all add: T')
  show "taken_as h pd es' k l"
    using leases_okD(2) [OF ok kl(1)] unfolding taken_as_def es [OF kl] .
qed

lemma renew_lease_ok:
  assumes ok: "leases_ok h pd (es, T)" and r: "renew_lease h pd now ses token allowed T = (res, T')"
  shows "leases_ok h pd (es, T')"
proof (cases "T' = T")
  case False
  let ?f = "\<lambda>row. if renewable (h token) now ses allowed row then (fst row, renewed_lease now (snd row)) else row"
  have T': "lt_rows T' = map ?f (lt_rows T)"
    using r False by (auto simp: renew_lease_def Let_def split: if_splits option.splits sum.splits)
  note ids = leases_okD(1) [OF ok]
  have m: "map fst (lt_rows T') = map fst (lt_rows T)" "map (le_id \<circ> snd) (lt_rows T') = map (le_id \<circ> snd) (lt_rows T)"
    by (auto simp: T' renewed_lease_def)
  show ?thesis
  proof (rule leases_okI)
    show d: "lease_ids_ok T'" using ids unfolding lease_ids_ok_def m .
    fix k l assume "lease_at T' k = Some l"
    then have "(k, l) \<in> set (lt_rows T')" using lease_row_in [OF d] by blast
    then obtain row where row: "row \<in> set (lt_rows T)" "(k, l) = ?f row" unfolding T' set_map by blast
    obtain k0 l0 where k0: "row = (k0, l0)" by (cases row)
    then have l0: "k = k0" "l = l0 \<or> l = renewed_lease now l0" using row(2) by (simp_all split: if_splits)
    have "lease_at T k = Some l0" using row(1) lease_row_in [OF ids, of k l0] unfolding k0 l0(1) by blast
    from leases_okD(2) [OF ok this] show "taken_as h pd es k l" using l0(2) by (auto simp: taken_as_def renewed_lease_def)
  qed
qed (use ok in simp)

lemma release_lease_ok:
  assumes ok: "leases_ok h pd (es, T)" and r: "release_lease h ses token T = (res, T')"
  shows "leases_ok h pd (rev (map (Ended \<circ> fst) (filter (held_by (h token) ses) (lt_rows T))) @ es, T')"
proof -
  have T': "lt_rows T' = filter (\<lambda>row. \<not> held_by (h token) ses row) (lt_rows T)"
  proof (cases "find_first (held_by (h token) ses) (lt_rows T)")
    case None
    then have "T' = T" using r by (simp add: release_lease_def)
    then show ?thesis using None by (simp add: find_first_None filter_id_conv)
  qed (use r in \<open>auto simp: release_lease_def\<close>)
  note ids = leases_okD(1) [OF ok]
  show ?thesis
  proof (rule filter_leases_ok [OF ok T'])
    fix k l assume kl: "lease_at T k = Some l" "\<not> held_by (h token) ses (k, l)"
    have other: "fst row \<noteq> k" if row: "row \<in> set (lt_rows T)" "held_by (h token) ses row" for row
    proof
      assume k: "fst row = k"
      then have "lease_at T k = Some (snd row)" using row(1) lease_row_in [OF ids, of k "snd row"] by (metis prod.collapse)
      then have "row = (k, l)" using kl(1) k by (metis option.inject prod.collapse)
      then show False using row(2) kl(2) by blast
    qed
    have "event_key e \<noteq> k" if e: "e \<in> set (rev (map (Ended \<circ> fst) (filter (held_by (h token) ses) (lt_rows T))))" for e
    proof -
      obtain row where "row \<in> set (lt_rows T)" "held_by (h token) ses row" "e = Ended (fst row)"
        using e unfolding set_rev set_map set_filter comp_def by blast
      then show ?thesis using other [of row] by simp
    qed
    then show "newest_of k (rev (map (Ended \<circ> fst) (filter (held_by (h token) ses) (lt_rows T))) @ es) = newest_of k es"
      by (rule newest_of_append_other)
  qed
qed

lemma require_lease_at:
  assumes "require_lease h pd now ses op target expected token T = Inr l"
  shows "lease_at T (lease_key_of ses op target) = Some l \<and> now < le_expires l \<and> le_owner l = ls_user ses \<and>
     le_operation l = po_id op \<and> le_token_hash l = h token \<and>
     (\<exists>v. token_of pd (le_version l) = Inr v \<and> token_of pd expected = Inr v)"
  using assms by (auto simp: require_lease_def rbind_Inr_iff lease_key_of_def split: option.splits if_splits)

lemma consume_rows:
  assumes ids: "lease_ids_ok T" and c: "consume_lease h pd now ses op target expected token T = (Inr (), T')"
  shows "lt_rows T' = filter (\<lambda>row. fst row \<noteq> lease_key_of ses op target) (lt_rows T)"
proof -
  let ?k = "lease_key_of ses op target"
  obtain l where l: "require_lease h pd now ses op target expected token T = Inr l"
    "T' = T\<lparr>lt_rows := filter (\<lambda>row. \<not> (fst (fst row) = ls_tenant ses \<and> le_id (snd row) = le_id l)) (lt_rows T)\<rparr>"
    using c by (auto simp: consume_lease_def split: sum.splits)
  have at_l: "(?k, l) \<in> set (lt_rows T)" using require_lease_at [OF l(1)] lease_row_in [OF ids, of ?k l] by blast
  have inj: "inj_on (le_id \<circ> snd) (set (lt_rows T))" "inj_on fst (set (lt_rows T))"
    using ids by (simp_all add: lease_ids_ok_def distinct_map)
  have "(fst (fst row) = ls_tenant ses \<and> le_id (snd row) = le_id l) = (fst row = ?k)" if row: "row \<in> set (lt_rows T)" for row
  proof
    assume "fst (fst row) = ls_tenant ses \<and> le_id (snd row) = le_id l"
    then have "row = (?k, l)" using inj_onD [OF inj(1) _ row at_l] by simp
    then show "fst row = ?k" by simp
  next
    assume "fst row = ?k"
    then have "row = (?k, l)" using inj_onD [OF inj(2) _ row at_l] by simp
    then show "fst (fst row) = ls_tenant ses \<and> le_id (snd row) = le_id l" by (simp add: lease_key_of_def)
  qed
  then show ?thesis unfolding l(2) by (simp cong: filter_cong)
qed

lemma map_of_filter_other: "map_of (filter (\<lambda>row. fst row \<noteq> k) xs) k' = (if k' = k then None else map_of xs k')"
  by (induction xs) auto

lemma consume_lease_ok:
  assumes ok: "leases_ok h pd (es, T)" and c: "consume_lease h pd now ses op target expected token T = (res, T')"
  shows "leases_ok h pd ((case res of Inl _ \<Rightarrow> [] | Inr _ \<Rightarrow> [Written (lease_key_of ses op target) token]) @ es, T')"
proof (cases res)
  case (Inl e)
  then have "T' = T" using c by (auto simp: consume_lease_def split: sum.splits)
  then show ?thesis using Inl ok by simp
next
  case (Inr u)
  then have "lt_rows T' = filter (\<lambda>row. fst row \<noteq> lease_key_of ses op target) (lt_rows T)"
    using consume_rows [OF leases_okD(1) [OF ok]] c by simp
  then have "leases_ok h pd (Written (lease_key_of ses op target) token # es, T')"
    by (rule filter_leases_ok [OF ok]) (simp add: newest_of_Cons)
  then show ?thesis using Inr by simp
qed

lemma lease_step_ok: "lease_step h pd s s' \<Longrightarrow> leases_ok h pd s \<Longrightarrow> leases_ok h pd s'"
proof (induction rule: lease_step.induct)
  case (ls_acquire rid T token es now ses op columns target version res T')
  from ls_acquire(4,1,3) show ?case by (rule acquire_lease_ok)
next
  case (ls_renew now ses token allowed T res T' es)
  from ls_renew(2,1) show ?case by (rule renew_lease_ok)
next
  case (ls_release ses token T res T' es)
  from ls_release(2,1) show ?case by (rule release_lease_ok)
next
  case (ls_consume now ses op target expected token T res T' es)
  from ls_consume(2,1) show ?case by (rule consume_lease_ok)
qed

interpretation leases: kept_invariant "([], empty_leases)" "lease_step h pd" "leases_ok h pd" for h pd
proof
  show "leases_ok h pd ([], empty_leases)"
    by (rule leases_okI) (simp_all add: lease_ids_ok_def empty_leases_def lease_at_def)
qed (rule lease_step_ok)

section \<open>Who holds a lease\<close>

lemma lease_at_row: "lease_ids_ok T \<Longrightarrow> lt_rows T' = filter P (lt_rows T) \<Longrightarrow> lease_at T k = Some l \<Longrightarrow> P (k, l) \<Longrightarrow> lease_at T' k = Some l"
  by (rule iffD1 [OF lease_row_in]) (auto simp: lease_ids_ok_def distinct_map_filter lease_at_def dest: map_of_SomeD)

lemma write_lease_other: "k' \<noteq> k \<Longrightarrow> lease_at (snd (write_lease h pd token k l T)) k' = lease_at T k'"
  by (simp add: write_lease_def lease_at_def map_of_massoc_set split: sum.splits)

lemma acquire_keeps_lease:
  assumes "lease_at T k = Some l" "now < le_expires l" "ls_user ses \<noteq> le_owner l"
  shows "lease_at (snd (acquire_lease h pd now rid token ses op columns target version T)) k = Some l"
  using assms write_lease_other [of k "(ls_tenant ses, po_entity op, target)" h pd token]
  by (cases "k = (ls_tenant ses, po_entity op, target)")
     (auto simp: acquire_lease_def Let_def split: sum.splits option.splits)

lemma renew_keeps_lease:
  assumes ok: "leases_ok h pd (es, T)" and l: "lease_at T k = Some l" "ls_user ses \<noteq> le_owner l"
  shows "lease_at (snd (renew_lease h pd now ses token allowed T)) k = Some l"
proof (cases "snd (renew_lease h pd now ses token allowed T) = T")
  case False
  obtain res T' where r: "renew_lease h pd now ses token allowed T = (res, T')" by fastforce
  then have rows: "lt_rows T' = map (\<lambda>row. if renewable (h token) now ses allowed row
      then (fst row, renewed_lease now (snd row)) else row) (lt_rows T)"
    using False by (auto simp: renew_lease_def Let_def split: if_splits option.splits sum.splits)
  have "(k, l) \<in> set (lt_rows T)" "\<not> renewable (h token) now ses allowed (k, l)"
    using l map_of_SomeD [of "lt_rows T" k l] by (simp_all add: lease_at_def renewable_def held_by_def)
  then have "(k, l) \<in> set (lt_rows T')" unfolding rows by force
  then show ?thesis using lease_row_in [of T' k l] leases_okD(1) [OF renew_lease_ok [OF ok r]] r by simp
qed (use l in simp)

lemma release_keeps_lease:
  assumes "lease_ids_ok T" "lease_at T k = Some l" "ls_user ses \<noteq> le_owner l"
  shows "lease_at (snd (release_lease h ses token T)) k = Some l"
proof (cases "find_first (held_by (h token) ses) (lt_rows T)")
  case (Some row)
  then show ?thesis
    using lease_at_row [OF assms(1) _ assms(2), of "snd (release_lease h ses token T)" "\<lambda>row. \<not> held_by (h token) ses row"] assms(3)
    by (auto simp: release_lease_def held_by_def split: prod.splits)
qed (simp add: release_lease_def assms(2))

lemma consume_keeps_lease:
  assumes ids: "lease_ids_ok T" and l: "lease_at T k = Some l" "ls_user ses \<noteq> le_owner l"
  shows "lease_at (snd (consume_lease h pd now ses op target expected token T)) k = Some l"
proof (cases "require_lease h pd now ses op target expected token T")
  case (Inr l')
  then obtain T' where c: "consume_lease h pd now ses op target expected token T = (Inr (), T')" by (simp add: consume_lease_def)
  have "k \<noteq> lease_key_of ses op target" using require_lease_at [OF Inr] l by auto
  then show ?thesis using lease_at_row [OF ids consume_rows [OF ids c] l(1)] c by simp
qed (simp add: consume_lease_def l)

text \<open>
  C23. While a lease has not expired nothing another user does changes or ends it: not an acquisition,
  a renewal, a release or a protected write, whatever token is presented; an acquisition or a
  protected write of the same record is refused with the holder's name and the expiry.
\<close>

theorem a_held_lease_is_its_owners:
  assumes "reachable ([], empty_leases) (lease_step h pd) (es, T)" and "lease_at T k = Some l"
    and "now < le_expires l" and "ls_user ses \<noteq> le_owner l"
  shows "lease_at (snd (acquire_lease h pd now rid token ses op columns target version T)) k = Some l \<and>
    lease_at (snd (renew_lease h pd now ses token allowed T)) k = Some l \<and>
    lease_at (snd (release_lease h ses token T)) k = Some l \<and>
    lease_at (snd (consume_lease h pd now ses op target expected token T)) k = Some l \<and>
    (k = lease_key_of ses op target \<longrightarrow> acquirable pd op columns version = Inr st \<longrightarrow>
       fst (acquire_lease h pd now rid token ses op columns target version T) = Inl (locked_error l)) \<and>
    (k = lease_key_of ses op target \<longrightarrow> require_lease_contract op = Inr c \<longrightarrow>
       fst (consume_lease h pd now ses op target expected token T) = Inl (locked_error l))"
proof -
  note ok = leases.holds [OF assms(1)]
  have "k = lease_key_of ses op target \<Longrightarrow> acquirable pd op columns version = Inr st \<Longrightarrow>
      fst (acquire_lease h pd now rid token ses op columns target version T) = Inl (locked_error l)"
    using assms(2-4) by (auto simp: acquire_lease_def lease_key_of_def Let_def split: prod.splits)
  moreover have "k = lease_key_of ses op target \<Longrightarrow> require_lease_contract op = Inr c \<Longrightarrow>
      fst (consume_lease h pd now ses op target expected token T) = Inl (locked_error l)"
    using assms(2-4) by (auto simp: consume_lease_def require_lease_def lease_key_of_def)
  ultimately show ?thesis
    using acquire_keeps_lease [OF assms(2-4)] renew_keeps_lease [OF ok assms(2,4)] release_keeps_lease [OF leases_okD(1) [OF ok] assms(2,4)]
      consume_keeps_lease [OF leases_okD(1) [OF ok] assms(2,4)] by blast
qed

section \<open>What a protected write rests on\<close>

definition writes_ok :: "lease_event_kind list \<Rightarrow> bool" where
  "writes_ok es =
     ((\<forall>k t u op v. newest_of k es = Some (Taken k t u op v) \<longrightarrow> t \<notin> set (written_tokens es)) \<and>
      (\<forall>k k' t u op v u' op' v'. newest_of k es = Some (Taken k t u op v) \<longrightarrow>
         newest_of k' es = Some (Taken k' t u' op' v') \<longrightarrow> k = k') \<and>
      set (written_tokens es) \<subseteq> taken_tokens es)"

lemma written_tokens_simps [simp]:
  "written_tokens [] = []"
  "written_tokens (Taken k t u op v # es) = written_tokens es"
  "written_tokens (Written k t # es) = t # written_tokens es"
  "written_tokens (Ended k # es) = written_tokens es"
  by (simp_all add: written_tokens_def)

lemma taken_tokens_simps [simp]:
  "taken_tokens [] = {}"
  "taken_tokens (Taken k t u op v # es) = insert t (taken_tokens es)"
  "taken_tokens (Written k t # es) = taken_tokens es"
  "taken_tokens (Ended k # es) = taken_tokens es"
  by (simp_all add: taken_tokens_def)

lemma writes_okD:
  "writes_ok es \<Longrightarrow> newest_of k es = Some (Taken k t u op v) \<Longrightarrow> t \<notin> set (written_tokens es)"
  "writes_ok es \<Longrightarrow> newest_of k es = Some (Taken k t u op v) \<Longrightarrow> newest_of k' es = Some (Taken k' t u' op' v') \<Longrightarrow> k = k'"
  "writes_ok es \<Longrightarrow> set (written_tokens es) \<subseteq> taken_tokens es"
  unfolding writes_ok_def by blast+

lemma writes_okI:
  "(\<And>k t u op v. newest_of k es = Some (Taken k t u op v) \<Longrightarrow> t \<notin> set (written_tokens es)) \<Longrightarrow>
   (\<And>k k' t u op v u' op' v'. newest_of k es = Some (Taken k t u op v) \<Longrightarrow>
      newest_of k' es = Some (Taken k' t u' op' v') \<Longrightarrow> k = k') \<Longrightarrow>
   set (written_tokens es) \<subseteq> taken_tokens es \<Longrightarrow> writes_ok es"
  unfolding writes_ok_def by blast

lemma taken_token: "Taken k t u op v \<in> set es \<Longrightarrow> t \<in> taken_tokens es"
proof (induction es)
  case (Cons e es)
  then show ?case by (cases e) auto
qed simp

lemma newest_token: "newest_of k es = Some (Taken k t u op v) \<Longrightarrow> t \<in> taken_tokens es"
  using newest_of_in taken_token by blast

lemma newest_before:
  assumes "newest_of k' (e # es) = Some x" and "x \<noteq> e"
  shows "k' \<noteq> event_key e \<and> newest_of k' es = Some x"
  using assms by (cases "event_key e = k'") (simp_all add: newest_of_Cons)

lemma writes_ok_taken:
  assumes ok: "writes_ok es" and t: "t \<notin> taken_tokens es"
  shows "writes_ok (Taken k t u op v # es)"
proof (rule writes_okI)
  fix k' t' u' op' v' assume n: "newest_of k' (Taken k t u op v # es) = Some (Taken k' t' u' op' v')"
  show "t' \<notin> set (written_tokens (Taken k t u op v # es))"
    using n writes_okD(1) [OF ok] writes_okD(3) [OF ok] t
    unfolding newest_of_Cons by (cases "k = k'") auto
next
  fix k1 k2 t' u1 op1 v1 u2 op2 v2
  assume n: "newest_of k1 (Taken k t u op v # es) = Some (Taken k1 t' u1 op1 v1)"
    "newest_of k2 (Taken k t u op v # es) = Some (Taken k2 t' u2 op2 v2)"
  have fresh: "newest_of k' es \<noteq> Some (Taken k' t u' op' v')" for k' u' op' v' using newest_token [of k' es t] t by blast
  from n show "k1 = k2"
    unfolding newest_of_Cons using fresh [of k1] fresh [of k2] writes_okD(2) [OF ok]
    by (cases "k = k1"; cases "k = k2") simp_all
next
  show "set (written_tokens (Taken k t u op v # es)) \<subseteq> taken_tokens (Taken k t u op v # es)"
    using writes_okD(3) [OF ok] by auto
qed

lemma writes_ok_ended:
  assumes ok: "writes_ok es"
  shows "writes_ok (Ended k # es)"
proof (rule writes_okI)
  fix k' t' u' op' v' assume "newest_of k' (Ended k # es) = Some (Taken k' t' u' op' v')"
  from newest_before [OF this] have "newest_of k' es = Some (Taken k' t' u' op' v')" by simp
  then have "t' \<notin> set (written_tokens es)" by (rule writes_okD(1) [OF ok])
  then show "t' \<notin> set (written_tokens (Ended k # es))" by simp
next
  fix k1 k2 t' u1 op1 v1 u2 op2 v2
  assume "newest_of k1 (Ended k # es) = Some (Taken k1 t' u1 op1 v1)" "newest_of k2 (Ended k # es) = Some (Taken k2 t' u2 op2 v2)"
  from this [THEN newest_before] show "k1 = k2" by (intro writes_okD(2) [OF ok]) (simp_all only: lease_event_kind.distinct simp_thms)
qed (use writes_okD(3) [OF ok] in simp)

lemma writes_ok_written:
  assumes ok: "writes_ok es" and n: "newest_of k es = Some (Taken k t u op v)"
  shows "writes_ok (Written k t # es)"
proof (rule writes_okI)
  fix k' t' u' op' v' assume "newest_of k' (Written k t # es) = Some (Taken k' t' u' op' v')"
  from newest_before [OF this] have k': "k' \<noteq> k" "newest_of k' es = Some (Taken k' t' u' op' v')" by simp_all
  have "t' \<noteq> t" using writes_okD(2) [OF ok n, of k'] k' by blast
  then show "t' \<notin> set (written_tokens (Written k t # es))" using writes_okD(1) [OF ok k'(2)] by simp
next
  fix k1 k2 t' u1 op1 v1 u2 op2 v2
  assume "newest_of k1 (Written k t # es) = Some (Taken k1 t' u1 op1 v1)" "newest_of k2 (Written k t # es) = Some (Taken k2 t' u2 op2 v2)"
  from this [THEN newest_before] show "k1 = k2" by (intro writes_okD(2) [OF ok]) (simp_all only: lease_event_kind.distinct simp_thms)
qed (use writes_okD(3) [OF ok] newest_token [OF n] in simp)

lemma consumed_lease:
  assumes ok: "leases_ok h pd (es, T)" and inj: "inj_on h (insert token (taken_tokens es))"
    and c: "consume_lease h pd now ses op target expected token T = (Inr (), T')"
  obtains l v where "lease_at T (lease_key_of ses op target) = Some l" "now < le_expires l"
    "newest_of (lease_key_of ses op target) es = Some (Taken (lease_key_of ses op target) token (ls_user ses) (po_id op) v)"
    "token_of pd expected = Inr v"
proof -
  let ?k = "lease_key_of ses op target"
  obtain l where "require_lease h pd now ses op target expected token T = Inr l"
    using c by (auto simp: consume_lease_def split: sum.splits)
  note r = require_lease_at [OF this]
  then have l: "lease_at T ?k = Some l" "now < le_expires l" "le_token_hash l = h token"
    "le_owner l = ls_user ses" "le_operation l = po_id op" by blast+
  obtain w where w: "token_of pd (le_version l) = Inr w" "token_of pd expected = Inr w" using r by blast
  obtain t v where t: "newest_of ?k es = Some (Taken ?k t (le_owner l) (le_operation l) v)" "le_token_hash l = h t"
    "token_of pd (le_version l) = Inr v"
    using leases_okD(2) [OF ok l(1)] unfolding taken_as_def by blast
  have "v = w" using t(3) w(1) by simp
  moreover have "t = token" using inj_onD [OF inj, of t token] t(2) l(3) newest_token [OF t(1)] by simp
  ultimately show thesis using that [OF l(1,2), of v] t(1) w(2) unfolding l(4,5) by blast
qed

text \<open>A run's events only grow: what is injective on the tokens of its end was so all along.\<close>

lemma writes_stay_ok:
  "reachable ([], empty_leases) (lease_step h pd) s \<Longrightarrow> inj_on h (taken_tokens (fst s) \<union> set (written_tokens (fst s))) \<Longrightarrow> writes_ok (fst s)"
proof (induction rule: reachable.induct)
  case reachable_start
  show ?case by (rule writes_okI) (simp_all add: newest_of_def)
next
  case (reachable_step s s')
  note ok = leases.holds [OF reachable_step(1)]
  from reachable_step(2) show ?case
  proof cases
    case (ls_acquire rid T token es now ses op columns target version res T')
    have "writes_ok es" using reachable_step(3,4) unfolding ls_acquire by (auto split: sum.splits intro: inj_on_subset)
    then show ?thesis unfolding ls_acquire using writes_ok_taken [OF _ ls_acquire(4)] by (simp split: sum.splits)
  next
    case (ls_renew now ses token allowed T res T' es)
    then show ?thesis using reachable_step(3,4) by simp
  next
    case (ls_release ses token T res T' es)
    have tok: "taken_tokens (map (Ended \<circ> fst) rows @ es) = taken_tokens es \<and> written_tokens (map (Ended \<circ> fst) rows @ es) = written_tokens es"
      for rows :: "(lease_key \<times> lease) list" by (induction rows) simp_all
    have ended: "writes_ok es \<Longrightarrow> writes_ok (map (Ended \<circ> fst) rows @ es)" for rows :: "(lease_key \<times> lease) list"
      by (induction rows) (simp_all add: writes_ok_ended)
    show ?thesis using reachable_step(3,4) ended tok unfolding ls_release rev_map by simp
  next
    case (ls_consume now ses op target expected token T res T' es)
    show ?thesis
    proof (cases res)
      case (Inl e)
      then show ?thesis using reachable_step(3,4) unfolding ls_consume by simp
    next
      case (Inr u)
      have inj: "inj_on h (insert token (taken_tokens es \<union> set (written_tokens es)))"
        using reachable_step(4) unfolding ls_consume Inr by simp
      have w: "writes_ok es" using reachable_step(3) inj unfolding ls_consume by (auto intro: inj_on_subset)
      have c: "consume_lease h pd now ses op target expected token T = (Inr (), T')" using ls_consume(3) Inr by simp
      have "leases_ok h pd (es, T)" using ok unfolding ls_consume .
      moreover have "inj_on h (insert token (taken_tokens es))" using inj by (rule inj_on_subset) blast
      ultimately obtain v where
        "newest_of (lease_key_of ses op target) es = Some (Taken (lease_key_of ses op target) token (ls_user ses) (po_id op) v)"
        using c by (rule consumed_lease)
      from writes_ok_written [OF w this] show ?thesis unfolding ls_consume Inr by simp
    qed
  qed
qed

text \<open>
  C24. A protected write goes through only under the lease its caller took last on that record: the
  newest event of the record is the taking, by this user, for this operation, with the presented
  token and at the version the caller expects; the lease has not expired, no write has used its
  token before, and the write ends it, so that each taking authorises at most one protected write.
\<close>

theorem a_protected_write_uses_its_lease:
  assumes "reachable ([], empty_leases) (lease_step h pd) (es, T)"
    and "consume_lease h pd now ses op target expected token T = (Inr (), T')"
    and "inj_on h (insert token (taken_tokens es \<union> set (written_tokens es)))"
  shows "\<exists>l v. lease_at T (lease_key_of ses op target) = Some l \<and> now < le_expires l \<and>
     newest_of (lease_key_of ses op target) es =
       Some (Taken (lease_key_of ses op target) token (ls_user ses) (po_id op) v) \<and>
     token_of pd expected = Inr v \<and> token \<notin> set (written_tokens es) \<and>
     lease_at T' (lease_key_of ses op target) = None"
proof -
  note ok = leases.holds [OF assms(1)]
  have inj: "inj_on h (insert token (taken_tokens es))" "inj_on h (taken_tokens es \<union> set (written_tokens es))"
    using assms(3) by (rule inj_on_subset; blast)+
  obtain l v where l: "lease_at T (lease_key_of ses op target) = Some l" "now < le_expires l"
    "newest_of (lease_key_of ses op target) es = Some (Taken (lease_key_of ses op target) token (ls_user ses) (po_id op) v)"
    "token_of pd expected = Inr v"
    using ok inj(1) assms(2) by (rule consumed_lease)
  have "writes_ok es" using writes_stay_ok [OF assms(1)] inj(2) by simp
  then have "token \<notin> set (written_tokens es)" using writes_okD(1) l(3) by blast
  moreover have "lease_at T' (lease_key_of ses op target) = None"
    by (simp add: lease_at_def consume_rows [OF leases_okD(1) [OF ok] assms(2)] map_of_filter_other)
  ultimately show ?thesis using l by blast
qed

section \<open>A run\<close>

definition example_ses :: lease_session where
  "example_ses = \<lparr>ls_tenant = ''t'', ls_user = ''u'', ls_name = Some ''Uma ''\<rparr>"

definition example_op :: protected_operation where
  "example_op = \<lparr>po_id = ''o'', po_entity = ''e'', po_version = Some ''updatedAt'', po_lease = Some ''PT5M''\<rparr>"

definition example_columns :: crud_columns where
  "example_columns = [(''id'', ''uuid''), (''updatedAt'', ''timestamptz'')]"

definition example_lease_parse :: "string \<Rightarrow> time_value" where
  "example_lease_parse s = Some 1783159200000"

definition example_version :: string where
  "example_version = ''2026-07-04 10:00:00.000001+00''"

definition example_held :: lease_table where
  "example_held = snd (acquire_lease (\<lambda>t. t) example_lease_parse 1000 7 ''x'' example_ses example_op example_columns ''r'' (Some example_version) empty_leases)"

definition example_taken :: lease_event_kind where
  "example_taken = Taken (''t'', ''e'', ''r'') ''x'' ''u'' ''o'' ''2026-07-04T10:00:00.000001Z''"

definition example_lease :: lease where
  "example_lease =
     \<lparr>le_id = 7, le_operation = ''o'', le_owner = ''u'', le_owner_name = Some ''Uma'', le_token_hash = ''x'',
      le_version = ''2026-07-04T10:00:00.000001Z'', le_timeout = 300, le_acquired = 1000, le_activity = 1000, le_expires = 301000\<rparr>"

lemma example_duration: "fixed_duration_seconds ''PT5M'' = Inr 300"
  by (simp add: fixed_duration_seconds_def duration_seconds_def opt_part_def is_digit_def digits_value_def code_def)

lemma example_token: "token_of example_lease_parse example_version = Inr ''2026-07-04T10:00:00.000001Z''"
  "token_of example_lease_parse ''2026-07-04T10:00:00.000001Z'' = Inr ''2026-07-04T10:00:00.000001Z''" by code_simp+

lemma example_acquirable:
  "acquirable example_lease_parse example_op example_columns (Some example_version) = Inr (300, ''2026-07-04T10:00:00.000001Z'')"
  by (simp add: acquirable_def require_lease_contract_def example_op_def example_duration current_version_def version_column_def example_columns_def example_token)

lemma example_trimmed: "trimmed_name (Some ''Uma '') = Some ''Uma''" by code_simp

lemma example_acquired:
  "acquire_lease (\<lambda>t. t) example_lease_parse 1000 7 ''x'' example_ses example_op example_columns ''r'' (Some example_version) empty_leases
     = (Inr (granted ''x'' (''t'', ''e'', ''r'') example_lease ''2026-07-04T10:00:00.000001Z''), example_held)"
  "lease_at example_held (''t'', ''e'', ''r'') = Some example_lease"
proof -
  have l: "new_lease (\<lambda>t. t) 1000 7 ''x'' example_ses example_op ''2026-07-04T10:00:00.000001Z'' 300 = example_lease"
    by (simp only: new_lease_def example_ses_def example_op_def example_lease_def example_trimmed
      lease_session.simps protected_operation.simps) simp
  have k: "(ls_tenant example_ses, po_entity example_op, ''r'') = (''t'', ''e'', ''r'')" by (simp add: example_ses_def example_op_def)
  have v: "le_version example_lease = ''2026-07-04T10:00:00.000001Z''" by (simp add: example_lease_def)
  have "acquire_lease (\<lambda>t. t) example_lease_parse 1000 7 ''x'' example_ses example_op example_columns ''r'' (Some example_version) empty_leases
    = write_lease (\<lambda>t. t) example_lease_parse ''x'' (''t'', ''e'', ''r'') example_lease empty_leases"
    by (simp add: acquire_lease_def example_acquirable l k [simplified] lease_at_def empty_leases_def Let_def)
  then have *: "acquire_lease (\<lambda>t. t) example_lease_parse 1000 7 ''x'' example_ses example_op example_columns ''r'' (Some example_version) empty_leases
    = (Inr (granted ''x'' (''t'', ''e'', ''r'') example_lease ''2026-07-04T10:00:00.000001Z''),
       \<lparr>lt_rows = [((''t'', ''e'', ''r''), example_lease)],
        lt_events = [lease_event ''edit_lease_acquired'' (''t'', ''e'', ''r'') (le_operation example_lease) (le_owner example_lease) (Some (le_expires example_lease))]\<rparr>)"
    by (simp add: write_lease_def token_taken_def empty_leases_def v example_token)
  then show "acquire_lease (\<lambda>t. t) example_lease_parse 1000 7 ''x'' example_ses example_op example_columns ''r'' (Some example_version) empty_leases
     = (Inr (granted ''x'' (''t'', ''e'', ''r'') example_lease ''2026-07-04T10:00:00.000001Z''), example_held)"
    by (simp add: example_held_def)
  show "lease_at example_held (''t'', ''e'', ''r'') = Some example_lease"
    unfolding example_held_def * by (simp add: lease_at_def)
qed

lemma example_lease_run: "reachable ([], empty_leases) (lease_step (\<lambda>t. t) example_lease_parse) ([example_taken], example_held)"
proof -
  from ls_acquire [OF _ _ example_acquired(1), of "[]"]
  have "lease_step (\<lambda>t. t) example_lease_parse ([], empty_leases) ([example_taken], example_held)"
    by (simp add: empty_leases_def granted_def example_taken_def lease_key_of_def example_ses_def example_op_def)
  with reachable_start show ?thesis by (rule reachable_step)
qed

definition example_other :: lease_session where
  "example_other = \<lparr>ls_tenant = ''t'', ls_user = ''w'', ls_name = None\<rparr>"

theorem held_lease_witness:
  "fst (acquire_lease (\<lambda>t. t) example_lease_parse 2000 2 ''y'' example_other example_op example_columns ''r'' (Some example_version) example_held)
     = Inl (locked_error example_lease)"
  using a_held_lease_is_its_owners [OF example_lease_run example_acquired(2), of 2000 example_other] example_acquirable
  by (simp add: example_lease_def example_other_def lease_key_of_def example_op_def)

theorem protected_write_witness:
  "lease_at (snd (consume_lease (\<lambda>t. t) example_lease_parse 2000 example_ses example_op ''r'' example_version ''x'' example_held)) (''t'', ''e'', ''r'') = None"
proof -
  have c: "consume_lease (\<lambda>t. t) example_lease_parse 2000 example_ses example_op ''r'' example_version ''x'' example_held =
    (Inr (), snd (consume_lease (\<lambda>t. t) example_lease_parse 2000 example_ses example_op ''r'' example_version ''x'' example_held))"
    by (simp add: consume_lease_def require_lease_def require_lease_contract_def example_op_def example_ses_def
        example_acquired(2) example_lease_def example_token)
  have "lease_key_of example_ses example_op ''r'' = (''t'', ''e'', ''r'')"
    by (simp add: lease_key_of_def example_ses_def example_op_def)
  then show ?thesis
    using a_protected_write_uses_its_lease [OF example_lease_run c] by (auto simp: example_taken_def)
qed

end
