(* ===== verification/Api_Key_Format.thy ===== *)
theory Api_Key_Format
  imports Js_Text "HOL-Library.Word"
begin

text \<open>
  The wire format of an API key (\<open>auth/api-key/format.ts\<close>): a fixed prefix, a public lookup half, a
  secret half and a checksum.  Random bytes and the hash of a secret are arguments; the checksum is
  computed on 32-bit words as the code does, over the UTF-8 bytes of the text.
\<close>

unbundle bit_operations_syntax

section \<open>Base 62\<close>

definition api_key_prefix :: string where "api_key_prefix = ''osf_live_''"

definition checksum_chars :: nat where "checksum_chars = 6"

definition base62 :: string where
  "base62 = ''0123456789ABCDEFGHIJKLMNOPQRSTUVWXYZabcdefghijklmnopqrstuvwxyz''"

definition bytes_value :: "8 word list \<Rightarrow> nat" where
  "bytes_value bs = foldl (\<lambda>v b. v * 256 + unat b) 0 bs"

function base62_digits :: "nat \<Rightarrow> string \<Rightarrow> string" where
  "base62_digits v out = (if v = 0 then out else base62_digits (v div 62) (base62 ! (v mod 62) # out))"
  by auto
termination by (relation "measure fst") auto

declare base62_digits.simps [simp del]

definition to_base62 :: "8 word list \<Rightarrow> string" where
  "to_base62 bs =
     (let out = replicate (length (takeWhile (\<lambda>b. b = 0) bs)) CHR ''0'' @ base62_digits (bytes_value bs) []
      in if out = [] then ''0'' else out)"

definition is_base62 :: "string \<Rightarrow> bool" where
  "is_base62 s = list_all (\<lambda>c. c \<in> set base62) s"

section \<open>Checksum\<close>

fun crc32_shift :: "nat \<Rightarrow> 32 word \<Rightarrow> 32 word" where
  "crc32_shift 0 v = v"
| "crc32_shift (Suc n) v = crc32_shift n (if bit v 0 then 0xEDB88320 XOR drop_bit 1 v else drop_bit 1 v)"

definition crc32_table :: "32 word list" where
  "crc32_table = map (\<lambda>i. crc32_shift 8 (of_nat i)) [0..<256]"

text \<open>The UTF-8 bytes of a text, whose code units are those of Latin-1.\<close>

definition utf8_bytes :: "string \<Rightarrow> 8 word list" where
  "utf8_bytes s =
     concat (map (\<lambda>c. if code c < 128 then [of_nat (code c)]
                      else [of_nat (192 + code c div 64), of_nat (128 + code c mod 64)]) s)"

definition crc32 :: "string \<Rightarrow> 32 word" where
  "crc32 s =
     foldl (\<lambda>crc b. drop_bit 8 crc XOR crc32_table ! unat ((crc XOR ucast b) AND 0xFF)) 0xFFFFFFFF (utf8_bytes s)
       XOR 0xFFFFFFFF"

definition crc32_bytes :: "32 word \<Rightarrow> 8 word list" where
  "crc32_bytes crc =
     [ucast (drop_bit 24 crc AND 0xFF), ucast (drop_bit 16 crc AND 0xFF), ucast (drop_bit 8 crc AND 0xFF), ucast (crc AND 0xFF)]"

definition checksum_for :: "string \<Rightarrow> string" where
  "checksum_for body = pad_start checksum_chars CHR ''0'' (to_base62 (crc32_bytes (crc32 body)))"

section \<open>Minting and parsing\<close>

record minted_key =
  mk_token :: string
  mk_lookup :: string
  mk_secret_hash :: string

record parsed_key =
  pk_lookup :: string
  pk_secret :: string

definition mint_api_key :: "(string \<Rightarrow> string) \<Rightarrow> 8 word list \<Rightarrow> 8 word list \<Rightarrow> minted_key" where
  "mint_api_key h lookup_bytes secret_bytes =
     (let body = api_key_prefix @ to_base62 lookup_bytes @ ''_'' @ to_base62 secret_bytes
      in \<lparr>mk_token = body @ checksum_for body, mk_lookup = to_base62 lookup_bytes,
          mk_secret_hash = h (to_base62 secret_bytes)\<rparr>)"

definition looks_like_api_key :: "string \<Rightarrow> bool" where
  "looks_like_api_key s = (take (length api_key_prefix) s = api_key_prefix)"

text \<open>Equal UTF-8 bytes, compared without a shortcut.\<close>

definition constant_time_equals :: "string \<Rightarrow> string \<Rightarrow> bool" where
  "constant_time_equals a b =
     (length (utf8_bytes a) = length (utf8_bytes b) \<and> list_all2 (=) (utf8_bytes a) (utf8_bytes b))"

definition secret_matches :: "(string \<Rightarrow> string) \<Rightarrow> string \<Rightarrow> string \<Rightarrow> bool" where
  "secret_matches h secret stored = constant_time_equals (h secret) stored"

definition parse_api_key :: "string \<Rightarrow> parsed_key option" where
  "parse_api_key s =
     (if \<not> looks_like_api_key s then None
      else if length s \<le> length api_key_prefix + checksum_chars + 2 then None
      else let body = take (length s - checksum_chars) s;
               presented = drop (length s - checksum_chars) s
           in if \<not> constant_time_equals presented (checksum_for body) then None
              else let rest = drop (length api_key_prefix) body;
                       lookup = takeWhile (\<lambda>c. c \<noteq> CHR ''_'') rest
                   in if CHR ''_'' \<notin> set rest \<or> lookup = [] then None
                      else let secret = drop (length lookup + 1) rest
                           in if secret = [] then None
                              else if \<not> is_base62 lookup \<or> \<not> is_base62 secret then None
                              else Some \<lparr>pk_lookup = lookup, pk_secret = secret\<rparr>)"

section \<open>Digits\<close>

lemma length_base62: "length base62 = 62"
  by (simp add: base62_def)

lemma distinct_base62: "distinct base62"
  by (simp add: base62_def)

lemma underscore_not_base62: "CHR ''_'' \<notin> set base62"
  by (simp add: base62_def)

lemma zero_in_base62: "CHR ''0'' \<in> set base62"
  by (simp add: base62_def)

lemma base62_0: "base62 ! 0 = CHR ''0''"
  by (simp add: base62_def)

lemma base62_digit: "v mod 62 < 62 \<Longrightarrow> base62 ! (v mod 62) \<in> set base62"
  by (rule nth_mem) (simp add: length_base62)

lemma is_base62_digits: "is_base62 out \<Longrightarrow> is_base62 (base62_digits v out)"
proof (induction v out rule: base62_digits.induct)
  case (1 v out)
  then show ?case by (subst base62_digits.simps) (simp add: is_base62_def base62_digit)
qed

lemma is_base62_to_base62: "is_base62 (to_base62 bs)"
proof -
  have "is_base62 (replicate n CHR ''0'')" for n by (simp add: is_base62_def list_all_iff zero_in_base62)
  then show ?thesis using is_base62_digits [of "[]" "bytes_value bs"]
    by (simp add: to_base62_def Let_def is_base62_def zero_in_base62)
qed

lemma to_base62_nonempty: "to_base62 bs \<noteq> []"
  by (simp add: to_base62_def Let_def)

lemma base62_digits_append: "base62_digits v out = base62_digits v [] @ out"
proof (induction v arbitrary: out rule: less_induct)
  case (less v)
  show ?case
  proof (cases "v = 0")
    case False
    then have step: "base62_digits v out' = base62_digits (v div 62) (base62 ! (v mod 62) # out')" for out'
      by (subst base62_digits.simps) simp
    from False have lt: "v div 62 < v" by simp
    show ?thesis unfolding step [of out] step [of "[]"]
      by (subst less [OF lt], subst (2) less [OF lt]) simp
  qed (simp add: base62_digits.simps)
qed

lemma base62_digits_pos: "0 < v \<Longrightarrow> base62_digits v [] = base62_digits (v div 62) [] @ [base62 ! (v mod 62)]"
  by (subst base62_digits.simps) (simp add: base62_digits_append [of _ "[base62 ! (v mod 62)]"])

lemma base62_digits_0 [simp]: "base62_digits 0 out = out"
  by (simp add: base62_digits.simps)

lemma base62_digits_length: "v < 62 ^ n \<Longrightarrow> length (base62_digits v []) \<le> n"
proof (induction n arbitrary: v)
  case (Suc n)
  show ?case
  proof (cases "v = 0")
    case False
    from Suc.prems have "v div 62 < 62 ^ n" by (simp add: less_mult_imp_div_less mult.commute)
    then show ?thesis using Suc.IH [of "v div 62"] False by (simp add: base62_digits_pos)
  qed simp
qed simp

text \<open>The number a base-62 text stands for.\<close>

definition base62_index :: "char \<Rightarrow> nat" where
  "base62_index c = length (takeWhile (\<lambda>d. d \<noteq> c) base62)"

definition base62_value :: "string \<Rightarrow> nat" where
  "base62_value s = foldl (\<lambda>a c. a * 62 + base62_index c) 0 s"

lemma base62_index_nth: "i < 62 \<Longrightarrow> base62_index (base62 ! i) = i"
proof -
  have "list_all (\<lambda>i. base62_index (base62 ! i) = i) [0..<62]" by code_simp
  then show "i < 62 \<Longrightarrow> base62_index (base62 ! i) = i" by (simp add: list_all_iff)
qed

lemma base62_value_digits: "base62_value (base62_digits v []) = v"
proof (induction v rule: less_induct)
  case (less v)
  show ?case
  proof (cases "v = 0")
    case False
    then have "v div 62 < v" by simp
    then show ?thesis using less [of "v div 62"] False
      by (simp add: base62_digits_pos base62_value_def base62_index_nth)
  qed (simp add: base62_value_def)
qed

lemma base62_value_zeros: "base62_value (replicate n CHR ''0'' @ s) = base62_value s"
proof -
  have "base62_index CHR ''0'' = 0" using base62_index_nth [of 0] by (simp add: base62_0)
  then show ?thesis by (induction n) (simp_all add: base62_value_def)
qed

lemma base62_value_to_base62: "base62_value (to_base62 bs) = bytes_value bs"
proof (cases "bytes_value bs = 0 \<and> takeWhile (\<lambda>b. b = 0) bs = []")
  case True
  then show ?thesis using base62_value_zeros [of 1 "[]"]
    by (simp add: to_base62_def base62_value_def)
next
  case False
  then have "to_base62 bs = replicate (length (takeWhile (\<lambda>b. b = 0) bs)) CHR ''0'' @ base62_digits (bytes_value bs) []"
    by (cases "bytes_value bs = 0") (auto simp: to_base62_def Let_def base62_digits_pos)
  then show ?thesis by (simp add: base62_value_zeros base62_value_digits)
qed

lemma bytes_value_snoc: "bytes_value (bs @ [b]) = bytes_value bs * 256 + unat b"
  by (simp add: bytes_value_def)

lemma unat_byte: "unat (b :: 8 word) < 256"
  using unsigned_less [of b] by simp

lemma bytes_value_bound: "bytes_value bs < 256 ^ length bs"
proof (induction bs rule: rev_induct)
  case (snoc b bs)
  then have "bytes_value bs + 1 \<le> 256 ^ length bs" by simp
  then have "(bytes_value bs + 1) * 256 \<le> 256 ^ length bs * 256" by (rule mult_le_mono1)
  then show ?case using unat_byte [of b] by (simp add: bytes_value_snoc mult.commute)
qed (simp add: bytes_value_def)

lemma bytes_value_inj: "length bs = length cs \<Longrightarrow> bytes_value bs = bytes_value cs \<Longrightarrow> bs = cs"
proof (induction bs arbitrary: cs rule: rev_induct)
  case (snoc b bs)
  then obtain c cs' where cs: "cs = cs' @ [c]" by (metis append_Nil2 append_eq_append_conv length_0_conv rev_exhaust)
  have "bytes_value bs * 256 + unat b = bytes_value cs' * 256 + unat c"
    using snoc.prems(2) by (simp add: cs bytes_value_snoc)
  moreover have "(x * 256 + unat y) div 256 = x" "(x * 256 + unat y) mod 256 = unat y" for x and y :: "8 word"
    using unat_byte [of y] by simp_all
  ultimately have "bytes_value bs = bytes_value cs' \<and> unat b = unat c" by metis
  then have "b = c" "bytes_value bs = bytes_value cs'" using unsigned_word_eqI [of b c] by blast+
  then show ?case using snoc by (simp add: cs)
qed simp

lemma bytes_value_zeros: "bytes_value (replicate n 0 @ bs) = bytes_value bs"
  by (induction n) (simp_all add: bytes_value_def)

lemma bytes_split: "bs = replicate (length (takeWhile (\<lambda>b. b = 0) bs)) 0 @ dropWhile (\<lambda>b. b = (0 :: 8 word)) bs"
proof -
  have "takeWhile (\<lambda>b. b = 0) bs = replicate (length (takeWhile (\<lambda>b. b = 0) bs)) 0"
    by (rule replicate_length_same [symmetric]) (auto dest: set_takeWhileD)
  then show ?thesis by (metis takeWhile_dropWhile_id)
qed

lemma to_base62_length:
  assumes "\<And>z. z \<le> length bs \<Longrightarrow> (256 :: nat) ^ (length bs - z) \<le> 62 ^ (n - z)" and "length bs \<le> n" and "0 < n"
  shows "length (to_base62 bs) \<le> n"
proof -
  let ?z = "length (takeWhile (\<lambda>b. b = 0) bs)"
  let ?r = "dropWhile (\<lambda>b. b = 0) bs"
  have z: "?z \<le> length bs" "length ?r = length bs - ?z"
    using arg_cong [OF takeWhile_dropWhile_id [of "\<lambda>b. b = 0" bs], of length] by (simp_all del: takeWhile_dropWhile_id)
  have "bytes_value bs = bytes_value ?r" using bytes_value_zeros [of ?z ?r] bytes_split [of bs] by metis
  then have "bytes_value bs < 62 ^ (n - ?z)"
    using bytes_value_bound [of ?r] assms(1) [OF z(1)] z(2) by simp
  from base62_digits_length [OF this] z(1) assms(2) have "?z + length (base62_digits (bytes_value bs) []) \<le> n" by simp
  then show ?thesis using assms(3) by (auto simp: to_base62_def Let_def)
qed

lemma checksum_length: "length (checksum_for body) = 6"
proof -
  have "length (crc32_bytes c) = 4" for c by (simp add: crc32_bytes_def)
  moreover have "(256 :: nat) ^ (4 - z) \<le> 62 ^ (6 - z)" if "z \<le> 4" for z
  proof -
    from that have "z = 0 \<or> z = 1 \<or> z = 2 \<or> z = 3 \<or> z = 4" by auto
    then show ?thesis by (elim disjE) simp_all
  qed
  ultimately have "length (to_base62 (crc32_bytes c)) \<le> 6" for c
    using to_base62_length [of "crc32_bytes c" 6] by simp
  then show ?thesis by (simp add: checksum_for_def pad_start_def checksum_chars_def)
qed

section \<open>Comparing texts\<close>

definition char_bytes :: "char \<Rightarrow> 8 word list" where
  "char_bytes c =
     (if code c < 128 then [of_nat (code c)] else [of_nat (192 + code c div 64), of_nat (128 + code c mod 64)])"

lemma unat_small: "n < 256 \<Longrightarrow> unat (of_nat n :: 8 word) = n"
  by (simp add: unat_of_nat take_bit_nat_eq_self)

lemma code_less: "code c < 256"
  by (simp add: code_def)

lemma code_inject: "code c = code d \<Longrightarrow> c = d"
  by (simp add: code_def)

lemma char_bytes_inject: "char_bytes c @ xs = char_bytes d @ ys \<longleftrightarrow> c = d \<and> xs = ys"
proof
  have u: "unat (of_nat n :: 8 word) = n" if "n \<in> {code c, code d, 192 + code c div 64, 192 + code d div 64, 128 + code c mod 64, 128 + code d mod 64}" for n
    using that code_less [of c] code_less [of d] by (intro unat_small) auto
  have e: "(of_nat m :: 8 word) = of_nat n \<longleftrightarrow> m = n"
    if "unat (of_nat m :: 8 word) = m" "unat (of_nat n :: 8 word) = n" for m n using that by metis
  assume eq: "char_bytes c @ xs = char_bytes d @ ys"
  show "c = d \<and> xs = ys"
  proof (cases "code c < 128"; cases "code d < 128")
    assume "code c < 128" "code d < 128"
    then show ?thesis using eq by (simp add: char_bytes_def e u code_inject del: of_nat_add)
  next
    assume "code c < 128" "\<not> code d < 128"
    then show ?thesis using eq by (simp add: char_bytes_def e u del: of_nat_add)
  next
    assume "\<not> code c < 128" "code d < 128"
    then show ?thesis using eq by (simp add: char_bytes_def e u del: of_nat_add)
  next
    assume "\<not> code c < 128" "\<not> code d < 128"
    then have "code c div 64 = code d div 64" "code c mod 64 = code d mod 64" "xs = ys"
      using eq by (simp_all add: char_bytes_def e u del: of_nat_add)
    then show ?thesis by (metis code_inject div_mult_mod_eq)
  qed
qed simp

lemma utf8_bytes_simps: "utf8_bytes [] = []" "utf8_bytes (c # s) = char_bytes c @ utf8_bytes s"
  by (simp_all add: utf8_bytes_def char_bytes_def)

lemma utf8_bytes_inject: "utf8_bytes s = utf8_bytes t \<Longrightarrow> s = t"
proof (induction s arbitrary: t)
  case Nil
  then show ?case by (cases t) (simp_all add: utf8_bytes_simps char_bytes_def split: if_splits)
next
  case (Cons c s)
  have "char_bytes c \<noteq> []" by (simp add: char_bytes_def)
  with Cons.prems obtain d t' where t: "t = d # t'" by (cases t) (simp_all add: utf8_bytes_simps)
  then show ?case using Cons by (simp add: utf8_bytes_simps char_bytes_inject)
qed

lemma constant_time_equals_iff [simp]: "constant_time_equals a b \<longleftrightarrow> a = b"
  by (auto simp: constant_time_equals_def list_all2_eq [symmetric] dest: utf8_bytes_inject)

section \<open>What is accepted\<close>

lemma take_while_separator: "CHR ''_'' \<notin> set l \<Longrightarrow> takeWhile (\<lambda>c. c \<noteq> CHR ''_'') (l @ CHR ''_'' # s) = l"
  by (induction l) auto

lemma base62_no_separator: "is_base62 s \<Longrightarrow> CHR ''_'' \<notin> set s"
  using underscore_not_base62 by (auto simp: is_base62_def list_all_iff)

lemma key_form:
  "parse_api_key s = Some \<lparr>pk_lookup = l, pk_secret = x\<rparr> \<longleftrightarrow>
     l \<noteq> [] \<and> x \<noteq> [] \<and> is_base62 l \<and> is_base62 x \<and>
     s = api_key_prefix @ l @ ''_'' @ x @ checksum_for (api_key_prefix @ l @ ''_'' @ x)"
proof
  assume p: "parse_api_key s = Some \<lparr>pk_lookup = l, pk_secret = x\<rparr>"
  define body where "body = take (length s - 6) s"
  define rest where "rest = drop 9 body"
  have len: "length api_key_prefix = 9" by (simp add: api_key_prefix_def)
  have P: "take 9 s = api_key_prefix" "17 < length s" "drop (length s - 6) s = checksum_for body"
    "CHR ''_'' \<in> set rest" "l = takeWhile (\<lambda>c. c \<noteq> CHR ''_'') rest" "l \<noteq> []" "x = drop (length l + 1) rest" "x \<noteq> []"
    "is_base62 l" "is_base62 x"
    using p by (auto simp: parse_api_key_def looks_like_api_key_def checksum_chars_def len body_def rest_def Let_def split: if_splits)
  have "rest = l @ ''_'' @ x"
  proof -
    have "dropWhile (\<lambda>c. c \<noteq> CHR ''_'') rest \<noteq> []" using P(4) by (simp add: dropWhile_eq_Nil_conv)
    moreover have "hd (dropWhile (\<lambda>c. c \<noteq> CHR ''_'') rest) = CHR ''_''" using hd_dropWhile [OF calculation] by simp
    moreover have r: "rest = l @ dropWhile (\<lambda>c. c \<noteq> CHR ''_'') rest" using P(5) by simp
    ultimately obtain y where "rest = l @ CHR ''_'' # y" by (metis list.collapse)
    then show ?thesis using P(7) by simp
  qed
  moreover have "min 9 (length s - 6) = 9" using P(2) by simp
  then have "take 9 body = api_key_prefix" using P(1) by (simp add: body_def)
  ultimately have "body = api_key_prefix @ l @ ''_'' @ x" using append_take_drop_id [of 9 body] by (simp add: rest_def)
  moreover have "s = body @ checksum_for body" using append_take_drop_id [of "length s - 6" s] P(3) by (simp add: body_def)
  ultimately show "l \<noteq> [] \<and> x \<noteq> [] \<and> is_base62 l \<and> is_base62 x \<and>
     s = api_key_prefix @ l @ ''_'' @ x @ checksum_for (api_key_prefix @ l @ ''_'' @ x)"
    using P by simp
next
  assume a: "l \<noteq> [] \<and> x \<noteq> [] \<and> is_base62 l \<and> is_base62 x \<and>
     s = api_key_prefix @ l @ ''_'' @ x @ checksum_for (api_key_prefix @ l @ ''_'' @ x)"
  define body where "body = api_key_prefix @ l @ ''_'' @ x"
  have s: "s = body @ checksum_for body" using a by (simp add: body_def)
  have len: "length api_key_prefix = 9" by (simp add: api_key_prefix_def)
  have ls: "length s = length body + 6" by (simp only: s length_append checksum_length)
  have "0 < length l" "0 < length x" using a by simp_all
  moreover have "length body = 10 + length l + length x" by (simp add: body_def len)
  ultimately have "11 < length body" by linarith
  then have "17 < length s" using ls by simp
  moreover have "take (length s - 6) s = body" "drop (length s - 6) s = checksum_for body" unfolding ls by (simp_all add: s)
  moreover have "take 9 s = api_key_prefix" "drop 9 body = l @ CHR ''_'' # x" by (simp_all add: s body_def len)
  moreover have "takeWhile (\<lambda>c. c \<noteq> CHR ''_'') (l @ CHR ''_'' # x) = l" using a take_while_separator base62_no_separator by blast
  ultimately show "parse_api_key s = Some \<lparr>pk_lookup = l, pk_secret = x\<rparr>"
    using a by (simp add: parse_api_key_def looks_like_api_key_def checksum_chars_def len Let_def)
qed

text \<open>
  A key is accepted exactly when it is the prefix, a lookup half and a secret half of base-62
  characters, neither empty, with the separator between them and the checksum of all that behind;
  nothing else reaches the database.
\<close>

theorem a_key_is_accepted_for_its_form:
  "parse_api_key s = Some \<lparr>pk_lookup = l, pk_secret = x\<rparr> \<longleftrightarrow>
     l \<noteq> [] \<and> x \<noteq> [] \<and> is_base62 l \<and> is_base62 x \<and>
     s = api_key_prefix @ l @ ''_'' @ x @ checksum_for (api_key_prefix @ l @ ''_'' @ x)"
  by (rule key_form)

lemma to_base62_inject: "length a = length b \<Longrightarrow> to_base62 a = to_base62 b \<Longrightarrow> a = b"
  using base62_value_to_base62 [of a] base62_value_to_base62 [of b] bytes_value_inj [of a b] by simp

lemma minted_key_parses:
  "parse_api_key (mk_token (mint_api_key h a b)) = Some \<lparr>pk_lookup = to_base62 a, pk_secret = to_base62 b\<rparr>"
  unfolding key_form by (simp add: mint_api_key_def Let_def to_base62_nonempty is_base62_to_base62)

text \<open>
  C30. A minted key reads back: it parses to the lookup half and the secret whose hash is stored, which
  the secret matches; and different random bytes never give the same key.
\<close>

theorem a_minted_key_reads_back:
  "parse_api_key (mk_token (mint_api_key h a b)) =
     Some \<lparr>pk_lookup = mk_lookup (mint_api_key h a b), pk_secret = to_base62 b\<rparr> \<and>
   secret_matches h (to_base62 b) (mk_secret_hash (mint_api_key h a b)) \<and>
   (length a' = length a \<longrightarrow> length b' = length b \<longrightarrow>
      mk_token (mint_api_key h a' b') = mk_token (mint_api_key h a b) \<longrightarrow> a' = a \<and> b' = b)"
proof -
  have "a' = a \<and> b' = b" if "length a' = length a" "length b' = length b"
    "mk_token (mint_api_key h a' b') = mk_token (mint_api_key h a b)"
    using minted_key_parses [of h a b] minted_key_parses [of h a' b'] that to_base62_inject by simp
  then show ?thesis using minted_key_parses by (simp add: mint_api_key_def Let_def secret_matches_def)
qed

theorem minted_key_witness:
  "mk_token (mint_api_key (\<lambda>s. s) [1] [2]) \<noteq> mk_token (mint_api_key (\<lambda>s. s) [1] [3])"
  using a_minted_key_reads_back [of "\<lambda>s. s" "[1]" "[3]" "[1]" "[2]"] by auto

end
