(* ===== verification/Api_Key_Rules.thy ===== *)
theory Api_Key_Rules
  imports Job_Store
begin

text \<open>
  What may be granted with an API key, for how long, and what a key narrows its integration to
  (\<open>auth/api-key/ceiling.ts\<close>, \<open>lifetime.ts\<close>, the role functions of \<open>store.ts\<close>, \<open>service.ts\<close> and
  \<open>resolve.ts\<close>).
\<close>

section \<open>The privilege ceiling\<close>

datatype credential = CNone | CBearer | CApiKey | CTrustedContext | CControlBearer | CGrant

datatype principal_kind = Person | Service

record ceiling_session =
  cs_roles :: "string list"
  cs_credential :: credential
  cs_kind :: "principal_kind option"

datatype key_fault =
    KeysCannotManageKeys
  | OnlyAPerson
  | NotAManager
  | RolesNotHeld "string list"
  | EmptySubset
  | NoAudience
  | NoName
  | NeverExpiresRefused
  | DaysInvalid
  | TooManyDays
  | NoSuchIntegration
  | NotActive
  | NoSuchKey
  | RealmFailed
  | AttemptLost
  | StatementFailed

definition api_key_manage_role :: string where "api_key_manage_role = ''Platform.ApiKeys.Manage''"

definition may_carry_key_management :: "ceiling_session \<Rightarrow> bool" where
  "may_carry_key_management s =
     (case cs_credential s of
        CBearer \<Rightarrow> cs_kind s = Some Person
      | CTrustedContext \<Rightarrow> cs_kind s = Some Person
      | _ \<Rightarrow> False)"

definition assert_may_grant_roles :: "ceiling_session \<Rightarrow> string list \<Rightarrow> key_fault option" where
  "assert_may_grant_roles s requested =
     (if \<not> may_carry_key_management s
      then Some (if cs_credential s = CApiKey then KeysCannotManageKeys else OnlyAPerson)
      else if api_key_manage_role \<notin> set (cs_roles s) then Some NotAManager
      else let ungranted = sort (filter (\<lambda>r. r \<notin> set (cs_roles s)) (uniq requested))
           in if ungranted \<noteq> [] then Some (RolesNotHeld ungranted) else None)"

definition assert_may_manage_api_keys :: "ceiling_session \<Rightarrow> key_fault option" where
  "assert_may_manage_api_keys s = assert_may_grant_roles s []"

section \<open>Lifetimes\<close>

definition product_max_ttl_days :: int where "product_max_ttl_days = 366"

definition default_ttl_days :: int where "default_ttl_days = 365"

record lifetime_policy =
  lp_max :: "int option"
  lp_default :: int

datatype days_request = DaysOmitted | DaysNever | Days jsnum

text \<open>The days a host declares: \<open>Some None\<close> is none declared, \<open>None\<close> a value that is not understood.\<close>

definition declared_days :: "string option \<Rightarrow> int option option" where
  "declared_days raw =
     (case raw of
        None \<Rightarrow> Some None
      | Some s \<Rightarrow>
          (if js_trim s = [] then Some None
           else let n = text_to_number (js_trim s)
                in if positive_integer n then Some (Some \<lfloor>js_val n\<rfloor>) else None))"

definition read_lifetime_policy :: "string option \<Rightarrow> string option \<Rightarrow> lifetime_policy option" where
  "read_lifetime_policy max_raw default_raw =
     (case declared_days max_raw of
        None \<Rightarrow> None
      | Some limit \<Rightarrow>
          (if (case limit of None \<Rightarrow> False | Some m \<Rightarrow> product_max_ttl_days < m) then None
           else case declared_days default_raw of
                  None \<Rightarrow> None
                | Some declared \<Rightarrow>
                    (let d = (case declared of
                                Some d \<Rightarrow> d
                              | None \<Rightarrow> min default_ttl_days (case limit of None \<Rightarrow> default_ttl_days | Some m \<Rightarrow> m))
                     in if (case limit of None \<Rightarrow> False | Some m \<Rightarrow> m < d) then None
                        else if product_max_ttl_days < d then None
                        else Some \<lparr>lp_max = limit, lp_default = d\<rparr>)))"

definition day_count_expiry :: "lifetime_policy \<Rightarrow> int \<Rightarrow> jsnum \<Rightarrow> key_fault + time_value" where
  "day_count_expiry p now days =
     (if \<not> positive_integer days then Inl DaysInvalid
      else if (case lp_max p of None \<Rightarrow> False | Some m \<Rightarrow> js_lt (jint m) days) then Inl TooManyDays
      else Inr (date_of_number (js_add (jint now)
             (js_mul (js_mul (js_mul (js_mul days (jint 24)) (jint 60)) (jint 60)) (jint 1000)))))"

text \<open>\<open>None\<close> never expires; a date may be invalid when no maximum bounds the days.\<close>

definition credential_expiry :: "days_request \<Rightarrow> lifetime_policy \<Rightarrow> int \<Rightarrow> key_fault + time_value option" where
  "credential_expiry requested p now =
     (case requested of
        DaysNever \<Rightarrow> if lp_max p = None then Inr None else Inl NeverExpiresRefused
      | DaysOmitted \<Rightarrow> map_sum id Some (day_count_expiry p now (jint (lp_default p)))
      | Days d \<Rightarrow> map_sum id Some (day_count_expiry p now d))"

section \<open>Role subsets\<close>

definition parse_role_subset :: "jsval \<Rightarrow> string list option" where
  "parse_role_subset v =
     (case v of
        VArr _ vs \<Rightarrow>
          (let roles = concat (map (\<lambda>x. case x of VStr s \<Rightarrow> if js_trim s \<noteq> [] then [s] else [] | _ \<Rightarrow> []) vs)
           in if roles = [] then None else Some roles)
      | _ \<Rightarrow> None)"

definition is_role_free :: "jsval \<Rightarrow> bool" where
  "is_role_free v = (case v of VArr _ vs \<Rightarrow> vs = [] | _ \<Rightarrow> False)"

definition role_subset_or_throw :: "string list option \<Rightarrow> key_fault + string list option" where
  "role_subset_or_throw narrowed =
     (case narrowed of
        None \<Rightarrow> Inr None
      | Some rs \<Rightarrow>
          (let roles = uniq (filter (\<lambda>r. r \<noteq> []) (map js_trim rs))
           in if roles = [] then Inl EmptySubset else Inr (Some roles)))"

definition intersect_roles :: "string list \<Rightarrow> string list option \<Rightarrow> string list" where
  "intersect_roles granted narrowed =
     (case narrowed of None \<Rightarrow> granted | Some rs \<Rightarrow> filter (\<lambda>r. r \<in> set granted) rs)"

definition integration_roles :: "string list \<Rightarrow> string list option \<Rightarrow> bool \<Rightarrow> string list" where
  "integration_roles granted narrowed role_free = (if role_free then [] else intersect_roles granted narrowed)"

section \<open>What the rules promise\<close>

lemma positive_integer_jint: "positive_integer n \<Longrightarrow> \<exists>i. n = jint i \<and> 1 \<le> i \<and> js_val n = of_int i"
  by (cases n) (auto simp: positive_integer_def jint_def intro!: exI [of _ "\<lfloor>js_val n\<rfloor>"])

lemma declared_days_positive: "declared_days raw = Some (Some d) \<Longrightarrow> 1 \<le> d"
  using positive_integer_jint
  by (fastforce simp: declared_days_def Let_def split: option.splits if_splits)

lemma lifetime_policy_bounds:
  "read_lifetime_policy max_raw default_raw = Some p \<Longrightarrow>
     1 \<le> lp_default p \<and> lp_default p \<le> 366 \<and>
     (\<forall>m. lp_max p = Some m \<longrightarrow> 1 \<le> m \<and> m \<le> 366 \<and> lp_default p \<le> m)"
  using declared_days_positive
  by (fastforce simp: read_lifetime_policy_def product_max_ttl_days_def default_ttl_days_def Let_def
      split: option.splits if_splits)

lemma date_of_jint: "date_of_number (jint i) = time_clip i"
  by (simp add: date_of_number_def trunc_rat_def)

lemma day_count_exact:
  assumes "1 \<le> d" "d \<le> 366" "0 \<le> now" "now \<le> 8000000000000000"
  shows "date_of_number (js_add (jint now)
           (js_mul (js_mul (js_mul (js_mul (jint d) (jint 24)) (jint 60)) (jint 60)) (jint 1000)))
         = Some (now + d * 86400000)"
  using assms by (simp add: date_of_jint time_clip_def max_time_def)

lemma grant_accepted_iff:
  "assert_may_grant_roles s requested = None \<longleftrightarrow>
     may_carry_key_management s \<and> api_key_manage_role \<in> set (cs_roles s) \<and> set requested \<subseteq> set (cs_roles s)"
proof -
  have "filter (\<lambda>r. r \<notin> set (cs_roles s)) (uniq requested) = [] \<longleftrightarrow> set requested \<subseteq> set (cs_roles s)"
    by (auto simp: filter_empty_conv)
  moreover have "sort xs = [] \<longleftrightarrow> xs = []" for xs :: "string list" by (metis set_empty set_sort)
  ultimately show ?thesis by (simp add: assert_may_grant_roles_def Let_def)
qed

text \<open>
  C29. Nobody grants what they do not hold: a grant is accepted exactly when the session is one the
  server classified as a person, on a carrier that may manage keys, holds the management role, and
  holds every role it grants.
\<close>

theorem a_grant_never_exceeds_its_grantor:
  "assert_may_grant_roles s requested = None \<longleftrightarrow>
     (cs_credential s = CBearer \<or> cs_credential s = CTrustedContext) \<and> cs_kind s = Some Person \<and>
     api_key_manage_role \<in> set (cs_roles s) \<and> set requested \<subseteq> set (cs_roles s)"
  unfolding grant_accepted_iff by (cases "cs_credential s") (auto simp: may_carry_key_management_def)

lemma map_sum_Inr: "map_sum id f r = Inr y \<longleftrightarrow> (\<exists>x. r = Inr x \<and> y = f x)"
  by (cases r) auto

lemma expiry_bounds:
  assumes p: "read_lifetime_policy max_raw default_raw = Some p" and e: "credential_expiry requested p now = Inr e"
    and d: "lp_max p = Some m \<or> requested = DaysOmitted" and now: "0 \<le> now" "now \<le> 8000000000000000"
  shows "\<exists>t days. e = Some (Some t) \<and> 1 \<le> days \<and> days \<le> 366 \<and> (\<forall>m. lp_max p = Some m \<longrightarrow> days \<le> m) \<and>
     t = now + days * 86400000"
proof -
  note b = lifetime_policy_bounds [OF p]
  obtain n where n: "day_count_expiry p now n = Inr (the e)" "e = Some (the e)"
    "lp_max p = Some m \<or> n = jint (lp_default p)"
    using e d by (cases requested) (auto simp: credential_expiry_def map_sum_Inr split: if_splits)
  have "positive_integer n" using n(1) by (simp add: day_count_expiry_def split: if_splits)
  then obtain i where i: "n = jint i" "1 \<le> i" using positive_integer_jint by blast
  have le: "i \<le> m'" if "lp_max p = Some m'" for m' using n(1) that by (simp add: i day_count_expiry_def split: if_splits)
  have "i \<le> 366" using n(3) le b i(1) by (auto simp: jint_def)
  then have "the e = Some (now + i * 86400000)"
    using n(1) i day_count_exact [of i now] now by (simp add: day_count_expiry_def split: if_splits)
  then show ?thesis using n(2) i(2) \<open>i \<le> 366\<close> le by metis
qed

text \<open>
  A credential lives a whole number of days from now, at least one and never more than the
  deployment's declared maximum, which is itself at most 366; so is the lifetime of one that names
  none.  No request outlives the maximum and none escapes it.
\<close>

theorem lifetimes_stay_within_the_policy:
  assumes "read_lifetime_policy max_raw default_raw = Some p" and "credential_expiry requested p now = Inr e"
    and "lp_max p = Some m \<or> requested = DaysOmitted" and "0 \<le> now" and "now \<le> 8000000000000000"
  shows "\<exists>t days. e = Some (Some t) \<and> 1 \<le> days \<and> days \<le> 366 \<and> (\<forall>m. lp_max p = Some m \<longrightarrow> days \<le> m) \<and>
     t = now + days * 86400000"
  using assms by (rule expiry_bounds)

theorem lifetimes_witness:
  "\<exists>t. credential_expiry (Days (jint 30)) \<lparr>lp_max = Some 90, lp_default = 90\<rparr> 1000 = Inr (Some (Some t)) \<and> t \<le> 1000 + 90 * 86400000"
proof -
  have "all_digits ''90''" "js_trim ''90'' = ''90''" by code_simp+
  then have "declared_days (Some ''90'') = Some (Some 90)"
    using text_to_number_small_digits [of "''90''"]
    by (simp add: declared_days_def digits_value_def code_def positive_integer_def Let_def)
  then have p: "read_lifetime_policy (Some ''90'') None = Some \<lparr>lp_max = Some 90, lp_default = 90\<rparr>"
    by (simp add: read_lifetime_policy_def declared_days_def product_max_ttl_days_def default_ttl_days_def)
  have "credential_expiry (Days (jint 30)) \<lparr>lp_max = Some 90, lp_default = 90\<rparr> 1000 \<noteq> Inl f" for f
    by (auto simp: credential_expiry_def day_count_expiry_def positive_integer_def jint_def js_lt_def)
  then obtain e where e: "credential_expiry (Days (jint 30)) \<lparr>lp_max = Some 90, lp_default = 90\<rparr> 1000 = Inr e"
    by (metis sum.exhaust)
  from lifetimes_stay_within_the_policy [OF p e] show ?thesis unfolding e by fastforce
qed

end
