(* ===== verification/Api_Keys.thy ===== *)
theory Api_Keys
  imports State_Machines Api_Key_Format Api_Key_Rules
begin

text \<open>
  Provisioning of API keys (\<open>auth/api-key/service.ts\<close>, \<open>reconcile.ts\<close>, \<open>recordApiKeyUse\<close> of
  \<open>store.ts\<close>): the two tables, every operation as the transactions it runs, and the reconciler.
  Keycloak is not part of the source: what its admin calls answer, the encryption of a client secret,
  the random identifiers and bytes and the clock are arguments.  Ordinary statements see the session's
  tenant only, which the tenant predicate of each statement says too.
\<close>

section \<open>Tables\<close>

datatype integration_status = IPending | IActive | IDisabled

record integration =
  ig_tenant :: string
  ig_name :: string
  ig_client :: string
  ig_status :: integration_status
  ig_granted :: jsval
  ig_secret :: "string option"
  ig_creator :: string
  ig_created :: int
  ig_updated :: int

record api_key =
  ak_tenant :: string
  ak_integration :: string
  ak_lookup :: string
  ak_hash :: string
  ak_name :: string
  ak_subset :: jsval
  ak_expires :: "int option"
  ak_creator :: string
  ak_created :: int
  ak_revoked :: "int option"
  ak_first_used :: "int option"
  ak_last_used :: "int option"

record key_tables =
  kt_integrations :: "(string \<times> integration) list"
  kt_keys :: "(string \<times> api_key) list"

record provisioning_session = ceiling_session +
  ps_tenant :: string
  ps_user :: string

definition no_keys :: key_tables where
  "no_keys = \<lparr>kt_integrations = [], kt_keys = []\<rparr>"

definition integration_at :: "key_tables \<Rightarrow> string \<Rightarrow> integration option" where
  "integration_at T = map_of (kt_integrations T)"

definition key_at :: "key_tables \<Rightarrow> string \<Rightarrow> api_key option" where
  "key_at T = map_of (kt_keys T)"

definition set_integration :: "string \<Rightarrow> integration \<Rightarrow> key_tables \<Rightarrow> key_tables" where
  "set_integration i ig T = T\<lparr>kt_integrations := massoc_set i ig (kt_integrations T)\<rparr>"

definition set_key :: "string \<Rightarrow> api_key \<Rightarrow> key_tables \<Rightarrow> key_tables" where
  "set_key k row T = T\<lparr>kt_keys := massoc_set k row (kt_keys T)\<rparr>"

definition lock_integration :: "string \<Rightarrow> string \<Rightarrow> key_tables \<Rightarrow> integration option" where
  "lock_integration tenant i T =
     (case integration_at T i of None \<Rightarrow> None | Some ig \<Rightarrow> if ig_tenant ig = tenant then Some ig else None)"

text \<open>A subset is stored as a JSON array, none as \<open>null\<close>.\<close>

definition stored_subset :: "string list option \<Rightarrow> jsval" where
  "stored_subset roles = (case roles of None \<Rightarrow> VNull | Some rs \<Rightarrow> strings_value rs)"

section \<open>Inserting a key\<close>

record new_key =
  nk_id :: string
  nk_tenant :: string
  nk_integration :: string
  nk_minted :: minted_key
  nk_name :: string
  nk_subset :: "string list option"
  nk_expires :: "time_value option"
  nk_creator :: string

text \<open>An invalid date cannot be written, and neither can a lookup half or an identifier that is taken.\<close>

definition insert_key_row :: "int \<Rightarrow> new_key \<Rightarrow> key_tables \<Rightarrow> key_fault + key_tables" where
  "insert_key_row now n T =
     (if nk_expires n = Some None \<or> key_at T (nk_id n) \<noteq> None \<or>
         list_ex (\<lambda>(_, row). ak_lookup row = mk_lookup (nk_minted n)) (kt_keys T)
      then Inl StatementFailed
      else Inr (set_key (nk_id n)
             \<lparr>ak_tenant = nk_tenant n, ak_integration = nk_integration n, ak_lookup = mk_lookup (nk_minted n),
              ak_hash = mk_secret_hash (nk_minted n), ak_name = nk_name n, ak_subset = stored_subset (nk_subset n),
              ak_expires = (case nk_expires n of Some e \<Rightarrow> e | None \<Rightarrow> None), ak_creator = nk_creator n, ak_created = now,
              ak_revoked = None, ak_first_used = None, ak_last_used = None\<rparr> T))"

section \<open>Creating an integration\<close>

record create_input =
  ci_name :: string
  ci_roles :: "string list"
  ci_days :: days_request
  ci_subset :: "string list option"

text \<open>What a provisioning attempt carries from its recorded intent to its activation.\<close>

record key_attempt =
  at_session :: provisioning_session
  at_integration :: string
  at_name :: string
  at_roles :: "string list"
  at_subset :: "string list option"
  at_expires :: "time_value option"

record created_key =
  ck_integration :: string
  ck_key :: string
  ck_token :: string
  ck_expires :: "time_value option"

definition client_id_of :: "string \<Rightarrow> string" where
  "client_id_of i = ''osf-int-'' @ i"

definition check_none :: "key_fault option \<Rightarrow> key_fault + unit" where
  "check_none f = (case f of None \<Rightarrow> Inr () | Some e \<Rightarrow> Inl e)"

definition display_name_or_throw :: "string \<Rightarrow> key_fault + string" where
  "display_name_or_throw s = (if js_trim s = [] then Inl NoName else Inr (js_trim s))"

definition pending_integration :: "int \<Rightarrow> key_attempt \<Rightarrow> integration_status \<Rightarrow> integration" where
  "pending_integration now a status =
     \<lparr>ig_tenant = ps_tenant (at_session a), ig_name = at_name a, ig_client = client_id_of (at_integration a),
      ig_status = status, ig_granted = strings_value (at_roles a), ig_secret = None,
      ig_creator = ps_user (at_session a), ig_created = now, ig_updated = now\<rparr>"

definition plan_attempt ::
  "bool \<Rightarrow> lifetime_policy \<Rightarrow> int \<Rightarrow> string \<Rightarrow> provisioning_session \<Rightarrow> create_input \<Rightarrow> key_fault + key_attempt" where
  "plan_attempt has_audience policy now i s inp =
     rbind (check_none (assert_may_manage_api_keys (ceiling_session.truncate s))) (\<lambda>_.
     rbind (role_subset_or_throw (ci_subset inp)) (\<lambda>narrowed.
     rbind (check_none (assert_may_grant_roles (ceiling_session.truncate s)
             (ci_roles inp @ (case narrowed of None \<Rightarrow> [] | Some rs \<Rightarrow> rs)))) (\<lambda>_.
     rbind (if ci_roles inp = [] \<and> \<not> has_audience then Inl NoAudience else Inr ()) (\<lambda>_.
     rbind (display_name_or_throw (ci_name inp)) (\<lambda>name.
     rbind (credential_expiry (ci_days inp) policy now) (\<lambda>expires.
       Inr \<lparr>at_session = s, at_integration = i, at_name = name, at_roles = ci_roles inp, at_subset = narrowed,
            at_expires = expires\<rparr>))))))"

text \<open>Step 1, the recorded intent.\<close>

definition begin_attempt ::
  "bool \<Rightarrow> lifetime_policy \<Rightarrow> int \<Rightarrow> string \<Rightarrow> provisioning_session \<Rightarrow> create_input \<Rightarrow> key_tables \<Rightarrow>
   (key_fault + key_attempt) \<times> key_tables" where
  "begin_attempt has_audience policy now i s inp T =
     (case plan_attempt has_audience policy now i s inp of
        Inl f \<Rightarrow> (Inl f, T)
      | Inr a \<Rightarrow>
          (if integration_at T i \<noteq> None then (Inl StatementFailed, T)
           else (Inr a, set_integration i (pending_integration now a IPending) T)))"

text \<open>
  \<open>recordAbandonedAttempt\<close>: a row that names the realm client, unless the row was ever activated.
\<close>

definition record_abandoned :: "int \<Rightarrow> key_attempt \<Rightarrow> key_tables \<Rightarrow> key_tables" where
  "record_abandoned now a T =
     (case integration_at T (at_integration a) of
        None \<Rightarrow> set_integration (at_integration a) (pending_integration now a IDisabled) T
      | Some ig \<Rightarrow>
          (if ig_secret ig = None
           then set_integration (at_integration a) (ig\<lparr>ig_status := IDisabled, ig_updated := now\<rparr>) T else T))"

text \<open>
  Step 3, the fenced activation, one transaction; \<open>enc\<close> encrypts the client secret of an integration.
  The fence found no row at all when \<open>attempt_row_missing\<close> holds.
\<close>

definition attempt_row_missing :: "key_attempt \<Rightarrow> key_tables \<Rightarrow> bool" where
  "attempt_row_missing a T = (lock_integration (ps_tenant (at_session a)) (at_integration a) T = None)"

definition activate_attempt ::
  "(string \<Rightarrow> string \<Rightarrow> string) \<Rightarrow> int \<Rightarrow> string \<Rightarrow> minted_key \<Rightarrow> string \<Rightarrow> key_attempt \<Rightarrow> key_tables \<Rightarrow>
   (key_fault + created_key) \<times> key_tables" where
  "activate_attempt enc now kid minted client_secret a T =
     (let i = at_integration a; s = at_session a
      in case lock_integration (ps_tenant s) i T of
           None \<Rightarrow> (Inl AttemptLost, T)
         | Some ig \<Rightarrow>
             (if ig_status ig \<noteq> IPending then (Inl AttemptLost, T)
              else let T1 = set_integration i (ig\<lparr>ig_status := IActive, ig_secret := Some (enc i client_secret), ig_updated := now\<rparr>) T
                   in case insert_key_row now
                             \<lparr>nk_id = kid, nk_tenant = ps_tenant s, nk_integration = i, nk_minted = minted,
                              nk_name = at_name a, nk_subset = at_subset a, nk_expires = at_expires a,
                              nk_creator = ps_user s\<rparr> T1 of
                        Inl f \<Rightarrow> (Inl f, T)
                      | Inr T2 \<Rightarrow>
                          (Inr \<lparr>ck_integration = i, ck_key = kid, ck_token = mk_token minted, ck_expires = at_expires a\<rparr>, T2)))"

text \<open>
  The whole operation: \<open>meanwhile\<close> is what others commit while the realm is being changed, \<open>realm\<close> how
  that ends, and \<open>afterwards\<close> what others commit between the activation and the transaction of its own
  that records a lost attempt; \<open>recorded\<close> says whether that transaction goes through.
\<close>

definition create_integration ::
  "(string \<Rightarrow> string \<Rightarrow> string) \<Rightarrow> bool \<Rightarrow> lifetime_policy \<Rightarrow> int \<Rightarrow> string \<Rightarrow> string \<Rightarrow> minted_key \<Rightarrow>
   key_fault + string \<Rightarrow> (key_tables \<Rightarrow> key_tables) \<Rightarrow> (key_tables \<Rightarrow> key_tables) \<Rightarrow> bool \<Rightarrow> provisioning_session \<Rightarrow>
   create_input \<Rightarrow> key_tables \<Rightarrow> (key_fault + created_key) \<times> key_tables" where
  "create_integration enc has_audience policy now i kid minted realm meanwhile afterwards recorded s inp T =
     (case begin_attempt has_audience policy now i s inp T of
        (Inl f, T1) \<Rightarrow> (Inl f, T1)
      | (Inr a, T1) \<Rightarrow>
          (case realm of
             Inl f \<Rightarrow> (Inl RealmFailed, meanwhile T1)
           | Inr client_secret \<Rightarrow>
               (let T2 = meanwhile T1
                in case activate_attempt enc now kid minted client_secret a T2 of
                     (res, T3) \<Rightarrow>
                       (res, if attempt_row_missing a T2 \<and> recorded then record_abandoned now a (afterwards T3) else T3))))"

section \<open>Issuing and revoking keys\<close>

record issue_input =
  ii_integration :: string
  ii_name :: string
  ii_days :: days_request
  ii_subset :: "string list option"

definition issue_key ::
  "lifetime_policy \<Rightarrow> int \<Rightarrow> string \<Rightarrow> minted_key \<Rightarrow> provisioning_session \<Rightarrow> issue_input \<Rightarrow> key_tables \<Rightarrow>
   (key_fault + created_key) \<times> key_tables" where
  "issue_key policy now kid minted s inp T =
     (case rbind (check_none (assert_may_manage_api_keys (ceiling_session.truncate s))) (\<lambda>_.
           rbind (role_subset_or_throw (ii_subset inp)) (\<lambda>narrowed.
           rbind (credential_expiry (ii_days inp) policy now) (\<lambda>expires.
             case lock_integration (ps_tenant s) (ii_integration inp) T of
               None \<Rightarrow> Inl NotActive
             | Some ig \<Rightarrow>
                 (if ig_status ig \<noteq> IActive then Inl NotActive
                  else rbind (check_none (assert_may_grant_roles (ceiling_session.truncate s)
                         (case narrowed of
                            Some rs \<Rightarrow> rs
                          | None \<Rightarrow> case parse_role_subset (ig_granted ig) of None \<Rightarrow> [] | Some rs \<Rightarrow> rs))) (\<lambda>_.
                       rbind (insert_key_row now
                         \<lparr>nk_id = kid, nk_tenant = ps_tenant s, nk_integration = ii_integration inp, nk_minted = minted,
                          nk_name = js_trim (ii_name inp), nk_subset = narrowed, nk_expires = expires,
                          nk_creator = ps_user s\<rparr> T) (\<lambda>T'. Inr (expires, T'))))))) of
        Inl f \<Rightarrow> (Inl f, T)
      | Inr (expires, T') \<Rightarrow>
          (Inr \<lparr>ck_integration = ii_integration inp, ck_key = kid, ck_token = mk_token minted, ck_expires = expires\<rparr>, T'))"

definition revoke_key :: "int \<Rightarrow> provisioning_session \<Rightarrow> string \<Rightarrow> key_tables \<Rightarrow> (key_fault + int) \<times> key_tables" where
  "revoke_key now s kid T =
     (case assert_may_manage_api_keys (ceiling_session.truncate s) of
        Some f \<Rightarrow> (Inl f, T)
      | None \<Rightarrow>
          (case key_at T kid of
             None \<Rightarrow> (Inl NoSuchKey, T)
           | Some row \<Rightarrow>
               (if ak_tenant row \<noteq> ps_tenant s \<or> integration_at T (ak_integration row) = None then (Inl NoSuchKey, T)
                else let t = (case ak_revoked row of Some t \<Rightarrow> t | None \<Rightarrow> now)
                     in (Inr t, set_key kid (row\<lparr>ak_revoked := Some t\<rparr>) T))))"

definition stamped :: "string \<Rightarrow> string \<Rightarrow> api_key \<Rightarrow> bool" where
  "stamped tenant i row = (ak_integration row = i \<and> ak_tenant row = tenant \<and> ak_revoked row = None)"

definition disable_integration ::
  "int \<Rightarrow> provisioning_session \<Rightarrow> string \<Rightarrow> key_tables \<Rightarrow> (key_fault + nat) \<times> key_tables" where
  "disable_integration now s i T =
     (case assert_may_manage_api_keys (ceiling_session.truncate s) of
        Some f \<Rightarrow> (Inl f, T)
      | None \<Rightarrow>
          (case lock_integration (ps_tenant s) i T of
             None \<Rightarrow> (Inl NoSuchIntegration, T)
           | Some ig \<Rightarrow>
               (Inr (length (filter (\<lambda>(_, row). stamped (ps_tenant s) i row) (kt_keys T))),
                (set_integration i (ig\<lparr>ig_status := IDisabled, ig_updated := now\<rparr>) T)
                  \<lparr>kt_keys := map (\<lambda>(k, row). (k, if stamped (ps_tenant s) i row then row\<lparr>ak_revoked := Some now\<rparr> else row)) (kt_keys T)\<rparr>)))"

text \<open>Telemetry; a row another transaction has locked is skipped.\<close>

definition record_use :: "int \<Rightarrow> bool \<Rightarrow> string \<Rightarrow> string \<Rightarrow> key_tables \<Rightarrow> key_tables" where
  "record_use now locked tenant kid T =
     (case key_at T kid of
        None \<Rightarrow> T
      | Some row \<Rightarrow>
          (if locked \<or> ak_tenant row \<noteq> tenant then T
           else set_key kid (row\<lparr>ak_first_used := Some (case ak_first_used row of Some t \<Rightarrow> t | None \<Rightarrow> now),
                                 ak_last_used := Some now\<rparr>) T))"

section \<open>Reading\<close>

datatype key_status = KeyRevoked | KeyExpired | KeyActive

definition credential_status :: "int \<Rightarrow> api_key \<Rightarrow> key_status" where
  "credential_status now row =
     (if ak_revoked row \<noteq> None then KeyRevoked
      else case ak_expires row of
             Some t \<Rightarrow> if t \<le> now then KeyExpired else KeyActive
           | None \<Rightarrow> KeyActive)"

record listed_key =
  lk_id :: string
  lk_integration :: string
  lk_integration_name :: string
  lk_name :: string
  lk_subset :: "string list option"
  lk_created :: int
  lk_expires :: "int option"
  lk_revoked :: "int option"
  lk_last_used :: "int option"

definition listed_key_of :: "string \<Rightarrow> api_key \<Rightarrow> integration \<Rightarrow> listed_key" where
  "listed_key_of kid row ig =
     \<lparr>lk_id = kid, lk_integration = ak_integration row, lk_integration_name = ig_name ig, lk_name = ak_name row,
      lk_subset = parse_role_subset (ak_subset row), lk_created = ak_created row, lk_expires = ak_expires row,
      lk_revoked = ak_revoked row, lk_last_used = ak_last_used row\<rparr>"

definition joined :: "string \<Rightarrow> key_tables \<Rightarrow> string \<times> api_key \<Rightarrow> listed_key option" where
  "joined tenant T row =
     (case integration_at T (ak_integration (snd row)) of
        Some ig \<Rightarrow> if ig_tenant ig = tenant then Some (listed_key_of (fst row) (snd row) ig) else None
      | None \<Rightarrow> None)"

definition list_keys ::
  "provisioning_session \<Rightarrow> string option \<Rightarrow> key_tables \<Rightarrow> key_fault + listed_key list" where
  "list_keys s scope T =
     (case assert_may_manage_api_keys (ceiling_session.truncate s) of
        Some f \<Rightarrow> Inl f
      | None \<Rightarrow>
          Inr (sort_key (\<lambda>k. - lk_created k)
            (List.map_filter (joined (ps_tenant s) T)
              (filter (\<lambda>(_, row). ak_tenant row = ps_tenant s \<and>
                  (case scope of None \<Rightarrow> True | Some i \<Rightarrow> ak_integration row = i)) (kt_keys T)))))"

definition get_key :: "provisioning_session \<Rightarrow> string \<Rightarrow> string \<Rightarrow> key_tables \<Rightarrow> key_fault + listed_key" where
  "get_key s kid i T =
     (case assert_may_manage_api_keys (ceiling_session.truncate s) of
        Some f \<Rightarrow> Inl f
      | None \<Rightarrow>
          (case key_at T kid of
             Some row \<Rightarrow>
               (if ak_tenant row = ps_tenant s \<and> ak_integration row = i
                then case joined (ps_tenant s) T (kid, row) of Some k \<Rightarrow> Inr k | None \<Rightarrow> Inl NoSuchKey
                else Inl NoSuchKey)
           | None \<Rightarrow> Inl NoSuchKey))"

record listed_integration =
  li_id :: string
  li_name :: string
  li_status :: integration_status
  li_roles :: "string list"
  li_created :: int
  li_updated :: int
  li_keys :: nat
  li_active :: nat

definition granted_roles_of :: "jsval \<Rightarrow> string list" where
  "granted_roles_of v =
     (case v of VArr _ vs \<Rightarrow> concat (map (\<lambda>x. case x of VStr s \<Rightarrow> [s] | _ \<Rightarrow> []) vs) | _ \<Rightarrow> [])"

definition get_integration :: "int \<Rightarrow> provisioning_session \<Rightarrow> string \<Rightarrow> key_tables \<Rightarrow> key_fault + listed_integration" where
  "get_integration now s i T =
     (case assert_may_manage_api_keys (ceiling_session.truncate s) of
        Some f \<Rightarrow> Inl f
      | None \<Rightarrow>
          (case lock_integration (ps_tenant s) i T of
             None \<Rightarrow> Inl NoSuchIntegration
           | Some ig \<Rightarrow>
               (let rows = filter (\<lambda>(_, row). ak_integration row = i \<and> ak_tenant row = ig_tenant ig) (kt_keys T)
                in Inr \<lparr>li_id = i, li_name = ig_name ig, li_status = ig_status ig, li_roles = granted_roles_of (ig_granted ig),
                        li_created = ig_created ig, li_updated = ig_updated ig, li_keys = length rows,
                        li_active = length (filter (\<lambda>(_, row). credential_status now row = KeyActive) rows)\<rparr>)))"

section \<open>Reconciling with the realm\<close>

definition pending_grace_ms :: int where "pending_grace_ms = 15 * 60 * 1000"

text \<open>
  How the realm answers for one row: whether its client exists (\<open>None\<close>: the call fails), whether
  deleting succeeds, and the secret of a rebuilt client.
\<close>

record realm_answers =
  ra_exists :: "bool option"
  ra_deletes :: bool
  ra_rebuilt :: "string option"

datatype reconciled = Untouched | SweptPending | SweptAbandoned | Rebuilt | NeedsAHuman

definition to_reconcile :: "key_tables \<Rightarrow> (string \<times> integration) list" where
  "to_reconcile T =
     sort_key (\<lambda>(_, ig). ig_created ig)
       (filter (\<lambda>(_, ig). ig_status ig = IPending \<or> ig_status ig = IActive \<or> ig_secret ig = None) (kt_integrations T))"

definition update_integration :: "string \<Rightarrow> (integration \<Rightarrow> integration) \<Rightarrow> key_tables \<Rightarrow> key_tables" where
  "update_integration i f T = (case integration_at T i of None \<Rightarrow> T | Some ig \<Rightarrow> set_integration i (f ig) T)"

definition sweep_stalled :: "int \<Rightarrow> bool \<Rightarrow> string \<Rightarrow> key_tables \<Rightarrow> reconciled \<times> key_tables" where
  "sweep_stalled clock deletes i T =
     (if deletes then (SweptPending, update_integration i (\<lambda>ig. ig\<lparr>ig_status := IDisabled, ig_updated := clock\<rparr>) T)
      else (NeedsAHuman, T))"

definition rebuild ::
  "(string \<Rightarrow> string \<Rightarrow> string) \<Rightarrow> int \<Rightarrow> string option \<Rightarrow> string \<Rightarrow> key_tables \<Rightarrow> reconciled \<times> key_tables" where
  "rebuild enc now rebuilt i T =
     (case rebuilt of
        None \<Rightarrow> (NeedsAHuman, T)
      | Some client_secret \<Rightarrow>
          (Rebuilt, update_integration i (\<lambda>ig. ig\<lparr>ig_secret := Some (enc i client_secret), ig_updated := now\<rparr>) T))"

text \<open>One row, as it was read; the tables may have changed since.\<close>

definition reconcile_row ::
  "(string \<Rightarrow> string \<Rightarrow> string) \<Rightarrow> int \<Rightarrow> int \<Rightarrow> realm_answers \<Rightarrow> string \<times> integration \<Rightarrow> key_tables \<Rightarrow> reconciled \<times> key_tables" where
  "reconcile_row enc clock now ra row T =
     (let i = fst row; ig = snd row
      in if ig_status ig = IPending
         then if now - ig_created ig < pending_grace_ms then (Untouched, T) else sweep_stalled clock (ra_deletes ra) i T
         else if ig_secret ig = None
         then if ig_status ig = IActive then (NeedsAHuman, T)
              else (case ra_exists ra of
                      None \<Rightarrow> (NeedsAHuman, T)
                    | Some False \<Rightarrow> (Untouched, T)
                    | Some True \<Rightarrow> (if ra_deletes ra then SweptAbandoned else NeedsAHuman, T))
         else (case ra_exists ra of
                 None \<Rightarrow> (NeedsAHuman, T)
               | Some True \<Rightarrow> (Untouched, T)
               | Some False \<Rightarrow> rebuild enc now (ra_rebuilt ra) i T))"

fun reconcile_rows ::
  "(string \<Rightarrow> string \<Rightarrow> string) \<Rightarrow> int \<Rightarrow> int \<Rightarrow> (string \<Rightarrow> realm_answers) \<Rightarrow> (string \<times> integration) list \<Rightarrow> key_tables \<Rightarrow>
   (string \<times> reconciled) list \<times> key_tables" where
  "reconcile_rows enc clock now ra [] T = ([], T)"
| "reconcile_rows enc clock now ra (row # rows) T =
     (case reconcile_row enc clock now (ra (fst row)) row T of
        (r, T1) \<Rightarrow>
          (case reconcile_rows enc clock now ra rows T1 of
             (rs, T2) \<Rightarrow> ((if r = Untouched then rs else (fst row, r) # rs), T2)))"

definition reconcile_integrations ::
  "(string \<Rightarrow> string \<Rightarrow> string) \<Rightarrow> int \<Rightarrow> int \<Rightarrow> (string \<Rightarrow> realm_answers) \<Rightarrow> key_tables \<Rightarrow>
   (string \<times> reconciled) list \<times> key_tables" where
  "reconcile_integrations enc clock now ra T = reconcile_rows enc clock now ra (to_reconcile T) T"

end
