(* ===== verification/Api_Key_Runs.thy ===== *)
theory Api_Key_Runs
  imports Api_Keys
begin

text \<open>
  Runs of the provisioning service: any number of sessions create, issue, revoke and disable, each
  creation in the transactions it is made of, while the reconciler works on rows it read earlier.  What holds
  in every state such a run reaches.
\<close>

section \<open>Steps\<close>

datatype key_event =
    Began string
  | Minted string provisioning_session
  | RevokedKey string
  | DisabledBy string
  | SweptAttempt string
  | LostRow key_attempt

record key_run =
  kr_events :: "key_event list"
  kr_attempts :: "key_attempt list"
  kr_read :: "(string \<times> integration) list"
  kr_tables :: key_tables

definition start_run :: key_run where
  "start_run = \<lparr>kr_events = [], kr_attempts = [], kr_read = [], kr_tables = no_keys\<rparr>"

inductive key_step :: "(string \<Rightarrow> string \<Rightarrow> string) \<Rightarrow> key_run \<Rightarrow> key_run \<Rightarrow> bool" for enc where
  ks_begin: "begin_attempt aud policy now i s inp (kr_tables r) = (Inr a, T') \<Longrightarrow>
    key_step enc r (r\<lparr>kr_events := Began i # kr_events r, kr_attempts := a # kr_attempts r, kr_tables := T'\<rparr>)"
| ks_activate: "a \<in> set (kr_attempts r) \<Longrightarrow>
    activate_attempt enc now kid minted client_secret a (kr_tables r) = (res, T') \<Longrightarrow>
    key_step enc r (r\<lparr>kr_events := (if attempt_row_missing a (kr_tables r) then [LostRow a] else []) @
        (case res of Inl _ \<Rightarrow> [] | Inr _ \<Rightarrow> [Minted kid (at_session a)]) @ kr_events r,
      kr_attempts := remove1 a (kr_attempts r), kr_tables := T'\<rparr>)"
| ks_abandon: "LostRow a \<in> set (kr_events r) \<Longrightarrow>
    key_step enc r (r\<lparr>kr_tables := record_abandoned now a (kr_tables r)\<rparr>)"
| ks_give_up: "key_step enc r (r\<lparr>kr_attempts := remove1 a (kr_attempts r)\<rparr>)"
| ks_issue: "issue_key policy now kid minted s inp (kr_tables r) = (Inr c, T') \<Longrightarrow>
    key_step enc r (r\<lparr>kr_events := Minted kid s # kr_events r, kr_tables := T'\<rparr>)"
| ks_revoke: "revoke_key now s kid (kr_tables r) = (Inr t, T') \<Longrightarrow>
    key_step enc r (r\<lparr>kr_events := RevokedKey kid # kr_events r, kr_tables := T'\<rparr>)"
| ks_disable: "disable_integration now s i (kr_tables r) = (Inr n, T') \<Longrightarrow>
    key_step enc r (r\<lparr>kr_events := DisabledBy i # kr_events r, kr_tables := T'\<rparr>)"
| ks_read: "key_step enc r (r\<lparr>kr_read := to_reconcile (kr_tables r) @ kr_read r\<rparr>)"
| ks_row: "row \<in> set (kr_read r) \<Longrightarrow> reconcile_row enc clock now ra row (kr_tables r) = (what, T') \<Longrightarrow>
    key_step enc r (r\<lparr>kr_events := (if what = SweptPending then [SweptAttempt (fst row)] else []) @ kr_events r, kr_tables := T'\<rparr>)"
| ks_use: "key_step enc r (r\<lparr>kr_tables := record_use now locked tenant kid (kr_tables r)\<rparr>)"

section \<open>Invariant\<close>

text \<open>The roles a key stands for: its subset, or all its integration was granted.\<close>

definition key_roles :: "api_key \<Rightarrow> integration \<Rightarrow> string list" where
  "key_roles row ig =
     (case parse_role_subset (ak_subset row) of
        Some rs \<Rightarrow> rs
      | None \<Rightarrow> case parse_role_subset (ig_granted ig) of None \<Rightarrow> [] | Some rs \<Rightarrow> rs)"

lemma key_roles_granted: "ig_granted ig' = ig_granted ig \<Longrightarrow> key_roles row ig' = key_roles row ig"
  unfolding key_roles_def by (rule arg_cong)

definition key_ok :: "key_event list \<Rightarrow> (string \<Rightarrow> integration option) \<Rightarrow> string \<Rightarrow> api_key \<Rightarrow> bool" where
  "key_ok es I k row =
     (\<exists>ig s. I (ak_integration row) = Some ig \<and> ig_tenant ig = ak_tenant row \<and> ig_status ig \<noteq> IPending \<and>
        (ak_revoked row = None \<longrightarrow> ig_status ig = IActive \<or> SweptAttempt (ak_integration row) \<in> set es) \<and>
        Minted k s \<in> set es \<and> assert_may_grant_roles (ceiling_session.truncate s) (key_roles row ig) = None)"

definition disabled_ok :: "(string \<Rightarrow> integration option) \<Rightarrow> (string \<Rightarrow> api_key option) \<Rightarrow> string \<Rightarrow> bool" where
  "disabled_ok I K i =
     ((\<exists>ig. I i = Some ig \<and> ig_status ig = IDisabled) \<and>
      (\<forall>k row. K k = Some row \<longrightarrow> ak_integration row = i \<longrightarrow> ak_revoked row \<noteq> None))"

definition attempt_ok :: "(string \<Rightarrow> integration option) \<Rightarrow> key_attempt \<Rightarrow> bool" where
  "attempt_ok I a =
     ((\<exists>ig. I (at_integration a) = Some ig \<and> ig_granted ig = strings_value (at_roles a) \<and>
         ig_tenant ig = ps_tenant (at_session a)) \<and>
      assert_may_grant_roles (ceiling_session.truncate (at_session a))
        (at_roles a @ (case at_subset a of None \<Rightarrow> [] | Some rs \<Rightarrow> rs)) = None \<and>
      (\<forall>rs. at_subset a = Some rs \<longrightarrow> rs \<noteq> [] \<and> (\<forall>r \<in> set rs. js_trim r \<noteq> [])))"

definition provisioned_ok ::
  "key_event list \<Rightarrow> key_attempt list \<Rightarrow> (string \<Rightarrow> integration option) \<Rightarrow> (string \<Rightarrow> api_key option) \<Rightarrow> bool" where
  "provisioned_ok es ats I K =
     ((\<forall>k row. K k = Some row \<longrightarrow> key_ok es I k row) \<and>
      (\<forall>i. DisabledBy i \<in> set es \<longrightarrow> disabled_ok I K i) \<and>
      (\<forall>k. RevokedKey k \<in> set es \<longrightarrow> (\<exists>row. K k = Some row \<and> ak_revoked row \<noteq> None)) \<and>
      (\<forall>a \<in> set ats. attempt_ok I a))"

text \<open>No transaction of the service removes a row, so an activation always finds the row of its attempt.\<close>

definition key_run_ok :: "key_run \<Rightarrow> bool" where
  "key_run_ok r =
     (provisioned_ok (kr_events r) (kr_attempts r) (integration_at (kr_tables r)) (key_at (kr_tables r)) \<and>
      (\<forall>a. LostRow a \<notin> set (kr_events r)))"

section \<open>Lookups after an update\<close>

lemma at_set [simp]:
  "integration_at (set_integration i ig T) = (integration_at T)(i \<mapsto> ig)"
  "key_at (set_integration i ig T) = key_at T"
  "key_at (set_key k row T) = (key_at T)(k \<mapsto> row)"
  "integration_at (set_key k row T) = integration_at T"
  by (simp_all add: integration_at_def key_at_def set_integration_def set_key_def map_of_massoc_set)

lemma lock_integration_Some:
  "lock_integration tenant i T = Some ig \<longleftrightarrow> integration_at T i = Some ig \<and> ig_tenant ig = tenant"
  by (auto simp: lock_integration_def split: option.splits)

lemma insert_key_row_Inr:
  assumes "insert_key_row now n T = Inr T'"
  shows "key_at T (nk_id n) = None \<and> integration_at T' = integration_at T \<and>
     (\<exists>row. key_at T' = (key_at T)(nk_id n \<mapsto> row) \<and> ak_integration row = nk_integration n \<and> ak_tenant row = nk_tenant n \<and>
        ak_revoked row = None \<and> ak_subset row = stored_subset (nk_subset n))"
  using assms by (auto simp: insert_key_row_def split: if_splits)

section \<open>What each kind of update keeps\<close>

lemma key_okI:
  "I (ak_integration row) = Some ig \<Longrightarrow> ig_tenant ig = ak_tenant row \<Longrightarrow> ig_status ig \<noteq> IPending \<Longrightarrow>
   (ak_revoked row = None \<Longrightarrow> ig_status ig = IActive \<or> SweptAttempt (ak_integration row) \<in> set es) \<Longrightarrow>
   Minted k s \<in> set es \<Longrightarrow> assert_may_grant_roles (ceiling_session.truncate s) (key_roles row ig) = None \<Longrightarrow>
   key_ok es I k row"
  unfolding key_ok_def by (intro exI [of _ ig] exI [of _ s]) simp

lemma key_okE:
  assumes "key_ok es I k row"
  obtains ig s where "I (ak_integration row) = Some ig" "ig_tenant ig = ak_tenant row" "ig_status ig \<noteq> IPending"
    "ak_revoked row = None \<Longrightarrow> ig_status ig = IActive \<or> SweptAttempt (ak_integration row) \<in> set es"
    "Minted k s \<in> set es" "assert_may_grant_roles (ceiling_session.truncate s) (key_roles row ig) = None"
  using assms unfolding key_ok_def by (elim exE conjE) simp

lemma key_ok_more:
  assumes "key_ok es I k row" and "set es \<subseteq> set es'"
  shows "key_ok es' I k row"
  using assms(1)
proof (rule key_okE)
  fix ig s
  assume a: "I (ak_integration row) = Some ig" "ig_tenant ig = ak_tenant row" "ig_status ig \<noteq> IPending"
    "ak_revoked row = None \<Longrightarrow> ig_status ig = IActive \<or> SweptAttempt (ak_integration row) \<in> set es"
    "Minted k s \<in> set es" "assert_may_grant_roles (ceiling_session.truncate s) (key_roles row ig) = None"
  show ?thesis using a(4,5) assms(2) by (intro key_okI [where ig = ig and s = s] a(1-3,6)) auto
qed

lemma provisioned_okD:
  "provisioned_ok es ats I K \<Longrightarrow> K k = Some row \<Longrightarrow> key_ok es I k row"
  "provisioned_ok es ats I K \<Longrightarrow> DisabledBy i \<in> set es \<Longrightarrow> disabled_ok I K i"
  "provisioned_ok es ats I K \<Longrightarrow> RevokedKey k \<in> set es \<Longrightarrow> \<exists>row. K k = Some row \<and> ak_revoked row \<noteq> None"
  "provisioned_ok es ats I K \<Longrightarrow> a \<in> set ats \<Longrightarrow> attempt_ok I a"
  unfolding provisioned_ok_def by blast+

lemma provisioned_okI:
  assumes "\<And>k row. K k = Some row \<Longrightarrow> key_ok es I k row" "\<And>i. DisabledBy i \<in> set es \<Longrightarrow> disabled_ok I K i"
    "\<And>k. RevokedKey k \<in> set es \<Longrightarrow> \<exists>row. K k = Some row \<and> ak_revoked row \<noteq> None"
    "\<And>a. a \<in> set ats \<Longrightarrow> attempt_ok I a"
  shows "provisioned_ok es ats I K"
  unfolding provisioned_ok_def using assms by blast

lemma provisioned_ok_event:
  assumes ok: "provisioned_ok es ats I K" and "\<And>i. e \<noteq> DisabledBy i" and "\<And>k. e \<noteq> RevokedKey k"
  shows "provisioned_ok (e # es) ats I K"
proof (rule provisioned_okI)
  show "key_ok (e # es) I k row" if "K k = Some row" for k row
    using provisioned_okD(1) [OF ok that] by (rule key_ok_more) auto
  show "disabled_ok I K i" if "DisabledBy i \<in> set (e # es)" for i
    using that assms(2) [of i] by (intro provisioned_okD(2) [OF ok]) auto
  show "\<exists>row. K k = Some row \<and> ak_revoked row \<noteq> None" if "RevokedKey k \<in> set (e # es)" for k
    using that assms(3) [of k] by (intro provisioned_okD(3) [OF ok]) auto
qed (rule provisioned_okD(4) [OF ok])

lemma provisioned_ok_fewer: "provisioned_ok es ats I K \<Longrightarrow> set ats' \<subseteq> set ats \<Longrightarrow> provisioned_ok es ats' I K"
  unfolding provisioned_ok_def by blast

lemma provisioned_ok_new_integration:
  assumes ok: "provisioned_ok es ats I K" and new: "I i = None" and a: "attempt_ok (I(i \<mapsto> ig)) a"
  shows "provisioned_ok es (a # ats) (I(i \<mapsto> ig)) K"
proof -
  have "key_ok es (I(i \<mapsto> ig)) k row" if "key_ok es I k row" for k row
    using that new by (auto simp: key_ok_def)
  moreover have "disabled_ok (I(i \<mapsto> ig)) K j" if "disabled_ok I K j" for j
    using that new by (auto simp: disabled_ok_def)
  moreover have "attempt_ok (I(i \<mapsto> ig)) b" if "attempt_ok I b" for b
    using that new by (auto simp: attempt_ok_def)
  ultimately show ?thesis using ok a by (simp add: provisioned_ok_def)
qed

text \<open>An integration goes from pending to active, or is swept; its tenant and roles stay.\<close>

definition moves :: "key_event list \<Rightarrow> string \<Rightarrow> integration \<Rightarrow> integration \<Rightarrow> bool" where
  "moves es i ig ig' =
     (ig_tenant ig' = ig_tenant ig \<and> ig_granted ig' = ig_granted ig \<and>
      (ig_status ig' = ig_status ig \<or> ig_status ig = IPending \<and> ig_status ig' = IActive \<or>
       ig_status ig' = IDisabled \<and> SweptAttempt i \<in> set es))"

lemma provisioned_ok_integration:
  assumes ok: "provisioned_ok es ats I K" and i: "I i = Some ig" and m: "moves es i ig ig'"
  shows "provisioned_ok es ats (I(i \<mapsto> ig')) K"
proof -
  have "key_ok es (I(i \<mapsto> ig')) k row" if "key_ok es I k row" for k row
  proof (rule key_okE [OF that])
    fix ig0 s
    assume a: "I (ak_integration row) = Some ig0" "ig_tenant ig0 = ak_tenant row" "ig_status ig0 \<noteq> IPending"
      "ak_revoked row = None \<Longrightarrow> ig_status ig0 = IActive \<or> SweptAttempt (ak_integration row) \<in> set es"
      "Minted k s \<in> set es" "assert_may_grant_roles (ceiling_session.truncate s) (key_roles row ig0) = None"
    show ?thesis
    proof (cases "ak_integration row = i")
      case True
      then have "ig0 = ig" using a(1) i by simp
      moreover have "key_roles row ig' = key_roles row ig" using m by (intro key_roles_granted) (simp add: moves_def)
      ultimately show ?thesis using a m True
        by (intro key_okI [where ig = ig' and s = s]) (auto simp: moves_def)
    next
      case False
      then show ?thesis using a by (intro key_okI [where ig = ig0 and s = s]) auto
    qed
  qed
  moreover have "disabled_ok (I(i \<mapsto> ig')) K j" if "disabled_ok I K j" for j
    using that i m by (cases "j = i") (auto simp: disabled_ok_def moves_def)
  moreover have "attempt_ok (I(i \<mapsto> ig')) b" if "attempt_ok I b" for b
    using that i m by (auto simp: attempt_ok_def moves_def)
  ultimately show ?thesis using ok by (simp add: provisioned_ok_def)
qed

lemma provisioned_ok_new_key:
  assumes ok: "provisioned_ok es ats I K" and new: "K k = None" and key: "key_ok (Minted k s # es) I k row"
    and i: "I (ak_integration row) = Some ig" "ig_status ig = IActive"
  shows "provisioned_ok (Minted k s # es) ats I (K(k \<mapsto> row))"
proof -
  have "key_ok (Minted k s # es) I k' row'" if "K k' = Some row'" for k' row'
    using that ok key_ok_more [of es I k' row' "Minted k s # es"] by (auto simp: provisioned_ok_def)
  moreover have "disabled_ok I (K(k \<mapsto> row)) j" if "disabled_ok I K j" for j
    using that i by (auto simp: disabled_ok_def)
  moreover have "RevokedKey k' \<notin> set es" if "K k' = None" for k' using ok that by (auto simp: provisioned_ok_def)
  ultimately show ?thesis using ok key new by (auto simp: provisioned_ok_def)
qed

lemma provisioned_ok_key:
  assumes ok: "provisioned_ok es ats I K" and k: "K k = Some row"
    and row: "ak_integration row' = ak_integration row" "ak_tenant row' = ak_tenant row" "ak_subset row' = ak_subset row"
      "ak_revoked row \<noteq> None \<Longrightarrow> ak_revoked row' \<noteq> None"
  shows "provisioned_ok es ats I (K(k \<mapsto> row'))"
proof -
  have r: "key_roles row' ig = key_roles row ig" for ig by (simp add: key_roles_def row)
  have "key_ok es I k row'"
  proof -
    have "key_ok es I k row" using ok k by (simp add: provisioned_ok_def)
    then show ?thesis
    proof (rule key_okE)
      fix ig s
      assume a: "I (ak_integration row) = Some ig" "ig_tenant ig = ak_tenant row" "ig_status ig \<noteq> IPending"
        "ak_revoked row = None \<Longrightarrow> ig_status ig = IActive \<or> SweptAttempt (ak_integration row) \<in> set es"
        "Minted k s \<in> set es" "assert_may_grant_roles (ceiling_session.truncate s) (key_roles row ig) = None"
      show ?thesis using a row by (intro key_okI [where ig = ig and s = s]) (auto simp: r)
    qed
  qed
  moreover have "disabled_ok I (K(k \<mapsto> row')) j" if "disabled_ok I K j" for j
    using that k row by (auto simp: disabled_ok_def)
  ultimately show ?thesis using ok k row(4) by (auto simp: provisioned_ok_def)
qed

section \<open>What each step keeps\<close>

lemma check_none_Inr [simp]: "check_none f = Inr u \<longleftrightarrow> f = None"
  by (simp add: check_none_def split: option.splits)

lemma js_trim_Nil: "js_trim s = [] \<Longrightarrow> \<forall>c \<in> set s. is_space c"
proof -
  assume "js_trim s = []"
  then have all: "\<forall>c \<in> set (dropWhile is_space s). is_space c" by (simp add: js_trim_def dropWhile_eq_Nil_conv)
  have "dropWhile is_space s = []"
  proof (rule ccontr)
    assume n: "dropWhile is_space s \<noteq> []"
    from hd_dropWhile [OF n] all hd_in_set [OF n] show False by blast
  qed
  then show ?thesis by (simp add: dropWhile_eq_Nil_conv)
qed

lemma js_trim_again: "js_trim s \<noteq> [] \<Longrightarrow> js_trim (js_trim s) \<noteq> []"
proof
  let ?t = "dropWhile is_space (rev (dropWhile is_space s))"
  assume t: "js_trim s \<noteq> []" and e: "js_trim (js_trim s) = []"
  have s: "js_trim s = rev ?t" by (simp only: js_trim_def)
  from js_trim_Nil [OF e] have "\<forall>c \<in> set ?t. is_space c" unfolding s set_rev .
  moreover have n: "?t \<noteq> []" using t unfolding s by simp
  ultimately show False using hd_dropWhile [OF n] hd_in_set [OF n] by blast
qed

lemma narrowed_subset:
  "role_subset_or_throw narrowed = Inr (Some rs) \<Longrightarrow> rs \<noteq> [] \<and> (\<forall>r \<in> set rs. js_trim r \<noteq> [])"
  by (auto simp: role_subset_or_throw_def Let_def js_trim_again split: option.splits if_splits)

lemma parse_stored_roles:
  "parse_role_subset (strings_value rs) = (let roles = filter (\<lambda>r. js_trim r \<noteq> []) rs in if roles = [] then None else Some roles)"
proof -
  have e: "concat (map (\<lambda>x. case x of VStr s \<Rightarrow> if js_trim s \<noteq> [] then [s] else [] | _ \<Rightarrow> []) (map VStr rs)) =
      filter (\<lambda>r. js_trim r \<noteq> []) rs" by (induction rs) simp_all
  show ?thesis unfolding parse_role_subset_def strings_value_def jsval.case e ..
qed

lemma stored_key_roles:
  assumes "ak_subset row = stored_subset narrowed" and "\<And>rs. narrowed = Some rs \<Longrightarrow> rs \<noteq> [] \<and> (\<forall>r \<in> set rs. js_trim r \<noteq> [])"
  shows "key_roles row ig = (case narrowed of Some rs \<Rightarrow> rs
     | None \<Rightarrow> case parse_role_subset (ig_granted ig) of None \<Rightarrow> [] | Some rs \<Rightarrow> rs)"
proof (cases narrowed)
  case None
  then show ?thesis using assms(1) by (simp add: key_roles_def stored_subset_def parse_role_subset_def)
next
  case (Some rs)
  then have "filter (\<lambda>r. js_trim r \<noteq> []) rs = rs" "rs \<noteq> []" using assms(2) by (simp_all add: filter_id_conv)
  then show ?thesis using assms(1) Some by (simp add: key_roles_def stored_subset_def parse_stored_roles Let_def)
qed

lemma plan_attempt_Inr:
  assumes "plan_attempt aud policy now i s inp = Inr a"
  shows "at_integration a = i \<and> at_session a = s \<and>
     assert_may_grant_roles (ceiling_session.truncate s) (at_roles a @ (case at_subset a of None \<Rightarrow> [] | Some rs \<Rightarrow> rs)) = None \<and>
     (\<forall>rs. at_subset a = Some rs \<longrightarrow> rs \<noteq> [] \<and> (\<forall>r \<in> set rs. js_trim r \<noteq> []))"
  using assms narrowed_subset [of "ci_subset inp"] by (auto simp: plan_attempt_def rbind_Inr_iff)

lemma begin_attempt_ok:
  assumes ok: "provisioned_ok es ats (integration_at T) (key_at T)" and b: "begin_attempt aud policy now i s inp T = (Inr a, T')"
  shows "provisioned_ok (Began i # es) (a # ats) (integration_at T') (key_at T')"
proof -
  have p: "plan_attempt aud policy now i s inp = Inr a" "integration_at T i = None"
    "T' = set_integration i (pending_integration now a IPending) T"
    using b by (auto simp: begin_attempt_def split: sum.splits if_splits)
  have "attempt_ok ((integration_at T)(i \<mapsto> pending_integration now a IPending)) a"
    using plan_attempt_Inr [OF p(1)] by (simp add: attempt_ok_def pending_integration_def)
  from provisioned_ok_new_integration [OF ok p(2) this] show ?thesis by (simp add: p(3) provisioned_ok_event)
qed

lemma grants_fewer:
  "assert_may_grant_roles s xs = None \<Longrightarrow> set ys \<subseteq> set xs \<Longrightarrow> assert_may_grant_roles s ys = None"
  unfolding grant_accepted_iff by blast

lemma activate_attempt_ok:
  assumes ok: "provisioned_ok es ats (integration_at T) (key_at T)" and a: "a \<in> set ats"
    and act: "activate_attempt enc now kid minted client_secret a T = (res, T')"
  shows "\<not> attempt_row_missing a T" "provisioned_ok ((case res of Inl _ \<Rightarrow> [] | Inr _ \<Rightarrow> [Minted kid (at_session a)]) @ es) (remove1 a ats) (integration_at T') (key_at T')"
proof -
  let ?i = "at_integration a" and ?s = "at_session a"
  have at_ok: "attempt_ok (integration_at T) a" using provisioned_okD(4) [OF ok a] .
  then obtain ig where ig: "integration_at T ?i = Some ig" "ig_granted ig = strings_value (at_roles a)" "ig_tenant ig = ps_tenant ?s"
    unfolding attempt_ok_def by blast
  then have lock: "lock_integration (ps_tenant ?s) ?i T = Some ig" by (simp add: lock_integration_Some)
  let ?ig = "ig\<lparr>ig_status := IActive, ig_secret := Some (enc ?i client_secret), ig_updated := now\<rparr>"
  let ?T1 = "set_integration ?i ?ig T"
  let ?n = "\<lparr>nk_id = kid, nk_tenant = ps_tenant ?s, nk_integration = ?i, nk_minted = minted,
    nk_name = at_name a, nk_subset = at_subset a, nk_expires = at_expires a, nk_creator = ps_user ?s\<rparr>"
  have fewer: "provisioned_ok es' (remove1 a ats) I K" if "provisioned_ok es' ats I K" for es' I K
    using that by (rule provisioned_ok_fewer) (rule set_remove1_subset)
  show "\<not> attempt_row_missing a T" by (simp add: attempt_row_missing_def lock)
  show "provisioned_ok ((case res of Inl _ \<Rightarrow> [] | Inr _ \<Rightarrow> [Minted kid (at_session a)]) @ es) (remove1 a ats) (integration_at T') (key_at T')"
  proof (cases res)
    case (Inl f)
    then have "T' = T" using act by (auto simp: activate_attempt_def Let_def lock split: if_splits sum.splits)
    then show ?thesis using Inl fewer [OF ok] by simp
  next
    case (Inr c)
    then have act': "ig_status ig = IPending" "insert_key_row now ?n ?T1 = Inr T'"
      using act by (auto simp: activate_attempt_def Let_def lock split: if_splits sum.splits)
    from insert_key_row_Inr [OF act'(2)] obtain row where row: "key_at T kid = None"
      "integration_at T' = (integration_at T)(?i \<mapsto> ?ig)" "key_at T' = (key_at T)(kid \<mapsto> row)"
      "ak_integration row = ?i" "ak_tenant row = ps_tenant ?s" "ak_revoked row = None" "ak_subset row = stored_subset (at_subset a)"
      by auto
    have ok1: "provisioned_ok es ats ((integration_at T)(?i \<mapsto> ?ig)) (key_at T)"
      using provisioned_ok_integration [OF ok ig(1), of ?ig] act'(1) by (simp add: moves_def)
    have roles: "key_roles row ?ig = (case at_subset a of Some rs \<Rightarrow> rs
        | None \<Rightarrow> case parse_role_subset (strings_value (at_roles a)) of None \<Rightarrow> [] | Some rs \<Rightarrow> rs)"
    proof -
      have "ig_granted ?ig = strings_value (at_roles a)" using ig(2) by simp
      moreover have "\<And>rs. at_subset a = Some rs \<Longrightarrow> rs \<noteq> [] \<and> (\<forall>r \<in> set rs. js_trim r \<noteq> [])"
        using at_ok by (simp add: attempt_ok_def)
      ultimately show ?thesis using stored_key_roles [OF row(7), of ?ig] by metis
    qed
    have "assert_may_grant_roles (ceiling_session.truncate ?s) (key_roles row ?ig) = None"
    proof (rule grants_fewer)
      show "assert_may_grant_roles (ceiling_session.truncate ?s) (at_roles a @ (case at_subset a of None \<Rightarrow> [] | Some rs \<Rightarrow> rs)) = None"
        using at_ok by (simp add: attempt_ok_def)
      show "set (key_roles row ?ig) \<subseteq> set (at_roles a @ (case at_subset a of None \<Rightarrow> [] | Some rs \<Rightarrow> rs))"
        unfolding roles by (cases "at_subset a") (auto simp: parse_stored_roles Let_def)
    qed
    then have "key_ok (Minted kid ?s # es) ((integration_at T)(?i \<mapsto> ?ig)) kid row"
      using row ig(3) by (intro key_okI [where ig = ?ig and s = ?s]) simp_all
    from provisioned_ok_new_key [OF ok1 row(1) this] row Inr fewer show ?thesis by simp
  qed
qed

text \<open>What an accepted issue found, and the row it inserts.\<close>

lemma issue_key_Inr:
  assumes c: "issue_key policy now kid minted s inp T = (Inr c, T')"
  shows "\<exists>narrowed expires ig. role_subset_or_throw (ii_subset inp) = Inr narrowed \<and>
    integration_at T (ii_integration inp) = Some ig \<and> ig_tenant ig = ps_tenant s \<and> ig_status ig = IActive \<and>
    assert_may_grant_roles (ceiling_session.truncate s) (case narrowed of Some rs \<Rightarrow> rs
       | None \<Rightarrow> case parse_role_subset (ig_granted ig) of None \<Rightarrow> [] | Some rs \<Rightarrow> rs) = None \<and>
    insert_key_row now \<lparr>nk_id = kid, nk_tenant = ps_tenant s, nk_integration = ii_integration inp, nk_minted = minted,
        nk_name = js_trim (ii_name inp), nk_subset = narrowed, nk_expires = expires, nk_creator = ps_user s\<rparr> T = Inr T'"
proof -
  let ?lock = "lock_integration (ps_tenant s) (ii_integration inp) T"
  have mg: "assert_may_manage_api_keys (ceiling_session.truncate s) = None"
    using c by (cases "assert_may_manage_api_keys (ceiling_session.truncate s)") (simp_all add: issue_key_def check_none_def)
  obtain narrowed expires where n: "role_subset_or_throw (ii_subset inp) = Inr narrowed" "credential_expiry (ii_days inp) policy now = Inr expires"
    using c by (cases "role_subset_or_throw (ii_subset inp)"; cases "credential_expiry (ii_days inp) policy now")
      (simp_all add: issue_key_def mg check_none_def)
  obtain ig where ig: "?lock = Some ig" "ig_status ig = IActive"
    using c by (cases ?lock) (auto simp: issue_key_def n mg check_none_def split: if_splits sum.splits)
  define roles where "roles = (case narrowed of Some rs \<Rightarrow> rs
       | None \<Rightarrow> case parse_role_subset (ig_granted ig) of None \<Rightarrow> [] | Some rs \<Rightarrow> rs)"
  have gr: "assert_may_grant_roles (ceiling_session.truncate s) roles = None"
    using c by (cases "assert_may_grant_roles (ceiling_session.truncate s) roles")
      (simp_all add: issue_key_def n mg ig check_none_def roles_def [symmetric])
  have "role_subset_or_throw (ii_subset inp) = Inr narrowed"
    "integration_at T (ii_integration inp) = Some ig" "ig_tenant ig = ps_tenant s" "ig_status ig = IActive"
    "assert_may_grant_roles (ceiling_session.truncate s) (case narrowed of Some rs \<Rightarrow> rs
       | None \<Rightarrow> case parse_role_subset (ig_granted ig) of None \<Rightarrow> [] | Some rs \<Rightarrow> rs) = None"
    "insert_key_row now \<lparr>nk_id = kid, nk_tenant = ps_tenant s, nk_integration = ii_integration inp, nk_minted = minted,
        nk_name = js_trim (ii_name inp), nk_subset = narrowed, nk_expires = expires, nk_creator = ps_user s\<rparr> T = Inr T'"
    using c n mg ig gr lock_integration_Some [of "ps_tenant s" "ii_integration inp" T ig]
    by (auto simp: issue_key_def check_none_def rbind_Inr_iff roles_def [symmetric] split: sum.splits)
  then show ?thesis by blast
qed

lemma issue_key_ok:
  assumes ok: "provisioned_ok es ats (integration_at T) (key_at T)" and c: "issue_key policy now kid minted s inp T = (Inr c, T')"
  shows "provisioned_ok (Minted kid s # es) ats (integration_at T') (key_at T')"
proof -
  obtain narrowed expires ig where x: "role_subset_or_throw (ii_subset inp) = Inr narrowed"
    "integration_at T (ii_integration inp) = Some ig" "ig_tenant ig = ps_tenant s" "ig_status ig = IActive"
    "assert_may_grant_roles (ceiling_session.truncate s) (case narrowed of Some rs \<Rightarrow> rs
       | None \<Rightarrow> case parse_role_subset (ig_granted ig) of None \<Rightarrow> [] | Some rs \<Rightarrow> rs) = None"
    "insert_key_row now \<lparr>nk_id = kid, nk_tenant = ps_tenant s, nk_integration = ii_integration inp, nk_minted = minted,
        nk_name = js_trim (ii_name inp), nk_subset = narrowed, nk_expires = expires, nk_creator = ps_user s\<rparr> T = Inr T'"
    using issue_key_Inr [OF c] by blast
  from insert_key_row_Inr [OF x(6)] obtain row where row: "key_at T kid = None"
    "integration_at T' = integration_at T" "key_at T' = (key_at T)(kid \<mapsto> row)"
    "ak_integration row = ii_integration inp" "ak_tenant row = ps_tenant s" "ak_revoked row = None" "ak_subset row = stored_subset narrowed"
    by auto
  have "key_roles row ig = (case narrowed of Some rs \<Rightarrow> rs
      | None \<Rightarrow> case parse_role_subset (ig_granted ig) of None \<Rightarrow> [] | Some rs \<Rightarrow> rs)"
    by (rule stored_key_roles [OF row(7)]) (use narrowed_subset x(1) in blast)
  then have "key_ok (Minted kid s # es) (integration_at T) kid row"
    using row x by (intro key_okI [where ig = ig and s = s]) simp_all
  from provisioned_ok_new_key [OF ok row(1) this] row x show ?thesis by simp
qed

lemma revoke_key_ok:
  assumes ok: "provisioned_ok es ats (integration_at T) (key_at T)" and c: "revoke_key now s kid T = (Inr t, T')"
  shows "provisioned_ok (RevokedKey kid # es) ats (integration_at T') (key_at T')"
proof -
  obtain row where row: "key_at T kid = Some row" "T' = set_key kid (row\<lparr>ak_revoked := Some t\<rparr>) T"
    using c by (auto simp: revoke_key_def Let_def split: option.splits if_splits)
  have ok': "provisioned_ok es ats (integration_at T) ((key_at T)(kid \<mapsto> row\<lparr>ak_revoked := Some t\<rparr>))"
    using provisioned_ok_key [OF ok row(1)] by simp
  show ?thesis unfolding row(2) at_set
  proof (rule provisioned_okI)
    show "key_ok (RevokedKey kid # es) (integration_at T) k r"
      if "((key_at T)(kid \<mapsto> row\<lparr>ak_revoked := Some t\<rparr>)) k = Some r" for k r
      using provisioned_okD(1) [OF ok' that] by (rule key_ok_more) auto
    show "disabled_ok (integration_at T) ((key_at T)(kid \<mapsto> row\<lparr>ak_revoked := Some t\<rparr>)) i"
      if "DisabledBy i \<in> set (RevokedKey kid # es)" for i
      using that by (intro provisioned_okD(2) [OF ok']) simp
    show "\<exists>r. ((key_at T)(kid \<mapsto> row\<lparr>ak_revoked := Some t\<rparr>)) k = Some r \<and> ak_revoked r \<noteq> None"
      if "RevokedKey k \<in> set (RevokedKey kid # es)" for k
      using that provisioned_okD(3) [OF ok', of k] by (cases "k = kid") auto
  qed (rule provisioned_okD(4) [OF ok'])
qed

lemma disable_integration_ok:
  assumes ok: "provisioned_ok es ats (integration_at T) (key_at T)" and c: "disable_integration now s i T = (Inr n, T')"
  shows "provisioned_ok (DisabledBy i # es) ats (integration_at T') (key_at T')"
proof -
  let ?f = "\<lambda>row. if stamped (ps_tenant s) i row then row\<lparr>ak_revoked := Some now\<rparr> else row"
  obtain ig where ig: "integration_at T i = Some ig" "ig_tenant ig = ps_tenant s"
    "T' = (set_integration i (ig\<lparr>ig_status := IDisabled, ig_updated := now\<rparr>) T)
       \<lparr>kt_keys := map (\<lambda>(k, row). (k, ?f row)) (kt_keys T)\<rparr>"
    using c by (auto simp: disable_integration_def lock_integration_Some split: option.splits if_splits)
  let ?ig = "ig\<lparr>ig_status := IDisabled, ig_updated := now\<rparr>"
  have I': "integration_at T' = (integration_at T)(i \<mapsto> ?ig)"
    by (simp add: ig(3) integration_at_def set_integration_def map_of_massoc_set)
  have K': "key_at T' k = map_option ?f (key_at T k)" for k
    by (simp add: ig(3) key_at_def map_of_map)
  have f: "ak_integration (?f row) = ak_integration row" "ak_tenant (?f row) = ak_tenant row" "ak_subset (?f row) = ak_subset row"
    "ak_revoked row \<noteq> None \<Longrightarrow> ak_revoked (?f row) \<noteq> None" for row by simp_all
  have gone: "ak_revoked (?f row) \<noteq> None" if "key_at T k = Some row" "ak_integration row = i" for k row
  proof -
    from provisioned_okD(1) [OF ok that(1)] have "ig_tenant ig = ak_tenant row"
      by (rule key_okE) (use that(2) ig(1) in simp)
    then show ?thesis using that(2) ig(2) by (simp add: stamped_def)
  qed
  show ?thesis unfolding I'
  proof (rule provisioned_okI)
    fix k r assume "key_at T' k = Some r"
    then obtain row where row: "key_at T k = Some row" "r = ?f row" unfolding K' by auto
    have roles: "key_roles (?f row) ig' = key_roles row ig'" for ig' by (simp add: key_roles_def f(3))
    from provisioned_okD(1) [OF ok row(1)] show "key_ok (DisabledBy i # es) ((integration_at T)(i \<mapsto> ?ig)) k r"
    proof (rule key_okE)
      fix ig0 m
      assume a: "integration_at T (ak_integration row) = Some ig0" "ig_tenant ig0 = ak_tenant row" "ig_status ig0 \<noteq> IPending"
        "ak_revoked row = None \<Longrightarrow> ig_status ig0 = IActive \<or> SweptAttempt (ak_integration row) \<in> set es"
        "Minted k m \<in> set es" "assert_may_grant_roles (ceiling_session.truncate m) (key_roles row ig0) = None"
      show ?thesis
      proof (cases "ak_integration row = i")
        case True
        then have "ig0 = ig" using a(1) ig(1) by simp
        moreover have "key_roles row ?ig = key_roles row ig" by (rule key_roles_granted) simp
        ultimately show ?thesis using a True gone [OF row(1) True] unfolding row(2)
          by (intro key_okI [where ig = ?ig and s = m]) (simp_all only: f roles, simp_all)
      next
        case False
        then show ?thesis using a f(4) [of row] unfolding row(2)
          by (intro key_okI [where ig = ig0 and s = m]) (simp_all only: f roles, auto)
      qed
    qed
  next
    fix j assume j: "DisabledBy j \<in> set (DisabledBy i # es)"
    show "disabled_ok ((integration_at T)(i \<mapsto> ?ig)) (key_at T') j"
    proof (cases "j = i")
      case True
      have "ak_revoked r \<noteq> None" if r: "key_at T' k = Some r" "ak_integration r = i" for k r
      proof -
        from r(1) obtain row where row: "key_at T k = Some row" "r = ?f row" unfolding K' by auto
        show ?thesis unfolding row(2) using row(1) r(2) f(1) [of row] unfolding row(2) by (intro gone [OF row(1)]) simp
      qed
      then show ?thesis using True by (auto simp: disabled_ok_def)
    next
      case False
      with j have "disabled_ok (integration_at T) (key_at T) j" using provisioned_okD(2) [OF ok, of j] by simp
      then show ?thesis using False f(1,4) unfolding disabled_ok_def K' by auto
    qed
  next
    fix k assume "RevokedKey k \<in> set (DisabledBy i # es)"
    then obtain row where "key_at T k = Some row" "ak_revoked row \<noteq> None" using provisioned_okD(3) [OF ok, of k] by auto
    then show "\<exists>r. key_at T' k = Some r \<and> ak_revoked r \<noteq> None" unfolding K' using f(4) by auto
  next
    fix a assume "a \<in> set ats"
    from provisioned_okD(4) [OF ok this] show "attempt_ok ((integration_at T)(i \<mapsto> ?ig)) a"
      using ig(1) by (auto simp: attempt_ok_def)
  qed
qed

lemma update_integration_ok:
  assumes ok: "provisioned_ok es ats (integration_at T) (key_at T)"
    and m: "\<And>ig. integration_at T i = Some ig \<Longrightarrow> moves es i ig (f ig)"
  shows "provisioned_ok es ats (integration_at (update_integration i f T)) (key_at (update_integration i f T))"
  using provisioned_ok_integration [OF ok _ m] ok by (cases "integration_at T i") (simp_all add: update_integration_def)

lemma reconcile_row_ok:
  assumes ok: "provisioned_ok es ats (integration_at T) (key_at T)" and r: "reconcile_row enc clock now ra row T = (what, T')"
  shows "provisioned_ok ((if what = SweptPending then [SweptAttempt (fst row)] else []) @ es) ats (integration_at T') (key_at T')"
proof -
  let ?i = "fst row"
  have "what \<noteq> SweptPending \<and> T' = T \<or>
    what = SweptPending \<and> T' = update_integration ?i (\<lambda>ig. ig\<lparr>ig_status := IDisabled, ig_updated := clock\<rparr>) T \<or>
    what = Rebuilt \<and> (\<exists>c. T' = update_integration ?i (\<lambda>ig. ig\<lparr>ig_secret := Some c, ig_updated := now\<rparr>) T)"
    using r by (auto simp: reconcile_row_def Let_def sweep_stalled_def rebuild_def split: if_splits option.splits bool.splits)
  then consider "what \<noteq> SweptPending" "T' = T"
    | "what = SweptPending" "T' = update_integration ?i (\<lambda>ig. ig\<lparr>ig_status := IDisabled, ig_updated := clock\<rparr>) T"
    | c where "what = Rebuilt" "T' = update_integration ?i (\<lambda>ig. ig\<lparr>ig_secret := Some c, ig_updated := now\<rparr>) T" by blast
  then show ?thesis
  proof cases
    case 2
    have "provisioned_ok (SweptAttempt ?i # es) ats (integration_at T) (key_at T)" using ok by (rule provisioned_ok_event) simp_all
    from update_integration_ok [OF this] 2 show ?thesis by (simp add: moves_def)
  next
    case 3
    then show ?thesis using update_integration_ok [OF ok] by (simp add: moves_def)
  qed (use ok in simp)
qed

lemma record_use_ok:
  assumes ok: "provisioned_ok es ats (integration_at T) (key_at T)"
  shows "provisioned_ok es ats (integration_at (record_use now locked tenant kid T)) (key_at (record_use now locked tenant kid T))"
proof (cases "record_use now locked tenant kid T = T")
  case False
  then obtain row where row: "key_at T kid = Some row" "record_use now locked tenant kid T =
      set_key kid (row\<lparr>ak_first_used := Some (case ak_first_used row of Some t \<Rightarrow> t | None \<Rightarrow> now), ak_last_used := Some now\<rparr>) T"
    by (auto simp: record_use_def split: option.splits if_splits)
  show ?thesis unfolding row(2) at_set by (rule provisioned_ok_key [OF ok row(1)]) simp_all
qed (use ok in simp)

lemma key_step_ok: "key_step enc r r' \<Longrightarrow> key_run_ok r \<Longrightarrow> key_run_ok r'"
  unfolding key_run_ok_def
proof (induction rule: key_step.induct)
  case (ks_begin aud policy now i s inp r a T')
  from begin_attempt_ok [OF conjunct1 [OF ks_begin(2)] ks_begin(1)] ks_begin(2) show ?case by simp
next
  case (ks_activate a r now kid minted client_secret res T')
  from activate_attempt_ok [OF conjunct1 [OF ks_activate(3)] ks_activate(1,2)] ks_activate(3) show ?case
    by (cases res) simp_all
next
  case (ks_abandon a r now)
  then show ?case by blast
next
  case (ks_give_up r a)
  have "set (remove1 a (kr_attempts r)) \<subseteq> set (kr_attempts r)" by (rule set_remove1_subset)
  from provisioned_ok_fewer [OF conjunct1 [OF ks_give_up] this] ks_give_up show ?case by simp
next
  case (ks_issue policy now kid minted s inp r c T')
  from issue_key_ok [OF conjunct1 [OF ks_issue(2)] ks_issue(1)] ks_issue(2) show ?case by simp
next
  case (ks_revoke now s kid r t T')
  from revoke_key_ok [OF conjunct1 [OF ks_revoke(2)] ks_revoke(1)] ks_revoke(2) show ?case by simp
next
  case (ks_disable now s i r n T')
  from disable_integration_ok [OF conjunct1 [OF ks_disable(2)] ks_disable(1)] ks_disable(2) show ?case by simp
next
  case (ks_read r)
  then show ?case by simp
next
  case (ks_row row r clock now ra what T')
  from reconcile_row_ok [OF conjunct1 [OF ks_row(3)] ks_row(2)] ks_row(3) show ?case by simp
next
  case (ks_use r now locked tenant kid)
  from record_use_ok [OF conjunct1 [OF ks_use]] ks_use show ?case by simp
qed

interpretation key_runs: kept_invariant start_run "key_step enc" key_run_ok for enc
proof
  show "key_run_ok start_run"
    by (simp add: key_run_ok_def start_run_def no_keys_def provisioned_ok_def integration_at_def key_at_def)
qed (rule key_step_ok)

section \<open>What runs promise\<close>

lemma run_reachable_ok: "reachable start_run (key_step enc) r \<Longrightarrow> key_run_ok r"
  by (rule key_runs.holds)

text \<open>A disabled integration, whoever disabled it, and the keys of an integration that are not revoked.\<close>

definition integration_disabled :: "string \<Rightarrow> key_tables \<Rightarrow> bool" where
  "integration_disabled i T = (\<exists>ig. integration_at T i = Some ig \<and> ig_status ig = IDisabled)"

definition live_keys :: "string \<Rightarrow> key_tables \<Rightarrow> string set" where
  "live_keys i T = {k. \<exists>row. key_at T k = Some row \<and> ak_integration row = i \<and> ak_revoked row = None}"

definition stays_disabled :: "string \<Rightarrow> key_tables \<Rightarrow> key_tables \<Rightarrow> bool" where
  "stays_disabled i T T' =
     (integration_disabled i T \<longrightarrow> integration_disabled i T' \<and> live_keys i T' \<subseteq> live_keys i T)"

lemma stays_disabled_refl [simp]: "stays_disabled i T T"
  by (simp add: stays_disabled_def)

lemma stays_disabled_trans: "stays_disabled i T T' \<Longrightarrow> stays_disabled i T' T'' \<Longrightarrow> stays_disabled i T T''"
  unfolding stays_disabled_def by blast

lemma disabled_locked:
  "integration_disabled i T \<Longrightarrow> lock_integration tenant i T = Some ig \<Longrightarrow> ig_status ig = IDisabled"
  by (auto simp: integration_disabled_def lock_integration_Some)

lemma stays_set_integration:
  "(k = i \<Longrightarrow> integration_disabled i T \<Longrightarrow> ig_status ig = IDisabled) \<Longrightarrow> stays_disabled i T (set_integration k ig T)"
  by (auto simp: stays_disabled_def integration_disabled_def live_keys_def)

lemma stays_insert_key:
  assumes "insert_key_row now n T = Inr T'" "integration_disabled i T \<Longrightarrow> nk_integration n \<noteq> i"
  shows "stays_disabled i T T'"
  using insert_key_row_Inr [OF assms(1)] assms(2)
  by (auto simp: stays_disabled_def integration_disabled_def live_keys_def split: if_splits)

lemma stays_set_key:
  assumes "key_at T k = Some row" "ak_integration row' = ak_integration row" "ak_revoked row' = None \<Longrightarrow> ak_revoked row = None"
  shows "stays_disabled i T (set_key k row' T)"
  using assms by (auto simp: stays_disabled_def integration_disabled_def live_keys_def split: if_splits)

lemma begin_attempt_stays: "begin_attempt aud policy now k s inp T = (res, T') \<Longrightarrow> stays_disabled i T T'"
  by (auto simp: begin_attempt_def integration_disabled_def intro!: stays_set_integration split: sum.splits if_splits)

lemma activate_attempt_stays:
  assumes "activate_attempt enc now kid minted client_secret a T = (res, T')"
  shows "stays_disabled i T T'"
proof (cases "T' = T")
  case False
  let ?i = "at_integration a"
  obtain ig where ig: "lock_integration (ps_tenant (at_session a)) ?i T = Some ig" "ig_status ig = IPending"
    using assms False by (auto simp: activate_attempt_def Let_def split: option.splits if_splits)
  let ?T1 = "set_integration ?i (ig\<lparr>ig_status := IActive, ig_secret := Some (enc ?i client_secret), ig_updated := now\<rparr>) T"
  have other: "integration_disabled i T \<Longrightarrow> ?i \<noteq> i" using disabled_locked [OF _ ig(1)] ig(2) by auto
  obtain n where n: "insert_key_row now n ?T1 = Inr T'" "nk_integration n = ?i"
    using assms False ig by (auto simp: activate_attempt_def Let_def split: sum.splits)
  have "stays_disabled i T ?T1" by (rule stays_set_integration) (use other in blast)
  moreover have "stays_disabled i ?T1 T'" if "integration_disabled i T"
    by (rule stays_insert_key [OF n(1)]) (use other that n(2) in simp)
  ultimately show ?thesis unfolding stays_disabled_def by blast
qed simp

lemma issue_key_stays:
  assumes "issue_key policy now kid minted s inp T = (Inr c, T')"
  shows "stays_disabled i T T'"
proof -
  obtain ig n where "integration_at T (ii_integration inp) = Some ig" "ig_status ig = IActive"
    "insert_key_row now n T = Inr T'" "nk_integration n = ii_integration inp"
    using issue_key_Inr [OF assms] by fastforce
  then show ?thesis by (intro stays_insert_key) (auto simp: integration_disabled_def)
qed

lemma revoke_key_stays: "revoke_key now s kid T = (Inr t, T') \<Longrightarrow> stays_disabled i T T'"
  by (auto simp: revoke_key_def Let_def intro!: stays_set_key split: option.splits if_splits)

lemma disable_integration_stays:
  assumes "disable_integration now s k T = (Inr n, T')"
  shows "stays_disabled i T T'"
proof -
  let ?f = "\<lambda>row. if stamped (ps_tenant s) k row then row\<lparr>ak_revoked := Some now\<rparr> else row"
  obtain ig where T': "T' = (set_integration k (ig\<lparr>ig_status := IDisabled, ig_updated := now\<rparr>) T)
       \<lparr>kt_keys := map (\<lambda>(k, row). (k, ?f row)) (kt_keys T)\<rparr>"
    using assms by (auto simp: disable_integration_def split: option.splits)
  have "integration_at T' = (integration_at T)(k \<mapsto> ig\<lparr>ig_status := IDisabled, ig_updated := now\<rparr>)"
    by (simp add: T' integration_at_def set_integration_def map_of_massoc_set)
  moreover have "key_at T' j = map_option ?f (key_at T j)" for j by (simp add: T' key_at_def map_of_map)
  ultimately show ?thesis
    by (auto simp: stays_disabled_def integration_disabled_def live_keys_def split: if_splits)
qed

lemma update_integration_stays:
  "(\<And>ig. ig_status ig = IDisabled \<Longrightarrow> ig_status (f ig) = IDisabled) \<Longrightarrow> stays_disabled i T (update_integration k f T)"
  by (cases "integration_at T k")
     (auto simp: update_integration_def integration_disabled_def intro!: stays_set_integration)

lemma reconcile_row_stays: "reconcile_row enc clock now ra row T = (what, T') \<Longrightarrow> stays_disabled i T T'"
  by (auto simp: reconcile_row_def Let_def sweep_stalled_def rebuild_def intro!: update_integration_stays
      split: if_splits option.splits bool.splits)

lemma record_use_stays: "stays_disabled i T (record_use now locked tenant kid T)"
  by (auto simp: record_use_def intro!: stays_set_key split: option.split)

lemma record_abandoned_stays: "stays_disabled i T (record_abandoned now a T)"
  by (auto simp: record_abandoned_def pending_integration_def intro!: stays_set_integration split: option.split)

lemma key_step_stays: "key_step enc r r' \<Longrightarrow> stays_disabled i (kr_tables r) (kr_tables r')"
  by (induction rule: key_step.induct)
     (auto intro: begin_attempt_stays activate_attempt_stays issue_key_stays revoke_key_stays disable_integration_stays
       reconcile_row_stays record_use_stays record_abandoned_stays)

lemma key_steps:
  assumes "(key_step enc)\<^sup>*\<^sup>* r r'" "reachable start_run (key_step enc) r"
  shows "reachable start_run (key_step enc) r' \<and> set (kr_events r) \<subseteq> set (kr_events r') \<and>
    stays_disabled i (kr_tables r) (kr_tables r')"
  using assms(1)
proof (induction rule: rtranclp_induct)
  case (step r1 r2)
  have "set (kr_events r1) \<subseteq> set (kr_events r2)" using step(2) by (cases rule: key_step.cases) auto
  with step key_step_stays [OF step(2)] show ?case by (blast intro: reachable_step stays_disabled_trans)
qed (use assms(2) in simp)

text \<open>
  C27. Disabling is final.  An integration that is disabled in some state, by an administrator, by the
  reconciler's sweep or as an abandoned attempt, is disabled in every later state of the run, and gets no
  key that is not revoked which it did not have.  One that \<open>disableIntegration\<close> disabled has no key left
  that is not revoked, then or later, whatever sessions create or issue, activations finish late and the
  reconciler does.  A key that was revoked stays revoked likewise.
\<close>

theorem a_disabled_integration_stays_disabled:
  assumes "reachable start_run (key_step enc) r" "(key_step enc)\<^sup>*\<^sup>* r r'"
  shows "(integration_disabled i (kr_tables r) \<longrightarrow>
      integration_disabled i (kr_tables r') \<and> live_keys i (kr_tables r') \<subseteq> live_keys i (kr_tables r)) \<and>
    (DisabledBy i \<in> set (kr_events r) \<longrightarrow> integration_disabled i (kr_tables r') \<and> live_keys i (kr_tables r') = {}) \<and>
    (RevokedKey k \<in> set (kr_events r) \<longrightarrow> (\<exists>row. key_at (kr_tables r') k = Some row \<and> ak_revoked row \<noteq> None))"
proof -
  note S = key_steps [OF assms(2,1), of i]
  have ok: "key_run_ok r'" using run_reachable_ok S by blast
  have "disabled_ok (integration_at (kr_tables r')) (key_at (kr_tables r')) i" if "DisabledBy i \<in> set (kr_events r)"
    using provisioned_okD(2) ok S that unfolding key_run_ok_def by blast
  moreover have "\<exists>row. key_at (kr_tables r') k = Some row \<and> ak_revoked row \<noteq> None" if "RevokedKey k \<in> set (kr_events r)"
    using provisioned_okD(3) ok S that unfolding key_run_ok_def by blast
  ultimately show ?thesis
    using S by (auto simp: stays_disabled_def disabled_ok_def integration_disabled_def live_keys_def)
qed

text \<open>
  C28. No key exceeds its minter: every key in the tables was minted by some session the server took
  for a person holding the management role and every role the key stands for, its own subset or, where
  it names none, all that its integration was granted; and its integration is of its own tenant.
\<close>

theorem keys_never_exceed_their_minter:
  assumes "reachable start_run (key_step enc) r" and "key_at (kr_tables r) k = Some row"
  shows "\<exists>s ig. Minted k s \<in> set (kr_events r) \<and> cs_kind s = Some Person \<and> api_key_manage_role \<in> set (cs_roles s) \<and>
    integration_at (kr_tables r) (ak_integration row) = Some ig \<and> ig_tenant ig = ak_tenant row \<and>
    set (key_roles row ig) \<subseteq> set (cs_roles s)"
proof -
  have "key_ok (kr_events r) (integration_at (kr_tables r)) k row"
    using provisioned_okD(1) run_reachable_ok [OF assms(1)] assms(2) unfolding key_run_ok_def by blast
  then obtain ig s where a: "integration_at (kr_tables r) (ak_integration row) = Some ig" "ig_tenant ig = ak_tenant row"
    "Minted k s \<in> set (kr_events r)" "assert_may_grant_roles (ceiling_session.truncate s) (key_roles row ig) = None"
    by (rule key_okE) blast
  from a(4) have "cs_kind s = Some Person \<and> api_key_manage_role \<in> set (cs_roles s) \<and> set (key_roles row ig) \<subseteq> set (cs_roles s)"
    unfolding grant_accepted_iff
    by (auto simp: may_carry_key_management_def ceiling_session.truncate_def split: credential.splits)
  then show ?thesis using a by blast
qed

text \<open>A live key's integration is active, unless the reconciler swept that integration as stalled.\<close>

lemma live_keys_have_active_integrations:
  assumes "reachable start_run (key_step enc) r" and "key_at (kr_tables r) k = Some row" and "ak_revoked row = None"
  shows "(\<exists>ig. integration_at (kr_tables r) (ak_integration row) = Some ig \<and> ig_status ig = IActive) \<or>
    SweptAttempt (ak_integration row) \<in> set (kr_events r)"
proof -
  have "key_ok (kr_events r) (integration_at (kr_tables r)) k row"
    using provisioned_okD(1) run_reachable_ok [OF assms(1)] assms(2) unfolding key_run_ok_def by blast
  then show ?thesis by (rule key_okE) (use assms(3) in auto)
qed

section \<open>A run\<close>

definition example_minter :: provisioning_session where
  "example_minter = \<lparr>cs_roles = [''Orders.Read'', api_key_manage_role], cs_credential = CBearer, cs_kind = Some Person,
     ps_tenant = ''acme'', ps_user = ''u1''\<rparr>"

definition example_attempt :: key_attempt where
  "example_attempt = \<lparr>at_session = example_minter, at_integration = ''i1'', at_name = ''n'', at_roles = [''Orders.Read''],
     at_subset = None, at_expires = None\<rparr>"

definition example_input :: create_input where
  "example_input = \<lparr>ci_name = ''n'', ci_roles = [''Orders.Read''], ci_days = DaysNever, ci_subset = None\<rparr>"

definition example_minted :: minted_key where
  "example_minted = mint_api_key (\<lambda>x. x) [1] [2]"

definition no_maximum :: lifetime_policy where "no_maximum = \<lparr>lp_max = None, lp_default = 365\<rparr>"

definition pending_tables :: "int \<Rightarrow> key_tables" where
  "pending_tables t = set_integration ''i1'' (pending_integration t example_attempt IPending) no_keys"

lemma example_may_manage: "assert_may_manage_api_keys (ceiling_session.truncate example_minter) = None"
  by (simp add: assert_may_manage_api_keys_def grant_accepted_iff example_minter_def ceiling_session.truncate_def may_carry_key_management_def)

lemma example_may_grant: "assert_may_grant_roles (ceiling_session.truncate example_minter) [''Orders.Read''] = None"
  by (simp add: grant_accepted_iff example_minter_def ceiling_session.truncate_def may_carry_key_management_def)

lemma example_plan: "plan_attempt True no_maximum t ''i1'' example_minter example_input = Inr example_attempt"
proof -
  have "js_trim ''n'' = ''n''" by code_simp
  then show ?thesis
    by (simp add: plan_attempt_def example_may_manage example_may_grant role_subset_or_throw_def example_input_def
        display_name_or_throw_def credential_expiry_def no_maximum_def example_attempt_def check_none_def)
qed

lemma example_begin: "begin_attempt True no_maximum t ''i1'' example_minter example_input no_keys = (Inr example_attempt, pending_tables t)"
  by (simp add: begin_attempt_def example_plan pending_tables_def integration_at_def no_keys_def)

definition example_key :: "int \<Rightarrow> api_key" where
  "example_key t = \<lparr>ak_tenant = ''acme'', ak_integration = ''i1'', ak_lookup = mk_lookup example_minted, ak_hash = mk_secret_hash example_minted, ak_name = ''n'',
     ak_subset = VNull, ak_expires = None, ak_creator = ''u1'', ak_created = t, ak_revoked = None, ak_first_used = None,
     ak_last_used = None\<rparr>"

definition active_tables :: "int \<Rightarrow> int \<Rightarrow> key_tables" where
  "active_tables t0 t = set_key ''k1'' (example_key t) (set_integration ''i1''
     ((pending_integration t0 example_attempt IPending)\<lparr>ig_status := IActive, ig_secret := Some ''s'', ig_updated := t\<rparr>)
     (pending_tables t0))"

lemma example_row_there: "\<not> attempt_row_missing example_attempt (pending_tables t0)"
  by (simp add: attempt_row_missing_def lock_integration_def pending_tables_def pending_integration_def
      example_attempt_def example_minter_def)

lemma example_activate:
  "activate_attempt (\<lambda>_ x. x) t ''k1'' example_minted ''s'' example_attempt (pending_tables t0) =
     (Inr \<lparr>ck_integration = ''i1'', ck_key = ''k1'', ck_token = mk_token example_minted, ck_expires = None\<rparr>, active_tables t0 t)"
proof -
  have "key_at (pending_tables t0) k = None" "kt_keys (pending_tables t0) = []" for k
    by (simp_all add: pending_tables_def no_keys_def key_at_def set_integration_def)
  moreover have "lock_integration ''acme'' ''i1'' (pending_tables t0) = Some (pending_integration t0 example_attempt IPending)"
    by (simp add: lock_integration_Some pending_tables_def pending_integration_def example_attempt_def example_minter_def)
  moreover have "kt_keys (set_integration i ig T) = kt_keys T" for i ig T by (simp add: set_integration_def)
  ultimately show ?thesis
    by (simp add: activate_attempt_def Let_def insert_key_row_def example_attempt_def example_minter_def
        pending_integration_def stored_subset_def active_tables_def example_key_def)
qed

definition begun_run :: "int \<Rightarrow> key_run" where
  "begun_run t = \<lparr>kr_events = [Began ''i1''], kr_attempts = [example_attempt], kr_read = [], kr_tables = pending_tables t\<rparr>"

definition live_run :: "(string \<times> integration) list \<Rightarrow> int \<Rightarrow> int \<Rightarrow> key_run" where
  "live_run rows t0 t = \<lparr>kr_events = [Minted ''k1'' example_minter, Began ''i1''], kr_attempts = [], kr_read = rows,
     kr_tables = active_tables t0 t\<rparr>"

lemma begun_reachable: "reachable start_run (key_step (\<lambda>_ x. x)) (begun_run t)"
proof -
  have "key_step (\<lambda>_ x. x) start_run (begun_run t)"
    using ks_begin [of True no_maximum t "''i1''" example_minter example_input start_run] example_begin
    by (simp add: start_run_def begun_run_def)
  then show ?thesis by (rule reachable_step [OF reachable_start])
qed

lemma live_reachable:
  assumes "rows = [] \<or> rows = to_reconcile (pending_tables t0)"
  shows "reachable start_run (key_step (\<lambda>_ x. x)) (live_run rows t0 t)"
proof -
  have read: "reachable start_run (key_step (\<lambda>_ x. x)) ((begun_run t0)\<lparr>kr_read := rows\<rparr>)"
  proof (cases "rows = []")
    case True
    then show ?thesis using begun_reachable [of t0] by (simp add: begun_run_def)
  next
    case False
    then show ?thesis using reachable_step [OF begun_reachable ks_read, of t0] assms by (simp add: begun_run_def)
  qed
  have "key_step (\<lambda>_ x. x) ((begun_run t0)\<lparr>kr_read := rows\<rparr>) (live_run rows t0 t)"
    using ks_activate [of example_attempt "(begun_run t0)\<lparr>kr_read := rows\<rparr>" "\<lambda>_ x. x" t "''k1''" example_minted "''s''"]
      example_activate example_row_there
    by (simp add: begun_run_def live_run_def example_attempt_def)
  with read show ?thesis by (rule reachable_step)
qed

text \<open>The integration is disabled after its activation, and its key is used once more.\<close>

theorem disabled_stays_witness:
  "\<exists>r r' :: key_run. (key_step (\<lambda>_ x. x))\<^sup>*\<^sup>* r r' \<and> DisabledBy ''i1'' \<in> set (kr_events r) \<and>
     live_keys ''i1'' (active_tables 0 1) = {''k1''} \<and> live_keys ''i1'' (kr_tables r') = {}"
proof -
  let ?live = "live_run [] 0 1" and ?T' = "snd (disable_integration 2 example_minter ''i1'' (active_tables 0 1))"
  let ?r = "?live\<lparr>kr_events := DisabledBy ''i1'' # kr_events ?live, kr_tables := ?T'\<rparr>"
  let ?r' = "?r\<lparr>kr_tables := record_use 3 False ''acme'' ''k1'' ?T'\<rparr>"
  have "lock_integration ''acme'' ''i1'' (active_tables 0 1) \<noteq> None"
    by (simp add: lock_integration_def active_tables_def pending_tables_def pending_integration_def example_attempt_def example_minter_def)
  moreover have "ps_tenant example_minter = ''acme''" by (simp add: example_minter_def)
  ultimately obtain n where "disable_integration 2 example_minter ''i1'' (active_tables 0 1) = (Inr n, ?T')"
    by (auto simp: disable_integration_def example_may_manage)
  then have "disable_integration 2 example_minter ''i1'' (kr_tables ?live) = (Inr n, ?T')" by (simp add: live_run_def)
  then have "key_step (\<lambda>_ x. x) ?live ?r" by (rule ks_disable)
  moreover have "reachable start_run (key_step (\<lambda>_ x. x)) ?live" by (rule live_reachable) simp
  ultimately have r: "reachable start_run (key_step (\<lambda>_ x. x)) ?r" by (metis reachable_step)
  have "key_step (\<lambda>_ x. x) ?r ?r'" using ks_use [of "\<lambda>_ x. x" ?r 3 False "''acme''" "''k1''"] by simp
  then have steps: "(key_step (\<lambda>_ x. x))\<^sup>*\<^sup>* ?r ?r'" by blast
  have d: "DisabledBy ''i1'' \<in> set (kr_events ?r)" by simp
  have "live_keys ''i1'' (kr_tables ?r') = {}"
    using a_disabled_integration_stays_disabled [OF r steps, of "''i1''"] d by blast
  moreover have "key_at (active_tables 0 1) = [''k1'' \<mapsto> example_key 1]"
    by (simp add: active_tables_def pending_tables_def) (simp add: no_keys_def key_at_def)
  then have "live_keys ''i1'' (active_tables 0 1) = {''k1''}" by (auto simp: live_keys_def example_key_def split: if_splits)
  ultimately show ?thesis using steps d by blast
qed

theorem keys_minter_witness:
  "\<exists>s. Minted ''k1'' s \<in> set (kr_events (live_run [] 0 1)) \<and> api_key_manage_role \<in> set (cs_roles s)"
proof -
  have "key_at (kr_tables (live_run [] 0 1)) ''k1'' = Some (example_key 1)" by (simp add: live_run_def active_tables_def)
  from keys_never_exceed_their_minter [OF live_reachable [of "[]"] this] show ?thesis by auto
qed

section \<open>A sweep that lands after the activation\<close>

text \<open>
  The reconciler reads a row that is pending, the attempt is activated, and the sweep of that row goes
  through: its client is gone from the realm and its integration disabled, though the key handed out
  for it is not revoked.  The update of \<open>sweepStalled\<close> names the row alone, not its status.
\<close>

lemma a_sweep_can_disable_a_live_integration:
  "\<exists>r row ig. reachable start_run (key_step (\<lambda>_ x. x)) r \<and> key_at (kr_tables r) ''k1'' = Some row \<and> ak_revoked row = None \<and>
     integration_at (kr_tables r) ''i1'' = Some ig \<and> ig_status ig = IDisabled \<and> ig_secret ig \<noteq> None"
proof -
  let ?pending = "pending_integration 0 example_attempt IPending"
  let ?rows = "to_reconcile (pending_tables 0)" and ?T = "active_tables 0 900000"
  let ?live = "live_run ?rows 0 900000"
  have rows: "(''i1'', ?pending) \<in> set ?rows"
    by (simp add: to_reconcile_def pending_tables_def set_integration_def no_keys_def pending_integration_def)
  let ?T' = "update_integration ''i1'' (\<lambda>ig. ig\<lparr>ig_status := IDisabled, ig_updated := 900000\<rparr>) ?T"
  let ?r = "?live\<lparr>kr_events := SweptAttempt ''i1'' # kr_events ?live, kr_tables := ?T'\<rparr>"
  have "reconcile_row (\<lambda>_ x. x) 900000 900000 \<lparr>ra_exists = Some True, ra_deletes = True, ra_rebuilt = None\<rparr> (''i1'', ?pending) ?T =
      (SweptPending, ?T')"
    by (simp add: reconcile_row_def Let_def pending_grace_ms_def sweep_stalled_def pending_integration_def)
  then have step: "reconcile_row (\<lambda>_ x. x) 900000 900000 \<lparr>ra_exists = Some True, ra_deletes = True, ra_rebuilt = None\<rparr>
      (''i1'', ?pending) (kr_tables ?live) = (SweptPending, ?T')"
    by (simp add: live_run_def)
  have "(''i1'', ?pending) \<in> set (kr_read ?live)" using rows by (simp add: live_run_def)
  from ks_row [OF this step] have live: "key_step (\<lambda>_ x. x) ?live ?r"
    unfolding if_P [OF refl] append.simps fst_conv .
  have "reachable start_run (key_step (\<lambda>_ x. x)) ?live" by (rule live_reachable) simp
  from this live have "reachable start_run (key_step (\<lambda>_ x. x)) ?r" by (rule reachable_step)
  moreover have "key_at ?T' ''k1'' = Some (example_key 900000)" "ak_revoked (example_key 900000) = None"
    by (simp_all add: update_integration_def active_tables_def example_key_def)
  moreover have "\<exists>ig. integration_at ?T' ''i1'' = Some ig \<and> ig_status ig = IDisabled \<and> ig_secret ig \<noteq> None"
    by (simp add: update_integration_def active_tables_def)
  moreover have "kr_tables ?r = ?T'" by simp
  ultimately show ?thesis by (intro exI [of _ ?r]) auto
qed

end
