(* ===== verification/Api_Key_Sessions.thy ===== *)
theory Api_Key_Sessions
  imports Api_Key_Runs
begin

text \<open>
  From a presented key to a session (\<open>resolveApiKey\<close> of \<open>auth/api-key/store.ts\<close>, \<open>resolve.ts\<close>) and the
  cache of access tokens (\<open>exchange.ts\<close>).  The hash of a secret, the token endpoint and the bearer
  verifier are arguments.  The three reads of a resolution may see three different states of the tables.
\<close>

section \<open>Looking a key up\<close>

datatype key_rejection = UnknownKey | BadSecret | RevokedCredential | ExpiredCredential | IntegrationUnavailable

record resolved_key =
  rk_key :: string
  rk_tenant :: string
  rk_integration :: string
  rk_subset :: "string list option"
  rk_client :: string
  rk_name :: string
  rk_role_free :: bool
  rk_secret :: string

definition decoy_tenant :: string where "decoy_tenant = ''00000000-0000-4000-8000-000000000000''"

text \<open>\<open>app.api_key_tenant\<close>: the tenant of a lookup id, without a tenant context.\<close>

definition tenant_of_lookup :: "string \<Rightarrow> key_tables \<Rightarrow> string option" where
  "tenant_of_lookup lookup T =
     map_option (\<lambda>(_, row). ak_tenant row) (find (\<lambda>(_, row). ak_lookup row = lookup) (kt_keys T))"

definition key_by_lookup :: "string \<Rightarrow> string \<Rightarrow> key_tables \<Rightarrow> (string \<times> api_key) option" where
  "key_by_lookup tenant lookup T = find (\<lambda>(_, row). ak_lookup row = lookup \<and> ak_tenant row = tenant) (kt_keys T)"

definition resolve_api_key ::
  "(string \<Rightarrow> string) \<Rightarrow> string \<Rightarrow> string \<Rightarrow> int \<Rightarrow> key_tables \<Rightarrow> key_tables \<Rightarrow> key_tables \<Rightarrow> key_rejection + resolved_key" where
  "resolve_api_key h lookup secret now T0 T1 T2 =
     (let tenant = (case tenant_of_lookup lookup T0 of Some t \<Rightarrow> t | None \<Rightarrow> decoy_tenant)
      in case key_by_lookup tenant lookup T1 of
           None \<Rightarrow> Inl UnknownKey
         | Some (kid, row) \<Rightarrow>
             (if \<not> secret_matches h secret (ak_hash row) then Inl BadSecret
              else if ak_revoked row \<noteq> None then Inl RevokedCredential
              else if (case ak_expires row of Some t \<Rightarrow> t \<le> now | None \<Rightarrow> False) then Inl ExpiredCredential
              else case lock_integration (ak_tenant row) (ak_integration row) T2 of
                     None \<Rightarrow> Inl IntegrationUnavailable
                   | Some ig \<Rightarrow>
                       (case ig_secret ig of
                          None \<Rightarrow> Inl IntegrationUnavailable
                        | Some client_secret \<Rightarrow>
                            (if ig_status ig \<noteq> IActive \<or> client_secret = [] then Inl IntegrationUnavailable
                             else Inr \<lparr>rk_key = kid, rk_tenant = ak_tenant row, rk_integration = ak_integration row,
                                       rk_subset = parse_role_subset (ak_subset row), rk_client = ig_client ig,
                                       rk_name = ig_name ig, rk_role_free = is_role_free (ig_granted ig),
                                       rk_secret = client_secret\<rparr>))))"

section \<open>The session of a key\<close>

record key_identity =
  ki_tenant :: "string option"
  ki_user :: "string option"
  ki_roles :: "string list"
  ki_scopes :: "string list option"
  ki_groups :: "string list"

record 'scope key_session = ceiling_session +
  ks_tenant :: string
  ks_user :: string
  ks_name :: string
  ks_scopes :: "string list"
  ks_groups :: "string list"
  ks_scope :: 'scope
  ks_integration :: string
  ks_key :: string

definition same_tenant_id :: "string option \<Rightarrow> string option \<Rightarrow> bool" where
  "same_tenant_id left right =
     (case (left, right) of
        (Some a, Some b) \<Rightarrow> to_lower (js_trim a) = to_lower (js_trim b)
      | _ \<Rightarrow> False)"

text \<open>
  \<open>exchange\<close> answers the access token of a resolved key (\<open>Inl\<close>: it throws), \<open>verify\<close> the identity of a
  token (\<open>None\<close>: it is not accepted).
\<close>

definition resolve_api_key_session ::
  "(string \<Rightarrow> string) \<Rightarrow> (resolved_key \<Rightarrow> unit + string option) \<Rightarrow> (string \<Rightarrow> resolved_key \<Rightarrow> key_identity option) \<Rightarrow>
   (string list \<Rightarrow> string list \<Rightarrow> 'scope) \<Rightarrow> int \<Rightarrow> key_tables \<Rightarrow> key_tables \<Rightarrow> key_tables \<Rightarrow> string \<Rightarrow> 'scope key_session option" where
  "resolve_api_key_session h exchange verify scope now T0 T1 T2 candidate =
     (case parse_api_key candidate of
        None \<Rightarrow> None
      | Some p \<Rightarrow>
          (case resolve_api_key h (pk_lookup p) (pk_secret p) now T0 T1 T2 of
             Inl _ \<Rightarrow> None
           | Inr key \<Rightarrow>
               (case exchange key of
                  Inl _ \<Rightarrow> None
                | Inr None \<Rightarrow> None
                | Inr (Some token) \<Rightarrow>
                    (if token = [] then None
                     else case verify token key of
                            None \<Rightarrow> None
                          | Some ident \<Rightarrow>
                              (if \<not> same_tenant_id (ki_tenant ident) (Some (rk_tenant key)) then None
                               else case (ki_tenant ident, ki_user ident) of
                                      (Some tenant, Some user) \<Rightarrow>
                                        (if user = [] then None
                                         else let roles = integration_roles (ki_roles ident) (rk_subset key) (rk_role_free key)
                                              in Some \<lparr>cs_roles = roles, cs_credential = CApiKey, cs_kind = Some Service,
                                                       ks_tenant = tenant, ks_user = user, ks_name = rk_name key,
                                                       ks_scopes = (case ki_scopes ident of Some ss \<Rightarrow> ss | None \<Rightarrow> []),
                                                       ks_groups = ki_groups ident, ks_scope = scope roles (ki_groups ident),
                                                       ks_integration = rk_integration key, ks_key = rk_key key\<rparr>)
                                    | _ \<Rightarrow> None)))))"

section \<open>The token cache\<close>

record cached_token =
  ct_token :: string
  ct_expires :: jsnum

record token_cache =
  tc_cache :: "(string \<times> cached_token) list"
  tc_in_flight :: "(string \<times> int) list"

datatype token_answer = Throws | NotOk | Payload "string option" "jsnum option"

definition expiry_safety_margin_ms :: int where "expiry_safety_margin_ms = 30000"

definition min_cache_ms :: int where "min_cache_ms = 5000"

definition cache_lifetime :: "jsnum option \<Rightarrow> jsnum" where
  "cache_lifetime expires_in =
     (let seconds = (case expires_in of Some n \<Rightarrow> if js_finite n then n else jint 60 | None \<Rightarrow> jint 60)
      in js_max [jint min_cache_ms, js_sub (js_mul seconds (jint 1000)) (jint expiry_safety_margin_ms)])"

definition served_token :: "string \<Rightarrow> int \<Rightarrow> token_cache \<Rightarrow> string option" where
  "served_token i now c =
     (case map_of (tc_cache c) i of
        Some e \<Rightarrow> if js_lt (jint now) (ct_expires e) then Some (ct_token e) else None
      | None \<Rightarrow> None)"

text \<open>A call that finds neither a live entry nor a pending exchange starts one.\<close>

definition start_exchange :: "string \<Rightarrow> int \<Rightarrow> token_cache \<Rightarrow> token_cache" where
  "start_exchange i now c =
     (if served_token i now c \<noteq> None \<or> massoc_has i (tc_in_flight c) then c
      else c\<lparr>tc_in_flight := massoc_set i now (tc_in_flight c)\<rparr>)"

definition perform_exchange :: "string \<Rightarrow> int \<Rightarrow> token_answer \<Rightarrow> token_cache \<Rightarrow> (unit + string option) \<times> token_cache" where
  "perform_exchange i now answer c =
     (case answer of
        Throws \<Rightarrow> (Inl (), c)
      | NotOk \<Rightarrow> (Inr None, c)
      | Payload token expires_in \<Rightarrow>
          (case token of
             None \<Rightarrow> (Inr None, c)
           | Some t \<Rightarrow>
               (if t = [] then (Inr None, c)
                else (Inr (Some t),
                      c\<lparr>tc_cache := massoc_set i \<lparr>ct_token = t, ct_expires = js_add (jint now) (cache_lifetime expires_in)\<rparr>
                        (tc_cache c)\<rparr>))))"

definition finish_exchange :: "string \<Rightarrow> token_answer \<Rightarrow> token_cache \<Rightarrow> ((unit + string option) \<times> token_cache) option" where
  "finish_exchange i answer c =
     (case map_of (tc_in_flight c) i of
        None \<Rightarrow> None
      | Some now \<Rightarrow>
          (case perform_exchange i now answer c of
             (res, c') \<Rightarrow> Some (res, c'\<lparr>tc_in_flight := massoc_delete i (tc_in_flight c')\<rparr>)))"

definition invalidate_integration_token :: "string \<Rightarrow> token_cache \<Rightarrow> token_cache" where
  "invalidate_integration_token i c = c\<lparr>tc_cache := massoc_delete i (tc_cache c)\<rparr>"

datatype cache_event = Obtained string string int "jsnum option" | Dropped string

record cache_run =
  cr_events :: "cache_event list"
  cr_cache :: token_cache

definition start_cache :: cache_run where
  "start_cache = \<lparr>cr_events = [], cr_cache = \<lparr>tc_cache = [], tc_in_flight = []\<rparr>\<rparr>"

definition obtained_event :: "string \<Rightarrow> int \<Rightarrow> token_answer \<Rightarrow> unit + string option \<Rightarrow> cache_event list" where
  "obtained_event i now answer res =
     (case (answer, res) of (Payload _ x, Inr (Some t)) \<Rightarrow> [Obtained i t now x] | _ \<Rightarrow> [])"

inductive cache_step :: "cache_run \<Rightarrow> cache_run \<Rightarrow> bool" where
  cs_start: "cache_step r (r\<lparr>cr_cache := start_exchange i now (cr_cache r)\<rparr>)"
| cs_finish: "map_of (tc_in_flight (cr_cache r)) i = Some now \<Longrightarrow> finish_exchange i answer (cr_cache r) = Some (res, c') \<Longrightarrow>
    cache_step r (r\<lparr>cr_events := obtained_event i now answer res @ cr_events r, cr_cache := c'\<rparr>)"
| cs_drop: "cache_step r (r\<lparr>cr_events := Dropped i # cr_events r, cr_cache := invalidate_integration_token i (cr_cache r)\<rparr>)"

definition cache_run_ok :: "cache_run \<Rightarrow> bool" where
  "cache_run_ok r =
     (distinct (map fst (tc_cache (cr_cache r))) \<and> distinct (map fst (tc_in_flight (cr_cache r))) \<and>
      (\<forall>i e. map_of (tc_cache (cr_cache r)) i = Some e \<longrightarrow>
         (\<exists>s x. Obtained i (ct_token e) s x \<in> set (cr_events r) \<and> ct_expires e = js_add (jint s) (cache_lifetime x))))"

section \<open>What a resolved key is\<close>

lemma find_Some_row:
  "find P xs = Some x \<Longrightarrow> x \<in> set xs \<and> P x"
  by (metis find_Some_iff nth_mem)

lemma resolve_api_key_Inr:
  assumes "resolve_api_key h lookup secret now T0 T1 T2 = Inr key"
  shows "\<exists>row ig. (rk_key key, row) \<in> set (kt_keys T1) \<and> ak_lookup row = lookup \<and> ak_hash row = h secret \<and>
     ak_revoked row = None \<and> (\<forall>t. ak_expires row = Some t \<longrightarrow> now < t) \<and>
     rk_tenant key = ak_tenant row \<and> rk_integration key = ak_integration row \<and>
     rk_subset key = parse_role_subset (ak_subset row) \<and>
     integration_at T2 (ak_integration row) = Some ig \<and> ig_tenant ig = ak_tenant row \<and> ig_status ig = IActive \<and>
     ig_secret ig = Some (rk_secret key) \<and> rk_role_free key = is_role_free (ig_granted ig) \<and>
     rk_client key = ig_client ig \<and> rk_name key = ig_name ig \<and> rk_secret key \<noteq> []"
proof -
  let ?tenant = "case tenant_of_lookup lookup T0 of Some t \<Rightarrow> t | None \<Rightarrow> decoy_tenant"
  obtain kid row where row: "key_by_lookup ?tenant lookup T1 = Some (kid, row)"
    using assms by (cases "key_by_lookup ?tenant lookup T1") (auto simp: resolve_api_key_def Let_def)
  note found = find_Some_row [OF row [unfolded key_by_lookup_def]]
  have live: "secret_matches h secret (ak_hash row)" "ak_revoked row = None"
    "\<not> (case ak_expires row of Some t \<Rightarrow> t \<le> now | None \<Rightarrow> False)"
    using assms row by (auto simp: resolve_api_key_def Let_def split: if_splits)
  obtain ig where ig: "lock_integration (ak_tenant row) (ak_integration row) T2 = Some ig"
    using assms row live by (auto simp: resolve_api_key_def Let_def split: option.splits)
  obtain client_secret where s: "ig_secret ig = Some client_secret" "ig_status ig = IActive" "client_secret \<noteq> []"
    using assms row live ig by (auto simp: resolve_api_key_def Let_def split: option.splits if_splits)
  have "key = \<lparr>rk_key = kid, rk_tenant = ak_tenant row, rk_integration = ak_integration row,
      rk_subset = parse_role_subset (ak_subset row), rk_client = ig_client ig, rk_name = ig_name ig,
      rk_role_free = is_role_free (ig_granted ig), rk_secret = client_secret\<rparr>"
    using assms row live ig s by (simp add: resolve_api_key_def Let_def)
  then show ?thesis using found live ig s
    by (intro exI [of _ row] exI [of _ ig]) (auto simp: secret_matches_def lock_integration_Some split: option.splits)
qed

lemma integration_roles_subset:
  "set (integration_roles granted narrowed role_free) \<subseteq> set granted"
  "narrowed = Some rs \<Longrightarrow> set (integration_roles granted narrowed role_free) \<subseteq> set rs"
  by (auto simp: integration_roles_def intersect_roles_def split: option.splits)

lemma resolve_session_Some:
  assumes "resolve_api_key_session h exchange verify scope now T0 T1 T2 candidate = Some s"
  shows "\<exists>p key token ident. parse_api_key candidate = Some p \<and>
     resolve_api_key h (pk_lookup p) (pk_secret p) now T0 T1 T2 = Inr key \<and> exchange key = Inr (Some token) \<and>
     verify token key = Some ident \<and> same_tenant_id (ki_tenant ident) (Some (rk_tenant key)) \<and>
     ki_tenant ident = Some (ks_tenant s) \<and> ki_user ident = Some (ks_user s) \<and> ks_user s \<noteq> [] \<and> token \<noteq> [] \<and>
     ks_integration s = rk_integration key \<and> ks_key s = rk_key key \<and> ks_name s = rk_name key \<and>
     cs_roles s = integration_roles (ki_roles ident) (rk_subset key) (rk_role_free key) \<and>
     cs_credential s = CApiKey \<and> cs_kind s = Some Service"
  using assms
  by (auto simp: resolve_api_key_session_def Let_def split: option.splits sum.splits if_splits prod.splits)

section \<open>One row for each key\<close>

definition keys_distinct :: "key_tables \<Rightarrow> bool" where
  "keys_distinct T = distinct (map fst (kt_keys T))"

lemma keys_distinct_set:
  "keys_distinct (set_integration i ig T) = keys_distinct T"
  "keys_distinct T \<Longrightarrow> keys_distinct (set_key k row T)"
  by (simp_all add: keys_distinct_def set_integration_def set_key_def distinct_massoc_set)

lemma keys_distinct_update:
  "keys_distinct (update_integration i f T) = keys_distinct T"
  "keys_distinct T \<Longrightarrow> keys_distinct (record_use now locked tenant kid T)"
  "keys_distinct (record_abandoned now a T) = keys_distinct T"
  by (simp_all add: update_integration_def record_use_def record_abandoned_def keys_distinct_set split: option.split)

lemma keys_distinct_insert: "insert_key_row now n T = Inr T' \<Longrightarrow> keys_distinct T \<Longrightarrow> keys_distinct T'"
  by (auto simp: insert_key_row_def keys_distinct_set split: if_splits)

lemma keys_distinct_operations:
  "begin_attempt aud policy now i s inp T = (res1, T') \<Longrightarrow> keys_distinct T \<Longrightarrow> keys_distinct T'"
  "activate_attempt enc now kid minted client_secret a T = (res2, T') \<Longrightarrow> keys_distinct T \<Longrightarrow> keys_distinct T'"
  "issue_key policy now kid minted s inp2 T = (res2, T') \<Longrightarrow> keys_distinct T \<Longrightarrow> keys_distinct T'"
  "revoke_key now s kid T = (res3, T') \<Longrightarrow> keys_distinct T \<Longrightarrow> keys_distinct T'"
  "disable_integration now s i T = (res4, T') \<Longrightarrow> keys_distinct T \<Longrightarrow> keys_distinct T'"
  "reconcile_row enc clock now ra row T = (what, T') \<Longrightarrow> keys_distinct T \<Longrightarrow> keys_distinct T'"
proof -
  show "begin_attempt aud policy now i s inp T = (res1, T') \<Longrightarrow> keys_distinct T \<Longrightarrow> keys_distinct T'"
    by (auto simp: begin_attempt_def keys_distinct_set split: sum.splits if_splits)
  show "activate_attempt enc now kid minted client_secret a T = (res2, T') \<Longrightarrow> keys_distinct T \<Longrightarrow> keys_distinct T'"
    by (auto simp: activate_attempt_def Let_def keys_distinct_update keys_distinct_set dest!: keys_distinct_insert
        split: option.splits sum.splits if_splits)
  show "issue_key policy now kid minted s inp2 T = (res2, T') \<Longrightarrow> keys_distinct T \<Longrightarrow> keys_distinct T'"
    by (cases res2) (auto simp: issue_key_def rbind_Inr_iff dest!: keys_distinct_insert split: sum.splits option.splits if_splits)
  show "revoke_key now s kid T = (res3, T') \<Longrightarrow> keys_distinct T \<Longrightarrow> keys_distinct T'"
    by (auto simp: revoke_key_def Let_def keys_distinct_set split: option.splits if_splits)
  show "disable_integration now s i T = (res4, T') \<Longrightarrow> keys_distinct T \<Longrightarrow> keys_distinct T'"
  proof -
    have m: "map fst (map (\<lambda>(k, row). (k, f row)) xs) = map fst xs" for f and xs :: "(string \<times> api_key) list"
      by (simp add: comp_def case_prod_beta)
    show "disable_integration now s i T = (res4, T') \<Longrightarrow> keys_distinct T \<Longrightarrow> keys_distinct T'"
      by (auto simp: disable_integration_def keys_distinct_def m simp del: map_map split: option.splits)
  qed
  show "reconcile_row enc clock now ra row T = (what, T') \<Longrightarrow> keys_distinct T \<Longrightarrow> keys_distinct T'"
    by (auto simp: reconcile_row_def Let_def sweep_stalled_def rebuild_def keys_distinct_update
        split: if_splits option.splits bool.splits)
qed

lemma key_step_distinct: "key_step enc r r' \<Longrightarrow> keys_distinct (kr_tables r) \<Longrightarrow> keys_distinct (kr_tables r')"
  by (induction rule: key_step.induct) (auto intro: keys_distinct_operations keys_distinct_update keys_distinct_update(3) [THEN iffD2])

lemma keys_distinct_reachable: "reachable start_run (key_step enc) r \<Longrightarrow> keys_distinct (kr_tables r)"
proof (induction rule: reachable.induct)
  case reachable_start
  show ?case by (simp add: start_run_def no_keys_def keys_distinct_def)
qed (rule key_step_distinct)

lemma key_at_row: "keys_distinct T \<Longrightarrow> (k, row) \<in> set (kt_keys T) \<Longrightarrow> key_at T k = Some row"
  by (simp add: keys_distinct_def key_at_def)

section \<open>What sessions of keys promise\<close>

text \<open>
  C26. A key gives a session only while all of it holds: it parses, its secret hashes to the stored
  hash, it is neither revoked nor expired, and its integration is active with a client secret.  The
  token is the one exchanged for this very key with that integration's client and secret, and the
  identity behind the session is the one that token is verified to, of the key's tenant.  The session is a
  service's and an API key's, in the identity's tenant and under its user, holds no role the identity
  lacks and none outside the subset the key names, none at all when the integration was granted none,
  and can never manage keys.
\<close>

theorem a_key_session_is_a_live_key:
  assumes "resolve_api_key_session h exchange verify scope now T0 T1 T2 candidate = Some s"
  shows "cs_kind s = Some Service \<and> cs_credential s = CApiKey \<and>
   (\<exists>p row ig token key ident. parse_api_key candidate = Some p \<and> (ks_key s, row) \<in> set (kt_keys T1) \<and>
     ak_lookup row = pk_lookup p \<and> ak_hash row = h (pk_secret p) \<and> ak_revoked row = None \<and>
     (\<forall>t. ak_expires row = Some t \<longrightarrow> now < t) \<and>
     integration_at T2 (ks_integration s) = Some ig \<and> ig_status ig = IActive \<and> ig_secret ig \<noteq> None \<and>
     ig_tenant ig = ak_tenant row \<and> ak_integration row = ks_integration s \<and> ks_name s = ig_name ig \<and>
     rk_key key = ks_key s \<and> rk_integration key = ks_integration s \<and> rk_tenant key = ak_tenant row \<and>
     rk_client key = ig_client ig \<and> ig_secret ig = Some (rk_secret key) \<and> rk_secret key \<noteq> [] \<and>
     exchange key = Inr (Some token) \<and> token \<noteq> [] \<and>
     verify token key = Some ident \<and> ki_tenant ident = Some (ks_tenant s) \<and> ki_user ident = Some (ks_user s) \<and>
     ks_user s \<noteq> [] \<and> same_tenant_id (Some (ks_tenant s)) (Some (ak_tenant row)) \<and>
     set (cs_roles s) \<subseteq> set (ki_roles ident) \<and>
     (\<forall>rs. parse_role_subset (ak_subset row) = Some rs \<longrightarrow> set (cs_roles s) \<subseteq> set rs) \<and>
     (is_role_free (ig_granted ig) \<longrightarrow> cs_roles s = []) \<and>
     assert_may_manage_api_keys (ceiling_session.truncate s) = Some KeysCannotManageKeys)"
proof -
  obtain p key token ident where s: "parse_api_key candidate = Some p"
    "resolve_api_key h (pk_lookup p) (pk_secret p) now T0 T1 T2 = Inr key"
    "exchange key = Inr (Some token)" "token \<noteq> []"
    "verify token key = Some ident" "same_tenant_id (ki_tenant ident) (Some (rk_tenant key))"
    "ki_tenant ident = Some (ks_tenant s)" "ki_user ident = Some (ks_user s)" "ks_user s \<noteq> []"
    "ks_integration s = rk_integration key" "ks_key s = rk_key key" "ks_name s = rk_name key"
    "cs_credential s = CApiKey" "cs_kind s = Some Service"
    and roles: "cs_roles s = integration_roles (ki_roles ident) (rk_subset key) (rk_role_free key)"
    using resolve_session_Some [OF assms] by blast
  have "assert_may_manage_api_keys (ceiling_session.truncate s) = Some KeysCannotManageKeys"
    using s(13) by (simp add: assert_may_manage_api_keys_def assert_may_grant_roles_def may_carry_key_management_def
        ceiling_session.truncate_def)
  moreover have "rk_role_free key \<Longrightarrow> cs_roles s = []" unfolding roles by (simp add: integration_roles_def)
  moreover have "set (cs_roles s) \<subseteq> set (ki_roles ident)" "\<forall>rs. rk_subset key = Some rs \<longrightarrow> set (cs_roles s) \<subseteq> set rs"
    unfolding roles using integration_roles_subset by blast+
  moreover obtain row ig where "(rk_key key, row) \<in> set (kt_keys T1)" "ak_lookup row = pk_lookup p" "ak_hash row = h (pk_secret p)"
     "ak_revoked row = None" "\<forall>t. ak_expires row = Some t \<longrightarrow> now < t"
     "rk_tenant key = ak_tenant row" "rk_integration key = ak_integration row"
     "rk_subset key = parse_role_subset (ak_subset row)"
     "integration_at T2 (ak_integration row) = Some ig" "ig_tenant ig = ak_tenant row" "ig_status ig = IActive"
     "ig_secret ig = Some (rk_secret key)" "rk_role_free key = is_role_free (ig_granted ig)"
     "rk_client key = ig_client ig" "rk_name key = ig_name ig" "rk_secret key \<noteq> []"
    using resolve_api_key_Inr [OF s(2)] by blast
  ultimately show ?thesis using s
    by (intro conjI exI [of _ p] exI [of _ row] exI [of _ ig] exI [of _ token] exI [of _ key] exI [of _ ident]) auto
qed

text \<open>
  C25. Withdrawing access works: in no state a run of the provisioning service reaches after a key was
  revoked, or after its integration was disabled, does any presented text give a session of that key
  or that integration; and a session's roles, where its key names a subset, are roles its minter held.
\<close>

theorem withdrawn_keys_give_no_session:
  assumes run: "reachable start_run (key_step enc) r"
    and s: "resolve_api_key_session h exchange verify scope now T0 (kr_tables r) T2 candidate = Some s"
  shows "RevokedKey (ks_key s) \<notin> set (kr_events r) \<and> DisabledBy (ks_integration s) \<notin> set (kr_events r) \<and>
    (\<exists>row m. key_at (kr_tables r) (ks_key s) = Some row \<and> Minted (ks_key s) m \<in> set (kr_events r) \<and>
       (parse_role_subset (ak_subset row) \<noteq> None \<longrightarrow> set (cs_roles s) \<subseteq> set (cs_roles m)))"
proof -
  obtain p :: parsed_key and key and ident :: key_identity where k: "resolve_api_key h (pk_lookup p) (pk_secret p) now T0 (kr_tables r) T2 = Inr key"
    "ks_integration s = rk_integration key" "ks_key s = rk_key key"
    "cs_roles s = integration_roles (ki_roles ident) (rk_subset key) (rk_role_free key)"
    using resolve_session_Some [OF s] by blast
  obtain row where row: "(rk_key key, row) \<in> set (kt_keys (kr_tables r))" "ak_revoked row = None"
    "rk_integration key = ak_integration row" "rk_subset key = parse_role_subset (ak_subset row)"
    using resolve_api_key_Inr [OF k(1)] by blast
  note at = key_at_row [OF keys_distinct_reachable [OF run] row(1)]
  have ok: "provisioned_ok (kr_events r) (kr_attempts r) (integration_at (kr_tables r)) (key_at (kr_tables r))"
    using run_reachable_ok [OF run] by (simp add: key_run_ok_def)
  from provisioned_okD(1) [OF ok at] obtain m ig where m: "Minted (rk_key key) m \<in> set (kr_events r)"
    "assert_may_grant_roles (ceiling_session.truncate m) (key_roles row ig) = None"
    by (rule key_okE) blast
  have "set (cs_roles s) \<subseteq> set (cs_roles m)" if "parse_role_subset (ak_subset row) = Some rs" for rs
  proof -
    from that have "set (cs_roles s) \<subseteq> set rs" unfolding k(4) using integration_roles_subset(2) row(4) by simp
    moreover have "key_roles row ig = rs" by (simp add: key_roles_def that)
    ultimately show ?thesis using m(2) unfolding grant_accepted_iff by (auto simp: ceiling_session.truncate_def)
  qed
  moreover have "RevokedKey (rk_key key) \<notin> set (kr_events r)" using provisioned_okD(3) [OF ok] at row(2) by fastforce
  moreover have "DisabledBy (ak_integration row) \<notin> set (kr_events r)"
    using provisioned_okD(2) [OF ok] at row(2) unfolding disabled_ok_def by fastforce
  ultimately show ?thesis using at m(1) row k(2,3) by (metis not_None_eq)
qed


section \<open>A session\<close>

definition example_identity :: key_identity where
  "example_identity = \<lparr>ki_tenant = Some ''acme'', ki_user = Some ''u9'', ki_roles = [''Orders.Read'', ''offline_access''],
     ki_scopes = None, ki_groups = []\<rparr>"

definition example_key_session :: "key_tables \<Rightarrow> unit key_session option" where
  "example_key_session T = resolve_api_key_session (\<lambda>x. x) (\<lambda>_. Inr (Some ''a'')) (\<lambda>_ _. Some example_identity) (\<lambda>_ _. ()) 5 T T T
     (mk_token example_minted)"

lemma example_resolves:
  "\<exists>s. example_key_session (kr_tables (live_run [] 0 1)) = Some s \<and> ks_key s = ''k1'' \<and> ks_integration s = ''i1'' \<and>
     cs_roles s = [''Orders.Read'', ''offline_access'']"
proof -
  let ?T = "kr_tables (live_run [] 0 1)"
  have p: "parse_api_key (mk_token example_minted) = Some \<lparr>pk_lookup = mk_lookup example_minted, pk_secret = to_base62 [2]\<rparr>"
    unfolding example_minted_def minted_key_parses by (simp add: mint_api_key_def Let_def)
  have "kt_keys ?T = [(''k1'', example_key 1)]" "lock_integration ''acme'' ''i1'' ?T \<noteq> None"
    by (simp_all add: live_run_def active_tables_def pending_tables_def no_keys_def set_key_def set_integration_def
        lock_integration_def integration_at_def pending_integration_def example_attempt_def example_minter_def)
  moreover have "ig_status ig = IActive" "ig_secret ig = Some ''s''" "ig_granted ig = strings_value [''Orders.Read'']"
    if "lock_integration ''acme'' ''i1'' ?T = Some ig" for ig
    using that unfolding lock_integration_Some
    by (auto simp: live_run_def active_tables_def pending_tables_def pending_integration_def example_attempt_def)
  moreover have "secret_matches (\<lambda>x. x) (to_base62 [2]) (mk_secret_hash example_minted)"
    by (simp add: secret_matches_def example_minted_def mint_api_key_def Let_def)
  ultimately obtain key where key: "resolve_api_key (\<lambda>x. x) (mk_lookup example_minted) (to_base62 [2]) 5 ?T ?T ?T = Inr key"
    "rk_key key = ''k1''" "rk_tenant key = ''acme''" "rk_integration key = ''i1''" "rk_subset key = None" "\<not> rk_role_free key"
    by (auto simp: resolve_api_key_def tenant_of_lookup_def key_by_lookup_def example_key_def parse_role_subset_def
        is_role_free_def strings_value_def split: option.split)
  then show ?thesis
    by (simp add: example_key_session_def resolve_api_key_session_def p example_identity_def same_tenant_id_def
        integration_roles_def intersect_roles_def Let_def)
qed

theorem live_key_witness:
  "\<exists>s. example_key_session (kr_tables (live_run [] 0 1)) = Some s \<and> cs_kind s = Some Service \<and>
     set (cs_roles s) \<subseteq> {''Orders.Read'', ''offline_access''}"
proof -
  obtain s where s: "example_key_session (kr_tables (live_run [] 0 1)) = Some s" using example_resolves by blast
  from a_key_session_is_a_live_key [OF s [unfolded example_key_session_def]] show ?thesis using s by (auto simp: example_identity_def)
qed

theorem withdrawn_witness:
  "\<exists>s. example_key_session (kr_tables (live_run [] 0 1)) = Some s \<and> DisabledBy (ks_integration s) \<notin> set (kr_events (live_run [] 0 1))"
proof -
  obtain s where s: "example_key_session (kr_tables (live_run [] 0 1)) = Some s" using example_resolves by blast
  have "reachable start_run (key_step (\<lambda>_ x. x)) (live_run [] 0 1)" by (rule live_reachable) simp
  from withdrawn_keys_give_no_session [OF this s [unfolded example_key_session_def]] show ?thesis using s by blast
qed

section \<open>Tokens from the cache\<close>

lemma cache_step_ok: "cache_step r r' \<Longrightarrow> cache_run_ok r \<Longrightarrow> cache_run_ok r'"
proof (induction rule: cache_step.induct)
  case (cs_start r i now)
  then show ?case by (simp add: cache_run_ok_def start_exchange_def distinct_massoc_set)
next
  case (cs_finish r i now answer res c')
  let ?c = "cr_cache r"
  obtain p where p: "perform_exchange i now answer ?c = (res, p)" "c' = p\<lparr>tc_in_flight := massoc_delete i (tc_in_flight p)\<rparr>"
    using cs_finish(1,2) by (auto simp: finish_exchange_def split: prod.splits)
  show ?case
  proof (cases "p = ?c")
    case True
    then show ?thesis using cs_finish(3) p(2)
      by (auto simp: cache_run_ok_def distinct_massoc_delete) (metis Un_iff set_append)
  next
    case False
    then obtain t x tok where a: "answer = Payload tok x" "res = Inr (Some t)"
      "p = ?c\<lparr>tc_cache := massoc_set i \<lparr>ct_token = t, ct_expires = js_add (jint now) (cache_lifetime x)\<rparr> (tc_cache ?c)\<rparr>"
      using p(1) by (auto simp: perform_exchange_def split: token_answer.splits option.splits if_splits)
    then show ?thesis using cs_finish(3) p(2)
      by (auto simp: cache_run_ok_def distinct_massoc_delete distinct_massoc_set map_of_massoc_set obtained_event_def)
  qed
next
  case (cs_drop r i)
  then show ?case by (fastforce simp: cache_run_ok_def invalidate_integration_token_def distinct_massoc_delete map_of_massoc_delete)
qed

interpretation token_caches: kept_invariant start_cache cache_step cache_run_ok
proof
  show "cache_run_ok start_cache" by (simp add: cache_run_ok_def start_cache_def)
qed (rule cache_step_ok)

lemma js_max_jint: "js_max [jint a, jint b] = jint (max a b)"
proof -
  have "js_max2 JNegInf (jint a) = jint a" for a by (simp add: js_max2_def js_lt_def jint_def)
  moreover have "js_max2 (jint a) (jint b) = jint (max a b)" by (simp add: js_max2_def max_def)
  ultimately show ?thesis by (simp add: js_max_def)
qed

lemma cache_lifetime_jint:
  "1 \<le> n \<Longrightarrow> n \<le> 1000000000 \<Longrightarrow> cache_lifetime (Some (jint n)) = jint (max 5000 (n * 1000 - 30000))"
  by (simp add: cache_lifetime_def js_max_jint min_cache_ms_def expiry_safety_margin_ms_def)

text \<open>
  C31. A token served from the cache is one the token endpoint answered for that very integration, and
  it is younger than the larger of 5 seconds and its lifetime less 30; where the lifetime is at least
  35 seconds it still has more than 30 of them.
\<close>

theorem served_tokens_are_fresh:
  assumes "reachable start_cache cache_step r" and "served_token i now (cr_cache r) = Some t"
  shows "\<exists>s x. Obtained i t s x \<in> set (cr_events r) \<and>
    (\<forall>n. x = Some (jint n) \<longrightarrow> 1 \<le> n \<longrightarrow> n \<le> 1000000000 \<longrightarrow> 0 \<le> s \<longrightarrow> s \<le> 8000000000000000 \<longrightarrow>
       now < s + max 5000 (n * 1000 - 30000) \<and> (35 \<le> n \<longrightarrow> now + 30000 < s + n * 1000))"
proof -
  obtain e where e: "map_of (tc_cache (cr_cache r)) i = Some e" "js_lt (jint now) (ct_expires e)" "ct_token e = t"
    using assms(2) by (auto simp: served_token_def split: option.splits if_splits)
  then obtain s x where x: "Obtained i t s x \<in> set (cr_events r)" "ct_expires e = js_add (jint s) (cache_lifetime x)"
    using token_caches.holds [OF assms(1)] unfolding cache_run_ok_def by blast
  have "now < s + max 5000 (n * 1000 - 30000)"
    if "x = Some (jint n)" "1 \<le> n" "n \<le> 1000000000" "0 \<le> s" "s \<le> 8000000000000000" for n
    using e(2) that unfolding x(2) by (simp add: cache_lifetime_jint)
  then show ?thesis using x(1) by (intro exI [of _ s] exI [of _ x]) fastforce
qed

definition cache_after :: "jsnum option \<Rightarrow> cache_event list \<Rightarrow> cache_run" where
  "cache_after x es = \<lparr>cr_events = Obtained ''i1'' ''a'' 0 x # es,
     cr_cache = \<lparr>tc_cache = [(''i1'', \<lparr>ct_token = ''a'', ct_expires = js_add (jint 0) (cache_lifetime x)\<rparr>)], tc_in_flight = []\<rparr>\<rparr>"

text \<open>With or without an invalidation between the start of the exchange and its end.\<close>

lemma cache_after_reachable: "es = [] \<or> es = [Dropped ''i1''] \<Longrightarrow> reachable start_cache cache_step (cache_after x es)"
proof -
  assume es: "es = [] \<or> es = [Dropped ''i1'']"
  let ?begun = "\<lambda>es. \<lparr>cr_events = es, cr_cache = \<lparr>tc_cache = [], tc_in_flight = [(''i1'', 0)]\<rparr>\<rparr>"
  have "cache_step start_cache (?begun [])"
    using cs_start [of start_cache "''i1''" 0] by (simp add: start_cache_def start_exchange_def served_token_def massoc_has_def)
  then have begun: "reachable start_cache cache_step (?begun [])" by (rule reachable_step [OF reachable_start])
  have "cache_step (?begun []) (?begun [Dropped ''i1''])"
    using cs_drop [of "?begun []" "''i1''"] by (simp add: invalidate_integration_token_def)
  with begun have "reachable start_cache cache_step (?begun [Dropped ''i1''])" by (rule reachable_step)
  with begun es have "reachable start_cache cache_step (?begun es)" by blast
  moreover have "cache_step (?begun es) (cache_after x es)"
    using cs_finish [of "?begun es" "''i1''" 0 "Payload (Some ''a'') x"]
    by (simp add: finish_exchange_def perform_exchange_def obtained_event_def cache_after_def)
  ultimately show ?thesis by (rule reachable_step)
qed

lemma cache_after_serves:
  "1 \<le> n \<Longrightarrow> n \<le> 1000000000 \<Longrightarrow> now < max 5000 (n * 1000 - 30000) \<Longrightarrow>
     served_token ''i1'' now (cr_cache (cache_after (Some (jint n)) es)) = Some ''a''"
  by (simp add: cache_after_def served_token_def cache_lifetime_jint)

theorem fresh_token_witness:
  "\<exists>s. Obtained ''i1'' ''a'' s (Some (jint 900)) \<in> set (cr_events (cache_after (Some (jint 900)) [])) \<and> 800000 < s + 870000"
proof -
  have "served_token ''i1'' 800000 (cr_cache (cache_after (Some (jint 900)) [])) = Some ''a''"
    by (rule cache_after_serves) simp_all
  from served_tokens_are_fresh [OF cache_after_reachable this] show ?thesis by (auto simp: cache_after_def)
qed

text \<open>
  Two things the cache does all the same: a token of one second's life is served four seconds after it
  was obtained, the floor being above its life, and an exchange under way while the integration's token
  is invalidated puts the token it obtains into the cache afterwards, for the token's whole life.
\<close>

lemma a_short_token_is_served_after_it_expired:
  "reachable start_cache cache_step (cache_after (Some (jint 1)) []) \<and>
   served_token ''i1'' 4000 (cr_cache (cache_after (Some (jint 1)) [])) = Some ''a''"
  by (simp add: cache_after_reachable cache_after_serves)

lemma a_dropped_token_comes_back:
  "reachable start_cache cache_step (cache_after (Some (jint 900)) [Dropped ''i1'']) \<and>
   served_token ''i1'' 869999 (cr_cache (cache_after (Some (jint 900)) [Dropped ''i1''])) = Some ''a''"
  by (simp add: cache_after_reachable cache_after_serves)

end
