(* ===== verification/Js_Json.thy ===== *)
theory Js_Json
  imports Js_Value "HOL-Library.Multiset" "HOL-Library.Char_ord" "HOL-Library.List_Lexorder"
begin

text \<open>
  JSON as the language has it: what \<open>JSON.parse(JSON.stringify(v))\<close> makes of a value, the text of the
  result, and the canonical form under which a request is fingerprinted (\<open>canonicalJson\<close> of
  \<open>operations/execution-receipts.ts\<close>).
\<close>

section \<open>Objects and their order\<close>

text \<open>An object lists its array-index keys first, in ascending order, then the others as they were set.\<close>

definition js_own_order :: "(string \<times> 'a) list \<Rightarrow> (string \<times> 'a) list" where
  "js_own_order kvs =
     sort_key (\<lambda>(k, _). digits_value k) (filter (\<lambda>(k, _). index_key k \<noteq> None) kvs) @
     filter (\<lambda>(k, _). index_key k = None) kvs"

section \<open>\<open>JSON.stringify\<close>\<close>

text \<open>What survives: \<open>None\<close> for a value left out (undefined, a function).\<close>

fun json_value :: "jsval \<Rightarrow> jsval option" where
  "json_value VUndef = None"
| "json_value (VMember _) = None"
| "json_value VNull = Some VNull"
| "json_value (VBool b) = Some (VBool b)"
| "json_value (VNum n) = Some (if \<not> js_finite n then VNull else VNum (if n = JNegZero then JFin 0 else n))"
| "json_value (VStr s) = Some (VStr s)"
| "json_value (VDate t) = Some (case t of None \<Rightarrow> VNull | Some t \<Rightarrow> VStr (iso_string t))"
| "json_value (VArr _ xs) = Some (VArr None (map (\<lambda>x. case json_value x of Some y \<Rightarrow> y | None \<Rightarrow> VNull) xs))"
| "json_value (VObj _ kvs) =
     Some (VObj None (js_own_order (concat (map (\<lambda>kv. case json_value (snd kv) of Some y \<Rightarrow> [(fst kv, y)] | None \<Rightarrow> []) kvs))))"

definition json_escape :: "char \<Rightarrow> string" where
  "json_escape c =
     (if c = CHR 0x22 then [CHR 0x5C, CHR 0x22]
      else if c = CHR 0x5C then [CHR 0x5C, CHR 0x5C]
      else if c = CHR 0x08 then [CHR 0x5C, CHR ''b'']
      else if c = CHR 0x09 then [CHR 0x5C, CHR ''t'']
      else if c = CHR 0x0A then [CHR 0x5C, CHR ''n'']
      else if c = CHR 0x0C then [CHR 0x5C, CHR ''f'']
      else if c = CHR 0x0D then [CHR 0x5C, CHR ''r'']
      else if code c < 32
      then CHR 0x5C # ''u00'' @ [''0123456789abcdef'' ! (code c div 16), ''0123456789abcdef'' ! (code c mod 16)]
      else [c])"

definition json_quote :: "string \<Rightarrow> string" where
  "json_quote s = CHR 0x22 # concat (map json_escape s) @ [CHR 0x22]"

fun json_text :: "jsval \<Rightarrow> string" where
  "json_text (VBool b) = (if b then ''true'' else ''false'')"
| "json_text (VNum n) = number_text n"
| "json_text (VStr s) = json_quote s"
| "json_text (VArr _ xs) = CHR ''['' # join '','' (map json_text xs) @ '']''"
| "json_text (VObj _ kvs) = CHR ''{'' # join '','' (map (\<lambda>kv. json_quote (fst kv) @ CHR '':'' # json_text (snd kv)) kvs) @ ''}''"
| "json_text _ = ''null''"

section \<open>The canonical form\<close>

text \<open>\<open>None\<close>: the input is not JSON-safe.\<close>

fun canonical_json :: "jsval \<Rightarrow> jsval option" where
  "canonical_json VNull = Some VNull"
| "canonical_json (VStr s) = Some (VStr s)"
| "canonical_json (VBool b) = Some (VBool b)"
| "canonical_json (VNum n) = (if js_finite n then Some (VNum (if n = JNegZero then JFin 0 else n)) else None)"
| "canonical_json (VArr _ xs) = map_option (VArr None) (those (map canonical_json xs))"
| "canonical_json (VObj _ kvs) =
     map_option (\<lambda>ys. VObj None (js_own_order (sort_key fst ys)))
       (those (map (\<lambda>kv. map_option (Pair (fst kv)) (canonical_json (snd kv))) kvs))"
| "canonical_json _ = None"

lemma those_mset:
  assumes "mset xs = mset ys"
  shows "(those (map f xs) = None) = (those (map f ys) = None) \<and>
    (\<forall>us vs. those (map f xs) = Some us \<longrightarrow> those (map f ys) = Some vs \<longrightarrow> mset us = mset vs)"
proof -
  have n: "(those (map f zs) = None) = (\<exists>z \<in> set zs. f z = None)" for zs
    by (induction zs) (auto split: option.splits)
  have s: "those (map f zs) = Some us \<Longrightarrow> us = map (the \<circ> f) zs" for zs us
    by (induction zs arbitrary: us) (auto split: option.splits)
  have "set xs = set ys" using assms by (metis set_mset_mset)
  moreover have "mset (map (the \<circ> f) xs) = mset (map (the \<circ> f) ys)" using assms by simp
  ultimately show ?thesis using n s by metis
qed

lemma sort_by_key_unique:
  fixes us vs :: "('k :: linorder \<times> 'v) list"
  assumes "mset us = mset vs" and "distinct (map fst us)"
  shows "sort_key fst us = sort_key fst vs"
  by (rule sort_key_inj_key_eq) (use assms in \<open>simp_all add: distinct_map\<close>)

lemma those_keys:
  "those (map (\<lambda>kv. map_option (Pair (fst kv)) (g kv)) kvs) = Some us \<Longrightarrow> map fst us = map fst kvs"
  by (induction kvs arbitrary: us) (auto split: option.splits)

text \<open>The order in which an object lists its fields does not matter to its canonical form.\<close>

lemma canonical_json_reorder:
  assumes "mset kvs = mset kvs'" and "distinct (map fst kvs)"
  shows "canonical_json (VObj r kvs) = canonical_json (VObj r' kvs')"
proof -
  let ?f = "\<lambda>kv. map_option (Pair (fst kv)) (canonical_json (snd kv))"
  note t = those_mset [OF assms(1), of ?f]
  show ?thesis
  proof (cases "those (map ?f kvs)")
    case None
    then show ?thesis using t by simp
  next
    case (Some us)
    moreover obtain vs where vs: "those (map ?f kvs') = Some vs" using t Some by fastforce
    moreover have "sort_key fst us = sort_key fst vs"
      using t Some vs assms(2) those_keys [OF Some] by (intro sort_by_key_unique) auto
    ultimately show ?thesis by simp
  qed
qed

end
