(* ===== verification/Capability_Grants.thy ===== *)
theory Capability_Grants
  imports State_Machines Js_Json Api_Key_Rules Api_Key_Format
begin

text \<open>
  Capability grants (\<open>operations/capability-grant-token.ts\<close>, \<open>capability-grants.ts\<close>,
  \<open>capability-grant-resolution.ts\<close>): a link that lets its holder run named Operations on one record.
  The table \<open>platform.capability_grants\<close> is the list of its rows by identifier; every operation is one
  transaction, which sees the rows of its session's tenant.  The SHA-256 of a text, \<open>jsonb\<close> equality,
  random identifiers and secrets and the clock are arguments.
\<close>

section \<open>Tokens\<close>

definition uuid_pattern :: "bool list" where
  "uuid_pattern = replicate 8 True @ concat (replicate 3 (False # replicate 4 True)) @ False # replicate 12 True"

definition lower_hex :: "char \<Rightarrow> bool" where
  "lower_hex c = (is_digit c \<or> c \<in> set ''abcdef'')"

definition any_hex :: "char \<Rightarrow> bool" where
  "any_hex c = (is_digit c \<or> c \<in> set ''abcdefABCDEF'')"

definition uuid_form :: "(char \<Rightarrow> bool) \<Rightarrow> string \<Rightarrow> bool" where
  "uuid_form hex s = list_all2 (\<lambda>digit c. if digit then hex c else c = CHR ''-'') uuid_pattern s"

definition is_secret_form :: "string \<Rightarrow> bool" where
  "is_secret_form s =
     (length s = 43 \<and> list_all (\<lambda>c. c \<in> set base62 \<or> c = CHR ''_'' \<or> c = CHR ''-'') s)"

definition render_grant_token :: "string \<Rightarrow> string \<Rightarrow> string" where
  "render_grant_token i secret = i @ CHR ''.'' # secret"

definition parse_grant_token :: "string \<Rightarrow> (string \<times> string) option" where
  "parse_grant_token token =
     (let front = takeWhile (\<lambda>c. c \<noteq> CHR ''.'') token
      in if front = token \<or> front = [] then None
         else let i = to_lower front; secret = drop (length front + 1) token
              in if uuid_form lower_hex i \<and> is_secret_form secret then Some (i, secret) else None)"

text \<open>\<open>Buffer.from(s, "hex")\<close> stops at the first pair that is no byte.\<close>

definition hex_digit_value :: "char \<Rightarrow> nat option" where
  "hex_digit_value c =
     (if is_digit c then Some (code c - 48)
      else if c \<in> set ''abcdef'' then Some (code c - 87)
      else if c \<in> set ''ABCDEF'' then Some (code c - 55) else None)"

fun hex_bytes :: "string \<Rightarrow> nat list" where
  "hex_bytes (a # b # s) =
     (case (hex_digit_value a, hex_digit_value b) of
        (Some x, Some y) \<Rightarrow> (16 * x + y) # hex_bytes s
      | _ \<Rightarrow> [])"
| "hex_bytes _ = []"

definition grant_secret_matches :: "(string \<Rightarrow> string) \<Rightarrow> string \<Rightarrow> string \<Rightarrow> bool" where
  "grant_secret_matches h secret stored =
     (let presented = hex_bytes (h secret)
      in length presented = length (hex_bytes stored) \<and> list_all2 (=) presented (hex_bytes stored))"

definition grant_token_of_header :: "string option \<Rightarrow> string option" where
  "grant_token_of_header header =
     (case header of
        None \<Rightarrow> None
      | Some s \<Rightarrow>
          (let t = dropWhile is_space s; rest = drop 5 t; u = dropWhile is_space rest;
               token = takeWhile (\<lambda>c. \<not> is_space c) u
           in if to_lower (take 5 t) = ''grant'' \<and> u \<noteq> rest \<and> token \<noteq> [] \<and>
                 list_all is_space (drop (length token) u)
              then Some token else None))"

section \<open>The table\<close>

datatype grant_intent = MayGet | MayUpdate

record delegated_record =
  de_entity :: string
  de_id :: string
  de_intents :: "grant_intent list"

record grant =
  cg_tenant :: string
  cg_token_hash :: string
  cg_operations :: "string list"
  cg_subject_entity :: string
  cg_subject_id :: string
  cg_recipient :: jsval
  cg_records :: "delegated_record list"
  cg_issuer :: string
  cg_issued :: int
  cg_expires :: int
  cg_max_uses :: "int option"
  cg_uses :: int
  cg_consumed :: "int option"
  cg_revoked :: "int option"
  cg_reason :: "string option"
  cg_superseded :: "string option"
  cg_failed :: int
  cg_window :: "int option"
  cg_locked :: "int option"

record grant_table =
  gt_rows :: "(string \<times> grant) list"
  gt_journal :: "(string \<times> string) list"

definition no_grants :: grant_table where "no_grants = \<lparr>gt_rows = [], gt_journal = []\<rparr>"

definition grant_at :: "grant_table \<Rightarrow> string \<Rightarrow> grant option" where
  "grant_at T = map_of (gt_rows T)"

definition seen_grant :: "string \<Rightarrow> string \<Rightarrow> grant_table \<Rightarrow> grant option" where
  "seen_grant tenant i T =
     (case grant_at T i of None \<Rightarrow> None | Some g \<Rightarrow> if cg_tenant g = tenant then Some g else None)"

definition set_grant :: "string \<Rightarrow> grant \<Rightarrow> grant_table \<Rightarrow> grant_table" where
  "set_grant i g T = T\<lparr>gt_rows := massoc_set i g (gt_rows T)\<rparr>"

definition journal :: "string \<Rightarrow> string \<Rightarrow> grant_table \<Rightarrow> grant_table" where
  "journal type i T = T\<lparr>gt_journal := gt_journal T @ [(type, i)]\<rparr>"

datatype grant_status = StatusRevoked | StatusConsumed | StatusExpired | StatusActive

definition capability_grant_status :: "int \<Rightarrow> grant \<Rightarrow> grant_status" where
  "capability_grant_status now g =
     (if cg_revoked g \<noteq> None then StatusRevoked
      else if cg_consumed g \<noteq> None \<or> (case cg_max_uses g of None \<Rightarrow> False | Some m \<Rightarrow> m \<le> cg_uses g) then StatusConsumed
      else if cg_expires g \<le> now then StatusExpired
      else StatusActive)"

section \<open>Issuing\<close>

datatype grant_fault =
    NoIssuer
  | NoOperations
  | NotACapability string
  | NoSubjectEntity
  | BadSubjectId
  | BadRecipient
  | RecipientTooLong
  | TooManyRecords
  | BadRecord
  | RecordTwice
  | NoIssuerCheck
  | IssuerLacksAccess
  | NotInFuture
  | BadMaxUses
  | ReasonTooLong
  | BadRetention
  | NotStored

definition max_recipient_bytes :: nat where "max_recipient_bytes = 2048"

definition max_delegated_records :: nat where "max_delegated_records = 16"

definition max_reason_length :: nat where "max_reason_length = 500"

text \<open>The value as \<open>JSON.parse(JSON.stringify(recipient))\<close> leaves it.\<close>

definition validate_recipient :: "jsval \<Rightarrow> grant_fault + jsval" where
  "validate_recipient v =
     (case v of
        VObj _ kvs \<Rightarrow>
          (case map_of kvs ''kind'' of
             Some (VStr kind) \<Rightarrow>
               (if js_trim kind = [] then Inl BadRecipient
                else case json_value v of
                       None \<Rightarrow> Inl BadRecipient
                     | Some r \<Rightarrow> if max_recipient_bytes < length (utf8_bytes (json_text r)) then Inl RecipientTooLong else Inr r)
           | _ \<Rightarrow> Inl BadRecipient)
      | _ \<Rightarrow> Inl BadRecipient)"

definition intent_of :: "jsval \<Rightarrow> grant_intent option" where
  "intent_of v =
     (if v = VStr ''get'' then Some MayGet else if v = VStr ''update'' then Some MayUpdate else None)"

definition validate_record :: "jsval \<Rightarrow> delegated_record option" where
  "validate_record v =
     (case v of
        VObj _ kvs \<Rightarrow>
          (case (map_of kvs ''entity'', map_of kvs ''id'', map_of kvs ''intents'') of
             (Some (VStr entity), Some (VStr i), Some (VArr _ intents)) \<Rightarrow>
               (if js_trim entity = [] \<or> 200 < length entity \<or> \<not> uuid_form any_hex i \<or> intents = [] then None
                else case those (map intent_of intents) of
                       None \<Rightarrow> None
                     | Some ys \<Rightarrow> Some \<lparr>de_entity = entity, de_id = i, de_intents = uniq ys\<rparr>)
           | _ \<Rightarrow> None)
      | _ \<Rightarrow> None)"

fun validate_entries :: "string list \<Rightarrow> jsval list \<Rightarrow> grant_fault + delegated_record list" where
  "validate_entries seen [] = Inr []"
| "validate_entries seen (v # vs) =
     (case validate_record v of
        None \<Rightarrow> Inl BadRecord
      | Some d \<Rightarrow>
          (let key = de_entity d @ CHR 0x0A # de_id d
           in if key \<in> set seen then Inl RecordTwice
              else rbind (validate_entries (key # seen) vs) (\<lambda>ds. Inr (d # ds))))"

definition validate_records :: "jsval \<Rightarrow> grant_fault + delegated_record list" where
  "validate_records v =
     (case v of
        VUndef \<Rightarrow> Inr []
      | VNull \<Rightarrow> Inr []
      | VArr _ vs \<Rightarrow> if max_delegated_records < length vs then Inl TooManyRecords else validate_entries [] vs
      | _ \<Rightarrow> Inl BadRecord)"

record grant_input =
  gi_operations :: "string list"
  gi_subject_entity :: string
  gi_subject_id :: string
  gi_recipient :: jsval
  gi_records :: jsval
  gi_expires :: time_value
  gi_max_uses :: "jsnum option"
  gi_supersede :: bool

record issued_grant =
  is_id :: string
  is_token :: string
  is_expires :: int

text \<open>\<open>access\<close> proves that the issuer holds an intent on a record, when the host has such a check.\<close>

definition check_access :: "(string \<Rightarrow> string \<Rightarrow> grant_intent \<Rightarrow> bool) option \<Rightarrow> delegated_record list \<Rightarrow> grant_fault + unit" where
  "check_access access ds =
     (if ds = [] then Inr ()
      else case access of
             None \<Rightarrow> Inl NoIssuerCheck
           | Some may \<Rightarrow>
               (if list_all (\<lambda>d. list_all (may (de_entity d) (de_id d)) (de_intents d)) ds then Inr () else Inl IssuerLacksAccess))"

definition checked_max :: "jsnum option \<Rightarrow> grant_fault + int option" where
  "checked_max n =
     (case n of None \<Rightarrow> Inr None | Some m \<Rightarrow> if positive_integer m then Inr (Some \<lfloor>js_val m\<rfloor>) else Inl BadMaxUses)"

definition first_fault :: "(bool \<times> grant_fault) list \<Rightarrow> grant_fault + unit" where
  "first_fault checks = (case find_first fst checks of None \<Rightarrow> Inr () | Some (_, f) \<Rightarrow> Inl f)"

definition planned_grant ::
  "string list \<Rightarrow> (string \<Rightarrow> string \<Rightarrow> grant_intent \<Rightarrow> bool) option \<Rightarrow> string \<Rightarrow> string \<Rightarrow> int \<Rightarrow> string \<Rightarrow> grant_input \<Rightarrow>
   grant_fault + grant" where
  "planned_grant capabilities access tenant user now hash inp =
     (let operations = uniq (gi_operations inp)
      in rbind (first_fault
           ([(tenant = [] \<or> user = [], NoIssuer), (operations = [], NoOperations)] @
            map (\<lambda>k. (k \<notin> set capabilities, NotACapability k)) operations @
            [(js_trim (gi_subject_entity inp) = [], NoSubjectEntity), (\<not> uuid_form any_hex (gi_subject_id inp), BadSubjectId)])) (\<lambda>_.
         rbind (validate_recipient (gi_recipient inp)) (\<lambda>recipient.
         rbind (validate_records (gi_records inp)) (\<lambda>records.
         rbind (check_access access records) (\<lambda>_.
         rbind (case gi_expires inp of None \<Rightarrow> Inl NotInFuture | Some e \<Rightarrow> if e \<le> now then Inl NotInFuture else Inr e) (\<lambda>expires.
         rbind (checked_max (gi_max_uses inp)) (\<lambda>max_uses.
           Inr \<lparr>cg_tenant = tenant, cg_token_hash = hash, cg_operations = operations,
                cg_subject_entity = gi_subject_entity inp, cg_subject_id = to_lower (gi_subject_id inp),
                cg_recipient = recipient, cg_records = records, cg_issuer = user, cg_issued = now, cg_expires = expires,
                cg_max_uses = max_uses, cg_uses = 0, cg_consumed = None, cg_revoked = None, cg_reason = None,
                cg_superseded = None, cg_failed = 0, cg_window = None, cg_locked = None\<rparr>)))))))"

definition superseded_by_issue :: "(jsval \<Rightarrow> jsval \<Rightarrow> bool) \<Rightarrow> int \<Rightarrow> grant \<Rightarrow> grant \<Rightarrow> bool" where
  "superseded_by_issue same_json now new g =
     (cg_tenant g = cg_tenant new \<and> cg_subject_entity g = cg_subject_entity new \<and> cg_subject_id g = cg_subject_id new \<and>
      same_json (cg_recipient g) (cg_recipient new) \<and> cg_revoked g = None \<and> cg_consumed g = None \<and> now < cg_expires g)"

definition supersede ::
  "(jsval \<Rightarrow> jsval \<Rightarrow> bool) \<Rightarrow> int \<Rightarrow> string \<Rightarrow> grant \<Rightarrow> grant_table \<Rightarrow> string list \<times> grant_table" where
  "supersede same_json now i new T =
     (let gone = map fst (filter (\<lambda>(_, g). superseded_by_issue same_json now new g) (gt_rows T))
      in (gone,
          \<lparr>gt_rows = map (\<lambda>(k, g). (k, if superseded_by_issue same_json now new g
                     then g\<lparr>cg_revoked := Some now, cg_reason := Some ''superseded'', cg_superseded := Some i\<rparr> else g)) (gt_rows T),
           gt_journal = gt_journal T @ map (Pair ''capability_grant_revoked'') gone\<rparr>))"

text \<open>The insert fails when the identifier or the hash is taken, or the ceiling is no 32-bit integer.\<close>

definition issue_grant ::
  "(string \<Rightarrow> string) \<Rightarrow> (jsval \<Rightarrow> jsval \<Rightarrow> bool) \<Rightarrow> string list \<Rightarrow> (string \<Rightarrow> string \<Rightarrow> grant_intent \<Rightarrow> bool) option \<Rightarrow>
   string \<Rightarrow> string \<Rightarrow> int \<Rightarrow> string \<Rightarrow> string \<Rightarrow> grant_input \<Rightarrow> grant_table \<Rightarrow>
   (grant_fault + issued_grant \<times> string list) \<times> grant_table" where
  "issue_grant h same_json capabilities access tenant user now i secret inp T =
     (case planned_grant capabilities access tenant user now (h secret) inp of
        Inl f \<Rightarrow> (Inl f, T)
      | Inr g \<Rightarrow>
          (if grant_at T i \<noteq> None \<or> list_ex (\<lambda>(_, r). cg_token_hash r = h secret) (gt_rows T) \<or>
              (case cg_max_uses g of None \<Rightarrow> False | Some m \<Rightarrow> 2147483647 < m)
           then (Inl NotStored, T)
           else case (if gi_supersede inp then supersede same_json now i g T else ([], T)) of
                  (gone, T1) \<Rightarrow>
                    (Inr (\<lparr>is_id = i, is_token = render_grant_token i secret, is_expires = cg_expires g\<rparr>, gone),
                     journal ''capability_grant_issued'' i (set_grant i g T1))))"

section \<open>Revoking, listing, purging\<close>

definition read_grant :: "string \<Rightarrow> string \<Rightarrow> grant_table \<Rightarrow> grant option" where
  "read_grant tenant i T = (if uuid_form any_hex i then seen_grant tenant (to_lower i) T else None)"

definition revoke_grant ::
  "string \<Rightarrow> int \<Rightarrow> string \<Rightarrow> string option \<Rightarrow> grant_table \<Rightarrow> (grant_fault + (grant \<times> grant_status) option) \<times> grant_table" where
  "revoke_grant tenant now i reason T =
     (let reason = (case reason of None \<Rightarrow> None | Some r \<Rightarrow> if js_trim r = [] then None else Some (js_trim r))
      in if (case reason of None \<Rightarrow> False | Some r \<Rightarrow> max_reason_length < length r) then (Inl ReasonTooLong, T)
         else case read_grant tenant i T of
                None \<Rightarrow> (Inr None, T)
              | Some g \<Rightarrow>
                  (if capability_grant_status now g \<noteq> StatusActive then (Inr (Some (g, capability_grant_status now g)), T)
                   else let g' = g\<lparr>cg_revoked := Some now, cg_reason := reason\<rparr>
                        in (Inr (Some (g', capability_grant_status now g')),
                            journal ''capability_grant_revoked'' i (set_grant (to_lower i) g' T))))"

definition list_grants :: "string \<Rightarrow> int \<Rightarrow> string \<Rightarrow> string \<Rightarrow> grant_table \<Rightarrow> (string \<times> grant \<times> grant_status) list" where
  "list_grants tenant now entity i T =
     (if \<not> uuid_form any_hex i then []
      else map (\<lambda>(k, g). (k, g, capability_grant_status now g))
             (sort_key (\<lambda>(_, g). - cg_issued g) (sort_key fst
               (filter (\<lambda>(_, g). cg_tenant g = tenant \<and> cg_subject_entity g = entity \<and> cg_subject_id g = to_lower i) (gt_rows T)))))"

definition default_grant_retention_days :: int where "default_grant_retention_days = 30"

definition purge_grants :: "string \<Rightarrow> jsnum \<Rightarrow> int \<Rightarrow> grant_table \<Rightarrow> (grant_fault + nat) \<times> grant_table" where
  "purge_grants tenant retain now T =
     (if \<not> (positive_integer retain \<or> js_is_zero retain) then (Inl BadRetention, T)
      else case date_of_number (js_sub (jint now)
                 (js_mul (js_mul (js_mul (js_mul retain (jint 24)) (jint 60)) (jint 60)) (jint 1000))) of
             None \<Rightarrow> (Inl NotStored, T)
           | Some cutoff \<Rightarrow>
               (let dead = \<lambda>g. cg_tenant g = tenant \<and> (cg_expires g < cutoff \<or> (case cg_revoked g of None \<Rightarrow> False | Some t \<Rightarrow> t < cutoff))
                in (Inr (length (filter (\<lambda>(_, g). dead g) (gt_rows T))),
                    T\<lparr>gt_rows := filter (\<lambda>(_, g). \<not> dead g) (gt_rows T)\<rparr>)))"

end
