(* ===== verification/Capability_Grant_Use.thy ===== *)
theory Capability_Grant_Use
  imports Capability_Grants
begin

text \<open>
  Using a capability grant (\<open>operations/capability-grant-resolution.ts\<close>): a presented token is resolved
  in a transaction of its own, which commits what the attempt taught even when it is refused; the use is
  counted in the transaction of the Operation.
\<close>

section \<open>Resolving\<close>

definition max_failed_attempts :: int where "max_failed_attempts = 5"

definition attempt_window_ms :: int where "attempt_window_ms = 15 * 60 * 1000"

definition attempt_lock_ms :: int where "attempt_lock_ms = 15 * 60 * 1000"

datatype grant_refusal = GrantInvalid | GrantScope | GrantConsumed | GrantExpired | GrantRevoked | GrantLocked

record grant_session =
  gs_tenant :: string
  gs_grant :: string
  gs_subject_entity :: string
  gs_subject_id :: string
  gs_recipient :: jsval
  gs_operations :: "string list"
  gs_records :: "delegated_record list"
  gs_expires :: int
  gs_max_uses :: "int option"

definition session_of_grant :: "string \<Rightarrow> grant \<Rightarrow> grant_session" where
  "session_of_grant i g =
     \<lparr>gs_tenant = cg_tenant g, gs_grant = i, gs_subject_entity = cg_subject_entity g, gs_subject_id = cg_subject_id g,
      gs_recipient = cg_recipient g, gs_operations = cg_operations g, gs_records = cg_records g,
      gs_expires = cg_expires g, gs_max_uses = cg_max_uses g\<rparr>"

definition status_refusal :: "int \<Rightarrow> grant \<Rightarrow> grant_refusal option" where
  "status_refusal now g =
     (case capability_grant_status now g of
        StatusRevoked \<Rightarrow> Some GrantRevoked
      | StatusConsumed \<Rightarrow> Some GrantConsumed
      | StatusExpired \<Rightarrow> Some GrantExpired
      | StatusActive \<Rightarrow> None)"

definition grant_locked :: "int \<Rightarrow> grant \<Rightarrow> bool" where
  "grant_locked now g = (case cg_locked g of None \<Rightarrow> False | Some t \<Rightarrow> now < t)"

definition failed_attempt :: "int \<Rightarrow> grant \<Rightarrow> grant" where
  "failed_attempt now g =
     (let in_window = (case cg_window g of None \<Rightarrow> False | Some w \<Rightarrow> now - w < attempt_window_ms);
          attempts = (if in_window then cg_failed g + 1 else 1)
      in g\<lparr>cg_failed := attempts, cg_window := (if in_window then cg_window g else Some now),
           cg_locked := (if max_failed_attempts \<le> attempts then Some (now + attempt_lock_ms) else None)\<rparr>)"

definition record_failed_attempt :: "int \<Rightarrow> string \<Rightarrow> grant \<Rightarrow> grant_table \<Rightarrow> grant_refusal \<times> grant_table" where
  "record_failed_attempt now i g T =
     (let g' = failed_attempt now g; T' = set_grant i g' T
      in if max_failed_attempts \<le> cg_failed g' then (GrantLocked, journal ''capability_grant_locked'' i T')
         else (GrantInvalid, T'))"

definition clear_attempts :: "grant \<Rightarrow> grant" where
  "clear_attempts g =
     (if 0 < cg_failed g \<or> cg_locked g \<noteq> None then g\<lparr>cg_failed := 0, cg_window := None, cg_locked := None\<rparr> else g)"

text \<open>The tenant is read first (\<open>T0\<close>), the row in the transaction of that tenant (\<open>T\<close>).\<close>

definition resolve_grant ::
  "(string \<Rightarrow> string) \<Rightarrow> string option \<Rightarrow> string \<Rightarrow> string option \<Rightarrow> int \<Rightarrow> grant_table \<Rightarrow> grant_table \<Rightarrow>
   (grant_refusal + grant_session) \<times> grant_table" where
  "resolve_grant h token op_key op_target now T0 T =
     (case (case token of None \<Rightarrow> None | Some t \<Rightarrow> parse_grant_token t) of
        None \<Rightarrow> (Inl GrantInvalid, T)
      | Some (i, secret) \<Rightarrow>
          (case grant_at T0 i of
             None \<Rightarrow> (Inl GrantInvalid, T)
           | Some g0 \<Rightarrow>
               (case seen_grant (cg_tenant g0) i T of
                  None \<Rightarrow> (Inl GrantInvalid, T)
                | Some g \<Rightarrow>
                    (if grant_locked now g then (Inl GrantLocked, T)
                     else if \<not> grant_secret_matches h secret (cg_token_hash g)
                     then (case record_failed_attempt now i g T of (f, T') \<Rightarrow> (Inl f, T'))
                     else let T' = (if clear_attempts g = g then T else set_grant i (clear_attempts g) T)
                          in case status_refusal now g of
                               Some f \<Rightarrow> (Inl f, T')
                             | None \<Rightarrow>
                                 (if op_key \<notin> set (cg_operations g) then (Inl GrantScope, T')
                                  else if (case op_target of None \<Rightarrow> False | Some e \<Rightarrow> e \<noteq> cg_subject_entity g)
                                  then (Inl GrantScope, T')
                                  else (Inr (session_of_grant i g), T'))))))"

section \<open>Consuming\<close>

definition usable :: "int \<Rightarrow> grant \<Rightarrow> bool" where
  "usable now g =
     (cg_revoked g = None \<and> cg_consumed g = None \<and> (case cg_max_uses g of None \<Rightarrow> True | Some m \<Rightarrow> cg_uses g < m) \<and>
      now < cg_expires g \<and> \<not> grant_locked now g)"

definition used_grant :: "int \<Rightarrow> grant \<Rightarrow> grant" where
  "used_grant now g =
     g\<lparr>cg_uses := cg_uses g + 1,
       cg_consumed := (if (case cg_max_uses g of None \<Rightarrow> False | Some m \<Rightarrow> m \<le> cg_uses g + 1) then Some now else cg_consumed g)\<rparr>"

definition consume_grant ::
  "grant_session \<Rightarrow> int \<Rightarrow> grant_table \<Rightarrow> (grant_refusal + int \<times> bool) \<times> grant_table" where
  "consume_grant s now T =
     (case seen_grant (gs_tenant s) (gs_grant s) T of
        None \<Rightarrow> (Inl GrantInvalid, T)
      | Some g \<Rightarrow>
          (if usable now g
           then let g' = used_grant now g
                in (Inr (cg_uses g', cg_consumed g' \<noteq> None), journal ''capability_grant_used'' (gs_grant s) (set_grant (gs_grant s) g' T))
           else if grant_locked now g then (Inl GrantLocked, T)
           else (Inl (case status_refusal now g of Some f \<Rightarrow> f | None \<Rightarrow> GrantInvalid), T)))"

section \<open>Runs\<close>

datatype grant_event =
    GrantIssued string "int option"
  | GrantUsed string
  | GrantWithdrawn string

definition uses_of :: "string \<Rightarrow> grant_event list \<Rightarrow> int" where
  "uses_of i es = int (length (filter (\<lambda>e. e = GrantUsed i) es))"

text \<open>
  Identifiers are fresh when they are made; whatever token is presented, whatever session is consumed.
  A revocation that finds the grant active, and an issue that supersedes it, withdraw it.
\<close>

inductive grant_step ::
  "(string \<Rightarrow> string) \<Rightarrow> (jsval \<Rightarrow> jsval \<Rightarrow> bool) \<Rightarrow> grant_event list \<times> grant_table \<Rightarrow> grant_event list \<times> grant_table \<Rightarrow> bool"
  for h same_json where
  gr_issue: "(\<forall>m. GrantIssued i m \<notin> set es) \<Longrightarrow>
    issue_grant h same_json capabilities access tenant user now i secret inp T = (Inr (issued, gone), T') \<Longrightarrow>
    grant_step h same_json (es, T)
      (GrantIssued i (case grant_at T' i of Some g \<Rightarrow> cg_max_uses g | None \<Rightarrow> None) # map GrantWithdrawn gone @ es, T')"
| gr_resolve: "resolve_grant h token op_key op_target now T0 T = (res, T') \<Longrightarrow> grant_step h same_json (es, T) (es, T')"
| gr_consume: "consume_grant s now T = (Inr u, T') \<Longrightarrow> grant_step h same_json (es, T) (GrantUsed (gs_grant s) # es, T')"
| gr_revoke: "revoke_grant tenant now i reason T = (Inr (Some (g, st)), T') \<Longrightarrow>
    grant_step h same_json (es, T) ((if st = StatusRevoked then [GrantWithdrawn (to_lower i)] else []) @ es, T')"
| gr_purge: "purge_grants tenant retain now T = (Inr n, T') \<Longrightarrow> grant_step h same_json (es, T) (es, T')"

section \<open>Invariant\<close>

definition grant_ok :: "grant_event list \<Rightarrow> string \<Rightarrow> grant \<Rightarrow> bool" where
  "grant_ok es i g =
     (GrantIssued i (cg_max_uses g) \<in> set es \<and> cg_uses g = uses_of i es \<and>
      (\<forall>m. cg_max_uses g = Some m \<longrightarrow> cg_uses g \<le> m) \<and> (GrantWithdrawn i \<in> set es \<longrightarrow> cg_revoked g \<noteq> None))"

definition grants_ok :: "grant_event list \<Rightarrow> (string \<Rightarrow> grant option) \<Rightarrow> bool" where
  "grants_ok es G =
     ((\<forall>i g. G i = Some g \<longrightarrow> grant_ok es i g) \<and>
      (\<forall>i m. GrantIssued i (Some m) \<in> set es \<longrightarrow> uses_of i es \<le> m) \<and>
      (\<forall>i. GrantUsed i \<in> set es \<longrightarrow> (\<exists>m. GrantIssued i m \<in> set es)) \<and>
      (\<forall>i. GrantWithdrawn i \<in> set es \<longrightarrow> (\<exists>m. GrantIssued i m \<in> set es)) \<and>
      (\<forall>i m m'. GrantIssued i m \<in> set es \<longrightarrow> GrantIssued i m' \<in> set es \<longrightarrow> m = m'))"

definition grant_rows_distinct :: "grant_table \<Rightarrow> bool" where
  "grant_rows_distinct T = distinct (map fst (gt_rows T))"

definition grant_run_ok :: "grant_event list \<times> grant_table \<Rightarrow> bool" where
  "grant_run_ok s = (grants_ok (fst s) (grant_at (snd s)) \<and> grant_rows_distinct (snd s))"

lemma grant_at_set [simp]:
  "grant_at (set_grant i g T) = (grant_at T)(i \<mapsto> g)"
  "grant_at (journal type i T) = grant_at T"
  by (simp_all add: grant_at_def set_grant_def journal_def map_of_massoc_set)

lemma grant_rows_distinct_set [simp]:
  "grant_rows_distinct T \<Longrightarrow> grant_rows_distinct (set_grant i g T)"
  "grant_rows_distinct (journal type i T) = grant_rows_distinct T"
  by (simp_all add: grant_rows_distinct_def set_grant_def journal_def distinct_massoc_set)

lemma seen_grant_Some: "seen_grant tenant i T = Some g \<longleftrightarrow> grant_at T i = Some g \<and> cg_tenant g = tenant"
  by (auto simp: seen_grant_def split: option.splits)

lemma uses_of_simps [simp]:
  "uses_of i [] = 0"
  "uses_of i (GrantUsed j # es) = (if j = i then 1 else 0) + uses_of i es"
  "uses_of i (GrantIssued j m # es) = uses_of i es"
  "uses_of i (GrantWithdrawn j # es) = uses_of i es"
  by (simp_all add: uses_of_def)

lemma uses_of_withdrawn [simp]: "uses_of i (map GrantWithdrawn gone @ es) = uses_of i es"
  by (induction gone) simp_all

lemma grants_okD:
  "grants_ok es G \<Longrightarrow> G i = Some g \<Longrightarrow> grant_ok es i g"
  "grants_ok es G \<Longrightarrow> GrantIssued i (Some m) \<in> set es \<Longrightarrow> uses_of i es \<le> m"
  "grants_ok es G \<Longrightarrow> GrantUsed i \<in> set es \<Longrightarrow> \<exists>m. GrantIssued i m \<in> set es"
  "grants_ok es G \<Longrightarrow> GrantWithdrawn i \<in> set es \<Longrightarrow> \<exists>m. GrantIssued i m \<in> set es"
  "grants_ok es G \<Longrightarrow> GrantIssued i m' \<in> set es \<Longrightarrow> GrantIssued i m'' \<in> set es \<Longrightarrow> m' = m''"
  unfolding grants_ok_def by blast+

lemma grants_okI:
  assumes "\<And>i g. G i = Some g \<Longrightarrow> grant_ok es i g" "\<And>i m. GrantIssued i (Some m) \<in> set es \<Longrightarrow> uses_of i es \<le> m"
    "\<And>i. GrantUsed i \<in> set es \<Longrightarrow> \<exists>m. GrantIssued i m \<in> set es"
    "\<And>i. GrantWithdrawn i \<in> set es \<Longrightarrow> \<exists>m. GrantIssued i m \<in> set es"
    "\<And>i m m'. GrantIssued i m \<in> set es \<Longrightarrow> GrantIssued i m' \<in> set es \<Longrightarrow> m = m'"
  shows "grants_ok es G"
  unfolding grants_ok_def using assms by blast

lemma grants_ok_fewer: "grants_ok es G \<Longrightarrow> (\<And>i g. G' i = Some g \<Longrightarrow> G i = Some g) \<Longrightarrow> grants_ok es G'"
  unfolding grants_ok_def by blast

lemma grants_ok_rows:
  assumes ok: "grants_ok es G"
    and r: "\<And>i g'. G' i = Some g' \<Longrightarrow> \<exists>g. G i = Some g \<and> cg_max_uses g' = cg_max_uses g \<and> cg_uses g' = cg_uses g \<and>
        (cg_revoked g \<noteq> None \<longrightarrow> cg_revoked g' \<noteq> None)"
  shows "grants_ok es G'"
proof (rule grants_okI)
  fix i g' assume "G' i = Some g'"
  with r obtain g where g: "G i = Some g" "cg_max_uses g' = cg_max_uses g" "cg_uses g' = cg_uses g"
    "cg_revoked g \<noteq> None \<longrightarrow> cg_revoked g' \<noteq> None" by blast
  show "grant_ok es i g'" using grants_okD(1) [OF ok g(1)] g(2-) by (auto simp: grant_ok_def)
qed (use grants_okD(2-) [OF ok] in blast)+

lemma grants_ok_update:
  assumes "grants_ok es G" "G i = Some g" "cg_max_uses g' = cg_max_uses g" "cg_uses g' = cg_uses g"
    "cg_revoked g \<noteq> None \<Longrightarrow> cg_revoked g' \<noteq> None"
  shows "grants_ok es (G(i \<mapsto> g'))"
  using assms(1) by (rule grants_ok_rows) (use assms(2-) in \<open>auto split: if_splits\<close>)

lemma grants_ok_withdrawn:
  assumes ok: "grants_ok es G" and g: "\<And>i. i \<in> set gone \<Longrightarrow> \<exists>g. G i = Some g \<and> cg_revoked g \<noteq> None"
  shows "grants_ok (map GrantWithdrawn gone @ es) G"
proof -
  have w: "GrantWithdrawn i \<in> set (map GrantWithdrawn gone @ es) \<longleftrightarrow> i \<in> set gone \<or> GrantWithdrawn i \<in> set es" for i by auto
  have n: "GrantIssued i m \<in> set (map GrantWithdrawn gone @ es) \<longleftrightarrow> GrantIssued i m \<in> set es"
    "GrantUsed i \<in> set (map GrantWithdrawn gone @ es) \<longleftrightarrow> GrantUsed i \<in> set es" for i m by auto
  show ?thesis
  proof (rule grants_okI)
    fix i r assume r: "G i = Some r"
    show "grant_ok (map GrantWithdrawn gone @ es) i r"
      using grants_okD(1) [OF ok r] g [of i] r unfolding grant_ok_def w n by auto
  next
    fix i assume "GrantWithdrawn i \<in> set (map GrantWithdrawn gone @ es)"
    then show "\<exists>m. GrantIssued i m \<in> set (map GrantWithdrawn gone @ es)" unfolding w n
    proof
      assume "i \<in> set gone"
      then obtain r where "G i = Some r" using g by blast
      then show "\<exists>m. GrantIssued i m \<in> set es" using grants_okD(1) [OF ok] unfolding grant_ok_def by blast
    qed (rule grants_okD(4) [OF ok])
  qed (use grants_okD [OF ok] in \<open>unfold n, auto\<close>)
qed

lemma grants_ok_used:
  assumes ok: "grants_ok es G" and g: "G i = Some g" and u: "usable now g"
  shows "grants_ok (GrantUsed i # es) (G(i \<mapsto> used_grant now g))"
proof -
  note gi = grants_okD(1) [OF ok g, unfolded grant_ok_def]
  have le: "uses_of i es + 1 \<le> m" if "cg_max_uses g = Some m" for m using u gi that by (simp add: usable_def)
  show ?thesis
  proof (rule grants_okI)
    fix j r assume r: "(G(i \<mapsto> used_grant now g)) j = Some r"
    show "grant_ok (GrantUsed i # es) j r"
    proof (cases "j = i")
      case True
      then show ?thesis using r gi le by (auto simp: grant_ok_def used_grant_def)
    next
      case False
      then show ?thesis using r grants_okD(1) [OF ok, of j r] by (auto simp: grant_ok_def)
    qed
  next
    fix j m assume "GrantIssued j (Some m) \<in> set (GrantUsed i # es)"
    then have j: "GrantIssued j (Some m) \<in> set es" by simp
    show "uses_of j (GrantUsed i # es) \<le> m"
    proof (cases "j = i")
      case True
      then have "cg_max_uses g = Some m" using grants_okD(5) [OF ok _ j] gi by blast
      then show ?thesis using le True by simp
    qed (use grants_okD(2) [OF ok j] in simp)
  qed (use grants_okD(3-) [OF ok] gi in auto)
qed

lemma grants_ok_issued:
  assumes ok: "grants_ok es G" and fresh: "\<And>m. GrantIssued i m \<notin> set es" and g: "cg_uses g = 0" "\<And>m. cg_max_uses g = Some m \<Longrightarrow> 1 \<le> m"
  shows "grants_ok (GrantIssued i (cg_max_uses g) # es) (G(i \<mapsto> g))"
proof -
  have no: "GrantUsed i \<notin> set es" "GrantWithdrawn i \<notin> set es" using grants_okD(3,4) [OF ok, of i] fresh by blast+
  then have z: "uses_of i es = 0" by (auto simp: uses_of_def filter_empty_conv)
  show ?thesis
  proof (rule grants_okI)
    fix j r assume r: "(G(i \<mapsto> g)) j = Some r"
    show "grant_ok (GrantIssued i (cg_max_uses g) # es) j r"
    proof (cases "j = i")
      case True
      then show ?thesis using r g z no by (fastforce simp: grant_ok_def)
    qed (use r grants_okD(1) [OF ok, of j r] in \<open>auto simp: grant_ok_def\<close>)
  next
    fix j m assume "GrantIssued j (Some m) \<in> set (GrantIssued i (cg_max_uses g) # es)"
    then consider "j = i" "cg_max_uses g = Some m" | "GrantIssued j (Some m) \<in> set es" by auto
    then show "uses_of j (GrantIssued i (cg_max_uses g) # es) \<le> m"
      using z g(2) grants_okD(2) [OF ok] by cases force+
  next
    fix j assume "GrantUsed j \<in> set (GrantIssued i (cg_max_uses g) # es)"
    then show "\<exists>m. GrantIssued j m \<in> set (GrantIssued i (cg_max_uses g) # es)" using grants_okD(3) [OF ok, of j] by auto
  next
    fix j assume "GrantWithdrawn j \<in> set (GrantIssued i (cg_max_uses g) # es)"
    then show "\<exists>m. GrantIssued j m \<in> set (GrantIssued i (cg_max_uses g) # es)" using grants_okD(4) [OF ok, of j] by auto
  next
    fix j m m' assume "GrantIssued j m \<in> set (GrantIssued i (cg_max_uses g) # es)" "GrantIssued j m' \<in> set (GrantIssued i (cg_max_uses g) # es)"
    then show "m = m'" using grants_okD(5) [OF ok, of j m m'] fresh by auto
  qed
qed

section \<open>What each step keeps\<close>

lemma supersede_at:
  "supersede same_json now i new T = (gone, T1) \<Longrightarrow>
     grant_at T1 k = map_option (\<lambda>g. if superseded_by_issue same_json now new g
       then g\<lparr>cg_revoked := Some now, cg_reason := Some ''superseded'', cg_superseded := Some i\<rparr> else g) (grant_at T k)"
  by (auto simp: supersede_def Let_def grant_at_def map_of_map)

lemma supersede_gone:
  assumes "supersede same_json now i new T = (gone, T1)" and "grant_rows_distinct T" and "k \<in> set gone"
  shows "\<exists>g. grant_at T1 k = Some g \<and> cg_revoked g \<noteq> None"
proof -
  obtain g where g: "(k, g) \<in> set (gt_rows T)" "superseded_by_issue same_json now new g"
    using assms(1,3) by (auto simp: supersede_def Let_def)
  then have "grant_at T k = Some g" using assms(2) by (simp add: grant_at_def grant_rows_distinct_def)
  then show ?thesis using supersede_at [OF assms(1)] g(2) by simp
qed

lemma supersede_distinct:
  "supersede same_json now i new T = (gone, T1) \<Longrightarrow> grant_rows_distinct T \<Longrightarrow> grant_rows_distinct T1"
  by (auto simp: supersede_def Let_def grant_rows_distinct_def comp_def case_prod_beta)

lemma planned_grant_Inr:
  assumes "planned_grant capabilities access tenant user now hash inp = Inr g"
  shows "cg_tenant g = tenant \<and> tenant \<noteq> [] \<and> cg_token_hash g = hash \<and> cg_uses g = 0 \<and> cg_revoked g = None \<and> cg_consumed g = None \<and>
    now < cg_expires g \<and> cg_operations g \<noteq> [] \<and> set (cg_operations g) \<subseteq> set capabilities \<and> (\<forall>m. cg_max_uses g = Some m \<longrightarrow> 1 \<le> m) \<and>
    check_access access (cg_records g) = Inr ()"
proof -
  obtain u :: unit and recipient records expires max_uses where p: "first_fault
       ([(tenant = [] \<or> user = [], NoIssuer), (uniq (gi_operations inp) = [], NoOperations)] @
        map (\<lambda>k. (k \<notin> set capabilities, NotACapability k)) (uniq (gi_operations inp)) @
        [(js_trim (gi_subject_entity inp) = [], NoSubjectEntity), (\<not> uuid_form any_hex (gi_subject_id inp), BadSubjectId)]) = Inr ()"
    "check_access access records = Inr u" "(case gi_expires inp of None \<Rightarrow> Inl NotInFuture | Some e \<Rightarrow> if e \<le> now then Inl NotInFuture else Inr e) = Inr expires"
    "checked_max (gi_max_uses inp) = Inr max_uses" "g = \<lparr>cg_tenant = tenant, cg_token_hash = hash, cg_operations = uniq (gi_operations inp),
                cg_subject_entity = gi_subject_entity inp, cg_subject_id = to_lower (gi_subject_id inp),
                cg_recipient = recipient, cg_records = records, cg_issuer = user, cg_issued = now, cg_expires = expires,
                cg_max_uses = max_uses, cg_uses = 0, cg_consumed = None, cg_revoked = None, cg_reason = None,
                cg_superseded = None, cg_failed = 0, cg_window = None, cg_locked = None\<rparr>"
    using assms by (auto simp: planned_grant_def Let_def rbind_Inr_iff)
  have f: "tenant \<noteq> []" "uniq (gi_operations inp) \<noteq> []" "\<forall>k \<in> set (gi_operations inp). k \<in> set capabilities"
    using p(1) by (auto simp: first_fault_def find_first_None split: option.splits if_splits)
  have "now < expires" using p(3) by (auto split: option.splits if_splits)
  moreover have "\<forall>m. max_uses = Some m \<longrightarrow> 1 \<le> m"
    using p(4) positive_integer_jint by (fastforce simp: checked_max_def split: option.splits if_splits)
  ultimately show ?thesis using f p(2,5) by auto
qed


lemma issue_grant_ok:
  assumes ok: "grant_run_ok (es, T)" and fresh: "\<And>m. GrantIssued i m \<notin> set es"
    and c: "issue_grant h same_json capabilities access tenant user now i secret inp T = (Inr (issued, gone), T')"
  shows "grant_run_ok (GrantIssued i (case grant_at T' i of Some g \<Rightarrow> cg_max_uses g | None \<Rightarrow> None) # map GrantWithdrawn gone @ es, T')"
proof -
  obtain g T1 where g: "planned_grant capabilities access tenant user now (h secret) inp = Inr g"
    "(if gi_supersede inp then supersede same_json now i g T else ([], T)) = (gone, T1)"
    "T' = journal ''capability_grant_issued'' i (set_grant i g T1)"
    using c by (auto simp: issue_grant_def split: sum.splits if_splits prod.splits)
  note p = planned_grant_Inr [OF g(1)]
  have ok1: "grants_ok es (grant_at T)" "grant_rows_distinct T" using ok by (simp_all add: grant_run_ok_def)
  have at1: "\<exists>r. grant_at T k = Some r \<and> cg_max_uses r' = cg_max_uses r \<and> cg_uses r' = cg_uses r \<and>
      (cg_revoked r \<noteq> None \<longrightarrow> cg_revoked r' \<noteq> None)" if "grant_at T1 k = Some r'" for k r'
    using g(2) that supersede_at [of same_json now i g T gone T1 k] by (cases "grant_at T k") (auto split: if_splits)
  have gone: "\<exists>r. grant_at T1 k = Some r \<and> cg_revoked r \<noteq> None" if "k \<in> set gone" for k
    using g(2) that supersede_gone [of same_json now i g T gone T1 k] ok1(2) by (auto split: if_splits)
  have "grants_ok (map GrantWithdrawn gone @ es) (grant_at T1)"
    by (rule grants_ok_withdrawn [OF grants_ok_rows [OF ok1(1) at1] gone])
  then have "grants_ok (GrantIssued i (cg_max_uses g) # map GrantWithdrawn gone @ es) ((grant_at T1)(i \<mapsto> g))"
    using fresh p by (intro grants_ok_issued) auto
  moreover have "grant_rows_distinct T1" using g(2) ok1(2) supersede_distinct by (auto split: if_splits)
  ultimately show ?thesis by (simp add: grant_run_ok_def g(3))
qed

lemma resolve_grant_ok:
  assumes ok: "grant_run_ok (es, T)" and c: "resolve_grant h token op_key op_target now T0 T = (res, T')"
  shows "grant_run_ok (es, T')"
proof (cases "grant_at T' = grant_at T \<and> grant_rows_distinct T'")
  case True
  then show ?thesis using ok by (simp add: grant_run_ok_def)
next
  case False
  obtain i g g' where g: "grant_at T i = Some g" "cg_max_uses g' = cg_max_uses g" "cg_uses g' = cg_uses g"
    "cg_revoked g' = cg_revoked g" "grant_at T' = (grant_at T)(i \<mapsto> g')" "grant_rows_distinct T'"
  proof -
    have "grant_rows_distinct T" using ok by (simp add: grant_run_ok_def)
    then have "\<exists>i g g'. grant_at T i = Some g \<and> (g' = failed_attempt now g \<or> g' = clear_attempts g) \<and>
        grant_at T' = (grant_at T)(i \<mapsto> g') \<and> grant_rows_distinct T'"
      using c False
      by (auto simp: resolve_grant_def record_failed_attempt_def seen_grant_Some Let_def split: option.splits if_splits prod.splits) blast+
    then obtain i g g' where x: "grant_at T i = Some g" "g' = failed_attempt now g \<or> g' = clear_attempts g"
      "grant_at T' = (grant_at T)(i \<mapsto> g')" "grant_rows_distinct T'" by blast
    have "cg_max_uses g' = cg_max_uses g" "cg_uses g' = cg_uses g" "cg_revoked g' = cg_revoked g"
      using x(2) by (auto simp: failed_attempt_def clear_attempts_def Let_def split: if_splits)
    with x show thesis by (intro that)
  qed
  from ok have "grants_ok es (grant_at T)" by (simp add: grant_run_ok_def)
  from grants_ok_update [OF this g(1), of g'] g show ?thesis by (simp add: grant_run_ok_def)
qed

lemma consume_grant_ok:
  assumes ok: "grant_run_ok (es, T)" and c: "consume_grant s now T = (Inr u, T')"
  shows "grant_run_ok (GrantUsed (gs_grant s) # es, T')"
proof -
  obtain g where g: "grant_at T (gs_grant s) = Some g" "usable now g"
    "T' = journal ''capability_grant_used'' (gs_grant s) (set_grant (gs_grant s) (used_grant now g) T)"
    using c by (auto simp: consume_grant_def seen_grant_Some Let_def split: option.splits if_splits)
  have T: "grants_ok es (grant_at T)" "grant_rows_distinct T" using ok by (simp_all add: grant_run_ok_def)
  from grants_ok_used [OF T(1) g(1,2)] T(2) show ?thesis by (simp add: grant_run_ok_def g(3))
qed

lemma revoke_grant_ok:
  assumes ok: "grant_run_ok (es, T)" and c: "revoke_grant tenant now i reason T = (Inr (Some (g, st)), T')"
  shows "grant_run_ok ((if st = StatusRevoked then [GrantWithdrawn (to_lower i)] else []) @ es, T')"
proof -
  have T: "grants_ok es (grant_at T)" "grant_rows_distinct T" using ok by (simp_all add: grant_run_ok_def)
  obtain g0 where g0: "grant_at T (to_lower i) = Some g0" "st = capability_grant_status now g"
    "T' = T \<and> g = g0 \<or> (\<exists>r. g = g0\<lparr>cg_revoked := Some now, cg_reason := r\<rparr> \<and>
        T' = journal ''capability_grant_revoked'' i (set_grant (to_lower i) g T))"
    using c by (auto simp: revoke_grant_def Let_def read_grant_def seen_grant_Some split: if_splits option.splits)
  have ok': "grants_ok es (grant_at T')" "grant_rows_distinct T'" "grant_at T' (to_lower i) = Some g"
    using g0(1,3) T grants_ok_update [OF T(1) g0(1), of g] by auto
  show ?thesis
  proof (cases "st = StatusRevoked")
    case True
    then have "cg_revoked g \<noteq> None" by (auto simp: g0(2) capability_grant_status_def split: if_splits option.splits)
    then have "grants_ok (map GrantWithdrawn [to_lower i] @ es) (grant_at T')"
      using ok'(3) by (intro grants_ok_withdrawn [OF ok'(1)]) simp
    then show ?thesis using True ok'(2) by (simp add: grant_run_ok_def)
  qed (use ok' in \<open>simp add: grant_run_ok_def\<close>)
qed

lemma purge_grants_ok:
  assumes ok: "grant_run_ok (es, T)" and c: "purge_grants tenant retain now T = (Inr n, T')"
  shows "grant_run_ok (es, T')"
proof -
  obtain P where T': "gt_rows T' = filter P (gt_rows T)"
    using c by (auto simp: purge_grants_def Let_def split: if_splits option.splits)
  have T: "grants_ok es (grant_at T)" "grant_rows_distinct T" using ok by (simp_all add: grant_run_ok_def)
  then have d: "grant_rows_distinct T'" by (simp add: grant_rows_distinct_def T' distinct_map_filter)
  have "grant_at T k = Some g" if "grant_at T' k = Some g" for k g
    using that T(2) d by (auto simp: grant_at_def grant_rows_distinct_def T' dest: map_of_SomeD)
  from grants_ok_fewer [OF T(1) this] d show ?thesis by (simp add: grant_run_ok_def)
qed

lemma grant_step_ok: "grant_step h same_json s s' \<Longrightarrow> grant_run_ok s \<Longrightarrow> grant_run_ok s'"
proof (induction rule: grant_step.induct)
  case (gr_issue i es capabilities access tenant user now secret inp T issued gone T')
  show ?case using gr_issue(3) by (rule issue_grant_ok) (use gr_issue(1,2) in blast)+
next
  case (gr_resolve token op_key op_target now T0 T res T' es)
  from gr_resolve(2,1) show ?case by (rule resolve_grant_ok)
next
  case (gr_consume s now T u T' es)
  from gr_consume(2,1) show ?case by (rule consume_grant_ok)
next
  case (gr_revoke tenant now i reason T g st T' es)
  from gr_revoke(2,1) show ?case by (rule revoke_grant_ok)
next
  case (gr_purge tenant retain now T n T' es)
  from gr_purge(2,1) show ?case by (rule purge_grants_ok)
qed

interpretation grants: kept_invariant "([], no_grants)" "grant_step h same_json" grant_run_ok for h same_json
proof
  show "grant_run_ok ([], no_grants)"
    by (simp add: grant_run_ok_def grants_ok_def no_grants_def grant_at_def grant_rows_distinct_def)
qed (rule grant_step_ok)

section \<open>What grants promise\<close>

lemma reachable_grants_ok: "reachable ([], no_grants) (grant_step h same_json) (es, T) \<Longrightarrow> grants_ok es (grant_at T)"
  using grants.holds [of h same_json "(es, T)"] by (simp add: grant_run_ok_def)

text \<open>
  C32. A grant is used at most as often as it was issued for, in every interleaving of issues,
  resolutions, uses, revocations and purges: a single-use grant once.
\<close>

theorem a_grant_is_used_at_most_its_count:
  assumes "reachable ([], no_grants) (grant_step h same_json) (es, T)" and "GrantIssued i (Some m) \<in> set es"
  shows "uses_of i es \<le> m"
  by (rule grants_okD(2) [OF reachable_grants_ok [OF assms(1)] assms(2)])

lemma resolve_grant_Inr:
  assumes "resolve_grant h token op_key op_target now T0 T = (Inr s, T')"
  shows "\<exists>t secret g. token = Some t \<and> parse_grant_token t = Some (gs_grant s, secret) \<and> grant_at T (gs_grant s) = Some g \<and>
     grant_secret_matches h secret (cg_token_hash g) \<and> \<not> grant_locked now g \<and> capability_grant_status now g = StatusActive \<and>
     op_key \<in> set (cg_operations g) \<and> (\<forall>e. op_target = Some e \<longrightarrow> e = cg_subject_entity g) \<and> s = session_of_grant (gs_grant s) g"
  using assms
  by (auto simp: resolve_grant_def seen_grant_Some Let_def session_of_grant_def status_refusal_def
      split: option.splits if_splits prod.splits grant_status.splits)

text \<open>
  C33. A session comes from a live grant alone: the token names its row and carries the secret whose
  hash it stores, the grant is neither revoked, superseded, used up, expired nor locked, it names the
  Operation and its subject is of the Operation's entity; and a grant that was revoked or superseded
  at any time gives no session and is not used again.
\<close>

theorem a_grant_session_is_live:
  assumes run: "reachable ([], no_grants) (grant_step h same_json) (es, T)"
    and s: "resolve_grant h token op_key op_target now T0 T = (Inr s, T')"
  shows "\<exists>t secret g m. token = Some t \<and> parse_grant_token t = Some (gs_grant s, secret) \<and> grant_at T (gs_grant s) = Some g \<and>
     grant_secret_matches h secret (cg_token_hash g) \<and> op_key \<in> set (gs_operations s) \<and> now < gs_expires s \<and>
     (\<forall>l. cg_locked g = Some l \<longrightarrow> l \<le> now) \<and> cg_revoked g = None \<and>
     (\<forall>e. op_target = Some e \<longrightarrow> e = gs_subject_entity s) \<and> s = session_of_grant (gs_grant s) g \<and> gs_tenant s = cg_tenant g \<and>
     GrantIssued (gs_grant s) m \<in> set es \<and> (\<forall>n. m = Some n \<longrightarrow> uses_of (gs_grant s) es < n) \<and>
     GrantWithdrawn (gs_grant s) \<notin> set es"
proof -
  obtain t secret g where g: "token = Some t" "parse_grant_token t = Some (gs_grant s, secret)" "grant_at T (gs_grant s) = Some g"
    "grant_secret_matches h secret (cg_token_hash g)" "capability_grant_status now g = StatusActive"
    "op_key \<in> set (cg_operations g)" "\<forall>e. op_target = Some e \<longrightarrow> e = cg_subject_entity g" "s = session_of_grant (gs_grant s) g"
    "\<not> grant_locked now g"
    using resolve_grant_Inr [OF s] by blast
  have ok: "grant_ok es (gs_grant s) g" by (rule grants_okD(1) [OF reachable_grants_ok [OF run] g(3)])
  have live: "cg_revoked g = None" "now < cg_expires g" "\<forall>n. cg_max_uses g = Some n \<longrightarrow> cg_uses g < n"
    using g(5) by (auto simp: capability_grant_status_def split: if_splits option.splits)
  have lock: "\<forall>l. cg_locked g = Some l \<longrightarrow> l \<le> now" using g(9) by (auto simp: grant_locked_def)
  have "gs_operations s = cg_operations g" "gs_expires s = cg_expires g" "gs_subject_entity s = cg_subject_entity g" "gs_tenant s = cg_tenant g"
    by (subst g(8), simp add: session_of_grant_def)+
  then show ?thesis using g ok live lock unfolding grant_ok_def by (intro exI [of _ t] exI [of _ secret] exI [of _ g] exI [of _ "cg_max_uses g"]) auto
qed

section \<open>Tokens read back\<close>

lemma uuid_chars: "uuid_form hex s \<Longrightarrow> c \<in> set s \<Longrightarrow> hex c \<or> c = CHR ''-''"
  unfolding uuid_form_def by (induction rule: list_all2_induct) (auto split: if_splits)

lemma lower_hex_fixed: "lower_hex c \<or> c = CHR ''-'' \<Longrightarrow> lower_char c = c \<and> c \<noteq> CHR ''.''"
  by (auto simp: lower_hex_def lower_char_def is_digit_def code_def)

lemma rendered_token_parses:
  assumes "uuid_form lower_hex i" and "is_secret_form secret"
  shows "parse_grant_token (render_grant_token i secret) = Some (i, secret)"
proof -
  have c: "lower_char c = c" "c \<noteq> CHR ''.''" if "c \<in> set i" for c
    using lower_hex_fixed [of c] uuid_chars [OF assms(1) that] by blast+
  have "takeWhile (\<lambda>c. c \<noteq> CHR ''.'') (render_grant_token i secret) = i"
    using c(2) by (simp add: render_grant_token_def takeWhile_append2)
  moreover have "to_lower i = i" using c(1) by (simp add: to_lower_def map_idI)
  moreover have "i \<noteq> []" using assms(1) by (auto simp: uuid_form_def uuid_pattern_def)
  ultimately show ?thesis using assms by (simp add: parse_grant_token_def render_grant_token_def Let_def)
qed

text \<open>
  A grant token reads back: the text handed out for an identifier and a secret parses to both, also
  out of an \<open>Authorization\<close> header, and no text parses to anything but such a pair.
\<close>

theorem grant_tokens_read_back:
  "(uuid_form lower_hex i \<and> is_secret_form secret \<longrightarrow>
      parse_grant_token (render_grant_token i secret) = Some (i, secret) \<and>
      grant_token_of_header (Some (''Grant '' @ render_grant_token i secret)) = Some (render_grant_token i secret)) \<and>
   (parse_grant_token token = Some (i, secret) \<longrightarrow>
      uuid_form lower_hex i \<and> is_secret_form secret \<and>
      (\<exists>front. to_lower front = i \<and> token = render_grant_token front secret))"
proof (intro conjI impI)
  assume a: "uuid_form lower_hex i \<and> is_secret_form secret"
  then show "parse_grant_token (render_grant_token i secret) = Some (i, secret)" using rendered_token_parses by blast
  have sp: "\<not> is_space c" if "c \<in> set (render_grant_token i secret)" for c
  proof -
    have "lower_hex c \<or> c = CHR ''-'' \<or> c \<in> set base62 \<or> c = CHR ''_'' \<or> c = CHR ''.''"
      using that a uuid_chars [of lower_hex i c] by (auto simp: render_grant_token_def is_secret_form_def list_all_iff)
    then show ?thesis by (auto simp: lower_hex_def is_digit_def base62_def is_space_def code_def)
  qed
  let ?t = "render_grant_token i secret"
  have n: "?t \<noteq> []" by (simp add: render_grant_token_def)
  have tw: "takeWhile (\<lambda>c. \<not> is_space c) ?t = ?t" using sp by simp
  have "dropWhile is_space (CHR '' '' # ?t) = ?t"
    using sp n by (cases ?t) (auto simp: is_space_def code_def)
  moreover have "dropWhile is_space (''Grant '' @ ?t) = ''Grant '' @ ?t" by (simp add: is_space_def code_def)
  moreover have "to_lower ''Grant'' = ''grant''" by code_simp
  ultimately show "grant_token_of_header (Some (''Grant '' @ ?t)) = Some ?t"
    by (simp add: grant_token_of_header_def Let_def tw n)
next
  assume p: "parse_grant_token token = Some (i, secret)"
  let ?front = "takeWhile (\<lambda>c. c \<noteq> CHR ''.'') token"
  have f: "?front \<noteq> token" "to_lower ?front = i" "secret = drop (length ?front + 1) token" "uuid_form lower_hex i" "is_secret_form secret"
    using p by (auto simp: parse_grant_token_def Let_def split: if_splits)
  then show "uuid_form lower_hex i" "is_secret_form secret" by blast+
  obtain rest where rest: "dropWhile (\<lambda>c. c \<noteq> CHR ''.'') token = CHR ''.'' # rest"
  proof (cases "dropWhile (\<lambda>c. c \<noteq> CHR ''.'') token")
    case Nil
    then show ?thesis using f(1) takeWhile_dropWhile_id [of "\<lambda>c. c \<noteq> CHR ''.''" token] by simp
  next
    case (Cons c cs)
    then have "c = CHR ''.''" using hd_dropWhile [of "\<lambda>c. c \<noteq> CHR ''.''" token] by simp
    then show ?thesis using Cons that by blast
  qed
  have "token = ?front @ CHR ''.'' # rest" using takeWhile_dropWhile_id [of "\<lambda>c. c \<noteq> CHR ''.''" token] rest by simp
  then have "token = render_grant_token ?front secret"
    using f(3) by (metis append_eq_conv_conj drop_Suc drop_drop list.sel(3) plus_1_eq_Suc add.commute render_grant_token_def tl_drop)
  then show "\<exists>front. to_lower front = i \<and> token = render_grant_token front secret" using f(2) by blast
qed

section \<open>A run\<close>

definition example_grant_id :: string where "example_grant_id = ''00000000-0000-4000-8000-00000000000a''"

definition example_secret :: string where "example_secret = replicate 43 CHR ''a''"

definition example_grant :: grant where
  "example_grant =
     \<lparr>cg_tenant = ''t'', cg_token_hash = example_secret, cg_operations = [''o''], cg_subject_entity = ''E'',
      cg_subject_id = example_grant_id, cg_recipient = VObj None [(''kind'', VStr ''mail'')], cg_records = [], cg_issuer = ''u'',
      cg_issued = 0, cg_expires = 1000, cg_max_uses = Some 1, cg_uses = 0, cg_consumed = None, cg_revoked = None,
      cg_reason = None, cg_superseded = None, cg_failed = 0, cg_window = None, cg_locked = None\<rparr>"

definition example_grant_input :: grant_input where
  "example_grant_input =
     \<lparr>gi_operations = [''o''], gi_subject_entity = ''E'', gi_subject_id = example_grant_id,
      gi_recipient = VObj None [(''kind'', VStr ''mail'')], gi_records = VUndef, gi_expires = Some 1000,
      gi_max_uses = Some (jint 1), gi_supersede = True\<rparr>"

definition example_grants :: grant_table where
  "example_grants = \<lparr>gt_rows = [(example_grant_id, example_grant)], gt_journal = [(''capability_grant_issued'', example_grant_id)]\<rparr>"

lemma example_forms: "uuid_form lower_hex example_grant_id" "uuid_form any_hex example_grant_id" "is_secret_form example_secret"
  "to_lower example_grant_id = example_grant_id"
  by code_simp+

lemma example_recipient: "validate_recipient (VObj None [(''kind'', VStr ''mail'')]) = Inr (VObj None [(''kind'', VStr ''mail'')])"
  by code_simp

lemma example_planned: "planned_grant [''o''] None ''t'' ''u'' 0 example_secret example_grant_input = Inr example_grant"
proof -
  have "js_trim ''E'' = ''E''" by code_simp
  then show ?thesis
    by (simp add: planned_grant_def example_grant_input_def first_fault_def uniq_def example_forms example_recipient
        validate_records_def check_access_def checked_max_def positive_integer_def jint_def example_grant_def)
qed

lemma example_issue:
  "issue_grant (\<lambda>x. x) (=) [''o''] None ''t'' ''u'' 0 example_grant_id example_secret example_grant_input no_grants =
     (Inr (\<lparr>is_id = example_grant_id, is_token = render_grant_token example_grant_id example_secret, is_expires = 1000\<rparr>, []), example_grants)"
  unfolding issue_grant_def example_planned
  by (simp add: example_grant_def example_grant_input_def supersede_def no_grants_def grant_at_def journal_def set_grant_def example_grants_def)

lemma example_grant_issued: "reachable ([], no_grants) (grant_step (\<lambda>x. x) (=)) ([GrantIssued example_grant_id (Some 1)], example_grants)"
proof -
  have at: "grant_at example_grants example_grant_id = Some example_grant" by (simp add: example_grants_def grant_at_def)
  have "grant_step (\<lambda>x. x) (=) ([], no_grants) (GrantIssued example_grant_id
      (case grant_at example_grants example_grant_id of Some g \<Rightarrow> cg_max_uses g | None \<Rightarrow> None) # map GrantWithdrawn [] @ [], example_grants)"
    by (rule gr_issue [OF _ example_issue]) simp
  then have "grant_step (\<lambda>x. x) (=) ([], no_grants) ([GrantIssued example_grant_id (Some 1)], example_grants)"
    unfolding at by (simp add: example_grant_def)
  then show ?thesis by (rule reachable_step [OF reachable_start])
qed

theorem grant_token_witness:
  "parse_grant_token (render_grant_token example_grant_id example_secret) = Some (example_grant_id, example_secret)"
  using grant_tokens_read_back [of example_grant_id example_secret] example_forms by blast

theorem used_at_most_witness: "uses_of example_grant_id [GrantIssued example_grant_id (Some 1)] \<le> 1"
  by (rule a_grant_is_used_at_most_its_count [OF example_grant_issued]) simp

lemma example_resolves_grant:
  "resolve_grant (\<lambda>x. x) (Some (render_grant_token example_grant_id example_secret)) ''o'' (Some ''E'') 5 example_grants example_grants =
     (Inr (session_of_grant example_grant_id example_grant), example_grants)"
proof -
  have "parse_grant_token (render_grant_token example_grant_id example_secret) = Some (example_grant_id, example_secret)"
    by (rule rendered_token_parses) (rule example_forms)+
  moreover have "grant_at example_grants example_grant_id = Some example_grant" by (simp add: example_grants_def grant_at_def)
  moreover have "grant_secret_matches (\<lambda>x. x) example_secret (cg_token_hash example_grant)"
    by (simp add: grant_secret_matches_def example_grant_def list_all2_refl)
  moreover have "\<not> grant_locked 5 example_grant" "clear_attempts example_grant = example_grant" "status_refusal 5 example_grant = None"
    by (simp_all add: grant_locked_def clear_attempts_def status_refusal_def capability_grant_status_def example_grant_def)
  ultimately show ?thesis by (simp add: resolve_grant_def seen_grant_def example_grant_def)
qed

theorem live_grant_witness: "gs_grant (session_of_grant example_grant_id example_grant) = example_grant_id \<and>
  GrantWithdrawn example_grant_id \<notin> set [GrantIssued example_grant_id (Some 1)]"
  using a_grant_session_is_live [OF example_grant_issued example_resolves_grant] by (auto simp: session_of_grant_def)

end
