(* ===== verification/Capability_Grant_Guesses.thy ===== *)
theory Capability_Grant_Guesses
  imports Capability_Grant_Use
begin

text \<open>
  How often the secret of a grant can be guessed at (\<open>operations/capability-grant-resolution.ts\<close>): a
  wrong secret is counted on the row, the fifth within a window locks it, and a right one clears the
  count.  What a guesser learns is read off the answers, in any interleaving with all other operations.
\<close>

section \<open>The answers a guesser sees\<close>

text \<open>
  A presented secret is right when its hash is the one the row stores.  \<open>sec\<close> is any secret of the right
  form, above all the right one; an answer tells the presented secret from it when it differs from the
  answer \<open>sec\<close> would get at that moment.
\<close>

definition right_secret :: "(string \<Rightarrow> string) \<Rightarrow> string \<Rightarrow> string \<Rightarrow> grant_table \<Rightarrow> bool" where
  "right_secret h i secret T =
     (case grant_at T i of None \<Rightarrow> False | Some g \<Rightarrow> grant_secret_matches h secret (cg_token_hash g))"

definition tells ::
  "(string \<Rightarrow> string) \<Rightarrow> string \<Rightarrow> string \<Rightarrow> string \<Rightarrow> string \<Rightarrow> string option \<Rightarrow> int \<Rightarrow> grant_table \<Rightarrow> grant_table \<Rightarrow> bool" where
  "tells h i sec token op_key op_target now T0 T =
     (fst (resolve_grant h (Some token) op_key op_target now T0 T) \<noteq>
      fst (resolve_grant h (Some (render_grant_token i sec)) op_key op_target now T0 T))"

text \<open>
  The runs of \<open>grant_step\<close>, with the presentations of grant \<open>i\<close> noted, newest first: when, and whether
  the secret was right; and the times at which the answer to a wrong one told that it is wrong.  The
  clock that resolutions of one grant read does not go back.
\<close>

type_synonym guess_run = "(int \<times> bool) list \<times> int list \<times> grant_event list \<times> grant_table"

inductive guess_step ::
  "(string \<Rightarrow> string) \<Rightarrow> (jsval \<Rightarrow> jsval \<Rightarrow> bool) \<Rightarrow> string \<Rightarrow> string \<Rightarrow> guess_run \<Rightarrow> guess_run \<Rightarrow> bool"
  for h same_json i sec where
  gs_present: "parse_grant_token token = Some (i, secret) \<Longrightarrow> (\<forall>p \<in> set ps. fst p \<le> now) \<Longrightarrow>
    resolve_grant h (Some token) op_key op_target now T0 T = (res, T') \<Longrightarrow>
    guess_step h same_json i sec (ps, cs, es, T)
      ((now, right_secret h i secret T) # ps,
       (if \<not> right_secret h i secret T \<and> tells h i sec token op_key op_target now T0 T then now # cs else cs), es, T')"
| gs_other: "(\<forall>t secret. token = Some t \<longrightarrow> parse_grant_token t \<noteq> Some (i, secret)) \<Longrightarrow>
    resolve_grant h token op_key op_target now T0 T = (res, T') \<Longrightarrow>
    guess_step h same_json i sec (ps, cs, es, T) (ps, cs, es, T')"
| gs_issue: "(\<forall>m. GrantIssued k m \<notin> set es) \<Longrightarrow>
    issue_grant h same_json capabilities access tenant user now k secret inp T = (Inr (issued, gone), T') \<Longrightarrow>
    guess_step h same_json i sec (ps, cs, es, T)
      (ps, cs, GrantIssued k (case grant_at T' k of Some g \<Rightarrow> cg_max_uses g | None \<Rightarrow> None) # map GrantWithdrawn gone @ es, T')"
| gs_consume: "consume_grant s now T = (Inr u, T') \<Longrightarrow>
    guess_step h same_json i sec (ps, cs, es, T) (ps, cs, GrantUsed (gs_grant s) # es, T')"
| gs_revoke: "revoke_grant tenant now k reason T = (Inr (Some (g, st)), T') \<Longrightarrow>
    guess_step h same_json i sec (ps, cs, es, T)
      (ps, cs, (if st = StatusRevoked then [GrantWithdrawn (to_lower k)] else []) @ es, T')"
| gs_purge: "purge_grants tenant retain now T = (Inr n, T') \<Longrightarrow>
    guess_step h same_json i sec (ps, cs, es, T) (ps, cs, es, T')"

definition no_guesses :: guess_run where
  "no_guesses = ([], [], [], no_grants)"

lemma guess_step_is_grant_step:
  "guess_step h same_json i sec (ps, cs, s) (ps', cs', s') \<Longrightarrow> grant_step h same_json s s'"
proof (induction "(ps, cs, s)" "(ps', cs', s')" rule: guess_step.induct)
  case (gs_revoke tenant now k reason T g st T' es)
  show ?case unfolding gs_revoke(2) [symmetric] gs_revoke(5) [symmetric] by (rule gr_revoke [OF gs_revoke(1)])
qed (auto intro: gr_resolve gr_issue gr_consume gr_purge)

section \<open>Wrong secrets one after another\<close>

text \<open>The times at which wrong secrets are compared with the hash of a row.\<close>

fun compared :: "int list \<Rightarrow> grant \<Rightarrow> int list" where
  "compared [] g = []"
| "compared (t # ts) g = (if grant_locked t g then compared ts g else t # compared ts (failed_attempt t g))"

lemmas attempt_consts = max_failed_attempts_def attempt_window_ms_def attempt_lock_ms_def

lemma compared_locked: "\<forall>t \<in> set ts. grant_locked t g \<Longrightarrow> compared ts g = []"
  by (induction ts) simp_all

definition in_attempt_window :: "int \<Rightarrow> grant \<Rightarrow> bool" where
  "in_attempt_window t g = (case cg_window g of None \<Rightarrow> False | Some w \<Rightarrow> t - w < attempt_window_ms)"

lemma failed_attempt_in:
  "in_attempt_window t g \<Longrightarrow> cg_failed (failed_attempt t g) = cg_failed g + 1 \<and> cg_window (failed_attempt t g) = cg_window g \<and>
     cg_locked (failed_attempt t g) = (if 5 \<le> cg_failed g + 1 then Some (t + 900000) else None)"
  by (auto simp: failed_attempt_def in_attempt_window_def Let_def attempt_consts split: option.splits)

lemma failed_attempt_out:
  "\<not> in_attempt_window t g \<Longrightarrow> cg_failed (failed_attempt t g) = 1 \<and> cg_window (failed_attempt t g) = Some t \<and>
     cg_locked (failed_attempt t g) = None"
  by (auto simp: failed_attempt_def in_attempt_window_def Let_def attempt_consts split: option.splits)

lemma locked_simps:
  "cg_locked g = None \<Longrightarrow> \<not> grant_locked t g" "cg_locked g = Some l \<Longrightarrow> grant_locked t g \<longleftrightarrow> t < l"
  by (simp_all add: grant_locked_def)

text \<open>A window that began in the stretch: five comparisons in all.\<close>

lemma compared_own_window:
  "\<forall>t \<in> set ts. a \<le> t \<and> t < a + 900000 \<Longrightarrow> cg_window g = Some w \<Longrightarrow> a \<le> w \<Longrightarrow> cg_locked g = None \<Longrightarrow>
   cg_failed g < 5 \<Longrightarrow> int (length (compared ts g)) \<le> 5 - cg_failed g"
proof (induction ts arbitrary: g)
  case (Cons t ts)
  have win: "in_attempt_window t g" using Cons.prems by (auto simp: in_attempt_window_def attempt_consts)
  note f = failed_attempt_in [OF win]
  have step: "compared (t # ts) g = t # compared ts (failed_attempt t g)" using Cons.prems(4) by (simp add: locked_simps)
  show ?case
  proof (cases "5 \<le> cg_failed g + 1")
    case True
    then have "compared ts (failed_attempt t g) = []"
      using f Cons.prems(1) by (intro compared_locked) (force simp: grant_locked_def)
    then show ?thesis unfolding step using Cons.prems(5) by simp
  next
    case False
    then have "int (length (compared ts (failed_attempt t g))) \<le> 5 - (cg_failed g + 1)"
      using f Cons.prems Cons.IH [of "failed_attempt t g"] by simp
    then show ?thesis unfolding step by simp
  qed
qed simp

lemma compared_new_window:
  assumes "\<forall>t \<in> set (t # ts). a \<le> t \<and> t < a + 900000" and "\<not> grant_locked t g" and "\<not> in_attempt_window t g"
  shows "length (compared (t # ts) g) \<le> 5"
  using compared_own_window [of ts a "failed_attempt t g" t] failed_attempt_out [OF assms(3)] assms(1,2) by simp

lemma compared_stale:
  "\<forall>t \<in> set ts. a \<le> t \<and> t < a + 900000 \<Longrightarrow> \<forall>t \<in> set ts. grant_locked t g \<or> \<not> in_attempt_window t g \<Longrightarrow>
   length (compared ts g) \<le> 5"
proof (induction ts)
  case (Cons t ts)
  show ?case
  proof (cases "grant_locked t g")
    case True
    then show ?thesis using Cons by simp
  next
    case False
    then show ?thesis using Cons.prems compared_new_window [of t ts a g] by simp
  qed
qed simp

lemma compared_old_window:
  "\<forall>t \<in> set ts. a \<le> t \<and> t < a + 900000 \<Longrightarrow> cg_locked g = None \<Longrightarrow> 1 \<le> cg_failed g \<Longrightarrow> cg_failed g < 5 \<Longrightarrow>
   int (length (compared ts g)) \<le> 9 - cg_failed g"
proof (induction ts arbitrary: g)
  case (Cons t ts)
  have step: "compared (t # ts) g = t # compared ts (failed_attempt t g)" using Cons.prems(2) by (simp add: locked_simps)
  show ?case
  proof (cases "in_attempt_window t g")
    case win: True
    note f = failed_attempt_in [OF win]
    show ?thesis
    proof (cases "5 \<le> cg_failed g + 1")
      case True
      then have "compared ts (failed_attempt t g) = []"
        using f Cons.prems(1) by (intro compared_locked) (force simp: grant_locked_def)
      then show ?thesis unfolding step using Cons.prems(4) by simp
    next
      case False
      then have "int (length (compared ts (failed_attempt t g))) \<le> 9 - (cg_failed g + 1)"
        using f Cons.prems Cons.IH [of "failed_attempt t g"] by simp
      then show ?thesis unfolding step by simp
    qed
  next
    case False
    then have "length (compared (t # ts) g) \<le> 5"
      using compared_new_window [OF Cons.prems(1)] Cons.prems(2) by (simp add: locked_simps)
    then show ?thesis using Cons.prems(4) by linarith
  qed
qed simp

text \<open>The attempts a row has recorded by \<open>t\<close>.\<close>

definition grant_attempts_ok :: "int \<Rightarrow> grant \<Rightarrow> bool" where
  "grant_attempts_ok t g =
     (cg_window g = None \<and> cg_locked g = None \<or>
      (\<exists>w. cg_window g = Some w \<and> w \<le> t \<and>
         (cg_locked g = None \<and> 1 \<le> cg_failed g \<and> cg_failed g < 5 \<or> (\<exists>l. cg_locked g = Some l \<and> w + 900000 \<le> l))))"

lemma grant_attempts_ok_failed:
  assumes "grant_attempts_ok t g" and "t \<le> t'" and "\<not> grant_locked t' g"
  shows "grant_attempts_ok t' (failed_attempt t' g)"
proof (cases "in_attempt_window t' g")
  case True
  then obtain w where w: "cg_window g = Some w" "t' - w < 900000" "w \<le> t'"
    using assms(1,2) by (auto simp: in_attempt_window_def grant_attempts_ok_def attempt_consts)
  have "cg_locked g = None"
  proof (rule ccontr)
    assume "cg_locked g \<noteq> None"
    then obtain l where "cg_locked g = Some l" "w + 900000 \<le> l" using assms(1) w(1) by (auto simp: grant_attempts_ok_def)
    then show False using assms(3) w(2) by (simp add: grant_locked_def)
  qed
  then have "1 \<le> cg_failed g" "cg_failed g < 5" using assms(1) w(1) by (auto simp: grant_attempts_ok_def)
  then show ?thesis using failed_attempt_in [OF True] w by (auto simp: grant_attempts_ok_def)
next
  case False
  then show ?thesis using failed_attempt_out [OF False] by (simp add: grant_attempts_ok_def)
qed

lemma compared_bounded_from:
  assumes "\<forall>t \<in> set ts. a \<le> t \<and> t < a + 900000" and "grant_attempts_ok t0 g"
  shows "length (compared ts g) \<le> 8"
proof -
  from assms(2) consider "cg_window g = None" "cg_locked g = None"
    | w l where "cg_window g = Some w" "cg_locked g = Some l" "w + 900000 \<le> l"
    | "cg_locked g = None" "1 \<le> cg_failed g" "cg_failed g < 5"
    by (auto simp: grant_attempts_ok_def)
  then show ?thesis
  proof cases
    case 1
    then have "length (compared ts g) \<le> 5" using assms(1) by (intro compared_stale) (simp_all add: in_attempt_window_def)
    then show ?thesis by simp
  next
    case (2 w l)
    then have "length (compared ts g) \<le> 5"
      using assms(1) by (intro compared_stale) (auto simp: in_attempt_window_def grant_locked_def attempt_consts)
    then show ?thesis by simp
  next
    case 3
    from compared_old_window [OF assms(1) this] 3(2) show ?thesis by linarith
  qed
qed

lemma set_compared: "set (compared ts g) \<subseteq> set ts"
  by (induction ts g rule: compared.induct) auto

lemma compared_bounded:
  "sorted ts \<Longrightarrow> \<forall>t \<in> set ts. t0 \<le> t \<Longrightarrow> grant_attempts_ok t0 g \<Longrightarrow>
   length (filter (\<lambda>t. a \<le> t \<and> t < a + 900000) (compared ts g)) \<le> 8"
proof (induction ts arbitrary: g t0)
  case (Cons t ts)
  let ?P = "\<lambda>t. a \<le> t \<and> t < a + 900000"
  show ?case
  proof (cases "a \<le> t")
    case False
    have "grant_attempts_ok t g" if "grant_locked t g" using Cons.prems(2,3) by (auto simp: grant_attempts_ok_def)
    then show ?thesis using False Cons.IH [of t g] Cons.IH [of t "failed_attempt t g"] grant_attempts_ok_failed [OF Cons.prems(3), of t] Cons.prems(1,2)
      by simp
  next
    case True
    let ?in = "takeWhile (\<lambda>t. t < a + 900000) (t # ts)"
    have split: "filter ?P (compared xs r) = compared (takeWhile (\<lambda>t. t < a + 900000) xs) r"
      if "sorted xs" "\<forall>x \<in> set xs. a \<le> x" for xs r
      using that
    proof (induction xs arbitrary: r)
      case (Cons x xs)
      show ?case
      proof (cases "x < a + 900000")
        case True
        then show ?thesis using Cons by simp
      next
        case False
        then have "\<forall>y \<in> set (compared (x # xs) r). \<not> y < a + 900000"
          using Cons.prems(1) set_compared [of "x # xs" r] by fastforce
        then have "filter ?P (compared (x # xs) r) = []" by (auto simp: filter_empty_conv)
        then show ?thesis using False by simp
      qed
    qed simp
    have "\<forall>x \<in> set (t # ts). a \<le> x" using Cons.prems(1) True by auto
    then have "filter ?P (compared (t # ts) g) = compared ?in g" by (intro split Cons.prems(1))
    moreover have "\<forall>x \<in> set ?in. a \<le> x \<and> x < a + 900000"
      using \<open>\<forall>x \<in> set (t # ts). a \<le> x\<close> set_takeWhileD by metis
    ultimately show ?thesis using compared_bounded_from [OF _ Cons.prems(3)] by metis
  qed
qed simp

section \<open>Right secrets in between\<close>

text \<open>The times of \<open>qs\<close> at which a wrong secret is compared, and the row after them.\<close>

definition attempt_at :: "int \<times> bool \<Rightarrow> grant \<Rightarrow> grant" where
  "attempt_at p g = (if grant_locked (fst p) g then g else if snd p then clear_attempts g else failed_attempt (fst p) g)"

fun compared_all :: "(int \<times> bool) list \<Rightarrow> grant \<Rightarrow> int list" where
  "compared_all [] g = []"
| "compared_all (p # ps) g =
     (if \<not> grant_locked (fst p) g \<and> \<not> snd p then [fst p] else []) @ compared_all ps (attempt_at p g)"

lemma compared_all_append: "compared_all (ps @ qs) g = compared_all ps g @ compared_all qs (fold attempt_at ps g)"
  by (induction ps arbitrary: g) simp_all

lemma compared_all_wrong: "\<forall>p \<in> set ps. \<not> snd p \<Longrightarrow> compared_all ps g = compared (map fst ps) g"
  by (induction ps arbitrary: g) (auto simp: attempt_at_def)

lemma set_compared_all: "set (compared_all ps g) \<subseteq> fst ` set ps"
  by (induction ps arbitrary: g) auto

lemma grant_attempts_ok_later: "grant_attempts_ok t g \<Longrightarrow> t \<le> t' \<Longrightarrow> grant_attempts_ok t' g"
  by (force simp: grant_attempts_ok_def)

lemma grant_attempts_ok_at:
  assumes "grant_attempts_ok t g" "t \<le> fst p"
  shows "grant_attempts_ok (fst p) (attempt_at p g)"
proof -
  have "grant_attempts_ok (fst p) (clear_attempts g)"
    using grant_attempts_ok_later [OF assms] by (simp add: clear_attempts_def) (simp add: grant_attempts_ok_def)
  then show ?thesis
    using grant_attempts_ok_later [OF assms] grant_attempts_ok_failed [OF assms] by (simp add: attempt_at_def)
qed

lemma grant_attempts_ok_after:
  "sorted (map fst ps) \<Longrightarrow> \<forall>p \<in> set ps. t \<le> fst p \<Longrightarrow> grant_attempts_ok t g \<Longrightarrow>
   \<forall>p \<in> set ps. fst p \<le> t' \<Longrightarrow> t \<le> t' \<Longrightarrow> grant_attempts_ok t' (fold attempt_at ps g)"
proof (induction ps arbitrary: g t)
  case (Cons p ps)
  have "grant_attempts_ok (fst p) (attempt_at p g)" using Cons.prems by (intro grant_attempts_ok_at) auto
  then show ?case using Cons.IH [of "fst p" "attempt_at p g"] Cons.prems by simp
qed (auto intro: grant_attempts_ok_later)

abbreviation in_quarter :: "int \<Rightarrow> int \<Rightarrow> bool" where
  "in_quarter a t \<equiv> a \<le> t \<and> t < a + 900000"

definition rights_in :: "int \<Rightarrow> (int \<times> bool) list \<Rightarrow> nat" where
  "rights_in a ps = length (filter (\<lambda>p. snd p \<and> in_quarter a (fst p)) ps)"

lemma rights_in_simps [simp]:
  "rights_in a [] = 0"
  "rights_in a (p # ps) = (if snd p \<and> in_quarter a (fst p) then 1 else 0) + rights_in a ps"
  "rights_in a (ps @ qs) = rights_in a ps + rights_in a qs"
  by (simp_all add: rights_in_def)

lemma compared_all_bounded:
  "sorted (map fst ps) \<Longrightarrow> \<forall>p \<in> set ps. t0 \<le> fst p \<Longrightarrow> grant_attempts_ok t0 g \<Longrightarrow>
   length (filter (in_quarter a) (compared_all ps g)) \<le> 8 * (1 + rights_in a ps)"
proof (induction "length ps" arbitrary: ps g t0 rule: less_induct)
  case less
  obtain ws rest where split: "ps = ws @ rest" "\<forall>p \<in> set ws. \<not> snd p" "rest = [] \<or> snd (hd rest)"
  proof
    show "ps = takeWhile (\<lambda>p. \<not> snd p) ps @ dropWhile (\<lambda>p. \<not> snd p) ps" by simp
    show "\<forall>p \<in> set (takeWhile (\<lambda>p. \<not> snd p) ps). \<not> snd p" by (auto dest: set_takeWhileD)
    show "dropWhile (\<lambda>p. \<not> snd p) ps = [] \<or> snd (hd (dropWhile (\<lambda>p. \<not> snd p) ps))"
      using hd_dropWhile [of "\<lambda>p. \<not> snd p" ps] by auto
  qed
  have sw: "sorted (map fst ws)" "sorted (map fst rest)" "\<forall>p \<in> set ws. \<forall>q \<in> set rest. fst p \<le> fst q"
    using less.prems(1) by (auto simp: split(1) sorted_append)
  note wrong = split(2)
  have tw: "\<forall>p \<in> set ws. t0 \<le> fst p" "\<forall>p \<in> set rest. t0 \<le> fst p"
    using less.prems(2) by (auto simp: split(1))
  have first: "length (filter (in_quarter a) (compared_all ws g)) \<le> 8"
    using compared_bounded [OF sw(1) _ less.prems(3)] tw(1) by (simp add: compared_all_wrong [OF wrong])
  have all: "compared_all ps g = compared_all ws g @ compared_all rest (fold attempt_at ws g)"
    by (simp add: split(1) compared_all_append)
  show ?case
  proof (cases rest)
    case Nil
    then show ?thesis using first all by simp
  next
    case (Cons p qs)
    then have right: "snd p" using split(3) by simp
    have before: "\<forall>w \<in> set ws. fst w \<le> fst p" and t0: "t0 \<le> fst p" and after: "\<forall>q \<in> set qs. fst p \<le> fst q" "sorted (map fst qs)"
      using sw tw(2) unfolding Cons by auto
    have g1: "grant_attempts_ok (fst p) (fold attempt_at ws g)"
      by (rule grant_attempts_ok_after [OF sw(1) tw(1) less.prems(3) before t0])
    let ?g2 = "attempt_at p (fold attempt_at ws g)"
    have g2: "grant_attempts_ok (fst p) ?g2" by (rule grant_attempts_ok_at [OF g1]) simp
    have len: "length qs < length ps" by (simp add: split(1) Cons)
    have rest: "compared_all rest (fold attempt_at ws g) = compared_all qs ?g2" unfolding Cons using right by simp
    note IH = less.hyps [OF len after(2,1) g2]
    have rights: "rights_in a ps = (if in_quarter a (fst p) then 1 else 0) + rights_in a qs"
    proof -
      have "rights_in a ws = 0" using wrong by (auto simp: rights_in_def filter_empty_conv)
      moreover have "rights_in a ps = rights_in a ws + rights_in a rest"
        by (simp add: split(1))
      ultimately show ?thesis unfolding Cons using right by simp
    qed
    consider "in_quarter a (fst p)" | "fst p < a" | "a + 900000 \<le> fst p" by linarith
    then show ?thesis
    proof cases
      case 1
      then show ?thesis using IH first unfolding all rest rights by simp
    next
      case 2
      then have "\<forall>t \<in> set (compared_all ws g). t < a"
        using before set_compared_all [of ws g] by fastforce
      then have "filter (in_quarter a) (compared_all ws g) = []" by (auto simp: filter_empty_conv)
      then show ?thesis using IH unfolding all rest rights by simp
    next
      case 3
      then have "\<forall>t \<in> set (compared_all qs ?g2). a + 900000 \<le> t"
        using after(1) set_compared_all [of qs ?g2] by fastforce
      then have "filter (in_quarter a) (compared_all qs ?g2) = []" by (auto simp: filter_empty_conv)
      then show ?thesis using first unfolding all rest by simp
    qed
  qed
qed


section \<open>The row of a grant along a run\<close>

definition same_attempts :: "grant \<Rightarrow> grant \<Rightarrow> bool" where
  "same_attempts g g' = (cg_failed g' = cg_failed g \<and> cg_window g' = cg_window g \<and> cg_locked g' = cg_locked g)"

lemma same_attempts_refl [simp]: "same_attempts g g"
  by (simp add: same_attempts_def)

lemma same_attempts_at: "same_attempts g g' \<Longrightarrow> same_attempts (attempt_at p g) (attempt_at p g')"
  by (auto simp: same_attempts_def attempt_at_def grant_locked_def clear_attempts_def failed_attempt_def Let_def)

definition fresh_attempts :: "grant \<Rightarrow> bool" where
  "fresh_attempts g = (cg_failed g = 0 \<and> cg_window g = None \<and> cg_locked g = None)"

text \<open>Only presentations of a grant change what its row records of attempts; a new row records none.\<close>

lemma issue_attempts:
  assumes "issue_grant h same_json capabilities access tenant user now k secret inp T = (Inr (issued, gone), T')"
  shows "if i = k then \<exists>g. grant_at T' i = Some g \<and> fresh_attempts g
    else rel_option same_attempts (grant_at T i) (grant_at T' i)"
proof -
  obtain g T1 where g: "planned_grant capabilities access tenant user now (h secret) inp = Inr g"
    "(if gi_supersede inp then supersede same_json now k g T else ([], T)) = (gone, T1)"
    "T' = journal ''capability_grant_issued'' k (set_grant k g T1)"
    using assms by (auto simp: issue_grant_def split: sum.splits if_splits prod.splits)
  have "fresh_attempts g" using g(1) by (auto simp: planned_grant_def Let_def rbind_Inr_iff fresh_attempts_def)
  moreover have "rel_option same_attempts (grant_at T i) (grant_at T1 i)"
  proof (cases "gi_supersede inp")
    case True
    then show ?thesis using g(2) supersede_at [of same_json now k g T gone T1 i]
      by (cases "grant_at T i") (simp_all add: same_attempts_def)
  qed (use g(2) in \<open>simp add: option.rel_refl\<close>)
  ultimately show ?thesis by (simp add: g(3))
qed

lemma consume_attempts:
  assumes "consume_grant s now T = (Inr u, T')"
  shows "rel_option same_attempts (grant_at T i) (grant_at T' i)"
proof -
  obtain g where g: "grant_at T (gs_grant s) = Some g"
    "T' = journal ''capability_grant_used'' (gs_grant s) (set_grant (gs_grant s) (used_grant now g) T)"
    using assms by (auto simp: consume_grant_def seen_grant_Some Let_def split: option.splits if_splits)
  then show ?thesis
    by (cases "i = gs_grant s") (simp_all add: same_attempts_def used_grant_def option.rel_refl)
qed

lemma revoke_attempts:
  assumes "revoke_grant tenant now k reason T = (Inr (Some (g, st)), T')"
  shows "rel_option same_attempts (grant_at T i) (grant_at T' i)"
proof -
  obtain g0 where "grant_at T (to_lower k) = Some g0"
    "T' = T \<or> (\<exists>r. T' = journal ''capability_grant_revoked'' k (set_grant (to_lower k) (g0\<lparr>cg_revoked := Some now, cg_reason := r\<rparr>) T))"
    using assms by (auto simp: revoke_grant_def Let_def read_grant_def seen_grant_Some split: if_splits option.splits)
  then show ?thesis by (cases "i = to_lower k") (auto simp: same_attempts_def option.rel_refl)
qed

lemma purge_attempts:
  assumes "purge_grants tenant retain now T = (Inr n, T')" "grant_rows_distinct T"
  shows "grant_at T' i = None \<or> grant_at T' i = grant_at T i"
proof -
  obtain P where T': "gt_rows T' = filter P (gt_rows T)"
    using assms(1) by (auto simp: purge_grants_def Let_def split: if_splits option.splits)
  have "grant_rows_distinct T'" using assms(2) by (simp add: grant_rows_distinct_def T' distinct_map_filter)
  then show ?thesis using assms(2)
    by (cases "grant_at T' i") (auto simp: grant_at_def grant_rows_distinct_def T' dest!: map_of_SomeD)
qed

lemma resolve_other:
  assumes "resolve_grant h token op_key op_target now T0 T = (res, T')"
    and "\<forall>t secret. token = Some t \<longrightarrow> parse_grant_token t \<noteq> Some (i, secret)"
  shows "grant_at T' i = grant_at T i"
  using assms
  by (auto simp: resolve_grant_def record_failed_attempt_def seen_grant_Some Let_def
      split: option.splits if_splits prod.splits)

text \<open>A presentation either finds no row, and then tells nothing, or is an attempt on it.\<close>

lemma resolve_presented:
  assumes r: "resolve_grant h (Some token) op_key op_target now T0 T = (res, T')"
    and t: "parse_grant_token token = Some (i, secret)" and sec: "is_secret_form sec"
  shows "grant_at T' i = grant_at T i \<and> \<not> tells h i sec token op_key op_target now T0 T \<or>
    (\<exists>g g'. grant_at T i = Some g \<and> grant_at T' i = Some g' \<and>
       same_attempts (attempt_at (now, right_secret h i secret T) g) g' \<and>
       (tells h i sec token op_key op_target now T0 T \<longrightarrow> \<not> grant_locked now g))"
proof -
  have "uuid_form lower_hex i" using t by (auto simp: parse_grant_token_def Let_def split: if_splits)
  then have t2: "parse_grant_token (render_grant_token i sec) = Some (i, sec)" by (rule rendered_token_parses) (rule sec)
  show ?thesis
  proof (cases "grant_at T0 i")
    case None
    then show ?thesis using r by (simp add: resolve_grant_def t t2 tells_def)
  next
    case (Some g0)
    show ?thesis
    proof (cases "seen_grant (cg_tenant g0) i T")
      case None
      then show ?thesis using r Some by (simp add: resolve_grant_def t t2 tells_def)
    next
      case (Some g)
      then have g: "grant_at T i = Some g" by (simp add: seen_grant_Some)
      have right: "right_secret h i secret T = grant_secret_matches h secret (cg_token_hash g)" by (simp add: right_secret_def g)
      have "\<exists>g'. grant_at T' i = Some g' \<and> same_attempts (attempt_at (now, right_secret h i secret T) g) g'"
        using r \<open>grant_at T0 i = Some g0\<close> Some g
        by (auto simp: resolve_grant_def t right attempt_at_def record_failed_attempt_def Let_def
            split: if_splits prod.splits option.splits)
      moreover have "\<not> tells h i sec token op_key op_target now T0 T" if "grant_locked now g"
        using \<open>grant_at T0 i = Some g0\<close> Some that by (simp add: tells_def resolve_grant_def t t2)
      ultimately show ?thesis using g by blast
    qed
  qed
qed


text \<open>
  The presentations that were attempts on the row, \<open>qs\<close>, account for what the row records and for every
  answer that told something.
\<close>

definition accounted :: "string \<Rightarrow> (int \<times> bool) list \<Rightarrow> (int \<times> bool) list \<Rightarrow> int list \<Rightarrow> grant option \<Rightarrow> bool" where
  "accounted i qs ps cs row =
     (\<exists>g0. fresh_attempts g0 \<and> sorted (map fst qs) \<and> fst ` set qs \<subseteq> fst ` set ps \<and>
        (\<forall>a. rights_in a qs \<le> rights_in a ps) \<and>
        (\<forall>P. length (filter P cs) \<le> length (filter P (compared_all qs g0))) \<and>
        (\<forall>g. row = Some g \<longrightarrow> same_attempts (fold attempt_at qs g0) g))"

definition guess_run_ok :: "string \<Rightarrow> guess_run \<Rightarrow> bool" where
  "guess_run_ok i r =
     (case r of (ps, cs, es, T) \<Rightarrow>
        grant_run_ok (es, T) \<and> (\<exists>qs. accounted i qs ps cs (grant_at T i)) \<and>
        ((\<forall>m. GrantIssued i m \<notin> set es) \<longrightarrow> cs = []))"

lemma accounted_row:
  assumes "accounted i qs ps cs row" "rel_option same_attempts row row' \<or> row' = None"
  shows "accounted i qs ps cs row'"
  using assms unfolding accounted_def
  by (elim exE conjE) (rule exI, auto simp: option_rel_Some2 same_attempts_def)

lemma accounted_presented:
  assumes "accounted i qs ps cs row" "\<forall>p \<in> set ps. fst p \<le> now"
  shows "accounted i qs ((now, right) # ps) cs row"
  using assms(1) unfolding accounted_def by (elim exE conjE) (rule exI, auto simp: le_SucI)

lemma accounted_attempt:
  assumes a: "accounted i qs ps cs (Some g)" and now: "\<forall>p \<in> set ps. fst p \<le> now"
    and g': "same_attempts (attempt_at (now, right) g) g'"
    and cs: "cs' = cs \<or> cs' = now # cs \<and> \<not> right \<and> \<not> grant_locked now g"
  shows "accounted i (qs @ [(now, right)]) ((now, right) # ps) cs' (Some g')"
proof -
  obtain g0 where q: "fresh_attempts g0" "sorted (map fst qs)" "fst ` set qs \<subseteq> fst ` set ps"
    "\<forall>a. rights_in a qs \<le> rights_in a ps" "\<forall>P. length (filter P cs) \<le> length (filter P (compared_all qs g0))"
    "same_attempts (fold attempt_at qs g0) g" using a by (auto simp: accounted_def)
  have "same_attempts (attempt_at (now, right) (fold attempt_at qs g0)) (attempt_at (now, right) g)"
    using q(6) by (rule same_attempts_at)
  then have "same_attempts (fold attempt_at (qs @ [(now, right)]) g0) g'"
    using g' by (simp add: same_attempts_def)
  moreover have "\<forall>t \<in> fst ` set ps. t \<le> now" using now by simp
  then have "\<forall>t \<in> fst ` set qs. t \<le> now" using q(3) by blast
  then have "sorted (map fst (qs @ [(now, right)]))" using q(2) by (simp add: sorted_append)
  moreover have "grant_locked now (fold attempt_at qs g0) = grant_locked now g"
    using q(6) by (simp add: same_attempts_def grant_locked_def)
  then have "length (filter P cs') \<le> length (filter P (compared_all (qs @ [(now, right)]) g0))" for P
    using cs q(5) [rule_format, of P] by (auto simp: compared_all_append)
  moreover have "rights_in a (qs @ [(now, right)]) \<le> rights_in a ((now, right) # ps)" for a using q(4) by simp
  ultimately show ?thesis using q(1,3) unfolding accounted_def by (intro exI [of _ g0]) auto
qed

lemma guess_step_ok:
  assumes "guess_step h same_json i sec r r'" "is_secret_form sec" "guess_run_ok i r"
  shows "guess_run_ok i r'"
proof -
  obtain ps cs es T ps' cs' es' T' where r: "r = (ps, cs, es, T)" "r' = (ps', cs', es', T')" by (cases r; cases r') blast
  have ok': "grant_run_ok (es', T')"
    using grant_step_ok [OF guess_step_is_grant_step] assms(1,3) by (auto simp: r guess_run_ok_def)
  obtain qs where ok: "grant_run_ok (es, T)" and q: "accounted i qs ps cs (grant_at T i)"
    and none: "(\<forall>m. GrantIssued i m \<notin> set es) \<longrightarrow> cs = []" using assms(3) by (auto simp: r guess_run_ok_def)
  have issued: "\<exists>m. GrantIssued i m \<in> set es" if "grant_at T i = Some g" for g
    using ok that unfolding grant_run_ok_def grants_ok_def grant_ok_def by auto
  have kept: ?thesis if "cs' = cs" "ps' = ps" "rel_option same_attempts (grant_at T i) (grant_at T' i) \<or> grant_at T' i = None" "set es \<subseteq> set es'"
    using that ok' none accounted_row [OF q] unfolding guess_run_ok_def r by auto
  from assms(1) [unfolded r] show ?thesis
  proof (cases rule: guess_step.cases)
    case (gs_present token secret now op_key op_target T0 res)
    let ?right = "right_secret h i secret T"
    from resolve_presented [OF gs_present(6,4) assms(2)] show ?thesis
    proof
      assume a: "grant_at T' i = grant_at T i \<and> \<not> tells h i sec token op_key op_target now T0 T"
      then have "cs' = cs" using gs_present(2) by simp
      then show ?thesis using a ok' none accounted_presented [OF q gs_present(5)] gs_present(1,3)
        by (auto simp: r guess_run_ok_def)
    next
      assume "\<exists>g g'. grant_at T i = Some g \<and> grant_at T' i = Some g' \<and> same_attempts (attempt_at (now, ?right) g) g' \<and>
          (tells h i sec token op_key op_target now T0 T \<longrightarrow> \<not> grant_locked now g)"
      then obtain g g' where g: "grant_at T i = Some g" "grant_at T' i = Some g'" "same_attempts (attempt_at (now, ?right) g) g'"
        "tells h i sec token op_key op_target now T0 T \<longrightarrow> \<not> grant_locked now g" by blast
      have "accounted i (qs @ [(now, ?right)]) ((now, ?right) # ps) cs' (Some g')"
        by (rule accounted_attempt [OF q [unfolded g(1)] gs_present(5) g(3)]) (use gs_present(2) g(4) in auto)
      then show ?thesis using ok' g(2) issued [OF g(1)] gs_present(1,3) by (auto simp: r guess_run_ok_def)
    qed
  next
    case (gs_other token op_key op_target now T0 res)
    then show ?thesis using resolve_other [OF gs_other(5,4)] by (intro kept) (simp_all add: option.rel_refl)
  next
    case (gs_issue k capabilities access tenant user now secret inp issued gone)
    note A = issue_attempts [OF gs_issue(5), of i]
    show ?thesis
    proof (cases "i = k")
      case True
      then obtain g where g: "grant_at T' i = Some g" "fresh_attempts g" using A by auto
      have "cs = []" using none gs_issue(4) True by simp
      then have "accounted i [] ps' cs' (Some g)"
        using g(2) gs_issue(2) by (auto simp: accounted_def intro!: exI [of _ g])
      then show ?thesis using ok' g(1) gs_issue(3) True by (auto simp: r guess_run_ok_def)
    next
      case False
      then show ?thesis using A gs_issue(1-3) by (intro kept) auto
    qed
  next
    case (gs_consume s now u)
    then show ?thesis using consume_attempts by (intro kept) auto
  next
    case (gs_revoke tenant now k reason g st)
    then show ?thesis using revoke_attempts by (intro kept) auto
  next
    case (gs_purge tenant retain now n)
    then show ?thesis using purge_attempts [OF gs_purge(4), of i] ok
      by (intro kept) (auto simp: grant_run_ok_def option.rel_refl)
  qed
qed


lemma no_guesses_ok: "guess_run_ok i no_guesses"
proof -
  define g0 where "g0 = example_grant"
  have "fresh_attempts g0" by (simp add: g0_def example_grant_def fresh_attempts_def)
  then have "accounted i [] [] [] None" unfolding accounted_def by (intro exI [of _ g0]) simp
  then show ?thesis
    by (auto simp: guess_run_ok_def no_guesses_def grant_run_ok_def grants_ok_def no_grants_def grant_at_def grant_rows_distinct_def)
qed

interpretation guess_runs: kept_invariant no_guesses "guess_step h same_json i sec" "\<lambda>r. is_secret_form sec \<longrightarrow> guess_run_ok i r"
  for h same_json i sec
  by unfold_locales (auto intro: no_guesses_ok guess_step_ok)

section \<open>The bound on guesses\<close>

text \<open>
  C34. Guessing is bounded, in every interleaving of presentations of a grant with all other operations
  on grants: within any fifteen minutes at most eight wrong secrets get an answer that differs from the
  one \<open>sec\<close>, the right secret say, would have got, and eight more for each time the right secret itself was
  presented in these fifteen minutes, for that clears the count.
\<close>

theorem guesses_are_bounded:
  assumes "reachable no_guesses (guess_step h same_json i sec) (ps, cs, es, T)" and "is_secret_form sec"
  shows "length (filter (\<lambda>t. a \<le> t \<and> t < a + 15 * 60 * 1000) cs) \<le>
    8 * (1 + length (filter (\<lambda>(t, right). right \<and> a \<le> t \<and> t < a + 15 * 60 * 1000) ps))"
proof -
  have "guess_run_ok i (ps, cs, es, T)" using guess_runs.holds [OF assms(1)] assms(2) by blast
  then obtain qs where "accounted i qs ps cs (grant_at T i)" by (auto simp: guess_run_ok_def)
  then obtain g0 where q: "fresh_attempts g0" "sorted (map fst qs)"
    "rights_in a qs \<le> rights_in a ps" "\<forall>P. length (filter P cs) \<le> length (filter P (compared_all qs g0))"
    unfolding accounted_def by blast
  have "grant_attempts_ok t g0" for t using q(1) by (simp add: fresh_attempts_def grant_attempts_ok_def)
  moreover obtain t0 where "\<forall>p \<in> set qs. t0 \<le> fst p"
  proof (cases qs)
    case (Cons p ps)
    then show thesis using that [of "fst p"] q(2) by auto
  qed (use that in simp)
  ultimately have "length (filter (in_quarter a) (compared_all qs g0)) \<le> 8 * (1 + rights_in a qs)"
    using compared_all_bounded [OF q(2)] by blast
  moreover have "rights_in a ps = length (filter (\<lambda>(t, right). right \<and> a \<le> t \<and> t < a + 900000) ps)"
    unfolding rights_in_def by (intro arg_cong [where f = length] filter_cong) auto
  ultimately show ?thesis using q(3) q(4) [rule_format, of "in_quarter a"] by simp
qed


section \<open>A guess\<close>

definition wrong_secret :: string where "wrong_secret = replicate 43 CHR ''b''"

definition guessed_grants :: grant_table where
  "guessed_grants = set_grant example_grant_id (failed_attempt 5 example_grant) example_grants"

lemma wrong_secret_forms: "is_secret_form wrong_secret" "\<not> grant_secret_matches (\<lambda>x. x) wrong_secret (cg_token_hash example_grant)"
  unfolding wrong_secret_def example_grant_def example_secret_def by code_simp+

lemma example_at: "grant_at example_grants example_grant_id = Some example_grant"
  by (simp add: example_grants_def grant_at_def)

lemma wrong_resolves:
  "resolve_grant (\<lambda>x. x) (Some (render_grant_token example_grant_id wrong_secret)) ''o'' (Some ''E'') 5 example_grants example_grants =
     (Inl GrantInvalid, guessed_grants)"
proof -
  have "\<not> grant_locked 5 example_grant" "cg_failed (failed_attempt 5 example_grant) = 1"
    by (simp_all add: grant_locked_def failed_attempt_def example_grant_def)
  then show ?thesis
    by (simp add: resolve_grant_def rendered_token_parses [OF example_forms(1) wrong_secret_forms(1)] example_at seen_grant_def
        wrong_secret_forms(2) record_failed_attempt_def guessed_grants_def max_failed_attempts_def Let_def)
qed

lemma guess_reachable:
  "reachable no_guesses (guess_step (\<lambda>x. x) (=) example_grant_id example_secret)
     ([(5, False)], [5], [GrantIssued example_grant_id (Some 1)], guessed_grants)"
proof -
  let ?step = "guess_step (\<lambda>x. x) (=) example_grant_id example_secret"
  have "?step ([], [], [], no_grants) ([], [], GrantIssued example_grant_id
      (case grant_at example_grants example_grant_id of Some g \<Rightarrow> cg_max_uses g | None \<Rightarrow> None) # map GrantWithdrawn [] @ [], example_grants)"
    by (rule gs_issue [OF _ example_issue]) simp
  then have "?step no_guesses ([], [], [GrantIssued example_grant_id (Some 1)], example_grants)"
    unfolding example_at by (simp add: no_guesses_def) (simp add: example_grant_def)
  with reachable_start have r: "reachable no_guesses ?step ([], [], [GrantIssued example_grant_id (Some 1)], example_grants)"
    by (rule reachable_step)
  let ?token = "render_grant_token example_grant_id wrong_secret"
  have wrong: "\<not> right_secret (\<lambda>x. x) example_grant_id wrong_secret example_grants"
    by (simp add: right_secret_def example_at wrong_secret_forms(2))
  have tell: "tells (\<lambda>x. x) example_grant_id example_secret ?token ''o'' (Some ''E'') 5 example_grants example_grants"
    by (simp add: tells_def wrong_resolves example_resolves_grant)
  have "?step ([], [], [GrantIssued example_grant_id (Some 1)], example_grants)
      ((5, right_secret (\<lambda>x. x) example_grant_id wrong_secret example_grants) # [],
       (if \<not> right_secret (\<lambda>x. x) example_grant_id wrong_secret example_grants \<and>
           tells (\<lambda>x. x) example_grant_id example_secret ?token ''o'' (Some ''E'') 5 example_grants example_grants then 5 # [] else []),
       [GrantIssued example_grant_id (Some 1)], guessed_grants)"
    by (rule gs_present [OF rendered_token_parses [OF example_forms(1) wrong_secret_forms(1)] _ wrong_resolves]) simp
  then have "?step ([], [], [GrantIssued example_grant_id (Some 1)], example_grants)
      ([(5, False)], [5], [GrantIssued example_grant_id (Some 1)], guessed_grants)"
    using wrong tell by simp
  with r show ?thesis by (rule reachable_step)
qed

theorem guesses_witness: "length (filter (\<lambda>t. 0 \<le> t \<and> t < 15 * 60 * 1000) [5 :: int]) \<le> 8"
  using guesses_are_bounded [OF guess_reachable example_forms(3), of 0] by simp

end
