(* ===== verification/Operation_Receipts.thy ===== *)
theory Operation_Receipts
  imports State_Machines Js_Json Api_Key_Format
begin

text \<open>
  Keyed Operation execution (\<open>operations/execution-receipts.ts\<close>): a durable receipt for each idempotency
  key of an actor.  The table \<open>platform.operation_execution_receipts\<close> is the list of its rows by primary
  key.  The SHA-256 of a text, the advisory lock, the outcome of a commit, what \<open>jsonb\<close> gives back of a
  stored value, the clocks (in milliseconds) and the authored code are arguments.
\<close>

section \<open>Identity of a request\<close>

definition receipt_version :: int where "receipt_version = 1"

definition external_in_flight_seconds :: int where "external_in_flight_seconds = 120"

definition local_in_flight_retry_ms :: int where "local_in_flight_retry_ms = 1000"

definition max_idempotency_key_bytes :: nat where "max_idempotency_key_bytes = 512"

datatype receipt_fault =
    ReceiptUnavailable
  | KeyRequired
  | InvalidOperationInput
  | KeyReused
  | OperationInProgress int
  | OutcomeUnknown
  | WriteInsideBarrier
  | AuthoredError string

record keyed_options =
  ko_operation :: string
  ko_intent :: string
  ko_key :: jsval
  ko_input :: "(string \<times> jsval) list"
  ko_key_field :: "string option"
  ko_controls :: "string list"
  ko_contract :: string
  ko_external :: bool

record receipt_identity =
  ri_tenant :: string
  ri_actor :: string
  ri_operation :: string
  ri_intent :: string
  ri_key_hash :: string
  ri_request :: string
  ri_contract :: string

definition namespaced_hash :: "(string \<Rightarrow> string) \<Rightarrow> string \<Rightarrow> string \<Rightarrow> string" where
  "namespaced_hash h namespace s = h (namespace @ CHR 0x00 # s)"

definition business_input :: "keyed_options \<Rightarrow> (string \<times> jsval) list" where
  "business_input opts =
     filter (\<lambda>(field, _). ko_key_field opts \<noteq> Some field \<and> field \<notin> set (ko_controls opts)) (ko_input opts)"

definition keyed_identity ::
  "(string \<Rightarrow> string) \<Rightarrow> string \<Rightarrow> string \<Rightarrow> keyed_options \<Rightarrow> receipt_fault + receipt_identity" where
  "keyed_identity h tenant user opts =
     (if tenant = [] \<or> user = [] then Inl ReceiptUnavailable
      else case ko_key opts of
        VStr key \<Rightarrow>
          (if js_trim key = [] \<or> max_idempotency_key_bytes < length (utf8_bytes key) then Inl KeyRequired
           else case canonical_json (VObj None (business_input opts)) of
             None \<Rightarrow> Inl InvalidOperationInput
           | Some canonical \<Rightarrow>
               Inr \<lparr>ri_tenant = tenant, ri_actor = user, ri_operation = ko_operation opts, ri_intent = ko_intent opts,
                    ri_key_hash = namespaced_hash h ''openshapeforge:operation-idempotency-key:v1'' key,
                    ri_request = ''sha256:'' @ namespaced_hash h ''openshapeforge:operation-business-input:v1'' (json_text canonical),
                    ri_contract = ko_contract opts\<rparr>)
      | _ \<Rightarrow> Inl KeyRequired)"

definition receipt_key :: "receipt_identity \<Rightarrow> string list" where
  "receipt_key r = [ri_tenant r, ri_actor r, ri_operation r, ri_intent r, ri_key_hash r]"

definition lock_name :: "(string \<Rightarrow> string) \<Rightarrow> receipt_identity \<Rightarrow> string" where
  "lock_name h r =
     namespaced_hash h ''openshapeforge:operation-execution-lock:v1''
       (join [CHR 0x00] (''openshapeforge:operation-execution-receipt:v1'' # receipt_key r))"

section \<open>The table\<close>

datatype receipt_state = ReceiptRunning | ReceiptCompleted | ReceiptUnknown

record receipt =
  rr_request :: string
  rr_contract :: string
  rr_state :: receipt_state
  rr_response :: "jsval option"
  rr_retry :: "int option"

type_synonym receipts = "(string list \<times> receipt) list"

definition receipt_at :: "receipts \<Rightarrow> string list \<Rightarrow> receipt option" where
  "receipt_at = map_of"

definition read_receipt :: "receipt_identity \<Rightarrow> receipts \<Rightarrow> receipt option" where
  "read_receipt r T = receipt_at T (receipt_key r)"

definition same_request :: "receipt \<Rightarrow> receipt_identity \<Rightarrow> bool" where
  "same_request row r = (rr_request row = ri_request r \<and> rr_contract row = ri_contract r)"

definition insert_running :: "receipt_identity \<Rightarrow> bool \<Rightarrow> int \<Rightarrow> receipts \<Rightarrow> receipts" where
  "insert_running r external db_now T =
     T @ [(receipt_key r, \<lparr>rr_request = ri_request r, rr_contract = ri_contract r, rr_state = ReceiptRunning, rr_response = None,
       rr_retry = (if external then Some (db_now + external_in_flight_seconds * 1000) else None)\<rparr>)]"

text \<open>The row an update or a delete of a running receipt finds.\<close>

definition own_running :: "receipt_identity \<Rightarrow> receipts \<Rightarrow> receipt option" where
  "own_running r T =
     (case read_receipt r T of
        None \<Rightarrow> None
      | Some row \<Rightarrow> if same_request row r \<and> rr_state row = ReceiptRunning then Some row else None)"

definition complete_receipt ::
  "('a \<Rightarrow> string + jsval) \<Rightarrow> (jsval \<Rightarrow> jsval) \<Rightarrow> receipt_identity \<Rightarrow> 'a \<Rightarrow> receipts \<Rightarrow> (receipt_fault + 'a) \<times> receipts" where
  "complete_receipt encode jsonb r v T =
     (case encode v of
        Inl e \<Rightarrow> (Inl (AuthoredError e), T)
      | Inr result \<Rightarrow>
          (case canonical_json (VObj None [(''version'', VNum (jint receipt_version)), (''result'', result)]) of
             None \<Rightarrow> (Inl InvalidOperationInput, T)
           | Some response \<Rightarrow>
               (case own_running r T of
                  None \<Rightarrow> (Inl ReceiptUnavailable, T)
                | Some row \<Rightarrow>
                    (Inr v, massoc_set (receipt_key r)
                       (row\<lparr>rr_state := ReceiptCompleted, rr_response := Some (jsonb response), rr_retry := None\<rparr>) T))))"

definition delete_running :: "receipt_identity \<Rightarrow> receipts \<Rightarrow> receipts" where
  "delete_running r T = (if own_running r T = None then T else massoc_delete (receipt_key r) T)"

definition mark_receipt_unknown :: "receipt_identity \<Rightarrow> receipts \<Rightarrow> receipts" where
  "mark_receipt_unknown r T =
     (case own_running r T of
        None \<Rightarrow> T
      | Some row \<Rightarrow> massoc_set (receipt_key r) (row\<lparr>rr_state := ReceiptUnknown, rr_retry := None\<rparr>) T)"

section \<open>An existing receipt\<close>

definition retry_instant :: "int \<Rightarrow> int option \<Rightarrow> int" where
  "retry_instant now t = (case t of None \<Rightarrow> now | Some t \<Rightarrow> t)"

definition stored_outcome :: "(jsval \<Rightarrow> 'a option) \<Rightarrow> jsval option \<Rightarrow> receipt_fault + 'a" where
  "stored_outcome decode response =
     (case response of
        None \<Rightarrow> Inl ReceiptUnavailable
      | Some stored \<Rightarrow>
          (if own_prop stored ''version'' \<noteq> Some (VNum (jint receipt_version)) then Inl ReceiptUnavailable
           else case own_prop stored ''result'' of
             None \<Rightarrow> Inl ReceiptUnavailable
           | Some result \<Rightarrow> (case decode result of None \<Rightarrow> Inl ReceiptUnavailable | Some v \<Rightarrow> Inr v)))"

definition existing_outcome ::
  "(jsval \<Rightarrow> 'a option) \<Rightarrow> int \<Rightarrow> receipt_identity \<Rightarrow> receipt \<Rightarrow> receipts \<Rightarrow> (receipt_fault + 'a) \<times> receipts" where
  "existing_outcome decode now r row T =
     (if \<not> same_request row r then (Inl KeyReused, T)
      else case rr_state row of
        ReceiptCompleted \<Rightarrow> (stored_outcome decode (rr_response row), T)
      | ReceiptUnknown \<Rightarrow> (Inl OutcomeUnknown, T)
      | ReceiptRunning \<Rightarrow>
          (let retry_at = retry_instant now (rr_retry row)
           in if now < retry_at then (Inl (OperationInProgress retry_at), T)
              else (Inl OutcomeUnknown, massoc_set (receipt_key r) (row\<lparr>rr_state := ReceiptUnknown, rr_retry := None\<rparr>) T)))"

section \<open>Transactions\<close>

text \<open>
  A transaction, or a savepoint, whose work throws leaves nothing behind.  A commit may fail, or
  succeed while its acknowledgement is lost.
\<close>

datatype commit = Committed | CommitLost | CommitFailed

definition rolled_back :: "'t \<Rightarrow> ('e + 'a) \<times> 't \<Rightarrow> ('e + 'a) \<times> 't" where
  "rolled_back T res = (case res of (Inl f, _) \<Rightarrow> (Inl f, T) | (Inr v, T') \<Rightarrow> (Inr v, T'))"

definition committed :: "commit \<Rightarrow> 't \<Rightarrow> (receipt_fault + 'a) \<times> 't \<Rightarrow> (receipt_fault + 'a) \<times> 't" where
  "committed c T res =
     (case rolled_back T res of
        (Inl f, T') \<Rightarrow> (Inl f, T')
      | (Inr v, T') \<Rightarrow>
          (case c of
             Committed \<Rightarrow> (Inr v, T')
           | CommitLost \<Rightarrow> (Inl (AuthoredError ''connection''), T')
           | CommitFailed \<Rightarrow> (Inl (AuthoredError ''connection''), T)))"

section \<open>Execution\<close>

text \<open>
  A database-only Operation: the claim, the authored effects and the completion share one savepoint
  over the receipts and the authored data.
\<close>

definition execute_local ::
  "('a \<Rightarrow> string + jsval) \<Rightarrow> (jsval \<Rightarrow> 'a option) \<Rightarrow> (jsval \<Rightarrow> jsval) \<Rightarrow> string option \<Rightarrow> bool \<Rightarrow> int \<Rightarrow>
   ('d \<Rightarrow> (string + 'a) \<times> 'd) \<Rightarrow> receipt_identity \<Rightarrow> receipts \<times> 'd \<Rightarrow> (receipt_fault + 'a) \<times> receipts \<times> 'd" where
  "execute_local encode decode jsonb denied acquired now body r db =
     rolled_back db
       (case denied of
          Some e \<Rightarrow> (Inl (AuthoredError e), db)
        | None \<Rightarrow>
            (if \<not> acquired then (Inl (OperationInProgress (now + local_in_flight_retry_ms)), db)
             else case read_receipt r (fst db) of
               Some row \<Rightarrow> (case existing_outcome decode now r row (fst db) of (res, T) \<Rightarrow> (res, T, snd db))
             | None \<Rightarrow>
                 (case body (snd db) of
                    (Inl e, d) \<Rightarrow> (Inl (AuthoredError e), insert_running r False now (fst db), d)
                  | (Inr v, d) \<Rightarrow>
                      (case complete_receipt encode jsonb r v (insert_running r False now (fst db)) of (res, T) \<Rightarrow> (res, T, d)))))"

text \<open>The first transaction of an external write: \<open>Some\<close> a replayed value, \<open>None\<close> a claim to execute under.\<close>

definition claim_external ::
  "(jsval \<Rightarrow> 'a option) \<Rightarrow> string option \<Rightarrow> bool \<Rightarrow> int \<Rightarrow> int \<Rightarrow> commit \<Rightarrow> receipt_identity \<Rightarrow> receipts \<Rightarrow>
   (receipt_fault + 'a option) \<times> receipts" where
  "claim_external decode denied acquired now db_now c r T =
     committed c T
       (case denied of
          Some e \<Rightarrow> (Inl (AuthoredError e), T)
        | None \<Rightarrow>
            (if \<not> acquired then (Inl (OperationInProgress (now + local_in_flight_retry_ms)), T)
             else case read_receipt r T of
               Some row \<Rightarrow>
                 (case existing_outcome decode now r row T of
                    (Inl f, T') \<Rightarrow> (Inl f, T')
                  | (Inr v, T') \<Rightarrow> (Inr (Some v), T'))
             | None \<Rightarrow> (Inr None, insert_running r True db_now T)))"

text \<open>
  What follows the authored code of an external write: its completion, and in a transaction of its own
  the clean-up after an error, whose own failure is ignored.
\<close>

definition complete_external ::
  "('a \<Rightarrow> string + jsval) \<Rightarrow> (jsval \<Rightarrow> jsval) \<Rightarrow> string + 'a \<Rightarrow> commit \<Rightarrow> receipt_identity \<Rightarrow> receipts \<Rightarrow>
   (receipt_fault + 'a) \<times> receipts" where
  "complete_external encode jsonb outcome c r T =
     (case outcome of
        Inl e \<Rightarrow> (Inl (AuthoredError e), T)
      | Inr v \<Rightarrow> committed c T (complete_receipt encode jsonb r v T))"

definition clean_up :: "bool \<Rightarrow> commit \<Rightarrow> receipt_identity \<Rightarrow> receipts \<Rightarrow> receipts" where
  "clean_up admitted c r T =
     snd (committed c T (Inr (), if admitted then mark_receipt_unknown r T else delete_running r T))"

definition external_error :: "bool \<Rightarrow> receipt_fault \<Rightarrow> receipt_fault" where
  "external_error admitted f = (if admitted then OutcomeUnknown else f)"

definition keyed_request ::
  "(string \<Rightarrow> string) \<Rightarrow> string \<Rightarrow> string \<Rightarrow> bool \<Rightarrow> keyed_options \<Rightarrow> receipt_fault + receipt_identity" where
  "keyed_request h tenant user barrier opts =
     (if ko_external opts \<and> barrier then Inl WriteInsideBarrier else keyed_identity h tenant user opts)"

section \<open>Runs\<close>

text \<open>
  An external execution in flight: whether its effects were admitted, and the error that ended its
  authored code.  The log holds the keys under which work was done: of every external execution whose
  dispatch was admitted, and of every local run of authored code whose effects are in the database.  A
  local run leaves its note with its effects: the note is committed, or rolled back, as they are.
\<close>

definition noting :: "string list \<Rightarrow> ('d \<Rightarrow> (string + 'a) \<times> 'd) \<Rightarrow> 'd \<times> string list list \<Rightarrow> (string + 'a) \<times> 'd \<times> string list list" where
  "noting k body db = (case body (fst db) of (res, d) \<Rightarrow> (res, d, k # snd db))"

record flight =
  fl_identity :: receipt_identity
  fl_admitted :: bool
  fl_error :: "receipt_fault option"

record 'd receipt_world =
  rw_table :: receipts
  rw_data :: 'd
  rw_flights :: "nat \<Rightarrow> flight option"
  rw_log :: "string list list"

definition receipts_start :: "'d \<Rightarrow> 'd receipt_world" where
  "receipts_start d = \<lparr>rw_table = [], rw_data = d, rw_flights = (\<lambda>_. None), rw_log = []\<rparr>"

text \<open>Any actor, any input, any clock; a process may also die with its execution in flight.\<close>

inductive receipt_step :: "'d receipt_world \<Rightarrow> 'd receipt_world \<Rightarrow> bool" where
  rs_local: "committed c (rw_table s, rw_data s, rw_log s)
      (execute_local encode decode jsonb denied acquired now (noting (receipt_key r) body) r (rw_table s, rw_data s, rw_log s)) =
        (res :: receipt_fault + jsval, T, d, L) \<Longrightarrow>
    receipt_step s (s\<lparr>rw_table := T, rw_data := d, rw_log := L\<rparr>)"
| rs_claim: "rw_flights s n = None \<Longrightarrow>
    claim_external decode denied acquired now db_now c r (rw_table s) = (res :: receipt_fault + jsval option, T) \<Longrightarrow>
    receipt_step s (s\<lparr>rw_table := T, rw_flights := (rw_flights s)
      (n := if res = Inr None then Some \<lparr>fl_identity = r, fl_admitted = False, fl_error = None\<rparr> else None)\<rparr>)"
| rs_admit: "rw_flights s n = Some f \<Longrightarrow> fl_error f = None \<Longrightarrow>
    receipt_step s (s\<lparr>rw_flights := (rw_flights s)(n \<mapsto> f\<lparr>fl_admitted := True\<rparr>),
      rw_log := (if fl_admitted f then [] else [receipt_key (fl_identity f)]) @ rw_log s\<rparr>)"
| rs_complete: "rw_flights s n = Some f \<Longrightarrow> fl_error f = None \<Longrightarrow>
    complete_external encode jsonb outcome c (fl_identity f) (rw_table s) = (res :: receipt_fault + jsval, T) \<Longrightarrow>
    receipt_step s (s\<lparr>rw_table := T, rw_flights := (rw_flights s)
      (n := case res of Inr _ \<Rightarrow> None | Inl e \<Rightarrow> Some (f\<lparr>fl_error := Some e\<rparr>))\<rparr>)"
| rs_clean: "rw_flights s n = Some f \<Longrightarrow> fl_error f \<noteq> None \<Longrightarrow>
    receipt_step s (s\<lparr>rw_table := clean_up (fl_admitted f) c (fl_identity f) (rw_table s), rw_flights := (rw_flights s)(n := None)\<rparr>)"
| rs_lost: "receipt_step s (s\<lparr>rw_flights := (rw_flights s)(n := None)\<rparr>)"

section \<open>What an operation does to the table\<close>

text \<open>Every change is of the row of one key: inserted, settled while it was running, or taken back while it was.\<close>

lemma receipt_at_simps [simp]:
  "receipt_at (massoc_set k row T) = (receipt_at T)(k \<mapsto> row)"
  "distinct (map fst T) \<Longrightarrow> receipt_at (massoc_delete k T) = (receipt_at T)(k := None)"
  by (simp_all add: receipt_at_def assoc_simps)

lemma receipt_at_insert:
  "read_receipt r T = None \<Longrightarrow> \<exists>row. receipt_at (insert_running r ext now T) = (receipt_at T)(receipt_key r \<mapsto> row) \<and>
     rr_state row = ReceiptRunning \<and> same_request row r"
  by (auto simp: read_receipt_def receipt_at_def insert_running_def same_request_def map_add_def fun_eq_iff split: option.splits)

lemma distinct_insert_running:
  "distinct (map fst T) \<Longrightarrow> read_receipt r T = None \<Longrightarrow> distinct (map fst (insert_running r ext now T))"
  by (auto simp: insert_running_def read_receipt_def receipt_at_def map_of_eq_None_iff)

lemma own_running_Some: "own_running r T = Some row \<longleftrightarrow>
    receipt_at T (receipt_key r) = Some row \<and> same_request row r \<and> rr_state row = ReceiptRunning"
  by (auto simp: own_running_def read_receipt_def split: option.splits)

text \<open>A settled row: one whose state is not running.\<close>

definition settles :: "receipts \<Rightarrow> receipts \<Rightarrow> string list \<Rightarrow> bool" where
  "settles T T' k = (\<exists>row row'. receipt_at T k = Some row \<and> rr_state row = ReceiptRunning \<and>
     rr_state row' \<noteq> ReceiptRunning \<and> receipt_at T' = (receipt_at T)(k \<mapsto> row'))"

lemma settles_update:
  "own_running r T = Some row \<Longrightarrow> rr_state row' \<noteq> ReceiptRunning \<Longrightarrow> settles T (massoc_set (receipt_key r) row' T) (receipt_key r)"
  by (auto simp: settles_def own_running_Some)

lemma complete_receipt_cases:
  assumes "complete_receipt encode jsonb r v T = (res, T')" and "distinct (map fst T)"
  shows "distinct (map fst T') \<and> (case res of Inl _ \<Rightarrow> T' = T | Inr v' \<Rightarrow> v' = v \<and> settles T T' (receipt_key r))"
proof -
  have "res = Inl f \<and> T' = T" if "complete_receipt encode jsonb r v T = (Inl f, T)" for f using assms(1) that by simp
  moreover have "T' = massoc_set (receipt_key r) row' T \<and> res = Inr v"
    if "complete_receipt encode jsonb r v T = (Inr v, massoc_set (receipt_key r) row' T)" for row' using assms(1) that by simp
  moreover have "(\<exists>f. complete_receipt encode jsonb r v T = (Inl f, T)) \<or>
      (\<exists>row row'. own_running r T = Some row \<and> rr_state row' = ReceiptCompleted \<and>
         complete_receipt encode jsonb r v T = (Inr v, massoc_set (receipt_key r) row' T))"
    unfolding complete_receipt_def
    by (cases "encode v"; cases "own_running r T")
       (auto simp del: canonical_json.simps split: option.split intro!: exI [where x = "_\<lparr>rr_state := ReceiptCompleted, rr_response := _, rr_retry := None\<rparr>"])
  ultimately show ?thesis using assms(2) by (fastforce simp: settles_update assoc_simps)
qed

lemma committed_cases:
  "committed c T res = (res', T') \<Longrightarrow> T' = T \<and> (\<exists>f. res' = Inl f) \<or> (\<exists>v. res = (Inr v, T') \<and> (res' = Inr v \<or> (\<exists>f. res' = Inl f)))"
  by (auto simp: committed_def rolled_back_def split: sum.splits commit.splits prod.splits)


lemma existing_outcome_Inr:
  "existing_outcome decode now r row T = (Inr v, T') \<longleftrightarrow>
     T' = T \<and> same_request row r \<and> rr_state row = ReceiptCompleted \<and> stored_outcome decode (rr_response row) = Inr v"
  by (auto simp: existing_outcome_def Let_def split: receipt_state.splits)

lemma complete_after_insert:
  assumes "complete_receipt encode jsonb r v (insert_running r ext now T) = (Inr v', T')" and "distinct (map fst T)" and "read_receipt r T = None"
  shows "v' = v \<and> distinct (map fst T') \<and>
    (\<exists>row. receipt_at T' = (receipt_at T)(receipt_key r \<mapsto> row) \<and> rr_state row \<noteq> ReceiptRunning)"
proof -
  note d = distinct_insert_running [OF assms(2,3), of ext now]
  obtain row where "receipt_at (insert_running r ext now T) = (receipt_at T)(receipt_key r \<mapsto> row)"
    using receipt_at_insert [OF assms(3)] by blast
  then show ?thesis using complete_receipt_cases [OF assms(1) d] by (auto simp: settles_def)
qed

lemma execute_local_cases:
  assumes x: "execute_local encode decode jsonb denied acquired now body r (T, d) = (res, T', d')" and d: "distinct (map fst T)"
  shows "(T', d') = (T, d) \<and> (\<forall>v. res = Inr v \<longrightarrow> (\<exists>row. read_receipt r T = Some row \<and> same_request row r \<and>
       rr_state row = ReceiptCompleted \<and> stored_outcome decode (rr_response row) = Inr v)) \<or>
    read_receipt r T = None \<and> distinct (map fst T') \<and> (\<exists>v. res = Inr v \<and> body d = (Inr v, d')) \<and>
      (\<exists>row. receipt_at T' = (receipt_at T)(receipt_key r \<mapsto> row) \<and> rr_state row \<noteq> ReceiptRunning)"
proof (cases "denied = None \<and> acquired \<and> read_receipt r T = None")
  case True
  then have "rolled_back (T, d) (case body d of
       (Inl e, d'') \<Rightarrow> (Inl (AuthoredError e), insert_running r False now T, d'')
     | (Inr v, d'') \<Rightarrow> (case complete_receipt encode jsonb r v (insert_running r False now T) of (res, T'') \<Rightarrow> (res, T'', d''))) = (res, T', d')"
    using x unfolding execute_local_def fst_conv snd_conv by simp
  then consider "(T', d') = (T, d)" "\<forall>v. res \<noteq> Inr v"
    | v v' where "res = Inr v'" "body d = (Inr v, d')" "complete_receipt encode jsonb r v (insert_running r False now T) = (Inr v', T')"
    by (auto simp: rolled_back_def split: sum.splits prod.splits)
  then show ?thesis
  proof cases
    case 2
    from complete_after_insert [OF 2(3) d] True 2(1,2) show ?thesis by auto
  qed auto
next
  case False
  then show ?thesis using x
    by (fastforce simp: execute_local_def rolled_back_def existing_outcome_Inr split: option.splits sum.splits prod.splits if_splits)
qed

lemma claim_external_cases:
  assumes "claim_external decode denied acquired now db_now c r T = (res, T')" and "distinct (map fst T)"
  shows "T' = T \<and> res \<noteq> Inr None \<or> (\<forall>v. res \<noteq> Inr (Some v)) \<and> read_receipt r T = None \<and> distinct (map fst T') \<and>
    (\<exists>row. receipt_at T' = (receipt_at T)(receipt_key r \<mapsto> row) \<and> rr_state row = ReceiptRunning \<and> same_request row r)"
proof (cases "denied = None \<and> acquired \<and> read_receipt r T = None")
  case True
  then have "committed c T (Inr None, insert_running r True db_now T) = (res, T')" using assms(1) by (simp add: claim_external_def)
  then have "T' = T \<and> res \<noteq> Inr None \<or> T' = insert_running r True db_now T \<and> (\<forall>v. res \<noteq> Inr (Some v))"
    by (auto dest!: committed_cases)
  then show ?thesis using True distinct_insert_running [OF assms(2)] receipt_at_insert [of r T True db_now] by auto
next
  case False
  then show ?thesis using assms(1)
    by (auto simp: claim_external_def committed_def rolled_back_def existing_outcome_Inr
        split: option.splits sum.splits prod.splits if_splits commit.splits)
qed

lemma complete_external_cases:
  assumes "complete_external encode jsonb outcome c r T = (res, T')" and "distinct (map fst T)"
  shows "distinct (map fst T') \<and> (T' = T \<and> (\<forall>v. res \<noteq> Inr v) \<or> settles T T' (receipt_key r))"
proof (cases outcome)
  case (Inr v)
  then have "committed c T (complete_receipt encode jsonb r v T) = (res, T')" using assms(1) by (simp add: complete_external_def)
  from committed_cases [OF this] consider "T' = T" "\<forall>v. res \<noteq> Inr v" | v' where "complete_receipt encode jsonb r v T = (Inr v', T')" by auto
  then show ?thesis
  proof cases
    case 2
    from complete_receipt_cases [OF 2 assms(2)] show ?thesis by simp
  qed (use assms(2) in auto)
qed (use assms in \<open>auto simp: complete_external_def\<close>)

lemma clean_up_cases:
  assumes "distinct (map fst T)"
  shows "distinct (map fst (clean_up admitted c r T)) \<and>
    (clean_up admitted c r T = T \<or> settles T (clean_up admitted c r T) (receipt_key r) \<or>
     \<not> admitted \<and> own_running r T \<noteq> None \<and> receipt_at (clean_up admitted c r T) = (receipt_at T)(receipt_key r := None))"
proof -
  have *: "clean_up admitted c r T = T \<or> clean_up admitted c r T = (if admitted then mark_receipt_unknown r T else delete_running r T)"
    by (auto simp: clean_up_def committed_def rolled_back_def split: commit.splits)
  show ?thesis
  proof (cases "own_running r T")
    case None
    then show ?thesis using * assms by (auto simp: mark_receipt_unknown_def delete_running_def)
  next
    case (Some row)
    then have m: "mark_receipt_unknown r T = massoc_set (receipt_key r) (row\<lparr>rr_state := ReceiptUnknown, rr_retry := None\<rparr>) T"
      by (simp add: mark_receipt_unknown_def)
    have "settles T (mark_receipt_unknown r T) (receipt_key r)" "distinct (map fst (mark_receipt_unknown r T))"
      using settles_update [OF Some, of "row\<lparr>rr_state := ReceiptUnknown, rr_retry := None\<rparr>"] assms by (simp_all add: m assoc_simps)
    then show ?thesis using Some * assms by (auto simp: delete_running_def assoc_simps split: if_splits)
  qed
qed

section \<open>Invariant\<close>

definition receipts_ok :: "receipts \<Rightarrow> (nat \<Rightarrow> flight option) \<Rightarrow> string list list \<Rightarrow> bool" where
  "receipts_ok T F L =
     (distinct (map fst T) \<and> distinct L \<and>
      (\<forall>k \<in> set L. receipt_at T k \<noteq> None) \<and>
      (\<forall>n f. F n = Some f \<longrightarrow> receipt_at T (receipt_key (fl_identity f)) \<noteq> None) \<and>
      (\<forall>n f. F n = Some f \<longrightarrow> \<not> fl_admitted f \<longrightarrow> receipt_key (fl_identity f) \<notin> set L) \<and>
      (\<forall>n n' f f'. F n = Some f \<longrightarrow> F n' = Some f' \<longrightarrow>
         receipt_key (fl_identity f) = receipt_key (fl_identity f') \<longrightarrow> n = n'))"

definition receipts_run_ok :: "'d receipt_world \<Rightarrow> bool" where
  "receipts_run_ok s = receipts_ok (rw_table s) (rw_flights s) (rw_log s)"

lemma receipts_okD:
  assumes "receipts_ok T F L"
  shows "distinct (map fst T)" "distinct L" "k \<in> set L \<Longrightarrow> receipt_at T k \<noteq> None"
    "F n = Some f \<Longrightarrow> receipt_at T (receipt_key (fl_identity f)) \<noteq> None"
    "F n = Some f \<Longrightarrow> \<not> fl_admitted f \<Longrightarrow> receipt_key (fl_identity f) \<notin> set L"
    "F n = Some f \<Longrightarrow> F n' = Some f' \<Longrightarrow> receipt_key (fl_identity f) = receipt_key (fl_identity f') \<Longrightarrow> n = n'"
  using assms unfolding receipts_ok_def by blast+

text \<open>More rows, and no flight that was not there.\<close>

lemma receipts_ok_grow:
  assumes ok: "receipts_ok T F L" and d: "distinct (map fst T')" and g: "\<And>k. receipt_at T k \<noteq> None \<Longrightarrow> receipt_at T' k \<noteq> None"
  shows "receipts_ok T' F L"
proof -
  note o = receipts_okD [OF ok]
  show ?thesis unfolding receipts_ok_def
  proof (intro conjI allI impI ballI)
    fix n n' f f'
    assume "F n = Some f" "F n' = Some f'" "receipt_key (fl_identity f) = receipt_key (fl_identity f')"
    then show "n = n'" by (rule o(6))
  next
    fix n f assume f: "F n = Some f"
    show "receipt_at T' (receipt_key (fl_identity f)) \<noteq> None" by (rule g [OF o(4) [OF f]])
    show "receipt_key (fl_identity f) \<notin> set L" if "\<not> fl_admitted f" by (rule o(5) [OF f that])
  next
    fix k assume "k \<in> set L"
    then show "receipt_at T' k \<noteq> None" by (rule g [OF o(3)])
  qed (rule d o(2))+
qed

lemma receipts_ok_fewer:
  assumes ok: "receipts_ok T F L" and s: "\<And>n f. F' n = Some f \<Longrightarrow> \<exists>g. F n = Some g \<and> fl_identity f = fl_identity g \<and> fl_admitted f = fl_admitted g"
  shows "receipts_ok T F' L"
proof -
  note o = receipts_okD [OF ok]
  show ?thesis unfolding receipts_ok_def
  proof (intro conjI allI impI ballI)
    fix n n' f f'
    assume "F' n = Some f" "F' n' = Some f'" "receipt_key (fl_identity f) = receipt_key (fl_identity f')"
    moreover from this obtain g g' where "F n = Some g" "F n' = Some g'" "fl_identity f = fl_identity g" "fl_identity f' = fl_identity g'"
      using s by meson
    ultimately show "n = n'" using o(6) by simp
  next
    fix n f assume "F' n = Some f"
    then obtain g where g: "F n = Some g" "fl_identity f = fl_identity g" "fl_admitted f = fl_admitted g" using s by blast
    show "receipt_at T (receipt_key (fl_identity f)) \<noteq> None" using o(4) [OF g(1)] g(2) by simp
    show "receipt_key (fl_identity f) \<notin> set L" if "\<not> fl_admitted f" using o(5) [OF g(1)] g(2,3) that by simp
  qed (use o(1-3) in blast)+
qed

lemma receipts_ok_logged:
  assumes ok: "receipts_ok T F L" and k: "receipt_at T k = None" and d: "distinct (map fst T')"
    and T': "receipt_at T' = (receipt_at T)(k \<mapsto> row)"
  shows "receipts_ok T' F (k # L)"
proof -
  note o = receipts_okD [OF ok]
  have new: "k \<notin> set L" "\<And>n f. F n = Some f \<Longrightarrow> receipt_key (fl_identity f) \<noteq> k" using o(3,4) k by metis+
  show ?thesis unfolding receipts_ok_def T'
    using o(2-6) new d by (auto simp: fun_upd_def)
qed

lemma receipts_ok_claimed:
  assumes ok: "receipts_ok T F L" and k: "receipt_at T (receipt_key r) = None" and d: "distinct (map fst T')" and n: "F n = None"
    and T': "receipt_at T' = (receipt_at T)(receipt_key r \<mapsto> row)"
  shows "receipts_ok T' (F(n \<mapsto> \<lparr>fl_identity = r, fl_admitted = False, fl_error = None\<rparr>)) L"
proof -
  note o = receipts_okD [OF ok]
  have new: "receipt_key r \<notin> set L" "\<And>n f. F n = Some f \<Longrightarrow> receipt_key (fl_identity f) \<noteq> receipt_key r" using o(3,4) k by metis+
  show ?thesis unfolding receipts_ok_def T'
  proof (intro conjI allI impI ballI)
    fix m m' f f'
    assume "(F(n \<mapsto> \<lparr>fl_identity = r, fl_admitted = False, fl_error = None\<rparr>)) m = Some f"
      "(F(n \<mapsto> \<lparr>fl_identity = r, fl_admitted = False, fl_error = None\<rparr>)) m' = Some f'"
      "receipt_key (fl_identity f) = receipt_key (fl_identity f')"
    then show "m = m'" using o(6) [of m f m' f'] new(2) [of m f] new(2) [of m' f'] by (auto split: if_splits)
  qed (use o new d in \<open>auto split: if_splits\<close>)
qed

lemma receipts_ok_admitted:
  assumes ok: "receipts_ok T F L" and f: "F n = Some f"
  shows "receipts_ok T (F(n \<mapsto> f\<lparr>fl_admitted := True\<rparr>)) ((if fl_admitted f then [] else [receipt_key (fl_identity f)]) @ L)"
proof -
  note o = receipts_okD [OF ok]
  show ?thesis unfolding receipts_ok_def
  proof (intro conjI allI impI ballI)
    fix m m' g g'
    assume "(F(n \<mapsto> f\<lparr>fl_admitted := True\<rparr>)) m = Some g" "(F(n \<mapsto> f\<lparr>fl_admitted := True\<rparr>)) m' = Some g'"
      "receipt_key (fl_identity g) = receipt_key (fl_identity g')"
    moreover have "\<exists>h. F j = Some h \<and> fl_identity h = fl_identity i" if "(F(n \<mapsto> f\<lparr>fl_admitted := True\<rparr>)) j = Some i" for j i
      using f that by (auto split: if_splits)
    ultimately show "m = m'" using o(6) by metis
  next
    fix m g
    assume g: "(F(n \<mapsto> f\<lparr>fl_admitted := True\<rparr>)) m = Some g" "\<not> fl_admitted g"
    then have "m \<noteq> n" "F m = Some g" by (auto split: if_splits)
    then show "receipt_key (fl_identity g) \<notin> set ((if fl_admitted f then [] else [receipt_key (fl_identity f)]) @ L)"
      using o(5) [OF _ g(2)] o(6) [OF f \<open>F m = Some g\<close>] by auto
  qed (use o(1-5) f in \<open>auto split: if_splits\<close>)
qed

lemma receipts_ok_deleted:
  assumes ok: "receipts_ok T F L" and f: "F n = Some f" "\<not> fl_admitted f" and d: "distinct (map fst T')"
    and T': "receipt_at T' = (receipt_at T)(receipt_key (fl_identity f) := None)"
  shows "receipts_ok T' (F(n := None)) L"
proof -
  note o = receipts_okD [OF ok]
  have new: "receipt_key (fl_identity f) \<notin> set L" by (rule o(5) [OF f])
  have other: "receipt_key (fl_identity g) \<noteq> receipt_key (fl_identity f)" if "F m = Some g" "m \<noteq> n" for m g
    using o(6) [OF that(1) f(1)] that(2) by blast
  show ?thesis unfolding receipts_ok_def T'
  proof (intro conjI allI impI ballI)
    fix m m' g g'
    assume "(F(n := None)) m = Some g" "(F(n := None)) m' = Some g'" "receipt_key (fl_identity g) = receipt_key (fl_identity g')"
    then show "m = m'" using o(6) [of m g m' g'] by (auto split: if_splits)
  qed (use o new other d in \<open>auto split: if_splits\<close>)
qed


section \<open>What each step keeps\<close>

definition keeps_settled :: "receipts \<Rightarrow> receipts \<Rightarrow> bool" where
  "keeps_settled T T' = (\<forall>k row. receipt_at T k = Some row \<longrightarrow> rr_state row \<noteq> ReceiptRunning \<longrightarrow> receipt_at T' k = Some row)"

lemma keeps_settled_simps:
  "keeps_settled T T"
  "settles T T' k \<Longrightarrow> keeps_settled T T'"
  "receipt_at T k = None \<Longrightarrow> receipt_at T' = (receipt_at T)(k \<mapsto> row) \<Longrightarrow> keeps_settled T T'"
  "own_running r T \<noteq> None \<Longrightarrow> receipt_at T' = (receipt_at T)(receipt_key r := None) \<Longrightarrow> keeps_settled T T'"
  by (auto simp: keeps_settled_def settles_def own_running_Some)

lemma settles_grow: "settles T T' k \<Longrightarrow> receipt_at T j \<noteq> None \<Longrightarrow> receipt_at T' j \<noteq> None"
  by (auto simp: settles_def)

lemma local_step_ok:
  assumes ok: "receipts_ok T F L"
    and x: "committed c (T, d, L) (execute_local encode decode jsonb denied acquired now (noting (receipt_key r) body) r (T, d, L)) =
      (res, T', d', L')"
  shows "receipts_ok T' F L' \<and> keeps_settled T T'"
proof (cases "(T', d', L') = (T, d, L)")
  case True
  then show ?thesis using ok by (simp add: keeps_settled_simps)
next
  case False
  with committed_cases [OF x] obtain v
    where "execute_local encode decode jsonb denied acquired now (noting (receipt_key r) body) r (T, d, L) = (Inr v, T', d', L')" by blast
  from execute_local_cases [OF this receipts_okD(1) [OF ok]] False obtain row where row: "receipt_at T (receipt_key r) = None"
    "distinct (map fst T')" "receipt_at T' = (receipt_at T)(receipt_key r \<mapsto> row)" and "L' = receipt_key r # L"
    unfolding read_receipt_def noting_def by (auto split: prod.splits)
  then show ?thesis using receipts_ok_logged [OF ok row] keeps_settled_simps(3) [OF row(1,3)] by simp
qed

lemma claim_step_ok:
  assumes ok: "receipts_ok T F L" and n: "F n = None" and x: "claim_external decode denied acquired now db_now c r T = (res, T')"
  shows "receipts_ok T' (F(n := if res = Inr None then Some \<lparr>fl_identity = r, fl_admitted = False, fl_error = None\<rparr> else None)) L \<and>
    keeps_settled T T'"
  using claim_external_cases [OF x receipts_okD(1) [OF ok]]
proof (elim disjE exE conjE)
  assume "T' = T" "res \<noteq> Inr None"
  then show ?thesis using ok n by (simp add: keeps_settled_simps fun_upd_idem)
next
  fix row assume "read_receipt r T = None" and d: "distinct (map fst T')" and u: "receipt_at T' = (receipt_at T)(receipt_key r \<mapsto> row)"
  then have k: "receipt_at T (receipt_key r) = None" by (simp add: read_receipt_def)
  have "receipts_ok T' F L" by (rule receipts_ok_grow [OF ok d]) (simp add: u)
  then show ?thesis using receipts_ok_claimed [OF ok k d n u] keeps_settled_simps(3) [OF k u] n by (simp add: fun_upd_idem)
qed

lemma complete_step_ok:
  assumes ok: "receipts_ok T F L" and f: "F n = Some f"
    and x: "complete_external encode jsonb outcome c (fl_identity f) T = (res, T')"
  shows "receipts_ok T' (F(n := case res of Inr _ \<Rightarrow> None | Inl e \<Rightarrow> Some (f\<lparr>fl_error := Some e\<rparr>))) L \<and> keeps_settled T T'"
proof -
  note c = complete_external_cases [OF x receipts_okD(1) [OF ok]]
  have "receipts_ok T' F L" using c by (intro receipts_ok_grow [OF ok]) (auto dest: settles_grow)
  then have "receipts_ok T' (F(n := case res of Inr _ \<Rightarrow> None | Inl e \<Rightarrow> Some (f\<lparr>fl_error := Some e\<rparr>))) L"
    by (rule receipts_ok_fewer) (use f in \<open>auto split: if_splits sum.splits\<close>)
  then show ?thesis using c keeps_settled_simps(1,2) by blast
qed

lemma clean_step_ok:
  assumes ok: "receipts_ok T F L" and f: "F n = Some f"
  shows "receipts_ok (clean_up (fl_admitted f) c (fl_identity f) T) (F(n := None)) L \<and>
    keeps_settled T (clean_up (fl_admitted f) c (fl_identity f) T)"
proof -
  have less: "receipts_ok T' (F(n := None)) L" if "receipts_ok T' F L" for T' using that by (rule receipts_ok_fewer) (auto split: if_splits)
  have d: "distinct (map fst (clean_up (fl_admitted f) c (fl_identity f) T))"
    using clean_up_cases [OF receipts_okD(1) [OF ok]] by blast
  show ?thesis using clean_up_cases [OF receipts_okD(1) [OF ok], of "fl_admitted f" c "fl_identity f", THEN conjunct2]
  proof (elim disjE conjE)
    assume s: "settles T (clean_up (fl_admitted f) c (fl_identity f) T) (receipt_key (fl_identity f))"
    show ?thesis using less [OF receipts_ok_grow [OF ok d settles_grow [OF s]]] keeps_settled_simps(2) [OF s] by simp
  next
    assume "\<not> fl_admitted f" "own_running (fl_identity f) T \<noteq> None"
      "receipt_at (clean_up (fl_admitted f) c (fl_identity f) T) = (receipt_at T)(receipt_key (fl_identity f) := None)"
    then show ?thesis using receipts_ok_deleted [OF ok f _ d] keeps_settled_simps(4) by blast
  qed (use less [OF ok] in \<open>simp add: keeps_settled_simps\<close>)
qed

lemma receipt_step_ok:
  "receipt_step s s' \<Longrightarrow> receipts_run_ok s \<Longrightarrow> receipts_run_ok s' \<and> keeps_settled (rw_table s) (rw_table s')"
proof (induction rule: receipt_step.induct)
  case (rs_local c s encode decode jsonb denied acquired now r body res T d L)
  from local_step_ok [OF rs_local(2) [unfolded receipts_run_ok_def] rs_local(1)] show ?case by (simp add: receipts_run_ok_def)
next
  case (rs_claim s n decode denied acquired now db_now c r res T)
  from claim_step_ok [OF rs_claim(3) [unfolded receipts_run_ok_def] rs_claim(1,2)] show ?case by (simp add: receipts_run_ok_def)
next
  case (rs_admit s n f)
  from receipts_ok_admitted [OF rs_admit(3) [unfolded receipts_run_ok_def] rs_admit(1)] show ?case
    by (simp add: receipts_run_ok_def keeps_settled_simps)
next
  case (rs_complete s n f encode jsonb outcome c res T)
  from complete_step_ok [OF rs_complete(4) [unfolded receipts_run_ok_def] rs_complete(1,3)] show ?case by (simp add: receipts_run_ok_def)
next
  case (rs_clean s n f c)
  from clean_step_ok [OF rs_clean(3) [unfolded receipts_run_ok_def] rs_clean(1)] show ?case by (simp add: receipts_run_ok_def)
next
  case (rs_lost s n)
  then have "receipts_ok (rw_table s) ((rw_flights s)(n := None)) (rw_log s)"
    unfolding receipts_run_ok_def by (rule receipts_ok_fewer) (auto split: if_splits)
  then show ?case by (simp add: receipts_run_ok_def keeps_settled_simps)
qed

interpretation receipts: kept_invariant "receipts_start d" receipt_step receipts_run_ok for d
proof
  show "receipts_run_ok (receipts_start d)" by (simp add: receipts_run_ok_def receipts_ok_def receipts_start_def)
qed (use receipt_step_ok in blast)

section \<open>What receipts promise\<close>

lemma reachable_receipts_ok: "reachable (receipts_start d) receipt_step s \<Longrightarrow> receipts_ok (rw_table s) (rw_flights s) (rw_log s)"
  using receipts.holds [of d s] by (simp add: receipts_run_ok_def)

text \<open>
  C35. Under one key of one actor, authored work is done at most once: in every interleaving of local
  executions, external claims, dispatches, completions, clean-ups, lost acknowledgements and dead
  processes, the local runs of authored code whose effects were committed under a key, and the external
  executions under it that were admitted to dispatch, are at most one together.
\<close>

theorem keyed_work_is_done_once:
  assumes "reachable (receipts_start d) receipt_step s"
  shows "count_list (rw_log s) k \<le> 1"
proof -
  have "distinct xs \<Longrightarrow> count_list xs k \<le> 1" for xs by (induction xs) (auto simp: count_list_0_iff)
  then show ?thesis using receipts_okD(2) [OF reachable_receipts_ok [OF assms]] by simp
qed

lemma reachable_keeps_settled:
  assumes "reachable s receipt_step t" and "receipts_run_ok s"
  shows "receipts_run_ok t \<and> keeps_settled (rw_table s) (rw_table t)"
  using assms
proof (induction rule: reachable.induct)
  case (reachable_step t u)
  then show ?case using receipt_step_ok [OF reachable_step(2)] by (auto simp: keeps_settled_def)
qed (simp add: keeps_settled_simps)

lemma canonical_response:
  "canonical_json (VObj None [(''version'', VNum (jint receipt_version)), (''result'', w)]) =
     map_option (\<lambda>w'. VObj None [(''result'', w'), (''version'', VNum (jint receipt_version))]) (canonical_json w)"
proof -
  have k: "index_key ''version'' = None" "index_key ''result'' = None" by code_simp+
  have o: "\<not> (''version'' :: string) \<le> ''result''" by code_simp
  have n: "canonical_json (VNum (jint receipt_version)) = Some (VNum (jint receipt_version))" by code_simp
  show ?thesis by (cases "canonical_json w") (simp_all add: k n o js_own_order_def del: canonical_json.simps(4))
qed

lemma complete_receipt_Inr:
  assumes "complete_receipt encode jsonb r v T = (Inr v', T')"
  shows "\<exists>w w' row. encode v = Inr w \<and> canonical_json w = Some w' \<and> own_running r T = Some row \<and>
    T' = massoc_set (receipt_key r) (row\<lparr>rr_state := ReceiptCompleted,
       rr_response := Some (jsonb (VObj None [(''result'', w'), (''version'', VNum (jint receipt_version))])), rr_retry := None\<rparr>) T"
proof (cases "encode v")
  case (Inr w)
  show ?thesis
  proof (cases "canonical_json w")
    case w': (Some w')
    show ?thesis
    proof (cases "own_running r T")
      case (Some row)
      then show ?thesis using assms Inr w' by (auto simp: complete_receipt_def canonical_response simp del: canonical_json.simps)
    qed (use assms Inr w' in \<open>simp add: complete_receipt_def canonical_response del: canonical_json.simps\<close>)
  qed (use assms Inr in \<open>simp add: complete_receipt_def canonical_response del: canonical_json.simps\<close>)
qed (use assms in \<open>simp add: complete_receipt_def\<close>)

lemma replays:
  assumes "read_receipt r T = Some row" "same_request row r" "rr_state row = ReceiptCompleted" "stored_outcome decode (rr_response row) = Inr v"
  shows "execute_local encode decode jsonb None True now body r (T, e) = (Inr v, T, e)"
    "claim_external decode None True now db_now Committed r T = (Inr (Some v), T)"
  using assms by (simp_all add: execute_local_def claim_external_def existing_outcome_def committed_def rolled_back_def)

text \<open>
  C36. Once a request has completed, the same request gets its value back for good and nothing is executed
  again; another input or contract under its key is refused.
\<close>

theorem a_completed_request_is_replayed:
  assumes s: "reachable (receipts_start d) receipt_step s" and t: "reachable s receipt_step t"
    and c: "complete_receipt encode jsonb r v T0 = (Inr v, rw_table s)"
    and jsonb: "\<And>x f. own_prop (jsonb x) f = map_option jsonb (own_prop x f)" "jsonb (VNum (jint receipt_version)) = VNum (jint receipt_version)"
    and codec: "\<And>w w'. encode v = Inr w \<Longrightarrow> canonical_json w = Some w' \<Longrightarrow> decode (jsonb w') = Some v"
  shows "execute_local encode decode jsonb None True now body r (rw_table t, e) = (Inr v, rw_table t, e) \<and>
    claim_external decode None True now db_now Committed r (rw_table t) = (Inr (Some v), rw_table t) \<and>
    (\<forall>r'. receipt_key r' = receipt_key r \<longrightarrow> ri_request r' \<noteq> ri_request r \<or> ri_contract r' \<noteq> ri_contract r \<longrightarrow>
       execute_local encode decode jsonb None True now body r' (rw_table t, e) = (Inl KeyReused, rw_table t, e) \<and>
       claim_external decode None True now db_now Committed r' (rw_table t) = (Inl KeyReused, rw_table t))"
proof -
  obtain w w' row0 where w: "encode v = Inr w" "canonical_json w = Some w'" "own_running r T0 = Some row0"
    "rw_table s = massoc_set (receipt_key r) (row0\<lparr>rr_state := ReceiptCompleted,
       rr_response := Some (jsonb (VObj None [(''result'', w'), (''version'', VNum (jint receipt_version))])), rr_retry := None\<rparr>) T0"
    using complete_receipt_Inr [OF c] by blast
  define row where "row = row0\<lparr>rr_state := ReceiptCompleted,
       rr_response := Some (jsonb (VObj None [(''result'', w'), (''version'', VNum (jint receipt_version))])), rr_retry := None\<rparr>"
  have "receipts_run_ok s" using reachable_receipts_ok [OF s] by (simp add: receipts_run_ok_def)
  from reachable_keeps_settled [OF t this] have "receipt_at (rw_table t) (receipt_key r) = Some row"
    unfolding keeps_settled_def w(4) by (simp add: row_def)
  moreover have same: "same_request row r" using w(3) by (simp add: row_def own_running_Some same_request_def)
  moreover have "stored_outcome decode (rr_response row) = Inr v"
    using codec [OF w(1,2)] by (simp add: stored_outcome_def row_def jsonb)
  ultimately have row: "read_receipt r (rw_table t) = Some row" "rr_state row = ReceiptCompleted" "stored_outcome decode (rr_response row) = Inr v"
    by (simp_all add: read_receipt_def row_def)
  have reused: "execute_local encode decode jsonb None True now body r' (rw_table t, e) = (Inl KeyReused, rw_table t, e) \<and>
       claim_external decode None True now db_now Committed r' (rw_table t) = (Inl KeyReused, rw_table t)"
    if "receipt_key r' = receipt_key r" "ri_request r' \<noteq> ri_request r \<or> ri_contract r' \<noteq> ri_contract r" for r'
  proof -
    have "read_receipt r' (rw_table t) = Some row" "\<not> same_request row r'"
      using row(1) same that by (auto simp: read_receipt_def same_request_def)
    then show ?thesis by (simp add: execute_local_def claim_external_def existing_outcome_def committed_def rolled_back_def)
  qed
  show ?thesis
    by (intro conjI allI impI replays [OF row(1) same row(2,3)]) (erule (1) reused [THEN conjunct1] reused [THEN conjunct2])+
qed

text \<open>
  The identity of a request does not depend on the order of its fields, nor on its idempotency
  field and the platform's control fields.
\<close>

theorem identity_is_the_business_input:
  assumes "mset (business_input (opts\<lparr>ko_input := inp\<rparr>)) = mset (business_input opts)" and "distinct (map fst (ko_input opts))"
  shows "keyed_identity h tenant user (opts\<lparr>ko_input := inp\<rparr>) = keyed_identity h tenant user opts"
proof -
  have "distinct (map fst (business_input opts))" using assms(2) by (simp add: business_input_def distinct_map_filter)
  from canonical_json_reorder [OF assms(1) [symmetric] this, of None None] show ?thesis
    by (simp add: keyed_identity_def del: canonical_json.simps split: jsval.split option.split)
qed

text \<open>What a fresh local execution leaves when its completion succeeds, and why one fails.\<close>

lemma complete_fresh:
  assumes "complete_receipt encode jsonb r v (insert_running r ext now T) = (Inr v', T')" and "read_receipt r T = None"
  shows "\<exists>row w w'. receipt_at T' = (receipt_at T)(receipt_key r \<mapsto> row) \<and> same_request row r \<and> rr_state row = ReceiptCompleted \<and>
    rr_retry row = None \<and> encode v = Inr w \<and> canonical_json w = Some w' \<and>
    rr_response row = Some (jsonb (VObj None [(''result'', w'), (''version'', VNum (jint receipt_version))]))"
proof -
  obtain w w' row where c: "encode v = Inr w" "canonical_json w = Some w'" "own_running r (insert_running r ext now T) = Some row"
    "T' = massoc_set (receipt_key r) (row\<lparr>rr_state := ReceiptCompleted,
       rr_response := Some (jsonb (VObj None [(''result'', w'), (''version'', VNum (jint receipt_version))])), rr_retry := None\<rparr>)
       (insert_running r ext now T)"
    using complete_receipt_Inr [OF assms(1)] by blast
  obtain row' where "receipt_at (insert_running r ext now T) = (receipt_at T)(receipt_key r \<mapsto> row')"
    using receipt_at_insert [OF assms(2)] by blast
  with c show ?thesis by (auto simp: own_running_Some same_request_def)
qed

lemma complete_fresh_Inl:
  assumes "complete_receipt encode jsonb r v (insert_running r ext now T) = (Inl f, T')" and "read_receipt r T = None"
  shows "(\<exists>e. encode v = Inl e \<and> f = AuthoredError e) \<or> (\<exists>w. encode v = Inr w \<and> canonical_json w = None \<and> f = InvalidOperationInput)"
proof -
  obtain row where "own_running r (insert_running r ext now T) = Some row"
    using receipt_at_insert [OF assms(2), of ext now] by (auto simp: own_running_Some)
  with assms(1) show ?thesis
    by (auto simp: complete_receipt_def canonical_response simp del: canonical_json.simps split: sum.splits option.splits)
qed

lemma complete_receipt_value: "complete_receipt encode jsonb r v T = (Inr v', T') \<Longrightarrow> v' = v"
  by (auto simp: complete_receipt_def simp del: canonical_json.simps split: sum.splits option.splits)

text \<open>The refusal an existing receipt gives.\<close>

definition refusal_of :: "(jsval \<Rightarrow> 'a option) \<Rightarrow> int \<Rightarrow> receipt_identity \<Rightarrow> receipt \<Rightarrow> receipt_fault \<Rightarrow> bool" where
  "refusal_of decode now r row f \<longleftrightarrow>
     (if \<not> same_request row r then f = KeyReused
      else case rr_state row of
        ReceiptCompleted \<Rightarrow> stored_outcome decode (rr_response row) = Inl f
      | ReceiptUnknown \<Rightarrow> f = OutcomeUnknown
      | ReceiptRunning \<Rightarrow> f = (case rr_retry row of Some t \<Rightarrow> if now < t then OperationInProgress t else OutcomeUnknown | None \<Rightarrow> OutcomeUnknown))"

lemma existing_outcome_Inl: "existing_outcome decode now r row T = (Inl f, T') \<Longrightarrow> refusal_of decode now r row f"
  by (auto simp: existing_outcome_def refusal_of_def retry_instant_def Let_def split: if_splits receipt_state.splits option.splits)

text \<open>
  C37. A local execution that succeeds either replays the value of the completed receipt and changes
  nothing, or commits the effects of the authored code together with a completed receipt that holds its
  encoded value, and no other receipt changes.  One that fails changes neither receipts nor data, and
  does so only for a denial, a lock not acquired, a receipt that refuses, an error of the authored code,
  or a value that cannot be encoded.
\<close>

theorem local_effects_are_all_or_nothing:
  assumes x: "execute_local encode decode jsonb denied acquired now body r (T, d) = (res, T', d')"
  shows "case res of
      Inr v \<Rightarrow> denied = None \<and> acquired \<and>
        (T' = T \<and> d' = d \<and> (\<exists>row. read_receipt r T = Some row \<and> same_request row r \<and> rr_state row = ReceiptCompleted \<and>
           stored_outcome decode (rr_response row) = Inr v) \<or>
         read_receipt r T = None \<and> body d = (Inr v, d') \<and>
           (\<exists>row w w'. receipt_at T' = (receipt_at T)(receipt_key r \<mapsto> row) \<and> same_request row r \<and> rr_state row = ReceiptCompleted \<and>
              rr_retry row = None \<and> encode v = Inr w \<and> canonical_json w = Some w' \<and>
              rr_response row = Some (jsonb (VObj None [(''result'', w'), (''version'', VNum (jint receipt_version))]))))
    | Inl f \<Rightarrow> T' = T \<and> d' = d \<and>
        ((\<exists>e. denied = Some e \<and> f = AuthoredError e) \<or>
         denied = None \<and> \<not> acquired \<and> f = OperationInProgress (now + local_in_flight_retry_ms) \<or>
         denied = None \<and> acquired \<and> (\<exists>row. read_receipt r T = Some row \<and> refusal_of decode now r row f) \<or>
         denied = None \<and> acquired \<and> read_receipt r T = None \<and>
           (\<exists>d''. (\<exists>e. body d = (Inl e, d'') \<and> f = AuthoredError e) \<or>
              (\<exists>v. body d = (Inr v, d'') \<and>
                 ((\<exists>e. encode v = Inl e \<and> f = AuthoredError e) \<or>
                  (\<exists>w. encode v = Inr w \<and> canonical_json w = None \<and> f = InvalidOperationInput)))))"
proof (cases "denied = None \<and> acquired \<and> read_receipt r T = None")
  case True
  then have "rolled_back (T, d) (case body d of
       (Inl e, d'') \<Rightarrow> (Inl (AuthoredError e), insert_running r False now T, d'')
     | (Inr v, d'') \<Rightarrow> (case complete_receipt encode jsonb r v (insert_running r False now T) of (res, T'') \<Rightarrow> (res, T'', d''))) = (res, T', d')"
    using x unfolding execute_local_def fst_conv snd_conv by simp
  then consider e d'' where "res = Inl (AuthoredError e)" "(T', d') = (T, d)" "body d = (Inl e, d'')"
    | f v d'' T'' where "res = Inl f" "(T', d') = (T, d)" "body d = (Inr v, d'')"
        "complete_receipt encode jsonb r v (insert_running r False now T) = (Inl f, T'')"
    | v v' where "res = Inr v'" "body d = (Inr v, d')" "complete_receipt encode jsonb r v (insert_running r False now T) = (Inr v', T')"
    by (auto simp: rolled_back_def split: sum.splits prod.splits)
  then show ?thesis
  proof cases
    case 2
    with complete_fresh_Inl [OF 2(4)] True show ?thesis by auto
  next
    case 3
    from complete_receipt_value [OF 3(3)] complete_fresh [OF 3(3)] True 3(1,2) show ?thesis by auto
  qed (use True in auto)
next
  case False
  then consider e where "denied = Some e" | "denied = None" "\<not> acquired"
    | row where "denied = None" "acquired" "read_receipt r T = Some row"
    by (cases denied; cases acquired; cases "read_receipt r T") auto
  then show ?thesis
  proof cases
    case 3
    then have "rolled_back (T, d) (case existing_outcome decode now r row T of (res, T) \<Rightarrow> (res, T, d)) = (res, T', d')"
      using x by (simp add: execute_local_def)
    then show ?thesis using 3
      by (auto simp: rolled_back_def existing_outcome_Inr dest: existing_outcome_Inl split: sum.splits prod.splits)
  qed (use x in \<open>auto simp: execute_local_def rolled_back_def\<close>)
qed

text \<open>A running receipt whose time is over is reported as unknown; the row stays as it was.\<close>

lemma an_aged_receipt_stays_running:
  assumes "read_receipt r T = Some row" "same_request row r" "rr_state row = ReceiptRunning" "rr_retry row = Some t" "t \<le> now"
  shows "claim_external decode None True now db_now c r T = (Inl OutcomeUnknown, T)"
    and "execute_local encode decode jsonb None True now body r (T, d) = (Inl OutcomeUnknown, T, d)"
  using assms by (simp_all add: claim_external_def execute_local_def existing_outcome_def committed_def rolled_back_def retry_instant_def)

section \<open>Witnesses\<close>

definition example_receipt_id :: receipt_identity where
  "example_receipt_id = \<lparr>ri_tenant = ''t'', ri_actor = ''u'', ri_operation = ''o'', ri_intent = ''invoke'', ri_key_hash = ''k'',
     ri_request = ''r'', ri_contract = ''c''\<rparr>"

definition example_completed :: receipts where
  "example_completed = [(receipt_key example_receipt_id, \<lparr>rr_request = ''r'', rr_contract = ''c'', rr_state = ReceiptCompleted,
     rr_response = Some (VObj None [(''result'', VStr ''done''), (''version'', VNum (jint receipt_version))]), rr_retry = None\<rparr>)]"

definition example_receipt_world :: "int receipt_world" where
  "example_receipt_world = \<lparr>rw_table = example_completed, rw_data = 1, rw_flights = (\<lambda>_. None), rw_log = [receipt_key example_receipt_id]\<rparr>"

lemma example_receipt_completes:
  "complete_receipt Inr (\<lambda>x. x) example_receipt_id (VStr ''done'') (insert_running example_receipt_id False 0 []) = (Inr (VStr ''done''), example_completed)"
  by (simp add: complete_receipt_def canonical_response own_running_def read_receipt_def receipt_at_def insert_running_def same_request_def
      example_completed_def del: canonical_json.simps(4-6)) (simp add: example_receipt_id_def)

lemma example_execution:
  "execute_local Inr Some (\<lambda>x. x) None True 0 (\<lambda>d. (Inr (VStr ''done''), d + 1)) example_receipt_id ([], 0 :: int) =
     (Inr (VStr ''done''), example_completed, 1)"
  by (simp add: execute_local_def read_receipt_def receipt_at_def example_receipt_completes rolled_back_def)

lemma example_receipt_run: "reachable (receipts_start 0) receipt_step example_receipt_world"
proof -
  have "committed Committed (rw_table (receipts_start 0), rw_data (receipts_start (0 :: int)), rw_log (receipts_start (0 :: int)))
      (execute_local Inr Some (\<lambda>x. x) None True 0 (noting (receipt_key example_receipt_id) (\<lambda>d. (Inr (VStr ''done''), d + 1))) example_receipt_id
        (rw_table (receipts_start (0 :: int)), rw_data (receipts_start (0 :: int)), rw_log (receipts_start (0 :: int)))) =
      (Inr (VStr ''done''), example_completed, 1, [receipt_key example_receipt_id])"
    by (simp add: receipts_start_def noting_def execute_local_def read_receipt_def receipt_at_def example_receipt_completes
        committed_def rolled_back_def)
  from rs_local [OF this] have "receipt_step (receipts_start 0) example_receipt_world"
    by (simp add: receipts_start_def example_receipt_world_def)
  then show ?thesis by (rule reachable_step [OF reachable_start])
qed

theorem work_once_witness: "count_list (rw_log example_receipt_world) (receipt_key example_receipt_id) \<le> 1"
  by (rule keyed_work_is_done_once [OF example_receipt_run])

theorem replay_witness:
  "claim_external Some None True 5 5 Committed example_receipt_id example_completed = (Inr (Some (VStr ''done'')), example_completed) \<and>
   execute_local Inr Some (\<lambda>x. x) None True 5 (\<lambda>d. (Inr VNull, d + 1)) (example_receipt_id\<lparr>ri_request := ''other''\<rparr>) (example_completed, 7 :: int) =
     (Inl KeyReused, example_completed, 7)"
proof -
  have c: "complete_receipt Inr (\<lambda>x. x) example_receipt_id (VStr ''done'') (insert_running example_receipt_id False 0 []) =
      (Inr (VStr ''done''), rw_table example_receipt_world)"
    by (simp add: example_receipt_completes example_receipt_world_def)
  have codec: "Some (w' :: jsval) = Some (VStr ''done'')" if "(Inr (VStr ''done'') :: string + jsval) = Inr w" "canonical_json w = Some w'" for w w'
    using that by auto
  note a = a_completed_request_is_replayed [where jsonb = "\<lambda>x. x" and encode = Inr and decode = Some and now = 5 and db_now = 5 and
      body = "\<lambda>d. (Inr VNull, d + 1)" and e = "7 :: int", OF example_receipt_run reachable_start c _ _ codec]
  have k: "receipt_key (example_receipt_id\<lparr>ri_request := ''other''\<rparr>) = receipt_key example_receipt_id"
    "ri_request (example_receipt_id\<lparr>ri_request := ''other''\<rparr>) \<noteq> ri_request example_receipt_id"
    by (simp_all add: receipt_key_def example_receipt_id_def)
  show ?thesis using a k by (simp add: example_receipt_world_def option.map_ident)
qed

definition example_keyed_options :: keyed_options where
  "example_keyed_options = \<lparr>ko_operation = ''o'', ko_intent = ''invoke'', ko_key = VStr ''k'', ko_input = [(''b'', VNull), (''a'', VBool True)],
     ko_key_field = Some ''key'', ko_controls = [''mode''], ko_contract = ''c'', ko_external = True\<rparr>"

theorem identity_witness:
  "keyed_identity (\<lambda>x. x) ''t'' ''u'' (example_keyed_options\<lparr>ko_input := [(''mode'', VNull), (''a'', VBool True), (''b'', VNull), (''key'', VStr ''k'')]\<rparr>) =
   keyed_identity (\<lambda>x. x) ''t'' ''u'' example_keyed_options"
  by (rule identity_is_the_business_input) (simp_all add: business_input_def example_keyed_options_def)

theorem all_or_nothing_witness:
  "\<exists>row. read_receipt example_receipt_id example_completed = Some row \<and> rr_state row = ReceiptCompleted \<and>
     rr_response row = Some (VObj None [(''result'', VStr ''done''), (''version'', VNum (jint receipt_version))])"
  using local_effects_are_all_or_nothing [OF example_execution] by (auto simp: read_receipt_def receipt_at_def)

end
