(* ===== verification/Confirmations.thy ===== *)
theory Confirmations
  imports Edit_Leases Capability_Grants
begin

text \<open>
  Confirmation challenges of destructive Operations (\<open>operations/entity/confirmation-challenges.ts\<close>): the
  caller is handed a token and must come back with it and with the current value of a field.  The table
  \<open>platform.operation_confirmation_challenges\<close> is the list of its rows, whose token hashes are unique; each
  operation is one transaction.  The hash, \<open>Date.parse\<close>, the random token, the database clock, the owner
  policy and the row the tenant sees (its version text and the text of the field) are arguments.
\<close>

section \<open>State\<close>

record challenged_operation =
  co_operation :: protected_operation
  co_challenge :: "(string \<times> string) option"

record challenge =
  ch_tenant :: string
  ch_operation :: string
  ch_entity :: string
  ch_target :: string
  ch_version :: string
  ch_owner :: string
  ch_token_hash :: string
  ch_answer_hash :: string
  ch_expires :: int
  ch_consumed :: "int option"

record challenge_table =
  ct_rows :: "challenge list"
  ct_journal :: "(string \<times> string \<times> string) list"

datatype confirm_fault =
    ConfirmationNotSupported
  | ConfirmationByLease lease_fault
  | ConfirmationDenied string
  | ConfirmationFieldMissing
  | ConfirmationNotFound
  | ConfirmationVersionConflict
  | ConfirmationValueUnavailable
  | ConfirmationTokenTaken
  | ConfirmationMismatch
  | ConfirmationAlreadyUsed
  | ConfirmationExpired
  | ConfirmationStale

record asked_confirmation =
  ac_token :: string
  ac_field :: string
  ac_target :: string
  ac_version :: string
  ac_expires :: int

definition no_challenges :: challenge_table where
  "no_challenges = \<lparr>ct_rows = [], ct_journal = []\<rparr>"

definition by_lease :: "lease_fault + 'a \<Rightarrow> confirm_fault + 'a" where
  "by_lease r = (case r of Inl f \<Rightarrow> Inl (ConfirmationByLease f) | Inr v \<Rightarrow> Inr v)"

definition matches_digest :: "(string \<Rightarrow> string) \<Rightarrow> string \<Rightarrow> string \<Rightarrow> bool" where
  "matches_digest h v expected =
     (length (hex_bytes (h v)) = length (hex_bytes expected) \<and> list_all2 (=) (hex_bytes (h v)) (hex_bytes expected))"

definition challenge_contract :: "challenged_operation \<Rightarrow> confirm_fault + (string \<times> string) \<times> string" where
  "challenge_contract op =
     (case (co_challenge op, po_version (co_operation op)) of
        (Some c, Some v) \<Rightarrow> Inr (c, v)
      | _ \<Rightarrow> Inl ConfirmationNotSupported)"

definition column_for_field :: "crud_columns \<Rightarrow> string \<Rightarrow> confirm_fault + string" where
  "column_for_field columns field =
     (case find_first (\<lambda>c. fst c = field) columns of None \<Rightarrow> Inl ConfirmationFieldMissing | Some (name, _) \<Rightarrow> Inr name)"

section \<open>Issuing\<close>

text \<open>What is checked before the challenge is written: its seconds to live, its version and the value asked for.\<close>

definition lease_checked ::
  "(string \<Rightarrow> string) \<Rightarrow> (string \<Rightarrow> time_value) \<Rightarrow> int \<Rightarrow> lease_session \<Rightarrow> challenged_operation \<Rightarrow> string \<Rightarrow> string \<Rightarrow> string option \<Rightarrow>
   lease_table \<Rightarrow> confirm_fault + unit" where
  "lease_checked h parse_date now ses op target expected lease_token L =
     (if po_lease (co_operation op) = None then Inr ()
      else case lease_token of
             None \<Rightarrow> Inl (ConfirmationByLease LeaseInvalid)
           | Some t \<Rightarrow>
               (if t = [] then Inl (ConfirmationByLease LeaseInvalid)
                else by_lease (validate_lease h parse_date now ses (co_operation op) target expected t L)))"

definition challenge_plan ::
  "(string \<Rightarrow> string) \<Rightarrow> (string \<Rightarrow> time_value) \<Rightarrow> int \<Rightarrow> lease_session \<Rightarrow> challenged_operation \<Rightarrow> crud_columns \<Rightarrow> string option \<Rightarrow>
   string \<Rightarrow> string \<Rightarrow> string option \<Rightarrow> (string \<times> string) option \<Rightarrow> lease_table \<Rightarrow> confirm_fault + nat \<times> string \<times> string" where
  "challenge_plan h parse_date now ses op columns denied target expected lease_token row L =
     rbind (challenge_contract op) (\<lambda>((field, expires_after), version_field).
     rbind (column_for_field columns version_field) (\<lambda>_.
     rbind (column_for_field columns field) (\<lambda>_.
     rbind (by_lease (fixed_duration_seconds expires_after)) (\<lambda>seconds.
     rbind (case denied of Some e \<Rightarrow> Inl (ConfirmationDenied e) | None \<Rightarrow> Inr ()) (\<lambda>_.
     rbind (lease_checked h parse_date now ses op target expected lease_token L) (\<lambda>_.
       case row of
         None \<Rightarrow> Inl ConfirmationNotFound
       | Some (version, answer) \<Rightarrow>
           rbind (by_lease (token_of parse_date version)) (\<lambda>current.
           rbind (by_lease (token_of parse_date expected)) (\<lambda>wanted.
             if current \<noteq> wanted then Inl ConfirmationVersionConflict
             else if answer = [] then Inl ConfirmationValueUnavailable
             else Inr (seconds, current, answer)))))))))"

definition issue_challenge ::
  "(string \<Rightarrow> string) \<Rightarrow> (string \<Rightarrow> time_value) \<Rightarrow> int \<Rightarrow> string \<Rightarrow> lease_session \<Rightarrow> challenged_operation \<Rightarrow> crud_columns \<Rightarrow> string option \<Rightarrow>
   string \<Rightarrow> string \<Rightarrow> string option \<Rightarrow> (string \<times> string) option \<Rightarrow> lease_table \<Rightarrow> challenge_table \<Rightarrow>
   (confirm_fault + asked_confirmation) \<times> challenge_table" where
  "issue_challenge h parse_date now token ses op columns denied target expected lease_token row L T =
     (case challenge_plan h parse_date now ses op columns denied target expected lease_token row L of
        Inl f \<Rightarrow> (Inl f, T)
      | Inr (seconds, version, answer) \<Rightarrow>
          (if list_ex (\<lambda>r. ch_token_hash r = h token) (ct_rows T) then (Inl ConfirmationTokenTaken, T)
           else let expires = now + int seconds * 1000
                in (Inr \<lparr>ac_token = token, ac_field = (case co_challenge op of None \<Rightarrow> [] | Some c \<Rightarrow> fst c), ac_target = target,
                         ac_version = version, ac_expires = expires\<rparr>,
                    \<lparr>ct_rows = ct_rows T @
                       [\<lparr>ch_tenant = ls_tenant ses, ch_operation = po_id (co_operation op), ch_entity = po_entity (co_operation op),
                         ch_target = target, ch_version = version, ch_owner = ls_user ses, ch_token_hash = h token,
                         ch_answer_hash = h answer, ch_expires = expires, ch_consumed = None\<rparr>],
                     ct_journal = ct_journal T @ [(''confirmation_challenge_issued'', po_entity (co_operation op), target)]\<rparr>)))"

section \<open>Consuming\<close>

definition challenge_of :: "(string \<Rightarrow> string) \<Rightarrow> lease_session \<Rightarrow> string \<Rightarrow> challenge_table \<Rightarrow> challenge option" where
  "challenge_of h ses token T = find_first (\<lambda>r. ch_tenant r = ls_tenant ses \<and> ch_token_hash r = h token) (ct_rows T)"

definition challenge_refusal ::
  "(string \<Rightarrow> string) \<Rightarrow> (string \<Rightarrow> time_value) \<Rightarrow> int \<Rightarrow> lease_session \<Rightarrow> protected_operation \<Rightarrow> string \<Rightarrow> string \<Rightarrow> string \<Rightarrow>
   challenge option \<Rightarrow> confirm_fault + string" where
  "challenge_refusal h parse_date now ses op target expected answer found =
     (case found of
        None \<Rightarrow> Inl ConfirmationMismatch
      | Some r \<Rightarrow>
          (if ch_owner r \<noteq> ls_user ses then Inl ConfirmationMismatch
           else if ch_consumed r \<noteq> None then Inl ConfirmationAlreadyUsed
           else if ch_expires r \<le> now then Inl ConfirmationExpired
           else rbind (by_lease (token_of parse_date expected)) (\<lambda>wanted.
                  if ch_operation r \<noteq> po_id op \<or> ch_entity r \<noteq> po_entity op \<or> ch_target r \<noteq> target then Inl ConfirmationMismatch
                  else rbind (by_lease (token_of parse_date (ch_version r))) (\<lambda>have.
                         if have \<noteq> wanted then Inl ConfirmationStale
                         else if \<not> matches_digest h answer (ch_answer_hash r) then Inl ConfirmationMismatch
                         else Inr wanted))))"

definition consume_challenge ::
  "(string \<Rightarrow> string) \<Rightarrow> (string \<Rightarrow> time_value) \<Rightarrow> int \<Rightarrow> lease_session \<Rightarrow> challenged_operation \<Rightarrow> string \<Rightarrow> string \<Rightarrow> string \<Rightarrow> string \<Rightarrow>
   challenge_table \<Rightarrow> (confirm_fault + unit) \<times> challenge_table" where
  "consume_challenge h parse_date now ses op target expected token answer T =
     (case rbind (challenge_contract op) (\<lambda>_.
             challenge_refusal h parse_date now ses (co_operation op) target expected answer (challenge_of h ses token T)) of
        Inl f \<Rightarrow> (Inl f, T)
      | Inr _ \<Rightarrow>
          (Inr (),
           \<lparr>ct_rows = map (\<lambda>r. if ch_tenant r = ls_tenant ses \<and> ch_token_hash r = h token \<and> ch_consumed r = None
                              then r\<lparr>ch_consumed := Some now\<rparr> else r) (ct_rows T),
            ct_journal = ct_journal T @ [(''confirmation_challenge_consumed'', po_entity (co_operation op), target)]\<rparr>))"

section \<open>Runs\<close>

text \<open>
  The transactions of any number of callers, newest event first: a challenge with the hash of its token,
  whom and what it was issued for, and the digest of the value shown; a confirmation with the hash of the
  token presented.
\<close>

datatype challenge_event =
    ChallengeIssued string string string string string string string string int
  | ChallengeUsed string

definition issued_as :: "challenge \<Rightarrow> challenge_event" where
  "issued_as r = ChallengeIssued (ch_token_hash r) (ch_tenant r) (ch_owner r) (ch_operation r) (ch_entity r) (ch_target r)
     (ch_version r) (ch_answer_hash r) (ch_expires r)"

inductive challenge_step ::
  "(string \<Rightarrow> string) \<Rightarrow> (string \<Rightarrow> time_value) \<Rightarrow> challenge_event list \<times> challenge_table \<Rightarrow>
   challenge_event list \<times> challenge_table \<Rightarrow> bool" for h parse_date where
  cs_issue: "issue_challenge h parse_date now token ses op columns denied target expected lease_token (Some (version, answer)) L T =
      (Inr asked, T') \<Longrightarrow>
    challenge_step h parse_date (es, T)
      (ChallengeIssued (h token) (ls_tenant ses) (ls_user ses) (po_id (co_operation op)) (po_entity (co_operation op)) target
         (ac_version asked) (h answer) (ac_expires asked) # es, T')"
| cs_consume: "consume_challenge h parse_date now ses op target expected token answer T = (Inr (), T') \<Longrightarrow>
    challenge_step h parse_date (es, T) (ChallengeUsed (h token) # es, T')"

definition challenges_ok :: "challenge_event list \<times> challenge_table \<Rightarrow> bool" where
  "challenges_ok s =
     (case s of (es, T) \<Rightarrow>
        distinct (map ch_token_hash (ct_rows T)) \<and>
        (\<forall>r \<in> set (ct_rows T). issued_as r \<in> set es \<and> (ch_consumed r = None \<longrightarrow> ChallengeUsed (ch_token_hash r) \<notin> set es)) \<and>
        (\<forall>k. ChallengeUsed k \<in> set es \<longrightarrow> k \<in> ch_token_hash ` set (ct_rows T)) \<and>
        (\<forall>k. count_list es (ChallengeUsed k) \<le> 1))"

lemma issue_challenge_Inr:
  assumes "issue_challenge h parse_date now token ses op columns denied target expected lease_token (Some (version, answer)) L T = (Inr asked, T')"
  shows "h token \<notin> ch_token_hash ` set (ct_rows T) \<and> (\<exists>journal. T' = \<lparr>ct_rows = ct_rows T @
      [\<lparr>ch_tenant = ls_tenant ses, ch_operation = po_id (co_operation op), ch_entity = po_entity (co_operation op), ch_target = target,
        ch_version = ac_version asked, ch_owner = ls_user ses, ch_token_hash = h token, ch_answer_hash = h answer,
        ch_expires = ac_expires asked, ch_consumed = None\<rparr>], ct_journal = journal\<rparr>)"
proof -
  obtain seconds v a where p: "challenge_plan h parse_date now ses op columns denied target expected lease_token (Some (version, answer)) L = Inr (seconds, v, a)"
    using assms by (auto simp: issue_challenge_def split: sum.splits)
  then have "a = answer" by (auto simp: challenge_plan_def rbind_Inr_iff split: if_splits)
  then show ?thesis using assms p by (auto simp: issue_challenge_def list_ex_iff Let_def split: if_splits)
qed

lemma consume_challenge_Inr:
  assumes "consume_challenge h parse_date now ses op target expected token answer T = (Inr (), T')"
  shows "\<exists>r. r \<in> set (ct_rows T) \<and> ch_tenant r = ls_tenant ses \<and> ch_token_hash r = h token \<and> ch_owner r = ls_user ses \<and>
      ch_consumed r = None \<and> now < ch_expires r \<and> ch_operation r = po_id (co_operation op) \<and> ch_entity r = po_entity (co_operation op) \<and>
      ch_target r = target \<and> (\<exists>v. token_of parse_date expected = Inr v \<and> token_of parse_date (ch_version r) = Inr v) \<and>
      matches_digest h answer (ch_answer_hash r)"
    and "ct_rows T' = map (\<lambda>r. if ch_tenant r = ls_tenant ses \<and> ch_token_hash r = h token \<and> ch_consumed r = None
                              then r\<lparr>ch_consumed := Some now\<rparr> else r) (ct_rows T)"
proof -
  obtain w where w: "challenge_refusal h parse_date now ses (co_operation op) target expected answer (challenge_of h ses token T) = Inr w"
    using assms by (auto simp: consume_challenge_def rbind_Inr_iff split: sum.splits)
  then obtain r where r: "challenge_of h ses token T = Some r" by (auto simp: challenge_refusal_def split: option.splits)
  then have "r \<in> set (ct_rows T) \<and> ch_tenant r = ls_tenant ses \<and> ch_token_hash r = h token"
    unfolding challenge_of_def by (rule find_first_Some)
  then show "\<exists>r. r \<in> set (ct_rows T) \<and> ch_tenant r = ls_tenant ses \<and> ch_token_hash r = h token \<and> ch_owner r = ls_user ses \<and>
      ch_consumed r = None \<and> now < ch_expires r \<and> ch_operation r = po_id (co_operation op) \<and> ch_entity r = po_entity (co_operation op) \<and>
      ch_target r = target \<and> (\<exists>v. token_of parse_date expected = Inr v \<and> token_of parse_date (ch_version r) = Inr v) \<and>
      matches_digest h answer (ch_answer_hash r)"
    using w by (intro exI [of _ r]) (auto simp: challenge_refusal_def r rbind_Inr_iff by_lease_def split: if_splits sum.splits)
  show "ct_rows T' = map (\<lambda>r. if ch_tenant r = ls_tenant ses \<and> ch_token_hash r = h token \<and> ch_consumed r = None
                              then r\<lparr>ch_consumed := Some now\<rparr> else r) (ct_rows T)"
    using assms by (auto simp: consume_challenge_def split: sum.splits)
qed

section \<open>Invariant\<close>

lemma challenges_okD:
  assumes "challenges_ok (es, T)"
  shows "distinct (map ch_token_hash (ct_rows T))" "r \<in> set (ct_rows T) \<Longrightarrow> issued_as r \<in> set es"
    "r \<in> set (ct_rows T) \<Longrightarrow> ch_consumed r = None \<Longrightarrow> ChallengeUsed (ch_token_hash r) \<notin> set es"
    "ChallengeUsed k \<in> set es \<Longrightarrow> k \<in> ch_token_hash ` set (ct_rows T)" "count_list es (ChallengeUsed k) \<le> 1"
  using assms unfolding challenges_ok_def by auto

lemma challenge_issue_ok:
  assumes ok: "challenges_ok (es, T)"
    and c: "issue_challenge h parse_date now token ses op columns denied target expected lease_token (Some (version, answer)) L T = (Inr asked, T')"
  shows "challenges_ok (ChallengeIssued (h token) (ls_tenant ses) (ls_user ses) (po_id (co_operation op)) (po_entity (co_operation op)) target
         (ac_version asked) (h answer) (ac_expires asked) # es, T')"
proof -
  note o = challenges_okD [OF ok]
  obtain journal where T': "h token \<notin> ch_token_hash ` set (ct_rows T)" "T' = \<lparr>ct_rows = ct_rows T @
      [\<lparr>ch_tenant = ls_tenant ses, ch_operation = po_id (co_operation op), ch_entity = po_entity (co_operation op), ch_target = target,
        ch_version = ac_version asked, ch_owner = ls_user ses, ch_token_hash = h token, ch_answer_hash = h answer,
        ch_expires = ac_expires asked, ch_consumed = None\<rparr>], ct_journal = journal\<rparr>"
    using issue_challenge_Inr [OF c] by blast
  have "ChallengeUsed (h token) \<notin> set es" using o(4) T'(1) by blast
  then show ?thesis using o T'(1) unfolding challenges_ok_def T'(2) by (auto simp: issued_as_def)
qed

lemma challenge_consume_ok:
  assumes ok: "challenges_ok (es, T)" and c: "consume_challenge h parse_date now ses op target expected token answer T = (Inr (), T')"
  shows "challenges_ok (ChallengeUsed (h token) # es, T')"
proof -
  note o = challenges_okD [OF ok]
  let ?u = "\<lambda>r. if ch_tenant r = ls_tenant ses \<and> ch_token_hash r = h token \<and> ch_consumed r = None then r\<lparr>ch_consumed := Some now\<rparr> else r"
  obtain r where r: "r \<in> set (ct_rows T)" "ch_tenant r = ls_tenant ses" "ch_token_hash r = h token" "ch_consumed r = None"
    using consume_challenge_Inr(1) [OF c] by blast
  note T' = consume_challenge_Inr(2) [OF c]
  have hash: "ch_token_hash (?u x) = ch_token_hash x" "issued_as (?u x) = issued_as x" for x by (simp_all add: issued_as_def)
  have unused: "ChallengeUsed (h token) \<notin> set es" using o(3) [OF r(1,4)] r(3) by simp
  have only: "x = r" if "x \<in> set (ct_rows T)" "ch_token_hash x = h token" for x
    using o(1) r(1,3) that by (metis distinct_map inj_onD)
  have hashes: "ch_token_hash ` set (ct_rows T') = ch_token_hash ` set (ct_rows T)" unfolding T' set_map image_image hash(1) ..
  show ?thesis unfolding challenges_ok_def prod.case
  proof (intro conjI allI ballI impI)
    show "distinct (map ch_token_hash (ct_rows T'))" using o(1) by (simp add: T' comp_def hash(1) cong: map_cong)
  next
    fix x assume "x \<in> set (ct_rows T')"
    then obtain y where y: "y \<in> set (ct_rows T)" "x = ?u y" unfolding T' by auto
    show "issued_as x \<in> set (ChallengeUsed (h token) # es)" using o(2) [OF y(1)] by (simp add: y(2) hash(2))
    assume n: "ch_consumed x = None"
    then have "y = x" "ch_token_hash y \<noteq> h token" using y only [OF y(1)] r(2,4) by (auto split: if_splits)
    then show "ChallengeUsed (ch_token_hash x) \<notin> set (ChallengeUsed (h token) # es)" using o(3) [OF y(1)] n by simp
  next
    fix k assume "ChallengeUsed k \<in> set (ChallengeUsed (h token) # es)"
    then show "k \<in> ch_token_hash ` set (ct_rows T')" unfolding hashes using o(4) imageI [OF r(1), of ch_token_hash] r(3) by auto
  next
    fix k show "count_list (ChallengeUsed (h token) # es) (ChallengeUsed k) \<le> 1"
      using o(5) [of k] unused by (auto simp: count_list_0_iff)
  qed
qed

lemma challenge_step_ok: "challenge_step h parse_date s s' \<Longrightarrow> challenges_ok s \<Longrightarrow> challenges_ok s'"
  by (induction rule: challenge_step.induct) (rule challenge_issue_ok challenge_consume_ok; assumption)+

interpretation challenges: kept_invariant "([], no_challenges)" "challenge_step h parse_date" challenges_ok for h parse_date
proof
  show "challenges_ok ([], no_challenges)" by (simp add: challenges_ok_def no_challenges_def)
qed (rule challenge_step_ok)

section \<open>What a confirmation promises\<close>

text \<open>
  C40. A confirmation succeeds only with a token that was issued, to this user of this tenant for this
  Operation on this record at the version presented, together with the digest of the value shown then,
  before it expires, and only once.
\<close>

theorem a_confirmation_is_the_one_issued:
  assumes run: "reachable ([], no_challenges) (challenge_step h parse_date) (es, T)"
    and c: "consume_challenge h parse_date now ses op target expected token answer T = (Inr (), T')"
  shows "ChallengeUsed (h token) \<notin> set es \<and>
    (\<exists>version digest expires. ChallengeIssued (h token) (ls_tenant ses) (ls_user ses) (po_id (co_operation op))
         (po_entity (co_operation op)) target version digest expires \<in> set es \<and>
       now < expires \<and> matches_digest h answer digest \<and>
       (\<exists>v. token_of parse_date expected = Inr v \<and> token_of parse_date version = Inr v))"
proof -
  have ok: "challenges_ok (es, T)" using challenges.holds [OF run] .
  note o = challenges_okD [OF ok]
  obtain r where r: "r \<in> set (ct_rows T)" "ch_tenant r = ls_tenant ses" "ch_token_hash r = h token" "ch_owner r = ls_user ses"
      "ch_consumed r = None" "now < ch_expires r" "ch_operation r = po_id (co_operation op)" "ch_entity r = po_entity (co_operation op)"
      "ch_target r = target" "\<exists>v. token_of parse_date expected = Inr v \<and> token_of parse_date (ch_version r) = Inr v"
      "matches_digest h answer (ch_answer_hash r)"
    using consume_challenge_Inr(1) [OF c] by blast
  have "ChallengeIssued (h token) (ls_tenant ses) (ls_user ses) (po_id (co_operation op)) (po_entity (co_operation op)) target
      (ch_version r) (ch_answer_hash r) (ch_expires r) \<in> set es"
    using o(2) [OF r(1)] by (simp add: issued_as_def r)
  moreover have "ChallengeUsed (h token) \<notin> set es" using o(3) [OF r(1,5)] by (simp add: r(3))
  ultimately show ?thesis using r(6,10,11) by blast
qed

section \<open>A run\<close>

definition example_confirmed :: challenged_operation where
  "example_confirmed = \<lparr>co_operation = example_op\<lparr>po_lease := None\<rparr>, co_challenge = Some (''id'', ''PT5M'')\<rparr>"

definition example_normal :: string where "example_normal = ''2026-07-04T10:00:00.000001Z''"

definition example_challenge :: challenge where
  "example_challenge = \<lparr>ch_tenant = ''t'', ch_operation = ''o'', ch_entity = ''e'', ch_target = ''r'', ch_version = example_normal,
     ch_owner = ''u'', ch_token_hash = ''x'', ch_answer_hash = ''ab'', ch_expires = 301000, ch_consumed = None\<rparr>"

definition example_challenges :: challenge_table where
  "example_challenges = \<lparr>ct_rows = [example_challenge], ct_journal = [(''confirmation_challenge_issued'', ''e'', ''r'')]\<rparr>"

lemma example_asked:
  "issue_challenge (\<lambda>x. x) example_lease_parse 1000 ''x'' example_ses example_confirmed example_columns None ''r'' example_version None
     (Some (example_version, ''ab'')) empty_leases no_challenges =
   (Inr \<lparr>ac_token = ''x'', ac_field = ''id'', ac_target = ''r'', ac_version = example_normal, ac_expires = 301000\<rparr>, example_challenges)"
proof -
  have "challenge_plan (\<lambda>x. x) example_lease_parse 1000 example_ses example_confirmed example_columns None ''r'' example_version None
     (Some (example_version, ''ab'')) empty_leases = Inr (300, example_normal, ''ab'')"
    by (simp add: challenge_plan_def challenge_contract_def example_confirmed_def example_op_def column_for_field_def example_columns_def
        example_duration by_lease_def lease_checked_def example_token example_normal_def)
  then show ?thesis
    by (simp add: issue_challenge_def no_challenges_def example_confirmed_def example_op_def example_ses_def example_challenges_def example_challenge_def)
qed

lemma example_challenge_run:
  "reachable ([], no_challenges) (challenge_step (\<lambda>x. x) example_lease_parse) ([issued_as example_challenge], example_challenges)"
proof -
  have e: "ChallengeIssued ''x'' (ls_tenant example_ses) (ls_user example_ses) (po_id (co_operation example_confirmed))
      (po_entity (co_operation example_confirmed)) ''r'' example_normal ''ab'' 301000 = issued_as example_challenge"
    by (simp add: issued_as_def example_challenge_def example_ses_def example_confirmed_def example_op_def)
  from cs_issue [where es = "[]", OF example_asked] have "challenge_step (\<lambda>x. x) example_lease_parse ([], no_challenges) ([issued_as example_challenge], example_challenges)"
    by (simp only: asked_confirmation.select_convs e)
  then show ?thesis by (rule reachable_step [OF reachable_start])
qed

theorem confirmation_witness:
  "ChallengeUsed ''x'' \<notin> set [issued_as example_challenge] \<and> 2000 < ch_expires example_challenge"
proof -
  have "fst (consume_challenge (\<lambda>x. x) example_lease_parse 2000 example_ses example_confirmed ''r'' example_version ''x'' ''ab'' example_challenges) = Inr ()"
    by (simp add: consume_challenge_def challenge_contract_def challenge_refusal_def challenge_of_def example_challenges_def example_challenge_def
        example_confirmed_def example_op_def example_ses_def by_lease_def example_token example_normal_def matches_digest_def list_all2_refl)
  then have "consume_challenge (\<lambda>x. x) example_lease_parse 2000 example_ses example_confirmed ''r'' example_version ''x'' ''ab'' example_challenges =
      (Inr (), snd (consume_challenge (\<lambda>x. x) example_lease_parse 2000 example_ses example_confirmed ''r'' example_version ''x'' ''ab'' example_challenges))"
    by (metis prod.collapse)
  from a_confirmation_is_the_one_issued [OF example_challenge_run this] show ?thesis by (auto simp: issued_as_def)
qed

end
