(* ===== verification/Exact_Numeric.thy ===== *)
theory Exact_Numeric
  imports Js_Json
begin

text \<open>
  Exact numbers (\<open>packages/operations/src/exact-numeric.ts\<close>, with the number patterns and
  \<open>decimalText\<close> of \<open>scalar-projection.ts\<close> and the row keywords of \<open>value-invariants.ts\<close> that rest on
  them): a number is the decimal its text spells, compared as sign, digits and scale.
\<close>

section \<open>Decimal texts\<close>

text \<open>The part of an optional sign, and what follows it.\<close>

definition unsigned_part :: "string \<Rightarrow> string" where
  "unsigned_part s = (if starts_with s ''-'' then drop 1 s else s)"

text \<open>\<open>0|[1-9][0-9]*\<close>\<close>

definition integer_digits :: "string \<Rightarrow> bool" where
  "integer_digits s = (s \<noteq> [] \<and> list_all is_digit s \<and> (s = ''0'' \<or> hd s \<noteq> CHR ''0''))"

definition decimal_pattern :: "string \<Rightarrow> bool" where
  "decimal_pattern s =
     (let u = unsigned_part s; i = takeWhile (\<lambda>c. c \<noteq> CHR ''.'') u; r = drop (length i) u
      in integer_digits i \<and> (r = [] \<or> (drop 1 r \<noteq> [] \<and> list_all is_digit (drop 1 r))))"

definition integer_text_pattern :: "string \<Rightarrow> bool" where
  "integer_text_pattern s = integer_digits (unsigned_part s)"

text \<open>\<open>d.dddde\<plusminus>x\<close> as plain digits.\<close>

definition expand_exponent :: "string \<Rightarrow> string" where
  "expand_exponent s =
     (let sign = (if starts_with s ''-'' then ''-'' else []); u = drop (length sign) s;
          integer = takeWhile is_digit u; r = drop (length integer) u;
          fraction = (if starts_with r ''.'' then takeWhile is_digit (drop 1 r) else []);
          r' = (if starts_with r ''.'' then drop (1 + length fraction) r else r);
          xsign = take 1 (drop 1 r'); x = drop 2 r'
      in if integer = [] \<or> (starts_with r ''.'' \<and> fraction = []) \<or> take 1 r' \<noteq> ''e'' \<or> (xsign \<noteq> ''+'' \<and> xsign \<noteq> ''-'') \<or> x = [] \<or>
            \<not> list_all is_digit x
         then s
         else let digits = integer @ fraction;
                  point = int (length integer) + (if xsign = ''-'' then - int (digits_value x) else int (digits_value x))
              in if point \<le> 0 then sign @ ''0.'' @ replicate (nat (- point)) (CHR ''0'') @ digits
                 else if int (length digits) \<le> point then sign @ digits @ replicate (nat point - length digits) (CHR ''0'')
                 else sign @ take (nat point) digits @ CHR ''.'' # drop (nat point) digits)"

text \<open>A value of the language: one of JSON, or a \<open>bigint\<close>.\<close>

datatype wire_value = WBig int | WVal jsval

definition decimal_text :: "wire_value \<Rightarrow> wire_value" where
  "decimal_text v =
     (case v of
        WBig i \<Rightarrow> WVal (VStr (int_text i))
      | WVal (VNum n) \<Rightarrow> if js_finite n then WVal (VStr (expand_exponent (number_text n))) else v
      | _ \<Rightarrow> v)"

section \<open>Exact decimals\<close>

record exact_decimal =
  xd_negative :: bool
  xd_digits :: int
  xd_scale :: nat

definition max_exact_numeric_length :: nat where "max_exact_numeric_length = 1024"

definition is_exact_decimal_text :: "jsval \<Rightarrow> bool" where
  "is_exact_decimal_text v = (case v of VStr s \<Rightarrow> length s \<le> max_exact_numeric_length \<and> decimal_pattern s | _ \<Rightarrow> False)"

definition is_exact_integer_text :: "jsval \<Rightarrow> bool" where
  "is_exact_integer_text v = (case v of VStr s \<Rightarrow> length s \<le> max_exact_numeric_length \<and> integer_text_pattern s | _ \<Rightarrow> False)"

definition exact_decimal_text :: "string \<Rightarrow> exact_decimal option" where
  "exact_decimal_text s =
     (if max_exact_numeric_length < length s \<or> \<not> decimal_pattern s then None
      else let negative = starts_with s ''-''; u = unsigned_part s;
               integer = takeWhile (\<lambda>c. c \<noteq> CHR ''.'') u; fraction = drop (length integer + 1) u;
               digits = int (digits_value (integer @ fraction))
           in Some \<lparr>xd_negative = (negative \<and> digits \<noteq> 0), xd_digits = digits, xd_scale = length fraction\<rparr>)"

definition exact_decimal_of :: "wire_value \<Rightarrow> exact_decimal option" where
  "exact_decimal_of v =
     (case v of
        WBig i \<Rightarrow> exact_decimal_text (int_text i)
      | WVal (VNum n) \<Rightarrow>
          (if \<not> js_finite n then None
           else case decimal_text v of WVal (VStr s) \<Rightarrow> exact_decimal_text s | _ \<Rightarrow> None)
      | WVal (VStr s) \<Rightarrow> if is_exact_decimal_text (VStr s) then exact_decimal_text s else None
      | _ \<Rightarrow> None)"

definition lifted :: "nat \<Rightarrow> exact_decimal \<Rightarrow> int" where
  "lifted scale d =
     (let magnitude = xd_digits d * 10 ^ (scale - xd_scale d)
      in if xd_negative d then - magnitude else magnitude)"

definition aligned :: "exact_decimal \<Rightarrow> exact_decimal \<Rightarrow> int \<times> int" where
  "aligned a b = (let scale = max (xd_scale a) (xd_scale b) in (lifted scale a, lifted scale b))"

definition compare_exact_numeric :: "wire_value \<Rightarrow> wire_value \<Rightarrow> int option" where
  "compare_exact_numeric left right =
     (case (exact_decimal_of left, exact_decimal_of right) of
        (Some a, Some b) \<Rightarrow> (case aligned a b of (l, r) \<Rightarrow> Some (if l = r then 0 else if l < r then - 1 else 1))
      | _ \<Rightarrow> None)"

text \<open>\<open>Some None\<close>: no bound authored; \<open>None\<close>: the bound is refused.\<close>

definition exact_numeric_rule :: "jsval \<Rightarrow> jsval option option" where
  "exact_numeric_rule rule =
     (case rule of
        VUndef \<Rightarrow> Some None
      | _ \<Rightarrow>
          (let value = (case rule of VObj _ kvs \<Rightarrow> (case map_of kvs ''value'' of Some v \<Rightarrow> v | None \<Rightarrow> VUndef)
                        | VArr _ _ \<Rightarrow> VUndef | VDate _ \<Rightarrow> VUndef | _ \<Rightarrow> rule)
           in case value of
                VNum n \<Rightarrow> if exact_decimal_of (WVal value) = None then None else Some (Some value)
              | VStr s \<Rightarrow> if exact_decimal_of (WVal value) = None then None else Some (Some value)
              | _ \<Rightarrow> None))"

definition exact_numeric_equals :: "wire_value \<Rightarrow> wire_value \<Rightarrow> bool" where
  "exact_numeric_equals left right = (compare_exact_numeric left right = Some 0)"

definition is_exact_whole_number :: "wire_value \<Rightarrow> bool" where
  "is_exact_whole_number v =
     (case exact_decimal_of v of None \<Rightarrow> False | Some d \<Rightarrow> xd_digits d mod 10 ^ xd_scale d = 0)"

record exact_bounds =
  xb_minimum :: "wire_value option"
  xb_maximum :: "wire_value option"
  xb_enum :: "wire_value list option"
  xb_integer :: bool

datatype exact_violation = NotNumeric | NotInteger | BelowMinimum | AboveMaximum | NotInEnum

definition exact_numeric_violation :: "wire_value \<Rightarrow> exact_bounds \<Rightarrow> exact_violation option" where
  "exact_numeric_violation v b =
     (if exact_decimal_of v = None then Some NotNumeric
      else if xb_integer b \<and> \<not> is_exact_whole_number v then Some NotInteger
      else if (case xb_minimum b of None \<Rightarrow> False
               | Some m \<Rightarrow> (case compare_exact_numeric v m of None \<Rightarrow> True | Some c \<Rightarrow> c < 0)) then Some BelowMinimum
      else if (case xb_maximum b of None \<Rightarrow> False
               | Some m \<Rightarrow> (case compare_exact_numeric v m of None \<Rightarrow> True | Some c \<Rightarrow> 0 < c)) then Some AboveMaximum
      else if (case xb_enum b of None \<Rightarrow> False | Some es \<Rightarrow> \<not> list_ex (exact_numeric_equals v) es) then Some NotInEnum
      else None)"

section \<open>Rows of one value\<close>

definition object_value :: "jsval \<Rightarrow> bool" where
  "object_value v = (case v of VObj _ _ \<Rightarrow> True | VDate _ \<Rightarrow> True | _ \<Rightarrow> False)"

definition numbers_ordered :: "string \<Rightarrow> string \<Rightarrow> jsval \<Rightarrow> bool" where
  "numbers_ordered lower upper v =
     (object_value v \<and>
      (case (own_prop v lower, own_prop v upper) of
         (Some l, Some u) \<Rightarrow> (case compare_exact_numeric (WVal l) (WVal u) of None \<Rightarrow> False | Some c \<Rightarrow> c \<le> 0)
       | _ \<Rightarrow> False))"

fun trim_zeros :: "int \<Rightarrow> nat \<Rightarrow> int \<times> nat" where
  "trim_zeros digits 0 = (digits, 0)"
| "trim_zeros digits (Suc scale) =
     (if digits mod 10 = 0 then trim_zeros (digits div 10) scale else (digits, Suc scale))"

definition number_key :: "exact_decimal \<Rightarrow> string" where
  "number_key d =
     (case trim_zeros (xd_digits d) (xd_scale d) of
        (digits, scale) \<Rightarrow> (if xd_negative d then CHR ''-'' else CHR ''+'') # int_text digits @ CHR '':'' # nat_digits scale)"

definition row_key :: "bool \<Rightarrow> jsval \<Rightarrow> string option" where
  "row_key numeric v =
     (if numeric then map_option number_key (exact_decimal_of (WVal v))
      else case v of
             VStr s \<Rightarrow> Some (''string:'' @ s)
           | VNum n \<Rightarrow> Some (''number:'' @ number_text n)
           | VBool b \<Rightarrow> Some (''boolean:'' @ (if b then ''true'' else ''false''))
           | _ \<Rightarrow> None)"

fun unique_rows :: "string \<Rightarrow> bool \<Rightarrow> string list \<Rightarrow> jsval list \<Rightarrow> bool" where
  "unique_rows field numeric seen [] = True"
| "unique_rows field numeric seen (item # items) =
     (object_value item \<and>
      (case own_prop item field of
         None \<Rightarrow> False
       | Some v \<Rightarrow>
           (case row_key numeric v of
              None \<Rightarrow> False
            | Some k \<Rightarrow> k \<notin> set seen \<and> unique_rows field numeric (k # seen) items)))"

definition unique_by :: "string \<Rightarrow> bool \<Rightarrow> jsval \<Rightarrow> bool" where
  "unique_by field numeric v = (case v of VArr _ items \<Rightarrow> unique_rows field numeric [] items | _ \<Rightarrow> False)"

section \<open>The number a text spells\<close>

definition spelled :: "string \<Rightarrow> rat" where
  "spelled s =
     (let u = unsigned_part s; i = takeWhile (\<lambda>c. c \<noteq> CHR ''.'') u; f = drop (length i + 1) u
      in (if starts_with s ''-'' then - 1 else 1) * (of_nat (digits_value i) + of_nat (digits_value f) / 10 ^ length f))"

definition numeric_text :: "wire_value \<Rightarrow> string option" where
  "numeric_text v =
     (case v of
        WBig i \<Rightarrow> Some (int_text i)
      | WVal (VNum n) \<Rightarrow> if js_finite n then Some (expand_exponent (number_text n)) else None
      | WVal (VStr s) \<Rightarrow> Some s
      | _ \<Rightarrow> None)"

definition numeric_value :: "wire_value \<Rightarrow> rat option" where
  "numeric_value v =
     (case numeric_text v of
        None \<Rightarrow> None
      | Some s \<Rightarrow> if length s \<le> max_exact_numeric_length \<and> decimal_pattern s then Some (spelled s) else None)"

definition decimal_worth :: "exact_decimal \<Rightarrow> rat" where
  "decimal_worth d = (if xd_negative d then - 1 else 1) * (of_int (xd_digits d) / 10 ^ xd_scale d)"

lemma digits_value_append: "digits_value (a @ b) = digits_value a * 10 ^ length b + digits_value b"
proof (induction b rule: rev_induct)
  case (snoc c b)
  then show ?case using digits_value_append_one [of "a @ b" c] digits_value_append_one [of b c] by (simp add: algebra_simps)
qed (simp add: digits_value_def)

lemma exact_decimal_text_worth:
  "map_option decimal_worth (exact_decimal_text s) =
     (if length s \<le> max_exact_numeric_length \<and> decimal_pattern s then Some (spelled s) else None)"
proof (cases "length s \<le> max_exact_numeric_length \<and> decimal_pattern s")
  case True
  define i f where "i = takeWhile (\<lambda>c. c \<noteq> CHR ''.'') (unsigned_part s)" and "f = drop (length i + 1) (unsigned_part s)"
  have e: "exact_decimal_text s = Some \<lparr>xd_negative = (starts_with s ''-'' \<and> int (digits_value (i @ f)) \<noteq> 0),
      xd_digits = int (digits_value (i @ f)), xd_scale = length f\<rparr>"
    using True by (simp add: exact_decimal_text_def i_def f_def Let_def)
  have "of_nat (digits_value (i @ f)) / (10 :: rat) ^ length f = of_nat (digits_value i) + of_nat (digits_value f) / 10 ^ length f"
    by (simp add: digits_value_append field_simps)
  then have "spelled s = (if starts_with s ''-'' then - 1 else 1) * (of_nat (digits_value (i @ f)) / 10 ^ length f)"
    by (simp add: spelled_def i_def f_def Let_def)
  then show ?thesis using True by (simp add: e decimal_worth_def)
qed (auto simp: exact_decimal_text_def)

lemma exact_decimal_worth: "map_option decimal_worth (exact_decimal_of v) = numeric_value v"
proof (cases v)
  case (WVal x)
  then show ?thesis
    by (cases x) (simp_all add: exact_decimal_of_def numeric_value_def numeric_text_def exact_decimal_text_worth decimal_text_def
        is_exact_decimal_text_def)
qed (simp add: exact_decimal_of_def numeric_value_def numeric_text_def exact_decimal_text_worth)

lemma exact_decimal_cases:
  "exact_decimal_of v = None \<Longrightarrow> numeric_value v = None"
  "exact_decimal_of v = Some d \<Longrightarrow> numeric_value v = Some (decimal_worth d)"
  using exact_decimal_worth [of v] by auto

lemma lifted_worth: "xd_scale d \<le> scale \<Longrightarrow> of_int (lifted scale d) = decimal_worth d * 10 ^ scale"
  by (auto simp: lifted_def decimal_worth_def Let_def power_add dest!: le_Suc_ex)

lemma aligned_order:
  assumes "aligned a b = (l, r)"
  shows "l = r \<longleftrightarrow> decimal_worth a = decimal_worth b" "l < r \<longleftrightarrow> decimal_worth a < decimal_worth b"
proof -
  let ?s = "max (xd_scale a) (xd_scale b)"
  have e: "(of_int l :: rat) = decimal_worth a * 10 ^ ?s" "(of_int r :: rat) = decimal_worth b * 10 ^ ?s"
    using assms by (auto simp: aligned_def Let_def lifted_worth)
  have "l = r \<longleftrightarrow> (of_int l :: rat) = of_int r" "l < r \<longleftrightarrow> (of_int l :: rat) < of_int r" by simp_all
  then show "l = r \<longleftrightarrow> decimal_worth a = decimal_worth b" "l < r \<longleftrightarrow> decimal_worth a < decimal_worth b"
    unfolding e by simp_all
qed

text \<open>Two values are compared as the numbers they spell.\<close>

lemma compare_is_exact:
  "compare_exact_numeric v w =
     (case (numeric_value v, numeric_value w) of
        (Some x, Some y) \<Rightarrow> Some (if x = y then 0 else if x < y then - 1 else 1)
      | _ \<Rightarrow> None)"
proof (cases "exact_decimal_of v"; cases "exact_decimal_of w")
  fix a b assume ab: "exact_decimal_of v = Some a" "exact_decimal_of w = Some b"
  obtain l r where lr: "aligned a b = (l, r)" by (metis prod.exhaust)
  show ?thesis using aligned_order [OF lr] by (simp add: compare_exact_numeric_def ab lr exact_decimal_cases(2) [OF ab(1)] exact_decimal_cases(2) [OF ab(2)])
qed (simp_all add: compare_exact_numeric_def exact_decimal_cases split: option.split)

lemma equals_is_exact: "exact_numeric_equals v w \<longleftrightarrow> numeric_value v \<noteq> None \<and> numeric_value v = numeric_value w"
  by (auto simp: exact_numeric_equals_def compare_is_exact split: option.splits if_splits)

lemma whole_is_exact: "is_exact_whole_number v \<longleftrightarrow> (\<exists>x. numeric_value v = Some x \<and> x \<in> \<int>)"
proof (cases "exact_decimal_of v")
  case (Some d)
  let ?p = "10 ^ xd_scale d :: int"
  have "decimal_worth d \<in> \<int> \<longleftrightarrow> (of_int (xd_digits d) / of_int ?p :: rat) \<in> \<int>"
    by (simp add: decimal_worth_def)
  also have "\<dots> \<longleftrightarrow> ?p dvd xd_digits d"
  proof
    assume "(of_int (xd_digits d) / of_int ?p :: rat) \<in> \<int>"
    then obtain k where "of_int (xd_digits d) / of_int ?p = (of_int k :: rat)" by (auto elim: Ints_cases)
    then have "(of_int (xd_digits d) :: rat) = of_int (?p * k)" by (simp add: field_simps)
    then show "?p dvd xd_digits d" by (metis dvd_triv_left of_int_eq_iff)
  qed (auto elim!: dvdE)
  finally show ?thesis using Some exact_decimal_cases(2) [OF Some] by (auto simp: is_exact_whole_number_def dvd_eq_mod_eq_0)
qed (simp add: is_exact_whole_number_def exact_decimal_cases)

text \<open>
  C38. A value passes its numeric contract exactly when the number it spells is whole where it must be,
  within the bounds, and a member of the closed domain; no digit is lost on the way, and how a number is
  spelled does not matter.
\<close>

theorem bounds_hold_exactly:
  "exact_numeric_violation v b = None \<longleftrightarrow>
     (\<exists>x. numeric_value v = Some x \<and> (xb_integer b \<longrightarrow> x \<in> \<int>) \<and>
        (case xb_minimum b of None \<Rightarrow> True | Some m \<Rightarrow> \<exists>y. numeric_value m = Some y \<and> y \<le> x) \<and>
        (case xb_maximum b of None \<Rightarrow> True | Some m \<Rightarrow> \<exists>y. numeric_value m = Some y \<and> x \<le> y) \<and>
        (case xb_enum b of None \<Rightarrow> True | Some es \<Rightarrow> \<exists>e \<in> set es. numeric_value e = Some x))"
proof (cases "numeric_value v")
  case None
  then have "exact_decimal_of v = None" using exact_decimal_worth [of v] by simp
  then show ?thesis using None by (simp add: exact_numeric_violation_def)
next
  case (Some x)
  then have d: "exact_decimal_of v \<noteq> None" using exact_decimal_cases(1) by force
  have low: "(case compare_exact_numeric v m of None \<Rightarrow> True | Some c \<Rightarrow> c < 0) \<longleftrightarrow> \<not> (\<exists>y. numeric_value m = Some y \<and> y \<le> x)" for m
    using Some by (auto simp: compare_is_exact split: option.splits)
  have high: "(case compare_exact_numeric v m of None \<Rightarrow> True | Some c \<Rightarrow> 0 < c) \<longleftrightarrow> \<not> (\<exists>y. numeric_value m = Some y \<and> x \<le> y)" for m
    using Some by (auto simp: compare_is_exact split: option.splits)
  have dom: "list_ex (exact_numeric_equals v) es \<longleftrightarrow> (\<exists>e \<in> set es. numeric_value e = Some x)" for es
    using Some by (force simp: list_ex_iff equals_is_exact)
  have "exact_numeric_violation v b = None \<longleftrightarrow> (xb_integer b \<longrightarrow> x \<in> \<int>) \<and>
      (case xb_minimum b of None \<Rightarrow> True | Some m \<Rightarrow> \<exists>y. numeric_value m = Some y \<and> y \<le> x) \<and>
      (case xb_maximum b of None \<Rightarrow> True | Some m \<Rightarrow> \<exists>y. numeric_value m = Some y \<and> x \<le> y) \<and>
      (case xb_enum b of None \<Rightarrow> True | Some es \<Rightarrow> \<exists>e \<in> set es. numeric_value e = Some x)"
    unfolding exact_numeric_violation_def low high dom whole_is_exact
    using d Some by (cases "xb_minimum b"; cases "xb_maximum b"; cases "xb_enum b") (simp_all del: not_None_eq)
  then show ?thesis using Some by simp
qed


lemma trim_zeros_worth:
  "trim_zeros digits scale = (d, s) \<Longrightarrow> (of_int digits :: rat) / 10 ^ scale = of_int d / 10 ^ s \<and> (s = 0 \<or> d mod 10 \<noteq> 0)"
proof (induction digits scale arbitrary: d s rule: trim_zeros.induct)
  case (2 digits scale)
  show ?case
  proof (cases "digits mod 10 = 0")
    case True
    then have "(of_int digits :: rat) = 10 * of_int (digits div 10)" by (metis mod_mult_div_eq add_0 of_int_mult of_int_numeral)
    then show ?thesis using 2 True by simp
  qed (use 2 in simp)
qed simp

lemma trimmed_unique:
  assumes "(of_int d :: rat) / 10 ^ s = of_int d' / 10 ^ s'" "s = 0 \<or> d mod 10 \<noteq> 0" "s' = 0 \<or> d' mod 10 \<noteq> 0"
  shows "d = d' \<and> s = s'"
proof -
  have le: "b = a" if e: "(of_int x :: rat) / 10 ^ a = of_int y / 10 ^ b" and x: "a = 0 \<or> x mod 10 \<noteq> 0" and ab: "b \<le> a" for x y :: int and a b :: nat
  proof (rule ccontr)
    assume "b \<noteq> a"
    then obtain k where k: "a = b + Suc k" using ab less_imp_Suc_add [of b a] by auto
    have "(of_int x :: rat) = of_int (y * 10 ^ Suc k)" using e by (simp add: k power_add field_simps)
    then have "x = y * 10 ^ Suc k" by (simp only: of_int_eq_iff)
    then have "x mod 10 = 0" by simp
    then show False using x k by simp
  qed
  have "s = s'"
  proof (cases "s' \<le> s")
    case True
    then show ?thesis using le [OF assms(1,2)] by simp
  next
    case False
    then show ?thesis using le [OF assms(1) [symmetric] assms(3)] by simp
  qed
  then show ?thesis using assms(1) by simp
qed

lemma nat_digits_inj: "nat_digits m = nat_digits n \<longleftrightarrow> m = n"
  by (metis digits_value_nat_digits)

lemma number_key_eq:
  assumes "0 \<le> xd_digits a" "0 \<le> xd_digits b" "xd_negative a \<Longrightarrow> xd_digits a \<noteq> 0" "xd_negative b \<Longrightarrow> xd_digits b \<noteq> 0"
  shows "number_key a = number_key b \<longleftrightarrow> decimal_worth a = decimal_worth b"
proof -
  obtain d s d' s' where t: "trim_zeros (xd_digits a) (xd_scale a) = (d, s)" "trim_zeros (xd_digits b) (xd_scale b) = (d', s')"
    by (metis prod.exhaust)
  note w = trim_zeros_worth [OF t(1)] trim_zeros_worth [OF t(2)]
  have pos: "0 \<le> d" "0 \<le> d'" "d = 0 \<longleftrightarrow> xd_digits a = 0" "d' = 0 \<longleftrightarrow> xd_digits b = 0"
  proof -
    have "0 \<le> x" if "(of_int y :: rat) / 10 ^ m = of_int x / 10 ^ n" "0 \<le> y" for x y :: int and m n :: nat
    proof -
      have "0 \<le> (of_int x :: rat) / 10 ^ n" unfolding that(1) [symmetric] using that(2) by simp
      moreover have "0 < (10 :: rat) ^ n" by simp
      ultimately have "0 \<le> (of_int x :: rat)" by (simp add: pos_le_divide_eq)
      then show ?thesis by simp
    qed
    then show "0 \<le> d" "0 \<le> d'" using w assms(1,2) by blast+
    have "(of_int d :: rat) / 10 ^ s = 0 \<longleftrightarrow> (of_int (xd_digits a) :: rat) / 10 ^ xd_scale a = 0"
      "(of_int d' :: rat) / 10 ^ s' = 0 \<longleftrightarrow> (of_int (xd_digits b) :: rat) / 10 ^ xd_scale b = 0" using w by simp_all
    then show "d = 0 \<longleftrightarrow> xd_digits a = 0" "d' = 0 \<longleftrightarrow> xd_digits b = 0" by simp_all
  qed
  have colon: "CHR '':'' \<notin> set (nat_digits n)" for n using nat_digits_digits [of "CHR '':''" n] by (auto simp: is_digit_def code_def)
  have split: "nat_digits m @ CHR '':'' # nat_digits s = nat_digits n @ CHR '':'' # nat_digits s' \<longleftrightarrow>
      nat_digits m = nat_digits n \<and> nat_digits s = nat_digits s'" for m n
    by (rule append_Cons_eq_iff [OF colon colon])
  have keys: "number_key a = number_key b \<longleftrightarrow> xd_negative a = xd_negative b \<and> d = d' \<and> s = s'"
    using pos(1,2) by (auto simp: number_key_def t int_text_def split nat_digits_inj eq_nat_nat_iff)
  have worth: "decimal_worth a = (if xd_negative a then - 1 else 1) * (of_int d / 10 ^ s)" "decimal_worth b = (if xd_negative b then - 1 else 1) * (of_int d' / 10 ^ s')"
    using w by (simp_all add: decimal_worth_def)
  have sign: "decimal_worth a < 0 \<longleftrightarrow> xd_negative a" "decimal_worth b < 0 \<longleftrightarrow> xd_negative b"
    using pos assms(3,4) by (auto simp: worth field_simps)
  show ?thesis
  proof
    assume e: "decimal_worth a = decimal_worth b"
    then have n: "xd_negative a = xd_negative b" using sign by simp
    then have "(of_int d :: rat) / 10 ^ s = of_int d' / 10 ^ s'" using e by (simp add: worth split: if_splits)
    from trimmed_unique [OF this w(1) [THEN conjunct2] w(2) [THEN conjunct2]] n show "number_key a = number_key b" unfolding keys by simp
  qed (simp add: keys worth)
qed


lemma exact_decimal_shape:
  assumes "exact_decimal_of v = Some d"
  shows "0 \<le> xd_digits d \<and> (xd_negative d \<longrightarrow> xd_digits d \<noteq> 0)"
proof -
  obtain s where "exact_decimal_text s = Some d"
    using assms by (auto simp: exact_decimal_of_def split: wire_value.splits jsval.splits if_splits)
  then show ?thesis by (auto simp: exact_decimal_text_def Let_def split: if_splits)
qed

lemma numeric_row_key:
  assumes "row_key True v = Some k" and "row_key True w = Some l"
  shows "k = l \<longleftrightarrow> numeric_value (WVal v) = numeric_value (WVal w)"
proof -
  obtain a b where ab: "exact_decimal_of (WVal v) = Some a" "exact_decimal_of (WVal w) = Some b" "k = number_key a" "l = number_key b"
    using assms by (auto simp: row_key_def)
  show ?thesis using number_key_eq [of a b] exact_decimal_shape [OF ab(1)] exact_decimal_shape [OF ab(2)]
      exact_decimal_cases(2) [OF ab(1)] exact_decimal_cases(2) [OF ab(2)] by (simp add: ab)
qed

text \<open>The number a row carries under the field.\<close>

definition row_number :: "string \<Rightarrow> jsval \<Rightarrow> rat option" where
  "row_number field item =
     (if object_value item then (case own_prop item field of None \<Rightarrow> None | Some v \<Rightarrow> numeric_value (WVal v)) else None)"

lemma unique_rows_numeric:
  assumes "\<And>v k. row_key True v = Some k \<Longrightarrow> k \<in> set seen \<longleftrightarrow> numeric_value (WVal v) \<in> N"
  shows "unique_rows field True seen items \<longleftrightarrow>
    (\<forall>i \<in> set items. row_number field i \<noteq> None \<and> row_number field i \<notin> N) \<and> distinct (map (row_number field) items)"
  using assms
proof (induction items arbitrary: seen N)
  case (Cons item items)
  show ?case
  proof (cases "\<exists>v k. object_value item \<and> own_prop item field = Some v \<and> row_key True v = Some k")
    case True
    then obtain v k where v: "object_value item" "own_prop item field = Some v" "row_key True v = Some k" by blast
    then have n: "row_number field item = numeric_value (WVal v)" "numeric_value (WVal v) \<noteq> None"
      using exact_decimal_cases(2) by (auto simp: row_number_def row_key_def)
    have "l \<in> set (k # seen) \<longleftrightarrow> numeric_value (WVal w) \<in> insert (numeric_value (WVal v)) N" if "row_key True w = Some l" for w l
      using Cons.prems [OF that] numeric_row_key [OF that v(3)] by simp
    from Cons.IH [OF this] have ih: "unique_rows field True (k # seen) items \<longleftrightarrow>
        (\<forall>i \<in> set items. row_number field i \<noteq> None \<and> row_number field i \<notin> insert (row_number field item) N) \<and>
        distinct (map (row_number field) items)" by (simp only: n(1))
    show ?thesis unfolding unique_rows.simps v(2) option.case v(3) ih Cons.prems [OF v(3)] n(1) [symmetric]
      using v(1) n by (auto simp: image_iff)
  next
    case False
    then have "row_number field item = None"
      using exact_decimal_cases(1) by (fastforce simp: row_number_def row_key_def split: option.splits)
    moreover have "\<not> unique_rows field True seen (item # items)" using False by (auto split: option.splits)
    ultimately show ?thesis by simp
  qed
qed simp

text \<open>
  C39. Rows unique by a numeric field are exactly the rows that all carry a number there, no two the
  same number, however each is spelled.
\<close>

theorem unique_numbers_are_distinct:
  "unique_by field True v \<longleftrightarrow>
     (\<exists>r items. v = VArr r items \<and> (\<forall>i \<in> set items. row_number field i \<noteq> None) \<and> distinct (map (row_number field) items))"
proof -
  have "unique_rows field True [] items \<longleftrightarrow> (\<forall>i \<in> set items. row_number field i \<noteq> None) \<and> distinct (map (row_number field) items)" for items
    using unique_rows_numeric [of "[]" "{}" field items] by simp
  then show ?thesis by (cases v) (auto simp: unique_by_def)
qed

section \<open>Example\<close>

text \<open>Spellings of one number are one number.\<close>

lemma example_spellings:
  "compare_exact_numeric (WVal (VStr ''-0.00'')) (WVal (VStr ''0'')) = Some 0"
  "compare_exact_numeric (WVal (VStr ''1.5'')) (WVal (VStr ''1.25'')) = Some 1"
  by code_simp+

section \<open>Witnesses\<close>

lemma example_values:
  "numeric_value (WVal (VStr ''1.50'')) = Some (3 / 2)" "numeric_value (WVal (VStr ''1.5'')) = Some (3 / 2)"
  "numeric_value (WVal (VStr ''2'')) = Some 2"
  by (simp_all add: numeric_value_def numeric_text_def spelled_def decimal_pattern_def integer_digits_def unsigned_part_def
      starts_with_def digits_value_def code_def is_digit_def max_exact_numeric_length_def)

theorem bounds_witness:
  "exact_numeric_violation (WVal (VStr ''1.50''))
     \<lparr>xb_minimum = Some (WVal (VStr ''1.5'')), xb_maximum = Some (WVal (VStr ''2'')), xb_enum = Some [WVal (VStr ''2''), WVal (VStr ''1.5'')],
      xb_integer = False\<rparr> = None"
  by (rule bounds_hold_exactly [THEN iffD2])
    (use example_values in \<open>simp del: eq_divide_eq_numeral1 divide_eq_eq_numeral1\<close>)

theorem unique_witness:
  "unique_by ''n'' True (VArr None [VObj None [(''n'', VStr ''1.50'')], VObj None [(''n'', VStr ''2'')]])"
  by (rule unique_numbers_are_distinct [THEN iffD2]) (simp add: row_number_def object_value_def example_values del: eq_divide_eq_numeral1 divide_eq_eq_numeral1)

end
