(* ===== verification/Spec2Isabelle.thy ===== *)
theory Spec2Isabelle
  imports Auth_Safe Formula_Checked Formula_Circular Formula_Results Formula_Editing Formula_Roundtrip Connector_Governor
    Job_Worker Edit_Leases Api_Key_Sessions Capability_Grant_Guesses Operation_Receipts Confirmations
    Exact_Numeric
begin

text \<open>
  OpenShapeForge compiles authored YAML into a multi-tenant business application and runs it: a compiler,
  an API server over PostgreSQL and Keycloak, connectors to providers, background jobs and web clients.
  This library models the parts of it that decide something on their own and where a mistake is silent:
  the expression language authorization rests on, the formula language tenants write, the numbers that
  cross the transports, and the services that hold a promise over time, which are the connector
  governor, the job queue, edit leases, confirmations, API keys, capability grants and idempotency receipts.

  \<^bold>\<open>How the parts meet.\<close>  An authored formula is parsed, checked and printed by \<open>packages/formula\<close>, lowered to a
  canonical expression, and evaluated by the evaluator of \<open>packages/compiler\<close>; authorization conditions
  are canonical expressions of a safe subset.  An Operation reaches the runtime under a session, which a
  person, an API key or a capability grant gave; a write on a record may need an edit lease and a
  confirmation; a keyed
  Operation runs under a receipt; work that must happen later is a job, whose actor session is stored with
  it; a call to a provider goes through the governor.

  \<^bold>\<open>The language.\<close>  \<open>OSF_Prelude\<close> holds results with an error side, insertion-ordered maps and list facts;
  \<open>State_Machines\<close> reachability and the interface \<open>kept_invariant\<close>, which every stateful component
  interprets on its own steps.  \<open>Js_Number\<close>, \<open>Js_Text\<close>, \<open>Js_Date\<close>, \<open>Js_Value\<close> and \<open>Js_Json\<close> model what the
  source uses of JavaScript: binary64 numbers with their rounding, text and its conversions, the
  proleptic calendar of \<open>Date\<close>, values with object identity and a host prototype, and \<open>JSON.stringify\<close>.
  A text is a list of code units of Latin-1; the source's texts may hold any UTF-16 unit.

  \<^bold>\<open>Canonical expressions\<close> (\<open>compiler/src/authoring/canonical\<close>).  \<open>Expr_Eval\<close> is the open-world evaluator,
  \<open>Auth_Safe\<close> the closed-world subset with its limits and its three-valued verdict.  An authorization verdict
  survives every completion of the missing values and agrees with the ordinary evaluator; a validated
  condition is within its limits.

  \<^bold>\<open>Formulas\<close> (\<open>packages/formula/src\<close>).  \<open>Formula_Types\<close>, \<open>Formula_Lexer\<close> and \<open>Formula_Parser\<close> (\<open>syntax.ts\<close>),
  \<open>Formula_Spans\<close> for the stretches of text of its tokens, \<open>Formula_Functions\<close> (\<open>functions.ts\<close>),
  \<open>Formula_Graph\<close> and \<open>Formula_Cycles\<close> (\<open>graph.ts\<close>), \<open>Formula_Check\<close> and \<open>Formula_Typing\<close> (\<open>check.ts\<close>),
  \<open>Formula_Dependencies\<close> and \<open>Formula_Reads\<close> (\<open>dependencies.ts\<close>), \<open>Formula_Circular\<close> for the refusal of
  circular formulas (\<open>check.ts\<close>, \<open>graph.ts\<close>), \<open>Formula_Evaluate\<close>, \<open>Formula_Sound\<close>,
  \<open>Formula_Checked\<close> and \<open>Formula_Results\<close> (\<open>evaluate.ts\<close>), \<open>Formula_Format\<close> and \<open>Formula_Roundtrip\<close>
  (\<open>format.ts\<close>), \<open>Formula_Editor\<close> and \<open>Formula_Editing\<close> (\<open>editor.ts\<close>).  Parsing ends with a tree of the
  documented grammar or a refusal inside the text; the cycles, the evaluation order and the affected
  definitions are those of the reads relation; a formula is refused as circular exactly when its field
  reads itself, told from its syntax tree and the stored dependencies of the other fields;
  an accepted formula is typed, depends on exactly what it
  reads, and evaluates to a value of its type, blank or a documented fault within the bounds; what is
  quoted reads back.  The parser's fuel is one unit more than its nesting limit, that of the graph
  searches one unit for each node; both are proved to be enough.

  \<^bold>\<open>Exact numbers\<close> (\<open>packages/operations/src\<close>).  \<open>Exact_Numeric\<close>: decimal texts as sign, digits and scale;
  comparison, bounds and uniqueness are those of the numbers spelled.

  \<^bold>\<open>Connector governor\<close> (\<open>connectors/reliability.ts\<close>).  \<open>Connector_Limiter\<close> is the concurrency limiter with its
  line of waiters and abort signals, \<open>Connector_Policy\<close> the rate window, the breaker and the retry policy,
  \<open>Connector_Governor\<close> any number of interleaved runs.  Slots are conserved and waiting ends; the rate is at
  most doubled in any minute; the breaker refines the history of its upstream; only an operation whose
  contract makes retries eligible, a query or one that declares idempotency, is tried more than once.
  In the runs the limit of a key is constant, where \<open>acquire\<close> takes it with each call.

  \<^bold>\<open>Jobs\<close> (\<open>jobs\<close>).  \<open>Job_Session\<close> is the stored actor session, \<open>Job_Store\<close> the table and its operations,
  \<open>Job_Runs\<close> their interleavings, \<open>Job_Worker\<close> one run of a claimed job with every point it may fail at: a
  commit reported as failed may have taken effect, and the settlement apart from a failed transaction may
  not go through.  Only the newest claim settles a job and once; rows stay well formed; attempts are
  bounded; work a handler has started is claimed again, in any later history, only when the handler asked
  for it, an operator requeued it, or nothing of the run was committed and its lease ran out.

  \<^bold>\<open>Edit leases\<close> (\<open>operations/entity/edit-leases.ts\<close>).  \<open>Timestamps\<close> gives record versions their one spelling,
  \<open>Edit_Leases\<close> every operation of the service.  A held lease is its owner's, and each taking of it
  authorises one protected write.

  \<^bold>\<open>Confirmations\<close> (\<open>operations/entity/confirmation-challenges.ts\<close>).  \<open>Confirmations\<close> issues and consumes the
  challenges of destructive Operations: a confirmation is one that was issued, for what it was issued, once.

  \<^bold>\<open>API keys\<close> (\<open>auth/api-key\<close>).  \<open>Api_Key_Format\<close> is the wire format with its CRC-32 on 32-bit words,
  \<open>Api_Key_Rules\<close> the ceiling and lifetimes, \<open>Api_Keys\<close> the provisioning service and the reconciler, \<open>Api_Key_Runs\<close>
  their interleavings, \<open>Api_Key_Sessions\<close> resolution and the token cache.  Creating an integration is three
  transactions, with a fourth when the attempt was lost, and anything may come between them.  No key
  exceeds its minter; an integration once disabled stays disabled and gains no live key; a withdrawn key
  gives no session, and a session is a service's under the identity its own token is verified to; a
  cached token is fresh.

  \<^bold>\<open>Capability grants\<close> (\<open>operations/capability-grant-token.ts\<close>, \<open>capability-grants.ts\<close>,
  \<open>capability-grant-resolution.ts\<close>).  \<open>Capability_Grants\<close> issues, lists, revokes and purges,
  \<open>Capability_Grant_Use\<close> resolves a presented token and counts its use, \<open>Capability_Grant_Guesses\<close> follows what
  the answers tell a guesser.  A grant is used at most as often as it was issued for, only while it is
  live and not locked; within fifteen minutes at most eight wrong secrets are told from the right one, and
  eight more for each time the right one is presented, which clears the count.

  \<^bold>\<open>Receipts\<close> (\<open>operations/execution-receipts.ts\<close>).  \<open>Operation_Receipts\<close>: under one key of one actor authored
  work is committed or admitted at most once, a completed request is replayed for good, and a local
  execution commits its effects with its completed receipt, replays, or fails for a stated reason and
  leaves nothing.  A local run leaves its note in a log next to the data, committed or rolled back with it.

  \<^bold>\<open>Modelling choices.\<close>  A table is the list of its rows by key, and a database transaction is one step that sees
  the rows of its tenant and leaves nothing behind when it throws; where a service commits several times, each
  commit is a step and any other step may come between.  Clocks, random bytes, hashes, provider and realm
  answers, \<open>jsonb\<close> equality, advisory locks, the outcome of a commit and authored code are arguments, with
  what the code relies on stated as hypotheses.  Tokens are assumed to collide with none issued before, as a
  premise of the step that issues them.  An error is a constructor; its message text is left out where
  nothing reads it.  Canonical expressions are typed, so a group whose members are null or no list cannot
  be written down; the number an exponent form spells is read through the code's own expansion of it.

  \<^bold>\<open>Not modelled.\<close>  The compiler's generators and the entity runtime write SQL, GraphQL and TypeScript text from
  generated manifests; the transports, the control plane, the MCP server, the identity link and the plugin
  host are glue around Fastify, GraphQL Yoga, Keycloak, jose and Kysely; documents, layout and the clients
  are presentation.  Of the modelled parts, the paging queries of jobs and API keys, the poll loop and
  timers of the worker, the date and time-zone row checks, and the executor that tests may register
  are left out.
\<close>

end
